(* ===== verification/Prelude.thy ===== *)
theory Prelude
  imports Main "HOL-Library.Word"
begin

unbundle bit_operations_syntax

text \<open>
  Shared vocabulary of the development: the machine-integer types of the Rust code, slices as
  lists, the \<open>Result\<close> combinators, in-place writes to a buffer (\<open>copy_from_slice\<close>), big-endian
  integers, durations, and the rewrite collections that decide equalities of packed bit fields position by
  position. Lengths and offsets (\<open>usize\<close>) are natural numbers: a slice length never overflows.
\<close>

section \<open>Types\<close>

type_synonym u8 = "8 word"
type_synonym u16 = "16 word"
type_synonym u32 = "32 word"
type_synonym u64 = "64 word"
type_synonym bytes = "u8 list"

text \<open>A Rust \<open>Result<T, E>\<close> is a sum with the error on the left.\<close>

type_synonym ('e, 'a) result = "'e + 'a"

abbreviation Ok :: "'a \<Rightarrow> ('e, 'a) result" where "Ok \<equiv> Inr"
abbreviation Err :: "'e \<Rightarrow> ('e, 'a) result" where "Err \<equiv> Inl"

text \<open>The \<open>?\<close> operator: continue with the value, or return the error.\<close>

definition and_then :: "('e, 'a) result \<Rightarrow> ('a \<Rightarrow> ('e, 'b) result) \<Rightarrow> ('e, 'b) result" where
  "and_then r f = (case r of Inl e \<Rightarrow> Inl e | Inr x \<Rightarrow> f x)"

definition map_err :: "('e \<Rightarrow> 'f) \<Rightarrow> ('e, 'a) result \<Rightarrow> ('f, 'a) result" where
  "map_err g r = (case r of Inl e \<Rightarrow> Inl (g e) | Inr x \<Rightarrow> Inr x)"

lemma and_then_simps [simp]:
  "and_then (Inl e) f = Inl e"
  "and_then (Inr x) f = f x"
  by (simp_all add: and_then_def)

lemma and_then_eq_Ok: "and_then r f = Inr y \<longleftrightarrow> (\<exists>x. r = Inr x \<and> f x = Inr y)"
  by (cases r) auto

lemma map_err_simps [simp]:
  "map_err g (Inl e) = Inl (g e)"
  "map_err g (Inr x) = Inr x"
  by (simp_all add: map_err_def)

lemma map_err_eq_Ok [simp]: "map_err g r = Inr y \<longleftrightarrow> r = Inr y"
  by (cases r) auto

section \<open>Slices and in-place writes\<close>

text \<open>\<open>sub_slice xs i j\<close> is \<open>&xs[i..j]\<close>.\<close>

definition sub_slice :: "'a list \<Rightarrow> nat \<Rightarrow> nat \<Rightarrow> 'a list" where
  "sub_slice xs i j = take (j - i) (drop i xs)"

text \<open>
  \<open>put_slice buf i bs\<close> is \<open>buf[i..i + bs.len()].copy_from_slice(bs)\<close>. The callers check the
  length of the buffer first, so the write is in range.
\<close>

definition put_slice :: "'a list \<Rightarrow> nat \<Rightarrow> 'a list \<Rightarrow> 'a list" where
  "put_slice buf i bs = take i buf @ bs @ drop (i + length bs) buf"

lemma length_put_slice [simp]: "i + length bs \<le> length buf \<Longrightarrow> length (put_slice buf i bs) = length buf"
  by (simp add: put_slice_def)

text \<open>Writing at the cursor of a buffer whose first bytes are already final.\<close>

lemma put_slice_append [simp]:
  "i = length pre \<Longrightarrow> put_slice (pre @ rest) i bs = pre @ bs @ drop (length bs) rest"
  by (simp add: put_slice_def)

lemma put_slice_start [simp]: "put_slice buf 0 bs = bs @ drop (length bs) buf"
  by (simp add: put_slice_def)

lemma sub_slice_append_left [simp]:
  "i = length pre \<Longrightarrow> j = i + n \<Longrightarrow> sub_slice (pre @ rest) i j = take n rest"
  by (simp add: sub_slice_def)

lemma length_sub_slice [simp]: "j \<le> length xs \<Longrightarrow> length (sub_slice xs i j) = j - i"
  by (simp add: sub_slice_def)

lemma sub_slice_nth: "i + k < j \<Longrightarrow> j \<le> length xs \<Longrightarrow> sub_slice xs i j ! k = xs ! (i + k)"
  by (simp add: sub_slice_def)

lemma take_sub_slice_drop: "i \<le> j \<Longrightarrow> take i xs @ sub_slice xs i j @ drop j xs = xs"
  by (simp add: sub_slice_def) (metis append_assoc append_take_drop_id le_add_diff_inverse take_add)

lemma sub_slice_drop_join: "i \<le> j \<Longrightarrow> sub_slice xs i j @ drop j xs = drop i xs"
  by (simp add: sub_slice_def) (metis append_take_drop_id drop_drop le_add_diff_inverse2)

text \<open>\<open>xs.get(i)\<close>: \<open>None\<close> out of range.\<close>

definition get_at :: "'a list \<Rightarrow> nat \<Rightarrow> 'a option" where
  "get_at xs i = (if i < length xs then Some (xs ! i) else None)"

text \<open>\<open>xs.get(i..j)\<close> and \<open>xs.get(i..)\<close>.\<close>

definition get_range :: "'a list \<Rightarrow> nat \<Rightarrow> nat \<Rightarrow> 'a list option" where
  "get_range xs i j = (if i \<le> j \<and> j \<le> length xs then Some (sub_slice xs i j) else None)"

definition get_from :: "'a list \<Rightarrow> nat \<Rightarrow> 'a list option" where
  "get_from xs i = (if i \<le> length xs then Some (drop i xs) else None)"

definition ok_or :: "'e \<Rightarrow> 'a option \<Rightarrow> ('e, 'a) result" where
  "ok_or e opt = (case opt of None \<Rightarrow> Inl e | Some x \<Rightarrow> Inr x)"

lemma ok_or_simps [simp]: "ok_or e None = Inl e" "ok_or e (Some x) = Inr x"
  by (simp_all add: ok_or_def)

lemma ok_or_eq_Ok: "ok_or e opt = Inr x \<longleftrightarrow> opt = Some x"
  by (simp add: ok_or_def split: option.split)

lemma length_1_conv: "length xs = Suc 0 \<longleftrightarrow> (\<exists>a. xs = [a])"
  by (auto simp: length_Suc_conv)

lemma list_all_concat: "list_all P (concat xss) \<longleftrightarrow> list_all (list_all P) xss"
  by (induction xss) auto

lemma dvd_small_zero:
  assumes "M dvd (z :: int)" "- M < z" "z < M"
  shows "z = 0"
  using assms by (metis abs_if dvd_imp_le_int minus_less_iff not_le abs_of_pos
      order_less_trans neg_less_pos zero_less_abs_iff)

text \<open>
  A serializer writes at a cursor and advances it: \<open>buf[cursor..cursor + n].copy_from_slice(bs)\<close>
  followed by \<open>cursor += n\<close>. \<open>written bs buf\<close> is the state after \<open>bs\<close> has been written from the
  start of \<open>buf\<close>.
\<close>

definition emit :: "'a list \<Rightarrow> 'a list \<times> nat \<Rightarrow> 'a list \<times> nat" where
  "emit bs st = (case st of (buf, cursor) \<Rightarrow> (put_slice buf cursor bs, cursor + length bs))"

definition written :: "'a list \<Rightarrow> 'a list \<Rightarrow> 'a list \<times> nat" where
  "written bs buf = (bs @ drop (length bs) buf, length bs)"

lemma written_Nil: "written [] buf = (buf, 0)"
  by (simp add: written_def)

lemma emit_written [simp]: "emit bs (written pre buf) = written (pre @ bs) buf"
  by (simp add: emit_def written_def add.commute)

lemma emit_start: "emit bs (buf, 0) = written bs buf"
  by (simp add: emit_def written_def)

section \<open>Bit positions\<close>

text \<open>
  Two words are equal when they agree at every position. Rewriting with \<open>bit_pos\<close> turns an
  equality of bit fields into one equation per position, with every shift and mask pushed onto
  a concrete position; \<open>bit_range\<close> then discards the positions beyond the width of a word.
\<close>

named_theorems bit_pos
named_theorems bit_range

lemma word_eq_bits [bit_pos]:
  "(a :: 'a::len word) = b \<longleftrightarrow> list_all (\<lambda>i. bit a i = bit b i) [0..<LENGTH('a)]"
  by (auto simp: bit_eq_iff list_all_iff)

lemma positions_8 [bit_pos]: "[0..<LENGTH(8)] =
    [0, 1, 2, 3, 4, 5, 6, 7]"
  by (simp add: upt_rec)

lemma positions_16 [bit_pos]: "[0..<LENGTH(16)] =
    [0, 1, 2, 3, 4, 5, 6, 7, 8, 9, 10, 11, 12, 13, 14, 15]"
  by (simp add: upt_rec)

lemma positions_32 [bit_pos]: "[0..<LENGTH(32)] =
    [0, 1, 2, 3, 4, 5, 6, 7, 8, 9, 10, 11, 12, 13, 14, 15, 16, 17, 18, 19, 20, 21, 22, 23,
     24, 25, 26, 27, 28, 29, 30, 31]"
  by (simp add: upt_rec)

lemma positions_64 [bit_pos]: "[0..<LENGTH(64)] =
    [0, 1, 2, 3, 4, 5, 6, 7, 8, 9, 10, 11, 12, 13, 14, 15, 16, 17, 18, 19, 20, 21, 22, 23,
     24, 25, 26, 27, 28, 29, 30, 31, 32, 33, 34, 35, 36, 37, 38, 39, 40, 41, 42, 43, 44, 45,
     46, 47, 48, 49, 50, 51, 52, 53, 54, 55, 56, 57, 58, 59, 60, 61, 62, 63]"
  by (simp add: upt_rec)

lemmas bit_pos_rules [bit_pos] =
  list.pred_inject bit_push_bit_iff bit_drop_bit_eq comp_def bit_and_iff bit_or_iff bit_xor_iff
  bit_not_iff bit_unsigned_iff bit_take_bit_iff bit_mask_iff

lemma bit_beyond_8 [bit_range]: "8 \<le> n \<Longrightarrow> \<not> bit (w :: u8) n"
  by (auto dest: bit_imp_le_length)

lemma bit_beyond_16 [bit_range]: "16 \<le> n \<Longrightarrow> \<not> bit (w :: u16) n"
  by (auto dest: bit_imp_le_length)

lemma bit_beyond_32 [bit_range]: "32 \<le> n \<Longrightarrow> \<not> bit (w :: u32) n"
  by (auto dest: bit_imp_le_length)

lemma bit_beyond_64 [bit_range]: "64 \<le> n \<Longrightarrow> \<not> bit (w :: u64) n"
  by (auto dest: bit_imp_le_length)

lemma Suc_numerals [bit_range]: "Suc (Suc 0) = 2" "Suc 2 = 3"
  by simp_all

text \<open>\<open>count_ones\<close>: the number of set bits.\<close>

definition count_ones :: "'a::len word \<Rightarrow> nat" where
  "count_ones w = length (filter (bit w) [0..<LENGTH('a)])"

text \<open>Masking with \<open>2 ^ n - 1\<close> is reduction modulo \<open>2 ^ n\<close>.\<close>

lemma uint_and_low_mask: "uint ((w :: 'a::len word) AND word_of_int (2 ^ n - 1)) = uint w mod 2 ^ n"
proof -
  have "word_of_int (2 ^ n - 1) = (mask n :: 'a word)"
    by (simp add: mask_eq_exp_minus_1)
  then have "w AND word_of_int (2 ^ n - 1) = take_bit n w"
    by (simp only: take_bit_eq_mask)
  then have "uint (w AND word_of_int (2 ^ n - 1)) = take_bit n (uint w)"
    by (simp only: unsigned_take_bit_eq)
  then show ?thesis by (simp only: take_bit_eq_mod)
qed

lemma unat_lt2p: "unat (w :: 'a::len word) < 2 ^ LENGTH('a)"
  by (rule unsigned_less)

text \<open>A field placed above the bits already in use is an addition.\<close>

lemma or_push_bit_nat: "(a :: nat) < 2 ^ k \<Longrightarrow> a OR push_bit k b = a + 2 ^ k * b"
proof -
  assume a: "a < 2 ^ k"
  have hi: "\<not> bit a i" if "k \<le> i" for i
  proof -
    have "(2 :: nat) ^ k \<le> 2 ^ i" using that by simp
    with a have "a < 2 ^ i" by linarith
    then have "a div 2 ^ i = 0" by simp
    then show ?thesis by (simp add: bit_iff_odd)
  qed
  have "a AND push_bit k b = 0"
    by (rule bit_eqI) (auto simp: bit_simps hi)
  then have "a + push_bit k b = a OR push_bit k b" by (rule disjunctive_add_eq_or)
  then show ?thesis by (simp add: push_bit_eq_mult mult.commute)
qed

lemma unat_or_push_bit:
  assumes "unat (a :: 'a::len word) < 2 ^ k" "2 ^ k * unat b < 2 ^ LENGTH('a)"
  shows "unat (a OR push_bit k b) = unat a + 2 ^ k * unat b"
proof -
  have "unat (push_bit k b) = push_bit k (unat b)"
    using assms(2)
    by (simp only: unsigned_push_bit_eq) (simp add: push_bit_eq_mult take_bit_eq_mod mult.commute)
  then show ?thesis
    using or_push_bit_nat[OF assms(1)] by (simp add: unsigned_or_eq)
qed

section \<open>Big-endian integers\<close>

definition u16_to_be :: "u16 \<Rightarrow> bytes" where
  "u16_to_be w = [ucast (drop_bit 8 w), ucast w]"

definition u32_to_be :: "u32 \<Rightarrow> bytes" where
  "u32_to_be w = [ucast (drop_bit 24 w), ucast (drop_bit 16 w), ucast (drop_bit 8 w), ucast w]"

definition u16_from_be :: "u8 \<Rightarrow> u8 \<Rightarrow> u16" where
  "u16_from_be b0 b1 = push_bit 8 (ucast b0) OR ucast b1"

definition u32_from_be :: "u8 \<Rightarrow> u8 \<Rightarrow> u8 \<Rightarrow> u8 \<Rightarrow> u32" where
  "u32_from_be b0 b1 b2 b3 =
     push_bit 24 (ucast b0) OR push_bit 16 (ucast b1) OR push_bit 8 (ucast b2) OR ucast b3"

lemma length_u16_to_be [simp]: "length (u16_to_be w) = 2"
  by (simp add: u16_to_be_def)

lemma length_u32_to_be [simp]: "length (u32_to_be w) = 4"
  by (simp add: u32_to_be_def)

lemma u16_from_to_be [simp]: "u16_from_be (ucast (drop_bit 8 w)) (ucast w) = w"
  unfolding u16_from_be_def by (simp only: bit_pos) (simp add: bit_range)

lemma u32_from_to_be [simp]:
  "u32_from_be (ucast (drop_bit 24 w)) (ucast (drop_bit 16 w)) (ucast (drop_bit 8 w)) (ucast w) = w"
  unfolding u32_from_be_def by (simp only: bit_pos) (simp add: bit_range)

lemma u16_to_from_be [simp]: "u16_to_be (u16_from_be b0 b1) = [b0, b1]"
  unfolding u16_from_be_def u16_to_be_def
  by (simp only: list.inject simp_thms bit_pos) (simp add: bit_range)

lemma u32_to_from_be [simp]: "u32_to_be (u32_from_be b0 b1 b2 b3) = [b0, b1, b2, b3]"
  unfolding u32_from_be_def u32_to_be_def
  by (simp only: list.inject simp_thms bit_pos) (simp add: bit_range)

section \<open>Durations\<close>

text \<open>
  A \<open>Duration\<close> is its number of nanoseconds. Its additions and multiplications would panic above
  about \<open>2\<^sup>9\<^sup>4\<close>; the values the engines compute stay far below.
\<close>

type_synonym duration = nat

definition from_millis :: "nat \<Rightarrow> duration" where "from_millis n = n * 1000000"
definition from_micros :: "nat \<Rightarrow> duration" where "from_micros n = n * 1000"
definition as_micros :: "duration \<Rightarrow> nat" where "as_micros d = d div 1000"

definition U64_MAX :: nat where "U64_MAX = 2 ^ 64 - 1"

section \<open>Iterators\<close>

lemma sorted_upto: "sorted_wrt (<) [i..j]" for i j :: int
proof (induction "nat (j - i)" arbitrary: i)
  case 0
  then show ?case by (cases "i = j") (simp_all add: upto_rec1)
next
  case (Suc k)
  then show ?case using Suc.hyps(1)[of "i + 1"] by (subst upto_rec1) auto
qed

text \<open>\<open>Iterator::position\<close>, and the list without the element at an index (\<open>Vec::remove\<close>).\<close>

fun position :: "('a \<Rightarrow> bool) \<Rightarrow> 'a list \<Rightarrow> nat option" where
  "position P [] = None"
| "position P (x # xs) = (if P x then Some 0 else map_option Suc (position P xs))"

lemma position_Some:
  assumes "position P xs = Some i"
  shows "i < length xs \<and> P (xs ! i)"
  using assms by (induction xs arbitrary: i) (auto split: if_splits)

lemma position_None: "position P xs = None \<longleftrightarrow> (\<forall>x \<in> set xs. \<not> P x)"
  by (induction xs) auto

definition remove_at :: "nat \<Rightarrow> 'a list \<Rightarrow> 'a list" where
  "remove_at i xs = take i xs @ drop (Suc i) xs"

lemma length_remove_at: "i < length xs \<Longrightarrow> Suc (length (remove_at i xs)) = length xs"
  by (simp add: remove_at_def)

lemma set_remove_at: "set (remove_at i xs) \<subseteq> set xs"
  by (auto simp: remove_at_def dest: in_set_takeD in_set_dropD)

end
