(* ===== verification/Seq.thy ===== *)
theory Seq
  imports Prelude
begin

text \<open>
  Wrap-safe sequence-number arithmetic (\<open>broadcast-common/src/seq.rs\<close>) and its two clients: the
  31-bit SRT space (\<open>srt-runtime/src/arq/seq.rs\<close>) and the 16-bit RTP space of RIST
  (\<open>rist-runtime/src/arq/seq.rs\<close>). The locale \<open>circular_seq\<close> states what the ARQ engines rely
  on, a signed shortest distance on a circle, and derives the order facts once for both.
\<close>

section \<open>SeqSpace (broadcast-common/src/seq.rs)\<close>

definition MAX_SEQ_BITS :: nat where
  "MAX_SEQ_BITS = 31"

record SeqSpace =
  space_bits :: nat

text \<open>\<open>SeqSpace::new\<close> panics (\<open>None\<close>) outside \<open>1..=31\<close>.\<close>

definition SeqSpace_new :: "nat \<Rightarrow> SeqSpace option" where
  "SeqSpace_new bits =
     (if bits \<ge> 1 \<and> bits \<le> MAX_SEQ_BITS then Some \<lparr>space_bits = bits\<rparr> else None)"

definition seq_modulus :: "SeqSpace \<Rightarrow> int" where
  "seq_modulus s = 2 ^ space_bits s"

definition seq_mask :: "SeqSpace \<Rightarrow> u32" where
  "seq_mask s = word_of_int (seq_modulus s - 1)"

definition seq_add :: "SeqSpace \<Rightarrow> u32 \<Rightarrow> u32 \<Rightarrow> u32" where
  "seq_add s q n = word_of_int ((uint q + uint n) mod seq_modulus s)"

definition seq_diff :: "SeqSpace \<Rightarrow> u32 \<Rightarrow> u32 \<Rightarrow> int" where
  "seq_diff s a b =
     (let modulus = seq_modulus s;
          half = modulus div 2;
          raw = (uint (a AND seq_mask s) - uint (b AND seq_mask s)) mod modulus
      in if raw > half then raw - modulus else raw)"

definition seq_lt :: "SeqSpace \<Rightarrow> u32 \<Rightarrow> u32 \<Rightarrow> bool" where
  "seq_lt s a b \<longleftrightarrow> seq_diff s a b < 0"

definition seq_leq :: "SeqSpace \<Rightarrow> u32 \<Rightarrow> u32 \<Rightarrow> bool" where
  "seq_leq s a b \<longleftrightarrow> seq_diff s a b \<le> 0"

definition seq_gt :: "SeqSpace \<Rightarrow> u32 \<Rightarrow> u32 \<Rightarrow> bool" where
  "seq_gt s a b \<longleftrightarrow> seq_diff s a b > 0"

definition seq_geq :: "SeqSpace \<Rightarrow> u32 \<Rightarrow> u32 \<Rightarrow> bool" where
  "seq_geq s a b \<longleftrightarrow> seq_diff s a b \<ge> 0"

definition seq_in_closed_range :: "SeqSpace \<Rightarrow> u32 \<Rightarrow> u32 \<Rightarrow> u32 \<Rightarrow> bool" where
  "seq_in_closed_range s q first last_q =
     (let span = seq_diff s last_q first
      in if span < 0 then False
         else let off = seq_diff s q first in off \<ge> 0 \<and> off \<le> span)"

text \<open>A space as \<open>SeqSpace::new\<close> returns it, and the sequence numbers inside it.\<close>

definition wf_space :: "SeqSpace \<Rightarrow> bool" where
  "wf_space s \<longleftrightarrow> 1 \<le> space_bits s \<and> space_bits s \<le> MAX_SEQ_BITS"

definition in_space :: "SeqSpace \<Rightarrow> u32 \<Rightarrow> bool" where
  "in_space s q \<longleftrightarrow> uint q < seq_modulus s"

lemma SeqSpace_new_wf: "SeqSpace_new bits = Some s \<Longrightarrow> wf_space s \<and> space_bits s = bits"
  by (auto simp: SeqSpace_new_def wf_space_def split: if_splits)

section \<open>The circular order as an interface\<close>

text \<open>
  \<open>pos\<close> embeds a sequence number in the integers, \<open>M\<close> is the size of the circle, \<open>diff\<close> the
  signed shortest distance and \<open>nxt\<close> the successor.
\<close>

locale circular_seq =
  fixes M :: int
    and valid :: "'s \<Rightarrow> bool"
    and pos :: "'s \<Rightarrow> int"
    and diff :: "'s \<Rightarrow> 's \<Rightarrow> int"
    and nxt :: "'s \<Rightarrow> 's"
  assumes M_even: "2 dvd M" and M_pos: "2 \<le> M"
    and pos_range: "valid a \<Longrightarrow> 0 \<le> pos a \<and> pos a < M"
    and pos_inject: "valid a \<Longrightarrow> valid b \<Longrightarrow> pos a = pos b \<Longrightarrow> a = b"
    and diff_congruent: "valid a \<Longrightarrow> valid b \<Longrightarrow> M dvd diff a b - (pos a - pos b)"
    and diff_range: "valid a \<Longrightarrow> valid b \<Longrightarrow> - (M div 2) < diff a b \<and> diff a b \<le> M div 2"
    and nxt_valid: "valid a \<Longrightarrow> valid (nxt a)"
    and pos_nxt: "valid a \<Longrightarrow> pos (nxt a) = (pos a + 1) mod M"
begin

lemma unique_in_half_open:
  assumes "M dvd x - y" "- (M div 2) < x" "x \<le> M div 2" "- (M div 2) < y" "y \<le> M div 2"
  shows "x = y"
proof -
  obtain h where h: "M = 2 * h" using M_even by blast
  then have "- M < x - y" "x - y < M" using assms(2-5) by simp_all
  with assms(1) have "x - y = 0" by (rule dvd_small_zero)
  then show ?thesis by simp
qed

lemma diff_self [simp]: "valid a \<Longrightarrow> diff a a = 0"
  using unique_in_half_open[of "diff a a" 0] diff_congruent[of a a] diff_range[of a a] M_pos
  by simp

lemma diff_eq_0_iff: "valid a \<Longrightarrow> valid b \<Longrightarrow> diff a b = 0 \<longleftrightarrow> a = b"
proof
  assume v: "valid a" "valid b" and z: "diff a b = 0"
  from diff_congruent[OF v] z have "M dvd pos a - pos b"
    by (metis diff_0 dvd_minus_iff)
  moreover have "- M < pos a - pos b" "pos a - pos b < M"
    using pos_range[OF v(1)] pos_range[OF v(2)] by simp_all
  ultimately have "pos a - pos b = 0" by (rule dvd_small_zero)
  then show "a = b" using pos_inject v by simp
qed simp

text \<open>Antisymmetry fails only for the two points opposite each other.\<close>

lemma diff_swap:
  assumes "valid a" "valid b" "diff a b \<noteq> M div 2"
  shows "diff b a = - diff a b"
proof (rule unique_in_half_open)
  have "M dvd (diff b a - (pos b - pos a)) + (diff a b - (pos a - pos b))"
    using diff_congruent assms by (blast intro: dvd_add)
  then show "M dvd diff b a - (- diff a b)" by (simp add: algebra_simps)
qed (use assms diff_range[of a b] diff_range[of b a] in auto)

text \<open>
  Distances add up as long as the sum stays within half the circle: inside such a window the
  circular comparison is a linear order.
\<close>

lemma diff_add:
  assumes "valid a" "valid b" "valid c"
    and "- (M div 2) < diff a b + diff b c" "diff a b + diff b c \<le> M div 2"
  shows "diff a c = diff a b + diff b c"
proof (rule unique_in_half_open)
  have "M dvd (diff a c - (pos a - pos c)) - (diff a b - (pos a - pos b)) - (diff b c - (pos b - pos c))"
    using diff_congruent assms by (blast intro: dvd_diff)
  then show "M dvd diff a c - (diff a b + diff b c)" by (simp add: algebra_simps)
qed (use assms diff_range[of a c] in auto)

lemma diff_nxt:
  assumes "valid a" "valid b" "diff a b < M div 2"
  shows "diff (nxt a) b = diff a b + 1"
proof (rule unique_in_half_open)
  have "M dvd pos (nxt a) - (pos a + 1)"
    using pos_nxt[OF assms(1)] by (simp add: mod_eq_dvd_iff[symmetric])
  then have "M dvd (diff (nxt a) b - (pos (nxt a) - pos b)) - (diff a b - (pos a - pos b))
      + (pos (nxt a) - (pos a + 1))"
    using diff_congruent assms nxt_valid by (blast intro: dvd_diff dvd_add)
  then show "M dvd diff (nxt a) b - (diff a b + 1)" by (simp add: algebra_simps)
qed (use assms diff_range[of "nxt a" b] diff_range[of a b] nxt_valid in auto)

lemma diff_nxt_self: "valid a \<Longrightarrow> 4 \<le> M \<Longrightarrow> diff (nxt a) a = 1"
  using diff_nxt[of a a] by simp

text \<open>Two numbers at the same distance from a third are equal.\<close>

lemma diff_inject:
  assumes "valid a" "valid b" "valid c" "diff a c = diff b c"
  shows "a = b"
proof -
  have "M dvd (diff a c - (pos a - pos c)) - (diff b c - (pos b - pos c))"
    using diff_congruent assms by (blast intro: dvd_diff)
  then have "M dvd pos b - pos a" using assms(4) by (simp add: algebra_simps)
  moreover have "- M < pos b - pos a" "pos b - pos a < M"
    using pos_range[OF assms(1)] pos_range[OF assms(2)] by simp_all
  ultimately have "pos b - pos a = 0" by (rule dvd_small_zero)
  then show ?thesis using pos_inject assms by simp
qed

end

section \<open>SeqSpace implements the interface\<close>

lemma uint_and_seq_mask: "uint (q AND seq_mask s) = uint q mod seq_modulus s"
  unfolding seq_mask_def seq_modulus_def by (rule uint_and_low_mask)

lemma wf_modulus:
  assumes "wf_space s"
  shows "2 \<le> seq_modulus s" "seq_modulus s \<le> 2 ^ 31" "2 dvd seq_modulus s"
    "seq_modulus s = 2 * (seq_modulus s div 2)"
proof -
  have b: "1 \<le> space_bits s" "space_bits s \<le> 31"
    using assms by (simp_all add: wf_space_def MAX_SEQ_BITS_def)
  then obtain k where k: "space_bits s = Suc k" by (cases "space_bits s") auto
  then show "2 \<le> seq_modulus s" "2 dvd seq_modulus s" "seq_modulus s = 2 * (seq_modulus s div 2)"
    by (simp_all add: seq_modulus_def)
  show "seq_modulus s \<le> 2 ^ 31"
    unfolding seq_modulus_def using b(2) by (intro power_increasing) simp_all
qed

lemma uint_seq_add:
  assumes "wf_space s"
  shows "uint (seq_add s q n) = (uint q + uint n) mod seq_modulus s"
proof -
  define r where "r = (uint q + uint n) mod seq_modulus s"
  have "0 < seq_modulus s" "seq_modulus s \<le> 2147483648" using wf_modulus[OF assms] by simp_all
  moreover from this(1) have "0 \<le> r" "r < seq_modulus s"
    by (simp_all add: r_def)
  ultimately have "0 \<le> r" "r < 4294967296" by linarith+
  then show ?thesis
    by (simp add: seq_add_def uint_word_of_int r_def)
qed

lemma seq_add_in_space: "wf_space s \<Longrightarrow> in_space s (seq_add s q n)"
  using wf_modulus[of s] by (simp add: in_space_def uint_seq_add)

lemma seq_diff_in_space:
  assumes "in_space s a" "in_space s b"
  shows "seq_diff s a b =
    (let d = (uint a - uint b) mod seq_modulus s
     in if d > seq_modulus s div 2 then d - seq_modulus s else d)"
  using assms by (simp add: seq_diff_def Let_def uint_and_seq_mask in_space_def)

lemma seq_diff_range:
  assumes "wf_space s"
  shows "- (seq_modulus s div 2) < seq_diff s a b" "seq_diff s a b \<le> seq_modulus s div 2"
proof -
  define r where "r = (uint (a AND seq_mask s) - uint (b AND seq_mask s)) mod seq_modulus s"
  have "0 \<le> r" "r < seq_modulus s" using wf_modulus[OF assms] by (simp_all add: r_def)
  moreover have "seq_diff s a b = (if r > seq_modulus s div 2 then r - seq_modulus s else r)"
    by (simp add: seq_diff_def Let_def r_def)
  ultimately show "- (seq_modulus s div 2) < seq_diff s a b" "seq_diff s a b \<le> seq_modulus s div 2"
    using wf_modulus[OF assms] by (auto split: if_splits)
qed

lemma circular_seq_space:
  assumes "wf_space s"
  shows "circular_seq (seq_modulus s) (in_space s) uint (seq_diff s) (\<lambda>q. seq_add s q 1)"
proof
  show "2 dvd seq_modulus s" "2 \<le> seq_modulus s" using wf_modulus[OF assms] by simp_all
  fix a b :: u32
  show "in_space s a \<Longrightarrow> 0 \<le> uint a \<and> uint a < seq_modulus s" by (simp add: in_space_def)
  show "uint a = uint b \<Longrightarrow> a = b" by (simp add: word_uint_eq_iff)
  show "- (seq_modulus s div 2) < seq_diff s a b \<and> seq_diff s a b \<le> seq_modulus s div 2"
    using seq_diff_range[OF assms] by simp
  show "in_space s (seq_add s a 1)" by (rule seq_add_in_space[OF assms])
  show "uint (seq_add s a 1) = (uint a + 1) mod seq_modulus s"
    by (simp add: uint_seq_add[OF assms])
  assume "in_space s a" "in_space s b"
  then show "seq_modulus s dvd seq_diff s a b - (uint a - uint b)"
    by (simp add: seq_diff_in_space Let_def mod_eq_dvd_iff[symmetric] mod_diff_left_eq)
qed

text \<open>The result of \<open>diff\<close> fits the \<open>i32\<close> it is cast to.\<close>

lemma seq_diff_fits_i32:
  assumes "wf_space s"
  shows "- (2 ^ 31) \<le> seq_diff s a b" "seq_diff s a b < 2 ^ 31"
  using seq_diff_range[OF assms, of a b] wf_modulus[OF assms] by linarith+

text \<open>
  Membership in a closed range means being one of the numbers reached from \<open>first\<close> in at most
  \<open>diff last first\<close> steps.
\<close>

lemma seq_in_closed_range_iff:
  assumes "wf_space s" "in_space s q" "in_space s first" "in_space s l" "0 \<le> seq_diff s l first"
  shows "seq_in_closed_range s q first l \<longleftrightarrow>
    (\<exists>k. 0 \<le> k \<and> k \<le> seq_diff s l first \<and> uint q = (uint first + k) mod seq_modulus s)"
    (is "?in \<longleftrightarrow> ?steps")
proof -
  let ?M = "seq_modulus s"
  note M = wf_modulus[OF assms(1)]
  define d where "d = (uint q - uint first) mod ?M"
  have dr: "0 \<le> d" "d < ?M" using M by (simp_all add: d_def)
  have diff: "seq_diff s q first = (if d > ?M div 2 then d - ?M else d)"
    using assms by (simp add: seq_diff_in_space d_def Let_def)
  have le: "seq_diff s l first \<le> ?M div 2" using seq_diff_range[OF assms(1)] by simp
  show ?thesis
  proof
    assume ?in
    then have off: "0 \<le> seq_diff s q first" "seq_diff s q first \<le> seq_diff s l first"
      using assms(5) by (auto simp: seq_in_closed_range_def Let_def)
    then have "seq_diff s q first = d" using diff dr by (auto split: if_splits)
    moreover have "(uint first + d) mod ?M = uint q"
      using assms(2) by (simp add: d_def mod_add_right_eq in_space_def)
    ultimately show ?steps using off by metis
  next
    assume ?steps
    then obtain k where k: "0 \<le> k" "k \<le> seq_diff s l first" "uint q = (uint first + k) mod ?M"
      by blast
    have "d = k mod ?M" by (simp add: d_def k(3) mod_diff_left_eq)
    also have "\<dots> = k" using k le M by simp
    finally have "seq_diff s q first = k" using diff k le by simp
    then show ?in using k assms(5) by (simp add: seq_in_closed_range_def Let_def)
  qed
qed

section \<open>The SRT space: 31 bits (srt-runtime/src/arq/seq.rs)\<close>

definition SEQ_NUMBER_MASK :: u32 where
  "SEQ_NUMBER_MASK = 0x7FFFFFFF"

definition srt_space :: SeqSpace where
  "srt_space = \<lparr>space_bits = count_ones SEQ_NUMBER_MASK\<rparr>"

definition srt_seq_add :: "u32 \<Rightarrow> u32 \<Rightarrow> u32" where
  "srt_seq_add q n = seq_add srt_space q n"

definition srt_seq_next :: "u32 \<Rightarrow> u32" where
  "srt_seq_next q = srt_seq_add q 1"

definition srt_seq_diff :: "u32 \<Rightarrow> u32 \<Rightarrow> int" where
  "srt_seq_diff a b = seq_diff srt_space a b"

definition srt_seq_lt :: "u32 \<Rightarrow> u32 \<Rightarrow> bool" where
  "srt_seq_lt a b = seq_lt srt_space a b"

definition srt_seq_leq :: "u32 \<Rightarrow> u32 \<Rightarrow> bool" where
  "srt_seq_leq a b = seq_leq srt_space a b"

definition srt_seq_gt :: "u32 \<Rightarrow> u32 \<Rightarrow> bool" where
  "srt_seq_gt a b = seq_gt srt_space a b"

definition srt_seq_geq :: "u32 \<Rightarrow> u32 \<Rightarrow> bool" where
  "srt_seq_geq a b = seq_geq srt_space a b"

definition srt_seq_in_closed_range :: "u32 \<Rightarrow> u32 \<Rightarrow> u32 \<Rightarrow> bool" where
  "srt_seq_in_closed_range q first l = seq_in_closed_range srt_space q first l"

text \<open>\<open>contiguous_runs\<close> extends the last run or pushes a new one.\<close>

fun push_run :: "(u32 \<times> u32) list \<Rightarrow> u32 \<Rightarrow> (u32 \<times> u32) list" where
  "push_run runs q =
     (if runs \<noteq> [] \<and> srt_seq_next (snd (last runs)) = q
      then butlast runs @ [(fst (last runs), q)]
      else runs @ [(q, q)])"

definition contiguous_runs :: "u32 list \<Rightarrow> (u32 \<times> u32) list" where
  "contiguous_runs seqs = foldl push_run [] seqs"

lemma srt_space_bits: "srt_space = \<lparr>space_bits = 31\<rparr>"
  by (simp add: srt_space_def SEQ_NUMBER_MASK_def count_ones_def upt_rec)

lemma srt_space_wf: "wf_space srt_space"
  by (simp add: srt_space_bits wf_space_def MAX_SEQ_BITS_def)

lemma srt_modulus: "seq_modulus srt_space = 2 ^ 31"
  by (simp add: srt_space_bits seq_modulus_def)

definition srt_valid :: "u32 \<Rightarrow> bool" where
  "srt_valid q \<longleftrightarrow> uint q < 2 ^ 31"

lemma srt_valid_in_space: "srt_valid = in_space srt_space"
  by (simp add: fun_eq_iff srt_valid_def in_space_def srt_modulus)

interpretation srt: circular_seq "2 ^ 31" srt_valid uint srt_seq_diff srt_seq_next
proof -
  have "srt_seq_diff = seq_diff srt_space" "srt_seq_next = (\<lambda>q. seq_add srt_space q 1)"
    by (simp_all add: fun_eq_iff srt_seq_diff_def srt_seq_next_def srt_seq_add_def)
  then show "circular_seq (2 ^ 31) srt_valid uint srt_seq_diff srt_seq_next"
    using circular_seq_space[OF srt_space_wf] by (simp add: srt_modulus srt_valid_in_space)
qed

section \<open>The RTP space of RIST: 16 bits (rist-runtime/src/arq/seq.rs)\<close>

definition rist_space :: SeqSpace where
  "rist_space = \<lparr>space_bits = 16\<rparr>"

definition rist_seq_add :: "u16 \<Rightarrow> u16 \<Rightarrow> u16" where
  "rist_seq_add q n = q + n"

definition rist_seq_next :: "u16 \<Rightarrow> u16" where
  "rist_seq_next q = rist_seq_add q 1"

definition rist_seq_diff :: "u16 \<Rightarrow> u16 \<Rightarrow> int" where
  "rist_seq_diff a b = seq_diff rist_space (ucast a) (ucast b)"

definition rist_seq_lt :: "u16 \<Rightarrow> u16 \<Rightarrow> bool" where
  "rist_seq_lt a b = seq_lt rist_space (ucast a) (ucast b)"

definition rist_seq_leq :: "u16 \<Rightarrow> u16 \<Rightarrow> bool" where
  "rist_seq_leq a b = seq_leq rist_space (ucast a) (ucast b)"

definition rist_seq_gt :: "u16 \<Rightarrow> u16 \<Rightarrow> bool" where
  "rist_seq_gt a b = seq_gt rist_space (ucast a) (ucast b)"

definition rist_seq_geq :: "u16 \<Rightarrow> u16 \<Rightarrow> bool" where
  "rist_seq_geq a b = seq_geq rist_space (ucast a) (ucast b)"

lemma rist_space_wf: "wf_space rist_space"
  by (simp add: rist_space_def wf_space_def MAX_SEQ_BITS_def)

lemma rist_modulus: "seq_modulus rist_space = 2 ^ 16"
  by (simp add: rist_space_def seq_modulus_def)

lemma rist_in_space: "in_space rist_space (ucast (q :: u16))"
  using uint_bounded[of q] by (simp add: in_space_def rist_modulus unsigned_ucast_eq take_bit_eq_mod)

lemma uint_ucast_u16: "uint (ucast (q :: u16) :: u32) = uint q"
  using uint_bounded[of q] by (simp add: unsigned_ucast_eq take_bit_eq_mod)

lemmas rist_circle = circular_seq_space[OF rist_space_wf]

interpretation rist: circular_seq "2 ^ 16" "\<lambda>_. True" uint rist_seq_diff rist_seq_next
proof
  fix a b :: u16
  show "2 dvd (2 ^ 16 :: int)" "(2 :: int) \<le> 2 ^ 16" by simp_all
  show "0 \<le> uint a \<and> uint a < 2 ^ 16" using uint_bounded[of a] by simp
  show "uint a = uint b \<Longrightarrow> a = b" by (simp add: word_uint_eq_iff)
  show "2 ^ 16 dvd rist_seq_diff a b - (uint a - uint b)"
    using circular_seq.diff_congruent[OF rist_circle rist_in_space rist_in_space, of a b]
    by (simp add: rist_seq_diff_def rist_modulus uint_ucast_u16)
  show "- (2 ^ 16 div 2) < rist_seq_diff a b \<and> rist_seq_diff a b \<le> 2 ^ 16 div 2"
    using seq_diff_range[OF rist_space_wf] by (simp add: rist_seq_diff_def rist_modulus)
  show "uint (rist_seq_next a) = (uint a + 1) mod 2 ^ 16"
    by (simp add: rist_seq_next_def rist_seq_add_def uint_word_ariths)
qed simp


section \<open>Runs of consecutive numbers\<close>

definition is_run :: "u32 \<times> u32 \<Rightarrow> u32 list \<Rightarrow> bool" where
  "is_run r xs \<longleftrightarrow> xs \<noteq> [] \<and> hd xs = fst r \<and> last xs = snd r \<and> successively (\<lambda>a b. b = srt_seq_next a) xs"

lemma is_run_snoc: "is_run (a, b) xs \<Longrightarrow> is_run (a, srt_seq_next b) (xs @ [srt_seq_next b])"
  by (auto simp: is_run_def successively_append_iff)

lemma push_run_spec:
  assumes "concat xss = seqs" "list_all2 is_run runs xss" "successively (\<lambda>r r'. fst r' \<noteq> srt_seq_next (snd r)) runs"
  shows "\<exists>yss. concat yss = seqs @ [q] \<and> list_all2 is_run (push_run runs q) yss \<and>
    successively (\<lambda>r r'. fst r' \<noteq> srt_seq_next (snd r)) (push_run runs q)"
proof (cases "runs \<noteq> [] \<and> srt_seq_next (snd (last runs)) = q")
  case True
  then obtain rs a b where r: "runs = rs @ [(a, b)]" by (metis append_butlast_last_id surj_pair)
  then obtain yss ys where x: "xss = yss @ [ys]" "list_all2 is_run rs yss" "is_run (a, b) ys"
    using assms(2) by (auto simp: list_all2_append1 list_all2_Cons1)
  have q: "q = srt_seq_next b" using True r by simp
  have p: "push_run runs q = rs @ [(a, q)]" using True r by simp
  have "list_all2 is_run (rs @ [(a, q)]) (yss @ [ys @ [q]])"
    using x is_run_snoc by (auto simp: q intro: list_all2_appendI)
  moreover have "successively (\<lambda>r r'. fst r' \<noteq> srt_seq_next (snd r)) (rs @ [(a, q)])"
    using assms(3) by (auto simp: r successively_append_iff)
  ultimately show ?thesis unfolding p using assms(1) x(1) by (intro exI[of _ "yss @ [ys @ [q]]"]) simp
next
  case False
  then have p: "push_run runs q = runs @ [(q, q)]" by auto
  have "list_all2 is_run (runs @ [(q, q)]) (xss @ [[q]])"
    using assms(2) by (auto simp: is_run_def intro: list_all2_appendI)
  moreover have "successively (\<lambda>r r'. fst r' \<noteq> srt_seq_next (snd r)) (runs @ [(q, q)])"
    using assms(3) False by (auto simp: successively_append_iff)
  ultimately show ?thesis unfolding p using assms(1) by (intro exI[of _ "xss @ [[q]]"]) simp
qed

section \<open>Properties\<close>

text \<open>
  Loss lists are compressed without loss. \<open>contiguous_runs\<close> splits its input, in order, into
  blocks of consecutive numbers (consecutive across the wrap too), one inclusive \<open>(first, last)\<close> pair per
  block, and no two neighbouring pairs could have been merged.
\<close>

theorem contiguous_runs_partition:
  "\<exists>xss. concat xss = seqs \<and> list_all2 is_run (contiguous_runs seqs) xss \<and>
    successively (\<lambda>r r'. fst r' \<noteq> srt_seq_next (snd r)) (contiguous_runs seqs)"
proof (induction seqs rule: rev_induct)
  case Nil
  show ?case by (intro exI[of _ "[]"]) (simp add: contiguous_runs_def)
next
  case (snoc q seqs)
  then obtain xss where "concat xss = seqs" "list_all2 is_run (contiguous_runs seqs) xss"
    "successively (\<lambda>r r'. fst r' \<noteq> srt_seq_next (snd r)) (contiguous_runs seqs)" by blast
  moreover have "contiguous_runs (seqs @ [q]) = push_run (contiguous_runs seqs) q"
    by (simp add: contiguous_runs_def)
  ultimately show ?case using push_run_spec by metis
qed

text \<open>
  The circular order of the SRT sequence space. On 31-bit numbers the signed distance is
  antisymmetric away from the antipode, is zero exactly on equal numbers, grows by one with each
  successor while it stays below half the circle, and \<open>seq_lt\<close> is transitive along any arc shorter
  than half the circle, whether or not the arc crosses the wrap.
\<close>

theorem srt_circular_order:
  assumes "srt_valid a" "srt_valid b" "srt_valid c"
  shows "(srt_seq_diff a b = 0 \<longleftrightarrow> a = b) \<and>
    (srt_seq_diff a b \<noteq> 2 ^ 30 \<longrightarrow> srt_seq_diff b a = - srt_seq_diff a b) \<and>
    (srt_seq_diff a b < 2 ^ 30 \<longrightarrow> srt_seq_diff (srt_seq_next a) b = srt_seq_diff a b + 1) \<and>
    (srt_seq_lt a b \<and> srt_seq_lt b c \<and> - (2 ^ 30) < srt_seq_diff a b + srt_seq_diff b c \<longrightarrow> srt_seq_lt a c)"
proof (intro conjI impI)
  show "srt_seq_diff a b = 0 \<longleftrightarrow> a = b" by (rule srt.diff_eq_0_iff[OF assms(1,2)])
  show "srt_seq_diff b a = - srt_seq_diff a b" if "srt_seq_diff a b \<noteq> 2 ^ 30"
    using srt.diff_swap[OF assms(1,2)] that by simp
  show "srt_seq_diff (srt_seq_next a) b = srt_seq_diff a b + 1" if "srt_seq_diff a b < 2 ^ 30"
    using srt.diff_nxt[OF assms(1,2)] that by simp
  assume l: "srt_seq_lt a b \<and> srt_seq_lt b c \<and> - (2 ^ 30) < srt_seq_diff a b + srt_seq_diff b c"
  then have n: "srt_seq_diff a b < 0" "srt_seq_diff b c < 0"
    by (simp_all add: srt_seq_lt_def seq_lt_def srt_seq_diff_def)
  then have "srt_seq_diff a c = srt_seq_diff a b + srt_seq_diff b c"
    using srt.diff_add[OF assms] l by simp
  then show "srt_seq_lt a c" using n by (simp add: srt_seq_lt_def seq_lt_def srt_seq_diff_def)
qed

theorem srt_circular_order_witness:
  "srt_seq_diff 0 0x7FFFFFFF = - srt_seq_diff 0x7FFFFFFF 0"
proof -
  have v: "srt_valid 0x7FFFFFFF" "srt_valid 0" by (simp_all add: srt_valid_def)
  have "srt_seq_diff 0x7FFFFFFF 0 \<noteq> 2 ^ 30"
    by (simp add: srt_seq_diff_def seq_diff_def uint_and_seq_mask srt_modulus)
  then show ?thesis using srt_circular_order[OF v v(1)] by blast
qed

end
