(* ===== verification/Bcd_Time.thy ===== *)
theory Bcd_Time
  imports Prelude "HOL-Library.Signed_Division"
begin

text \<open>
  Packed decimal and DVB wall-clock time: the BCD codec (\<open>broadcast-common/src/bcd.rs\<close>) and the
  Modified-Julian-Date / BCD time codec (\<open>broadcast-common/src/time.rs\<close>). The BCD routines are
  shown to be inverse to each other; the MJD conversion is shown to yield valid Gregorian dates
  and to be inverted by its encoder over the whole 16-bit field.
\<close>

section \<open>BCD (bcd.rs)\<close>

definition MAX_NIBBLES :: nat where "MAX_NIBBLES = 16"

text \<open>The loop \<open>for i in (0..nibbles).rev()\<close>: \<open>Suc i\<close> nibbles are left, the next is nibble \<open>i\<close>.\<close>

fun bcd_decode_loop :: "u64 \<Rightarrow> nat \<Rightarrow> u64 \<Rightarrow> u64 option" where
  "bcd_decode_loop raw 0 acc = Some acc"
| "bcd_decode_loop raw (Suc i) acc =
     (let digit = drop_bit (i * 4) raw AND 0x0F
      in if digit > 9 then None else bcd_decode_loop raw i (acc * 10 + digit))"

definition bcd_to_decimal :: "u64 \<Rightarrow> nat \<Rightarrow> u64 option" where
  "bcd_to_decimal raw nibbles =
     (if nibbles > MAX_NIBBLES then None else bcd_decode_loop raw nibbles 0)"

text \<open>The loop \<open>for i in 0..nibbles\<close>, with \<open>k\<close> iterations to go.\<close>

fun bcd_encode_loop :: "nat \<Rightarrow> nat \<Rightarrow> u64 \<Rightarrow> u64 \<Rightarrow> u64 \<times> u64" where
  "bcd_encode_loop 0 i packed remaining = (packed, remaining)"
| "bcd_encode_loop (Suc k) i packed remaining =
     (let digit = remaining mod 10
      in bcd_encode_loop k (Suc i) (packed OR push_bit (i * 4) digit) (remaining div 10))"

definition decimal_to_bcd :: "u64 \<Rightarrow> nat \<Rightarrow> u64 option" where
  "decimal_to_bcd val nibbles =
     (if nibbles > MAX_NIBBLES then None
      else let (packed, remaining) = bcd_encode_loop nibbles 0 0 val
           in if remaining \<noteq> 0 then None else Some packed)"

definition from_bcd_byte :: "u8 \<Rightarrow> u8 option" where
  "from_bcd_byte byte = map_option ucast (bcd_to_decimal (ucast byte) 2)"

definition to_bcd_byte :: "u8 \<Rightarrow> u8 option" where
  "to_bcd_byte val = map_option ucast (decimal_to_bcd (ucast val) 2)"

subsection \<open>Reference: digits of a natural number, least significant first\<close>

fun bcd_val :: "nat \<Rightarrow> nat \<Rightarrow> nat option" where
  "bcd_val 0 x = Some 0"
| "bcd_val (Suc n) x =
     (if x mod 16 > 9 then None else map_option (\<lambda>v. 10 * v + x mod 16) (bcd_val n (x div 16)))"

fun bcd_enc :: "nat \<Rightarrow> nat \<Rightarrow> nat" where
  "bcd_enc 0 r = 0"
| "bcd_enc (Suc n) r = r mod 10 + 16 * bcd_enc n (r div 10)"

lemma bcd_enc_bound: "bcd_enc n r < 16 ^ n"
proof (induction n arbitrary: r)
  case (Suc n)
  have "r mod 10 < 16" by (rule less_trans[of _ 10]) simp_all
  moreover have "bcd_enc n (r div 10) < 16 ^ n" by (rule Suc)
  ultimately show ?case by simp
qed simp

lemma bcd_val_enc: "bcd_val n (bcd_enc n r) = Some (r mod 10 ^ n)"
proof (induction n arbitrary: r)
  case (Suc n)
  have d: "(r mod 10 + 16 * x) mod 16 = r mod 10" "(r mod 10 + 16 * x) div 16 = x" for x
  proof -
    have "r mod 10 < 16" by (rule less_trans[of _ 10]) simp_all
    then show "(r mod 10 + 16 * x) mod 16 = r mod 10" "(r mod 10 + 16 * x) div 16 = x"
      by simp_all
  qed
  show ?case by (simp add: d Suc mod_mult2_eq not_less)
qed simp

lemma bcd_enc_val: "bcd_val n x = Some v \<Longrightarrow> v < 10 ^ n \<and> bcd_enc n v = x mod 16 ^ n"
proof (induction n arbitrary: x v)
  case (Suc n)
  then obtain w where w: "bcd_val n (x div 16) = Some w" "v = 10 * w + x mod 16" "x mod 16 < 10"
    by (auto split: if_splits)
  then show ?case
    using Suc.IH[OF w(1)] by (simp add: mod_mult2_eq)
qed simp

text \<open>The decoder of the source reads the most significant nibble first.\<close>

lemma bcd_val_snoc:
  "bcd_val (Suc n) x =
     (if (x div 16 ^ n) mod 16 > 9 then None
      else map_option (\<lambda>v. v + 10 ^ n * ((x div 16 ^ n) mod 16)) (bcd_val n x))"
proof (induction n arbitrary: x)
  case (Suc n)
  have "bcd_val (Suc (Suc n)) x =
      (if x mod 16 > 9 then None
       else map_option (\<lambda>v. 10 * v + x mod 16) (bcd_val (Suc n) (x div 16)))"
    by (rule bcd_val.simps)
  also have "x div 16 div 16 ^ n = x div 16 ^ Suc n" by (simp add: div_mult2_eq)
  ultimately show ?case
    using Suc.IH[of "x div 16"]
    by (cases "bcd_val n (x div 16)") (auto simp: div_mult2_eq algebra_simps simp del: bcd_val.simps(2) simp: bcd_val.simps(2)[of n x])
qed simp

subsection \<open>The loops compute the reference\<close>

lemma sixteen_pow: "(16 :: nat) ^ n = 2 ^ (n * 4)"
  by (simp add: power_mult mult.commute[of n])

lemma unat_nibble: "unat (drop_bit (n * 4) (raw :: u64) AND 0x0F) = unat raw div 16 ^ n mod 16"
proof -
  have "(0x0F :: u64) = mask 4" by (simp add: mask_eq_exp_minus_1)
  then have "drop_bit (n * 4) raw AND 0x0F = take_bit 4 (drop_bit (n * 4) raw)"
    by (simp only: take_bit_eq_mask)
  moreover have "unat raw mod 2 ^ 64 = unat raw" using unat_lt2p[of raw] by simp
  ultimately show ?thesis
    by (simp only: unsigned_take_bit_eq unsigned_drop_bit_eq)
       (simp add: drop_bit_eq_div take_bit_eq_mod sixteen_pow)
qed

lemma bcd_decode_loop_val:
  "bcd_decode_loop raw n acc = map_option (\<lambda>v. acc * 10 ^ n + of_nat v) (bcd_val n (unat raw))"
proof (induction n arbitrary: acc)
  case (Suc n)
  define digit where "digit = drop_bit (n * 4) raw AND 0x0F"
  have u: "unat digit = unat raw div 16 ^ n mod 16" unfolding digit_def by (rule unat_nibble)
  then have w: "digit = of_nat (unat raw div 16 ^ n mod 16)" by (simp flip: u)
  have gt: "digit > 9 \<longleftrightarrow> unat raw div 16 ^ n mod 16 > 9"
    by (simp add: word_less_nat_alt u[symmetric])
  show ?case
    unfolding bcd_val_snoc bcd_decode_loop.simps digit_def[symmetric] Let_def gt Suc.IH
    by (cases "bcd_val n (unat raw)") (simp_all add: w algebra_simps)
qed simp

lemma bcd_encode_loop_enc:
  assumes "unat packed < 16 ^ i" "i + k \<le> 16"
  shows "unat (fst (bcd_encode_loop k i packed rem)) = unat packed + 16 ^ i * bcd_enc k (unat rem)"
    and "unat (snd (bcd_encode_loop k i packed rem)) = unat rem div 10 ^ k"
proof -
  have "unat (fst (bcd_encode_loop k i packed rem)) = unat packed + 16 ^ i * bcd_enc k (unat rem)
      \<and> unat (snd (bcd_encode_loop k i packed rem)) = unat rem div 10 ^ k"
    using assms
  proof (induction k arbitrary: i packed rem)
    case (Suc k)
    have d: "unat (rem mod 10) = unat rem mod 10" "unat (rem mod 10) < 10"
      by (simp_all add: unat_mod)
    have "(16 :: nat) ^ Suc i \<le> 16 ^ 16" using Suc.prems by (intro power_increasing) simp_all
    moreover have "2 ^ (i * 4) * unat (rem mod 10) < 16 ^ Suc i"
      using d by (simp add: sixteen_pow[symmetric])
    ultimately have "2 ^ (i * 4) * unat (rem mod 10) < 16 ^ 16" by linarith
    then have "unat (packed OR push_bit (i * 4) (rem mod 10))
        = unat packed + 2 ^ (i * 4) * unat (rem mod 10)"
      using Suc.prems by (intro unat_or_push_bit) (simp_all add: sixteen_pow[symmetric])
    then have p: "unat (packed OR push_bit (i * 4) (rem mod 10)) = unat packed + 16 ^ i * (unat rem mod 10)"
      by (simp add: sixteen_pow d)
    have "unat packed + 16 ^ i * (unat rem mod 10) < 16 ^ i + 16 ^ i * 9"
      using Suc.prems(1) by (intro add_less_le_mono mult_le_mono2) simp_all
    then have "unat (packed OR push_bit (i * 4) (rem mod 10)) < 16 ^ Suc i"
      by (simp add: p)
    moreover have "unat (rem div 10) = unat rem div 10" by (simp add: unat_div)
    ultimately show ?case
      using Suc.IH[of "packed OR push_bit (i * 4) (rem mod 10)" "Suc i" "rem div 10"] Suc.prems(2) p
      by (simp add: Let_def div_mult2_eq algebra_simps)
  qed simp
  then show "unat (fst (bcd_encode_loop k i packed rem)) = unat packed + 16 ^ i * bcd_enc k (unat rem)"
    "unat (snd (bcd_encode_loop k i packed rem)) = unat rem div 10 ^ k" by simp_all
qed

lemma bcd_val_bound: "bcd_val n x = Some v \<Longrightarrow> n \<le> 16 \<Longrightarrow> v < 2 ^ 64"
proof -
  assume "bcd_val n x = Some v" "n \<le> 16"
  then have "v < 10 ^ n" "(10 :: nat) ^ n \<le> 10 ^ 16"
    using bcd_enc_val by (blast, intro power_increasing) simp_all
  then show ?thesis by simp
qed

lemma bcd_to_decimal_eq:
  assumes "n \<le> 16"
  shows "bcd_to_decimal raw n = map_option of_nat (bcd_val n (unat raw))"
  using assms by (simp add: bcd_to_decimal_def MAX_NIBBLES_def bcd_decode_loop_val)

lemma decimal_to_bcd_eq:
  assumes "n \<le> 16"
  shows "decimal_to_bcd v n =
    (if unat v < 10 ^ n then Some (of_nat (bcd_enc n (unat v))) else None)"
proof -
  have e: "unat (fst (bcd_encode_loop n 0 0 v)) = bcd_enc n (unat v)"
    "unat (snd (bcd_encode_loop n 0 0 v)) = unat v div 10 ^ n"
    using bcd_encode_loop_enc[of 0 0 n v] assms by simp_all
  obtain p r where pr: "bcd_encode_loop n 0 0 v = (p, r)" by fastforce
  have "unat p = bcd_enc n (unat v)" using e(1) pr by simp
  then have "p = of_nat (bcd_enc n (unat v))" by (simp flip: \<open>unat p = _\<close>)
  moreover have "r = 0 \<longleftrightarrow> unat v < 10 ^ n"
    using e(2) pr by (simp add: unat_eq_0[symmetric] div_eq_0_iff)
  ultimately show ?thesis
    using assms by (simp add: decimal_to_bcd_def MAX_NIBBLES_def pr)
qed

lemma bcd_decode_encode:
  assumes "n \<le> 16" "unat v < 10 ^ n"
  shows "\<exists>p. decimal_to_bcd v n = Some p \<and> unat p < 16 ^ n \<and> bcd_to_decimal p n = Some v"
proof -
  have "(16 :: nat) ^ n \<le> 16 ^ 16" using assms(1) by (intro power_increasing) simp_all
  then have "bcd_enc n (unat v) < 2 ^ 64" using bcd_enc_bound[of n "unat v"] by simp
  then have "unat (of_nat (bcd_enc n (unat v)) :: u64) = bcd_enc n (unat v)"
    by (simp add: unat_of_nat)
  then show ?thesis
    using assms bcd_enc_bound[of n "unat v"]
    by (simp add: decimal_to_bcd_eq bcd_to_decimal_eq bcd_val_enc)
qed

lemma bcd_encode_decode:
  assumes "n \<le> 16" "bcd_to_decimal p n = Some v"
  shows "decimal_to_bcd v n = Some (of_nat (unat p mod 16 ^ n))"
proof -
  obtain w where w: "bcd_val n (unat p) = Some w" "v = of_nat w"
    using assms by (auto simp: bcd_to_decimal_eq)
  then have "unat v = w" using bcd_val_bound[OF w(1) assms(1)] by (simp add: unat_of_nat)
  then show ?thesis
    using assms(1) bcd_enc_val[OF w(1)] by (simp add: decimal_to_bcd_eq)
qed

subsection \<open>Single bytes\<close>

lemma unat_ucast_u8_u64: "unat (ucast (b :: u8) :: u64) = unat b"
  using unat_lt2p[of b] by (simp add: unsigned_ucast_eq take_bit_eq_mod)

lemma from_bcd_byte_eq: "from_bcd_byte b = map_option of_nat (bcd_val 2 (unat b))"
proof (cases "bcd_val 2 (unat b)")
  case (Some v)
  then have "v < 100" using bcd_enc_val[OF Some] by simp
  then have "ucast (of_nat v :: u64) = (of_nat v :: u8)"
    by (simp add: word_unat_eq_iff unsigned_ucast_eq unat_of_nat take_bit_eq_mod)
  then show ?thesis by (simp add: from_bcd_byte_def bcd_to_decimal_eq unat_ucast_u8_u64 Some)
qed (simp add: from_bcd_byte_def bcd_to_decimal_eq unat_ucast_u8_u64)

lemma bcd_val_2:
  "bcd_val 2 x = (if x mod 16 > 9 \<or> x div 16 mod 16 > 9 then None
     else Some (10 * (x div 16 mod 16) + x mod 16))"
  by (simp add: numeral_2_eq_2)

lemma to_bcd_byte_eq:
  "to_bcd_byte v = (if unat v < 100 then Some (of_nat (bcd_enc 2 (unat v))) else None)"
proof -
  have "ucast (of_nat (bcd_enc 2 (unat v)) :: u64) = (of_nat (bcd_enc 2 (unat v)) :: u8)"
    using bcd_enc_bound[of 2 "unat v"]
    by (simp add: word_unat_eq_iff unsigned_ucast_eq unat_of_nat take_bit_eq_mod del: bcd_enc.simps)
  then show ?thesis by (simp add: to_bcd_byte_def decimal_to_bcd_eq unat_ucast_u8_u64 del: bcd_enc.simps)
qed

lemma to_from_bcd_byte: "from_bcd_byte b = Some v \<Longrightarrow> to_bcd_byte v = Some b"
proof -
  assume "from_bcd_byte b = Some v"
  then obtain w where w: "bcd_val 2 (unat b) = Some w" "v = of_nat w"
    by (auto simp: from_bcd_byte_eq)
  have "w < 100" "bcd_enc 2 w = unat b"
    using bcd_enc_val[OF w(1)] unat_lt2p[of b] by simp_all
  then show ?thesis using w by (simp add: to_bcd_byte_eq unat_of_nat del: bcd_enc.simps)
qed

lemma from_to_bcd_byte: "to_bcd_byte v = Some b \<Longrightarrow> from_bcd_byte b = Some v"
proof -
  assume "to_bcd_byte v = Some b"
  then have v: "unat v < 100" "b = of_nat (bcd_enc 2 (unat v))"
    by (auto simp: to_bcd_byte_eq simp del: bcd_enc.simps split: if_splits)
  have "unat b = bcd_enc 2 (unat v)"
    using bcd_enc_bound[of 2 "unat v"] by (simp add: v unat_of_nat del: bcd_enc.simps)
  then show ?thesis using v by (simp add: from_bcd_byte_eq bcd_val_enc del: bcd_val.simps bcd_enc.simps)
qed

lemma to_bcd_byte_total: "unat v < 100 \<Longrightarrow> \<exists>b. to_bcd_byte v = Some b"
  by (simp add: to_bcd_byte_eq)

section \<open>MJD and BCD time (time.rs)\<close>

definition MJD_16_MSB :: u16 where "MJD_16_MSB = 0x8000"

definition MJD_WRAP_OFFSET :: nat where "MJD_WRAP_OFFSET = 0x10000"

text \<open>The full MJD is a \<open>u32\<close>; it never exceeds 17 bits here and is a natural number.\<close>

definition full_mjd :: "u16 \<Rightarrow> nat" where
  "full_mjd field =
     (if field AND MJD_16_MSB \<noteq> 0 then unat field else MJD_WRAP_OFFSET + unat field)"

definition mjd_field :: "nat \<Rightarrow> u16 option" where
  "mjd_field full =
     (let n = (if full \<ge> MJD_WRAP_OFFSET then full - MJD_WRAP_OFFSET else full)
      in if n < 2 ^ 16 then
           let field = of_nat n in if full_mjd field = full then Some field else None
         else None)"

record MjdBcdDateTime =
  dt_year :: u16
  dt_month :: u8
  dt_day :: u8
  dt_hour :: u8
  dt_minute :: u8
  dt_second :: u8

definition JDN_OF_MJD_0 :: int where "JDN_OF_MJD_0 = 2400001"

text \<open>
  The conversions run on \<open>i64\<close>. The day numbers are far from its limits; the division of the
  source truncates towards zero, which is \<open>sdiv\<close> and \<open>smod\<close>.
\<close>

definition mjd_to_ymd_core :: "u16 \<Rightarrow> int \<times> int \<times> int" where
  "mjd_to_ymd_core field =
     (let jdn = int (full_mjd field) + JDN_OF_MJD_0;
          f = jdn + 1401 + (((4 * jdn + 274277) sdiv 146097) * 3) sdiv 4 + (-38);
          e = 4 * f + 3;
          g = (e smod 1461) sdiv 4;
          h = 5 * g + 2;
          d = (h smod 153) sdiv 5 + 1;
          m = (h sdiv 153 + 2) smod 12 + 1;
          y = e sdiv 1461 - 4716 + (12 + 2 - m) sdiv 12
      in (y, m, d))"

definition mjd_to_ymd_nogate :: "u16 \<Rightarrow> (u16 \<times> u8 \<times> u8) option" where
  "mjd_to_ymd_nogate mjd =
     (let (y, m, d) = mjd_to_ymd_core mjd
      in if \<not> (0 \<le> y \<and> y < 2 ^ 16) then None
         else if \<not> (0 \<le> m \<and> m < 2 ^ 8) then None
         else if \<not> (0 \<le> d \<and> d < 2 ^ 8) then None
         else let m_u8 = word_of_int m; d_u8 = word_of_int d
              in if \<not> (1 \<le> m_u8 \<and> m_u8 \<le> 12) \<or> \<not> (1 \<le> d_u8 \<and> d_u8 \<le> 31) then None
                 else Some (word_of_int y, m_u8, d_u8))"

definition ymd_to_mjd_core :: "int \<Rightarrow> int \<Rightarrow> int \<Rightarrow> int" where
  "ymd_to_mjd_core year month day =
     (let a = (14 - month) sdiv 12;
          y = year + 4800 - a;
          m = month + 12 * a - 3;
          jdn = day + (153 * m + 2) sdiv 5 + 365 * y + y sdiv 4 - y sdiv 100 + y sdiv 400 - 32045
      in jdn - JDN_OF_MJD_0)"

definition ymd_to_mjd_nogate :: "int \<Rightarrow> int \<Rightarrow> int \<Rightarrow> u16 option" where
  "ymd_to_mjd_nogate year month day =
     (if \<not> (1 \<le> month \<and> month \<le> 12) \<or> \<not> (1 \<le> day \<and> day \<le> 31) then None
      else let full = ymd_to_mjd_core year month day
           in if \<not> (0 \<le> full \<and> full < 2 ^ 32) then None
              else case mjd_field (nat full) of
                     None \<Rightarrow> None
                   | Some mjd \<Rightarrow>
                       (case mjd_to_ymd_nogate mjd of
                          None \<Rightarrow> None
                        | Some (y, m, d) \<Rightarrow>
                            if uint y = year \<and> uint m = month \<and> uint d = day then Some mjd
                            else None))"

fun decode_mjd_bcd :: "u8 \<times> u8 \<times> u8 \<times> u8 \<times> u8 \<Rightarrow> MjdBcdDateTime option" where
  "decode_mjd_bcd (r0, r1, r2, r3, r4) =
     (let mjd = u16_from_be r0 r1
      in case from_bcd_byte r2 of None \<Rightarrow> None | Some h \<Rightarrow>
        (case from_bcd_byte r3 of None \<Rightarrow> None | Some mi \<Rightarrow>
        (case from_bcd_byte r4 of None \<Rightarrow> None | Some s \<Rightarrow>
           if mi > 59 \<or> s > 59 \<or> h > 23 then None
           else (case mjd_to_ymd_nogate mjd of None \<Rightarrow> None | Some (year, month, day) \<Rightarrow>
             Some \<lparr>dt_year = year, dt_month = month, dt_day = day,
                   dt_hour = h, dt_minute = mi, dt_second = s\<rparr>))))"

definition encode_mjd_bcd :: "MjdBcdDateTime \<Rightarrow> (u8 \<times> u8 \<times> u8 \<times> u8 \<times> u8) option" where
  "encode_mjd_bcd dt =
     (if dt_hour dt > 23 \<or> dt_minute dt > 59 \<or> dt_second dt > 59 then None
      else case ymd_to_mjd_nogate (uint (dt_year dt)) (uint (dt_month dt)) (uint (dt_day dt)) of
             None \<Rightarrow> None
           | Some mjd \<Rightarrow>
              (case to_bcd_byte (dt_hour dt) of None \<Rightarrow> None | Some h \<Rightarrow>
              (case to_bcd_byte (dt_minute dt) of None \<Rightarrow> None | Some mi \<Rightarrow>
              (case to_bcd_byte (dt_second dt) of None \<Rightarrow> None | Some s \<Rightarrow>
                 Some (ucast (drop_bit 8 mjd), ucast mjd, h, mi, s)))))"

text \<open>\<open>core::time::Duration\<close>: whole seconds and the nanoseconds below one second.\<close>

record Duration =
  dur_secs :: u64
  dur_nanos :: u32

fun decode_bcd_duration :: "u8 \<times> u8 \<times> u8 \<Rightarrow> Duration option" where
  "decode_bcd_duration (r0, r1, r2) =
     (case from_bcd_byte r0 of None \<Rightarrow> None | Some h \<Rightarrow>
     (case from_bcd_byte r1 of None \<Rightarrow> None | Some m \<Rightarrow>
     (case from_bcd_byte r2 of None \<Rightarrow> None | Some s \<Rightarrow>
        if (ucast m :: u64) > 59 \<or> (ucast s :: u64) > 59 then None
        else Some \<lparr>dur_secs = ucast h * 3600 + ucast m * 60 + ucast s, dur_nanos = 0\<rparr>)))"

definition encode_bcd_duration :: "Duration \<Rightarrow> (u8 \<times> u8 \<times> u8) option" where
  "encode_bcd_duration duration =
     (let secs = dur_secs duration; h = secs div 3600
      in if h > 99 then None
         else let m = (secs mod 3600) div 60; s = secs mod 60
              in case to_bcd_byte (ucast h) of None \<Rightarrow> None | Some bh \<Rightarrow>
                 (case to_bcd_byte (ucast m) of None \<Rightarrow> None | Some bm \<Rightarrow>
                 (case to_bcd_byte (ucast s) of None \<Rightarrow> None | Some bs \<Rightarrow>
                    Some (bh, bm, bs))))"

subsection \<open>The calendar: proleptic Gregorian dates\<close>

definition leap_year :: "int \<Rightarrow> bool" where
  "leap_year y \<longleftrightarrow> y mod 4 = 0 \<and> (y mod 100 \<noteq> 0 \<or> y mod 400 = 0)"

definition days_in_month :: "int \<Rightarrow> int \<Rightarrow> int" where
  "days_in_month y m =
     (if m = 2 then if leap_year y then 29 else 28
      else if m \<in> {4, 6, 9, 11} then 30 else 31)"

definition gregorian :: "int \<Rightarrow> int \<Rightarrow> int \<Rightarrow> bool" where
  "gregorian y m d \<longleftrightarrow> 1 \<le> m \<and> m \<le> 12 \<and> 1 \<le> d \<and> d \<le> days_in_month y m"

text \<open>
  Both conversions go through years that start in March: \<open>Y0\<close> counts them, \<open>q\<close> is the month and
  \<open>g\<close> the day inside the year. \<open>cd\<close> is the day number without the century correction.
\<close>

definition cd :: "int \<Rightarrow> int \<Rightarrow> int" where
  "cd Y0 g = 365 * Y0 + Y0 div 4 + g"

lemma sdiv_nonneg: "0 \<le> a \<Longrightarrow> 0 \<le> b \<Longrightarrow> (a :: int) sdiv b = a div b"
proof -
  assume a: "0 \<le> a" "0 \<le> b"
  consider "a = 0" | "b = 0" | "0 < a" "0 < b" using a by linarith
  then show ?thesis by cases (simp_all add: signed_divide_int_def)
qed

lemma smod_nonneg: "0 \<le> a \<Longrightarrow> 0 \<le> b \<Longrightarrow> (a :: int) smod b = a mod b"
  by (cases "a = 0") (auto simp: signed_modulo_int_def sgn_if)

lemma year_split:
  assumes "0 \<le> g" "g \<le> 364 \<or> (g = 365 \<and> Y0 mod 4 = 3)"
  shows "(4 * cd Y0 g + 3) div 1461 = Y0" "(4 * cd Y0 g + 3) mod 1461 div 4 = g"
proof -
  have e: "4 * cd Y0 g + 3 = 1461 * Y0 + (4 * g + 3 - Y0 mod 4)"
    using minus_mod_eq_mult_div[of Y0 4] by (simp add: cd_def)
  have r: "0 \<le> 4 * g + 3 - Y0 mod 4" "4 * g + 3 - Y0 mod 4 < 1461"
    using assms pos_mod_bound[of 4 Y0] pos_mod_sign[of 4 Y0] by auto
  then show "(4 * cd Y0 g + 3) div 1461 = Y0" unfolding e by simp
  have "(4 * cd Y0 g + 3) mod 1461 = 4 * g + 3 - Y0 mod 4" unfolding e using r by simp
  moreover have "(4 * g + 3 - Y0 mod 4) div 4 = g" by presburger
  ultimately show "(4 * cd Y0 g + 3) mod 1461 div 4 = g" by simp
qed

lemma carry_4: "4 * a + 3 = 4 * b + z \<Longrightarrow> 0 \<le> z \<Longrightarrow> z < 7 \<Longrightarrow> z = 3 \<and> a = (b :: int)"
  by presburger

lemma carry_5: "5 * a + 4 = 5 * b + z \<Longrightarrow> 0 \<le> z \<Longrightarrow> z < 9 \<Longrightarrow> z = 4 \<and> a = (b :: int)"
  by presburger

lemma year_join:
  assumes "0 \<le> f" "Y0 = (4 * f + 3) div 1461" "g = (4 * f + 3) mod 1461 div 4"
  shows "cd Y0 g = f" "0 \<le> g" "g \<le> 364 \<or> (g = 365 \<and> Y0 mod 4 = 3)"
proof -
  define r s t u where "r = (4 * f + 3) mod 1461" and "s = r mod 4" and "t = Y0 mod 4" and "u = Y0 div 4"
  have r: "4 * f + 3 = 1461 * Y0 + r" "0 \<le> r" "r < 1461" using assms(2) by (simp_all add: r_def)
  have g: "r = 4 * g + s" "0 \<le> s" "s < 4" by (simp_all add: assms(3) r_def s_def)
  have Y: "Y0 = 4 * u + t" "0 \<le> t" "t < 4" by (simp_all add: u_def t_def)
  have sum: "4 * f + 3 = 4 * (365 * Y0 + u + g) + (t + s)"
    unfolding r(1) g(1) using Y(1) by simp
  have ts: "t + s = 3 \<and> f = 365 * Y0 + u + g" using carry_4[OF sum] g(2,3) Y(2,3) by simp
  then show "cd Y0 g = f" by (simp add: cd_def u_def)
  show "0 \<le> g" using r g by linarith
  show "g \<le> 364 \<or> (g = 365 \<and> Y0 mod 4 = 3)"
    unfolding t_def[symmetric] using r(3) g ts Y(2,3) by linarith
qed

lemma twelve_cases:
  assumes "0 \<le> (q :: int)" "q \<le> 11"
  shows "q = 0 \<or> q = 1 \<or> q = 2 \<or> q = 3 \<or> q = 4 \<or> q = 5 \<or> q = 6 \<or> q = 7 \<or> q = 8 \<or> q = 9
    \<or> q = 10 \<or> q = 11"
  using assms by presburger

lemma month_split:
  assumes "0 \<le> (q :: int)" "q \<le> 11" "0 \<le> c" "5 * c + (5 * ((153 * q + 2) div 5) + 2) - 153 * q < 153"
  shows "(5 * ((153 * q + 2) div 5 + c) + 2) div 153 = q"
    "(5 * ((153 * q + 2) div 5 + c) + 2) mod 153 div 5 = c"
proof -
  define x where "x = 5 * ((153 * q + 2) div 5) + 2 - 153 * q"
  have x: "0 \<le> x" "x < 5"
    using pos_mod_bound[of 5 "153 * q + 2"] pos_mod_sign[of 5 "153 * q + 2"]
      minus_mod_eq_mult_div[of "153 * q + 2" 5] by (simp_all add: x_def) 
  have e: "5 * ((153 * q + 2) div 5 + c) + 2 = 153 * q + (5 * c + x)" by (simp add: x_def)
  have r: "0 \<le> 5 * c + x" "5 * c + x < 153" using assms x by (simp_all add: x_def)
  then show "(5 * ((153 * q + 2) div 5 + c) + 2) div 153 = q" unfolding e by simp
  show "(5 * ((153 * q + 2) div 5 + c) + 2) mod 153 div 5 = c" unfolding e using r x by simp
qed

lemma month_join:
  assumes "0 \<le> (g :: int)" "g \<le> 365"
  shows "0 \<le> (5 * g + 2) div 153" "(5 * g + 2) div 153 \<le> 11"
    "(153 * ((5 * g + 2) div 153) + 2) div 5 + (5 * g + 2) mod 153 div 5 = g"
proof -
  define q r where "q = (5 * g + 2) div 153" and "r = (5 * g + 2) mod 153"
  have e: "5 * g + 2 = 153 * q + r" "0 \<le> r" "r < 153" by (simp_all add: q_def r_def)
  show "0 \<le> (5 * g + 2) div 153" "(5 * g + 2) div 153 \<le> 11" using assms by simp_all
  define x s A B where "x = (153 * q + 2) mod 5" and "s = r mod 5"
    and "A = (153 * q + 2) div 5" and "B = r div 5"
  have x: "153 * q + 2 = 5 * A + x" "0 \<le> x" "x < 5" by (simp_all add: x_def A_def)
  have s: "r = 5 * B + s" "0 \<le> s" "s < 5" by (simp_all add: s_def B_def)
  have "5 * g + 4 = 5 * (A + B) + (x + s)"
    using e(1) x(1) s(1) by algebra
  then have "A + B = g" using carry_5[of g "A + B" "x + s"] x(2,3) s(2,3) by simp
  then show "(153 * ((5 * g + 2) div 153) + 2) div 5 + (5 * g + 2) mod 153 div 5 = g"
    by (simp add: q_def r_def A_def B_def)
qed

text \<open>The century correction is constant on each side of 1 March 2100.\<close>

lemma century_correction:
  assumes "2432769 \<le> j" "j \<le> (2498304 :: int)"
  shows "((4 * j + 274277) div 146097 * 3) div 4 = (if j < 2488129 then 51 else 52)"
proof -
  have c: "(4 * j + 274277) div 146097 \<in> (if j < 2488129 then {68, 69} else {70})"
    using assms by (cases "j < 2488129") (simp_all, linarith+)
  show ?thesis using c by (cases "j < 2488129") auto
qed

lemma century_rule:
  assumes "6700 \<le> yy" "yy \<le> (6999 :: int)"
  shows "yy div 100 - yy div 400 = (if yy < 6900 then 51 else 52)"
proof -
  have "yy div 100 \<in> {67, 68, 69}" "yy div 400 = (if yy < 6800 then 16 else 17)"
    "yy div 100 = (if yy < 6800 then 67 else if yy < 6900 then 68 else 69)"
    using assms by (auto; linarith)+
  then show ?thesis by simp
qed

text \<open>
  A date inside the representable range, written with the March-based year \<open>Y0\<close>, month \<open>q\<close> and day
  of month \<open>c + 1\<close>; \<open>jdn_of\<close> is its Julian day number.
\<close>

definition jdn_of :: "int \<Rightarrow> int \<Rightarrow> int" where
  "jdn_of Y0 g = cd Y0 g - (if Y0 < 6816 then 1414 else 1415)"

definition civil :: "int \<Rightarrow> int \<Rightarrow> int \<Rightarrow> int \<times> int \<times> int" where
  "civil Y0 q c = (let m = (q + 2) mod 12 + 1 in (Y0 - 4716 + (14 - m) div 12, m, c + 1))"

lemma full_mjd_eq: "full_mjd w = (if 32768 \<le> unat w then unat w else 65536 + unat w)"
proof -
  have b: "w AND MJD_16_MSB \<noteq> 0 \<longleftrightarrow> 32768 \<le> unat w"
  proof -
    have "w AND MJD_16_MSB \<noteq> 0 \<longleftrightarrow> bit w 15"
      unfolding MJD_16_MSB_def by (simp only: bit_pos) (simp add: bit_range)
    also have "\<dots> \<longleftrightarrow> bit (unat w) 15" by (simp add: bit_unsigned_iff)
    also have "\<dots> \<longleftrightarrow> odd (unat w div 32768)" by (simp add: bit_iff_odd)
    also have "unat w div 32768 = (if 32768 \<le> unat w then 1 else 0)"
      using unat_lt2p[of w] by (simp, linarith)
    finally show ?thesis by (simp split: if_splits)
  qed
  show ?thesis unfolding full_mjd_def b MJD_WRAP_OFFSET_def by simp
qed

lemma full_mjd_range: "32768 \<le> full_mjd w" "full_mjd w \<le> 98303"
  using unat_lt2p[of w] by (simp_all add: full_mjd_eq)

lemma mjd_field_full [simp]: "mjd_field (full_mjd w) = Some w"
  using unat_lt2p[of w] by (simp add: mjd_field_def full_mjd_eq MJD_WRAP_OFFSET_def)

lemma full_mjd_surj:
  assumes "32768 \<le> n" "n \<le> 98303"
  shows "\<exists>w. full_mjd w = n"
proof (cases "n < 65536")
  case True
  then show ?thesis using assms by (intro exI[of _ "of_nat n"]) (simp add: full_mjd_eq unat_of_nat)
next
  case False
  then show ?thesis
    using assms by (intro exI[of _ "of_nat (n - 65536)"]) (simp add: full_mjd_eq unat_of_nat del: of_nat_diff)
qed

lemma mjd_to_ymd_core_civil:
  assumes "jdn_of Y0 g = int (full_mjd w) + JDN_OF_MJD_0"
    and "0 \<le> g" "g \<le> 364 \<or> (g = 365 \<and> Y0 mod 4 = 3)" "\<not> (Y0 = 6815 \<and> g = 365)"
    and "q = (5 * g + 2) div 153" "c = (5 * g + 2) mod 153 div 5"
  shows "mjd_to_ymd_core w = civil Y0 q c"
proof -
  define j where "j = int (full_mjd w) + JDN_OF_MJD_0"
  have j: "2432769 \<le> j" "j \<le> 2498304"
    using full_mjd_range[of w] by (simp_all add: j_def JDN_OF_MJD_0_def)
  have side: "Y0 < 6816 \<longleftrightarrow> j < 2488129"
    using assms(1-4) unfolding j_def[symmetric] jdn_of_def cd_def by (cases "Y0 < 6816") (simp_all, linarith+)
  have f: "j + 1401 + ((4 * j + 274277) div 146097 * 3) div 4 + - 38 = cd Y0 g"
    using assms(1) side unfolding j_def[symmetric] century_correction[OF j] jdn_of_def
    by (cases "j < 2488129") simp_all
  have q: "0 \<le> q" "q \<le> 11" unfolding assms(5) using assms(2,3) by (intro month_join; linarith)+
  have pos: "0 \<le> cd Y0 g" using f j century_correction[OF j] by (simp split: if_splits)
  have Y: "(4 * cd Y0 g + 3) div 1461 = Y0" and G: "(4 * cd Y0 g + 3) mod 1461 div 4 = g"
    using year_split[OF assms(2,3)] by simp_all
  define m where "m = (q + 2) mod 12 + 1"
  have m: "(q + 2) smod 12 + 1 = m" "1 \<le> m" "m \<le> 12"
    using q by (simp_all add: m_def smod_nonneg) 
  have 1: "(4 * j + 274277) sdiv 146097 = (4 * j + 274277) div 146097"
    "((4 * j + 274277) div 146097 * 3) sdiv 4 = ((4 * j + 274277) div 146097 * 3) div 4"
    using j by (simp_all add: sdiv_nonneg)
  have 2: "(4 * cd Y0 g + 3) smod 1461 = (4 * cd Y0 g + 3) mod 1461"
    "(4 * cd Y0 g + 3) mod 1461 sdiv 4 = g" "(4 * cd Y0 g + 3) sdiv 1461 = Y0"
    using pos by (simp_all only: sdiv_nonneg smod_nonneg Y G pos_mod_sign zero_less_numeral
        zero_le_numeral mult_nonneg_nonneg add_nonneg_nonneg)
  have 3: "(5 * g + 2) sdiv 153 = q" "(5 * g + 2) smod 153 sdiv 5 = c"
    using assms(2) by (simp_all add: sdiv_nonneg smod_nonneg assms(5,6))
  have 4: "(12 + 2 - m) sdiv 12 = (14 - m) div 12" using m by (simp add: sdiv_nonneg)
  show ?thesis
    unfolding mjd_to_ymd_core_def civil_def Let_def j_def[symmetric] m_def[symmetric]
    by (simp only: 1 f 2 3 m(1) 4)
qed

text \<open>Every field value has such a March-based date.\<close>

lemma march_date_exists:
  obtains Y0 g where "jdn_of Y0 g = int (full_mjd w) + JDN_OF_MJD_0" "0 \<le> g"
    "g \<le> 364 \<or> (g = 365 \<and> Y0 mod 4 = 3)" "\<not> (Y0 = 6815 \<and> g = 365)" "6616 \<le> Y0" "Y0 \<le> 6850"
proof -
  define j where "j = int (full_mjd w) + JDN_OF_MJD_0"
  define f where "f = j + (if j < 2488129 then 1414 else 1415)"
  define Y0 g where "Y0 = (4 * f + 3) div 1461" and "g = (4 * f + 3) mod 1461 div 4"
  have j: "2432769 \<le> j" "j \<le> 2498304"
    using full_mjd_range[of w] by (simp_all add: j_def JDN_OF_MJD_0_def)
  then have f: "2434183 \<le> f" "f \<le> 2499719" by (simp_all add: f_def)
  have join: "cd Y0 g = f" "0 \<le> g" "g \<le> 364 \<or> (g = 365 \<and> Y0 mod 4 = 3)"
    using year_join[OF _ Y0_def g_def] f by simp_all
  have split_f: "4 * f + 3 = 1461 * Y0 + (4 * f + 3) mod 1461" by (simp add: Y0_def)
  have Y: "6616 \<le> Y0" "Y0 \<le> 6850" "Y0 < 6816 \<longleftrightarrow> j < 2488129"
    using f j unfolding Y0_def f_def by (auto split: if_splits)
  have "jdn_of Y0 g = j" using join(1) Y(3) by (simp add: jdn_of_def f_def)
  moreover have "\<not> (Y0 = 6815 \<and> g = 365)"
    using join(1) by (auto simp: cd_def f_def split: if_splits)
  ultimately show thesis using that join Y unfolding j_def by blast
qed

lemma ymd_to_mjd_core_civil:
  assumes "6616 \<le> Y0" "Y0 \<le> 6850" "0 \<le> q" "q \<le> 11" "g = (153 * q + 2) div 5 + c"
    and "civil Y0 q c = (y, m, d)"
  shows "ymd_to_mjd_core y m d = jdn_of Y0 g - JDN_OF_MJD_0"
proof -
  define a where "a = (14 - m) div 12"
  have civ: "m = (q + 2) mod 12 + 1" "y = Y0 - 4716 + a" "d = c + 1"
    using assms(6) by (auto simp: civil_def Let_def a_def)
  have "m = (if q \<le> 9 then q + 3 else q - 9)"
    using twelve_cases[OF assms(3,4)] civ(1) by (elim disjE) simp_all
  then have m: "1 \<le> m" "m \<le> 12" "a = (if q \<le> 9 then 0 else 1)" "m + 12 * a - 3 = q"
    using assms(3,4) by (auto simp: a_def)
  have s: "(14 - m) sdiv 12 = a" using m by (simp add: a_def sdiv_nonneg)
  have yy: "y + 4800 - a = Y0 + 84" by (simp add: civ)
  have q5: "(153 * q + 2) sdiv 5 = (153 * q + 2) div 5" using assms(3) by (simp add: sdiv_nonneg)
  have dv: "(Y0 + 84) sdiv 4 = Y0 div 4 + 21" "(Y0 + 84) sdiv 100 = (Y0 + 84) div 100"
    "(Y0 + 84) sdiv 400 = (Y0 + 84) div 400"
    using assms(1) by (simp_all add: sdiv_nonneg)
  have "(Y0 + 84) div 100 - (Y0 + 84) div 400 = (if Y0 < 6816 then 51 else 52)"
    using century_rule[of "Y0 + 84"] assms(1,2) by simp
  then show ?thesis
    unfolding ymd_to_mjd_core_def Let_def s m(4) yy dv q5 jdn_of_def cd_def assms(5) civ(3)
    by (cases "Y0 < 6816") simp_all
qed

text \<open>The date of a field value is a Gregorian date, and its day number is the field value.\<close>

lemma march_gregorian:
  assumes "0 \<le> g" "g \<le> 364 \<or> (g = 365 \<and> Y0 mod 4 = 3)" "\<not> (Y0 = 6815 \<and> g = 365)"
    and "6616 \<le> Y0" "Y0 \<le> 6850" "q = (5 * g + 2) div 153" "c = (5 * g + 2) mod 153 div 5"
    and "civil Y0 q c = (y, m, d)"
  shows "gregorian y m d" "1899 \<le> y" "y \<le> 2200"
proof -
  have q: "0 \<le> q" "q \<le> 11" and g: "(153 * q + 2) div 5 + c = g"
    unfolding assms(6,7) using assms(1,2) by (intro month_join; linarith)+
  have c: "0 \<le> c" "c \<le> 30"
    using assms(7) pos_mod_bound[of 153 "5 * g + 2"] pos_mod_sign[of 153 "5 * g + 2"] by simp_all
  have lim: "5 * g + 2 < 153 * (q + 1)"
    using div_mult_mod_eq[of "5 * g + 2" 153] pos_mod_bound[of 153 "5 * g + 2"] assms(6) by simp
  have civ: "m = (q + 2) mod 12 + 1" "y = Y0 - 4716 + (14 - m) div 12" "d = c + 1"
    using assms(8) by (auto simp: civil_def Let_def)
  show "1899 \<le> y" "y \<le> 2200" using assms(4,5) civ(1,2) by simp_all
  have leap: "leap_year y" if "q = 11" "c = 28"
  proof -
    have "g = 365" "m = 2" using that g civ(1) by simp_all
    then have "Y0 mod 4 = 3" "Y0 \<noteq> 6815" "y = Y0 - 4715" using assms(2,3) civ(2) by simp_all
    moreover from this have "y mod 4 = 0" "y \<noteq> 2100" by presburger+
    moreover have "y mod 400 = 0" if "y mod 100 = 0"
    proof -
      have "100 dvd y" using that by presburger
      then obtain k where k: "y = 100 * k" by (rule dvdE)
      then have "k = 20" using assms(4,5) \<open>y = Y0 - 4715\<close> \<open>y \<noteq> 2100\<close> by simp
      then show ?thesis by (simp add: k)
    qed
    ultimately show ?thesis by (auto simp: leap_year_def)
  qed
  show "gregorian y m d"
    using twelve_cases[OF q] c lim g civ(1,3) leap assms(2)
    by (elim disjE) (simp_all add: gregorian_def days_in_month_def)
qed

lemma mjd_core_date:
  obtains y m d where "mjd_to_ymd_core w = (y, m, d)" "gregorian y m d" "1899 \<le> y" "y \<le> 2200"
    "ymd_to_mjd_core y m d = int (full_mjd w)"
proof -
  obtain Y0 g where G: "jdn_of Y0 g = int (full_mjd w) + JDN_OF_MJD_0" "0 \<le> g"
    "g \<le> 364 \<or> (g = 365 \<and> Y0 mod 4 = 3)" "\<not> (Y0 = 6815 \<and> g = 365)" "6616 \<le> Y0" "Y0 \<le> 6850"
    by (rule march_date_exists)
  define q c where "q = (5 * g + 2) div 153" and "c = (5 * g + 2) mod 153 div 5"
  obtain y m d where ymd: "civil Y0 q c = (y, m, d)" by (metis prod_cases3)
  have j: "0 \<le> q" "q \<le> 11" "g = (153 * q + 2) div 5 + c"
    unfolding q_def c_def using month_join[of g] G(2,3) by auto
  have "mjd_to_ymd_core w = (y, m, d)"
    using mjd_to_ymd_core_civil[OF G(1-4) q_def c_def] ymd by simp
  moreover note march_gregorian[OF G(2-6) q_def c_def ymd]
  moreover have "ymd_to_mjd_core y m d = int (full_mjd w)"
    using ymd_to_mjd_core_civil[OF G(5,6) j ymd] G(1) by simp
  ultimately show thesis by (rule that)
qed

lemma gregorian_month_day: "gregorian y m d \<Longrightarrow> 1 \<le> m \<and> m \<le> 12 \<and> 1 \<le> d \<and> d \<le> 31"
  by (auto simp: gregorian_def days_in_month_def split: if_splits)

lemma mjd_nogate_date:
  obtains y m d where "mjd_to_ymd_nogate w = Some (y, m, d)" "gregorian (uint y) (uint m) (uint d)"
    "mjd_to_ymd_core w = (uint y, uint m, uint d)"
    "ymd_to_mjd_core (uint y) (uint m) (uint d) = int (full_mjd w)"
proof -
  obtain y m d where c: "mjd_to_ymd_core w = (y, m, d)" "gregorian y m d" "1899 \<le> y" "y \<le> 2200"
    "ymd_to_mjd_core y m d = int (full_mjd w)" by (rule mjd_core_date)
  note md = gregorian_month_day[OF c(2)]
  have u: "uint (word_of_int y :: u16) = y" "uint (word_of_int m :: u8) = m" "uint (word_of_int d :: u8) = d"
    using md c(3,4) by (simp_all add: uint_word_of_int)
  have le: "(1 :: u8) \<le> word_of_int m" "word_of_int m \<le> (12 :: u8)"
    "(1 :: u8) \<le> word_of_int d" "word_of_int d \<le> (31 :: u8)"
    using md u by (simp_all add: word_le_def)
  have "mjd_to_ymd_nogate w = Some (word_of_int y, word_of_int m, word_of_int d)"
    using md c(3,4) le by (simp add: mjd_to_ymd_nogate_def c(1))
  then show thesis using that[of "word_of_int y" "word_of_int m" "word_of_int d"] c u by simp
qed

lemma ymd_to_mjd_nogate_inverse:
  assumes "mjd_to_ymd_nogate w = Some (y, m, d)"
  shows "ymd_to_mjd_nogate (uint y) (uint m) (uint d) = Some w"
    and "gregorian (uint y) (uint m) (uint d)"
proof -
  obtain y' m' d' where c: "mjd_to_ymd_nogate w = Some (y', m', d')"
    "gregorian (uint y') (uint m') (uint d')"
    "ymd_to_mjd_core (uint y') (uint m') (uint d') = int (full_mjd w)" by (rule mjd_nogate_date)
  have e: "y' = y" "m' = m" "d' = d" using c(1) assms by simp_all
  show "gregorian (uint y) (uint m) (uint d)" using c(2) e by simp
  note md = gregorian_month_day[OF this]
  show "ymd_to_mjd_nogate (uint y) (uint m) (uint d) = Some w"
    using md full_mjd_range[of w] c(1,3) unfolding e by (simp add: ymd_to_mjd_nogate_def)
qed

lemma march_month_length:
  assumes "0 \<le> q" "q \<le> 11" "0 \<le> c" "c + 1 \<le> days_in_month y ((q + 2) mod 12 + 1)"
  shows "5 * c + (5 * ((153 * q + 2) div 5) + 2) - 153 * q < 153 \<and>
    ((153 * q + 2) div 5 + c \<le> 364 \<or> (q = 11 \<and> c = 28))"
  using twelve_cases[OF assms(1,2)]
  by (elim disjE; use assms(3,4) in \<open>auto simp: days_in_month_def split: if_splits\<close>)

text \<open>Every Gregorian date from 1949 to 2127 has a field value.\<close>

lemma mjd_to_ymd_core_surj:
  assumes "gregorian y m d" "1949 \<le> y" "y \<le> 2127"
  shows "\<exists>w. mjd_to_ymd_core w = (y, m, d) \<and> ymd_to_mjd_core y m d = int (full_mjd w)"
proof -
  note md = gregorian_month_day[OF assms(1)]
  define a where "a = (14 - m) div 12"
  define Y0 q c where "Y0 = y + 4716 - a" and "q = m + 12 * a - 3" and "c = d - 1"
  define g where "g = (153 * q + 2) div 5 + c"
  have a: "a = (if m \<le> 2 then 1 else 0)" using md by (simp add: a_def) linarith
  have q: "0 \<le> q" "q \<le> 11" using md by (auto simp: q_def a)
  have "m = (if q \<le> 9 then q + 3 else q - 9)" using md by (auto simp: q_def a)
  then have m: "m = (q + 2) mod 12 + 1" using twelve_cases[OF q] by (elim disjE) simp_all
  have civ: "civil Y0 q c = (y, m, d)"
    unfolding civil_def Let_def m[symmetric] by (simp add: Y0_def a_def c_def)
  have c: "0 \<le> c" using md by (simp add: c_def)
  have len: "5 * c + (5 * ((153 * q + 2) div 5) + 2) - 153 * q < 153"
    "g \<le> 364 \<or> (q = 11 \<and> c = 28)"
    using march_month_length[OF q c, of y] assms(1) m by (auto simp: gregorian_def c_def g_def)
  have Y: "6616 \<le> Y0" "Y0 \<le> 6850" using assms(2,3) by (simp_all add: Y0_def a)
  have leap: "g = 365 \<and> Y0 mod 4 = 3 \<and> Y0 \<noteq> 6815" if "q = 11" "c = 28"
  proof -
    have "m = 2" "d = 29" using that m by (simp_all add: c_def)
    then have "leap_year y" "Y0 = y + 4715"
      using assms(1) by (auto simp: gregorian_def days_in_month_def Y0_def a split: if_splits)
    then have ly: "4 dvd y" "y \<noteq> 2100" by (auto simp: leap_year_def)
    then have "Y0 mod 4 = 3" unfolding \<open>Y0 = y + 4715\<close> by presburger
    then show ?thesis using that \<open>Y0 = y + 4715\<close> ly(2) by (simp add: g_def)
  qed
  have g: "0 \<le> g" "g \<le> 364 \<or> (g = 365 \<and> Y0 mod 4 = 3)" "\<not> (Y0 = 6815 \<and> g = 365)"
    using len(2) leap q(1) c by (auto simp: g_def)
  have qc: "q = (5 * g + 2) div 153" "c = (5 * g + 2) mod 153 div 5"
    unfolding g_def using month_split[OF q c len(1)] by simp_all
  have core: "ymd_to_mjd_core y m d = jdn_of Y0 g - JDN_OF_MJD_0"
    by (rule ymd_to_mjd_core_civil[OF Y q g_def civ])
  have "306 \<le> g" if "m \<le> 2" using that c md by (simp add: g_def q_def a) linarith
  moreover have "g \<le> 305" if "\<not> m \<le> 2" using that c md by (simp add: g_def q_def a c_def) linarith
  ultimately have "2434332 \<le> cd Y0 g" "cd Y0 g \<le> 2499710"
    using assms(2,3) g by (auto simp: cd_def Y0_def a)
  then have "2432769 \<le> jdn_of Y0 g" "jdn_of Y0 g \<le> 2498304"
    by (auto simp: jdn_of_def)
  then have rng: "32768 \<le> nat (jdn_of Y0 g - JDN_OF_MJD_0)" "nat (jdn_of Y0 g - JDN_OF_MJD_0) \<le> 98303"
    "0 \<le> jdn_of Y0 g - JDN_OF_MJD_0"
    by (simp_all add: JDN_OF_MJD_0_def) 
  then obtain w where w: "int (full_mjd w) = jdn_of Y0 g - JDN_OF_MJD_0"
    using full_mjd_surj[OF rng(1,2)] by (metis int_nat_eq)
  then have "mjd_to_ymd_core w = (y, m, d)"
    using mjd_to_ymd_core_civil[OF _ g qc] civ by simp
  then show ?thesis using core w by auto
qed

lemma ymd_to_mjd_nogate_total:
  assumes "gregorian y m d" "1949 \<le> y" "y \<le> 2127"
  shows "\<exists>w. ymd_to_mjd_nogate y m d = Some w \<and> mjd_to_ymd_core w = (y, m, d)"
proof -
  obtain w where w: "mjd_to_ymd_core w = (y, m, d)"
    using mjd_to_ymd_core_surj[OF assms] by blast
  obtain y' m' d' where c: "mjd_to_ymd_nogate w = Some (y', m', d')"
    "mjd_to_ymd_core w = (uint y', uint m', uint d')" by (rule mjd_nogate_date)
  then show ?thesis using ymd_to_mjd_nogate_inverse(1)[OF c(1)] w by auto
qed

subsection \<open>Round trips of the five-byte field\<close>

definition valid_datetime :: "MjdBcdDateTime \<Rightarrow> bool" where
  "valid_datetime dt \<longleftrightarrow> gregorian (uint (dt_year dt)) (uint (dt_month dt)) (uint (dt_day dt)) \<and>
     dt_hour dt \<le> 23 \<and> dt_minute dt \<le> 59 \<and> dt_second dt \<le> 59"

lemma decode_mjd_bcd_valid: "decode_mjd_bcd raw = Some dt \<Longrightarrow> valid_datetime dt"
  by (cases raw rule: decode_mjd_bcd.cases)
     (auto simp: valid_datetime_def Let_def not_less dest: ymd_to_mjd_nogate_inverse(2)
        split: option.splits if_splits)

lemma encode_decode_mjd_bcd: "decode_mjd_bcd raw = Some dt \<Longrightarrow> encode_mjd_bcd dt = Some raw"
proof (cases raw rule: decode_mjd_bcd.cases)
  case (1 r0 r1 r2 r3 r4)
  assume "decode_mjd_bcd raw = Some dt"
  then obtain h mi s y m d where dec: "from_bcd_byte r2 = Some h" "from_bcd_byte r3 = Some mi"
    "from_bcd_byte r4 = Some s" "\<not> (mi > 59 \<or> s > 59 \<or> h > 23)"
    "mjd_to_ymd_nogate (u16_from_be r0 r1) = Some (y, m, d)"
    "dt = \<lparr>dt_year = y, dt_month = m, dt_day = d, dt_hour = h, dt_minute = mi, dt_second = s\<rparr>"
    by (auto simp: 1 Let_def split: option.splits if_splits)
  have "[ucast (drop_bit 8 (u16_from_be r0 r1)), ucast (u16_from_be r0 r1)] = [r0, r1]"
    using u16_to_from_be[of r0 r1] by (simp add: u16_to_be_def)
  then show ?thesis
    using dec ymd_to_mjd_nogate_inverse(1)[OF dec(5)]
    by (simp add: encode_mjd_bcd_def to_from_bcd_byte 1)
qed

lemma ymd_to_mjd_nogate_decodes:
  "ymd_to_mjd_nogate (uint y) (uint m) (uint d) = Some w \<Longrightarrow> mjd_to_ymd_nogate w = Some (y, m, d)"
  by (auto simp: ymd_to_mjd_nogate_def Let_def simp flip: word_uint_eq_iff split: if_splits option.splits)

lemma decode_encode_mjd_bcd: "encode_mjd_bcd dt = Some raw \<Longrightarrow> decode_mjd_bcd raw = Some dt"
proof -
  assume "encode_mjd_bcd dt = Some raw"
  then obtain w h mi s where enc: "\<not> (dt_hour dt > 23 \<or> dt_minute dt > 59 \<or> dt_second dt > 59)"
    "ymd_to_mjd_nogate (uint (dt_year dt)) (uint (dt_month dt)) (uint (dt_day dt)) = Some w"
    "to_bcd_byte (dt_hour dt) = Some h" "to_bcd_byte (dt_minute dt) = Some mi"
    "to_bcd_byte (dt_second dt) = Some s" "raw = (ucast (drop_bit 8 w), ucast w, h, mi, s)"
    unfolding encode_mjd_bcd_def by (auto split: if_splits option.splits)
  note dec = ymd_to_mjd_nogate_decodes[OF enc(2)] enc(3-5)[THEN from_to_bcd_byte]
  show ?thesis using enc(1) unfolding enc(6) by (simp add: dec)
qed

lemma encode_mjd_bcd_total:
  assumes "valid_datetime dt" "1949 \<le> uint (dt_year dt)" "uint (dt_year dt) \<le> 2127"
  shows "\<exists>raw. encode_mjd_bcd dt = Some raw"
proof -
  obtain w where w: "ymd_to_mjd_nogate (uint (dt_year dt)) (uint (dt_month dt)) (uint (dt_day dt)) = Some w"
    using ymd_to_mjd_nogate_total assms by (fastforce simp: valid_datetime_def)
  have "unat (dt_hour dt) < 100" "unat (dt_minute dt) < 100" "unat (dt_second dt) < 100"
    using assms(1) by (auto simp: valid_datetime_def word_le_nat_alt)
  then obtain bh bm bs where "to_bcd_byte (dt_hour dt) = Some bh"
    "to_bcd_byte (dt_minute dt) = Some bm" "to_bcd_byte (dt_second dt) = Some bs"
    by (elim to_bcd_byte_total[THEN exE])
  then show ?thesis
    using assms(1) w by (simp add: encode_mjd_bcd_def valid_datetime_def not_less)
qed

subsection \<open>Round trips of durations\<close>

lemma encode_bcd_duration_total:
  assumes "unat (dur_secs t) < 360000"
  shows "\<exists>raw. encode_bcd_duration t = Some raw \<and>
    decode_bcd_duration raw = Some \<lparr>dur_secs = dur_secs t, dur_nanos = 0\<rparr>"
proof -
  define n where "n = unat (dur_secs t)"
  define h m s :: u8 where "h = ucast (dur_secs t div 3600)"
    and "m = ucast ((dur_secs t mod 3600) div 60)" and "s = ucast (dur_secs t mod 60)"
  have n: "n < 360000" using assms by (simp add: n_def)
  have u64: "unat (dur_secs t div 3600) = n div 3600" "unat ((dur_secs t mod 3600) div 60) = n mod 3600 div 60"
    "unat (dur_secs t mod 60) = n mod 60"
    by (simp_all add: n_def unat_div unat_mod)
  have le: "n div 3600 < 100" "n mod 3600 div 60 < 60" "n mod 60 < 60" using n by simp_all
  have u8: "unat h = n div 3600" "unat m = n mod 3600 div 60" "unat s = n mod 60"
    using le unfolding h_def m_def s_def unsigned_ucast_eq u64 by (simp_all add: take_bit_eq_mod)
  have "unat h < 100" "unat m < 100" "unat s < 100" using u8 le by linarith+
  then obtain bh bm bs where enc: "to_bcd_byte h = Some bh" "to_bcd_byte m = Some bm" "to_bcd_byte s = Some bs"
    by (elim to_bcd_byte_total[THEN exE])
  have "encode_bcd_duration t = Some (bh, bm, bs)"
    using enc le u64(1) by (simp add: encode_bcd_duration_def Let_def word_less_nat_alt h_def m_def s_def)
  moreover have "(ucast h :: u64) * 3600 + ucast m * 60 + ucast s = dur_secs t"
  proof -
    have "n = n div 3600 * 3600 + (n mod 3600 div 60 * 60 + n mod 60)"
      using div_mult_mod_eq[of n 3600] div_mult_mod_eq[of "n mod 3600" 60] mod_mod_cancel[of 60 3600 n]
      by simp
    then have "of_nat n = (of_nat (n div 3600) :: u64) * 3600 + of_nat (n mod 3600 div 60) * 60 + of_nat (n mod 60)"
      by (metis (no_types) of_nat_add of_nat_mult of_nat_numeral add.assoc)
    moreover have "(ucast h :: u64) = of_nat (n div 3600)" "(ucast m :: u64) = of_nat (n mod 3600 div 60)"
      "(ucast s :: u64) = of_nat (n mod 60)"
      by (simp_all flip: u8)
    ultimately show ?thesis by (simp add: n_def)
  qed
  moreover have "\<not> (59 < (ucast m :: u64)) \<and> \<not> (59 < (ucast s :: u64))"
    using le u8 by (simp add: word_less_nat_alt unat_ucast_u8_u64)
  ultimately show ?thesis using enc by (simp add: from_to_bcd_byte)
qed

lemma hms_digits:
  assumes "m < (60 :: nat)" "s < 60"
  shows "(h * 3600 + m * 60 + s) div 3600 = h" "(h * 3600 + m * 60 + s) mod 3600 div 60 = m"
    "(h * 3600 + m * 60 + s) mod 60 = s"
proof -
  have r: "m * 60 + s < 3600" "h * 3600 + m * 60 + s = (m * 60 + s) + h * 3600" using assms by simp_all
  show "(h * 3600 + m * 60 + s) div 3600 = h" using r by simp
  show "(h * 3600 + m * 60 + s) mod 3600 div 60 = m" unfolding r(2) using r(1) assms(2) by simp
  have "h * 3600 + m * 60 + s = s + (h * 60 + m) * 60" by simp
  then show "(h * 3600 + m * 60 + s) mod 60 = s" using assms(2) by (simp only: mod_mult_self1) simp
qed

lemma encode_decode_bcd_duration:
  assumes "decode_bcd_duration raw = Some t"
  shows "encode_bcd_duration t = Some raw"
proof (cases raw rule: decode_bcd_duration.cases)
  case (1 r0 r1 r2)
  obtain h m s where f: "from_bcd_byte r0 = Some h" "from_bcd_byte r1 = Some m" "from_bcd_byte r2 = Some s"
    "\<not> (59 < (ucast m :: u64))" "\<not> (59 < (ucast s :: u64))"
    "t = \<lparr>dur_secs = ucast h * 3600 + ucast m * 60 + ucast s, dur_nanos = 0\<rparr>"
    using assms by (auto simp: 1 split: option.splits if_splits)
  have le: "unat h < 100" "unat m < 60" "unat s < 60"
    using f(4,5) to_from_bcd_byte[OF f(1)]
    by (auto simp: word_less_nat_alt unat_ucast_u8_u64 to_bcd_byte_eq split: if_splits)
  define n where "n = unat h * 3600 + unat m * 60 + unat s"
  have "unat (of_nat n :: u64) = n" using le by (simp only: unat_of_nat) (simp add: n_def)
  moreover have "dur_secs t = of_nat n" by (simp add: n_def f(6))
  ultimately have u: "unat (dur_secs t) = n" by simp
  have d: "n div 3600 = unat h" "n mod 3600 div 60 = unat m" "n mod 60 = unat s"
    using hms_digits[OF le(2,3), of "unat h"] by (simp_all add: n_def)
  have "unat (dur_secs t div 3600) = unat h" "unat ((dur_secs t mod 3600) div 60) = unat m"
    "unat (dur_secs t mod 60) = unat s"
    by (simp_all add: unat_div unat_mod u d)
  then have w: "dur_secs t div 3600 = ucast h" "(dur_secs t mod 3600) div 60 = ucast m"
    "dur_secs t mod 60 = ucast s"
    by (simp_all add: word_unat_eq_iff unat_ucast_u8_u64)
  have c: "ucast (ucast b :: u64) = b" for b :: u8 by (simp only: bit_pos) (simp add: bit_range)
  show ?thesis
    using le(1) by (simp add: encode_bcd_duration_def Let_def w c to_from_bcd_byte[OF f(1)]
        to_from_bcd_byte[OF f(2)] to_from_bcd_byte[OF f(3)] 1 word_less_nat_alt unat_ucast_u8_u64)
qed

section \<open>Properties\<close>

text \<open>
  C40. A 5-byte DVB UTC field that decodes at all decodes to a valid Gregorian date (leap years by
  the full 4/100/400 rule) and a valid time of day, and encoding the result gives back the same
  five bytes.
\<close>

theorem mjd_bcd_round_trip:
  assumes "decode_mjd_bcd raw = Some dt"
  shows "encode_mjd_bcd dt = Some raw \<and> valid_datetime dt"
  using assms by (simp add: encode_decode_mjd_bcd decode_mjd_bcd_valid)

theorem mjd_bcd_round_trip_witness:
  "encode_mjd_bcd \<lparr>dt_year = 2040, dt_month = 12, dt_day = 25, dt_hour = 12, dt_minute = 34,
     dt_second = 56\<rparr> = Some (0x03, 0xD1, 0x12, 0x34, 0x56)"
proof -
  have bcd: "from_bcd_byte 0x12 = Some 12" "from_bcd_byte 0x34 = Some 34" "from_bcd_byte 0x56 = Some 56"
    by (simp_all add: from_bcd_byte_eq bcd_val_2)
  have "u16_from_be 0x03 0xD1 = 0x03D1" by (simp add: u16_from_be_def)
  moreover have "mjd_to_ymd_nogate 0x03D1 = Some (2040, 12, 25)"
    by (simp add: mjd_to_ymd_nogate_def mjd_to_ymd_core_def Let_def full_mjd_eq JDN_OF_MJD_0_def)
  ultimately have "decode_mjd_bcd (0x03, 0xD1, 0x12, 0x34, 0x56) =
    Some \<lparr>dt_year = 2040, dt_month = 12, dt_day = 25, dt_hour = 12, dt_minute = 34, dt_second = 56\<rparr>"
    by (simp add: bcd)
  then show ?thesis using mjd_bcd_round_trip by blast
qed


text \<open>
  Every date the field can express is encoded. Each valid date and time between 1949 and 2127 has
  an encoding, and decoding it returns the same date and time, although only sixteen bits of the
  Modified Julian Day are sent.
\<close>

theorem mjd_bcd_encode_complete:
  assumes "valid_datetime dt" "1949 \<le> uint (dt_year dt)" "uint (dt_year dt) \<le> 2127"
  shows "\<exists>bs. encode_mjd_bcd dt = Some bs \<and> decode_mjd_bcd bs = Some dt"
  using encode_mjd_bcd_total[OF assms] decode_encode_mjd_bcd by blast

theorem mjd_bcd_encode_complete_witness:
  "\<exists>bs. encode_mjd_bcd \<lparr>dt_year = 2000, dt_month = 2, dt_day = 29, dt_hour = 23, dt_minute = 59,
      dt_second = 59\<rparr> = Some bs \<and>
    decode_mjd_bcd bs = Some \<lparr>dt_year = 2000, dt_month = 2, dt_day = 29, dt_hour = 23, dt_minute = 59,
      dt_second = 59\<rparr>"
  by (rule mjd_bcd_encode_complete) (simp_all add: valid_datetime_def gregorian_def days_in_month_def leap_year_def)

text \<open>
  Packed decimal. Up to sixteen digits, every number that fits encodes to a pattern that decodes
  back to it, and every accepted pattern is re-encoded to itself (its unused high nibbles cleared).
\<close>

theorem bcd_round_trip:
  assumes "n \<le> 16"
  shows "(unat v < 10 ^ n \<longrightarrow> (\<exists>p. decimal_to_bcd v n = Some p \<and> bcd_to_decimal p n = Some v)) \<and>
    (bcd_to_decimal q n = Some w \<longrightarrow> decimal_to_bcd w n = Some (of_nat (unat q mod 16 ^ n)))"
  using bcd_decode_encode[OF assms] bcd_encode_decode[OF assms] by blast

theorem bcd_round_trip_witness:
  "\<exists>p. decimal_to_bcd 9999999999999999 16 = Some p \<and> bcd_to_decimal p 16 = Some 9999999999999999"
  using bcd_round_trip[of 16 9999999999999999] by simp

end
