(* ===== verification/Common_Errors.thy ===== *)
theory Common_Errors
  imports Prelude
begin

text \<open>
  The foundation crate's failure kinds (\<open>broadcast-common/src/error.rs\<close>), the range-checked
  narrowing helpers every serializer calls (\<open>len.rs\<close>), and the \<open>Parse\<close> / \<open>Serialize\<close> traits
  (\<open>traits.rs\<close>) as a locale: what a wire type promises to its callers, and what the trait's
  provided method \<open>try_to_bytes\<close> then guarantees.
\<close>

section \<open>Failure kinds (error.rs)\<close>

record BufferTooShort =
  bts_need :: nat
  bts_have :: nat
  bts_what :: string

record OutputBufferTooSmall =
  obs_need :: nat
  obs_have :: nat

record FieldOverflow =
  fo_field :: string
  fo_value :: nat
  fo_max :: nat

record CrcMismatch =
  cm_what :: string
  cm_computed :: u32
  cm_expected :: u32

record InvalidSync =
  is_what :: string
  is_expected :: nat
  is_found :: nat

record ReservedBits =
  rb_field :: string
  rb_expected :: nat
  rb_found :: nat

record InvalidField =
  if_field :: string
  if_reason :: string

section \<open>Length checks and narrowing (len.rs)\<close>

definition need_in :: "'a list \<Rightarrow> nat \<Rightarrow> string \<Rightarrow> (BufferTooShort, unit) result" where
  "need_in buf need what =
     (let have_n = length buf
      in if have_n < need then Err \<lparr>bts_need = need, bts_have = have_n, bts_what = what\<rparr>
         else Ok ())"

definition need_out :: "'a list \<Rightarrow> nat \<Rightarrow> (OutputBufferTooSmall, unit) result" where
  "need_out buf need =
     (let have_n = length buf
      in if have_n < need then Err \<lparr>obs_need = need, obs_have = have_n\<rparr> else Ok ())"

text \<open>
  \<open>fit_bits\<close> panics (the outer \<open>None\<close>) when the width itself is not in \<open>1..=64\<close>, a programming
  error; a value that is too large is an ordinary error value. The \<open>u64\<close> argument is a natural
  number below \<open>2 ^ 64\<close>.
\<close>

definition fit_bits :: "nat \<Rightarrow> nat \<Rightarrow> string \<Rightarrow> (FieldOverflow, nat) result option" where
  "fit_bits val bits field =
     (if \<not> (1 \<le> bits \<and> bits \<le> 64) then None
      else let mx = (if bits = 64 then 2 ^ 64 - 1 else 2 ^ bits - 1)
           in Some (if val \<le> mx then Ok val
                    else Err \<lparr>fo_field = field, fo_value = val, fo_max = mx\<rparr>))"

definition fit_mask :: "'w::len word \<Rightarrow> 'w word \<Rightarrow> string \<Rightarrow> (FieldOverflow, 'w word) result" where
  "fit_mask val msk field =
     (let v = unat val; m = unat msk
      in if (ucast val :: u64) AND NOT (ucast msk) = 0 then Ok val
         else Err \<lparr>fo_field = field, fo_value = v, fo_max = m\<rparr>)"

definition fit_u8 :: "nat \<Rightarrow> string \<Rightarrow> (FieldOverflow, u8) result" where
  "fit_u8 val field =
     (case fit_bits val 8 field of
        None \<Rightarrow> Err \<lparr>fo_field = field, fo_value = val, fo_max = 0\<rparr>
      | Some r \<Rightarrow> and_then r (\<lambda>fitted. Ok (of_nat fitted)))"

definition fit_u16 :: "nat \<Rightarrow> string \<Rightarrow> (FieldOverflow, u16) result" where
  "fit_u16 val field =
     (case fit_bits val 16 field of
        None \<Rightarrow> Err \<lparr>fo_field = field, fo_value = val, fo_max = 0\<rparr>
      | Some r \<Rightarrow> and_then r (\<lambda>fitted. Ok (of_nat fitted)))"

definition fit_u24 :: "nat \<Rightarrow> string \<Rightarrow> (FieldOverflow, u32) result" where
  "fit_u24 val field =
     (case fit_bits val 24 field of
        None \<Rightarrow> Err \<lparr>fo_field = field, fo_value = val, fo_max = 0\<rparr>
      | Some r \<Rightarrow> and_then r (\<lambda>fitted. Ok (of_nat fitted)))"

definition fit_u32 :: "nat \<Rightarrow> string \<Rightarrow> (FieldOverflow, u32) result" where
  "fit_u32 val field =
     (case fit_bits val 32 field of
        None \<Rightarrow> Err \<lparr>fo_field = field, fo_value = val, fo_max = 0\<rparr>
      | Some r \<Rightarrow> and_then r (\<lambda>fitted. Ok (of_nat fitted)))"

text \<open>
  The \<open>None\<close> branches of the four narrowing helpers are the panic of \<open>fit_bits\<close> at a constant
  width inside \<open>1..=64\<close>; the next lemmas show that they never occur.
\<close>

lemma need_in_Ok [simp]: "need_in buf need what = Inr u \<longleftrightarrow> need \<le> length buf"
  by (auto simp: need_in_def Let_def)

lemma need_in_eq:
  "need_in buf need what =
     (if need \<le> length buf then Inr ()
      else Inl \<lparr>bts_need = need, bts_have = length buf, bts_what = what\<rparr>)"
  by (auto simp: need_in_def Let_def)

lemma need_out_eq:
  "need_out buf need =
     (if need \<le> length buf then Inr () else Inl \<lparr>obs_need = need, obs_have = length buf\<rparr>)"
  by (auto simp: need_out_def Let_def)

lemma fit_bits_total:
  assumes "1 \<le> bits" "bits \<le> 64"
  shows "fit_bits val bits field =
     Some (if val < 2 ^ bits then Ok val
           else Err \<lparr>fo_field = field, fo_value = val, fo_max = 2 ^ bits - 1\<rparr>)"
proof -
  have "(0 :: nat) < 2 ^ bits" by simp
  then have "val \<le> 2 ^ bits - 1 \<longleftrightarrow> val < 2 ^ bits" by linarith
  moreover have "(if bits = 64 then 2 ^ 64 - 1 else 2 ^ bits - 1) = (2 ^ bits - 1 :: nat)"
    by simp
  ultimately show ?thesis
    unfolding fit_bits_def Let_def using assms by (simp only:) simp
qed

lemma fit_u8_eq:
  "fit_u8 val field =
     (if val < 256 then Ok (of_nat val)
      else Err \<lparr>fo_field = field, fo_value = val, fo_max = 255\<rparr>)"
  by (simp add: fit_u8_def fit_bits_total)

lemma fit_u16_eq:
  "fit_u16 val field =
     (if val < 65536 then Ok (of_nat val)
      else Err \<lparr>fo_field = field, fo_value = val, fo_max = 65535\<rparr>)"
  by (simp add: fit_u16_def fit_bits_total)

lemma fit_u24_eq:
  "fit_u24 val field =
     (if val < 16777216 then Ok (of_nat val)
      else Err \<lparr>fo_field = field, fo_value = val, fo_max = 16777215\<rparr>)"
  by (simp add: fit_u24_def fit_bits_total)

lemma fit_u32_eq:
  "fit_u32 val field =
     (if val < 4294967296 then Ok (of_nat val)
      else Err \<lparr>fo_field = field, fo_value = val, fo_max = 4294967295\<rparr>)"
  by (simp add: fit_u32_def fit_bits_total)

text \<open>No narrowing helper ever returns a truncated value: the result reads back as the argument.\<close>

lemma fit_u8_exact: "fit_u8 val field = Inr w \<Longrightarrow> unat w = val"
  by (auto simp: fit_u8_eq unat_of_nat split: if_splits)

lemma fit_u16_exact: "fit_u16 val field = Inr w \<Longrightarrow> unat w = val"
  by (auto simp: fit_u16_eq unat_of_nat split: if_splits)

lemma fit_u24_exact: "fit_u24 val field = Inr w \<Longrightarrow> unat w = val"
  by (auto simp: fit_u24_eq unat_of_nat split: if_splits)

lemma fit_u32_exact: "fit_u32 val field = Inr w \<Longrightarrow> unat w = val"
  by (auto simp: fit_u32_eq unat_of_nat split: if_splits)

lemma ucast_and_not_mask_zero:
  assumes "LENGTH('w::len) \<le> 64"
  shows "(ucast (v :: 'w word) :: u64) AND NOT (ucast (m :: 'w word)) = 0 \<longleftrightarrow> v AND m = v"
proof
  assume eq: "(ucast v :: u64) AND NOT (ucast m) = 0"
  show "v AND m = v"
  proof (rule bit_word_eqI)
    fix i assume i: "i < LENGTH('w)"
    have "\<not> bit ((ucast v :: u64) AND NOT (ucast m)) i"
      by (simp add: eq)
    then show "bit (v AND m) i = bit v i"
      using i assms by (auto simp: bit_simps)
  qed
next
  assume sub: "v AND m = v"
  show "(ucast v :: u64) AND NOT (ucast m) = 0"
  proof (rule bit_word_eqI)
    fix i assume "i < LENGTH(64)"
    have "bit v i \<Longrightarrow> bit m i"
      by (metis sub bit_and_iff)
    then show "bit ((ucast v :: u64) AND NOT (ucast m)) i = bit (0 :: u64) i"
      by (auto simp: bit_simps)
  qed
qed

lemma fit_mask_u8_eq:
  "fit_mask (v :: u8) m field =
     (if v AND m = v then Ok v
      else Err \<lparr>fo_field = field, fo_value = unat v, fo_max = unat m\<rparr>)"
  by (simp add: fit_mask_def Let_def ucast_and_not_mask_zero)

section \<open>The Parse and Serialize traits (traits.rs)\<close>

text \<open>
  The provided method \<open>try_to_bytes\<close> allocates \<open>serialized_len\<close> zero bytes, serializes into them
  and cuts the result to the number of bytes written.
\<close>

definition try_to_bytes ::
    "('a \<Rightarrow> nat) \<Rightarrow> ('a \<Rightarrow> bytes \<Rightarrow> ('e, bytes \<times> nat) result) \<Rightarrow> 'a \<Rightarrow> ('e, bytes) result" where
  "try_to_bytes serialized_len serialize_into x =
     (let v = replicate (serialized_len x) (0 :: u8)
      in and_then (serialize_into x v) (\<lambda>(v', written).
           if written \<noteq> length v' then Ok (take written v') else Ok v'))"

text \<open>
  A wire type: \<open>wire x\<close> is the declarative image of a well-formed value. The serializer writes
  exactly this image at the front of any buffer that is long enough, touches nothing after it and
  reports its length; a shorter buffer is an error; the parser recovers the value from the image.
\<close>

locale wire_type =
  fixes parse :: "bytes \<Rightarrow> ('e, 'a) result"
    and serialized_len :: "'a \<Rightarrow> nat"
    and serialize_into :: "'a \<Rightarrow> bytes \<Rightarrow> ('e, bytes \<times> nat) result"
    and wf :: "'a \<Rightarrow> bool"
    and wire :: "'a \<Rightarrow> bytes"
  assumes len_wire: "wf x \<Longrightarrow> serialized_len x = length (wire x)"
    and serialize_wire: "wf x \<Longrightarrow> length (wire x) \<le> length buf \<Longrightarrow>
      serialize_into x buf = Inr (wire x @ drop (length (wire x)) buf, length (wire x))"
    and serialize_short: "wf x \<Longrightarrow> length buf < length (wire x) \<Longrightarrow>
      \<exists>e. serialize_into x buf = Inl e"
    and parse_wire: "wf x \<Longrightarrow> parse (wire x) = Inr x"
begin

lemma try_to_bytes_wire: "wf x \<Longrightarrow> try_to_bytes serialized_len serialize_into x = Inr (wire x)"
  by (simp add: try_to_bytes_def Let_def len_wire serialize_wire)

lemma parse_try_to_bytes:
  "wf x \<Longrightarrow> \<exists>bs. try_to_bytes serialized_len serialize_into x = Inr bs \<and> parse bs = Inr x"
  by (simp add: try_to_bytes_wire parse_wire)

lemma wire_inject: "wf x \<Longrightarrow> wf y \<Longrightarrow> wire x = wire y \<longleftrightarrow> x = y"
  using parse_wire by (metis sum.inject(2))

lemma serialize_iff_room:
  "wf x \<Longrightarrow> (\<exists>r. serialize_into x buf = Inr r) \<longleftrightarrow> serialized_len x \<le> length buf"
  using serialize_wire serialize_short len_wire by (metis Inl_Inr_False not_le)

end

text \<open>A parser that also ignores what follows the image can be run at the front of a stream.\<close>

locale prefix_wire_type = wire_type +
  assumes parse_prefix: "wf x \<Longrightarrow> parse (wire x @ rest) = Inr x"
begin

lemma prefix_unique:
  "wf x \<Longrightarrow> wf y \<Longrightarrow> wire x @ r = wire y @ s \<Longrightarrow> x = y"
  using parse_prefix by (metis sum.inject(2))

lemma serialize_then_parse:
  "wf x \<Longrightarrow> serialize_into x buf = Inr (out, n) \<Longrightarrow>
   parse out = Inr x \<and> n = serialized_len x \<and> length out = length buf \<and> drop n out = drop n buf"
  using serialize_iff_room[of x buf] serialize_wire[of x buf] parse_prefix[of x] len_wire[of x]
  by (auto dest: sym)

end

end
