(* ===== verification/Ts_Packet.thy ===== *)
theory Ts_Packet
  imports Common_Errors "HOL-Library.Char_ord"
begin

text \<open>
  The transport packet (\<open>mpeg-ts/src/{error,pid,ts}.rs\<close>): the crate's error type, packet
  identifiers, the 4-byte header with its parser and serializer, the 188-byte packet parser, the
  walk over a buffer of packets and the payload extractor. The header keeps the contract
  \<open>prefix_wire_type\<close>; parsing a packet is total up to its two documented errors.
\<close>

section \<open>Errors (error.rs)\<close>

datatype TsError =
    TsBufferTooShort BufferTooShort
  | TsCrcMismatch CrcMismatch
  | TsInvalidSync InvalidSync
  | TsOutputBufferTooSmall OutputBufferTooSmall
  | SectionLengthOverflow nat nat
  | PayloadTooLarge nat nat
  | TsFieldOverflow FieldOverflow
  | SectionPayloadLengthMismatch u16 nat nat

section \<open>Packet identifiers (pid.rs)\<close>

datatype Pid = MkPid (pid_value: u16)

definition PID_MASK :: u16 where "PID_MASK = 0x1FFF"

definition Pid_new :: "u16 \<Rightarrow> Pid" where
  "Pid_new v = MkPid (v AND PID_MASK)"

definition Pid_from_wire_masked :: "u16 \<Rightarrow> Pid" where
  "Pid_from_wire_masked v = MkPid (v AND PID_MASK)"

record PidOutOfRange =
  por_value :: u16

definition Pid_try_new :: "u16 \<Rightarrow> (PidOutOfRange, Pid) result" where
  "Pid_try_new v = (if v > PID_MASK then Err \<lparr>por_value = v\<rparr> else Ok (MkPid v))"

text \<open>The derived \<open>Ord\<close> of the newtype is the order of the wrapped integer.\<close>

instantiation Pid :: linorder
begin

definition less_eq_Pid :: "Pid \<Rightarrow> Pid \<Rightarrow> bool" where
  "less_eq_Pid a b \<longleftrightarrow> pid_value a \<le> pid_value b"

definition less_Pid :: "Pid \<Rightarrow> Pid \<Rightarrow> bool" where
  "less_Pid a b \<longleftrightarrow> pid_value a < pid_value b"

instance
  by standard (auto simp: less_eq_Pid_def less_Pid_def Pid.expand)

end

definition wf_pid :: "Pid \<Rightarrow> bool" where
  "wf_pid p \<longleftrightarrow> pid_value p AND PID_MASK = pid_value p"

lemma PID_MASK_mask: "PID_MASK = mask 13"
  by (simp add: PID_MASK_def mask_eq_exp_minus_1)

lemma wf_pid_iff: "wf_pid p \<longleftrightarrow> pid_value p \<le> PID_MASK"
proof
  assume "wf_pid p"
  then show "pid_value p \<le> PID_MASK"
    by (metis wf_pid_def PID_MASK_mask word_and_le2 and.commute)
next
  assume "pid_value p \<le> PID_MASK"
  then have "unat (pid_value p) < 2 ^ 13"
    by (simp add: word_le_nat_alt PID_MASK_def)
  then have "take_bit 13 (pid_value p) = pid_value p"
    by (simp add: word_unat_eq_iff unat_mod take_bit_eq_mod)
  then show "wf_pid p" by (simp add: wf_pid_def PID_MASK_mask take_bit_eq_mask)
qed

lemma wf_Pid_new [simp]: "wf_pid (Pid_new v)"
  by (simp add: wf_pid_def Pid_new_def and.assoc)

lemma Pid_try_new_Ok: "Pid_try_new v = Inr p \<longleftrightarrow> wf_pid p \<and> pid_value p = v"
  by (cases p) (auto simp: Pid_try_new_def wf_pid_iff)

section \<open>Scrambling and adaptation-field control (ts.rs)\<close>

definition TS_PACKET_SIZE :: nat where "TS_PACKET_SIZE = 188"
definition TS_SYNC_BYTE :: u8 where "TS_SYNC_BYTE = 0x47"
definition STUFFING_BYTE :: u8 where "STUFFING_BYTE = 0xFF"

datatype ScramblingControl = NotScrambled | ScReserved | EvenKey | OddKey

definition ScramblingControl_from_bits :: "u8 \<Rightarrow> ScramblingControl" where
  "ScramblingControl_from_bits bits =
     (let b = bits AND 0b11
      in if b = 0b00 then NotScrambled else if b = 0b01 then ScReserved
         else if b = 0b10 then EvenKey else OddKey)"

fun ScramblingControl_to_bits :: "ScramblingControl \<Rightarrow> u8" where
  "ScramblingControl_to_bits NotScrambled = 0b00"
| "ScramblingControl_to_bits ScReserved = 0b01"
| "ScramblingControl_to_bits EvenKey = 0b10"
| "ScramblingControl_to_bits OddKey = 0b11"

datatype AdaptationFieldControl = AfcReserved | PayloadOnly | AdaptationOnly | AdaptationAndPayload

fun AdaptationFieldControl_from_flags :: "bool \<Rightarrow> bool \<Rightarrow> AdaptationFieldControl" where
  "AdaptationFieldControl_from_flags False False = AfcReserved"
| "AdaptationFieldControl_from_flags False True = PayloadOnly"
| "AdaptationFieldControl_from_flags True False = AdaptationOnly"
| "AdaptationFieldControl_from_flags True True = AdaptationAndPayload"

fun AdaptationFieldControl_to_flags :: "AdaptationFieldControl \<Rightarrow> bool \<times> bool" where
  "AdaptationFieldControl_to_flags AfcReserved = (False, False)"
| "AdaptationFieldControl_to_flags PayloadOnly = (False, True)"
| "AdaptationFieldControl_to_flags AdaptationOnly = (True, False)"
| "AdaptationFieldControl_to_flags AdaptationAndPayload = (True, True)"

fun AdaptationFieldControl_to_bits :: "AdaptationFieldControl \<Rightarrow> u8" where
  "AdaptationFieldControl_to_bits AfcReserved = 0b00"
| "AdaptationFieldControl_to_bits PayloadOnly = 0b01"
| "AdaptationFieldControl_to_bits AdaptationOnly = 0b10"
| "AdaptationFieldControl_to_bits AdaptationAndPayload = 0b11"

lemma from_flags_to_flags [simp]:
  "AdaptationFieldControl_from_flags (fst (AdaptationFieldControl_to_flags c))
     (snd (AdaptationFieldControl_to_flags c)) = c"
  by (cases c) simp_all

lemma to_flags_from_flags [simp]:
  "AdaptationFieldControl_to_flags (AdaptationFieldControl_from_flags a p) = (a, p)"
  by (cases a; cases p) simp_all

section \<open>The 4-byte header\<close>

definition TEI_MASK :: u8 where "TEI_MASK = 0x80"
definition PUSI_MASK :: u8 where "PUSI_MASK = 0x40"
definition PID_MASK_HI :: u8 where "PID_MASK_HI = 0x1F"
definition SCRAMBLING_MASK :: u8 where "SCRAMBLING_MASK = 0xC0"
definition ADAPTATION_FLAG :: u8 where "ADAPTATION_FLAG = 0x20"
definition PAYLOAD_FLAG :: u8 where "PAYLOAD_FLAG = 0x10"
definition CC_MASK :: u8 where "CC_MASK = 0x0F"

lemmas hdr_masks = TEI_MASK_def PUSI_MASK_def PID_MASK_HI_def SCRAMBLING_MASK_def
  ADAPTATION_FLAG_def PAYLOAD_FLAG_def CC_MASK_def

record TsHeader =
  tei :: bool
  pusi :: bool
  pid :: Pid
  scrambling :: u8
  has_adaptation :: bool
  has_payload :: bool
  continuity_counter :: u8

definition TsHeader_parse :: "bytes \<Rightarrow> (TsError, TsHeader) result" where
  "TsHeader_parse raw4 =
     and_then (map_err TsBufferTooShort (need_in raw4 4 ''TsHeader'')) (\<lambda>_.
       let b1 = raw4 ! 1; b2 = raw4 ! 2; b3 = raw4 ! 3
       in Ok \<lparr>tei = (b1 AND TEI_MASK) \<noteq> 0,
              pusi = (b1 AND PUSI_MASK) \<noteq> 0,
              pid = Pid_new (push_bit 8 (ucast (b1 AND PID_MASK_HI)) OR ucast b2),
              scrambling = drop_bit 6 (b3 AND SCRAMBLING_MASK),
              has_adaptation = (b3 AND ADAPTATION_FLAG) \<noteq> 0,
              has_payload = (b3 AND PAYLOAD_FLAG) \<noteq> 0,
              continuity_counter = b3 AND CC_MASK\<rparr>)"

definition TsHeader_serialized_len :: "TsHeader \<Rightarrow> nat" where
  "TsHeader_serialized_len h = 4"

text \<open>The three bytes after the sync byte, assembled with \<open>|=\<close> as in the source.\<close>

definition hdr_byte1 :: "TsHeader \<Rightarrow> u8" where
  "hdr_byte1 h =
     (let b = 0;
          b = (if tei h then b OR TEI_MASK else b);
          b = (if pusi h then b OR PUSI_MASK else b)
      in b OR (ucast (drop_bit 8 (pid_value (pid h))) AND PID_MASK_HI))"

definition hdr_byte2 :: "TsHeader \<Rightarrow> u8" where
  "hdr_byte2 h = ucast (pid_value (pid h))"

definition hdr_byte3 :: "TsHeader \<Rightarrow> u8" where
  "hdr_byte3 h =
     (let b = push_bit 6 (scrambling h) AND SCRAMBLING_MASK;
          b = (if has_adaptation h then b OR ADAPTATION_FLAG else b);
          b = (if has_payload h then b OR PAYLOAD_FLAG else b)
      in b OR (continuity_counter h AND CC_MASK))"

definition TsHeader_serialize_into :: "TsHeader \<Rightarrow> bytes \<Rightarrow> (TsError, bytes \<times> nat) result" where
  "TsHeader_serialize_into h buf =
     and_then (map_err TsOutputBufferTooSmall (need_out buf 4)) (\<lambda>_.
       Ok (put_slice buf 0 [TS_SYNC_BYTE, hdr_byte1 h, hdr_byte2 h, hdr_byte3 h], 4))"

definition scrambling_control :: "TsHeader \<Rightarrow> ScramblingControl" where
  "scrambling_control h = ScramblingControl_from_bits (scrambling h)"

definition adaptation_field_control :: "TsHeader \<Rightarrow> AdaptationFieldControl" where
  "adaptation_field_control h = AdaptationFieldControl_from_flags (has_adaptation h) (has_payload h)"

subsection \<open>The header is a wire type\<close>

definition wf_header :: "TsHeader \<Rightarrow> bool" where
  "wf_header h \<longleftrightarrow> wf_pid (pid h) \<and> scrambling h AND 0x03 = scrambling h \<and>
     continuity_counter h AND CC_MASK = continuity_counter h"

definition header_wire :: "TsHeader \<Rightarrow> bytes" where
  "header_wire h = [TS_SYNC_BYTE, hdr_byte1 h, hdr_byte2 h, hdr_byte3 h]"

text \<open>Testing one flag bit.\<close>

lemma flag_bits:
  "((b :: u8) AND 0x80 \<noteq> 0) = bit b 7" "(b AND 0x40 \<noteq> 0) = bit b 6"
  "(b AND 0x20 \<noteq> 0) = bit b 5" "(b AND 0x10 \<noteq> 0) = bit b 4"
  "(b AND 0x08 \<noteq> 0) = bit b 3" "(b AND 0x04 \<noteq> 0) = bit b 2"
  "(b AND 0x02 \<noteq> 0) = bit b 1" "(b AND 0x01 \<noteq> 0) = bit b 0"
  by (simp_all only: bit_pos) (simp_all add: bit_range)

lemma hdr_byte1_fields:
  "bit (hdr_byte1 h) 7 = tei h" "bit (hdr_byte1 h) 6 = pusi h"
  "hdr_byte1 h AND PID_MASK_HI = ucast (drop_bit 8 (pid_value (pid h))) AND PID_MASK_HI"
  "\<not> bit (hdr_byte1 h) 5"
  unfolding hdr_byte1_def hdr_masks Let_def
  by (cases "tei h"; cases "pusi h"; simp only: if_True if_False bit_pos; simp add: bit_range)+

lemma hdr_byte3_fields:
  "bit (hdr_byte3 h) 5 = has_adaptation h" "bit (hdr_byte3 h) 4 = has_payload h"
  "hdr_byte3 h AND CC_MASK = continuity_counter h AND CC_MASK"
  "drop_bit 6 (hdr_byte3 h AND SCRAMBLING_MASK) = scrambling h AND 0x03"
  unfolding hdr_byte3_def hdr_masks Let_def
  by (cases "has_adaptation h"; cases "has_payload h"; simp only: if_True if_False bit_pos;
      simp add: bit_range)+

lemma pid_from_bytes:
  "wf_pid p \<Longrightarrow> Pid_new (push_bit 8 (ucast ((ucast (drop_bit 8 (pid_value p)) :: u8) AND PID_MASK_HI))
     OR ucast (ucast (pid_value p) :: u8)) = p"
proof -
  have "push_bit 8 (ucast ((ucast (drop_bit 8 v) :: u8) AND 0x1F)) OR ucast (ucast v :: u8)
      = v AND 0x1FFF" for v :: u16
    by (simp only: bit_pos) (simp add: bit_range)
  then show "wf_pid p \<Longrightarrow> ?thesis"
    by (simp add: Pid_new_def wf_pid_def PID_MASK_def PID_MASK_HI_def)
qed

lemma TsHeader_parse_wire:
  assumes "wf_header h"
  shows "TsHeader_parse (header_wire h @ rest) = Inr h"
proof -
  have "wf_pid (pid h)" "scrambling h AND 3 = scrambling h" "continuity_counter h AND CC_MASK = continuity_counter h"
    using assms by (simp_all add: wf_header_def)
  then show ?thesis
    unfolding TsHeader_parse_def header_wire_def TEI_MASK_def PUSI_MASK_def ADAPTATION_FLAG_def PAYLOAD_FLAG_def
    by (simp add: flag_bits hdr_byte1_fields hdr_byte3_fields hdr_byte2_def pid_from_bytes Let_def
        need_in_eq del: drop_bit_and)
qed

interpretation ts_header: prefix_wire_type TsHeader_parse TsHeader_serialized_len
  TsHeader_serialize_into wf_header header_wire
proof
  fix h :: TsHeader and buf rest :: bytes
  assume wf: "wf_header h"
  show "TsHeader_serialized_len h = length (header_wire h)"
    by (simp add: TsHeader_serialized_len_def header_wire_def)
  show "length (header_wire h) \<le> length buf \<Longrightarrow> TsHeader_serialize_into h buf =
      Inr (header_wire h @ drop (length (header_wire h)) buf, length (header_wire h))"
    by (simp add: TsHeader_serialize_into_def header_wire_def need_out_eq)
  show "length buf < length (header_wire h) \<Longrightarrow> \<exists>e. TsHeader_serialize_into h buf = Inl e"
    by (simp add: TsHeader_serialize_into_def header_wire_def need_out_eq)
  show "TsHeader_parse (header_wire h) = Inr h" using TsHeader_parse_wire[OF wf, of "[]"] by simp
  show "TsHeader_parse (header_wire h @ rest) = Inr h" by (rule TsHeader_parse_wire[OF wf])
qed

text \<open>
  The other direction: re-serializing a parsed header reproduces its bytes, apart from the sync
  byte, which is always written as \<open>0x47\<close>, and the \<open>transport_priority\<close> bit, which the header does
  not keep.
\<close>

lemma header_wire_parse:
  assumes "TsHeader_parse raw = Inr h"
  shows "header_wire h = [TS_SYNC_BYTE, raw ! 1 AND 0xDF, raw ! 2, raw ! 3] \<and> wf_header h"
proof -
  define b1 b2 b3 where "b1 = raw ! 1" and "b2 = raw ! 2" and "b3 = raw ! 3"
  have h: "h = \<lparr>tei = bit b1 7, pusi = bit b1 6,
      pid = Pid_new (push_bit 8 (ucast (b1 AND 0x1F)) OR ucast b2),
      scrambling = drop_bit 6 (b3 AND 0xC0), has_adaptation = bit b3 5, has_payload = bit b3 4,
      continuity_counter = b3 AND 0x0F\<rparr>"
    using assms unfolding TsHeader_parse_def hdr_masks
    by (auto simp: Let_def flag_bits b1_def b2_def b3_def and_then_eq_Ok)
  have "hdr_byte1 h = b1 AND 0xDF"
    unfolding h hdr_byte1_def hdr_masks Let_def Pid_new_def PID_MASK_def TsHeader.simps Pid.sel
    by (cases "bit b1 7"; cases "bit b1 6"; simp only: if_True if_False bit_pos; simp add: bit_range)
  moreover have "hdr_byte2 h = b2"
    unfolding h hdr_byte2_def Pid_new_def PID_MASK_def TsHeader.simps Pid.sel
    by (simp only: bit_pos) (simp add: bit_range)
  moreover have "hdr_byte3 h = b3"
    unfolding h hdr_byte3_def hdr_masks Let_def TsHeader.simps
    by (cases "bit b3 5"; cases "bit b3 4"; simp only: if_True if_False bit_pos; simp add: bit_range)
  moreover have "wf_header h"
    unfolding wf_header_def h TsHeader.simps hdr_masks
    by (simp only: wf_Pid_new simp_thms bit_pos) (simp add: bit_range)
  ultimately show ?thesis by (simp add: header_wire_def b1_def b2_def b3_def)
qed

section \<open>The 188-byte packet\<close>

record TsPacket =
  header :: TsHeader
  payload :: "bytes option"
  adaptation :: "bytes option"
  raw :: bytes

definition adaptation_field_skip :: "bytes \<Rightarrow> bool \<Rightarrow> nat" where
  "adaptation_field_skip pkt has_af =
     (if \<not> has_af \<or> length pkt \<le> 4 then 0
      else let af_len = unat (pkt ! 4) in 1 + af_len)"

definition TsPacket_parse :: "bytes \<Rightarrow> (TsError, TsPacket) result" where
  "TsPacket_parse buf =
     and_then (map_err TsBufferTooShort (need_in buf TS_PACKET_SIZE ''TsPacket'')) (\<lambda>_.
       if buf ! 0 \<noteq> TS_SYNC_BYTE then
         Err (TsInvalidSync \<lparr>is_what = ''TS sync byte'', is_expected = unat TS_SYNC_BYTE,
                             is_found = unat (buf ! 0)\<rparr>)
       else
         let raw' = take TS_PACKET_SIZE buf
         in and_then (TsHeader_parse (take 4 raw')) (\<lambda>hdr.
              let cursor = 4;
                  adapt = (if has_adaptation hdr \<and> cursor < TS_PACKET_SIZE then
                             let af_len = unat (raw' ! cursor); af_start = cursor + 1
                             in if af_len > 0 \<and> af_start < TS_PACKET_SIZE
                                   \<and> af_start + af_len \<le> TS_PACKET_SIZE
                                then Some (sub_slice raw' af_start (af_start + af_len))
                                else None
                           else None);
                  cursor' = cursor + adaptation_field_skip raw' (has_adaptation hdr);
                  pl = (if has_payload hdr \<and> cursor' < TS_PACKET_SIZE
                        then Some (drop cursor' raw') else None)
              in Ok \<lparr>header = hdr, payload = pl, adaptation = adapt, raw = raw'\<rparr>))"

text \<open>\<open>slice::chunks_exact\<close>: whole chunks from the front, the rest dropped.\<close>

function chunks_exact :: "nat \<Rightarrow> 'a list \<Rightarrow> 'a list list" where
  "chunks_exact n xs =
     (if n = 0 \<or> length xs < n then [] else take n xs # chunks_exact n (drop n xs))"
  by auto
termination by (relation "measure (\<lambda>(n, xs). length xs)") auto

declare chunks_exact.simps [simp del]

fun result_ok :: "('e, 'a) result \<Rightarrow> 'a option" where
  "result_ok (Inl e) = None"
| "result_ok (Inr x) = Some x"

definition iter_packets :: "bytes \<Rightarrow> TsPacket list" where
  "iter_packets buf =
     List.map_filter (\<lambda>chunk. result_ok (TsPacket_parse chunk)) (chunks_exact TS_PACKET_SIZE buf)"

definition extract_ts_payload :: "bytes \<Rightarrow> bytes option" where
  "extract_ts_payload pkt =
     (if length pkt < 4 then None
      else case TsHeader_parse (take 4 pkt) of
             Inl e \<Rightarrow> None
           | Inr hdr \<Rightarrow>
               if \<not> has_payload hdr then None
               else let cursor = 4 + adaptation_field_skip pkt (has_adaptation hdr)
                    in if cursor < length pkt then Some (drop cursor pkt) else None)"

subsection \<open>Parsing a packet\<close>

lemma TsHeader_parse_total: "4 \<le> length xs \<Longrightarrow> \<exists>h. TsHeader_parse xs = Inr h"
  by (auto simp: TsHeader_parse_def Let_def need_in_eq)

lemma TsHeader_parse_take4: "4 \<le> length xs \<Longrightarrow> TsHeader_parse (take 4 xs) = TsHeader_parse xs"
  by (auto simp: TsHeader_parse_def Let_def need_in_eq)

lemma TsPacket_parse_Ok_iff:
  "(\<exists>p. TsPacket_parse buf = Inr p) \<longleftrightarrow> TS_PACKET_SIZE \<le> length buf \<and> buf ! 0 = TS_SYNC_BYTE"
  using TsHeader_parse_total[of "take 4 (take TS_PACKET_SIZE buf)"]
  by (auto simp: TsPacket_parse_def Let_def and_then_eq_Ok TS_PACKET_SIZE_def)

text \<open>The bytes a parsed packet was read from, its header and where its payload starts.\<close>

lemma TsPacket_parse_parts:
  assumes "TsPacket_parse buf = Inr p"
  shows "raw p = take 188 buf" "length (raw p) = 188" "hd (raw p) = TS_SYNC_BYTE"
    "TsHeader_parse (raw p) = Inr (header p)"
    "payload p = (if has_payload (header p) \<and>
        4 + adaptation_field_skip (raw p) (has_adaptation (header p)) < 188
      then Some (drop (4 + adaptation_field_skip (raw p) (has_adaptation (header p))) (raw p)) else None)"
proof -
  note ok = assms[unfolded TsPacket_parse_def Let_def and_then_eq_Ok map_err_eq_Ok need_in_Ok]
  from ok have len: "188 \<le> length buf" by (auto simp: TS_PACKET_SIZE_def)
  show r: "raw p = take 188 buf"
    using ok by (auto simp: TS_PACKET_SIZE_def and_then_eq_Ok split: if_split_asm)
  then show "length (raw p) = 188" using len by simp
  have "buf ! 0 = TS_SYNC_BYTE" using ok by (auto split: if_split_asm)
  moreover have "buf \<noteq> []" using len by auto
  ultimately show "hd (raw p) = TS_SYNC_BYTE" by (simp add: r hd_conv_nth)
  show "TsHeader_parse (raw p) = Inr (header p)"
    using ok len TsHeader_parse_take4[of "take 188 buf"]
    by (auto simp: r TS_PACKET_SIZE_def and_then_eq_Ok split: if_split_asm)
  show "payload p = (if has_payload (header p) \<and>
        4 + adaptation_field_skip (raw p) (has_adaptation (header p)) < 188
      then Some (drop (4 + adaptation_field_skip (raw p) (has_adaptation (header p))) (raw p)) else None)"
    unfolding r using ok by (auto simp: TS_PACKET_SIZE_def and_then_eq_Ok split: if_split_asm)
qed

text \<open>The two payload walks of the crate agree on every packet.\<close>

lemma extract_payload_agrees:
  assumes "TsPacket_parse buf = Inr p"
  shows "extract_ts_payload (raw p) = payload p"
  using TsPacket_parse_parts[OF assms] TsHeader_parse_take4[of "raw p"]
  by (simp add: extract_ts_payload_def Let_def)

subsection \<open>Walking a buffer of packets\<close>

lemma chunks_exact_append:
  "length x = n \<Longrightarrow> 0 < n \<Longrightarrow> chunks_exact n (x @ xs) = x # chunks_exact n xs"
  by (subst chunks_exact.simps) simp

lemma chunks_exact_concat:
  assumes "list_all (\<lambda>x. length x = n) xss" "0 < n" "length tail < n"
  shows "chunks_exact n (concat xss @ tail) = xss"
  using assms
proof (induction xss)
  case Nil
  then show ?case by (subst chunks_exact.simps) simp
qed (simp add: chunks_exact_append)

lemma chunks_exact_lengths: "list_all (\<lambda>x. length x = n) (chunks_exact n xs)"
proof (induction n xs rule: chunks_exact.induct)
  case (1 n xs)
  then show ?case by (subst chunks_exact.simps) auto
qed

lemma iter_packets_concat:
  assumes "list_all2 (\<lambda>c p. TsPacket_parse c = Inr p \<and> length c = 188) chunks pkts" "length tail < 188"
  shows "iter_packets (concat chunks @ tail) = pkts"
proof -
  have "list_all (\<lambda>c. length c = 188) chunks"
    using assms(1) by (auto simp: list_all2_conv_all_nth list_all_length)
  then have "chunks_exact TS_PACKET_SIZE (concat chunks @ tail) = chunks"
    using chunks_exact_concat[of 188 chunks tail] assms(2) by (simp add: TS_PACKET_SIZE_def)
  moreover have "List.map_filter (\<lambda>chunk. result_ok (TsPacket_parse chunk)) chunks = pkts"
    using assms(1) by (induction rule: list_all2_induct) (simp_all add: map_filter_simps)
  ultimately show ?thesis by (simp add: iter_packets_def)
qed


section \<open>Properties\<close>

text \<open>
  The packet header. A header whose fields fit their widths is written as four bytes that parse
  back to it; a parsed header always has fields that fit, and re-serializing it restores the bytes it
  was read from apart from the sync byte and the \<open>transport_priority\<close> bit, which the header does not
  keep.
\<close>

theorem header_round_trip:
  assumes "wf_header h" "4 \<le> length buf" "TsHeader_parse bs = Inr g"
  shows "TsHeader_serialize_into h buf = Inr (header_wire h @ drop 4 buf, 4) \<and>
    TsHeader_parse (header_wire h @ drop 4 buf) = Inr h \<and> wf_header g \<and>
    TsHeader_serialize_into g buf = Inr ([TS_SYNC_BYTE, bs ! 1 AND 0xDF, bs ! 2, bs ! 3] @ drop 4 buf, 4)"
proof -
  have len: "length (header_wire k) = 4" for k by (simp add: header_wire_def)
  have ser: "TsHeader_serialize_into k buf = Inr (header_wire k @ drop 4 buf, 4)" if "wf_header k" for k
    using ts_header.serialize_wire[OF that, of buf] assms(2) by (simp add: len)
  show ?thesis
    using header_wire_parse[OF assms(3)] ser[OF assms(1)] ser[of g] TsHeader_parse_wire[OF assms(1)] by metis
qed

theorem header_round_trip_witness:
  "\<exists>h. TsHeader_parse [0x47, 0x41, 0x00, 0x37] = Inr h \<and>
    TsHeader_serialize_into h [0, 0, 0, 0] = Inr ([0x47, 0x41, 0x00, 0x37], 4)"
proof -
  obtain h where h: "TsHeader_parse [0x47, 0x41, 0x00, 0x37] = Inr h"
    using TsHeader_parse_total[of "[0x47, 0x41, 0x00, 0x37]"] by auto
  then show ?thesis
    using header_round_trip[OF header_wire_parse[OF h, THEN conjunct2] _ h, of "[0, 0, 0, 0]"]
    by (auto simp: TS_SYNC_BYTE_def)
qed

text \<open>
  Parsing a packet is total on 188 bytes that start with the sync byte and fails on everything
  else; what it returns lies within those bytes, and both payload walks of the crate find the same
  payload.
\<close>

theorem packet_parse_total:
  "(\<exists>p. TsPacket_parse buf = Inr p) = (TS_PACKET_SIZE \<le> length buf \<and> buf ! 0 = TS_SYNC_BYTE) \<and>
   (\<forall>p. TsPacket_parse buf = Inr p \<longrightarrow> raw p = take 188 buf \<and> extract_ts_payload (raw p) = payload p \<and>
     (\<forall>x. payload p = Some x \<longrightarrow> x \<noteq> [] \<and> (\<exists>k. x = drop k (raw p))))"
proof -
  have "x \<noteq> [] \<and> (\<exists>k. x = drop k (raw p))" if "TsPacket_parse buf = Inr p" "payload p = Some x" for p x
    using TsPacket_parse_parts[OF that(1)] that(2) by (auto split: if_splits)
  then show ?thesis
    using TsPacket_parse_Ok_iff[of buf] TsPacket_parse_parts(1) extract_payload_agrees by blast
qed

theorem packet_parse_total_witness:
  "\<exists>p. TsPacket_parse (0x47 # replicate 187 0) = Inr p"
  using packet_parse_total[of "0x47 # replicate 187 0"] by (simp add: TS_PACKET_SIZE_def TS_SYNC_BYTE_def)

end
