(* ===== verification/Clock33.thy ===== *)
theory Clock33
  imports Prelude
begin

text \<open>
  The 33-bit 90 kHz clock of PTS/DTS and the 27 MHz PCR clock
  (\<open>broadcast-common/src/clock33.rs\<close>): unwrapping, modular and signed distances, the split of a
  PCR into base and extension, and the 5-byte marker-bit timestamp field. The distances of the two
  clocks satisfy one contract, the locale \<open>wrap_clock\<close>.
\<close>

section \<open>The 33-bit clock\<close>

definition WRAP_33BIT :: u64 where
  "WRAP_33BIT = push_bit 33 1"

definition WRAP_33BIT_HALF :: u64 where
  "WRAP_33BIT_HALF = WRAP_33BIT div 2"

text \<open>
  The accumulator of \<open>unwrap_delta\<close> is an \<open>i128\<close>; a clock sampled at 90 kHz never comes near its
  limits, so it is an integer here.
\<close>

definition unwrap_delta :: "int \<Rightarrow> u64 \<Rightarrow> u64 \<Rightarrow> int" where
  "unwrap_delta prev_unwrapped prev_raw raw =
     (let delta = uint raw - uint prev_raw;
          delta' = (if delta > uint WRAP_33BIT_HALF then delta - uint WRAP_33BIT
                    else if delta < - uint WRAP_33BIT_HALF then delta + uint WRAP_33BIT
                    else delta)
      in prev_unwrapped + delta')"

definition wrapping_forward_distance :: "u64 \<Rightarrow> u64 \<Rightarrow> u64" where
  "wrapping_forward_distance from_t to_t = (to_t - from_t) mod WRAP_33BIT"

definition clock33_add :: "u64 \<Rightarrow> u64 \<Rightarrow> u64" where
  "clock33_add a b = (a mod WRAP_33BIT + b mod WRAP_33BIT) mod WRAP_33BIT"

definition clock33_add_signed :: "u64 \<Rightarrow> int \<Rightarrow> u64" where
  "clock33_add_signed a delta = word_of_int ((uint (a mod WRAP_33BIT) + delta) mod uint WRAP_33BIT)"

definition signed_distance :: "u64 \<Rightarrow> u64 \<Rightarrow> int" where
  "signed_distance from_t to_t =
     (let forward = wrapping_forward_distance (from_t mod WRAP_33BIT) (to_t mod WRAP_33BIT)
      in if forward \<le> WRAP_33BIT_HALF then uint forward else - uint (WRAP_33BIT - forward))"

section \<open>The 27 MHz PCR clock\<close>

definition PTS_HZ :: u64 where "PTS_HZ = 90000"
definition PCR_HZ :: u64 where "PCR_HZ = 27000000"
definition PCR_EXT_MODULUS :: u64 where "PCR_EXT_MODULUS = PCR_HZ div PTS_HZ"
definition PCR_WRAP_27MHZ :: u64 where "PCR_WRAP_27MHZ = WRAP_33BIT * PCR_EXT_MODULUS"

definition pcr_from_parts :: "u64 \<Rightarrow> u16 \<Rightarrow> u64" where
  "pcr_from_parts base extension = base * PCR_EXT_MODULUS + ucast extension"

definition pcr_split :: "u64 \<Rightarrow> u64 \<times> u16" where
  "pcr_split ticks =
     ((ticks div PCR_EXT_MODULUS) AND (WRAP_33BIT - 1), ucast (ticks mod PCR_EXT_MODULUS))"

definition pcr_forward_distance :: "u64 \<Rightarrow> u64 \<Rightarrow> u64" where
  "pcr_forward_distance from_t to_t =
     (to_t mod PCR_WRAP_27MHZ + PCR_WRAP_27MHZ - from_t mod PCR_WRAP_27MHZ) mod PCR_WRAP_27MHZ"

definition pcr_signed_distance :: "u64 \<Rightarrow> u64 \<Rightarrow> int" where
  "pcr_signed_distance from_t to_t =
     (let forward = pcr_forward_distance from_t to_t
      in if forward \<le> PCR_WRAP_27MHZ div 2 then uint forward
         else - uint (PCR_WRAP_27MHZ - forward))"

section \<open>The 5-byte marker-bit timestamp\<close>

definition MARKERS_ALL_SET :: u8 where "MARKERS_ALL_SET = 0b111"

record Marked =
  marked_prefix :: u8
  marked_timestamp :: u64
  marked_markers :: u8

text \<open>A Rust array \<open>[u8; 5]\<close> is a 5-tuple.\<close>

type_synonym array5 = "u8 \<times> u8 \<times> u8 \<times> u8 \<times> u8"

fun unpack_marked :: "array5 \<Rightarrow> Marked" where
  "unpack_marked (b0, b1, b2, b3, b4) =
     (let hi = ucast (drop_bit 1 b0 AND 0x07) :: u64;
          mid = push_bit 7 (ucast b1) OR ucast (drop_bit 1 b2);
          lo = push_bit 7 (ucast b3) OR ucast (drop_bit 1 b4)
      in \<lparr>marked_prefix = drop_bit 4 b0,
          marked_timestamp = push_bit 30 hi OR push_bit 15 mid OR lo,
          marked_markers = push_bit 2 (b0 AND 1) OR push_bit 1 (b2 AND 1) OR (b4 AND 1)\<rparr>)"

definition pack_marked_with :: "u64 \<Rightarrow> u8 \<Rightarrow> u8 \<Rightarrow> array5" where
  "pack_marked_with timestamp prefix_bits markers =
     (let ts = timestamp AND (WRAP_33BIT - 1)
      in (push_bit 4 (prefix_bits AND 0x0F) OR push_bit 1 (ucast (drop_bit 30 ts AND 0x07))
            OR (drop_bit 2 markers AND 1),
          ucast (drop_bit 22 ts AND 0xFF),
          push_bit 1 (ucast (drop_bit 15 ts AND 0x7F)) OR (drop_bit 1 markers AND 1),
          ucast (drop_bit 7 ts AND 0xFF),
          push_bit 1 (ucast (ts AND 0x7F)) OR (markers AND 1)))"

definition pack_marked :: "u64 \<Rightarrow> u8 \<Rightarrow> array5" where
  "pack_marked timestamp prefix_bits = pack_marked_with timestamp prefix_bits MARKERS_ALL_SET"

section \<open>What a wrapping clock promises\<close>

locale wrap_clock =
  fixes M :: int
    and fwd :: "u64 \<Rightarrow> u64 \<Rightarrow> u64"
    and dist :: "u64 \<Rightarrow> u64 \<Rightarrow> int"
  assumes M_even: "2 dvd M" and M_pos: "0 < M"
    and fwd_mod: "uint (fwd a b) = (uint b - uint a) mod M"
    and dist_fwd: "dist a b = (if uint (fwd a b) \<le> M div 2 then uint (fwd a b) else uint (fwd a b) - M)"
begin

lemma fwd_range: "0 \<le> uint (fwd a b)" "uint (fwd a b) < M"
  using M_pos by (simp_all add: fwd_mod)

lemma fwd_triangle: "uint (fwd a c) = (uint (fwd a b) + uint (fwd b c)) mod M"
  by (simp add: fwd_mod mod_add_eq algebra_simps)

lemma fwd_back: "uint (fwd a b) \<noteq> 0 \<Longrightarrow> uint (fwd a b) + uint (fwd b a) = M"
  using zmod_zminus1_eq_if[of "uint b - uint a" M] by (simp add: fwd_mod split: if_splits)

lemma dist_range: "- (M div 2) < dist a b" "dist a b \<le> M div 2"
proof -
  obtain h where h: "M = 2 * h" using M_even by blast
  define f where "f = uint (fwd a b)"
  have "0 \<le> f" "f < M" unfolding f_def by (rule fwd_range)+
  then show "- (M div 2) < dist a b" "dist a b \<le> M div 2"
    using h M_pos unfolding dist_fwd f_def[symmetric] by (auto split: if_split)
qed

lemma dist_reaches: "(uint a + dist a b) mod M = uint b mod M"
  by (simp add: dist_fwd fwd_mod mod_add_right_eq)
     (simp add: diff_diff_eq2 mod_add_right_eq mod_diff_left_eq add_diff_eq)

lemma dist_unique:
  assumes "(uint a + d) mod M = uint b mod M" "- (M div 2) < d" "d \<le> M div 2"
  shows "dist a b = d"
proof -
  obtain h where h: "M = 2 * h" using M_even by blast
  have "M dvd (uint a + dist a b) - (uint a + d)"
    using assms(1) dist_reaches[of a b] by (metis mod_eq_dvd_iff)
  then have "M dvd dist a b - d" by simp
  then have "dist a b - d = 0"
    using dist_range[of a b] assms(2,3) h by (intro dvd_small_zero) auto
  then show ?thesis by simp
qed

lemma dist_swap:
  assumes "dist a b \<noteq> M div 2"
  shows "dist b a = - dist a b"
proof (rule dist_unique)
  have "M dvd (uint a + dist a b) - uint b"
    using dist_reaches[of a b] by (simp add: mod_eq_dvd_iff)
  then have "M dvd - ((uint a + dist a b) - uint b)" by (simp only: dvd_minus_iff)
  then show "(uint b + - dist a b) mod M = uint a mod M"
    by (simp add: mod_eq_dvd_iff algebra_simps)
qed (use assms dist_range[of a b] in auto)

end

section \<open>Both clocks keep the contract\<close>

lemma uint_WRAP_33BIT: "uint WRAP_33BIT = 2 ^ 33"
  by (simp add: WRAP_33BIT_def)

lemma uint_WRAP_33BIT_HALF: "uint WRAP_33BIT_HALF = 2 ^ 32"
  by (simp add: WRAP_33BIT_HALF_def WRAP_33BIT_def)

lemma PCR_EXT_MODULUS_300: "PCR_EXT_MODULUS = 300"
  by (simp add: PCR_EXT_MODULUS_def PCR_HZ_def PTS_HZ_def)

lemma PCR_WRAP_value: "PCR_WRAP_27MHZ = 2576980377600"
  by (simp add: PCR_WRAP_27MHZ_def WRAP_33BIT_def PCR_EXT_MODULUS_300)

lemmas clock_consts = uint_WRAP_33BIT uint_WRAP_33BIT_HALF PCR_EXT_MODULUS_300 PCR_WRAP_value

lemma uint_forward_distance: "uint (wrapping_forward_distance a b) = (uint b - uint a) mod 2 ^ 33"
proof -
  have "(2 :: int) ^ 33 dvd 2 ^ 64" by (rule le_imp_power_dvd) simp
  then show ?thesis
    by (simp add: wrapping_forward_distance_def uint_mod uint_WRAP_33BIT uint_word_ariths
        mod_mod_cancel)
qed

lemma uint_mod_33: "uint (a mod WRAP_33BIT) = uint a mod 2 ^ 33"
  by (simp add: uint_mod uint_WRAP_33BIT)

interpretation pts: wrap_clock "2 ^ 33" wrapping_forward_distance signed_distance
proof
  fix a b
  show "uint (wrapping_forward_distance a b) = (uint b - uint a) mod 2 ^ 33"
    by (rule uint_forward_distance)
  define f where "f = wrapping_forward_distance (a mod WRAP_33BIT) (b mod WRAP_33BIT)"
  have f: "uint f = (uint b - uint a) mod 2 ^ 33"
    by (simp add: f_def uint_forward_distance uint_mod_33 mod_diff_eq)
  have lt: "uint f < 2 ^ 33" by (simp add: f)
  have "uint (WRAP_33BIT - f) = 2 ^ 33 - uint f"
    using lt uint_sub_lem[of f WRAP_33BIT] by (simp add: uint_WRAP_33BIT)
  then show "signed_distance a b =
      (if uint (wrapping_forward_distance a b) \<le> 2 ^ 33 div 2 then uint (wrapping_forward_distance a b)
       else uint (wrapping_forward_distance a b) - 2 ^ 33)"
    by (simp add: signed_distance_def Let_def f_def[symmetric] f uint_forward_distance
        word_le_def uint_WRAP_33BIT_HALF)
qed simp_all

lemma uint_pcr_forward_distance:
  "uint (pcr_forward_distance a b) = (uint b - uint a) mod uint PCR_WRAP_27MHZ"
proof -
  let ?M = "2576980377600 :: int"
  have ma: "uint (a mod PCR_WRAP_27MHZ) = uint a mod ?M" and mb: "uint (b mod PCR_WRAP_27MHZ) = uint b mod ?M"
    by (simp_all add: uint_mod PCR_WRAP_value)
  have "0 \<le> uint a mod ?M" "uint a mod ?M < ?M" "0 \<le> uint b mod ?M" "uint b mod ?M < ?M" by simp_all
  note range = this
  have sum: "uint (b mod PCR_WRAP_27MHZ + PCR_WRAP_27MHZ) = uint b mod ?M + ?M"
  proof -
    have "uint b mod ?M + ?M < 18446744073709551616" using range by linarith
    then show ?thesis
      using uint_add_lem[of "b mod PCR_WRAP_27MHZ" PCR_WRAP_27MHZ]
      unfolding mb by (simp add: PCR_WRAP_value)
  qed
  have "uint (b mod PCR_WRAP_27MHZ + PCR_WRAP_27MHZ - a mod PCR_WRAP_27MHZ)
      = uint b mod ?M + ?M - uint a mod ?M"
    using range uint_sub_lem[of "a mod PCR_WRAP_27MHZ" "b mod PCR_WRAP_27MHZ + PCR_WRAP_27MHZ"]
    unfolding sum ma by linarith
  moreover have "(uint b mod ?M + ?M - uint a mod ?M) mod ?M = (uint b - uint a) mod ?M"
  proof -
    have "uint b mod ?M + ?M - uint a mod ?M = (uint b mod ?M - uint a mod ?M) + ?M" by simp
    then show ?thesis by (simp only: mod_add_self2 mod_diff_eq)
  qed
  ultimately show ?thesis
    by (simp add: pcr_forward_distance_def uint_mod PCR_WRAP_value)
qed

interpretation pcr: wrap_clock "uint PCR_WRAP_27MHZ" pcr_forward_distance pcr_signed_distance
proof
  show "2 dvd uint PCR_WRAP_27MHZ" "0 < uint PCR_WRAP_27MHZ" by (simp_all add: PCR_WRAP_value)
  fix a b
  show f: "uint (pcr_forward_distance a b) = (uint b - uint a) mod uint PCR_WRAP_27MHZ"
    by (rule uint_pcr_forward_distance)
  have lt: "uint (pcr_forward_distance a b) < uint PCR_WRAP_27MHZ"
    by (simp add: f PCR_WRAP_value)
  then have "uint (PCR_WRAP_27MHZ - pcr_forward_distance a b)
      = uint PCR_WRAP_27MHZ - uint (pcr_forward_distance a b)"
    using uint_sub_lem[of "pcr_forward_distance a b" PCR_WRAP_27MHZ] by simp
  then show "pcr_signed_distance a b =
      (if uint (pcr_forward_distance a b) \<le> uint PCR_WRAP_27MHZ div 2 then uint (pcr_forward_distance a b)
       else uint (pcr_forward_distance a b) - uint PCR_WRAP_27MHZ)"
    by (simp add: pcr_signed_distance_def Let_def word_le_def uint_div)
qed

section \<open>Addition, unwrapping and the PCR split\<close>

lemma uint_clock33_add: "uint (clock33_add a b) = (uint a + uint b) mod 2 ^ 33"
proof -
  have "uint a mod 2 ^ 33 < 2 ^ 33" "uint b mod 2 ^ 33 < 2 ^ 33" by simp_all
  then have "uint a mod 2 ^ 33 + uint b mod 2 ^ 33 < 18446744073709551616" by simp
  then have "uint (a mod WRAP_33BIT + b mod WRAP_33BIT) = uint a mod 2 ^ 33 + uint b mod 2 ^ 33"
    using uint_add_lem[of "a mod WRAP_33BIT" "b mod WRAP_33BIT"] by (simp add: uint_mod_33)
  then show ?thesis
    by (simp add: clock33_add_def uint_mod_33 mod_add_eq)
qed

lemma uint_clock33_add_signed: "uint (clock33_add_signed a d) = (uint a + d) mod 2 ^ 33"
proof -
  have e: "(uint (a mod WRAP_33BIT) + d) mod uint WRAP_33BIT = (uint a + d) mod 2 ^ 33"
    by (simp add: uint_mod_33 uint_WRAP_33BIT mod_add_left_eq)
  have "0 \<le> (uint a + d) mod 2 ^ 33" "(uint a + d) mod 2 ^ 33 < 2 ^ 33" by simp_all
  then have "((uint a + d) mod 2 ^ 33) mod 2 ^ 64 = (uint a + d) mod 2 ^ 33"
    by (intro mod_pos_pos_trivial) simp_all
  then show ?thesis
    by (simp add: clock33_add_signed_def e uint_word_of_int)
qed

text \<open>
  The signed distance undoes a signed step of at most half the circle, and stepping by the signed
  distance reaches the target.
\<close>

lemma add_signed_distance: "uint (clock33_add_signed a (signed_distance a b)) = uint b mod 2 ^ 33"
  unfolding uint_clock33_add_signed by (rule pts.dist_reaches)

lemma signed_distance_add_signed:
  assumes "- (2 ^ 32) < d" "d \<le> 2 ^ 32"
  shows "signed_distance a (clock33_add_signed a d) = d"
proof (rule pts.dist_unique)
  show "(uint a + d) mod 2 ^ 33 = uint (clock33_add_signed a d) mod 2 ^ 33"
    by (simp add: uint_clock33_add_signed)
qed (use assms in simp_all)

text \<open>
  Unwrapping: a true timeline \<open>T\<close> sampled modulo \<open>2 ^ 33\<close> is recovered as long as two consecutive
  samples are less than half a wrap apart, in either direction.
\<close>

definition sample33 :: "int \<Rightarrow> u64" where
  "sample33 T = word_of_int (T mod 2 ^ 33)"

lemma uint_sample33: "uint (sample33 T) = T mod 2 ^ 33"
proof -
  have "0 \<le> T mod 2 ^ 33" "T mod 2 ^ 33 < 2 ^ 33" by simp_all
  then have "(T mod 2 ^ 33) mod 2 ^ 64 = T mod 2 ^ 33"
    by (intro mod_pos_pos_trivial) simp_all
  then show ?thesis by (simp add: sample33_def uint_word_of_int)
qed

lemma unwrap_delta_exact:
  assumes "\<bar>T' - T\<bar> < 2 ^ 32"
  shows "unwrap_delta T (sample33 T) (sample33 T') = T'"
proof -
  define r r' where "r = T mod 2 ^ 33" and "r' = T' mod 2 ^ 33"
  have range: "0 \<le> r" "r < 2 ^ 33" "0 \<le> r'" "r' < 2 ^ 33" by (simp_all add: r_def r'_def)
  define d where "d = (if r' - r > 2 ^ 32 then r' - r - 2 ^ 33
      else if r' - r < - (2 ^ 32) then r' - r + 2 ^ 33 else r' - r)"
  obtain k where k: "d = (r' - r) + k * 2 ^ 33"
    by (rule that[of "if r' - r > 2 ^ 32 then -1 else if r' - r < - (2 ^ 32) then 1 else 0"])
       (simp add: d_def)
  have "(2 :: int) ^ 33 dvd (r' - r) - (T' - T)"
    by (simp add: r_def r'_def mod_eq_dvd_iff[symmetric] mod_diff_eq)
  then have "(2 :: int) ^ 33 dvd ((r' - r) - (T' - T)) + k * 2 ^ 33" by (rule dvd_add) simp
  then have "(2 :: int) ^ 33 dvd d - (T' - T)" by (simp add: k algebra_simps)
  moreover have "- (2 ^ 32) \<le> d" "d \<le> 2 ^ 32"
    using range by (auto simp: d_def)
  ultimately have "d - (T' - T) = 0"
    using assms by (intro dvd_small_zero) auto
  moreover have "unwrap_delta T (sample33 T) (sample33 T') = T + d"
    by (simp add: unwrap_delta_def Let_def uint_sample33 uint_WRAP_33BIT uint_WRAP_33BIT_HALF
        d_def r_def r'_def)
  ultimately show ?thesis by simp
qed

text \<open>A whole run of samples is unwrapped to the timeline they were taken from.\<close>

fun unwrap_all :: "int \<Rightarrow> u64 \<Rightarrow> u64 list \<Rightarrow> int list" where
  "unwrap_all acc prev [] = []"
| "unwrap_all acc prev (raw # raws) =
     (let acc' = unwrap_delta acc prev raw in acc' # unwrap_all acc' raw raws)"

fun small_steps :: "int \<Rightarrow> int list \<Rightarrow> bool" where
  "small_steps T [] = True"
| "small_steps T (T' # Ts) = (\<bar>T' - T\<bar> < 2 ^ 32 \<and> small_steps T' Ts)"

lemma unwrap_all_exact:
  "small_steps T Ts \<Longrightarrow> unwrap_all T (sample33 T) (map sample33 Ts) = Ts"
  by (induction Ts arbitrary: T) (simp_all add: Let_def unwrap_delta_exact)

lemma uint_ucast_u16_u64: "uint (ucast (e :: u16) :: u64) = uint e"
  using uint_bounded[of e] by (simp add: unsigned_ucast_eq take_bit_eq_mod)

lemma pcr_split_from_parts:
  assumes "uint base < 2 ^ 33" "uint ext < 300"
  shows "pcr_split (pcr_from_parts base ext) = (base, ext)"
proof -
  have m: "uint (base * 300) = uint base * 300"
    using assms(1) uint_mult_lem[of base 300] by simp
  have t: "uint (pcr_from_parts base ext) = uint base * 300 + uint ext"
    using assms uint_add_lem[of "base * 300" "ucast ext :: u64"]
    by (simp add: pcr_from_parts_def PCR_EXT_MODULUS_300 m uint_ucast_u16_u64)
  have "uint (pcr_from_parts base ext div 300) = uint base"
    using assms by (simp add: uint_div t)
  then have q: "pcr_from_parts base ext div 300 = base" by (simp add: word_uint_eq_iff)
  have "uint (pcr_from_parts base ext mod 300) = uint ext"
    using assms by (simp add: uint_mod t)
  then have r: "pcr_from_parts base ext mod 300 = ucast ext"
    by (simp add: word_uint_eq_iff uint_ucast_u16_u64)
  have "uint (base AND word_of_int (2 ^ 33 - 1)) = uint base"
    using assms(1) by (simp only: uint_and_low_mask) simp
  then have "base AND (WRAP_33BIT - 1) = base"
    by (simp add: word_uint_eq_iff WRAP_33BIT_def)
  moreover have "ucast (ucast ext :: u64) = ext"
    by (simp only: bit_pos) (simp add: bit_range)
  ultimately show ?thesis
    by (simp add: pcr_split_def PCR_EXT_MODULUS_300 q r)
qed

lemma pcr_from_parts_split:
  assumes "ticks < PCR_WRAP_27MHZ"
  shows "pcr_from_parts (fst (pcr_split ticks)) (snd (pcr_split ticks)) = ticks"
    and "uint (fst (pcr_split ticks)) < 2 ^ 33" and "uint (snd (pcr_split ticks)) < 300"
proof -
  have lt: "uint ticks < 2576980377600"
    using assms by (simp add: word_less_def PCR_WRAP_value)
  then have dv: "uint (ticks div 300) < 2 ^ 33" by (simp add: uint_div)
  have "uint (ticks div 300 AND word_of_int (2 ^ 33 - 1)) = uint (ticks div 300)"
    using dv by (simp only: uint_and_low_mask) simp
  then have b: "fst (pcr_split ticks) = ticks div 300"
    by (simp add: word_uint_eq_iff WRAP_33BIT_def pcr_split_def PCR_EXT_MODULUS_300)
  have mr: "uint (ticks mod 300) < 300" by (simp add: uint_mod)
  then have e: "uint (snd (pcr_split ticks)) = uint (ticks mod 300)"
    by (simp add: pcr_split_def PCR_EXT_MODULUS_300 unsigned_ucast_eq take_bit_eq_mod)
  show "uint (fst (pcr_split ticks)) < 2 ^ 33" "uint (snd (pcr_split ticks)) < 300"
    using dv mr by (simp_all add: b e)
  have m: "uint (ticks div 300 * 300) = uint (ticks div 300) * 300"
    using dv uint_mult_lem[of "ticks div 300" 300] by simp
  have "uint (pcr_from_parts (fst (pcr_split ticks)) (snd (pcr_split ticks)))
      = uint (ticks div 300) * 300 + uint (ticks mod 300)"
    using dv mr uint_add_lem[of "ticks div 300 * 300" "ucast (snd (pcr_split ticks)) :: u64"]
    by (simp add: pcr_from_parts_def b PCR_EXT_MODULUS_300 m uint_ucast_u16_u64 e)
  also have "\<dots> = uint ticks" by (simp add: uint_div uint_mod)
  finally show "pcr_from_parts (fst (pcr_split ticks)) (snd (pcr_split ticks)) = ticks"
    by (simp add: word_uint_eq_iff)
qed

section \<open>Round trips of the marked timestamp\<close>

lemma WRAP_mask: "WRAP_33BIT - 1 = mask 33"
  by (simp add: WRAP_33BIT_def mask_eq_exp_minus_1)

lemma unpack_pack_marked:
  "unpack_marked (pack_marked_with ts p m) =
     \<lparr>marked_prefix = p AND 0x0F, marked_timestamp = ts AND mask 33, marked_markers = m AND 0x07\<rparr>"
proof -
  have "marked_prefix (unpack_marked (pack_marked_with ts p m)) = p AND 0x0F"
    unfolding pack_marked_with_def unpack_marked.simps Let_def WRAP_mask
    by (simp only: Marked.simps bit_pos) (simp add: bit_range)
  moreover have "marked_timestamp (unpack_marked (pack_marked_with ts p m)) = ts AND mask 33"
    unfolding pack_marked_with_def unpack_marked.simps Let_def WRAP_mask
    by (simp only: Marked.simps bit_pos) (simp add: bit_range)
  moreover have "marked_markers (unpack_marked (pack_marked_with ts p m)) = m AND 0x07"
    unfolding pack_marked_with_def unpack_marked.simps Let_def WRAP_mask
    by (simp only: Marked.simps bit_pos) (simp add: bit_range)
  ultimately show ?thesis by simp
qed

lemma pack_unpack_marked:
  "pack_marked_with (marked_timestamp (unpack_marked b)) (marked_prefix (unpack_marked b))
     (marked_markers (unpack_marked b)) = b"
proof (cases b)
  case (fields b0 b1 b2 b3 b4)
  show ?thesis
    unfolding fields pack_marked_with_def unpack_marked.simps Let_def WRAP_mask
    by (simp only: Marked.simps prod.inject bit_pos) (simp add: bit_range)
qed


section \<open>Properties\<close>

text \<open>
  Unwrapping recovers the true timeline. A clock sampled modulo \<open>2 ^ 33\<close> whose successive true
  values differ by less than half the wrap is reconstructed exactly by folding \<open>unwrap_delta\<close> over the
  samples, through any number of wraps in either direction.
\<close>

theorem unwrap_timeline:
  assumes "small_steps T Ts"
  shows "unwrap_all T (sample33 T) (map sample33 Ts) = Ts"
  using assms by (rule unwrap_all_exact)

theorem unwrap_timeline_witness:
  "unwrap_all 8589934590 (sample33 8589934590) (map sample33 [8589934593, 8589934591, 12000000000])
    = [8589934593, 8589934591, 12000000000]"
  using unwrap_timeline[of 8589934590 "[8589934593, 8589934591, 12000000000]"] by simp

text \<open>
  Signed distances and offsets on the 33-bit clock are inverse to each other: adding the signed
  distance from \<open>a\<close> to \<open>b\<close> reaches \<open>b\<close>, and the distance to a shifted instant is the shift, for
  every shift of at most half the wrap.
\<close>

theorem clock33_shift_distance:
  assumes "- (2 ^ 32) < d" "d \<le> 2 ^ 32"
  shows "uint (clock33_add_signed a (signed_distance a b)) = uint b mod 2 ^ 33 \<and>
    signed_distance a (clock33_add_signed a d) = d"
  using assms by (simp add: add_signed_distance signed_distance_add_signed)

theorem clock33_shift_distance_witness:
  "signed_distance 1 (clock33_add_signed 1 (-2)) = -2"
  using clock33_shift_distance[of "-2" 1 0] by simp

text \<open>
  The PCR as one number. Base and extension are recovered from the 27 MHz count, every count below
  the wrap comes from exactly one in-range pair, and distances on the count are the modular ones.
\<close>

theorem pcr_parts_bijection:
  assumes "uint base < 2 ^ 33" "uint ext < 300" "ticks < PCR_WRAP_27MHZ"
  shows "pcr_split (pcr_from_parts base ext) = (base, ext) \<and>
    (case pcr_split ticks of (b, e) \<Rightarrow> pcr_from_parts b e = ticks \<and> uint b < 2 ^ 33 \<and> uint e < 300) \<and>
    (uint x + pcr_signed_distance x y) mod uint PCR_WRAP_27MHZ = uint y mod uint PCR_WRAP_27MHZ"
proof (intro conjI)
  show "pcr_split (pcr_from_parts base ext) = (base, ext)" by (rule pcr_split_from_parts[OF assms(1,2)])
  show "case pcr_split ticks of (b, e) \<Rightarrow> pcr_from_parts b e = ticks \<and> uint b < 2 ^ 33 \<and> uint e < 300"
    using pcr_from_parts_split[OF assms(3)] by (simp add: case_prod_beta)
  show "(uint x + pcr_signed_distance x y) mod uint PCR_WRAP_27MHZ = uint y mod uint PCR_WRAP_27MHZ"
    by (rule pcr.dist_reaches)
qed

theorem pcr_parts_bijection_witness:
  "pcr_split (pcr_from_parts 8589934591 299) = (8589934591, 299)"
  using pcr_parts_bijection[of 8589934591 299 0 0 0] by (simp add: PCR_WRAP_value)

text \<open>
  The five-byte marked timestamp. Packing and unpacking lose only what the field has no room for,
  and unpacking then packing with the recovered prefix and marker bits restores the bytes.
\<close>

theorem marked_round_trip:
  "unpack_marked (pack_marked_with ts p m) =
     \<lparr>marked_prefix = p AND 0x0F, marked_timestamp = ts AND mask 33, marked_markers = m AND 0x07\<rparr> \<and>
   pack_marked_with (marked_timestamp (unpack_marked b)) (marked_prefix (unpack_marked b))
     (marked_markers (unpack_marked b)) = b"
  by (simp only: unpack_pack_marked pack_unpack_marked simp_thms)

end
