(* ===== verification/Adaptation.thy ===== *)
theory Adaptation
  imports Ts_Packet Clock33
begin

text \<open>
  The adaptation field of a transport packet (\<open>mpeg-ts/src/ts.rs\<close>): PCR, legal time window,
  seamless splice, the extension sub-structure and the field itself, each with its parser and
  serializer. Every optional part is read and written under a flag bit; the locale \<open>gated_field\<close>
  states what such a part promises, and the byte-exact round trips of the two structures follow
  from it in both directions.
\<close>

section \<open>Optional fields behind a flag\<close>

text \<open>
  \<open>present f\<close> tests the flag, \<open>read f ext c\<close> reads the field at cursor \<open>c\<close> and returns the advanced
  cursor, \<open>wire v\<close> is the image of a value.
\<close>

locale gated_field =
  fixes present :: "u8 \<Rightarrow> bool"
    and rd :: "u8 \<Rightarrow> bytes \<Rightarrow> nat \<Rightarrow> ('e, 'v option \<times> nat) result"
    and wire :: "'v \<Rightarrow> bytes"
    and ok :: "'v \<Rightarrow> bool"
  assumes absent: "\<not> present f \<Longrightarrow> rd f ext c = Inr (None, c)"
    and read_wire: "present f \<Longrightarrow> ok v \<Longrightarrow>
      rd f (pre @ wire v @ post) (length pre) = Inr (Some v, length pre + length (wire v))"
    and wire_read: "present f \<Longrightarrow> c \<le> length ext \<Longrightarrow> rd f ext c = Inr (r, c') \<Longrightarrow>
      \<exists>v. r = Some v \<and> ok v \<and> c \<le> c' \<and> c' \<le> length ext \<and> sub_slice ext c c' = wire v"
begin

definition owire :: "'v option \<Rightarrow> bytes" where
  "owire r = (case r of None \<Rightarrow> [] | Some v \<Rightarrow> wire v)"

lemma owire_simps [simp]: "owire None = []" "owire (Some v) = wire v"
  by (simp_all add: owire_def)

lemma read_owire:
  assumes "present f \<longleftrightarrow> r \<noteq> None" "\<And>v. r = Some v \<Longrightarrow> ok v" "n = length pre"
  shows "rd f (pre @ owire r @ post) n = Inr (r, n + length (owire r))"
  using assms absent read_wire by (cases r) auto

lemma owire_read:
  assumes "rd f ext c = Inr (r, c')" "c \<le> length ext"
  shows "(present f \<longleftrightarrow> r \<noteq> None) \<and> (\<forall>v. r = Some v \<longrightarrow> ok v) \<and> c \<le> c' \<and> c' \<le> length ext \<and>
    sub_slice ext c c' = owire r"
proof (cases "present f")
  case True
  then show ?thesis using wire_read[OF True assms(2,1)] by auto
next
  case False
  then show ?thesis using absent[OF False, of ext c] assms by (auto simp: sub_slice_def)
qed

end

section \<open>PCR\<close>

record Pcr =
  pcr_base :: u64
  pcr_extension :: u16

definition PCR_FIELD_LEN :: nat where "PCR_FIELD_LEN = 6"
definition PCR_RESERVED_BITS :: u8 where "PCR_RESERVED_BITS = 0x7E"
definition PCR_RESERVED_SHIFT :: nat where "PCR_RESERVED_SHIFT = 1"
definition PCR_RESERVED_VALUE :: u8 where "PCR_RESERVED_VALUE = 0x3F"

definition Pcr_as_27mhz :: "Pcr \<Rightarrow> u64" where
  "Pcr_as_27mhz p = pcr_from_parts (pcr_base p) (pcr_extension p)"

definition Pcr_from_27mhz :: "u64 \<Rightarrow> Pcr" where
  "Pcr_from_27mhz ticks =
     (let (base, extension) = pcr_split ticks in \<lparr>pcr_base = base, pcr_extension = extension\<rparr>)"

definition Pcr_to_field_bytes :: "Pcr \<Rightarrow> bytes" where
  "Pcr_to_field_bytes p =
     (let b = pcr_base p; e = ucast (pcr_extension p) :: u64
      in [ucast (drop_bit 25 b AND 0xFF), ucast (drop_bit 17 b AND 0xFF),
          ucast (drop_bit 9 b AND 0xFF), ucast (drop_bit 1 b AND 0xFF),
          push_bit 7 (ucast (b AND 0x01)) OR PCR_RESERVED_BITS OR (ucast (drop_bit 8 e) AND 0x01),
          ucast (e AND 0xFF)])"

definition Pcr_parse :: "bytes \<Rightarrow> nat \<Rightarrow> (TsError, Pcr) result" where
  "Pcr_parse af at =
     and_then (ok_or (TsBufferTooShort \<lparr>bts_need = at + PCR_FIELD_LEN, bts_have = length af,
                        bts_what = ''adaptation_field PCR''\<rparr>)
                (get_range af at (at + PCR_FIELD_LEN))) (\<lambda>b.
       let base = push_bit 25 (ucast (b ! 0)) OR push_bit 17 (ucast (b ! 1))
             OR push_bit 9 (ucast (b ! 2)) OR push_bit 1 (ucast (b ! 3)) OR drop_bit 7 (ucast (b ! 4));
           extension = push_bit 8 (ucast (b ! 4 AND 0x01)) OR ucast (b ! 5)
       in Ok \<lparr>pcr_base = base, pcr_extension = extension\<rparr>)"

definition set_pcr_reserved :: "bytes \<Rightarrow> u8 \<Rightarrow> bytes" where
  "set_pcr_reserved field reserved =
     field[4 := (field ! 4 AND NOT PCR_RESERVED_BITS)
                OR (push_bit PCR_RESERVED_SHIFT reserved AND PCR_RESERVED_BITS)]"

subsection \<open>The six-byte image\<close>

definition wf_pcr :: "Pcr \<Rightarrow> bool" where
  "wf_pcr p \<longleftrightarrow> pcr_base p AND mask 33 = pcr_base p \<and> pcr_extension p AND 0x1FF = pcr_extension p"

text \<open>A PCR and the six reserved bits between its two parts.\<close>

definition pcr_wire :: "Pcr \<times> u8 \<Rightarrow> bytes" where
  "pcr_wire v = set_pcr_reserved (Pcr_to_field_bytes (fst v)) (snd v)"

definition pcr_ok :: "Pcr \<times> u8 \<Rightarrow> bool" where
  "pcr_ok v \<longleftrightarrow> wf_pcr (fst v) \<and> snd v AND 0x3F = snd v"

lemma length_pcr_wire [simp]: "length (pcr_wire v) = 6"
  by (simp add: pcr_wire_def set_pcr_reserved_def Pcr_to_field_bytes_def Let_def)

lemma six_bytes_nth: "[a, b, c, d, e, f] ! 0 = a" "[a, b, c, d, e, f] ! 1 = b" "[a, b, c, d, e, f] ! 2 = c"
  "[a, b, c, d, e, f] ! 3 = d" "[a, b, c, d, e, f] ! 4 = e" "[a, b, c, d, e, f] ! 5 = f"
  by simp_all

lemma six_bytes_4: "[a, b, c, d, e, f] ! 4 = e" "[a, b, c, d, e, f][4 := x] = [a, b, c, d, x, f]"
  by simp_all

lemma pcr_wire_bytes:
  "pcr_wire (p, r) =
     [ucast (drop_bit 25 (pcr_base p)), ucast (drop_bit 17 (pcr_base p)), ucast (drop_bit 9 (pcr_base p)),
      ucast (drop_bit 1 (pcr_base p)),
      push_bit 7 (ucast (pcr_base p)) OR (push_bit 1 r AND 0x7E) OR (ucast (drop_bit 8 (pcr_extension p)) AND 0x01),
      ucast (pcr_extension p)]"
  unfolding pcr_wire_def set_pcr_reserved_def Pcr_to_field_bytes_def Let_def PCR_RESERVED_BITS_def
    PCR_RESERVED_SHIFT_def fst_conv snd_conv
  by (simp only: six_bytes_4 list.inject simp_thms bit_pos) (simp add: bit_range)

lemma Pcr_parse_wire:
  assumes "pcr_ok (p, r)"
  shows "Pcr_parse (pre @ pcr_wire (p, r) @ post) (length pre) = Inr p"
    and "drop_bit 1 (pcr_wire (p, r) ! 4 AND 0x7E) = r"
proof -
  obtain b e where p: "p = \<lparr>pcr_base = b, pcr_extension = e\<rparr>" by (cases p)
  have wf: "b AND mask 33 = b" "e AND 0x1FF = e" "r AND 0x3F = r"
    using assms by (simp_all add: pcr_ok_def wf_pcr_def p)
  have base: "push_bit 25 (ucast (ucast (drop_bit 25 b) :: u8)) OR push_bit 17 (ucast (ucast (drop_bit 17 b) :: u8))
      OR push_bit 9 (ucast (ucast (drop_bit 9 b) :: u8)) OR push_bit 1 (ucast (ucast (drop_bit 1 b) :: u8))
      OR drop_bit 7 (ucast (push_bit 7 (ucast b) OR (push_bit 1 r AND 0x7E) OR (ucast (drop_bit 8 e) AND 0x01) :: u8))
      = b AND mask 33"
    by (simp only: bit_pos) (simp add: bit_range)
  have ext: "push_bit 8 (ucast ((push_bit 7 (ucast b) OR (push_bit 1 r AND 0x7E) OR (ucast (drop_bit 8 e) AND 0x01) :: u8) AND 1))
      OR ucast (ucast e :: u8) = e AND 0x1FF"
    by (simp only: bit_pos) (simp add: bit_range)
  have rsv: "drop_bit 1 ((push_bit 7 (ucast b) OR (push_bit 1 r AND 0x7E) OR (ucast (drop_bit 8 e) AND 0x01) :: u8) AND 0x7E)
      = r AND 0x3F"
    by (simp only: bit_pos) (simp add: bit_range)
  have sl: "get_range (pre @ pcr_wire (p, r) @ post) (length pre) (length pre + PCR_FIELD_LEN) = Some (pcr_wire (p, r))"
    by (simp add: get_range_def PCR_FIELD_LEN_def)
  show "Pcr_parse (pre @ pcr_wire (p, r) @ post) (length pre) = Inr p"
    unfolding Pcr_parse_def sl ok_or_simps and_then_simps
    unfolding pcr_wire_bytes Let_def p Pcr.simps by (simp only: six_bytes_nth base ext wf)
  show "drop_bit 1 (pcr_wire (p, r) ! 4 AND 0x7E) = r"
    unfolding pcr_wire_bytes p Pcr.simps six_bytes_4 rsv by (rule wf(3))
qed

lemma Pcr_parse_inverse:
  assumes "Pcr_parse ext c = Inr p"
  shows "c + 6 \<le> length ext" "pcr_ok (p, drop_bit 1 (ext ! (c + 4) AND 0x7E))"
    "sub_slice ext c (c + 6) = pcr_wire (p, drop_bit 1 (ext ! (c + 4) AND 0x7E))"
proof -
  from assms have len: "c + 6 \<le> length ext"
    by (auto simp: Pcr_parse_def get_range_def PCR_FIELD_LEN_def and_then_eq_Ok split: if_splits)
  then have "length (sub_slice ext c (c + 6)) = Suc (Suc (Suc (Suc (Suc (Suc 0)))))" by simp
  then obtain b0 b1 b2 b3 b4 b5 where b: "sub_slice ext c (c + 6) = [b0, b1, b2, b3, b4, b5]"
    by (auto simp: length_Suc_conv)
  have r4: "ext ! (c + 4) = b4" using sub_slice_nth[of c 4 "c + 6" ext] len b by simp
  have p: "p = \<lparr>pcr_base = push_bit 25 (ucast b0) OR push_bit 17 (ucast b1) OR push_bit 9 (ucast b2)
        OR push_bit 1 (ucast b3) OR drop_bit 7 (ucast b4),
      pcr_extension = push_bit 8 (ucast (b4 AND 0x01)) OR ucast b5\<rparr>"
  proof -
    have "Pcr_parse ext c = Inr \<lparr>pcr_base = push_bit 25 (ucast b0) OR push_bit 17 (ucast b1) OR push_bit 9 (ucast b2)
        OR push_bit 1 (ucast b3) OR drop_bit 7 (ucast b4),
      pcr_extension = push_bit 8 (ucast (b4 AND 0x01)) OR ucast b5\<rparr>"
      using len unfolding Pcr_parse_def get_range_def PCR_FIELD_LEN_def
      by (simp only: b Let_def six_bytes_nth le_add1 simp_thms if_True ok_or_simps and_then_simps)
    then show ?thesis using assms by (simp only: sum.inject)
  qed
  show "c + 6 \<le> length ext" by (rule len)
  show "pcr_ok (p, drop_bit 1 (ext ! (c + 4) AND 0x7E))"
    unfolding r4 p pcr_ok_def wf_pcr_def fst_conv snd_conv Pcr.simps
    by (simp only: bit_pos) (simp add: bit_range)
  show "sub_slice ext c (c + 6) = pcr_wire (p, drop_bit 1 (ext ! (c + 4) AND 0x7E))"
    unfolding r4 b pcr_wire_bytes p Pcr.simps
    by (simp only: list.inject simp_thms bit_pos) (simp add: bit_range)
qed

section \<open>The extension sub-structure\<close>

record Ltw =
  ltw_valid_flag :: bool
  ltw_offset :: u16

record SeamlessSplice =
  splice_type :: u8
  dts_next_au :: u64
  marker_bits :: u8

definition SPLICE_MARKERS_VALUE :: u8 where "SPLICE_MARKERS_VALUE = 0x07"

definition SeamlessSplice_new :: "u8 \<Rightarrow> u64 \<Rightarrow> SeamlessSplice" where
  "SeamlessSplice_new sty dts =
     \<lparr>splice_type = sty, dts_next_au = dts, marker_bits = SPLICE_MARKERS_VALUE\<rparr>"

definition AFE_LTW_FLAG :: u8 where "AFE_LTW_FLAG = 0x80"
definition AFE_PIECEWISE_RATE_FLAG :: u8 where "AFE_PIECEWISE_RATE_FLAG = 0x40"
definition AFE_SEAMLESS_SPLICE_FLAG :: u8 where "AFE_SEAMLESS_SPLICE_FLAG = 0x20"
definition LTW_OFFSET_HI_MASK :: u8 where "LTW_OFFSET_HI_MASK = 0x7F"
definition PIECEWISE_RATE_HI_MASK :: u8 where "PIECEWISE_RATE_HI_MASK = 0x3F"
definition AFE_AF_DESCRIPTOR_NOT_PRESENT_FLAG :: u8 where "AFE_AF_DESCRIPTOR_NOT_PRESENT_FLAG = 0x10"
definition AFE_RESERVED_FLAGS_MASK :: u8 where "AFE_RESERVED_FLAGS_MASK = 0x0F"
definition AFE_RESERVED_FLAGS_VALUE :: u8 where "AFE_RESERVED_FLAGS_VALUE = 0x0F"
definition PIECEWISE_RATE_RESERVED_SHIFT :: nat where "PIECEWISE_RATE_RESERVED_SHIFT = 6"
definition PIECEWISE_RATE_RESERVED_VALUE :: u8 where "PIECEWISE_RATE_RESERVED_VALUE = 0x03"

lemmas afe_masks = AFE_LTW_FLAG_def AFE_PIECEWISE_RATE_FLAG_def AFE_SEAMLESS_SPLICE_FLAG_def
  LTW_OFFSET_HI_MASK_def PIECEWISE_RATE_HI_MASK_def AFE_AF_DESCRIPTOR_NOT_PRESENT_FLAG_def
  AFE_RESERVED_FLAGS_MASK_def PIECEWISE_RATE_RESERVED_SHIFT_def PIECEWISE_RATE_RESERVED_VALUE_def

record AdaptationFieldExtension =
  ext_ltw :: "Ltw option"
  piecewise_rate :: "u32 option"
  piecewise_rate_reserved :: u8
  seamless_splice :: "SeamlessSplice option"
  af_descriptor_not_present_flag :: bool
  reserved_flags :: u8
  trailing :: bytes

definition AFE_new :: AdaptationFieldExtension where
  "AFE_new = \<lparr>ext_ltw = None, piecewise_rate = None,
     piecewise_rate_reserved = PIECEWISE_RATE_RESERVED_VALUE, seamless_splice = None,
     af_descriptor_not_present_flag = True, reserved_flags = AFE_RESERVED_FLAGS_VALUE, trailing = []\<rparr>"

text \<open>The three gated reads of the parser, in the order of the source.\<close>

definition read_ltw :: "u8 \<Rightarrow> bytes \<Rightarrow> nat \<Rightarrow> (TsError, Ltw option \<times> nat) result" where
  "read_ltw flags ext cursor =
     (if flags AND AFE_LTW_FLAG \<noteq> 0 then
        and_then (map_err TsBufferTooShort (need_in ext (cursor + 2) ''ltw_offset'')) (\<lambda>_.
          let w0 = ext ! cursor; w1 = ext ! (cursor + 1)
          in Ok (Some \<lparr>ltw_valid_flag = (w0 AND AFE_LTW_FLAG) \<noteq> 0,
                       ltw_offset = push_bit 8 (ucast (w0 AND LTW_OFFSET_HI_MASK)) OR ucast w1\<rparr>,
                 cursor + 2))
      else Ok (None, cursor))"

definition read_piecewise_rate :: "u8 \<Rightarrow> bytes \<Rightarrow> nat \<Rightarrow> (TsError, (u32 \<times> u8) option \<times> nat) result" where
  "read_piecewise_rate flags ext cursor =
     (if flags AND AFE_PIECEWISE_RATE_FLAG \<noteq> 0 then
        and_then (map_err TsBufferTooShort (need_in ext (cursor + 3) ''piecewise_rate'')) (\<lambda>_.
          let rsv = drop_bit PIECEWISE_RATE_RESERVED_SHIFT (ext ! cursor);
              r = push_bit 16 (ucast (ext ! cursor AND PIECEWISE_RATE_HI_MASK))
                  OR push_bit 8 (ucast (ext ! (cursor + 1))) OR ucast (ext ! (cursor + 2))
          in Ok (Some (r, rsv), cursor + 3))
      else Ok (None, cursor))"

definition read_seamless_splice :: "u8 \<Rightarrow> bytes \<Rightarrow> nat \<Rightarrow> (TsError, SeamlessSplice option \<times> nat) result" where
  "read_seamless_splice flags ext cursor =
     (if flags AND AFE_SEAMLESS_SPLICE_FLAG \<noteq> 0 then
        and_then (map_err TsBufferTooShort (need_in ext (cursor + 5) ''seamless_splice DTS_next_AU'')) (\<lambda>_.
          let m = unpack_marked (ext ! cursor, ext ! (cursor + 1), ext ! (cursor + 2),
                                 ext ! (cursor + 3), ext ! (cursor + 4))
          in Ok (Some \<lparr>splice_type = marked_prefix m, dts_next_au = marked_timestamp m,
                       marker_bits = marked_markers m\<rparr>, cursor + 5))
      else Ok (None, cursor))"

definition AFE_parse :: "bytes \<Rightarrow> (TsError, AdaptationFieldExtension) result" where
  "AFE_parse data =
     and_then (map_err TsBufferTooShort (need_in data 1 ''adaptation_field_extension_length'')) (\<lambda>_.
       let ext_len = unat (data ! 0)
       in if length data < 1 + ext_len \<or> ext_len < 1 then
            Err (TsBufferTooShort \<lparr>bts_need = max 2 (1 + ext_len), bts_have = length data,
                   bts_what = ''adaptation_field_extension body''\<rparr>)
          else
            let ext = sub_slice data 1 (1 + ext_len); flags = ext ! 0; cursor = 1
            in and_then (read_ltw flags ext cursor) (\<lambda>(l, cursor).
               and_then (read_piecewise_rate flags ext cursor) (\<lambda>(pr, cursor).
               and_then (read_seamless_splice flags ext cursor) (\<lambda>(sp, cursor).
                 Ok \<lparr>ext_ltw = l, piecewise_rate = map_option fst pr,
                     piecewise_rate_reserved =
                       (case pr of None \<Rightarrow> PIECEWISE_RATE_RESERVED_VALUE | Some (_, rsv) \<Rightarrow> rsv),
                     seamless_splice = sp,
                     af_descriptor_not_present_flag = flags AND AFE_AF_DESCRIPTOR_NOT_PRESENT_FLAG \<noteq> 0,
                     reserved_flags = flags AND AFE_RESERVED_FLAGS_MASK,
                     trailing = drop cursor ext\<rparr>))))"

definition AFE_serialized_len :: "AdaptationFieldExtension \<Rightarrow> nat" where
  "AFE_serialized_len e =
     1 + (1 + (case ext_ltw e of None \<Rightarrow> 0 | Some _ \<Rightarrow> 2)
            + (case piecewise_rate e of None \<Rightarrow> 0 | Some _ \<Rightarrow> 3)
            + (case seamless_splice e of None \<Rightarrow> 0 | Some _ \<Rightarrow> 5)
            + length (trailing e))"

fun array5_list :: "array5 \<Rightarrow> bytes" where
  "array5_list (a, b, c, d, e) = [a, b, c, d, e]"

definition ltw_bytes :: "Ltw \<Rightarrow> bytes" where
  "ltw_bytes l =
     (let ltw_valid = (if ltw_valid_flag l then AFE_LTW_FLAG else 0)
      in [ltw_valid OR (ucast (drop_bit 8 (ltw_offset l)) AND LTW_OFFSET_HI_MASK),
          ucast (ltw_offset l AND 0xFF)])"

definition rate_bytes :: "u32 \<Rightarrow> u8 \<Rightarrow> bytes" where
  "rate_bytes rate rsv =
     [push_bit PIECEWISE_RATE_RESERVED_SHIFT rsv OR (ucast (drop_bit 16 rate) AND PIECEWISE_RATE_HI_MASK),
      ucast (drop_bit 8 rate), ucast rate]"

definition splice_bytes :: "SeamlessSplice \<Rightarrow> bytes" where
  "splice_bytes ss = array5_list (pack_marked_with (dts_next_au ss) (splice_type ss) (marker_bits ss))"

definition AFE_flags :: "u8 \<Rightarrow> AdaptationFieldExtension \<Rightarrow> u8" where
  "AFE_flags rsv e =
     (let flags = rsv;
          flags = (if ext_ltw e \<noteq> None then flags OR AFE_LTW_FLAG else flags);
          flags = (if piecewise_rate e \<noteq> None then flags OR AFE_PIECEWISE_RATE_FLAG else flags);
          flags = (if seamless_splice e \<noteq> None then flags OR AFE_SEAMLESS_SPLICE_FLAG else flags)
      in if af_descriptor_not_present_flag e then flags OR AFE_AF_DESCRIPTOR_NOT_PRESENT_FLAG else flags)"

definition AFE_serialize_into ::
    "AdaptationFieldExtension \<Rightarrow> bytes \<Rightarrow> (TsError, bytes \<times> nat) result" where
  "AFE_serialize_into e buf =
     (let need = AFE_serialized_len e
      in and_then (map_err TsOutputBufferTooSmall (need_out buf need)) (\<lambda>_.
         and_then (map_err TsFieldOverflow (fit_u8 (need - 1) ''adaptation_field_extension_length'')) (\<lambda>l.
         and_then (map_err TsFieldOverflow (fit_mask (reserved_flags e) AFE_RESERVED_FLAGS_MASK
                     ''adaptation_field_extension.reserved'')) (\<lambda>rsv.
           let st = emit [AFE_flags rsv e] (emit [l] (buf, 0));
               st = (case ext_ltw e of None \<Rightarrow> st | Some lt \<Rightarrow> emit (ltw_bytes lt) st)
           in and_then (case piecewise_rate e of None \<Rightarrow> Ok st | Some rate \<Rightarrow>
                          and_then (map_err TsFieldOverflow (fit_mask (piecewise_rate_reserved e)
                              PIECEWISE_RATE_RESERVED_VALUE ''piecewise_rate.reserved'')) (\<lambda>rr.
                            Ok (emit (rate_bytes rate rr) st))) (\<lambda>st.
              let st = (case seamless_splice e of None \<Rightarrow> st | Some ss \<Rightarrow> emit (splice_bytes ss) st);
                  st = emit (trailing e) st
              in Ok st)))))"

subsection \<open>The gated fields of the extension\<close>

definition ltw_ok :: "Ltw \<Rightarrow> bool" where
  "ltw_ok l \<longleftrightarrow> ltw_offset l AND 0x7FFF = ltw_offset l"

definition rate_ok :: "u32 \<times> u8 \<Rightarrow> bool" where
  "rate_ok v \<longleftrightarrow> fst v AND 0x3FFFFF = fst v \<and> snd v AND 0x03 = snd v"

definition splice_ok :: "SeamlessSplice \<Rightarrow> bool" where
  "splice_ok s \<longleftrightarrow> splice_type s AND 0x0F = splice_type s \<and> dts_next_au s AND mask 33 = dts_next_au s
     \<and> marker_bits s AND 0x07 = marker_bits s"

lemma nth_at_cursor [simp]: "(pre @ xs) ! (length pre + k) = xs ! k"
  by (rule nth_append_length_plus)

lemma nth_at_cursor_2 [simp]: "(pre @ a # b # x # xs) ! Suc (Suc (length pre)) = x"
  using nth_at_cursor[of pre "a # b # x # xs" 2] by simp

lemma sub_slice_cons:
  "c < c' \<Longrightarrow> c' \<le> length xs \<Longrightarrow> sub_slice xs c c' = xs ! c # sub_slice xs (Suc c) c'"
  unfolding sub_slice_def by (metis Cons_nth_drop_Suc Suc_diff_Suc order_less_le_trans take_Suc_Cons)

lemma sub_slice_empty [simp]: "sub_slice xs c c = []"
  by (simp add: sub_slice_def)

lemma sub_slice_map:
  "c + n \<le> length xs \<Longrightarrow> sub_slice xs c (c + n) = map (\<lambda>k. xs ! (c + k)) [0..<n]"
  by (rule nth_equalityI) (simp_all add: sub_slice_nth)

lemma sub_slice_3:
  "c + 3 \<le> length xs \<Longrightarrow> sub_slice xs c (c + 3) = [xs ! c, xs ! (c + 1), xs ! (c + 2)]"
  using sub_slice_map[of c 3 xs] by (simp add: upt_rec)

lemma sub_slice_5:
  "c + 5 \<le> length xs \<Longrightarrow>
   sub_slice xs c (c + 5) = [xs ! c, xs ! (c + 1), xs ! (c + 2), xs ! (c + 3), xs ! (c + 4)]"
  using sub_slice_map[of c 5 xs] by (simp add: upt_rec numeral_3_eq_3 numeral_eq_Suc[of "num.Bit0 (num.Bit0 num.One)"])

lemma ltw_of_bytes:
  "ltw_ok l \<Longrightarrow> ltw_bytes l = [w0, w1] \<Longrightarrow>
   \<lparr>ltw_valid_flag = (w0 AND AFE_LTW_FLAG) \<noteq> 0,
    ltw_offset = push_bit 8 (ucast (w0 AND LTW_OFFSET_HI_MASK)) OR ucast w1\<rparr> = l"
proof -
  assume ok: "ltw_ok l" and w: "ltw_bytes l = [w0, w1]"
  obtain v off where l: "l = \<lparr>ltw_valid_flag = v, ltw_offset = off\<rparr>" by (cases l)
  have w0: "w0 = (if v then 0x80 else 0) OR (ucast (drop_bit 8 off) AND 0x7F)" and w1: "w1 = ucast (off AND 0xFF)"
    using w[symmetric] unfolding ltw_bytes_def l Let_def afe_masks by simp_all
  have "bit w0 7 = v"
    unfolding w0 by (cases v; simp only: if_True if_False bit_pos; simp add: bit_range)
  moreover have "push_bit 8 (ucast (w0 AND 0x7F)) OR ucast w1 = off AND 0x7FFF"
    unfolding w0 w1 by (cases v; simp only: if_True if_False bit_pos; simp add: bit_range)
  ultimately show ?thesis using ok by (simp only: l afe_masks flag_bits ltw_ok_def Ltw.simps simp_thms)
qed

lemma bytes_of_ltw:
  "ltw_bytes \<lparr>ltw_valid_flag = (w0 AND AFE_LTW_FLAG) \<noteq> 0,
      ltw_offset = push_bit 8 (ucast (w0 AND LTW_OFFSET_HI_MASK)) OR ucast w1\<rparr> = [w0, w1]"
  "ltw_ok \<lparr>ltw_valid_flag = vf, ltw_offset = push_bit 8 (ucast (w0 AND LTW_OFFSET_HI_MASK)) OR ucast w1\<rparr>"
  unfolding ltw_bytes_def ltw_ok_def Let_def afe_masks flag_bits Ltw.simps
  by (cases "bit w0 7"; simp only: if_True if_False list.inject simp_thms bit_pos; simp add: bit_range)+

interpretation ltw_field: gated_field "\<lambda>f. f AND AFE_LTW_FLAG \<noteq> 0" read_ltw ltw_bytes ltw_ok
proof
  fix f :: u8 and ext pre post :: bytes and c c' :: nat and v :: Ltw and r :: "Ltw option"
  show "\<not> f AND AFE_LTW_FLAG \<noteq> 0 \<Longrightarrow> read_ltw f ext c = Inr (None, c)" by (simp add: read_ltw_def)
  assume p: "f AND AFE_LTW_FLAG \<noteq> 0"
  show "read_ltw f (pre @ ltw_bytes v @ post) (length pre) = Inr (Some v, length pre + length (ltw_bytes v))"
    if "ltw_ok v"
  proof -
    obtain w0 w1 where w: "ltw_bytes v = [w0, w1]" by (simp add: ltw_bytes_def Let_def)
    then show ?thesis using p ltw_of_bytes[OF that w]
      by (simp add: read_ltw_def need_in_eq Let_def del: One_nat_def)
  qed
  show "\<exists>v. r = Some v \<and> ltw_ok v \<and> c \<le> c' \<and> c' \<le> length ext \<and> sub_slice ext c c' = ltw_bytes v"
    if "read_ltw f ext c = Inr (r, c')"
    using that p bytes_of_ltw by (auto simp: read_ltw_def and_then_eq_Ok Let_def sub_slice_cons)
qed

lemma rate_of_bytes:
  "rate_ok (rate, rsv) \<Longrightarrow> rate_bytes rate rsv = [b0, b1, b2] \<Longrightarrow>
   push_bit 16 (ucast (b0 AND PIECEWISE_RATE_HI_MASK)) OR push_bit 8 (ucast b1) OR ucast b2 = rate \<and>
   drop_bit PIECEWISE_RATE_RESERVED_SHIFT b0 = rsv"
proof -
  assume ok: "rate_ok (rate, rsv)" and "rate_bytes rate rsv = [b0, b1, b2]"
  then have b: "b0 = push_bit 6 rsv OR (ucast (drop_bit 16 rate) AND 0x3F)" "b1 = ucast (drop_bit 8 rate)"
    "b2 = ucast rate"
    unfolding rate_bytes_def afe_masks by simp_all
  have "push_bit 16 (ucast (b0 AND 0x3F)) OR push_bit 8 (ucast b1) OR ucast b2 = rate AND 0x3FFFFF"
    unfolding b by (simp only: bit_pos) (simp add: bit_range)
  moreover have "drop_bit 6 b0 = rsv AND 0x03"
    unfolding b by (simp only: bit_pos) (simp add: bit_range)
  ultimately show ?thesis using ok by (simp only: afe_masks rate_ok_def fst_conv snd_conv simp_thms)
qed

lemma bytes_of_rate:
  "rate_bytes (push_bit 16 (ucast (b0 AND PIECEWISE_RATE_HI_MASK)) OR push_bit 8 (ucast b1) OR ucast b2)
     (drop_bit PIECEWISE_RATE_RESERVED_SHIFT b0) = [b0, b1, b2]"
  "rate_ok (push_bit 16 (ucast (b0 AND PIECEWISE_RATE_HI_MASK)) OR push_bit 8 (ucast b1) OR ucast b2,
     drop_bit PIECEWISE_RATE_RESERVED_SHIFT b0)"
  unfolding rate_bytes_def rate_ok_def afe_masks fst_conv snd_conv
  by (simp only: list.inject simp_thms bit_pos; simp add: bit_range)+

definition rate_wire :: "u32 \<times> u8 \<Rightarrow> bytes" where
  "rate_wire v = rate_bytes (fst v) (snd v)"

interpretation rate_field: gated_field "\<lambda>f. f AND AFE_PIECEWISE_RATE_FLAG \<noteq> 0" read_piecewise_rate
  rate_wire rate_ok
proof
  fix f :: u8 and ext pre post :: bytes and c c' :: nat and v :: "u32 \<times> u8" and r :: "(u32 \<times> u8) option"
  show "\<not> f AND AFE_PIECEWISE_RATE_FLAG \<noteq> 0 \<Longrightarrow> read_piecewise_rate f ext c = Inr (None, c)"
    by (simp add: read_piecewise_rate_def)
  assume p: "f AND AFE_PIECEWISE_RATE_FLAG \<noteq> 0"
  show "read_piecewise_rate f (pre @ rate_wire v @ post) (length pre) = Inr (Some v, length pre + length (rate_wire v))"
    if "rate_ok v"
  proof (cases v)
    case (Pair rate rsv)
    obtain b0 b1 b2 where b: "rate_bytes rate rsv = [b0, b1, b2]" by (simp add: rate_bytes_def)
    then show ?thesis using p rate_of_bytes[OF that[unfolded Pair] b]
      by (simp add: read_piecewise_rate_def need_in_eq Let_def rate_wire_def Pair del: One_nat_def)
  qed
  show "\<exists>v. r = Some v \<and> rate_ok v \<and> c \<le> c' \<and> c' \<le> length ext \<and> sub_slice ext c c' = rate_wire v"
    if "read_piecewise_rate f ext c = Inr (r, c')"
    using that p bytes_of_rate
    by (auto simp: read_piecewise_rate_def and_then_eq_Ok Let_def sub_slice_3 rate_wire_def)
qed

lemma splice_of_bytes:
  assumes "splice_ok s" "splice_bytes s = [b0, b1, b2, b3, b4]"
  shows "\<lparr>splice_type = marked_prefix (unpack_marked (b0, b1, b2, b3, b4)),
      dts_next_au = marked_timestamp (unpack_marked (b0, b1, b2, b3, b4)),
      marker_bits = marked_markers (unpack_marked (b0, b1, b2, b3, b4))\<rparr> = s"
proof -
  have "pack_marked_with (dts_next_au s) (splice_type s) (marker_bits s) = (b0, b1, b2, b3, b4)"
    using assms(2) unfolding splice_bytes_def
    by (cases "pack_marked_with (dts_next_au s) (splice_type s) (marker_bits s)") simp
  then have "unpack_marked (b0, b1, b2, b3, b4) =
      \<lparr>marked_prefix = splice_type s, marked_timestamp = dts_next_au s, marked_markers = marker_bits s\<rparr>"
    using unpack_pack_marked[of "dts_next_au s" "splice_type s" "marker_bits s"] assms(1)
    by (simp only: splice_ok_def)
  then show ?thesis by (simp only: Marked.simps) simp
qed

lemma unpack_marked_ranges:
  "marked_prefix (unpack_marked b) AND 0x0F = marked_prefix (unpack_marked b)"
  "marked_timestamp (unpack_marked b) AND mask 33 = marked_timestamp (unpack_marked b)"
  "marked_markers (unpack_marked b) AND 0x07 = marked_markers (unpack_marked b)"
  by (cases b, simp only: unpack_marked.simps Let_def Marked.simps bit_pos, simp add: bit_range)+

interpretation splice_field: gated_field "\<lambda>f. f AND AFE_SEAMLESS_SPLICE_FLAG \<noteq> 0" read_seamless_splice
  splice_bytes splice_ok
proof
  fix f :: u8 and ext pre post :: bytes and c c' :: nat and v :: SeamlessSplice and r :: "SeamlessSplice option"
  show "\<not> f AND AFE_SEAMLESS_SPLICE_FLAG \<noteq> 0 \<Longrightarrow> read_seamless_splice f ext c = Inr (None, c)"
    by (simp add: read_seamless_splice_def)
  assume p: "f AND AFE_SEAMLESS_SPLICE_FLAG \<noteq> 0"
  show "read_seamless_splice f (pre @ splice_bytes v @ post) (length pre) = Inr (Some v, length pre + length (splice_bytes v))"
    if "splice_ok v"
  proof -
    obtain b0 b1 b2 b3 b4 where b: "splice_bytes v = [b0, b1, b2, b3, b4]"
      unfolding splice_bytes_def by (metis array5_list.elims)
    then show ?thesis using p splice_of_bytes[OF that b]
      by (simp add: read_seamless_splice_def need_in_eq Let_def del: One_nat_def unpack_marked.simps)
  qed
  show "\<exists>v. r = Some v \<and> splice_ok v \<and> c \<le> c' \<and> c' \<le> length ext \<and> sub_slice ext c c' = splice_bytes v"
    if "read_seamless_splice f ext c = Inr (r, c')"
    using that p
    by (auto simp: read_seamless_splice_def and_then_eq_Ok Let_def sub_slice_5 splice_bytes_def
        splice_ok_def unpack_marked_ranges pack_unpack_marked simp del: unpack_marked.simps)
qed

subsection \<open>The extension round-trips\<close>

definition afe_rate :: "AdaptationFieldExtension \<Rightarrow> (u32 \<times> u8) option" where
  "afe_rate e = map_option (\<lambda>r. (r, piecewise_rate_reserved e)) (piecewise_rate e)"

definition afe_body :: "AdaptationFieldExtension \<Rightarrow> bytes" where
  "afe_body e = [AFE_flags (reserved_flags e) e] @ ltw_field.owire (ext_ltw e)
     @ rate_field.owire (afe_rate e) @ splice_field.owire (seamless_splice e) @ trailing e"

definition afe_wire :: "AdaptationFieldExtension \<Rightarrow> bytes" where
  "afe_wire e = of_nat (length (afe_body e)) # afe_body e"

definition afe_ok :: "AdaptationFieldExtension \<Rightarrow> bool" where
  "afe_ok e \<longleftrightarrow> (\<forall>l. ext_ltw e = Some l \<longrightarrow> ltw_ok l) \<and> (\<forall>r. afe_rate e = Some r \<longrightarrow> rate_ok r) \<and>
     (\<forall>s. seamless_splice e = Some s \<longrightarrow> splice_ok s) \<and>
     (piecewise_rate e = None \<longrightarrow> piecewise_rate_reserved e = PIECEWISE_RATE_RESERVED_VALUE) \<and>
     reserved_flags e AND 0x0F = reserved_flags e \<and> length (afe_body e) < 256"

lemma AFE_flags_fields:
  assumes "rsv AND 0x0F = rsv"
  shows "(AFE_flags rsv e AND AFE_LTW_FLAG \<noteq> 0) = (ext_ltw e \<noteq> None)"
    "(AFE_flags rsv e AND AFE_PIECEWISE_RATE_FLAG \<noteq> 0) = (piecewise_rate e \<noteq> None)"
    "(AFE_flags rsv e AND AFE_SEAMLESS_SPLICE_FLAG \<noteq> 0) = (seamless_splice e \<noteq> None)"
    "(AFE_flags rsv e AND AFE_AF_DESCRIPTOR_NOT_PRESENT_FLAG \<noteq> 0) = af_descriptor_not_present_flag e"
    "AFE_flags rsv e AND AFE_RESERVED_FLAGS_MASK = rsv"
proof -
  obtain a b c d where abcd: "(ext_ltw e \<noteq> None) = a" "(piecewise_rate e \<noteq> None) = b"
    "(seamless_splice e \<noteq> None) = c" "af_descriptor_not_present_flag e = d" by blast
  have f: "AFE_flags rsv e = (rsv AND 0x0F) OR (if a then 0x80 else 0) OR (if b then 0x40 else 0)
      OR (if c then 0x20 else 0) OR (if d then 0x10 else 0)"
    unfolding AFE_flags_def Let_def abcd afe_masks assms
    by (cases a; cases b; cases c; cases d; simp add: or.assoc)
  have "bit (AFE_flags rsv e) 7 = a" "bit (AFE_flags rsv e) 6 = b" "bit (AFE_flags rsv e) 5 = c"
    "bit (AFE_flags rsv e) 4 = d" "AFE_flags rsv e AND 0x0F = rsv AND 0x0F"
    unfolding f
    by (cases a; cases b; cases c; cases d; simp only: if_True if_False bit_pos; simp add: bit_range)+
  then show "(AFE_flags rsv e AND AFE_LTW_FLAG \<noteq> 0) = (ext_ltw e \<noteq> None)"
    "(AFE_flags rsv e AND AFE_PIECEWISE_RATE_FLAG \<noteq> 0) = (piecewise_rate e \<noteq> None)"
    "(AFE_flags rsv e AND AFE_SEAMLESS_SPLICE_FLAG \<noteq> 0) = (seamless_splice e \<noteq> None)"
    "(AFE_flags rsv e AND AFE_AF_DESCRIPTOR_NOT_PRESENT_FLAG \<noteq> 0) = af_descriptor_not_present_flag e"
    "AFE_flags rsv e AND AFE_RESERVED_FLAGS_MASK = rsv"
    by (simp_all only: abcd afe_masks flag_bits assms)
qed

lemma afe_rate_None [simp]: "afe_rate e = None \<longleftrightarrow> piecewise_rate e = None"
  by (simp add: afe_rate_def)

lemma length_ltw_bytes [simp]: "length (ltw_bytes l) = 2"
  by (simp add: ltw_bytes_def Let_def)

lemma length_rate_wire [simp]: "length (rate_wire r) = 3"
  by (simp add: rate_wire_def rate_bytes_def)

lemma length_splice_bytes [simp]: "length (splice_bytes x) = 5"
  unfolding splice_bytes_def
  by (cases "pack_marked_with (dts_next_au x) (splice_type x) (marker_bits x)") simp

lemma afe_len: "AFE_serialized_len e = length (afe_wire e)"
  by (simp add: AFE_serialized_len_def afe_wire_def afe_body_def afe_rate_def
      ltw_field.owire_def rate_field.owire_def splice_field.owire_def split: option.split)

lemma AFE_parse_wire:
  assumes "afe_ok e"
  shows "AFE_parse (afe_wire e @ rest) = Inr e"
proof -
  define fl where "fl = AFE_flags (reserved_flags e) e"
  define lt ra sp where "lt = ltw_field.owire (ext_ltw e)" and "ra = rate_field.owire (afe_rate e)"
    and "sp = splice_field.owire (seamless_splice e)"
  have rsv: "reserved_flags e AND 0x0F = reserved_flags e" using assms by (simp add: afe_ok_def)
  note fields = AFE_flags_fields[OF rsv, of e, folded fl_def]
  have body: "afe_body e = fl # lt @ ra @ sp @ trailing e"
    by (simp add: afe_body_def fl_def lt_def ra_def sp_def)
  have len: "unat (of_nat (length (afe_body e)) :: u8) = length (afe_body e)"
    using assms by (simp add: afe_ok_def unat_of_nat)
  have ne: "1 \<le> length (afe_body e)" by (simp add: body)
  have okr: "rate_ok v" if "afe_rate e = Some v" for v using assms that by (simp add: afe_ok_def)
  have r1: "read_ltw fl (afe_body e) 1 = Inr (ext_ltw e, 1 + length lt)"
    using ltw_field.read_owire[of fl "ext_ltw e" 1 "[fl]" "ra @ sp @ trailing e"] assms fields
    by (simp add: body lt_def afe_ok_def)
  have r2: "read_piecewise_rate fl (afe_body e) (1 + length lt) = Inr (afe_rate e, 1 + length lt + length ra)"
    using rate_field.read_owire[of fl "afe_rate e" "1 + length lt" "fl # lt" "sp @ trailing e"] okr fields
    by (simp add: body ra_def)
  have r3: "read_seamless_splice fl (afe_body e) (1 + length lt + length ra)
      = Inr (seamless_splice e, 1 + length lt + length ra + length sp)"
    using splice_field.read_owire[of fl "seamless_splice e" "1 + length lt + length ra" "fl # lt @ ra" "trailing e"]
      assms fields by (simp add: body sp_def afe_ok_def)
  have tr: "drop (1 + length lt + length ra + length sp) (afe_body e) = trailing e" by (simp add: body)
  have ext: "sub_slice (afe_wire e @ rest) 1 (1 + length (afe_body e)) = afe_body e"
    by (simp add: afe_wire_def sub_slice_def)
  have hd: "(afe_wire e @ rest) ! 0 = of_nat (length (afe_body e))" "afe_body e ! 0 = fl"
    by (simp_all add: afe_wire_def body)
  have e: "\<lparr>ext_ltw = ext_ltw e, piecewise_rate = map_option fst (afe_rate e),
      piecewise_rate_reserved = (case afe_rate e of None \<Rightarrow> PIECEWISE_RATE_RESERVED_VALUE | Some (_, r) \<Rightarrow> r),
      seamless_splice = seamless_splice e, af_descriptor_not_present_flag = af_descriptor_not_present_flag e,
      reserved_flags = reserved_flags e, trailing = trailing e\<rparr> = e"
    using assms by (cases "piecewise_rate e") (simp_all add: afe_rate_def afe_ok_def comp_def)
  have "\<not> (length (afe_wire e @ rest) < 1 + length (afe_body e) \<or> length (afe_body e) < 1)"
    using ne unfolding afe_wire_def by auto
  then show ?thesis
    unfolding AFE_parse_def Let_def hd len ext
    by (simp only: need_in_eq r1 r2 r3 tr fields e if_False and_then_simps prod.case)
       (simp add: afe_wire_def)
qed

lemma fit_mask_ok: "(v :: u8) AND m = v \<Longrightarrow> fit_mask v m field = Inr v"
  by (simp add: fit_mask_u8_eq)

lemma AFE_serialize_wire:
  assumes "afe_ok e" "length (afe_wire e) \<le> length buf"
  shows "AFE_serialize_into e buf = Inr (afe_wire e @ drop (length (afe_wire e)) buf, length (afe_wire e))"
proof -
  have need: "AFE_serialized_len e = Suc (length (afe_body e))" by (simp add: afe_len afe_wire_def)
  have room: "need_out buf (AFE_serialized_len e) = Inr ()" using assms(2) by (simp add: need_out_eq afe_len)
  have l: "fit_u8 (AFE_serialized_len e - 1) w = Inr (of_nat (length (afe_body e)))" for w
    using assms(1) by (simp add: fit_u8_eq need afe_ok_def)
  have rsv: "fit_mask (reserved_flags e) AFE_RESERVED_FLAGS_MASK w = Inr (reserved_flags e)" for w
    using assms(1) by (intro fit_mask_ok) (simp add: afe_ok_def afe_masks)
  have rr: "fit_mask (piecewise_rate_reserved e) PIECEWISE_RATE_RESERVED_VALUE w = Inr (piecewise_rate_reserved e)"
    if "piecewise_rate e = Some x" for w x
    using assms(1) that by (intro fit_mask_ok) (simp add: afe_ok_def afe_masks afe_rate_def rate_ok_def)
  have "AFE_serialize_into e buf = Inr (written (afe_wire e) buf)"
    unfolding AFE_serialize_into_def Let_def room l rsv emit_start
    by (cases "ext_ltw e"; cases "piecewise_rate e"; cases "seamless_splice e")
       (simp_all add: rr afe_wire_def afe_body_def afe_rate_def rate_wire_def)
  then show ?thesis by (simp add: written_def)
qed

text \<open>Parsing keeps every bit: the image of the result is the bytes that were read.\<close>

lemma AFE_parse_inverse:
  assumes "AFE_parse data = Inr e"
  shows "afe_ok e" "length (afe_wire e) = 1 + unat (data ! 0)" "afe_wire e = take (1 + unat (data ! 0)) data"
proof -
  define ext where "ext = sub_slice data 1 (1 + unat (data ! 0))"
  define fl where "fl = ext ! 0"
  note ok = assms[unfolded AFE_parse_def Let_def, folded ext_def, folded fl_def]
  from ok have len: "1 + unat (data ! 0) \<le> length data" "1 \<le> unat (data ! 0)"
    by (auto simp: and_then_eq_Ok split: if_splits)
  then have ext_len: "length ext = unat (data ! 0)" by (simp add: ext_def)
  from ok obtain l c1 r c2 sp c3 where rd: "read_ltw fl ext 1 = Inr (l, c1)"
    "read_piecewise_rate fl ext c1 = Inr (r, c2)" "read_seamless_splice fl ext c2 = Inr (sp, c3)"
    and e: "e = \<lparr>ext_ltw = l, piecewise_rate = map_option fst r,
      piecewise_rate_reserved = (case r of None \<Rightarrow> PIECEWISE_RATE_RESERVED_VALUE | Some (_, rsv) \<Rightarrow> rsv),
      seamless_splice = sp, af_descriptor_not_present_flag = fl AND AFE_AF_DESCRIPTOR_NOT_PRESENT_FLAG \<noteq> 0,
      reserved_flags = fl AND AFE_RESERVED_FLAGS_MASK, trailing = drop c3 ext\<rparr>"
    by (auto simp: and_then_eq_Ok split: if_splits)
  have i1: "(fl AND AFE_LTW_FLAG \<noteq> 0 \<longleftrightarrow> l \<noteq> None) \<and> (\<forall>v. l = Some v \<longrightarrow> ltw_ok v) \<and> 1 \<le> c1 \<and>
      c1 \<le> length ext \<and> sub_slice ext 1 c1 = ltw_field.owire l"
    using ltw_field.owire_read[OF rd(1)] len ext_len by simp
  have i2: "(fl AND AFE_PIECEWISE_RATE_FLAG \<noteq> 0 \<longleftrightarrow> r \<noteq> None) \<and> (\<forall>v. r = Some v \<longrightarrow> rate_ok v) \<and> c1 \<le> c2 \<and>
      c2 \<le> length ext \<and> sub_slice ext c1 c2 = rate_field.owire r"
    using rate_field.owire_read[OF rd(2)] i1 by simp
  have i3: "(fl AND AFE_SEAMLESS_SPLICE_FLAG \<noteq> 0 \<longleftrightarrow> sp \<noteq> None) \<and> (\<forall>v. sp = Some v \<longrightarrow> splice_ok v) \<and> c2 \<le> c3 \<and>
      c3 \<le> length ext \<and> sub_slice ext c2 c3 = splice_field.owire sp"
    using splice_field.owire_read[OF rd(3)] i2 by simp
  have rate: "afe_rate e = r" by (cases r) (auto simp: e afe_rate_def)
  have flags: "AFE_flags (reserved_flags e) e = fl"
  proof -
    have "AFE_flags (fl AND 0x0F) e = (fl AND 0x0F) OR (if bit fl 7 then 0x80 else 0) OR (if bit fl 6 then 0x40 else 0)
      OR (if bit fl 5 then 0x20 else 0) OR (if bit fl 4 then 0x10 else 0)"
      using i1 i2 i3 unfolding AFE_flags_def Let_def afe_masks flag_bits
      by (simp add: e or.assoc flag_bits afe_masks)
    also have "\<dots> = fl"
      by (cases "bit fl 7"; cases "bit fl 6"; cases "bit fl 5"; cases "bit fl 4";
          simp only: if_True if_False bit_pos; simp add: bit_range)
    finally show ?thesis by (simp add: e afe_masks)
  qed
  have cut: "ext = [fl] @ sub_slice ext 1 c1 @ sub_slice ext c1 c2 @ sub_slice ext c2 c3 @ drop c3 ext"
  proof -
    have c: "1 \<le> c1" "c1 \<le> c2" "c2 \<le> c3" using i1 i2 i3 by simp_all
    have "ext \<noteq> []" using len(2) ext_len by auto
    then have "ext = [fl] @ drop 1 ext" unfolding fl_def by (cases ext) simp_all
    then show ?thesis using c by (simp only: sub_slice_drop_join)
  qed
  have body: "afe_body e = ext"
  proof -
    have "afe_body e = [fl] @ sub_slice ext 1 c1 @ sub_slice ext c1 c2 @ sub_slice ext c2 c3 @ drop c3 ext"
      unfolding afe_body_def flags rate using i1 i2 i3 by (simp add: e)
    then show ?thesis using cut by simp
  qed
  have cast: "of_nat (length ext) = data ! 0" by (simp add: ext_len)
  have "(\<forall>v. ext_ltw e = Some v \<longrightarrow> ltw_ok v) \<and> (\<forall>v. seamless_splice e = Some v \<longrightarrow> splice_ok v)"
    using i1[THEN conjunct2, THEN conjunct1] i3[THEN conjunct2, THEN conjunct1]
    unfolding e by (simp only: AdaptationFieldExtension.simps simp_thms)
  moreover have "\<forall>v. afe_rate e = Some v \<longrightarrow> rate_ok v" 
    unfolding rate by (rule i2[THEN conjunct2, THEN conjunct1])
  moreover have "reserved_flags e AND 0x0F = reserved_flags e"
    unfolding e AdaptationFieldExtension.simps afe_masks by (simp only: and.assoc and.idem)
  moreover have "piecewise_rate e = None \<longrightarrow> piecewise_rate_reserved e = PIECEWISE_RATE_RESERVED_VALUE"
    unfolding e by simp
  moreover have "length (afe_body e) < 256" using body ext_len unat_lt2p[of "data ! 0"] by simp
  ultimately show "afe_ok e" unfolding afe_ok_def by blast
  show "length (afe_wire e) = 1 + unat (data ! 0)" by (simp add: afe_wire_def body ext_len)
  show "afe_wire e = take (1 + unat (data ! 0)) data"
    unfolding afe_wire_def body cast ext_def using len
    by (cases data) (simp_all add: sub_slice_def)
qed

interpretation ts_extension: prefix_wire_type AFE_parse AFE_serialized_len AFE_serialize_into afe_ok afe_wire
proof
  fix e :: AdaptationFieldExtension and buf rest :: bytes
  assume ok: "afe_ok e"
  show "AFE_serialized_len e = length (afe_wire e)" by (rule afe_len)
  show "length (afe_wire e) \<le> length buf \<Longrightarrow> AFE_serialize_into e buf =
      Inr (afe_wire e @ drop (length (afe_wire e)) buf, length (afe_wire e))"
    by (rule AFE_serialize_wire[OF ok])
  show "length buf < length (afe_wire e) \<Longrightarrow> \<exists>err. AFE_serialize_into e buf = Inl err"
    by (simp add: AFE_serialize_into_def Let_def need_out_eq afe_len)
  show "AFE_parse (afe_wire e) = Inr e" using AFE_parse_wire[OF ok, of "[]"] by simp
  show "AFE_parse (afe_wire e @ rest) = Inr e" by (rule AFE_parse_wire[OF ok])
qed

end
