(* ===== verification/Adaptation_Field.thy ===== *)
theory Adaptation_Field
  imports Adaptation
begin

text \<open>
  The adaptation field itself (\<open>mpeg-ts/src/ts.rs\<close>, \<open>AdaptationField\<close>) and the lazy view of it a
  parsed packet offers. Its five optional parts keep the contract \<open>gated_field\<close>; parsing followed by
  serializing is the identity on every accepted field body, and serializing followed by parsing
  on every well-formed field.
\<close>

section \<open>Data and flags\<close>

definition AF_DISCONTINUITY :: u8 where "AF_DISCONTINUITY = 0x80"
definition AF_RANDOM_ACCESS :: u8 where "AF_RANDOM_ACCESS = 0x40"
definition AF_ES_PRIORITY :: u8 where "AF_ES_PRIORITY = 0x20"
definition AF_PCR_FLAG :: u8 where "AF_PCR_FLAG = 0x10"
definition AF_OPCR_FLAG :: u8 where "AF_OPCR_FLAG = 0x08"
definition AF_SPLICING_FLAG :: u8 where "AF_SPLICING_FLAG = 0x04"
definition AF_TRANSPORT_PRIVATE_DATA_FLAG :: u8 where "AF_TRANSPORT_PRIVATE_DATA_FLAG = 0x02"
definition AF_EXTENSION_FLAG :: u8 where "AF_EXTENSION_FLAG = 0x01"

lemmas af_masks = AF_DISCONTINUITY_def AF_RANDOM_ACCESS_def AF_ES_PRIORITY_def AF_PCR_FLAG_def
  AF_OPCR_FLAG_def AF_SPLICING_FLAG_def AF_TRANSPORT_PRIVATE_DATA_FLAG_def AF_EXTENSION_FLAG_def

text \<open>The \<open>i8\<close> countdown is kept as its 8-bit pattern; \<open>sint\<close> reads it.\<close>

record AdaptationField =
  discontinuity_indicator :: bool
  random_access_indicator :: bool
  elementary_stream_priority_indicator :: bool
  af_pcr :: "Pcr option"
  af_opcr :: "Pcr option"
  splice_countdown :: "u8 option"
  transport_private_data :: "bytes option"
  af_extension :: "AdaptationFieldExtension option"
  pcr_reserved :: u8
  opcr_reserved :: u8
  stuffing :: bytes

definition AF_new :: AdaptationField where
  "AF_new = \<lparr>discontinuity_indicator = False, random_access_indicator = False,
     elementary_stream_priority_indicator = False, af_pcr = None, af_opcr = None,
     splice_countdown = None, transport_private_data = None, af_extension = None,
     pcr_reserved = PCR_RESERVED_VALUE, opcr_reserved = PCR_RESERVED_VALUE, stuffing = []\<rparr>"

section \<open>Parsing\<close>

text \<open>The gated reads, in the order of the source; PCR and OPCR differ only in their flag.\<close>

definition read_pcr :: "u8 \<Rightarrow> u8 \<Rightarrow> bytes \<Rightarrow> nat \<Rightarrow> (TsError, (Pcr \<times> u8) option \<times> nat) result" where
  "read_pcr flag flags af cursor =
     (if flags AND flag \<noteq> 0 then
        and_then (Pcr_parse af cursor) (\<lambda>p.
          let rsv = drop_bit PCR_RESERVED_SHIFT (af ! (cursor + 4) AND PCR_RESERVED_BITS)
          in Ok (Some (p, rsv), cursor + PCR_FIELD_LEN))
      else Ok (None, cursor))"

definition read_splice_countdown :: "u8 \<Rightarrow> bytes \<Rightarrow> nat \<Rightarrow> (TsError, u8 option \<times> nat) result" where
  "read_splice_countdown flags af cursor =
     (if flags AND AF_SPLICING_FLAG \<noteq> 0 then
        and_then (ok_or (TsBufferTooShort \<lparr>bts_need = cursor + 1, bts_have = length af,
                           bts_what = ''adaptation_field splice_countdown''\<rparr>) (get_at af cursor)) (\<lambda>b.
          Ok (Some b, cursor + 1))
      else Ok (None, cursor))"

definition read_private_data :: "u8 \<Rightarrow> bytes \<Rightarrow> nat \<Rightarrow> (TsError, bytes option \<times> nat) result" where
  "read_private_data flags af cursor =
     (if flags AND AF_TRANSPORT_PRIVATE_DATA_FLAG \<noteq> 0 then
        and_then (ok_or (TsBufferTooShort \<lparr>bts_need = cursor + 1, bts_have = length af,
                           bts_what = ''transport_private_data_length''\<rparr>) (get_at af cursor)) (\<lambda>b.
          let tpd_len = unat b; cursor = cursor + 1; end_c = cursor + tpd_len
          in and_then (ok_or (TsBufferTooShort \<lparr>bts_need = end_c, bts_have = length af,
                                bts_what = ''transport_private_data''\<rparr>) (get_range af cursor end_c)) (\<lambda>sl.
               Ok (Some sl, end_c)))
      else Ok (None, cursor))"

definition read_extension :: "u8 \<Rightarrow> bytes \<Rightarrow> nat \<Rightarrow> (TsError, AdaptationFieldExtension option \<times> nat) result" where
  "read_extension flags af cursor =
     (if flags AND AF_EXTENSION_FLAG \<noteq> 0 then
        and_then (ok_or (TsBufferTooShort \<lparr>bts_need = cursor + 1, bts_have = length af,
                           bts_what = ''adaptation_field_extension''\<rparr>) (get_from af cursor)) (\<lambda>ext_data.
          and_then (AFE_parse ext_data) (\<lambda>e.
            let cursor' = (if ext_data \<noteq> [] then cursor + (1 + unat (ext_data ! 0)) else cursor)
            in Ok (Some e, cursor')))
      else Ok (None, cursor))"

definition AF_parse :: "bytes \<Rightarrow> (TsError, AdaptationField) result" where
  "AF_parse af =
     and_then (ok_or (TsBufferTooShort \<lparr>bts_need = 1, bts_have = 0,
                        bts_what = ''adaptation_field flags''\<rparr>) (get_at af 0)) (\<lambda>flags.
       and_then (read_pcr AF_PCR_FLAG flags af 1) (\<lambda>(p, cursor).
       and_then (read_pcr AF_OPCR_FLAG flags af cursor) (\<lambda>(op, cursor).
       and_then (read_splice_countdown flags af cursor) (\<lambda>(sc, cursor).
       and_then (read_private_data flags af cursor) (\<lambda>(tpd, cursor).
       and_then (read_extension flags af cursor) (\<lambda>(ext, cursor).
         let stuff = (case get_from af cursor of None \<Rightarrow> [] | Some s \<Rightarrow> s)
         in Ok \<lparr>discontinuity_indicator = flags AND AF_DISCONTINUITY \<noteq> 0,
                random_access_indicator = flags AND AF_RANDOM_ACCESS \<noteq> 0,
                elementary_stream_priority_indicator = flags AND AF_ES_PRIORITY \<noteq> 0,
                af_pcr = map_option fst p, af_opcr = map_option fst op,
                splice_countdown = sc, transport_private_data = tpd, af_extension = ext,
                pcr_reserved = (case p of None \<Rightarrow> PCR_RESERVED_VALUE | Some (_, r) \<Rightarrow> r),
                opcr_reserved = (case op of None \<Rightarrow> PCR_RESERVED_VALUE | Some (_, r) \<Rightarrow> r),
                stuffing = stuff\<rparr>))))))"

section \<open>Serializing\<close>

definition AF_serialized_len :: "AdaptationField \<Rightarrow> nat" where
  "AF_serialized_len a =
     (let n = 1;
          n = (if af_pcr a \<noteq> None then n + PCR_FIELD_LEN else n);
          n = (if af_opcr a \<noteq> None then n + PCR_FIELD_LEN else n);
          n = (if splice_countdown a \<noteq> None then n + 1 else n);
          n = (case transport_private_data a of None \<Rightarrow> n | Some tpd \<Rightarrow> n + (1 + length tpd));
          n = (case af_extension a of None \<Rightarrow> n | Some e \<Rightarrow> n + AFE_serialized_len e)
      in n + length (stuffing a))"

definition AF_flags :: "AdaptationField \<Rightarrow> u8" where
  "AF_flags a =
     (let f = 0;
          f = (if discontinuity_indicator a then f OR AF_DISCONTINUITY else f);
          f = (if random_access_indicator a then f OR AF_RANDOM_ACCESS else f);
          f = (if elementary_stream_priority_indicator a then f OR AF_ES_PRIORITY else f);
          f = (if af_pcr a \<noteq> None then f OR AF_PCR_FLAG else f);
          f = (if af_opcr a \<noteq> None then f OR AF_OPCR_FLAG else f);
          f = (if splice_countdown a \<noteq> None then f OR AF_SPLICING_FLAG else f);
          f = (if transport_private_data a \<noteq> None then f OR AF_TRANSPORT_PRIVATE_DATA_FLAG else f)
      in if af_extension a \<noteq> None then f OR AF_EXTENSION_FLAG else f)"

definition AF_serialize_into :: "AdaptationField \<Rightarrow> bytes \<Rightarrow> (TsError, bytes \<times> nat) result" where
  "AF_serialize_into a buf =
     (let need = AF_serialized_len a
      in and_then (map_err TsOutputBufferTooSmall (need_out buf need)) (\<lambda>_.
         let st = emit [AF_flags a] (buf, 0);
             st = (case af_pcr a of None \<Rightarrow> st
                   | Some p \<Rightarrow> emit (set_pcr_reserved (Pcr_to_field_bytes p) (pcr_reserved a)) st);
             st = (case af_opcr a of None \<Rightarrow> st
                   | Some p \<Rightarrow> emit (set_pcr_reserved (Pcr_to_field_bytes p) (opcr_reserved a)) st);
             st = (case splice_countdown a of None \<Rightarrow> st | Some sc \<Rightarrow> emit [sc] st)
         in and_then (case transport_private_data a of None \<Rightarrow> Ok st | Some tpd \<Rightarrow>
              and_then (map_err TsFieldOverflow
                  (fit_u8 (length tpd) ''adaptation_field.transport_private_data_length'')) (\<lambda>l.
                Ok (emit tpd (emit [l] st)))) (\<lambda>st.
            and_then (case af_extension a of None \<Rightarrow> Ok st | Some e \<Rightarrow>
              and_then (AFE_serialize_into e (drop (snd st) (fst st))) (\<lambda>(sub, n).
                Ok (take (snd st) (fst st) @ sub, snd st + n))) (\<lambda>st.
              Ok (emit (stuffing a) st)))))"

section \<open>The gated fields\<close>

interpretation pcr_field: gated_field "\<lambda>f. f AND flag \<noteq> 0" "read_pcr flag" pcr_wire pcr_ok for flag :: u8
proof
  fix f :: u8 and ext pre post :: bytes and c c' :: nat and v :: "Pcr \<times> u8" and r :: "(Pcr \<times> u8) option"
  show "\<not> f AND flag \<noteq> 0 \<Longrightarrow> read_pcr flag f ext c = Inr (None, c)" by (simp add: read_pcr_def)
  assume p: "f AND flag \<noteq> 0"
  show "read_pcr flag f (pre @ pcr_wire v @ post) (length pre) = Inr (Some v, length pre + length (pcr_wire v))"
    if "pcr_ok v"
  proof (cases v)
    case (Pair q rsv)
    have n: "(pre @ pcr_wire (q, rsv) @ post) ! (length pre + 4) = pcr_wire (q, rsv) ! 4"
      by (simp only: nth_at_cursor) (simp add: nth_append)
    show ?thesis
      using p Pcr_parse_wire[OF that[unfolded Pair]] unfolding Pair read_pcr_def Let_def n
      by (simp add: PCR_FIELD_LEN_def PCR_RESERVED_SHIFT_def PCR_RESERVED_BITS_def del: One_nat_def)
  qed
  show "\<exists>v. r = Some v \<and> pcr_ok v \<and> c \<le> c' \<and> c' \<le> length ext \<and> sub_slice ext c c' = pcr_wire v"
    if rd: "read_pcr flag f ext c = Inr (r, c')"
  proof -
    obtain q where q: "Pcr_parse ext c = Inr q" "c' = c + 6"
      "r = Some (q, drop_bit 1 (ext ! (c + 4) AND 0x7E))"
      using rd p unfolding read_pcr_def Let_def PCR_RESERVED_SHIFT_def PCR_RESERVED_BITS_def
      by (auto simp: and_then_eq_Ok PCR_FIELD_LEN_def simp del: One_nat_def)
    note inv = Pcr_parse_inverse[OF q(1)]
    show ?thesis unfolding q(2,3) using inv by (intro exI conjI refl) simp_all
  qed
qed

interpretation countdown_field: gated_field "\<lambda>f. f AND AF_SPLICING_FLAG \<noteq> 0" read_splice_countdown
  "\<lambda>b. [b]" "\<lambda>_. True"
proof
  fix f :: u8 and ext pre post :: bytes and c c' :: nat and v :: u8 and r :: "u8 option"
  show "\<not> f AND AF_SPLICING_FLAG \<noteq> 0 \<Longrightarrow> read_splice_countdown f ext c = Inr (None, c)"
    by (simp add: read_splice_countdown_def)
  assume p: "f AND AF_SPLICING_FLAG \<noteq> 0"
  show "read_splice_countdown f (pre @ [v] @ post) (length pre) = Inr (Some v, length pre + length [v])"
    using p by (simp add: read_splice_countdown_def get_at_def)
  show "\<exists>v. r = Some v \<and> True \<and> c \<le> c' \<and> c' \<le> length ext \<and> sub_slice ext c c' = [v]"
    if "read_splice_countdown f ext c = Inr (r, c')"
    using that p
    by (auto simp: read_splice_countdown_def and_then_eq_Ok get_at_def sub_slice_cons split: if_splits)
qed

definition tpd_wire :: "bytes \<Rightarrow> bytes" where
  "tpd_wire d = of_nat (length d) # d"

interpretation private_field: gated_field "\<lambda>f. f AND AF_TRANSPORT_PRIVATE_DATA_FLAG \<noteq> 0" read_private_data
  tpd_wire "\<lambda>d. length d < 256"
proof
  fix f :: u8 and ext pre post :: bytes and c c' :: nat and v :: bytes and r :: "bytes option"
  show "\<not> f AND AF_TRANSPORT_PRIVATE_DATA_FLAG \<noteq> 0 \<Longrightarrow> read_private_data f ext c = Inr (None, c)"
    by (simp add: read_private_data_def)
  assume p: "f AND AF_TRANSPORT_PRIVATE_DATA_FLAG \<noteq> 0"
  show "read_private_data f (pre @ tpd_wire v @ post) (length pre) = Inr (Some v, length pre + length (tpd_wire v))"
    if "length v < 256"
  proof -
    have "unat (of_nat (length v) :: u8) = length v" using that by (simp add: unat_of_nat)
    then show ?thesis
      using p by (simp add: read_private_data_def get_at_def get_range_def tpd_wire_def Let_def sub_slice_def)
  qed
  show "\<exists>v. r = Some v \<and> length v < 256 \<and> c \<le> c' \<and> c' \<le> length ext \<and> sub_slice ext c c' = tpd_wire v"
    if "read_private_data f ext c = Inr (r, c')"
  proof -
    have c: "c < length ext" "c' = c + 1 + unat (ext ! c)" "c' \<le> length ext" "r = Some (sub_slice ext (c + 1) c')"
      using that p by (auto simp: read_private_data_def and_then_eq_Ok get_at_def get_range_def Let_def
          split: if_splits)
    then have "length (sub_slice ext (c + 1) c') = unat (ext ! c)" by simp
    then have "sub_slice ext c c' = tpd_wire (sub_slice ext (c + 1) c')" "length (sub_slice ext (c + 1) c') < 256"
      using c unat_lt2p[of "ext ! c"] by (simp_all add: tpd_wire_def sub_slice_cons)
    then show ?thesis using c by auto
  qed
qed

interpretation extension_field: gated_field "\<lambda>f. f AND AF_EXTENSION_FLAG \<noteq> 0" read_extension afe_wire afe_ok
proof
  fix f :: u8 and ext pre post :: bytes and c c' :: nat and v :: AdaptationFieldExtension
    and r :: "AdaptationFieldExtension option"
  show "\<not> f AND AF_EXTENSION_FLAG \<noteq> 0 \<Longrightarrow> read_extension f ext c = Inr (None, c)"
    by (simp add: read_extension_def)
  assume p: "f AND AF_EXTENSION_FLAG \<noteq> 0"
  show "read_extension f (pre @ afe_wire v @ post) (length pre) = Inr (Some v, length pre + length (afe_wire v))"
    if ok: "afe_ok v"
  proof -
    have parse: "AFE_parse (afe_wire v @ post) = Inr v" by (rule AFE_parse_wire[OF ok])
    have "length (afe_wire v) = 1 + unat ((afe_wire v @ post) ! 0)"
      using ok by (simp add: afe_wire_def afe_ok_def unat_of_nat)
    then show ?thesis
      using p parse by (simp add: read_extension_def get_from_def afe_wire_def)
  qed
  show "\<exists>v. r = Some v \<and> afe_ok v \<and> c \<le> c' \<and> c' \<le> length ext \<and> sub_slice ext c c' = afe_wire v"
    if rd: "c \<le> length ext" "read_extension f ext c = Inr (r, c')"
  proof -
    obtain e where e: "AFE_parse (drop c ext) = Inr e" "r = Some e"
      "c' = (if drop c ext \<noteq> [] then c + (1 + unat (drop c ext ! 0)) else c)"
      using rd p unfolding read_extension_def Let_def by (auto simp: and_then_eq_Ok get_from_def split: if_split_asm)
    note inv = AFE_parse_inverse[OF e(1)]
    have "AFE_parse [] = Inr e \<Longrightarrow> False" by (simp add: AFE_parse_def need_in_eq)
    then have ne: "drop c ext \<noteq> []" using e(1) by metis
    have len: "1 + unat (drop c ext ! 0) \<le> length (drop c ext)"
    proof -
      have "length (afe_wire e) \<le> length (drop c ext)" by (subst inv(3)) simp
      then show ?thesis by (simp only: inv(2))
    qed
    have "sub_slice ext c c' = afe_wire e" using inv(3) e(3) ne by (simp add: sub_slice_def)
    moreover have "c \<le> c'" "c' \<le> length ext" using len rd(1) e(3) ne by auto
    ultimately show ?thesis using inv(1) e(2) by auto
  qed
qed

section \<open>Byte-exact round trips of the field\<close>

definition af_pcr_pair :: "AdaptationField \<Rightarrow> (Pcr \<times> u8) option" where
  "af_pcr_pair a = map_option (\<lambda>p. (p, pcr_reserved a)) (af_pcr a)"

definition af_opcr_pair :: "AdaptationField \<Rightarrow> (Pcr \<times> u8) option" where
  "af_opcr_pair a = map_option (\<lambda>p. (p, opcr_reserved a)) (af_opcr a)"

definition af_wire :: "AdaptationField \<Rightarrow> bytes" where
  "af_wire a = [AF_flags a] @ pcr_field.owire (af_pcr_pair a) @ pcr_field.owire (af_opcr_pair a)
     @ countdown_field.owire (splice_countdown a) @ private_field.owire (transport_private_data a)
     @ extension_field.owire (af_extension a) @ stuffing a"

definition af_ok :: "AdaptationField \<Rightarrow> bool" where
  "af_ok a \<longleftrightarrow> (\<forall>v. af_pcr_pair a = Some v \<longrightarrow> pcr_ok v) \<and> (\<forall>v. af_opcr_pair a = Some v \<longrightarrow> pcr_ok v) \<and>
     (\<forall>d. transport_private_data a = Some d \<longrightarrow> length d < 256) \<and>
     (\<forall>e. af_extension a = Some e \<longrightarrow> afe_ok e) \<and>
     (af_pcr a = None \<longrightarrow> pcr_reserved a = PCR_RESERVED_VALUE) \<and>
     (af_opcr a = None \<longrightarrow> opcr_reserved a = PCR_RESERVED_VALUE)"

lemma af_pair_None [simp]: "af_pcr_pair a = None \<longleftrightarrow> af_pcr a = None" "af_opcr_pair a = None \<longleftrightarrow> af_opcr a = None"
  by (simp_all add: af_pcr_pair_def af_opcr_pair_def)

text \<open>Eight independent flags packed in one byte.\<close>

definition pack8 :: "bool \<Rightarrow> bool \<Rightarrow> bool \<Rightarrow> bool \<Rightarrow> bool \<Rightarrow> bool \<Rightarrow> bool \<Rightarrow> bool \<Rightarrow> u8" where
  "pack8 a b c d e f g h =
     (if a then 0x80 else 0) OR (if b then 0x40 else 0) OR (if c then 0x20 else 0) OR (if d then 0x10 else 0)
     OR (if e then 0x08 else 0) OR (if f then 0x04 else 0) OR (if g then 0x02 else 0) OR (if h then 0x01 else 0)"

lemma bit_if_word: "bit (if P then w else (0 :: u8)) i \<longleftrightarrow> P \<and> bit w i"
  by simp

lemma pack8_bits:
  "bit (pack8 a b c d e f g h) 7 = a" "bit (pack8 a b c d e f g h) 6 = b" "bit (pack8 a b c d e f g h) 5 = c"
  "bit (pack8 a b c d e f g h) 4 = d" "bit (pack8 a b c d e f g h) 3 = e" "bit (pack8 a b c d e f g h) 2 = f"
  "bit (pack8 a b c d e f g h) 1 = g" "bit (pack8 a b c d e f g h) 0 = h"
  unfolding pack8_def by (simp_all only: bit_or_iff bit_if_word) (simp_all add: bit_range)

lemma pack8_unpack:
  "pack8 (bit w 7) (bit w 6) (bit w 5) (bit w 4) (bit w 3) (bit w 2) (bit w 1) (bit w 0) = w"
  unfolding pack8_def by (simp only: bit_if_word bit_pos) (simp add: bit_range)

lemma AF_flags_pack8:
  "AF_flags a = pack8 (discontinuity_indicator a) (random_access_indicator a)
     (elementary_stream_priority_indicator a) (af_pcr a \<noteq> None) (af_opcr a \<noteq> None) (splice_countdown a \<noteq> None)
     (transport_private_data a \<noteq> None) (af_extension a \<noteq> None)"
proof -
  have "(if P then w OR v else w) = w OR (if P then v else 0)" for P and w v :: u8 by simp
  then show ?thesis unfolding AF_flags_def Let_def pack8_def af_masks by (simp only: or.assoc) simp
qed

lemma AF_flags_fields:
  "(AF_flags a AND AF_DISCONTINUITY \<noteq> 0) = discontinuity_indicator a"
  "(AF_flags a AND AF_RANDOM_ACCESS \<noteq> 0) = random_access_indicator a"
  "(AF_flags a AND AF_ES_PRIORITY \<noteq> 0) = elementary_stream_priority_indicator a"
  "(AF_flags a AND AF_PCR_FLAG \<noteq> 0) = (af_pcr a \<noteq> None)"
  "(AF_flags a AND AF_OPCR_FLAG \<noteq> 0) = (af_opcr a \<noteq> None)"
  "(AF_flags a AND AF_SPLICING_FLAG \<noteq> 0) = (splice_countdown a \<noteq> None)"
  "(AF_flags a AND AF_TRANSPORT_PRIVATE_DATA_FLAG \<noteq> 0) = (transport_private_data a \<noteq> None)"
  "(AF_flags a AND AF_EXTENSION_FLAG \<noteq> 0) = (af_extension a \<noteq> None)"
  unfolding af_masks flag_bits AF_flags_pack8 pack8_bits by (rule refl)+

lemma AF_parse_wire:
  assumes "af_ok a"
  shows "AF_parse (af_wire a) = Inr a"
proof -
  define fl where "fl = AF_flags a"
  define w1 w2 w3 w4 w5 where "w1 = pcr_field.owire (af_pcr_pair a)" and "w2 = pcr_field.owire (af_opcr_pair a)"
    and "w3 = countdown_field.owire (splice_countdown a)"
    and "w4 = private_field.owire (transport_private_data a)"
    and "w5 = extension_field.owire (af_extension a)"
  define c1 c2 c3 c4 c5 where "c1 = 1 + length w1" and "c2 = c1 + length w2" and "c3 = c2 + length w3"
    and "c4 = c3 + length w4" and "c5 = c4 + length w5"
  note c = c1_def c2_def c3_def c4_def c5_def
  note fields = AF_flags_fields[of a, folded fl_def]
  have oks: "\<And>v. af_pcr_pair a = Some v \<Longrightarrow> pcr_ok v" "\<And>v. af_opcr_pair a = Some v \<Longrightarrow> pcr_ok v"
    "\<And>d. transport_private_data a = Some d \<Longrightarrow> length d < 256" "\<And>e. af_extension a = Some e \<Longrightarrow> afe_ok e"
    using assms unfolding af_ok_def by blast+
  have w: "af_wire a = fl # w1 @ w2 @ w3 @ w4 @ w5 @ stuffing a"
    unfolding af_wire_def fl_def w1_def w2_def w3_def w4_def w5_def by simp
  have r1: "read_pcr AF_PCR_FLAG fl (af_wire a) 1 = Inr (af_pcr_pair a, c1)"
    using pcr_field.read_owire[of fl AF_PCR_FLAG "af_pcr_pair a" 1 "[fl]" "w2 @ w3 @ w4 @ w5 @ stuffing a"]
      fields(4) oks(1) unfolding w w1_def c by simp
  have r2: "read_pcr AF_OPCR_FLAG fl (af_wire a) c1 = Inr (af_opcr_pair a, c2)"
    using pcr_field.read_owire[of fl AF_OPCR_FLAG "af_opcr_pair a" c1 "fl # w1" "w3 @ w4 @ w5 @ stuffing a"]
      fields(5) oks(2) unfolding w w2_def c by simp
  have r3: "read_splice_countdown fl (af_wire a) c2 = Inr (splice_countdown a, c3)"
    using countdown_field.read_owire[of fl "splice_countdown a" c2 "fl # w1 @ w2" "w4 @ w5 @ stuffing a"]
      fields(6) unfolding w w3_def c by simp
  have r4: "read_private_data fl (af_wire a) c3 = Inr (transport_private_data a, c4)"
    using private_field.read_owire[of fl "transport_private_data a" c3 "fl # w1 @ w2 @ w3" "w5 @ stuffing a"]
      fields(7) oks(3) unfolding w w4_def c by simp
  have r5: "read_extension fl (af_wire a) c4 = Inr (af_extension a, c5)"
    using extension_field.read_owire[of fl "af_extension a" c4 "fl # w1 @ w2 @ w3 @ w4" "stuffing a"]
      fields(8) oks(4) unfolding w w5_def c by simp
  have hd: "get_at (af_wire a) 0 = Some fl" and tl: "get_from (af_wire a) c5 = Some (stuffing a)"
    unfolding w c by (simp_all add: get_at_def get_from_def)
  have fst_p: "map_option fst (af_pcr_pair a) = af_pcr a" "map_option fst (af_opcr_pair a) = af_opcr a"
    by (simp_all add: af_pcr_pair_def af_opcr_pair_def option.map_comp comp_def option.map_ident)
  have rsv: "(case af_pcr_pair a of None \<Rightarrow> PCR_RESERVED_VALUE | Some (_, r) \<Rightarrow> r) = pcr_reserved a"
    "(case af_opcr_pair a of None \<Rightarrow> PCR_RESERVED_VALUE | Some (_, r) \<Rightarrow> r) = opcr_reserved a"
    using assms by (auto simp: af_ok_def af_pcr_pair_def af_opcr_pair_def split: option.splits)
  show ?thesis
    unfolding AF_parse_def Let_def hd
    by (simp only: ok_or_simps and_then_simps r1 r2 r3 r4 r5 prod.case tl option.case fst_p rsv fields) simp
qed

lemma af_len: "AF_serialized_len a = length (af_wire a)"
  by (simp add: AF_serialized_len_def af_wire_def af_pcr_pair_def af_opcr_pair_def pcr_field.owire_def
      countdown_field.owire_def private_field.owire_def extension_field.owire_def tpd_wire_def afe_len
      PCR_FIELD_LEN_def Let_def split: option.split)

text \<open>The nested serializer writes into the rest of the buffer, at the cursor.\<close>

lemma AFE_serialize_at_cursor:
  assumes "afe_ok e" "st = written pre buf" "length (pre @ afe_wire e) \<le> length buf"
  shows "and_then (AFE_serialize_into e (drop (snd st) (fst st))) (\<lambda>(sub, n).
      Ok (take (snd st) (fst st) @ sub, snd st + n)) = Inr (written (pre @ afe_wire e) buf)"
  using AFE_serialize_wire[OF assms(1), of "drop (length pre) buf"] assms(2,3)
  by (simp add: written_def add.commute)

lemma AF_serialize_wire:
  assumes "af_ok a" "length (af_wire a) \<le> length buf"
  shows "AF_serialize_into a buf = Inr (af_wire a @ drop (length (af_wire a)) buf, length (af_wire a))"
proof -
  define w1 w2 w3 w4 where "w1 = pcr_field.owire (af_pcr_pair a)" and "w2 = pcr_field.owire (af_opcr_pair a)"
    and "w3 = countdown_field.owire (splice_countdown a)"
    and "w4 = private_field.owire (transport_private_data a)"
  define pre where "pre = AF_flags a # w1 @ w2 @ w3 @ w4"
  have w: "af_wire a = pre @ extension_field.owire (af_extension a) @ stuffing a"
    unfolding af_wire_def pre_def w1_def w2_def w3_def w4_def by simp
  have room: "need_out buf (AF_serialized_len a) = Inr ()" using assms(2) by (simp add: need_out_eq af_len)
  have s1: "(case af_pcr a of None \<Rightarrow> written ps buf
      | Some p \<Rightarrow> emit (set_pcr_reserved (Pcr_to_field_bytes p) (pcr_reserved a)) (written ps buf)) = written (ps @ w1) buf" for ps
    by (cases "af_pcr a") (simp_all add: w1_def af_pcr_pair_def pcr_wire_def)
  have s2: "(case af_opcr a of None \<Rightarrow> written ps buf
      | Some p \<Rightarrow> emit (set_pcr_reserved (Pcr_to_field_bytes p) (opcr_reserved a)) (written ps buf)) = written (ps @ w2) buf" for ps
    by (cases "af_opcr a") (simp_all add: w2_def af_opcr_pair_def pcr_wire_def)
  have s3: "(case splice_countdown a of None \<Rightarrow> written ps buf | Some sc \<Rightarrow> emit [sc] (written ps buf)) = written (ps @ w3) buf" for ps
    by (cases "splice_countdown a") (simp_all add: w3_def)
  have s4: "(case transport_private_data a of None \<Rightarrow> Ok (written ps buf) | Some tpd \<Rightarrow>
      and_then (map_err TsFieldOverflow (fit_u8 (length tpd) nm)) (\<lambda>l. Ok (emit tpd (emit [l] (written ps buf)))))
      = Inr (written (ps @ w4) buf)" for ps nm
    using assms(1)
    by (cases "transport_private_data a") (simp_all add: w4_def af_ok_def fit_u8_eq tpd_wire_def)
  have s5: "(case af_extension a of None \<Rightarrow> Ok (written pre buf) | Some e \<Rightarrow>
      and_then (AFE_serialize_into e (drop (snd (written pre buf)) (fst (written pre buf)))) (\<lambda>(sub, n).
        Ok (take (snd (written pre buf)) (fst (written pre buf)) @ sub, snd (written pre buf) + n)))
      = Inr (written (pre @ extension_field.owire (af_extension a)) buf)"
  proof (cases "af_extension a")
    case (Some e)
    then have "length (pre @ afe_wire e) \<le> length buf" using assms(2) by (simp add: w)
    then show ?thesis
      using AFE_serialize_at_cursor[of e "written pre buf" pre buf] assms(1) Some by (simp add: af_ok_def)
  qed simp
  have "AF_serialize_into a buf = Inr (written (af_wire a) buf)"
    unfolding AF_serialize_into_def Let_def room emit_start s1 s2 s3 s4 map_err_simps and_then_simps
    using s5 unfolding pre_def by (simp only: append_Cons append_Nil append_assoc and_then_simps emit_written)
      (simp add: w pre_def)
  then show ?thesis by (simp add: written_def)
qed

lemma AF_parse_inverse:
  assumes "AF_parse af = Inr a"
  shows "af_ok a" "af_wire a = af"
proof -
  from assms obtain fl p c1 op c2 sc c3 tpd c4 ex c5 where hd: "get_at af 0 = Some fl"
    and rd: "read_pcr AF_PCR_FLAG fl af 1 = Inr (p, c1)" "read_pcr AF_OPCR_FLAG fl af c1 = Inr (op, c2)"
      "read_splice_countdown fl af c2 = Inr (sc, c3)" "read_private_data fl af c3 = Inr (tpd, c4)"
      "read_extension fl af c4 = Inr (ex, c5)"
    and a: "a = \<lparr>discontinuity_indicator = fl AND AF_DISCONTINUITY \<noteq> 0,
      random_access_indicator = fl AND AF_RANDOM_ACCESS \<noteq> 0,
      elementary_stream_priority_indicator = fl AND AF_ES_PRIORITY \<noteq> 0,
      af_pcr = map_option fst p, af_opcr = map_option fst op, splice_countdown = sc,
      transport_private_data = tpd, af_extension = ex,
      pcr_reserved = (case p of None \<Rightarrow> PCR_RESERVED_VALUE | Some (_, r) \<Rightarrow> r),
      opcr_reserved = (case op of None \<Rightarrow> PCR_RESERVED_VALUE | Some (_, r) \<Rightarrow> r),
      stuffing = (case get_from af c5 of None \<Rightarrow> [] | Some s \<Rightarrow> s)\<rparr>"
    unfolding AF_parse_def Let_def and_then_eq_Ok ok_or_eq_Ok split_beta
    by (elim exE conjE) (metis prod.collapse sum.inject(2))
  have af: "1 \<le> length af" "af = [fl] @ drop 1 af"
    using hd by (cases af; simp add: get_at_def)+
  note i1 = pcr_field.owire_read[OF rd(1) af(1)]
  then have l1: "c1 \<le> length af" by blast
  note i2 = pcr_field.owire_read[OF rd(2) l1]
  then have l2: "c2 \<le> length af" by blast
  note i3 = countdown_field.owire_read[OF rd(3) l2]
  then have l3: "c3 \<le> length af" by blast
  note i4 = private_field.owire_read[OF rd(4) l3]
  then have l4: "c4 \<le> length af" by blast
  note i5 = extension_field.owire_read[OF rd(5) l4]
  then have l5: "c5 \<le> length af" by blast
  have c: "1 \<le> c1" "c1 \<le> c2" "c2 \<le> c3" "c3 \<le> c4" "c4 \<le> c5"
    using i1[THEN conjunct2, THEN conjunct2] i2[THEN conjunct2, THEN conjunct2] i3[THEN conjunct2, THEN conjunct2]
      i4[THEN conjunct2, THEN conjunct2] i5[THEN conjunct2, THEN conjunct2] by blast+
  have w: "sub_slice af 1 c1 = pcr_field.owire p" "sub_slice af c1 c2 = pcr_field.owire op"
    "sub_slice af c2 c3 = countdown_field.owire sc" "sub_slice af c3 c4 = private_field.owire tpd"
    "sub_slice af c4 c5 = extension_field.owire ex"
    using i1[THEN conjunct2, THEN conjunct2] i2[THEN conjunct2, THEN conjunct2] i3[THEN conjunct2, THEN conjunct2]
      i4[THEN conjunct2, THEN conjunct2] i5[THEN conjunct2, THEN conjunct2] by blast+
  have pr: "af_pcr_pair a = p" "af_opcr_pair a = op"
    unfolding a af_pcr_pair_def af_opcr_pair_def by (cases p; cases op; auto)+
  have st: "stuffing a = drop c5 af" using l5 unfolding a by (simp add: get_from_def)
  have fl: "AF_flags a = fl"
  proof -
    have "(fl AND AF_PCR_FLAG \<noteq> 0) = (af_pcr a \<noteq> None)" "(fl AND AF_OPCR_FLAG \<noteq> 0) = (af_opcr a \<noteq> None)"
      "(fl AND AF_SPLICING_FLAG \<noteq> 0) = (splice_countdown a \<noteq> None)"
      "(fl AND AF_TRANSPORT_PRIVATE_DATA_FLAG \<noteq> 0) = (transport_private_data a \<noteq> None)"
      "(fl AND AF_EXTENSION_FLAG \<noteq> 0) = (af_extension a \<noteq> None)"
      using i1[THEN conjunct1] i2[THEN conjunct1] i3[THEN conjunct1] i4[THEN conjunct1] i5[THEN conjunct1]
      unfolding a by simp_all
    then have "AF_flags a = pack8 (bit fl 7) (bit fl 6) (bit fl 5) (bit fl 4) (bit fl 3) (bit fl 2) (bit fl 1) (bit fl 0)"
      unfolding AF_flags_pack8 af_masks flag_bits by (simp add: a af_masks flag_bits)
    then show ?thesis by (simp only: pack8_unpack)
  qed
  show "af_wire a = af"
  proof -
    have "af_wire a = [fl] @ sub_slice af 1 c1 @ sub_slice af c1 c2 @ sub_slice af c2 c3 @ sub_slice af c3 c4
        @ sub_slice af c4 c5 @ drop c5 af"
      unfolding af_wire_def fl pr st w by (simp only: a AdaptationField.simps)
    also have "\<dots> = [fl] @ drop 1 af" using c by (simp only: sub_slice_drop_join)
    finally show ?thesis using af(2) by simp
  qed
  have oks: "\<forall>v. p = Some v \<longrightarrow> pcr_ok v" "\<forall>v. op = Some v \<longrightarrow> pcr_ok v" "\<forall>d. tpd = Some d \<longrightarrow> length d < 256"
    "\<forall>e. ex = Some e \<longrightarrow> afe_ok e"
    by (fact i1[THEN conjunct2, THEN conjunct1] i2[THEN conjunct2, THEN conjunct1]
      i4[THEN conjunct2, THEN conjunct1] i5[THEN conjunct2, THEN conjunct1])+
  show "af_ok a"
    unfolding af_ok_def pr using oks
    by (intro conjI) (simp_all only: a AdaptationField.simps option.map_disc_iff simp_thms, simp_all)
qed

interpretation ts_adaptation: wire_type AF_parse AF_serialized_len AF_serialize_into af_ok af_wire
proof
  fix a :: AdaptationField and buf :: bytes
  assume ok: "af_ok a"
  show "AF_serialized_len a = length (af_wire a)" by (rule af_len)
  show "length (af_wire a) \<le> length buf \<Longrightarrow> AF_serialize_into a buf =
      Inr (af_wire a @ drop (length (af_wire a)) buf, length (af_wire a))"
    by (rule AF_serialize_wire[OF ok])
  show "length buf < length (af_wire a) \<Longrightarrow> \<exists>err. AF_serialize_into a buf = Inl err"
    by (simp add: AF_serialize_into_def Let_def need_out_eq af_len)
  show "AF_parse (af_wire a) = Inr a" by (rule AF_parse_wire[OF ok])
qed

definition TsPacket_adaptation_field :: "TsPacket \<Rightarrow> (TsError, AdaptationField) result option" where
  "TsPacket_adaptation_field p = map_option AF_parse (adaptation p)"


section \<open>Properties\<close>

text \<open>
  A well-formed adaptation field, with any combination of PCR, OPCR, splice countdown, private data,
  extension and stuffing, is written in exactly \<open>serialized_len\<close> bytes, the rest of the buffer is
  untouched, the written bytes parse back to the same field, and a shorter buffer is an error.
\<close>

theorem adaptation_field_write_read:
  assumes "af_ok a"
  shows "(AF_serialized_len a \<le> length buf \<longrightarrow>
      (\<exists>out. AF_serialize_into a buf = Inr (out, AF_serialized_len a) \<and> length out = length buf \<and>
        drop (AF_serialized_len a) out = drop (AF_serialized_len a) buf \<and>
        AF_parse (take (AF_serialized_len a) out) = Inr a)) \<and>
    (length buf < AF_serialized_len a \<longrightarrow> (\<exists>e. AF_serialize_into a buf = Inl e))"
proof -
  note len = ts_adaptation.len_wire[OF assms]
  have "AF_serialize_into a buf = Inr (af_wire a @ drop (length (af_wire a)) buf, length (af_wire a))"
    if "AF_serialized_len a \<le> length buf"
    using AF_serialize_wire[OF assms] that by (simp add: len)
  then show ?thesis
    using ts_adaptation.serialize_short[OF assms, of buf] AF_parse_wire[OF assms] unfolding len by auto
qed

theorem adaptation_field_write_read_witness:
  "\<exists>out. AF_serialize_into (AF_new\<lparr>af_pcr := Some \<lparr>pcr_base = 5, pcr_extension = 7\<rparr>, stuffing := [0xFF]\<rparr>) (replicate 20 0)
      = Inr (out, 8) \<and>
    AF_parse (take 8 out) = Inr (AF_new\<lparr>af_pcr := Some \<lparr>pcr_base = 5, pcr_extension = 7\<rparr>, stuffing := [0xFF]\<rparr>)"
proof -
  let ?a = "AF_new\<lparr>af_pcr := Some \<lparr>pcr_base = 5, pcr_extension = 7\<rparr>, stuffing := [0xFF]\<rparr>"
  have l: "AF_serialized_len ?a = 8" by (simp add: AF_serialized_len_def AF_new_def PCR_FIELD_LEN_def)
  have "af_ok ?a"
    by (simp add: af_ok_def AF_new_def af_pcr_pair_def af_opcr_pair_def pcr_ok_def wf_pcr_def mask_eq_exp_minus_1 PCR_RESERVED_VALUE_def)
  from adaptation_field_write_read[OF this, of "replicate 20 0"] show ?thesis by (auto simp: l)
qed

text \<open>
  C34: parsing an adaptation field loses nothing. Whatever bytes the parser accepts, flags, reserved
  bits, private data, extension and stuffing included, serializing the result gives the same bytes.
\<close>

theorem adaptation_field_byte_exact:
  assumes "AF_parse af = Inr a" "length af \<le> length buf"
  shows "af_ok a \<and> AF_serialized_len a = length af \<and>
    AF_serialize_into a buf = Inr (af @ drop (length af) buf, length af)"
  using AF_parse_inverse[OF assms(1)] AF_serialize_wire[of a buf] ts_adaptation.len_wire[of a] assms(2) by simp

theorem adaptation_field_byte_exact_witness:
  "\<exists>a. AF_parse (af_wire AF_new) = Inr a \<and> AF_serialize_into a [7] = Inr (af_wire AF_new, 1)"
proof -
  have ok: "af_ok AF_new" by (simp add: af_ok_def AF_new_def af_pcr_pair_def af_opcr_pair_def)
  have l: "length (af_wire AF_new) = 1"
    using ts_adaptation.len_wire[OF ok] by (simp add: AF_serialized_len_def AF_new_def)
  show ?thesis
    using adaptation_field_byte_exact[OF AF_parse_wire[OF ok], of "[7]"] AF_parse_wire[OF ok] l by simp
qed

end
