(* ===== verification/Owned_Packet.thy ===== *)
theory Owned_Packet
  imports Adaptation_Field
begin

text \<open>
  The owned packet (\<open>mpeg-ts/src/owned.rs\<close>): parsing, payload and adaptation-field views, building a
  payload-only packet, and the in-place rewriters of the continuity counter and the PCR. The views
  are shown to agree with those of the borrowed packet, and the rewriters to change nothing but
  their own field.
\<close>

section \<open>State and operations\<close>

text \<open>The raw array always has 188 bytes.\<close>

record OwnedTsPacket =
  own_raw :: bytes
  own_pid :: Pid
  own_pusi :: bool
  own_has_adaptation :: bool
  own_has_payload :: bool
  own_tei :: bool
  own_scrambling :: u8
  own_continuity_counter :: u8
  own_discontinuity :: bool

definition NULL_PID :: Pid where "NULL_PID = Pid_new 0x1FFF"

definition Owned_parse :: "bytes \<Rightarrow> (TsError, OwnedTsPacket) result" where
  "Owned_parse rw =
     (if rw ! 0 \<noteq> TS_SYNC_BYTE then
        Err (TsInvalidSync \<lparr>is_what = ''TS sync byte'', is_expected = unat TS_SYNC_BYTE,
                            is_found = unat (rw ! 0)\<rparr>)
      else and_then (TsHeader_parse (take 4 rw)) (\<lambda>hdr.
        Ok \<lparr>own_raw = rw, own_pid = pid hdr, own_pusi = pusi hdr, own_has_adaptation = has_adaptation hdr,
            own_has_payload = has_payload hdr, own_tei = tei hdr, own_scrambling = scrambling hdr,
            own_continuity_counter = continuity_counter hdr, own_discontinuity = False\<rparr>))"

definition Owned_payload_offset :: "OwnedTsPacket \<Rightarrow> nat" where
  "Owned_payload_offset p =
     (let offset = 4
      in if own_has_adaptation p then let af_len = unat (own_raw p ! 4) in offset + (1 + af_len)
         else offset)"

definition Owned_payload :: "OwnedTsPacket \<Rightarrow> bytes option" where
  "Owned_payload p =
     (if \<not> own_has_payload p then None
      else let offset = Owned_payload_offset p
           in if offset < TS_PACKET_SIZE then Some (drop offset (own_raw p)) else None)"

text \<open>\<open>payload_mut\<close> lends the same range; writing \<open>f\<close> of it back is the client's use of it.\<close>

definition Owned_payload_mut :: "OwnedTsPacket \<Rightarrow> (bytes \<Rightarrow> bytes) \<Rightarrow> OwnedTsPacket option" where
  "Owned_payload_mut p f =
     (if \<not> own_has_payload p then None
      else let offset = Owned_payload_offset p
           in if offset < TS_PACKET_SIZE
              then Some (p\<lparr>own_raw := take offset (own_raw p) @ f (drop offset (own_raw p))\<rparr>) else None)"

definition MAX_PAYLOAD_LEN :: nat where "MAX_PAYLOAD_LEN = TS_PACKET_SIZE - 4"

text \<open>
  The header is written over a stuffed packet; the \<open>expect\<close> on its result cannot fire, and the
  buffer is returned as is in that branch.
\<close>

definition serialize_with_payload :: "Pid \<Rightarrow> bool \<Rightarrow> u8 \<Rightarrow> bytes \<Rightarrow> (TsError, bytes) result" where
  "serialize_with_payload p us cc pl =
     (if length pl > MAX_PAYLOAD_LEN then Err (PayloadTooLarge (length pl) MAX_PAYLOAD_LEN)
      else let pkt = replicate TS_PACKET_SIZE STUFFING_BYTE;
               hdr = \<lparr>tei = False, pusi = us, pid = p, scrambling = 0, has_adaptation = False,
                      has_payload = True, continuity_counter = cc AND CC_MASK\<rparr>;
               pkt = (case TsHeader_serialize_into hdr pkt of Inl e \<Rightarrow> pkt | Inr (b, n) \<Rightarrow> b)
           in Ok (put_slice pkt 4 pl))"

definition null_packet :: "u8 \<Rightarrow> (TsError, bytes) result" where
  "null_packet cc = serialize_with_payload NULL_PID False cc []"

definition set_continuity_counter :: "bytes \<Rightarrow> u8 \<Rightarrow> bytes" where
  "set_continuity_counter packet cc = packet[3 := (packet ! 3 AND NOT CC_MASK) OR (cc AND CC_MASK)]"

definition set_pcr :: "bytes \<Rightarrow> Pcr \<Rightarrow> (TsError, bytes) result" where
  "set_pcr packet p =
     (if packet ! 3 AND ADAPTATION_FLAG = 0 then
        Err (TsBufferTooShort \<lparr>bts_need = 6, bts_have = 0, bts_what = ''set_pcr: no adaptation field''\<rparr>)
      else
        let af_len = unat (packet ! 4); REQUIRED_AF_LEN = 1 + PCR_FIELD_LEN
        in if af_len < REQUIRED_AF_LEN then
             Err (TsBufferTooShort \<lparr>bts_need = REQUIRED_AF_LEN, bts_have = af_len,
                    bts_what = ''set_pcr: adaptation field too short for flags byte + PCR''\<rparr>)
           else if packet ! 5 AND AF_PCR_FLAG = 0 then
             Err (TsBufferTooShort \<lparr>bts_need = 6, bts_have = 0,
                    bts_what = ''set_pcr: PCR flag not set in adaptation field''\<rparr>)
           else Ok (put_slice packet 6 (Pcr_to_field_bytes p)))"

definition Owned_adaptation_field :: "OwnedTsPacket \<Rightarrow> (TsError, AdaptationField) result option" where
  "Owned_adaptation_field p =
     (if own_raw p ! 3 AND ADAPTATION_FLAG = 0 then None
      else let af_len = unat (own_raw p ! 4)
           in if af_len = 0 \<or> 5 + af_len > TS_PACKET_SIZE then None
              else Some (AF_parse (sub_slice (own_raw p) 5 (5 + af_len))))"

section \<open>The views agree with the borrowed packet\<close>

definition packet_view :: "bytes \<Rightarrow> TsHeader \<Rightarrow> TsPacket" where
  "packet_view rw h =
     \<lparr>header = h,
      payload = (if has_payload h \<and> 4 + adaptation_field_skip rw (has_adaptation h) < 188
                 then Some (drop (4 + adaptation_field_skip rw (has_adaptation h)) rw) else None),
      adaptation = (if has_adaptation h \<and> 0 < unat (rw ! 4) \<and> 5 + unat (rw ! 4) \<le> 188
                    then Some (sub_slice rw 5 (5 + unat (rw ! 4))) else None),
      raw = rw\<rparr>"

lemma TsPacket_parse_view:
  assumes "length rw = 188" "rw ! 0 = TS_SYNC_BYTE" "TsHeader_parse rw = Inr h"
  shows "TsPacket_parse rw = Inr (packet_view rw h)"
  using assms TsHeader_parse_take4[of rw]
  by (simp add: TsPacket_parse_def need_in_eq TS_PACKET_SIZE_def Let_def packet_view_def)

lemma TsPacket_parse_188:
  assumes "length rw = 188" "rw ! 0 = TS_SYNC_BYTE"
  obtains h where "TsHeader_parse rw = Inr h" "TsPacket_parse rw = Inr (packet_view rw h)"
  using TsPacket_parse_view[OF assms] TsHeader_parse_total[of rw] assms(1) by auto

lemma header_flag_adaptation: "TsHeader_parse rw = Inr h \<Longrightarrow> has_adaptation h = (rw ! 3 AND ADAPTATION_FLAG \<noteq> 0)"
  by (auto simp: TsHeader_parse_def and_then_eq_Ok Let_def)

lemma owned_views_agree:
  assumes "length rw = 188" "Owned_parse rw = Inr p"
  obtains q where "TsPacket_parse rw = Inr q" "Owned_payload p = payload q"
    "Owned_adaptation_field p = TsPacket_adaptation_field q" "own_pid p = pid (header q)"
    "own_continuity_counter p = continuity_counter (header q)"
proof -
  have sync: "rw ! 0 = TS_SYNC_BYTE" using assms(2) by (simp add: Owned_parse_def split: if_splits)
  obtain h where h: "TsHeader_parse rw = Inr h" and q: "TsPacket_parse rw = Inr (packet_view rw h)"
    by (rule TsPacket_parse_188[OF assms(1) sync])
  have p: "p = \<lparr>own_raw = rw, own_pid = pid h, own_pusi = pusi h, own_has_adaptation = has_adaptation h,
      own_has_payload = has_payload h, own_tei = tei h, own_scrambling = scrambling h,
      own_continuity_counter = continuity_counter h, own_discontinuity = False\<rparr>"
    using assms sync h TsHeader_parse_take4[of rw] by (simp add: Owned_parse_def)
  show thesis
    by (rule that[OF q])
       (use assms(1) header_flag_adaptation[OF h] in
         \<open>auto simp: p Owned_payload_def Owned_payload_offset_def adaptation_field_skip_def TS_PACKET_SIZE_def
           Owned_adaptation_field_def TsPacket_adaptation_field_def packet_view_def Let_def\<close>)
qed

section \<open>Building and rewriting packets\<close>

lemma serialize_with_payload_eq:
  assumes "length pl \<le> 184"
  shows "serialize_with_payload p us cc pl = Inr (header_wire \<lparr>tei = False, pusi = us, pid = p, scrambling = 0,
      has_adaptation = False, has_payload = True, continuity_counter = cc AND CC_MASK\<rparr>
    @ pl @ replicate (184 - length pl) STUFFING_BYTE)"
proof -
  have "put_slice ([b0, b1, b2, b3] @ replicate 184 STUFFING_BYTE) 4 pl
      = [b0, b1, b2, b3] @ pl @ replicate (184 - length pl) STUFFING_BYTE" for b0 b1 b2 b3
    by (subst put_slice_append) simp_all
  then show ?thesis
    using assms
    by (simp add: serialize_with_payload_def MAX_PAYLOAD_LEN_def TS_PACKET_SIZE_def Let_def
        TsHeader_serialize_into_def need_out_eq header_wire_def)
qed

lemma serialize_with_payload_parses:
  assumes "length pl \<le> 184" "wf_pid p"
  shows "\<exists>pkt q. serialize_with_payload p us cc pl = Inr pkt \<and> length pkt = 188 \<and> TsPacket_parse pkt = Inr q \<and>
    header q = \<lparr>tei = False, pusi = us, pid = p, scrambling = 0, has_adaptation = False, has_payload = True,
      continuity_counter = cc AND CC_MASK\<rparr> \<and>
    payload q = Some (pl @ replicate (184 - length pl) STUFFING_BYTE) \<and> adaptation q = None"
proof -
  define h where "h = \<lparr>tei = False, pusi = us, pid = p, scrambling = 0,
      has_adaptation = False, has_payload = True, continuity_counter = cc AND CC_MASK\<rparr>"
  define pkt where "pkt = header_wire h @ pl @ replicate (184 - length pl) STUFFING_BYTE"
  have ser: "serialize_with_payload p us cc pl = Inr pkt"
    using serialize_with_payload_eq[OF assms(1)] by (simp add: pkt_def h_def)
  have len: "length pkt = 188" using assms(1) by (simp add: pkt_def header_wire_def)
  have "wf_header h" using assms(2) by (simp add: wf_header_def h_def and.assoc)
  then have hp: "TsHeader_parse pkt = Inr h" unfolding pkt_def by (rule TsHeader_parse_wire)
  have "pkt ! 0 = TS_SYNC_BYTE" by (simp add: pkt_def header_wire_def)
  note q = TsPacket_parse_view[OF len this hp]
  have "drop 4 pkt = pl @ replicate (184 - length pl) STUFFING_BYTE"
    by (simp add: pkt_def header_wire_def)
  then show ?thesis
    using ser len q
    by (intro exI conjI) (auto simp: adaptation_field_skip_def packet_view_def h_def)
qed

lemma set_continuity_counter_header:
  assumes "4 \<le> length pkt" "TsHeader_parse pkt = Inr h"
  shows "TsHeader_parse (set_continuity_counter pkt cc) = Inr (h\<lparr>continuity_counter := cc AND CC_MASK\<rparr>)"
proof -
  define b3 where "b3 = pkt ! 3"
  define b3' where "b3' = (b3 AND NOT CC_MASK) OR (cc AND CC_MASK)"
  have n: "set_continuity_counter pkt cc ! 1 = pkt ! 1" "set_continuity_counter pkt cc ! 2 = pkt ! 2"
    "set_continuity_counter pkt cc ! 3 = b3'" "length (set_continuity_counter pkt cc) = length pkt"
    using assms(1) by (simp_all add: set_continuity_counter_def b3'_def b3_def)
  have f: "(b3' AND SCRAMBLING_MASK) = (b3 AND SCRAMBLING_MASK)" "(b3' AND ADAPTATION_FLAG) = (b3 AND ADAPTATION_FLAG)"
    "(b3' AND PAYLOAD_FLAG) = (b3 AND PAYLOAD_FLAG)" "b3' AND CC_MASK = cc AND CC_MASK"
    unfolding b3'_def hdr_masks by (simp only: bit_pos; simp add: bit_range)+
  show ?thesis
    using assms unfolding TsHeader_parse_def n
    by (auto simp: f n(4) need_in_eq Let_def b3_def[symmetric] simp del: drop_bit_and)
qed

lemma set_continuity_counter_rest:
  "take 3 (set_continuity_counter pkt cc) = take 3 pkt" "drop 4 (set_continuity_counter pkt cc) = drop 4 pkt"
  "length (set_continuity_counter pkt cc) = length pkt"
  by (simp_all add: set_continuity_counter_def drop_update_cancel)

lemma pcr_wire_default: "pcr_wire (p, 0x3F) = Pcr_to_field_bytes p"
  unfolding pcr_wire_bytes Pcr_to_field_bytes_def Let_def PCR_RESERVED_BITS_def
  by (simp only: list.inject simp_thms bit_pos) (simp add: bit_range)

lemma length_Pcr_to_field_bytes [simp]: "length (Pcr_to_field_bytes p) = 6"
  by (simp add: Pcr_to_field_bytes_def Let_def)

text \<open>Replacing the six PCR bytes of a field image is replacing the PCR of the field.\<close>

lemma af_wire_replace_pcr:
  assumes "af_ok a" "af_pcr a \<noteq> None" "wf_pcr p" "a' = a\<lparr>af_pcr := Some p, pcr_reserved := 0x3F\<rparr>"
  obtains fl old rest where "af_wire a = fl # old @ rest" "length old = 6" "fl AND AF_PCR_FLAG \<noteq> 0"
    "af_wire a' = fl # Pcr_to_field_bytes p @ rest" "af_ok a'"
proof -
  define rest where "rest = pcr_field.owire (af_opcr_pair a) @ countdown_field.owire (splice_countdown a)
    @ private_field.owire (transport_private_data a) @ extension_field.owire (af_extension a) @ stuffing a"
  obtain q where q: "af_pcr a = Some q" using assms(2) by blast
  have fl: "AF_flags a' = AF_flags a" unfolding AF_flags_pack8 assms(4) by (simp add: q)
  have w: "af_wire a = AF_flags a # pcr_wire (q, pcr_reserved a) @ rest"
    by (simp add: af_wire_def rest_def af_pcr_pair_def q)
  have op: "af_opcr_pair a' = af_opcr_pair a" by (simp add: af_opcr_pair_def assms(4))
  have w': "af_wire a' = AF_flags a # Pcr_to_field_bytes p @ rest"
    unfolding af_wire_def fl op by (simp add: rest_def af_pcr_pair_def assms(4) pcr_wire_default)
  have "af_ok a'"
    using assms(1,3) unfolding af_ok_def op by (simp add: assms(4) af_pcr_pair_def pcr_ok_def)
  moreover have "AF_flags a AND AF_PCR_FLAG \<noteq> 0" using AF_flags_fields(4)[of a] assms(2) by simp
  ultimately show thesis using that[OF w _ _ w'] by simp
qed

text \<open>A packet cut around the body \<open>M\<close> of its adaptation field, and with the body exchanged.\<close>

lemma exchange_body:
  assumes "length A = 5" "A ! 0 = TS_SYNC_BYTE" "TsHeader_parse (A @ M @ T) = Inr h"
    and "length (A @ M @ T) = 188" "length M' = length M" "has_adaptation h" "unat (A ! 4) = length M" "M \<noteq> []"
  shows "TsPacket_parse (A @ M' @ T) = Inr \<lparr>header = h,
      payload = (if has_payload h \<and> T \<noteq> [] then Some T else None), adaptation = Some M', raw = A @ M' @ T\<rparr>"
proof -
  have nth: "(A @ X) ! i = A ! i" if "i < 5" for i X using that assms(1) by (simp add: nth_append)
  have hp: "TsHeader_parse (A @ M' @ T) = Inr h"
    using assms(3) nth[of 1] nth[of 2] nth[of 3] assms(1)
    by (simp add: TsHeader_parse_def need_in_eq del: One_nat_def)
  have len: "length (A @ M' @ T) = 188" using assms(4,5) by simp
  have skip: "adaptation_field_skip (A @ M' @ T) True = 1 + length M'"
    using assms(1,5,7) nth[of 4] by (simp add: adaptation_field_skip_def)
  have "TsPacket_parse (A @ M' @ T) = Inr (packet_view (A @ M' @ T) h)"
    by (rule TsPacket_parse_view[OF len _ hp]) (simp only: nth[of 0] assms(2))
  moreover have "(4 + (1 + length M') < 188) = (T \<noteq> [])" "5 + length M' \<le> 188"
    using len assms(1) by (cases T; simp)+
  moreover have "0 < length M'" using assms(5,8) by (cases M) auto
  moreover have "drop (4 + (1 + length M')) (A @ M' @ T) = T" using assms(1) by simp
  moreover have "sub_slice (A @ M' @ T) 5 (5 + length M') = M'" using assms(1) by (simp add: sub_slice_def)
  ultimately show ?thesis
    unfolding packet_view_def using assms(5,6,7) nth[of 4] by (simp only: skip) simp
qed

lemma set_pcr_parses:
  assumes "length pkt = 188" "TsPacket_parse pkt = Inr q"
    and "TsPacket_adaptation_field q = Some (Inr a)" "af_pcr a \<noteq> None" "wf_pcr p"
  shows "\<exists>pkt' q'. set_pcr pkt p = Inr pkt' \<and> length pkt' = 188 \<and> TsPacket_parse pkt' = Inr q' \<and>
    header q' = header q \<and> payload q' = payload q \<and>
    TsPacket_adaptation_field q' = Some (Inr (a\<lparr>af_pcr := Some p, pcr_reserved := 0x3F\<rparr>))"
proof -
  define n A T where "n = unat (pkt ! 4)" and "A = take 5 pkt" and "T = drop (5 + n) pkt"
  have sync: "pkt ! 0 = TS_SYNC_BYTE" using assms(2) TsPacket_parse_Ok_iff[of pkt] by auto
  obtain h where h: "TsHeader_parse pkt = Inr h" "q = packet_view pkt h"
    using TsPacket_parse_188[OF assms(1) sync] assms(2) by auto
  have af: "has_adaptation h" "5 + n \<le> 188" "AF_parse (sub_slice pkt 5 (5 + n)) = Inr a"
    using assms(3) by (simp_all add: h(2) packet_view_def n_def TsPacket_adaptation_field_def split: if_splits)
  note inv = AF_parse_inverse[OF af(3)]
  obtain fl old rest where w: "af_wire a = fl # old @ rest" "length old = 6" "fl AND AF_PCR_FLAG \<noteq> 0"
      "af_wire (a\<lparr>af_pcr := Some p, pcr_reserved := 0x3F\<rparr>) = fl # Pcr_to_field_bytes p @ rest"
      "af_ok (a\<lparr>af_pcr := Some p, pcr_reserved := 0x3F\<rparr>)"
    by (rule af_wire_replace_pcr[OF inv(1) assms(4,5) refl])
  define M M' where "M = fl # old @ rest" and "M' = fl # Pcr_to_field_bytes p @ rest"
  have pkt: "pkt = A @ M @ T" and A: "length A = 5" "A ! 0 = TS_SYNC_BYTE" "unat (A ! 4) = length M"
    using take_sub_slice_drop[of 5 "5 + n" pkt] inv(2) w(1) assms(1) sync af(2) arg_cong[OF inv(2), of length]
    by (simp_all add: A_def T_def M_def n_def)
  have lM: "length M' = length M" "M \<noteq> []" using w(2) by (simp_all add: M_def M'_def)
  have ex: "TsPacket_parse (A @ X @ T) = Inr \<lparr>header = h,
      payload = (if has_payload h \<and> T \<noteq> [] then Some T else None), adaptation = Some X, raw = A @ X @ T\<rparr>"
    if "length X = length M" for X
    using exchange_body[of A M T h X] that A lM h(1) assms(1) af(1) pkt by simp
  have "(A @ [fl] @ old @ rest @ T) ! 5 = fl" using A(1) by (simp add: nth_append)
  then have p5: "pkt ! 5 = fl" unfolding pkt M_def by simp
  have put: "put_slice pkt 6 (Pcr_to_field_bytes p) = A @ M' @ T"
    using put_slice_append[of 6 "A @ [fl]" "old @ rest @ T" "Pcr_to_field_bytes p"] A(1) w(2)
    unfolding pkt M_def M'_def by simp
  have "7 \<le> n" using A(1,3) w(2) by (simp add: n_def pkt nth_append M_def)
  then have "set_pcr pkt p = Inr (A @ M' @ T)"
    using header_flag_adaptation[OF h(1)] af(1) p5 w(3) put
    by (simp add: set_pcr_def n_def[symmetric] PCR_FIELD_LEN_def Let_def)
  moreover have "length (A @ M' @ T) = 188" using assms(1) lM(1) unfolding pkt by simp
  moreover have "header q = h" "payload q = (if has_payload h \<and> T \<noteq> [] then Some T else None)"
    using ex[of M] assms(2) by (simp_all add: pkt[symmetric])
  moreover have "AF_parse M' = Inr (a\<lparr>af_pcr := Some p, pcr_reserved := 0x3F\<rparr>)"
    using AF_parse_wire[OF w(5)] by (simp only: w(4) M'_def)
  ultimately show ?thesis
    using ex[OF lM(1)]
    by (intro exI[of _ "A @ M' @ T"] exI[of _ "\<lparr>header = h,
      payload = (if has_payload h \<and> T \<noteq> [] then Some T else None), adaptation = Some M', raw = A @ M' @ T\<rparr>"])
       (simp add: TsPacket_adaptation_field_def)
qed


section \<open>Properties\<close>

text \<open>
  Restamping the PCR. In a packet whose adaptation field carries a PCR, \<open>set_pcr\<close> succeeds, and the
  result is a packet with the same header and payload whose adaptation field differs in the PCR only
  (its reserved bits set to ones).
\<close>

theorem set_pcr_restamps:
  assumes "length pkt = 188" "TsPacket_parse pkt = Inr q"
    and "TsPacket_adaptation_field q = Some (Inr a)" "af_pcr a \<noteq> None" "wf_pcr p"
  shows "\<exists>pkt' q'. set_pcr pkt p = Inr pkt' \<and> length pkt' = 188 \<and> TsPacket_parse pkt' = Inr q' \<and>
    header q' = header q \<and> payload q' = payload q \<and>
    TsPacket_adaptation_field q' = Some (Inr (a\<lparr>af_pcr := Some p, pcr_reserved := 0x3F\<rparr>))"
  using assms by (rule set_pcr_parses)

definition example_af :: AdaptationField where
  "example_af = AF_new\<lparr>af_pcr := Some \<lparr>pcr_base = 5, pcr_extension = 7\<rparr>\<rparr>"

definition example_packet :: bytes where
  "example_packet = [0x47, 0x01, 0x00, 0x30, 7] @ af_wire example_af @ replicate 176 0"

lemma example_af_ok: "af_ok example_af" "length (af_wire example_af) = 7" "af_pcr example_af \<noteq> None"
proof -
  show ok: "af_ok example_af"
    by (simp add: example_af_def af_ok_def AF_new_def af_pcr_pair_def af_opcr_pair_def pcr_ok_def wf_pcr_def mask_eq_exp_minus_1
        PCR_RESERVED_VALUE_def)
  show "length (af_wire example_af) = 7"
    using ts_adaptation.len_wire[OF ok] by (simp add: example_af_def AF_serialized_len_def AF_new_def PCR_FIELD_LEN_def)
  show "af_pcr example_af \<noteq> None" by (simp add: example_af_def)
qed

lemma example_packet_parse:
  "\<exists>q. TsPacket_parse example_packet = Inr q \<and> TsPacket_adaptation_field q = Some (Inr example_af)"
proof -
  let ?A = "[0x47, 0x01, 0x00, 0x30, 7] :: bytes"
  obtain h where h: "TsHeader_parse example_packet = Inr h"
    using TsHeader_parse_total[of example_packet] by (auto simp: example_packet_def)
  have "has_adaptation h" using header_flag_adaptation[OF h] by (simp add: example_packet_def ADAPTATION_FLAG_def)
  moreover have "af_wire example_af \<noteq> []" using example_af_ok(2) by auto
  ultimately have "\<exists>q. TsPacket_parse example_packet = Inr q \<and> adaptation q = Some (af_wire example_af)"
    using exchange_body[of ?A "af_wire example_af" "replicate 176 0" h "af_wire example_af"] h example_af_ok(2)
    by (simp add: example_packet_def TS_SYNC_BYTE_def)
  then show ?thesis using AF_parse_wire[OF example_af_ok(1)] by (auto simp: TsPacket_adaptation_field_def)
qed

theorem set_pcr_restamps_witness:
  "\<exists>pkt q. set_pcr example_packet \<lparr>pcr_base = 9, pcr_extension = 1\<rparr> = Inr pkt \<and> TsPacket_parse pkt = Inr q \<and>
    TsPacket_adaptation_field q = Some (Inr (example_af\<lparr>af_pcr := Some \<lparr>pcr_base = 9, pcr_extension = 1\<rparr>, pcr_reserved := 0x3F\<rparr>))"
proof -
  obtain q where q: "TsPacket_parse example_packet = Inr q" "TsPacket_adaptation_field q = Some (Inr example_af)"
    using example_packet_parse by blast
  have "length example_packet = 188" using example_af_ok(2) by (simp add: example_packet_def)
  from set_pcr_restamps[OF this q example_af_ok(3), of "\<lparr>pcr_base = 9, pcr_extension = 1\<rparr>"]
  show ?thesis by (auto simp: wf_pcr_def mask_eq_exp_minus_1)
qed

text \<open>
  C39: building and reading a packet. A payload of at most 184 bytes and a valid PID give a packet that
  parses to a header with those fields (the counter modulo 16) and to that payload followed by stuffing;
  a longer payload is refused.
\<close>

theorem serialize_with_payload_reads_back:
  assumes "wf_pid p"
  shows "(length pl \<le> MAX_PAYLOAD_LEN \<longrightarrow>
      (\<exists>pkt q. serialize_with_payload p us cc pl = Inr pkt \<and> length pkt = 188 \<and> TsPacket_parse pkt = Inr q \<and>
        header q = \<lparr>tei = False, pusi = us, pid = p, scrambling = 0, has_adaptation = False, has_payload = True,
          continuity_counter = cc AND CC_MASK\<rparr> \<and>
        payload q = Some (pl @ replicate (184 - length pl) STUFFING_BYTE) \<and> adaptation q = None)) \<and>
    (MAX_PAYLOAD_LEN < length pl \<longrightarrow> (\<exists>e. serialize_with_payload p us cc pl = Inl e))"
  using serialize_with_payload_parses[OF _ assms, of pl us cc]
  by (auto simp: MAX_PAYLOAD_LEN_def TS_PACKET_SIZE_def serialize_with_payload_def)

theorem serialize_with_payload_reads_back_witness:
  "\<exists>pkt q. serialize_with_payload (Pid_new 0x100) True 31 [1, 2, 3] = Inr pkt \<and> TsPacket_parse pkt = Inr q \<and>
    continuity_counter (header q) = 15"
  using serialize_with_payload_reads_back[of "Pid_new 0x100" "[1, 2, 3]" True 31]
  by (auto simp: MAX_PAYLOAD_LEN_def TS_PACKET_SIZE_def CC_MASK_def)

text \<open>
  The owned packet is a view of the same bytes: its payload, adaptation field, PID and counter are
  those of the borrowed packet, and rewriting the continuity counter changes nothing else in it.
\<close>

theorem owned_packet_agrees:
  assumes "length rw = 188" "Owned_parse rw = Inr p"
  shows "\<exists>q. TsPacket_parse rw = Inr q \<and> Owned_payload p = payload q \<and>
    Owned_adaptation_field p = TsPacket_adaptation_field q \<and> own_pid p = pid (header q) \<and>
    own_continuity_counter p = continuity_counter (header q) \<and>
    TsHeader_parse (set_continuity_counter rw cc) = Inr ((header q)\<lparr>continuity_counter := cc AND CC_MASK\<rparr>) \<and>
    take 3 (set_continuity_counter rw cc) = take 3 rw \<and> drop 4 (set_continuity_counter rw cc) = drop 4 rw"
proof -
  obtain q where q: "TsPacket_parse rw = Inr q" "Owned_payload p = payload q"
    "Owned_adaptation_field p = TsPacket_adaptation_field q" "own_pid p = pid (header q)"
    "own_continuity_counter p = continuity_counter (header q)" by (rule owned_views_agree[OF assms])
  have "TsHeader_parse rw = Inr (header q)"
    using TsPacket_parse_parts(1,4)[OF q(1)] assms(1) by simp
  then show ?thesis
    using q set_continuity_counter_header[of rw] set_continuity_counter_rest[of rw cc] assms(1) by auto
qed


theorem owned_packet_agrees_witness:
  "\<exists>p q. Owned_parse example_packet = Inr p \<and> TsPacket_parse example_packet = Inr q \<and>
    Owned_adaptation_field p = TsPacket_adaptation_field q"
proof -
  have len: "length example_packet = 188" using example_af_ok(2) by (simp add: example_packet_def)
  obtain h where "TsHeader_parse (take 4 example_packet) = Inr h"
    using TsHeader_parse_total[of "take 4 example_packet"] len by auto
  then obtain p where p: "Owned_parse example_packet = Inr p"
    by (auto simp: Owned_parse_def example_packet_def TS_SYNC_BYTE_def)
  show ?thesis using owned_packet_agrees[OF len p, of 0] p by blast
qed

end
