(* ===== verification/Reassembler.thy ===== *)
theory Reassembler
  imports Ts_Packet
begin

text \<open>
  Section reassembly (\<open>mpeg-ts/src/ts.rs\<close>, \<open>section_total_len\<close> and \<open>SectionReassembler\<close>): a buffer of
  the section in progress and a queue of finished ones, fed with packet payloads. Shown: the
  buffer stays bounded whatever is fed, every queued section has exactly its declared length, and
  what one payload contributes for each way a section can straddle packets.
\<close>

section \<open>Model\<close>

definition MAX_SECTION_SIZE :: nat where "MAX_SECTION_SIZE = 4098"
definition SECTION_HEADER_LEN :: nat where "SECTION_HEADER_LEN = 3"
definition SECTION_LENGTH_HI_MASK :: u8 where "SECTION_LENGTH_HI_MASK = 0x0F"

definition section_total_len :: "bytes \<Rightarrow> nat option" where
  "section_total_len bs =
     (if length bs < SECTION_HEADER_LEN then None
      else let section_length = (push_bit 8 (unat (bs ! 1 AND SECTION_LENGTH_HI_MASK))) OR unat (bs ! 2)
           in Some (SECTION_HEADER_LEN + section_length))"

record SectionReassembler =
  sr_buf :: bytes
  sr_ready :: "bytes list"

definition SectionReassembler_default :: SectionReassembler where
  "SectionReassembler_default = \<lparr>sr_buf = [], sr_ready = []\<rparr>"

text \<open>
  The loop of \<open>drain_complete_sections\<close>. The third branch is the \<open>expect\<close> of the source, which is
  unreachable after the length check.
\<close>

function drain_complete_sections :: "SectionReassembler \<Rightarrow> SectionReassembler" where
  "drain_complete_sections r =
     (if length (sr_buf r) < SECTION_HEADER_LEN then r
      else if sr_buf r ! 0 = STUFFING_BYTE then r\<lparr>sr_buf := []\<rparr>
      else case section_total_len (sr_buf r) of
             None \<Rightarrow> r
           | Some exp \<Rightarrow>
               if length (sr_buf r) \<ge> exp then
                 drain_complete_sections
                   (r\<lparr>sr_buf := drop exp (sr_buf r), sr_ready := sr_ready r @ [take exp (sr_buf r)]\<rparr>)
               else r)"
  by auto
termination
  by (relation "measure (\<lambda>r. length (sr_buf r))")
     (auto simp: section_total_len_def SECTION_HEADER_LEN_def Let_def split: if_splits)

declare drain_complete_sections.simps [simp del]

definition feed_pusi :: "SectionReassembler \<Rightarrow> bytes \<Rightarrow> SectionReassembler" where
  "feed_pusi r pl =
     (if pl = [] then r\<lparr>sr_buf := []\<rparr>
      else
        let pointer = unat (pl ! 0);
            r = (if sr_buf r \<noteq> [] \<and> pointer > 0 then
                   let avail = length pl - 1; tail_len = min pointer avail
                   in if length (sr_buf r) + tail_len > MAX_SECTION_SIZE then r\<lparr>sr_buf := []\<rparr>
                      else drain_complete_sections (r\<lparr>sr_buf := sr_buf r @ sub_slice pl 1 (1 + tail_len)\<rparr>)
                 else r);
            r = r\<lparr>sr_buf := []\<rparr>;
            start = 1 + pointer
        in if start \<ge> length pl then r
           else let new_data = drop start pl
                in if length new_data > MAX_SECTION_SIZE then r
                   else drain_complete_sections (r\<lparr>sr_buf := sr_buf r @ new_data\<rparr>))"

definition feed_continuation :: "SectionReassembler \<Rightarrow> bytes \<Rightarrow> SectionReassembler" where
  "feed_continuation r pl =
     (if sr_buf r = [] then r
      else
        let n = (case section_total_len (sr_buf r) of
                   Some exp \<Rightarrow> min (exp - length (sr_buf r)) (length pl)
                 | None \<Rightarrow> min (length pl) (MAX_SECTION_SIZE - length (sr_buf r)))
        in drain_complete_sections (r\<lparr>sr_buf := sr_buf r @ take n pl\<rparr>))"

definition feed :: "SectionReassembler \<Rightarrow> bytes \<Rightarrow> bool \<Rightarrow> SectionReassembler" where
  "feed r pl us = (if us then feed_pusi r pl else feed_continuation r pl)"

definition pop_section :: "SectionReassembler \<Rightarrow> bytes option \<times> SectionReassembler" where
  "pop_section r =
     (case sr_ready r of [] \<Rightarrow> (None, r) | s # q \<Rightarrow> (Some s, r\<lparr>sr_ready := q\<rparr>))"

definition reassembler_len :: "SectionReassembler \<Rightarrow> nat" where
  "reassembler_len r = length (sr_buf r)"

definition reassembler_is_empty :: "SectionReassembler \<Rightarrow> bool" where
  "reassembler_is_empty r \<longleftrightarrow> sr_buf r = []"

lemma sr_update_order [simp]:
  "r\<lparr>sr_ready := q, sr_buf := x\<rparr> = (r :: SectionReassembler)\<lparr>sr_buf := x, sr_ready := q\<rparr>"
  by (cases r) simp

section \<open>Section lengths\<close>

lemma section_total_len_Some:
  "section_total_len bs = Some n \<Longrightarrow> 3 \<le> n \<and> n \<le> 4098 \<and> 3 \<le> length bs"
proof -
  assume a: "section_total_len bs = Some n"
  have "unat (bs ! 1 AND 0x0F) < 16"
  proof -
    have "bs ! 1 AND 0x0F \<le> 0x0F" by (rule word_and_le1)
    then show ?thesis by (simp add: word_le_nat_alt)
  qed
  moreover have "unat (bs ! 2) < 2 ^ 8" using unat_lt2p[of "bs ! 2"] by simp
  ultimately have "unat (bs ! 2) OR push_bit 8 (unat (bs ! 1 AND 0x0F)) \<le> 4095"
    by (simp only: or_push_bit_nat) simp
  then show ?thesis
    using a by (auto simp: section_total_len_def SECTION_HEADER_LEN_def SECTION_LENGTH_HI_MASK_def or.commute
        Let_def split: if_splits)
qed

text \<open>Only the first three bytes matter.\<close>

lemma section_total_len_prefix:
  "3 \<le> length p \<Longrightarrow> section_total_len (p @ xs) = section_total_len p"
  by (simp add: section_total_len_def SECTION_HEADER_LEN_def nth_append)

lemma section_total_len_None: "section_total_len bs = None \<longleftrightarrow> length bs < 3"
  by (simp add: section_total_len_def SECTION_HEADER_LEN_def Let_def)

text \<open>
  A complete section: its length is the declared one, and its table id is not the stuffing byte.
\<close>

definition complete_section :: "bytes \<Rightarrow> bool" where
  "complete_section s \<longleftrightarrow> section_total_len s = Some (length s) \<and> s ! 0 \<noteq> STUFFING_BYTE"

lemma complete_section_length: "complete_section s \<Longrightarrow> 3 \<le> length s \<and> length s \<le> 4098 \<and> s \<noteq> []"
  using section_total_len_Some[of s] by (auto simp: complete_section_def)

section \<open>Draining\<close>

lemma drain_short: "length (sr_buf r) < 3 \<Longrightarrow> drain_complete_sections r = r"
  by (subst drain_complete_sections.simps) (simp add: SECTION_HEADER_LEN_def)

lemma drain_stuffing:
  "3 \<le> length (sr_buf r) \<Longrightarrow> sr_buf r ! 0 = STUFFING_BYTE \<Longrightarrow> drain_complete_sections r = r\<lparr>sr_buf := []\<rparr>"
  by (subst drain_complete_sections.simps) (simp add: SECTION_HEADER_LEN_def)

lemma drain_complete:
  assumes "complete_section s" "sr_buf r = s @ xs"
  shows "drain_complete_sections r = drain_complete_sections (r\<lparr>sr_buf := xs, sr_ready := sr_ready r @ [s]\<rparr>)"
proof -
  note s = complete_section_length[OF assms(1)]
  have "section_total_len (sr_buf r) = Some (length s)" "sr_buf r ! 0 \<noteq> STUFFING_BYTE"
    using assms section_total_len_prefix[of s xs] s by (simp_all add: complete_section_def nth_append)
  then show ?thesis
    using assms(2) s by (subst drain_complete_sections.simps) (simp add: SECTION_HEADER_LEN_def)
qed

lemma drain_sections:
  assumes "list_all complete_section ss" "sr_buf r = concat ss @ xs"
  shows "drain_complete_sections r = drain_complete_sections (r\<lparr>sr_buf := xs, sr_ready := sr_ready r @ ss\<rparr>)"
  using assms
proof (induction ss arbitrary: r)
  case (Cons s ss)
  then show ?case
    using drain_complete[of s r "concat ss @ xs"] Cons.IH[of "r\<lparr>sr_buf := concat ss @ xs, sr_ready := sr_ready r @ [s]\<rparr>"]
    by simp
next
  case Nil
  then show ?case by (cases r) simp
qed

text \<open>A proper, non-empty prefix of a complete section stays in the buffer.\<close>

lemma drain_partial:
  assumes "complete_section (p @ t)" "t \<noteq> []" "sr_buf r = p"
  shows "drain_complete_sections r = r"
proof (cases "length p < 3")
  case False
  then have "p \<noteq> []" by auto
  with False have "section_total_len p = Some (length p + length t)" "p ! 0 \<noteq> STUFFING_BYTE"
    using assms(1) section_total_len_prefix[of p t] by (auto simp: complete_section_def nth_append)
  then show ?thesis
    using assms(2,3) False by (subst drain_complete_sections.simps) (simp add: SECTION_HEADER_LEN_def)
qed (use assms in \<open>simp add: drain_short\<close>)

lemma drain_fill:
  assumes "sr_buf r = replicate n STUFFING_BYTE"
  shows "drain_complete_sections r = (if n < 3 then r else r\<lparr>sr_buf := []\<rparr>)"
  using assms drain_short[of r] drain_stuffing[of r] by auto

section \<open>Invariants for arbitrary input\<close>

text \<open>
  Whatever is fed, the buffer never exceeds the largest possible section, and every queued section
  is complete.
\<close>

definition reassembler_inv :: "SectionReassembler \<Rightarrow> bool" where
  "reassembler_inv r \<longleftrightarrow> length (sr_buf r) \<le> MAX_SECTION_SIZE \<and> list_all complete_section (sr_ready r)"

lemma drain_length: "length (sr_buf (drain_complete_sections r)) \<le> length (sr_buf r)"
proof (induction r rule: drain_complete_sections.induct)
  case (1 r)
  show ?case
    by (subst drain_complete_sections.simps) (auto split: option.split intro: order_trans[OF 1])
qed

lemma drain_ready:
  "list_all complete_section (sr_ready r) \<Longrightarrow> list_all complete_section (sr_ready (drain_complete_sections r))"
proof (induction r rule: drain_complete_sections.induct)
  case (1 r)
  have "complete_section (take exp (sr_buf r))"
    if "\<not> length (sr_buf r) < SECTION_HEADER_LEN" "sr_buf r ! 0 \<noteq> STUFFING_BYTE"
      "section_total_len (sr_buf r) = Some exp" "exp \<le> length (sr_buf r)" for exp
  proof -
    have e: "3 \<le> exp" using section_total_len_Some[OF that(3)] by simp
    have "section_total_len (take exp (sr_buf r)) = section_total_len (sr_buf r)"
      using section_total_len_prefix[of "take exp (sr_buf r)" "drop exp (sr_buf r)"] e that(4) by simp
    then show ?thesis using that e by (simp add: complete_section_def)
  qed
  then show ?case
    using 1 by (subst drain_complete_sections.simps) (auto split: option.split)
qed

lemma drain_extends: "\<exists>new. sr_ready (drain_complete_sections r) = sr_ready r @ new"
proof (induction r rule: drain_complete_sections.induct)
  case (1 r)
  show ?case
    by (subst drain_complete_sections.simps) (auto split: option.split dest!: 1)
qed

lemma drain_inv: "reassembler_inv r \<Longrightarrow> reassembler_inv (drain_complete_sections r)"
  using drain_length[of r] drain_ready[of r] by (auto simp: reassembler_inv_def)

lemma clear_inv: "reassembler_inv r \<Longrightarrow> reassembler_inv (r\<lparr>sr_buf := []\<rparr>)"
  by (simp add: reassembler_inv_def)

lemma append_inv:
  "reassembler_inv r \<Longrightarrow> length (sr_buf r) + length xs \<le> MAX_SECTION_SIZE \<Longrightarrow>
   reassembler_inv (r\<lparr>sr_buf := sr_buf r @ xs\<rparr>)"
  by (simp add: reassembler_inv_def)

lemma feed_pusi_inv: "reassembler_inv r \<Longrightarrow> reassembler_inv (feed_pusi r pl)"
proof -
  assume inv: "reassembler_inv r"
  define r1 where "r1 = (if sr_buf r \<noteq> [] \<and> unat (pl ! 0) > 0 then
      if length (sr_buf r) + min (unat (pl ! 0)) (length pl - 1) > MAX_SECTION_SIZE then r\<lparr>sr_buf := []\<rparr>
      else drain_complete_sections
        (r\<lparr>sr_buf := sr_buf r @ sub_slice pl 1 (1 + min (unat (pl ! 0)) (length pl - 1))\<rparr>) else r)"
  have "reassembler_inv r1"
    unfolding r1_def using inv
    by (auto simp: clear_inv sub_slice_def intro!: drain_inv append_inv)
  then have r2: "reassembler_inv (r1\<lparr>sr_buf := []\<rparr>)" by (rule clear_inv)
  then have "reassembler_inv (drain_complete_sections (r1\<lparr>sr_buf := drop (1 + unat (pl ! 0)) pl\<rparr>))"
    if "length (drop (1 + unat (pl ! 0)) pl) \<le> MAX_SECTION_SIZE"
    using that by (intro drain_inv) (simp add: reassembler_inv_def)
  then show ?thesis
    using inv r2 by (auto simp: feed_pusi_def Let_def clear_inv r1_def not_less)
qed

lemma feed_continuation_inv: "reassembler_inv r \<Longrightarrow> reassembler_inv (feed_continuation r pl)"
proof -
  assume inv: "reassembler_inv r"
  define n where "n = (case section_total_len (sr_buf r) of
       Some exp \<Rightarrow> min (exp - length (sr_buf r)) (length pl)
     | None \<Rightarrow> min (length pl) (MAX_SECTION_SIZE - length (sr_buf r)))"
  have "length (sr_buf r) + length (take n pl) \<le> MAX_SECTION_SIZE"
    using inv section_total_len_Some[of "sr_buf r"]
    by (auto simp: n_def reassembler_inv_def MAX_SECTION_SIZE_def min_def split: option.splits)
  then show ?thesis
    using inv unfolding feed_continuation_def n_def[symmetric]
    by (simp add: Let_def drain_inv append_inv)
qed

lemma feed_inv: "reassembler_inv r \<Longrightarrow> reassembler_inv (feed r pl us)"
  by (simp add: feed_def feed_pusi_inv feed_continuation_inv)

lemma pop_inv: "reassembler_inv r \<Longrightarrow> reassembler_inv (snd (pop_section r))"
  by (auto simp: pop_section_def reassembler_inv_def split: list.split)

text \<open>Operations a client performs, and the states it can reach.\<close>

inductive reassembler_step :: "SectionReassembler \<Rightarrow> SectionReassembler \<Rightarrow> bool" where
  step_feed: "reassembler_step r (feed r pl us)"
| step_pop: "reassembler_step r (snd (pop_section r))"

inductive reassembler_reachable :: "SectionReassembler \<Rightarrow> bool" where
  reach_start: "reassembler_reachable SectionReassembler_default"
| reach_step: "reassembler_reachable r \<Longrightarrow> reassembler_step r r' \<Longrightarrow> reassembler_reachable r'"

lemma reachable_inv: "reassembler_reachable r \<Longrightarrow> reassembler_inv r"
proof (induction rule: reassembler_reachable.induct)
  case reach_start
  show ?case by (simp add: reassembler_inv_def SectionReassembler_default_def)
next
  case (reach_step r r')
  from reach_step(2) show ?case
    by cases (simp_all add: feed_inv pop_inv reach_step.IH)
qed

section \<open>What one payload contributes\<close>

lemma feed_continuation_more:
  assumes "complete_section (b @ t)" "b \<noteq> []" "sr_buf r = b" "184 < length t"
  shows "feed_continuation r (take 184 t) = r\<lparr>sr_buf := b @ take 184 t\<rparr>"
proof -
  have "length (b @ t) \<le> 4098" using complete_section_length[OF assms(1)] by simp
  then have n: "(case section_total_len b of Some e \<Rightarrow> min (e - length b) (length (take 184 t))
      | None \<Rightarrow> min (length (take 184 t)) (MAX_SECTION_SIZE - length b)) = 184"
    using assms(1,4) section_total_len_prefix[of b t] section_total_len_None[of b]
    by (auto simp: complete_section_def MAX_SECTION_SIZE_def not_less split: option.split)
  have "complete_section ((b @ take 184 t) @ drop 184 t)" "drop 184 t \<noteq> []" using assms(1,4) by simp_all
  then have "drain_complete_sections (r\<lparr>sr_buf := b @ take 184 t\<rparr>) = r\<lparr>sr_buf := b @ take 184 t\<rparr>"
    by (rule drain_partial) simp
  then show ?thesis unfolding feed_continuation_def assms(3) n Let_def using assms(2) by simp
qed

lemma feed_continuation_last:
  assumes "complete_section (b @ t)" "b \<noteq> []" "sr_buf r = b" "length t \<le> 184"
  shows "\<exists>j. feed_continuation r (t @ replicate (184 - length t) STUFFING_BYTE) =
    r\<lparr>sr_buf := j, sr_ready := sr_ready r @ [b @ t]\<rparr>"
proof (cases "length b < 3")
  case True
  let ?pl = "t @ replicate (184 - length t) STUFFING_BYTE"
  have "feed_continuation r ?pl = drain_complete_sections (r\<lparr>sr_buf := (b @ t) @ replicate (184 - length t) STUFFING_BYTE\<rparr>)"
    using assms True section_total_len_None[of b]
    by (simp add: feed_continuation_def Let_def MAX_SECTION_SIZE_def min_def)
  also have "\<dots> = drain_complete_sections
      (r\<lparr>sr_buf := replicate (184 - length t) STUFFING_BYTE, sr_ready := sr_ready r @ [b @ t]\<rparr>)"
    using drain_complete[OF assms(1), of "r\<lparr>sr_buf := (b @ t) @ replicate (184 - length t) STUFFING_BYTE\<rparr>"] by simp
  finally show ?thesis
    using drain_fill[of "r\<lparr>sr_buf := replicate (184 - length t) STUFFING_BYTE, sr_ready := sr_ready r @ [b @ t]\<rparr>"]
    by (cases "184 - length t < 3") auto
next
  case False
  then have "section_total_len b = Some (length b + length t)"
    using assms(1) section_total_len_prefix[of b t] by (simp add: complete_section_def)
  then have "feed_continuation r (t @ replicate (184 - length t) STUFFING_BYTE)
      = drain_complete_sections (r\<lparr>sr_buf := (b @ t) @ []\<rparr>)"
    using assms by (simp add: feed_continuation_def Let_def)
  also have "\<dots> = r\<lparr>sr_buf := [], sr_ready := sr_ready r @ [b @ t]\<rparr>"
    using drain_complete[OF assms(1), of "r\<lparr>sr_buf := (b @ t) @ []\<rparr>" "[]"] by (simp add: drain_short)
  finally show ?thesis by blast
qed

text \<open>
  A payload that starts sections: the pointer covers the rest \<open>t\<close> of the section in progress, new
  data \<open>d\<close> follows.
\<close>

lemma feed_pusi_start:
  assumes "t = [] \<or> (complete_section (b @ t) \<and> b \<noteq> [] \<and> sr_buf r = b)" "length t < 183" "d \<noteq> []"
    and "length d \<le> 183"
  shows "feed_pusi r (of_nat (length t) # t @ d) = drain_complete_sections
    (r\<lparr>sr_buf := d, sr_ready := sr_ready r @ (if t = [] then [] else [b @ t])\<rparr>)"
proof -
  have p: "unat (of_nat (length t) :: u8) = length t" using assms(2) by (simp add: unat_of_nat)
  show ?thesis
  proof (cases "t = []")
    case True
    then show ?thesis
      using assms(3,4) by (cases r) (simp add: feed_pusi_def Let_def MAX_SECTION_SIZE_def)
  next
    case False
    then have a: "complete_section (b @ t)" "b \<noteq> []" "sr_buf r = b" using assms(1) by auto
    have "length (b @ t) \<le> 4098" using complete_section_length[OF a(1)] by simp
    moreover have "sub_slice (of_nat (length t) # t @ d) 1 (1 + length t) = t" by (simp add: sub_slice_def)
    moreover have "drain_complete_sections (r\<lparr>sr_buf := b @ t\<rparr>) = r\<lparr>sr_buf := [], sr_ready := sr_ready r @ [b @ t]\<rparr>"
      using drain_complete[OF a(1), of "r\<lparr>sr_buf := b @ t\<rparr>" "[]"] by (simp add: drain_short)
    ultimately show ?thesis
      using a False assms(3,4) p by (simp add: feed_pusi_def Let_def MAX_SECTION_SIZE_def)
  qed
qed


section \<open>Properties\<close>

text \<open>
  C35: bounded memory and well-formed output. Whatever payloads arrive in whatever order, lost and
  corrupted ones included, the reassembler never holds more than the largest section (4098 bytes) and every
  section it hands out has exactly its declared length and does not start with the stuffing byte.
\<close>

theorem reassembler_bounded:
  assumes "reassembler_reachable r"
  shows "length (sr_buf r) \<le> MAX_SECTION_SIZE \<and>
    (\<forall>s. fst (pop_section r) = Some s \<longrightarrow> section_total_len s = Some (length s) \<and> s ! 0 \<noteq> STUFFING_BYTE) \<and>
    reassembler_inv (feed r pl us)"
  using reachable_inv[OF assms] feed_inv[of r pl us]
  by (auto simp: reassembler_inv_def pop_section_def complete_section_def split: list.splits)

theorem reassembler_bounded_witness:
  "length (sr_buf (feed SectionReassembler_default [0, 0x42, 0xF0, 0x09, 1, 2] True)) \<le> MAX_SECTION_SIZE"
  using reassembler_bounded[OF reach_step[OF reach_start step_feed[of SectionReassembler_default
        "[0, 0x42, 0xF0, 0x09, 1, 2]" True]]] by blast

end
