(* ===== verification/Packetiser.thy ===== *)
theory Packetiser
  imports Reassembler
begin

text \<open>
  Section packetisation and repetition (\<open>mpeg-ts/src/mux.rs\<close>): \<open>SectionPacketiser\<close> cuts a batch of
  complete sections into 188-byte packets, \<open>SiMux\<close> re-emits registered tables when their interval
  has elapsed. The packetiser's index arithmetic is related to a plan of payloads over the
  sections still to be sent; feeding that plan to the reassembler returns the sections.
\<close>

section \<open>SectionPacketiser\<close>

definition PUSI_PAYLOAD_CAP :: nat where "PUSI_PAYLOAD_CAP = 183"
definition PAYLOAD_CAP :: nat where "PAYLOAD_CAP = 184"

record SectionPacketiser =
  sp_pid :: Pid
  sp_cc :: u8

definition SectionPacketiser_new :: "Pid \<Rightarrow> SectionPacketiser" where
  "SectionPacketiser_new p = \<lparr>sp_pid = p, sp_cc = 0\<rparr>"

definition with_continuity :: "Pid \<Rightarrow> u8 \<Rightarrow> SectionPacketiser" where
  "with_continuity p cc = \<lparr>sp_pid = p, sp_cc = cc AND CC_MASK\<rparr>"

text \<open>\<open>starts\<close>: the offset of every section in the concatenated data.\<close>

fun section_starts :: "nat \<Rightarrow> bytes list \<Rightarrow> nat list" where
  "section_starts n [] = []"
| "section_starts n (s # ss) = n # section_starts (n + length s) ss"

text \<open>The inner \<open>while\<close>: skip the starts before \<open>pos\<close>.\<close>

function next_index :: "nat list \<Rightarrow> nat \<Rightarrow> nat \<Rightarrow> nat" where
  "next_index starts pos i =
     (if i < length starts \<and> starts ! i < pos then next_index starts pos (Suc i) else i)"
  by auto
termination by (relation "measure (\<lambda>(starts, pos, i). length starts - i)") auto

declare next_index.simps [simp del]

text \<open>PUSI, pointer field and payload capacity of the next packet.\<close>

definition packet_plan :: "nat option \<Rightarrow> nat \<Rightarrow> bool \<times> u8 \<times> nat" where
  "packet_plan next_start pos =
     (case next_start of
        Some ns \<Rightarrow>
          let diff = ns - pos
          in if diff < PUSI_PAYLOAD_CAP then (True, of_nat diff, PUSI_PAYLOAD_CAP)
             else (False, 0, min PAYLOAD_CAP diff)
      | None \<Rightarrow> (False, 0, PAYLOAD_CAP))"

text \<open>
  One packet: header into the first four bytes, the pointer field, the data, and the stuffing loop
  over what is left.
\<close>

definition build_packet :: "Pid \<Rightarrow> u8 \<Rightarrow> bool \<Rightarrow> u8 \<Rightarrow> bytes \<Rightarrow> bytes" where
  "build_packet p cc us pointer_field chunk =
     (let pkt = replicate TS_PACKET_SIZE (0 :: u8);
          hdr = \<lparr>tei = False, pusi = us, pid = p, scrambling = 0, has_adaptation = False,
                 has_payload = True, continuity_counter = cc\<rparr>;
          pkt = (case TsHeader_serialize_into hdr (take 4 pkt) of
                   Inl e \<Rightarrow> pkt | Inr (b, n) \<Rightarrow> b @ drop 4 pkt);
          st = (pkt, 4);
          st = (if us then emit [pointer_field] st else st);
          (pkt, write_pos) = emit chunk st
      in take write_pos pkt @ replicate (length pkt - write_pos) STUFFING_BYTE)"

lemma packet_plan_cap: "packet_plan ns pos = (u, p, cap) \<Longrightarrow> 0 < cap"
  by (auto simp: packet_plan_def PUSI_PAYLOAD_CAP_def PAYLOAD_CAP_def Let_def split: option.splits if_splits)

function packetise_loop :: "bytes \<Rightarrow> nat list \<Rightarrow> Pid \<Rightarrow> nat \<Rightarrow> nat \<Rightarrow> u8 \<Rightarrow> bytes list \<times> u8" where
  "packetise_loop data starts p pos next_idx cc =
     (if pos < length data then
        let next_idx = next_index starts pos next_idx;
            next_start = get_at starts next_idx;
            (us, pointer_field, cap) = packet_plan next_start pos;
            remaining = length data - pos;
            to_copy = min remaining cap;
            pkt = build_packet p cc us pointer_field (sub_slice data pos (pos + to_copy));
            (out, cc') = packetise_loop data starts p (pos + to_copy) next_idx ((cc + 1) AND CC_MASK)
        in (pkt # out, cc')
      else ([], cc))"
  by auto
termination
  by (relation "measure (\<lambda>(data, starts, p, pos, i, cc). length data - pos)")
     (auto simp: packet_plan_cap dest!: packet_plan_cap[OF sym])

declare packetise_loop.simps [simp del]

text \<open>Returns the packetiser, the packets (\<open>out\<close> is cleared first) and their number.\<close>

definition packetise_into :: "SectionPacketiser \<Rightarrow> bytes list \<Rightarrow> SectionPacketiser \<times> bytes list \<times> nat" where
  "packetise_into sp sections =
     (if sections = [] then (sp, [], 0)
      else let total_len = sum_list (map length sections)
           in if total_len = 0 then (sp, [], 0)
              else let data = concat sections;
                       starts = section_starts 0 sections;
                       (out, cc) = packetise_loop data starts (sp_pid sp) 0 0 (sp_cc sp)
                   in (sp\<lparr>sp_cc := cc\<rparr>, out, length out))"

definition packetise :: "SectionPacketiser \<Rightarrow> bytes list \<Rightarrow> SectionPacketiser \<times> bytes list" where
  "packetise sp sections = (case packetise_into sp sections of (sp', out, n) \<Rightarrow> (sp', out))"

section \<open>SiMux\<close>

text \<open>\<open>Duration\<close> values are nanoseconds.\<close>

record Entry =
  e_pid :: Pid
  e_table_id :: u8
  e_sections :: bytes
  e_interval :: nat
  e_last_emit :: "nat option"

record SiMux =
  mux_entries :: "Entry list"
  mux_packetisers :: "SectionPacketiser list"

definition from_secs :: "nat \<Rightarrow> nat" where "from_secs n = n * 1000000000"

definition PAT_MAX_INTERVAL :: nat where "PAT_MAX_INTERVAL = from_millis 100"
definition PMT_MAX_INTERVAL :: nat where "PMT_MAX_INTERVAL = from_millis 100"
definition SDT_ACTUAL_MAX_INTERVAL :: nat where "SDT_ACTUAL_MAX_INTERVAL = from_secs 2"
definition NIT_MAX_INTERVAL :: nat where "NIT_MAX_INTERVAL = from_secs 10"
definition TDT_MAX_INTERVAL :: nat where "TDT_MAX_INTERVAL = from_secs 30"
definition TOT_MAX_INTERVAL :: nat where "TOT_MAX_INTERVAL = from_secs 30"

definition SiMux_new :: SiMux where
  "SiMux_new = \<lparr>mux_entries = [], mux_packetisers = []\<rparr>"

definition table_id_of :: "bytes \<Rightarrow> u8" where
  "table_id_of sections = (case sections of [] \<Rightarrow> 0 | b # _ \<Rightarrow> b)"

text \<open>
  \<open>packetiser_for\<close> returns the list (with a fresh packetiser appended when the PID is new) and the
  index of the packetiser it lends out.
\<close>

definition packetiser_for :: "SectionPacketiser list \<Rightarrow> Pid \<Rightarrow> SectionPacketiser list \<times> nat" where
  "packetiser_for ps p =
     (case position (\<lambda>sp. sp_pid sp = p) ps of
        Some idx \<Rightarrow> (ps, idx)
      | None \<Rightarrow> (ps @ [SectionPacketiser_new p], length ps))"

text \<open>The \<open>debug_assert\<close> on the interval is compiled out in release builds.\<close>

definition upsert :: "SiMux \<Rightarrow> Pid \<Rightarrow> bytes \<Rightarrow> nat \<Rightarrow> SiMux" where
  "upsert m p sections interval =
     (let table_id = table_id_of sections
      in case position (\<lambda>e. e_pid e = p \<and> e_table_id e = table_id) (mux_entries m) of
           Some i \<Rightarrow> m\<lparr>mux_entries := (mux_entries m)[i := (mux_entries m ! i)
                         \<lparr>e_sections := sections, e_interval := interval\<rparr>]\<rparr>
         | None \<Rightarrow> m\<lparr>mux_entries := mux_entries m @
                     [\<lparr>e_pid = p, e_table_id = table_id, e_sections = sections,
                       e_interval = interval, e_last_emit = None\<rparr>]\<rparr>)"

definition upsert_pat :: "SiMux \<Rightarrow> bytes \<Rightarrow> SiMux" where
  "upsert_pat m sections = upsert m (Pid_new 0x0000) sections PAT_MAX_INTERVAL"

definition upsert_pmt :: "SiMux \<Rightarrow> Pid \<Rightarrow> bytes \<Rightarrow> SiMux" where
  "upsert_pmt m p sections = upsert m p sections PMT_MAX_INTERVAL"

definition upsert_sdt_actual :: "SiMux \<Rightarrow> bytes \<Rightarrow> SiMux" where
  "upsert_sdt_actual m sections = upsert m (Pid_new 0x0011) sections SDT_ACTUAL_MAX_INTERVAL"

definition upsert_nit :: "SiMux \<Rightarrow> bytes \<Rightarrow> SiMux" where
  "upsert_nit m sections = upsert m (Pid_new 0x0010) sections NIT_MAX_INTERVAL"

definition upsert_tdt :: "SiMux \<Rightarrow> bytes \<Rightarrow> SiMux" where
  "upsert_tdt m sections = upsert m (Pid_new 0x0014) sections TDT_MAX_INTERVAL"

definition upsert_tot :: "SiMux \<Rightarrow> bytes \<Rightarrow> SiMux" where
  "upsert_tot m sections = upsert m (Pid_new 0x0014) sections TOT_MAX_INTERVAL"

function split_sections :: "bytes \<Rightarrow> bytes list" where
  "split_sections data =
     (case section_total_len data of
        None \<Rightarrow> []
      | Some n \<Rightarrow> if n > length data then [] else take n data # split_sections (drop n data))"
  by auto
termination
  by (relation "measure length") (auto dest!: section_total_len_Some)

declare split_sections.simps [simp del]

definition entry_due :: "nat \<Rightarrow> Entry \<Rightarrow> bool" where
  "entry_due now e = (case e_last_emit e of None \<Rightarrow> True | Some l \<Rightarrow> now - l \<ge> e_interval e)"

text \<open>The body of the loop over the entries, with the packetisers threaded through.\<close>

definition poll_entry :: "nat \<Rightarrow> SectionPacketiser list \<Rightarrow> Entry \<Rightarrow> SectionPacketiser list \<times> bytes list \<times> Entry" where
  "poll_entry now ps e =
     (if entry_due now e then
        let refs = split_sections (e_sections e);
            (ps, tmp) = (if refs \<noteq> [] then
                 let (ps, idx) = packetiser_for ps (e_pid e);
                     (sp, tmp, n) = packetise_into (ps ! idx) refs
                 in (ps[idx := sp], tmp)
               else (ps, []))
        in (ps, tmp, e\<lparr>e_last_emit := Some now\<rparr>)
      else (ps, [], e))"

fun poll_entries :: "nat \<Rightarrow> SectionPacketiser list \<Rightarrow> Entry list \<Rightarrow> SectionPacketiser list \<times> bytes list \<times> Entry list" where
  "poll_entries now ps [] = (ps, [], [])"
| "poll_entries now ps (e # es) =
     (let (ps, out1, e') = poll_entry now ps e;
          (ps, out2, es') = poll_entries now ps es
      in (ps, out1 @ out2, e' # es'))"

definition poll_into :: "SiMux \<Rightarrow> nat \<Rightarrow> SiMux \<times> bytes list \<times> nat" where
  "poll_into m now =
     (let (ps, out, es) = poll_entries now (mux_packetisers m) (mux_entries m)
      in (m\<lparr>mux_entries := es, mux_packetisers := ps\<rparr>, out, length out))"

definition poll_mux :: "SiMux \<Rightarrow> nat \<Rightarrow> SiMux \<times> bytes list" where
  "poll_mux m now = (case poll_into m now of (m', out, n) \<Rightarrow> (m', out))"

section \<open>The payload plan\<close>

text \<open>
  What is still to be sent is the rest \<open>t\<close> of the section in progress and the sections \<open>rest\<close> after
  it. \<open>cut_sections m rest\<close> takes \<open>m\<close> bytes off the front of \<open>rest\<close>: the sections sent completely, the part sent
  and the part left of the section cut in two, and the sections not begun.
\<close>

fun cut_sections :: "nat \<Rightarrow> bytes list \<Rightarrow> bytes list \<times> bytes \<times> bytes \<times> bytes list" where
  "cut_sections m [] = ([], [], [], [])"
| "cut_sections m (s # ss) =
     (if m = 0 then ([], [], [], s # ss)
      else if length s \<le> m then let (dn, p, t, rest) = cut_sections (m - length s) ss in (s # dn, p, t, rest)
      else ([], take m s, drop m s, ss))"

lemma cut_spec:
  assumes "cut_sections m ss = (dn, p, t, rest)"
  shows "take m (concat ss) = concat dn @ p" "drop m (concat ss) = t @ concat rest"
    "ss = dn @ (if p = [] then [] else [p @ t]) @ rest" "p = [] \<longleftrightarrow> t = []"
    "length t + length (concat rest) = length (concat ss) - m"
proof -
  have "take m (concat ss) = concat dn @ p \<and> drop m (concat ss) = t @ concat rest
      \<and> ss = dn @ (if p = [] then [] else [p @ t]) @ rest \<and> (p = [] \<longleftrightarrow> t = [])"
    using assms
  proof (induction m ss arbitrary: dn rule: cut_sections.induct)
    case (2 m s ss)
    show ?case
    proof (cases "m \<noteq> 0 \<and> length s \<le> m")
      case True
      obtain dn' p' t' rest' where c: "cut_sections (m - length s) ss = (dn', p', t', rest')" by (metis prod_cases4)
      then have "dn = s # dn'" and c': "cut_sections (m - length s) ss = (dn', p, t, rest)"
        using 2(2) True by simp_all
      have ih: "take (m - length s) (concat ss) = concat dn' @ p" "drop (m - length s) (concat ss) = t @ concat rest"
        "ss = dn' @ (if p = [] then [] else [p @ t]) @ rest" "p = [] \<longleftrightarrow> t = []"
        using 2(1)[of dn'] True c' by blast+
      have "take m (concat (s # ss)) = concat dn @ p" "drop m (concat (s # ss)) = t @ concat rest"
        using True ih(1,2) \<open>dn = s # dn'\<close> by simp_all
      moreover have "s # ss = dn @ (if p = [] then [] else [p @ t]) @ rest"
        using ih(3) \<open>dn = s # dn'\<close> by simp
      ultimately show ?thesis using ih(4) by blast
    qed (use 2(2) in \<open>auto split: if_splits\<close>)
  qed simp
  then show "take m (concat ss) = concat dn @ p" "drop m (concat ss) = t @ concat rest"
    "ss = dn @ (if p = [] then [] else [p @ t]) @ rest" "p = [] \<longleftrightarrow> t = []" by blast+
  then show "length t + length (concat rest) = length (concat ss) - m"
    by (metis length_append length_drop)
qed

lemma cut_smaller:
  assumes "cut_sections m ss = (dn, p, t, rest)" "0 < m" "ss \<noteq> []"
  shows "length t + length (concat rest) + length rest < length (concat ss) + length ss"
proof -
  obtain s xs where ss: "ss = s # xs" using assms(3) by (cases ss) auto
  note c = cut_spec[OF assms(1)]
  show ?thesis
  proof (cases "concat ss = []")
    case True
    then have "length s \<le> m" by (simp add: ss)
    then obtain dn' where "dn = s # dn'" using assms(1,2) by (auto simp: ss split: prod.splits)
    moreover have "length ss = length dn + (if p = [] then 0 else 1) + length rest" using c(3) by (subst c(3)) simp
    moreover have "length (concat ss) = 0" using True by simp
    ultimately show ?thesis using c(5) by simp
  next
    case False
    then have "0 < length (concat ss)" by simp
    moreover have "length rest \<le> length ss" by (subst c(3)) simp
    ultimately show ?thesis using c(5) assms(2) by linarith
  qed
qed

definition fill :: "nat \<Rightarrow> bytes \<Rightarrow> bytes" where
  "fill n xs = xs @ replicate (n - length xs) STUFFING_BYTE"

text \<open>The payload of every packet still to be sent, with its PUSI flag.\<close>

function plan :: "bytes \<Rightarrow> bytes list \<Rightarrow> (bool \<times> bytes) list" where
  "plan t rest =
     (if t = [] \<and> rest = [] then []
      else if rest \<noteq> [] \<and> length t < 183 then
        let (dn, p, t', rest') = cut_sections (183 - length t) rest
        in (True, of_nat (length t) # fill 183 (t @ concat dn @ p)) # plan t' rest'
      else (False, fill 184 (take 184 t)) # plan (drop 184 t) rest)"
  by auto
termination
  by (relation "measure (\<lambda>(t, rest). length t + length (concat rest) + length rest)")
     (auto dest!: cut_smaller[OF sym])

declare plan.simps [simp del]

lemma length_fill [simp]: "length xs \<le> n \<Longrightarrow> length (fill n xs) = n"
  by (simp add: fill_def)

lemma fill_full: "n \<le> length xs \<Longrightarrow> fill n xs = xs"
  by (simp add: fill_def)

section \<open>Feeding the plan\<close>

fun feed_units :: "SectionReassembler \<Rightarrow> (bool \<times> bytes) list \<Rightarrow> SectionReassembler" where
  "feed_units r [] = r"
| "feed_units r ((us, pl) # us_pls) = feed_units (feed r pl us) us_pls"

text \<open>The reassembler has seen the first part \<open>b\<close> of the section whose rest is \<open>t\<close>.\<close>

definition in_progress :: "SectionReassembler \<Rightarrow> bytes \<Rightarrow> bytes \<Rightarrow> bool" where
  "in_progress r b t \<longleftrightarrow> t = [] \<or> (complete_section (b @ t) \<and> b \<noteq> [] \<and> sr_buf r = b)"

abbreviation current :: "bytes \<Rightarrow> bytes \<Rightarrow> bytes list" where
  "current b t \<equiv> (if t = [] then [] else [b @ t])"

lemma feed_start_unit:
  assumes "in_progress r b t" "length t < 183" "rest \<noteq> []" "list_all complete_section rest"
    and "cut_sections (183 - length t) rest = (dn, p, t', rest')"
    and "r' = feed r (of_nat (length t) # fill 183 (t @ concat dn @ p)) True"
  shows "in_progress r' p t'" "sr_ready r' = sr_ready r @ current b t @ dn"
proof -
  note c = cut_spec[OF assms(5)]
  define d where "d = concat dn @ p @ replicate (183 - length (t @ concat dn @ p)) STUFFING_BYTE"
  define r1 where "r1 = r\<lparr>sr_buf := d, sr_ready := sr_ready r @ current b t\<rparr>"
  obtain s ss where rest: "rest = s # ss" using assms(3) by (cases rest) auto
  have "s \<noteq> []" using assms(4) complete_section_length[of s] by (auto simp: rest)
  then have "take (183 - length t) (concat rest) \<noteq> []" using assms(2) by (simp add: rest)
  then have "d \<noteq> []" using c(1) by (auto simp: d_def)
  moreover have "length d \<le> 183"
  proof -
    have "length (concat dn @ p) \<le> 183 - length t" by (metis c(1) length_take min.cobounded2)
    then show ?thesis by (simp add: d_def)
  qed
  ultimately have "feed_pusi r (of_nat (length t) # t @ d) = drain_complete_sections r1"
    using feed_pusi_start[of t b r d] assms(1,2) by (simp add: in_progress_def r1_def)
  then have r': "r' = drain_complete_sections r1"
    using assms(6) by (simp add: feed_def fill_def d_def)
  have dn: "list_all complete_section dn" using assms(4) by (subst (asm) c(3)) simp
  let ?f = "replicate (183 - length (t @ concat dn @ p)) STUFFING_BYTE"
  have dr: "r' = drain_complete_sections (r1\<lparr>sr_buf := p @ ?f, sr_ready := sr_ready r1 @ dn\<rparr>)"
    unfolding r' using drain_sections[OF dn, of r1 "p @ ?f"] by (simp add: r1_def d_def)
  have "in_progress r' p t' \<and> sr_ready r' = sr_ready r1 @ dn"
  proof (cases "p = []")
    case True
    then show ?thesis
      using c(4) dr drain_fill[of "r1\<lparr>sr_buf := p @ ?f, sr_ready := sr_ready r1 @ dn\<rparr>" "length ?f"]
      by (simp add: in_progress_def)
  next
    case False
    then have pt: "complete_section (p @ t')" "t' \<noteq> []"
      using assms(4) c(3,4) by (auto simp: list_all_append)
    have "length t' + length (concat rest') = length (concat rest) - (183 - length t)" by (rule c(5))
    then have "183 - length t < length (concat rest)" using pt(2) by (cases t') auto
    then have "length (concat dn @ p) = 183 - length t" using c(1) by (metis length_take min.absorb2 less_imp_le)
    then have "?f = []" using assms(2) by simp
    then show ?thesis
      using dr drain_partial[OF pt, of "r1\<lparr>sr_buf := p, sr_ready := sr_ready r1 @ dn\<rparr>"] False pt(1)
      by (simp add: in_progress_def)
  qed
  then show "in_progress r' p t'" "sr_ready r' = sr_ready r @ current b t @ dn"
    by (simp_all add: r1_def)
qed

lemma feed_plan:
  assumes "in_progress r b t" "list_all complete_section rest"
  shows "sr_ready (feed_units r (plan t rest)) = sr_ready r @ current b t @ rest"
  using assms
proof (induction t rest arbitrary: r b rule: plan.induct)
  case (1 t rest)
  consider (finished) "t = []" "rest = []" | (start) "rest \<noteq> []" "length t < 183"
    | (cont) "t \<noteq> []" "\<not> (rest \<noteq> [] \<and> length t < 183)" by fastforce
  then show ?case
  proof cases
    case finished
    then show ?thesis by (simp add: plan.simps)
  next
    case start
    obtain dn p t' rest' where c: "cut_sections (183 - length t) rest = (dn, p, t', rest')" by (metis prod_cases4)
    define r' where "r' = feed r (of_nat (length t) # fill 183 (t @ concat dn @ p)) True"
    have "list_all complete_section rest'" using 1(4) by (subst (asm) cut_spec(3)[OF c]) simp
    then have "sr_ready (feed_units r' (plan t' rest')) = sr_ready r' @ current p t' @ rest'"
      using 1(1)[OF _ _ c[symmetric] refl refl] start feed_start_unit(1)[OF 1(3) start(2,1) 1(4) c r'_def] by auto
    then show ?thesis
      using feed_start_unit(2)[OF 1(3) start(2,1) 1(4) c r'_def] start cut_spec(3,4)[OF c] c
      by (subst plan.simps) (auto simp: r'_def)
  next
    case cont
    have u: "plan t rest = (False, fill 184 (take 184 t)) # plan (drop 184 t) rest"
      using cont by (subst plan.simps) auto
    have b: "complete_section (b @ t)" "b \<noteq> []" "sr_buf r = b" using 1(3) cont(1) by (auto simp: in_progress_def)
    define r' where "r' = feed r (fill 184 (take 184 t)) False"
    have fu: "feed_units r (plan t rest) = feed_units r' (plan (drop 184 t) rest)" by (simp add: u r'_def)
    note IH = 1(2)[of r']
    show ?thesis
    proof (cases "184 < length t")
      case True
      then have r': "r' = r\<lparr>sr_buf := b @ take 184 t\<rparr>"
        using feed_continuation_more[OF b] by (simp add: r'_def feed_def fill_full)
      have "in_progress r' (b @ take 184 t) (drop 184 t)" using b by (simp add: in_progress_def r')
      then show ?thesis
        using IH[of "b @ take 184 t"] 1(4) cont True unfolding fu by (simp add: r')
    next
      case False
      then obtain j where r': "r' = r\<lparr>sr_buf := j, sr_ready := sr_ready r @ [b @ t]\<rparr>"
        using feed_continuation_last[OF b] by (auto simp: r'_def feed_def fill_def)
      have "in_progress r' [] (drop 184 t)" using False by (simp add: in_progress_def)
      then show ?thesis
        using IH[of "[]"] 1(4) cont False unfolding fu by (simp add: r')
    qed
  qed
qed

section \<open>The packetiser follows the plan\<close>

definition section_header :: "Pid \<Rightarrow> bool \<Rightarrow> u8 \<Rightarrow> TsHeader" where
  "section_header p us cc = \<lparr>tei = False, pusi = us, pid = p, scrambling = 0, has_adaptation = False,
     has_payload = True, continuity_counter = cc\<rparr>"

lemma build_packet_eq:
  assumes "length chunk \<le> (if us then 183 else 184)"
  shows "build_packet p cc us ptr chunk =
    header_wire (section_header p us cc) @ (if us then ptr # fill 183 chunk else fill 184 chunk)"
proof -
  define hw where "hw = header_wire (section_header p us cc)"
  have hw: "length hw = 4" by (simp add: hw_def header_wire_def)
  have ser: "TsHeader_serialize_into (section_header p us cc) (take 4 (replicate 188 0)) = Inr (hw, 4)"
    by (simp add: TsHeader_serialize_into_def need_out_eq header_wire_def hw_def)
  have st: "(hw @ drop 4 (replicate 188 0), 4) = written hw (replicate 188 (0 :: u8))"
    using hw by (simp add: written_def)
  have "build_packet p cc us ptr chunk =
      (case written (hw @ (if us then [ptr] else []) @ chunk) (replicate 188 0) of (pkt, w) \<Rightarrow>
        take w pkt @ replicate (length pkt - w) STUFFING_BYTE)"
    unfolding build_packet_def Let_def section_header_def[symmetric] TS_PACKET_SIZE_def ser sum.case prod.case st
    by (cases us) (simp_all only: if_True if_False emit_written append_assoc append_Nil)
  then show ?thesis
    using assms hw by (simp add: written_def hw_def[symmetric] fill_def)
qed

fun packets_of :: "Pid \<Rightarrow> u8 \<Rightarrow> (bool \<times> bytes) list \<Rightarrow> bytes list" where
  "packets_of p cc [] = []"
| "packets_of p cc ((us, pl) # ups) =
     (header_wire (section_header p us cc) @ pl) # packets_of p ((cc + 1) AND CC_MASK) ups"

fun cc_after :: "u8 \<Rightarrow> nat \<Rightarrow> u8" where
  "cc_after cc 0 = cc"
| "cc_after cc (Suc n) = cc_after ((cc + 1) AND CC_MASK) n"

lemma section_starts_append:
  "section_starts n (xs @ ys) = section_starts n xs @ section_starts (n + length (concat xs)) ys"
  by (induction xs arbitrary: n) (simp_all add: add.assoc)

lemma length_section_starts [simp]: "length (section_starts n xs) = length xs"
  by (induction xs arbitrary: n) simp_all

lemma section_starts_less:
  "[] \<notin> set xs \<Longrightarrow> s \<in> set (section_starts n xs) \<Longrightarrow> s < n + length (concat xs)"
proof (induction xs arbitrary: n)
  case (Cons x xs)
  have "0 < length x" using Cons.prems(1) by auto
  then show ?case using Cons.IH[of "n + length x"] Cons.prems by auto
qed simp

lemma next_index_skip:
  assumes "i \<le> k" "\<And>j. j < k \<Longrightarrow> starts ! j < pos" "k \<le> length starts" "k < length starts \<Longrightarrow> pos \<le> starts ! k"
  shows "next_index starts pos i = k"
  using assms
proof (induction "k - i" arbitrary: i)
  case 0
  then have "i = k" by simp
  then show ?case using 0 by (subst next_index.simps) auto
next
  case (Suc n)
  then have "next_index starts pos (Suc i) = k" by (intro Suc.hyps(1)) auto
  moreover have "i < k" using Suc.hyps(2) by simp
  ultimately show ?case using Suc.prems by (subst next_index.simps) auto
qed

text \<open>
  Position \<open>pos\<close> in the data: the sections \<open>dn\<close> begin before it, \<open>t\<close> is what is left of them, \<open>rest\<close>
  are the sections that begin at or after it.
\<close>

definition at_pos :: "bytes list \<Rightarrow> nat \<Rightarrow> nat \<Rightarrow> bytes list \<Rightarrow> bytes \<Rightarrow> bytes list \<Rightarrow> bool" where
  "at_pos secs pos i dn t rest \<longleftrightarrow> secs = dn @ rest \<and> [] \<notin> set secs \<and> pos + length t = length (concat dn) \<and>
     drop pos (concat dn) = t \<and> (\<forall>s \<in> set (section_starts 0 dn). s < pos) \<and> i \<le> length dn"

lemma at_pos_next:
  assumes "at_pos secs pos i dn t rest"
  shows "next_index (section_starts 0 secs) pos i = length dn"
    "get_at (section_starts 0 secs) (length dn) = (if rest = [] then None else Some (pos + length t))"
    "drop pos (concat secs) = t @ concat rest" "length (concat secs) - pos = length t + length (concat rest)"
proof -
  note a = assms[unfolded at_pos_def]
  have st: "section_starts 0 secs = section_starts 0 dn @ section_starts (pos + length t) rest"
    using a by (simp add: section_starts_append)
  have nx: "section_starts 0 secs ! length dn = pos + length t" if "rest \<noteq> []"
    using that by (cases rest) (simp_all add: st nth_append)
  show "next_index (section_starts 0 secs) pos i = length dn"
  proof (rule next_index_skip)
    show "section_starts 0 secs ! j < pos" if "j < length dn" for j
    proof -
      have "section_starts 0 dn ! j \<in> set (section_starts 0 dn)" using that by simp
      then show ?thesis using a that unfolding st by (simp add: nth_append)
    qed
  qed (use a nx in auto)
  show "get_at (section_starts 0 secs) (length dn) = (if rest = [] then None else Some (pos + length t))"
    using nx a by (auto simp: get_at_def)
  have "pos \<le> length (concat dn)" using a by linarith
  then show d: "drop pos (concat secs) = t @ concat rest" using a by simp
  show "length (concat secs) - pos = length t + length (concat rest)"
    using arg_cong[OF d, of length] by (simp del: length_concat)
qed

lemma at_pos_continue:
  assumes "at_pos secs pos i dn t rest" "k \<le> length t"
  shows "at_pos secs (pos + k) (length dn) dn (drop k t) rest"
  using assms unfolding at_pos_def by (auto simp: drop_drop[symmetric] add.commute simp del: drop_drop)

lemma at_pos_start:
  assumes "at_pos secs pos i dn t rest" "cut_sections m rest = (dn2, p, t', rest')"
  shows "at_pos secs (pos + length (t @ concat dn2 @ p)) (length dn) (dn @ dn2 @ (if p = [] then [] else [p @ t'])) t' rest'"
proof -
  note a = assms(1)[unfolded at_pos_def] and c = cut_spec[OF assms(2)]
  define new where "new = dn2 @ (if p = [] then [] else [p @ t'])"
  have ne: "[] \<notin> set dn2" using a c(3) by auto
  have L: "pos + length t = length (concat dn)" using a by blast
  have len: "length (concat (dn @ new)) = pos + length (t @ concat dn2 @ p) + length t'"
    using L c(4) by (cases "p = []") (simp_all add: new_def del: length_concat)
  have dr: "drop (pos + length (t @ concat dn2 @ p)) (concat (dn @ new)) = t'"
  proof -
    have "concat (dn @ new) = (concat dn @ concat dn2 @ p) @ t'" using c(4) by (auto simp: new_def)
    moreover have "length (concat dn @ concat dn2 @ p) = pos + length (t @ concat dn2 @ p)"
      using L by (simp del: length_concat)
    ultimately show ?thesis by (metis append_eq_conv_conj)
  qed
  have starts: "s < pos + length (t @ concat dn2 @ p)" if "s \<in> set (section_starts 0 (dn @ new))" for s
  proof -
    have "section_starts 0 (dn @ new) = section_starts 0 dn @ section_starts (pos + length t) dn2
        @ (if p = [] then [] else [pos + length t + length (concat dn2)])"
      unfolding new_def section_starts_append L by simp
    with that consider "s \<in> set (section_starts 0 dn)" | "s \<in> set (section_starts (pos + length t) dn2)"
      | "p \<noteq> []" "s = pos + length t + length (concat dn2)"
      by (auto split: if_splits simp del: length_concat)
    then show ?thesis
    proof cases
      case 1
      then show ?thesis using a by (metis trans_less_add1)
    next
      case 2
      then have "s < pos + length t + length (concat dn2)" by (rule section_starts_less[OF ne])
      then show ?thesis by (simp del: length_concat)
    next
      case 3
      then show ?thesis by (simp del: length_concat)
    qed
  qed
  show ?thesis
    unfolding at_pos_def new_def[symmetric]
  proof (intro conjI)
    show "secs = (dn @ new) @ rest'" using a c(3) by (simp add: new_def)
  qed (use a len dr starts in auto)
qed

lemma packetise_loop_plan:
  assumes "at_pos secs pos i dn t rest"
  shows "packetise_loop (concat secs) (section_starts 0 secs) p pos i cc =
    (packets_of p cc (plan t rest), cc_after cc (length (plan t rest)))"
  using assms
proof (induction t rest arbitrary: pos i dn cc rule: plan.induct)
  case (1 t rest)
  note a = at_pos_next[OF 1(3)]
  have ne: "[] \<notin> set rest" using 1(3) by (auto simp: at_pos_def)
  consider (finished) "t = []" "rest = []" | (start) "rest \<noteq> []" "length t < 183"
    | (cont) "t \<noteq> []" "\<not> (rest \<noteq> [] \<and> length t < 183)" by fastforce
  then show ?case
  proof cases
    case finished
    then have "\<not> pos < length (concat secs)" using a(4) by (simp del: length_concat)
    then show ?thesis using finished by (subst packetise_loop.simps) (simp add: plan.simps)
  next
    case start
    obtain dn2 q t' rest' where c: "cut_sections (183 - length t) rest = (dn2, q, t', rest')" by (metis prod_cases4)
    define chunk where "chunk = t @ concat dn2 @ q"
    have "concat rest \<noteq> []" using start(1) ne by (cases rest) auto
    then have "0 < length t + length (concat rest)" by simp
    then have lt: "pos < length (concat secs)" using a(4) by linarith
    have tk: "chunk = take 183 (t @ concat rest)" using cut_spec(1)[OF c] start(2) by (simp add: chunk_def)
    then have len: "min (length (concat secs) - pos) 183 = length chunk" unfolding a(4) by (simp del: length_concat)
    have sl: "sub_slice (concat secs) pos (pos + length chunk) = chunk"
      unfolding sub_slice_def a(3) using tk by (metis add_diff_cancel_left' append_take_drop_id append_eq_conv_conj)
    have pl: "packet_plan (Some (pos + length t)) pos = (True, of_nat (length t), 183)"
      using start(2) by (simp add: packet_plan_def PUSI_PAYLOAD_CAP_def)
    have l183: "length chunk \<le> 183" using tk by simp
    have IH: "packetise_loop (concat secs) (section_starts 0 secs) p (pos + length chunk) (length dn) cc' =
        (packets_of p cc' (plan t' rest'), cc_after cc' (length (plan t' rest')))" for cc'
      using 1(1)[OF _ _ c[symmetric] refl refl refl at_pos_start[OF 1(3) c]] start by (auto simp: chunk_def)
    have "plan t rest = (True, of_nat (length t) # fill 183 chunk) # plan t' rest'"
      using start c by (subst plan.simps) (simp add: chunk_def)
    then show ?thesis
      using lt l183 start(1)
      by (subst packetise_loop.simps) (simp add: a(1,2) pl len sl IH build_packet_eq Let_def)
  next
    case cont
    define chunk where "chunk = take 184 t"
    have lt: "pos < length (concat secs)" using a(4) cont(1) by (cases t) (auto simp del: length_concat)
    obtain ptr where pl: "packet_plan (if rest = [] then None else Some (pos + length t)) pos =
        (False, ptr, if rest = [] then 184 else min 184 (length t))"
      using cont(2) by (auto simp: packet_plan_def PUSI_PAYLOAD_CAP_def PAYLOAD_CAP_def)
    have len: "min (length (concat secs) - pos) (if rest = [] then 184 else min 184 (length t)) = length chunk"
      unfolding a(4) by (cases "rest = []") (simp_all add: chunk_def del: length_concat)
    have sl: "sub_slice (concat secs) pos (pos + length chunk) = chunk"
      unfolding sub_slice_def a(3) by (simp add: chunk_def min_def)
    have l184: "length chunk \<le> 184" by (simp add: chunk_def)
    have IH: "packetise_loop (concat secs) (section_starts 0 secs) p (pos + length chunk) (length dn) cc' =
        (packets_of p cc' (plan (drop 184 t) rest), cc_after cc' (length (plan (drop 184 t) rest)))" for cc'
    proof -
      have "at_pos secs (pos + length chunk) (length dn) dn (drop (length chunk) t) rest"
        by (rule at_pos_continue[OF 1(3)]) (simp add: chunk_def)
      moreover have "drop (length chunk) t = drop 184 t" by (simp add: chunk_def min_def)
      ultimately show ?thesis using 1(2) cont by auto
    qed
    have "plan t rest = (False, fill 184 chunk) # plan (drop 184 t) rest"
      using cont by (subst plan.simps) (auto simp: chunk_def)
    then show ?thesis
      using lt l184
      by (subst packetise_loop.simps) (simp add: a(1,2) pl len sl IH build_packet_eq Let_def)
  qed
qed

text \<open>The packets of a batch.\<close>

lemma packetise_packets:
  assumes ne: "[] \<notin> set secs"
  shows "packetise sp secs = (sp\<lparr>sp_cc := cc_after (sp_cc sp) (length (plan [] secs))\<rparr>,
    packets_of (sp_pid sp) (sp_cc sp) (plan [] secs))"
proof (cases "secs = []")
  case True
  then show ?thesis by (cases sp) (simp add: packetise_def packetise_into_def plan.simps)
next
  case False
  have nz: "sum_list (map length secs) \<noteq> 0" using False ne by (cases secs) auto
  have "at_pos secs 0 0 [] [] secs" using ne by (simp add: at_pos_def)
  from packetise_loop_plan[OF this] show ?thesis
    unfolding packetise_def packetise_into_def Let_def if_not_P[OF False] if_not_P[OF nz] by simp
qed

end
