(* ===== verification/Si_Chain.thy ===== *)
theory Si_Chain
  imports Packetiser
begin

text \<open>
  The section chain end to end: packets built by \<open>SectionPacketiser\<close> are read back by
  \<open>iter_packets\<close>/\<open>TsPacket::parse\<close> and fed to a \<open>SectionReassembler\<close>; the scheduling of \<open>SiMux\<close>.
\<close>

section \<open>Packets of a plan\<close>

text \<open>Every payload of the plan fills its packet.\<close>

lemma plan_lengths: "list_all (\<lambda>(us, pl). length pl = 184) (plan t rest)"
proof (induction t rest rule: plan.induct)
  case (1 t rest)
  have cut: "length (t @ concat dn @ p) \<le> 183"
    if "cut_sections (183 - length t) rest = (dn, p, t', rest')" "length t < 183" for dn p t' rest'
  proof -
    have "length (concat dn @ p) \<le> 183 - length t" by (metis cut_spec(1)[OF that(1)] length_take min.cobounded2)
    then show ?thesis using that(2) by simp
  qed
  show ?case
    using 1 by (subst plan.simps) (auto split: prod.splits dest: cut)
qed

lemma plan_nonempty: "plan t rest = [] \<longleftrightarrow> t = [] \<and> rest = []"
  by (subst plan.simps) (auto split: prod.splits)

lemma wf_section_header:
  "wf_pid p \<Longrightarrow> cc AND CC_MASK = cc \<Longrightarrow> wf_header (section_header p us cc)"
  by (simp add: wf_header_def section_header_def)

lemma parse_section_packet:
  assumes "wf_pid p" "cc AND CC_MASK = cc" "length pl = 184"
  shows "\<exists>q. TsPacket_parse (header_wire (section_header p us cc) @ pl) = Inr q \<and>
    header q = section_header p us cc \<and> payload q = Some pl"
proof -
  define buf where "buf = header_wire (section_header p us cc) @ pl"
  have "length buf = 188" "buf ! 0 = TS_SYNC_BYTE" using assms(3) by (simp_all add: buf_def header_wire_def)
  then obtain q where q: "TsPacket_parse buf = Inr q"
    using TsPacket_parse_Ok_iff[of buf] by (auto simp: TS_PACKET_SIZE_def)
  note parts = TsPacket_parse_parts[OF q]
  have rw: "raw q = buf" using parts(1) \<open>length buf = 188\<close> by simp
  have h: "header q = section_header p us cc"
    using parts(4) TsHeader_parse_wire[OF wf_section_header[OF assms(1,2)]] unfolding rw by (simp add: buf_def)
  have "payload q = Some pl"
    using parts(5) unfolding h rw by (simp add: section_header_def adaptation_field_skip_def buf_def header_wire_def)
  then show ?thesis using q h by (auto simp: buf_def)
qed

section \<open>Receiving\<close>

text \<open>What a receiver of one PID does with the packets of a buffer.\<close>

fun feed_packets :: "SectionReassembler \<Rightarrow> TsPacket list \<Rightarrow> SectionReassembler" where
  "feed_packets r [] = r"
| "feed_packets r (p # ps) =
     feed_packets (case payload p of None \<Rightarrow> r | Some pl \<Rightarrow> feed r pl (pusi (header p))) ps"

definition cc_step :: "u8 \<Rightarrow> u8" where "cc_step cc = (cc + 1) AND CC_MASK"

lemma cc_step_masked [simp]: "cc_step cc AND CC_MASK = cc_step cc"
  by (simp add: cc_step_def and.assoc)

fun cc_run :: "u8 \<Rightarrow> nat \<Rightarrow> u8 list" where
  "cc_run cc 0 = []"
| "cc_run cc (Suc n) = cc # cc_run (cc_step cc) n"

lemma packets_of_parse:
  assumes "wf_pid p" "cc AND CC_MASK = cc" "list_all (\<lambda>(us, pl). length pl = 184) ups"
  shows "\<exists>qs. list_all2 (\<lambda>c q. TsPacket_parse c = Inr q \<and> length c = 188) (packets_of p cc ups) qs \<and>
    (\<forall>r. feed_packets r qs = feed_units r ups) \<and> (\<forall>q \<in> set qs. pid (header q) = p) \<and>
    map (\<lambda>q. continuity_counter (header q)) qs = cc_run cc (length ups)"
  using assms(2,3)
proof (induction ups arbitrary: cc)
  case (Cons up ups)
  obtain us pl where up: "up = (us, pl)" by (cases up)
  from Cons.prems obtain q where q: "TsPacket_parse (header_wire (section_header p us cc) @ pl) = Inr q"
      "header q = section_header p us cc" "payload q = Some pl"
    using parse_section_packet[OF assms(1)] by (fastforce simp: up)
  obtain qs where qs: "list_all2 (\<lambda>c q. TsPacket_parse c = Inr q \<and> length c = 188) (packets_of p (cc_step cc) ups) qs"
      "\<forall>r. feed_packets r qs = feed_units r ups" "\<forall>q \<in> set qs. pid (header q) = p"
      "map (\<lambda>q. continuity_counter (header q)) qs = cc_run (cc_step cc) (length ups)"
    using Cons.IH[of "cc_step cc"] Cons.prems(2) by auto
  have "length (header_wire (section_header p us cc) @ pl) = 188"
    using Cons.prems(2) by (simp add: up header_wire_def)
  then show ?case
    using q qs by (intro exI[of _ "q # qs"]) (simp add: up cc_step_def[symmetric] section_header_def)
qed simp

lemma cc_after_masked: "cc AND CC_MASK = cc \<Longrightarrow> cc_after cc n AND CC_MASK = cc_after cc n"
  by (induction n arbitrary: cc) (simp_all add: cc_step_def[symmetric])

lemma cc_run_append: "cc_run cc (m + n) = cc_run cc m @ cc_run (cc_after cc m) n"
  by (induction m arbitrary: cc) (simp_all add: cc_step_def)

lemma length_packets_of [simp]: "length (packets_of p cc ups) = length ups"
  by (induction p cc ups rule: packets_of.induct) simp_all

text \<open>
  The packets of a batch of non-empty sections: they parse, carry the PID and consecutive counters,
  and a reassembler fed with them reads complete sections back unchanged and in order.
\<close>

abbreviation parsed_as :: "bytes list \<Rightarrow> TsPacket list \<Rightarrow> bool" where
  "parsed_as \<equiv> list_all2 (\<lambda>c q. TsPacket_parse c = Inr q \<and> length c = 188)"

abbreviation counters :: "TsPacket list \<Rightarrow> u8 list" where
  "counters qs \<equiv> map (\<lambda>q. continuity_counter (header q)) qs"

lemma packetise_received:
  assumes "[] \<notin> set secs" "wf_pid (sp_pid sp)" "sp_cc sp AND CC_MASK = sp_cc sp"
    and "packetise sp secs = (sp', pkts)"
  shows "\<exists>qs. parsed_as pkts qs \<and> (\<forall>q \<in> set qs. pid (header q) = sp_pid sp) \<and>
      counters qs = cc_run (sp_cc sp) (length pkts) \<and>
      sp' = sp\<lparr>sp_cc := cc_after (sp_cc sp) (length pkts)\<rparr> \<and>
      (list_all complete_section secs \<longrightarrow> (\<forall>r. sr_ready (feed_packets r qs) = sr_ready r @ secs))"
proof -
  let ?u = "plan [] secs"
  have pk: "pkts = packets_of (sp_pid sp) (sp_cc sp) ?u" "sp' = sp\<lparr>sp_cc := cc_after (sp_cc sp) (length ?u)\<rparr>"
    using packetise_packets[OF assms(1), of sp] assms(4) by simp_all
  obtain qs where qs: "parsed_as pkts qs"
      "\<forall>r. feed_packets r qs = feed_units r ?u" "\<forall>q \<in> set qs. pid (header q) = sp_pid sp"
      "counters qs = cc_run (sp_cc sp) (length ?u)"
    using packets_of_parse[OF assms(2,3) plan_lengths] unfolding pk(1) by blast
  have "sr_ready (feed_packets r qs) = sr_ready r @ secs" if "list_all complete_section secs" for r
    using feed_plan[OF _ that, of r "[]" "[]"] qs(2) by (simp add: in_progress_def)
  then show ?thesis using qs pk by auto
qed

lemma split_sections_concat:
  "list_all complete_section secs \<Longrightarrow> split_sections (concat secs) = secs"
proof (induction secs)
  case Nil
  then show ?case by (subst split_sections.simps) (simp add: section_total_len_None[THEN iffD2])
next
  case (Cons s ss)
  then have "3 \<le> length s" "section_total_len s = Some (length s)"
    using complete_section_length[of s] by (simp_all add: complete_section_def)
  then have "section_total_len (s @ concat ss) = Some (length s)" by (simp add: section_total_len_prefix)
  then show ?case using Cons by (subst split_sections.simps) simp
qed

lemma split_sections_nonempty: "[] \<notin> set (split_sections xs)"
proof (induction xs rule: split_sections.induct)
  case (1 xs)
  show ?case
  proof (cases "section_total_len xs")
    case (Some n)
    then have "3 \<le> n" using section_total_len_Some by blast
    then show ?thesis using 1[OF Some] Some by (subst split_sections.simps) auto
  qed (subst split_sections.simps, simp)
qed

section \<open>Scheduling\<close>

text \<open>The counter the multiplexer will use next on a PID.\<close>

fun cc_of :: "SectionPacketiser list \<Rightarrow> Pid \<Rightarrow> u8" where
  "cc_of [] p = 0"
| "cc_of (sp # ps) p = (if sp_pid sp = p then sp_cc sp else cc_of ps p)"

lemma cc_of_position:
  assumes "position (\<lambda>sp. sp_pid sp = p) ps = Some i"
  shows "cc_of ps p = sp_cc (ps ! i)"
    "cc_of (ps[i := (ps ! i)\<lparr>sp_cc := c\<rparr>]) = (cc_of ps)(p := c)"
proof -
  show "cc_of ps p = sp_cc (ps ! i)"
    using assms by (induction ps arbitrary: i) (auto split: if_splits)
  show "cc_of (ps[i := (ps ! i)\<lparr>sp_cc := c\<rparr>]) = (cc_of ps)(p := c)"
    using assms
  proof (induction ps arbitrary: i)
    case (Cons sp ps)
    show ?case
    proof (cases "sp_pid sp = p")
      case False
      then obtain k where "position (\<lambda>sp. sp_pid sp = p) ps = Some k" "i = Suc k" using Cons.prems by auto
      then show ?thesis using Cons.IH[of k] False by (auto simp: fun_eq_iff)
    qed (use Cons.prems in \<open>auto simp: fun_eq_iff\<close>)
  qed simp
qed

lemma cc_of_absent:
  assumes "position (\<lambda>sp. sp_pid sp = p) ps = None"
  shows "cc_of ps p = 0" "cc_of (ps @ [\<lparr>sp_pid = p, sp_cc = c\<rparr>]) = (cc_of ps)(p := c)"
proof -
  show "cc_of ps p = 0" using assms by (induction ps) (auto split: if_splits)
  show "cc_of (ps @ [\<lparr>sp_pid = p, sp_cc = c\<rparr>]) = (cc_of ps)(p := c)"
    using assms
  proof (induction ps)
    case (Cons sp ps)
    then have "sp_pid sp \<noteq> p" "position (\<lambda>sp. sp_pid sp = p) ps = None" by (auto split: if_splits)
    then show ?case using Cons.IH by (auto simp: fun_eq_iff)
  qed (simp add: fun_eq_iff)
qed

text \<open>Lending out a packetiser and writing it back changes the counter of its PID only.\<close>

lemma packetiser_for_spec:
  assumes "packetiser_for ps p = (ps', i)"
  shows "sp_pid (ps' ! i) = p" "sp_cc (ps' ! i) = cc_of ps p"
    "cc_of (ps'[i := (ps' ! i)\<lparr>sp_cc := c\<rparr>]) = (cc_of ps)(p := c)"
  using assms position_Some[of "\<lambda>sp. sp_pid sp = p" ps i]
  by (auto simp: packetiser_for_def SectionPacketiser_new_def nth_append cc_of_position cc_of_absent
      split: option.splits)


text \<open>The sections a poll emits for one entry, and the sections emitted on one PID.\<close>

definition emission :: "nat \<Rightarrow> Entry \<Rightarrow> bytes list" where
  "emission now e = (if entry_due now e then split_sections (e_sections e) else [])"

abbreviation on_pid :: "Pid \<Rightarrow> TsPacket list \<Rightarrow> TsPacket list" where
  "on_pid p qs \<equiv> filter (\<lambda>q. pid (header q) = p) qs"

definition emission_on :: "Pid \<Rightarrow> nat \<Rightarrow> Entry list \<Rightarrow> bytes list" where
  "emission_on p now es = concat (map (emission now) (filter (\<lambda>e. e_pid e = p) es))"

text \<open>
  What emitting \<open>secs\<close> on \<open>p\<close> guarantees about the packets of that PID: consecutive counters from
  where the PID stood, and the sections received back.
\<close>

definition carries :: "TsPacket list \<Rightarrow> u8 \<Rightarrow> u8 \<Rightarrow> bytes list \<Rightarrow> bool" where
  "carries qs cc cc' secs \<longleftrightarrow> counters qs = cc_run cc (length qs) \<and> cc' = cc_after cc (length qs) \<and>
     (list_all complete_section secs \<longrightarrow> (\<forall>r. sr_ready (feed_packets r qs) = sr_ready r @ secs))"

lemma feed_packets_append: "feed_packets r (ps @ qs) = feed_packets (feed_packets r ps) qs"
  by (induction ps arbitrary: r) simp_all

lemma cc_after_add: "cc_after cc (m + n) = cc_after (cc_after cc m) n"
  by (induction m arbitrary: cc) simp_all

lemma carries_Nil: "carries [] cc cc []"
  by (simp add: carries_def)

lemma carries_append:
  "carries qs cc cc1 secs \<Longrightarrow> carries qs' cc1 cc2 secs' \<Longrightarrow> carries (qs @ qs') cc cc2 (secs @ secs')"
  by (simp add: carries_def cc_run_append cc_after_add feed_packets_append)

lemma poll_entry_emits:
  assumes "poll_entry now ps e = (ps', out, e')" "wf_pid (e_pid e)" "\<forall>p. cc_of ps p AND CC_MASK = cc_of ps p"
  shows "\<exists>qs c. parsed_as out qs \<and> (\<forall>q \<in> set qs. pid (header q) = e_pid e) \<and>
      carries qs (cc_of ps (e_pid e)) c (emission now e) \<and> cc_of ps' = (cc_of ps)(e_pid e := c) \<and>
      c AND CC_MASK = c \<and> e' = (if entry_due now e then e\<lparr>e_last_emit := Some now\<rparr> else e)"
proof (cases "emission now e = []")
  case True
  then have "ps' = ps" "out = []" "e' = (if entry_due now e then e\<lparr>e_last_emit := Some now\<rparr> else e)"
    using assms(1) by (auto simp: poll_entry_def emission_def split: if_splits)
  then show ?thesis
    using True assms(3) carries_Nil by (intro exI[of _ "[]"] exI[of _ "cc_of ps (e_pid e)"]) simp
next
  case False
  then have due: "entry_due now e" and em: "emission now e = split_sections (e_sections e)"
    by (auto simp: emission_def split: if_splits)
  obtain ps1 i where pf: "packetiser_for ps (e_pid e) = (ps1, i)" by (cases "packetiser_for ps (e_pid e)")
  note spec = packetiser_for_spec[OF pf]
  obtain sp n where pi: "packetise_into (ps1 ! i) (emission now e) = (sp, out, n)" "ps' = ps1[i := sp]"
      "e' = e\<lparr>e_last_emit := Some now\<rparr>"
    using assms(1) due False pf unfolding em by (auto simp: poll_entry_def split: prod.splits)
  have pk: "packetise (ps1 ! i) (emission now e) = (sp, out)" by (simp add: packetise_def pi(1))
  have "[] \<notin> set (emission now e)" unfolding em by (rule split_sections_nonempty)
  then obtain qs where qs: "parsed_as out qs" "\<forall>q \<in> set qs. pid (header q) = e_pid e"
      "counters qs = cc_run (cc_of ps (e_pid e)) (length out)"
      "sp = (ps1 ! i)\<lparr>sp_cc := cc_after (cc_of ps (e_pid e)) (length out)\<rparr>"
      "list_all complete_section (emission now e) \<longrightarrow> (\<forall>r. sr_ready (feed_packets r qs) = sr_ready r @ emission now e)"
    using packetise_received[OF _ _ _ pk] assms(2,3) spec by auto
  have l: "length out = length qs" using qs(1) by (rule list_all2_lengthD)
  have "carries qs (cc_of ps (e_pid e)) (cc_after (cc_of ps (e_pid e)) (length qs)) (emission now e)"
    using qs(3,5) by (simp add: carries_def l)
  moreover have "cc_of ps' = (cc_of ps)(e_pid e := cc_after (cc_of ps (e_pid e)) (length qs))"
    using spec(3) by (simp add: pi(2) qs(4) l)
  ultimately show ?thesis
    using qs(1,2) pi(3) due cc_after_masked assms(3)
    by (intro exI[of _ qs] exI[of _ "cc_after (cc_of ps (e_pid e)) (length qs)"]) simp
qed

lemma poll_entries_emit:
  assumes "poll_entries now ps es = (ps', out, es')" "list_all (\<lambda>e. wf_pid (e_pid e)) es"
    and "\<forall>p. cc_of ps p AND CC_MASK = cc_of ps p"
  shows "\<exists>qs. parsed_as out qs \<and> (\<forall>p. carries (on_pid p qs) (cc_of ps p) (cc_of ps' p) (emission_on p now es)) \<and>
      (\<forall>p. cc_of ps' p AND CC_MASK = cc_of ps' p) \<and>
      es' = map (\<lambda>e. if entry_due now e then e\<lparr>e_last_emit := Some now\<rparr> else e) es"
  using assms
proof (induction es arbitrary: ps ps' out es')
  case Nil
  then show ?case by (simp add: emission_on_def carries_Nil)
next
  case (Cons e es)
  obtain ps1 out1 e1 where p1: "poll_entry now ps e = (ps1, out1, e1)" by (metis prod_cases3)
  obtain ps2 out2 es2 where p2: "poll_entries now ps1 es = (ps2, out2, es2)" by (metis prod_cases3)
  have eq: "ps' = ps2" "out = out1 @ out2" "es' = e1 # es2" using Cons.prems(1) by (auto simp: p1 p2)
  obtain qs1 c where q1: "parsed_as out1 qs1" "\<forall>q \<in> set qs1. pid (header q) = e_pid e"
      "carries qs1 (cc_of ps (e_pid e)) c (emission now e)" "cc_of ps1 = (cc_of ps)(e_pid e := c)"
      "c AND CC_MASK = c" "e1 = (if entry_due now e then e\<lparr>e_last_emit := Some now\<rparr> else e)"
    using poll_entry_emits[OF p1 _ Cons.prems(3)] Cons.prems(2) by auto
  have m1: "\<forall>p. cc_of ps1 p AND CC_MASK = cc_of ps1 p" using q1(4,5) Cons.prems(3) by simp
  have wf: "list_all (\<lambda>e. wf_pid (e_pid e)) es" using Cons.prems(2) by simp
  obtain qs2 where q2: "parsed_as out2 qs2"
      "\<forall>p. carries (on_pid p qs2) (cc_of ps1 p) (cc_of ps2 p) (emission_on p now es)"
      "\<forall>p. cc_of ps2 p AND CC_MASK = cc_of ps2 p"
      "es2 = map (\<lambda>e. if entry_due now e then e\<lparr>e_last_emit := Some now\<rparr> else e) es"
    using Cons.IH[OF p2 wf m1] by blast
  have "carries (on_pid p (qs1 @ qs2)) (cc_of ps p) (cc_of ps2 p) (emission_on p now (e # es))" for p
  proof (cases "p = e_pid e")
    case True
    then have "on_pid p qs1 = qs1" using q1(2) by (simp add: filter_id_conv)
    moreover have "carries (on_pid p qs2) c (cc_of ps2 p) (emission_on p now es)"
      using q2(2)[rule_format, of p] q1(4) True by simp
    ultimately show ?thesis using True carries_append[OF q1(3)] by (simp add: emission_on_def)
  next
    case False
    then have "on_pid p qs1 = []" using q1(2) by (simp add: filter_empty_conv)
    then show ?thesis using False q2(2)[rule_format, of p] q1(4) by (simp add: emission_on_def)
  qed
  then show ?case
    using q1 q2 unfolding eq by (intro exI[of _ "qs1 @ qs2"]) (simp add: list_all2_appendI)
qed

text \<open>The multiplexer's invariant, and its runs with everything they emitted.\<close>

definition mux_inv :: "SiMux \<Rightarrow> bool" where
  "mux_inv m \<longleftrightarrow> list_all (\<lambda>e. wf_pid (e_pid e)) (mux_entries m) \<and>
     (\<forall>p. cc_of (mux_packetisers m) p AND CC_MASK = cc_of (mux_packetisers m) p) \<and>
     distinct (map (\<lambda>e. (e_pid e, e_table_id e)) (mux_entries m))"

inductive mux_run :: "SiMux \<Rightarrow> bytes list \<Rightarrow> bool" where
  start: "mux_run SiMux_new []"
| upsert: "mux_run m sent \<Longrightarrow> wf_pid p \<Longrightarrow> mux_run (upsert m p sections interval) sent"
| poll: "mux_run m sent \<Longrightarrow> poll_into m now = (m', out, n) \<Longrightarrow> mux_run m' (sent @ out)"

lemma upsert_inv:
  assumes "mux_inv m" "wf_pid p"
  shows "mux_inv (upsert m p sections interval)"
proof (cases "position (\<lambda>e. e_pid e = p \<and> e_table_id e = table_id_of sections) (mux_entries m)")
  case None
  then have "(p, table_id_of sections) \<notin> (\<lambda>e. (e_pid e, e_table_id e)) ` set (mux_entries m)"
    by (auto simp: position_None)
  then show ?thesis using assms None by (simp add: mux_inv_def upsert_def Let_def)
next
  case (Some i)
  let ?e = "(mux_entries m ! i)\<lparr>e_sections := sections, e_interval := interval\<rparr>"
  have i: "i < length (mux_entries m)" using position_Some[OF Some] by simp
  then have "map (\<lambda>e. (e_pid e, e_table_id e)) ((mux_entries m)[i := ?e])
      = map (\<lambda>e. (e_pid e, e_table_id e)) (mux_entries m)"
    by (simp add: map_update list_update_same_conv)
  moreover have "list_all (\<lambda>e. wf_pid (e_pid e)) ((mux_entries m)[i := ?e])"
    using assms(1) i by (auto simp: mux_inv_def list_all_length nth_list_update)
  ultimately show ?thesis using assms(1) Some by (simp add: mux_inv_def upsert_def Let_def)
qed

lemma poll_into_emits:
  assumes "poll_into m now = (m', out, n)" "mux_inv m"
  shows "\<exists>qs. parsed_as out qs \<and> mux_inv m' \<and>
      (\<forall>p. carries (on_pid p qs) (cc_of (mux_packetisers m) p) (cc_of (mux_packetisers m') p)
        (emission_on p now (mux_entries m))) \<and>
      mux_entries m' = map (\<lambda>e. if entry_due now e then e\<lparr>e_last_emit := Some now\<rparr> else e) (mux_entries m)"
proof -
  obtain ps es where pe: "poll_entries now (mux_packetisers m) (mux_entries m) = (ps, out, es)"
      "m' = m\<lparr>mux_entries := es, mux_packetisers := ps\<rparr>"
    using assms(1) by (auto simp: poll_into_def split: prod.splits)
  obtain qs where qs: "parsed_as out qs"
      "\<forall>p. carries (on_pid p qs) (cc_of (mux_packetisers m) p) (cc_of ps p) (emission_on p now (mux_entries m))"
      "\<forall>p. cc_of ps p AND CC_MASK = cc_of ps p"
      "es = map (\<lambda>e. if entry_due now e then e\<lparr>e_last_emit := Some now\<rparr> else e) (mux_entries m)"
    using poll_entries_emit[OF pe(1)] assms(2) by (auto simp: mux_inv_def)
  have "map (\<lambda>e. (e_pid e, e_table_id e)) es = map (\<lambda>e. (e_pid e, e_table_id e)) (mux_entries m)"
    by (simp add: qs(4))
  moreover have "list_all (\<lambda>e. wf_pid (e_pid e)) es"
    using assms(2) by (auto simp: mux_inv_def qs(4) list_all_iff)
  ultimately have "mux_inv m'" using assms(2) qs(3) by (simp only: mux_inv_def pe(2)) simp
  then show ?thesis using qs by (intro exI[of _ qs]) (simp add: pe(2))
qed

lemma mux_run_spec:
  assumes "mux_run m sent"
  shows "mux_inv m \<and> (\<exists>qs. parsed_as sent qs \<and>
    (\<forall>p. counters (on_pid p qs) = cc_run 0 (length (on_pid p qs)) \<and>
      cc_of (mux_packetisers m) p = cc_after 0 (length (on_pid p qs))))"
  using assms
proof (induction rule: mux_run.induct)
  case start
  then show ?case by (simp add: mux_inv_def SiMux_new_def)
next
  case (upsert m sent p sections interval)
  have "mux_packetisers (upsert m p sections interval) = mux_packetisers m"
    by (simp add: upsert_def Let_def split: option.splits)
  then show ?case using upsert upsert_inv by simp
next
  case (poll m sent now m' out n)
  then obtain qs where qs: "parsed_as sent qs" "\<forall>p. counters (on_pid p qs) = cc_run 0 (length (on_pid p qs))"
      "\<forall>p. cc_of (mux_packetisers m) p = cc_after 0 (length (on_pid p qs))" "mux_inv m" by blast
  obtain qs' where qs': "parsed_as out qs'" "mux_inv m'"
      "\<forall>p. carries (on_pid p qs') (cc_of (mux_packetisers m) p) (cc_of (mux_packetisers m') p)
        (emission_on p now (mux_entries m))"
    using poll_into_emits[OF poll(2) qs(4)] by blast
  have "parsed_as (sent @ out) (qs @ qs')" using qs(1) qs'(1) by (rule list_all2_appendI)
  moreover have "counters (on_pid p (qs @ qs')) = cc_run 0 (length (on_pid p (qs @ qs'))) \<and>
      cc_of (mux_packetisers m') p = cc_after 0 (length (on_pid p (qs @ qs')))" for p
    using qs(2,3) qs'(3) by (simp add: carries_def cc_run_append cc_after_add)
  ultimately show ?case using qs'(2) by blast
qed


section \<open>Properties\<close>

lemma cc_run_nth: "i < n \<Longrightarrow> cc_run cc n ! i = cc_after cc i"
  by (induction n arbitrary: i cc) (auto simp: nth_Cons cc_step_def split: nat.splits)

lemma cc_after_eq: "cc AND CC_MASK = cc \<Longrightarrow> cc_after cc n = (cc + of_nat n) AND CC_MASK"
proof (induction n arbitrary: cc)
  case (Suc n)
  have "cc_after cc (Suc n) = (((cc + 1) AND CC_MASK) + of_nat n) AND CC_MASK"
    using Suc.IH[of "cc_step cc"] by (simp add: cc_step_def)
  also have "\<dots> = (cc + 1 + of_nat n) AND CC_MASK"
  proof -
    have m: "CC_MASK = mask 4" by (simp add: CC_MASK_def mask_eq_exp_minus_1)
    show ?thesis unfolding m by (rule mask_eqs)
  qed
  finally show ?case by (simp add: add.assoc)
qed simp

text \<open>
  C1: sections cut into packets are reassembled. Packetising a batch of complete sections gives
  188-byte packets that all parse, all carry the packetiser's PID, and carry consecutive continuity
  counters modulo 16 that continue in the packetiser; feeding their payloads to a reassembler in any
  state appends exactly the batch, in order, to the sections it has ready.
\<close>

theorem packetise_reassemble:
  assumes "list_all complete_section secs" "wf_pid (sp_pid sp)" "sp_cc sp AND CC_MASK = sp_cc sp"
    and "packetise sp secs = (sp', pkts)"
  shows "list_all (\<lambda>c. length c = TS_PACKET_SIZE) pkts \<and>
    (let qs = iter_packets (concat pkts) in
      length qs = length pkts \<and>
      (\<forall>i < length qs. pid (header (qs ! i)) = sp_pid sp \<and>
        continuity_counter (header (qs ! i)) = (sp_cc sp + of_nat i) AND CC_MASK) \<and>
      sp_cc sp' = (sp_cc sp + of_nat (length qs)) AND CC_MASK \<and>
      sr_ready (feed_packets r qs) = sr_ready r @ secs)"
proof -
  have "[] \<notin> set secs" using assms(1) complete_section_length by (auto simp: list_all_iff)
  then obtain qs where qs: "parsed_as pkts qs" "\<forall>q \<in> set qs. pid (header q) = sp_pid sp"
      "counters qs = cc_run (sp_cc sp) (length pkts)" "sp' = sp\<lparr>sp_cc := cc_after (sp_cc sp) (length pkts)\<rparr>"
      "sr_ready (feed_packets r qs) = sr_ready r @ secs"
    using packetise_received[OF _ assms(2-4)] assms(1) by blast
  have it: "iter_packets (concat pkts) = qs" using iter_packets_concat[OF qs(1), of "[]"] by simp
  have l: "length pkts = length qs" using qs(1) by (rule list_all2_lengthD)
  have "continuity_counter (header (qs ! i)) = (sp_cc sp + of_nat i) AND CC_MASK" if "i < length qs" for i
    using arg_cong[OF qs(3), of "\<lambda>xs. xs ! i"] that by (simp add: cc_run_nth l cc_after_eq[OF assms(3)])
  moreover have "list_all (\<lambda>c. length c = TS_PACKET_SIZE) pkts"
    using qs(1) by (auto simp: list_all2_conv_all_nth list_all_length TS_PACKET_SIZE_def)
  ultimately show ?thesis
    using qs(2,5) unfolding it Let_def by (simp add: l qs(4) cc_after_eq[OF assms(3)])
qed

lemma example_sections:
  "list_all complete_section [[0x42, 0xF0, 0x01, 0xAA], [0x46, 0xF0, 0x00]]"
  by (simp add: complete_section_def section_total_len_def SECTION_HEADER_LEN_def SECTION_LENGTH_HI_MASK_def
      STUFFING_BYTE_def Let_def)

theorem packetise_reassemble_witness:
  "let qs = iter_packets (concat (snd (packetise (with_continuity (Pid_new 0x11) 15)
      [[0x42, 0xF0, 0x01, 0xAA], [0x46, 0xF0, 0x00]]))) in
    sr_ready (feed_packets SectionReassembler_default qs) = [[0x42, 0xF0, 0x01, 0xAA], [0x46, 0xF0, 0x00]]"
proof -
  obtain sp' pkts where p: "packetise (with_continuity (Pid_new 0x11) 15)
      [[0x42, 0xF0, 0x01, 0xAA], [0x46, 0xF0, 0x00]] = (sp', pkts)" by (metis surj_pair)
  show ?thesis
    unfolding p snd_conv
    using packetise_reassemble[OF example_sections _ _ p, of SectionReassembler_default]
    by (simp add: with_continuity_def CC_MASK_def SectionReassembler_default_def Let_def)
qed

text \<open>
  C23: every run of the multiplexer. Whatever tables are registered and whenever it is polled, all
  packets it ever emitted parse, and on each PID their continuity counters are 0, 1, 2, ... modulo 16
  without a gap, across polls, across tables that share the PID and across table updates.
\<close>

theorem mux_continuity:
  assumes "mux_run m sent" "qs = iter_packets (concat sent)"
  shows "length qs = length sent \<and> (\<forall>i < length (on_pid p qs).
    continuity_counter (header (on_pid p qs ! i)) = of_nat i AND CC_MASK)"
proof -
  obtain ps where ps: "parsed_as sent ps" "counters (on_pid p ps) = cc_run 0 (length (on_pid p ps))"
    using mux_run_spec[OF assms(1)] by blast
  have qs: "qs = ps" unfolding assms(2) using iter_packets_concat[OF ps(1), of "[]"] by simp
  have "continuity_counter (header (on_pid p qs ! i)) = of_nat i AND CC_MASK" if "i < length (on_pid p qs)" for i
    using arg_cong[OF ps(2), of "\<lambda>xs. xs ! i"] that by (simp add: qs cc_run_nth cc_after_eq)
  then show ?thesis using list_all2_lengthD[OF ps(1)] by (simp add: qs)
qed

definition example_mux :: SiMux where
  "example_mux = upsert SiMux_new (Pid_new 0x11) (concat [[0x42, 0xF0, 0x01, 0xAA], [0x46, 0xF0, 0x00]]) 5"

lemma example_mux_run: "mux_run example_mux []"
  unfolding example_mux_def by (rule mux_run.intros(2)[OF mux_run.start]) simp

lemma example_emission:
  "emission_on (Pid_new 0x11) 7 (mux_entries example_mux) = [[0x42, 0xF0, 0x01, 0xAA], [0x46, 0xF0, 0x00]]"
proof -
  have "split_sections [0x42, 0xF0, 0x01, 0xAA, 0x46, 0xF0, 0x00] = [[0x42, 0xF0, 0x01, 0xAA], [0x46, 0xF0, 0x00]]"
    using split_sections_concat[OF example_sections] by simp
  then show ?thesis
    by (simp add: emission_on_def example_mux_def upsert_def SiMux_new_def emission_def entry_due_def Let_def)
qed

theorem mux_continuity_witness:
  "let out = fst (snd (poll_into example_mux 7)); qs = iter_packets (concat out) in
    length qs = length out \<and> (\<forall>i < length (on_pid (Pid_new 0x11) qs).
      continuity_counter (header (on_pid (Pid_new 0x11) qs ! i)) = of_nat i AND CC_MASK)"
proof -
  obtain m out n where p: "poll_into example_mux 7 = (m, out, n)" by (metis prod_cases3)
  show ?thesis
    using mux_continuity[OF mux_run.poll[OF example_mux_run p] refl] by (simp add: p)
qed

text \<open>
  C22: a poll delivers what is due and nothing else. Polling at \<open>now\<close> emits, on each PID, packets from
  which a reassembler of that PID recovers exactly the sections of the entries of the PID that are
  due, in registration order; due entries are stamped with \<open>now\<close>, the others are untouched, so an
  entry is due again exactly when its interval has passed since its last emission.
\<close>

theorem poll_delivers_due:
  assumes "mux_run m sent" "poll_into m now = (m', out, n)"
    and "list_all complete_section (emission_on p now (mux_entries m))"
  shows "n = length out \<and> list_all (\<lambda>c. length c = TS_PACKET_SIZE) out \<and>
    sr_ready (feed_packets r (on_pid p (iter_packets (concat out)))) =
      sr_ready r @ emission_on p now (mux_entries m) \<and>
    mux_entries m' = map (\<lambda>e. if entry_due now e then e\<lparr>e_last_emit := Some now\<rparr> else e) (mux_entries m) \<and>
    (\<forall>e \<in> set (mux_entries m). entry_due now e \<longrightarrow>
      (\<forall>later. entry_due later (e\<lparr>e_last_emit := Some now\<rparr>) \<longleftrightarrow> later - now \<ge> e_interval e))"
proof -
  obtain qs where qs: "parsed_as out qs"
      "carries (on_pid p qs) (cc_of (mux_packetisers m) p) (cc_of (mux_packetisers m') p)
        (emission_on p now (mux_entries m))"
      "mux_entries m' = map (\<lambda>e. if entry_due now e then e\<lparr>e_last_emit := Some now\<rparr> else e) (mux_entries m)"
    using poll_into_emits[OF assms(2)] mux_run_spec[OF assms(1)] by blast
  have it: "iter_packets (concat out) = qs" using iter_packets_concat[OF qs(1), of "[]"] by simp
  have "list_all (\<lambda>c. length c = TS_PACKET_SIZE) out"
    using qs(1) by (auto simp: list_all2_conv_all_nth list_all_length TS_PACKET_SIZE_def)
  moreover have "n = length out" using assms(2) by (auto simp: poll_into_def split: prod.splits)
  moreover have "sr_ready (feed_packets r (on_pid p qs)) = sr_ready r @ emission_on p now (mux_entries m)"
    using qs(2) assms(3) by (simp add: carries_def)
  ultimately show ?thesis unfolding it using qs(3) by (simp add: entry_due_def)
qed


theorem poll_delivers_due_witness:
  "sr_ready (feed_packets SectionReassembler_default
      (on_pid (Pid_new 0x11) (iter_packets (concat (fst (snd (poll_into example_mux 7)))))))
    = [[0x42, 0xF0, 0x01, 0xAA], [0x46, 0xF0, 0x00]]"
proof -
  obtain m out n where p: "poll_into example_mux 7 = (m, out, n)" by (metis prod_cases3)
  show ?thesis
    using poll_delivers_due[OF example_mux_run p, of "Pid_new 0x11" SectionReassembler_default] example_sections
    by (simp add: p example_emission SectionReassembler_default_def)
qed

end
