(* ===== verification/Crc32.thy ===== *)
theory Crc32
  imports Prelude
begin

text \<open>
  CRC-32/MPEG-2 (\<open>broadcast-common/src/crc32_mpeg2.rs\<close>): the table built at compile time and the
  byte-wise \<open>compute\<close>, related to the bit-serial shift register of the standard, from which the
  zero residue of a section with its trailer and the detection of error bursts follow.
\<close>

section \<open>The code\<close>

definition POLY :: u32 where "POLY = 0x04C11DB7"

text \<open>The body of the inner \<open>while j < 8\<close>.\<close>

definition crc_shift :: "u32 \<Rightarrow> u32" where
  "crc_shift c = (if c AND 0x80000000 \<noteq> 0 then push_bit 1 c XOR POLY else push_bit 1 c)"

definition table_entry :: "nat \<Rightarrow> u32" where
  "table_entry i = (crc_shift ^^ 8) (push_bit 24 (of_nat i))"

definition TABLE :: "u32 list" where
  "TABLE = map table_entry [0..<256]"

definition crc_byte :: "u32 \<Rightarrow> u8 \<Rightarrow> u32" where
  "crc_byte crc b = push_bit 8 crc XOR (TABLE ! unat ((ucast (drop_bit 24 crc) :: u8) XOR b))"

definition compute :: "bytes \<Rightarrow> u32" where
  "compute bs = foldl crc_byte 0xFFFFFFFF bs"

section \<open>The shift register\<close>

text \<open>One step of the register of EN 300 468 Annex C, fed with one message bit, and the bits of a byte.\<close>

definition crc_bit :: "u32 \<Rightarrow> bool \<Rightarrow> u32" where
  "crc_bit c b = push_bit 1 c XOR (if bit c 31 \<noteq> b then POLY else 0)"

definition byte_bits :: "u8 \<Rightarrow> bool list" where
  "byte_bits b = map (bit b) [7, 6, 5, 4, 3, 2, 1, 0]"

text \<open>The shift itself, kept folded.\<close>

definition shl :: "u32 \<Rightarrow> u32" where "shl c = push_bit 1 c"

lemma bit_shl: "bit (shl c) n \<longleftrightarrow> 0 < n \<and> n < 32 \<and> bit c (n - 1)"
  unfolding shl_def bit_push_bit_iff by auto

lemma shl_xor: "shl (a XOR b) = shl a XOR shl b"
  by (simp only: shl_def push_bit_xor)

lemma crc_shift_eq: "crc_shift c = shl c XOR (if bit c 31 then POLY else 0)"
proof -
  have "(c AND 0x80000000 \<noteq> 0) = bit c 31"
    by (simp only: bit_pos) (simp add: bit_range)
  then show ?thesis by (simp only: crc_shift_def shl_def) (simp del: push_bit_Suc)
qed

lemma crc_shift_xor: "crc_shift (a XOR b) = crc_shift a XOR crc_shift b"
  by (simp add: crc_shift_eq shl_xor bit_xor_iff xor.assoc xor.left_commute)

lemma crc_shift_0 [simp]: "crc_shift 0 = 0"
  by (simp add: crc_shift_eq shl_def)

lemma crc_shift_kernel: "crc_shift c = 0 \<Longrightarrow> c = 0"
proof -
  assume z: "crc_shift c = 0"
  have "bit (crc_shift c) 0 = bit c 31"
    by (simp add: crc_shift_eq POLY_def bit_xor_iff bit_shl)
  then have t: "\<not> bit c 31" using z by simp
  then have p: "shl c = 0" using z by (simp add: crc_shift_eq)
  have "\<not> bit c n" for n
  proof (cases "n < 31")
    case True
    have "bit (shl c) (Suc n) = bit c n" using True by (simp add: bit_shl)
    then show ?thesis using p by simp
  next
    case False
    then show ?thesis using t bit_beyond_32[of n c] by (cases "n = 31") simp_all
  qed
  then show "c = 0" by (simp add: bit_eq_iff)
qed

lemma crc_shift_pow_xor: "(crc_shift ^^ n) (a XOR b) = (crc_shift ^^ n) a XOR (crc_shift ^^ n) b"
  by (induction n) (simp_all add: crc_shift_xor)

lemma crc_shift_pow_kernel: "(crc_shift ^^ n) c = 0 \<Longrightarrow> c = 0"
  by (induction n) (auto dest: crc_shift_kernel)

lemma xor_zero_eq: "(a :: u32) XOR b = 0 \<Longrightarrow> a = b"
  by (simp only: bit_eq_iff bit_xor_iff bit_0_eq bot_fun_def bot_bool_def) blast

lemma xor_cancel: "(a :: u32) XOR x = b XOR x \<Longrightarrow> a = b" "x XOR (a :: u32) = x XOR b \<Longrightarrow> a = b"
  by (simp_all only: bit_eq_iff bit_xor_iff) blast+

lemma crc_shift_pow_inject: "(crc_shift ^^ n) a = (crc_shift ^^ n) b \<Longrightarrow> a = b"
  by (rule xor_zero_eq, rule crc_shift_pow_kernel[of n]) (simp add: crc_shift_pow_xor)

text \<open>While no bit reaches the top the register only shifts.\<close>

lemma crc_shift_low:
  assumes "n \<le> 32" "\<And>i. 32 - n \<le> i \<Longrightarrow> \<not> bit c i"
  shows "(crc_shift ^^ n) c = push_bit n c"
  using assms
proof (induction n)
  case (Suc n)
  have IH: "(crc_shift ^^ n) c = push_bit n c" using Suc.prems by (intro Suc.IH) auto
  have "\<not> bit (push_bit n c) 31" using Suc.prems by (simp add: bit_push_bit_iff)
  then have "crc_shift (push_bit n c) = shl (push_bit n c)" by (simp add: crc_shift_eq)
  also have "\<dots> = push_bit (Suc n) c" by (simp only: shl_def push_bit_push_bit plus_1_eq_Suc)
  finally show ?case by (simp only: funpow.simps comp_apply IH)
qed simp

text \<open>A sequence of at most 32 message bits is added into the top of the register, then shifted.\<close>

fun top_bits :: "bool list \<Rightarrow> u32" where
  "top_bits [] = 0"
| "top_bits (b # w) = (if b then 0x80000000 else 0) XOR drop_bit 1 (top_bits w)"

lemma bit_top_bits:
  "length w \<le> 32 \<Longrightarrow> bit (top_bits w) i \<longleftrightarrow> i < 32 \<and> 31 - i < length w \<and> w ! (31 - i)"
proof (induction w arbitrary: i)
  case (Cons b w)
  have top: "bit (if b then 0x80000000 else (0 :: u32)) i \<longleftrightarrow> b \<and> i = 31"
    using bit_beyond_32[of i] by (cases "i < 32") (auto simp: less_Suc_eq eval_nat_numeral)
  have "bit (drop_bit 1 (top_bits w)) i \<longleftrightarrow> i < 31 \<and> 30 - i < length w \<and> w ! (30 - i)"
    using Cons by (auto simp: bit_drop_bit_eq)
  then show ?case
    using Cons.prems unfolding top_bits.simps bit_xor_iff top
    by (cases "i < 31") (auto simp: nth_Cons' Suc_diff_le less_Suc_eq)
qed simp

lemma crc_bit_shift: "crc_bit c b = crc_shift (c XOR (if b then 0x80000000 else 0))"
proof -
  have s: "shl 0x80000000 = 0" "shl 0 = 0" by (simp_all add: shl_def)
  show ?thesis
    unfolding crc_shift_xor unfolding crc_bit_def shl_def[symmetric] by (auto simp: s crc_shift_eq xor.assoc)
qed

lemma crc_bits:
  "length w \<le> 32 \<Longrightarrow> foldl crc_bit c w = (crc_shift ^^ length w) (c XOR top_bits w)"
proof (induction w arbitrary: c)
  case (Cons b w)
  have "shl (drop_bit 1 (top_bits w)) = top_bits w"
  proof (rule bit_eqI)
    fix n
    have "\<not> bit (top_bits w) 0" using Cons.prems by (simp add: bit_top_bits)
    then show "bit (shl (drop_bit 1 (top_bits w))) n = bit (top_bits w) n"
      using bit_beyond_32[of n "top_bits w"] by (cases "n < 32"; cases n) (auto simp: bit_shl bit_drop_bit_eq)
  qed
  moreover have "\<not> bit (drop_bit 1 (top_bits w)) 31" using bit_beyond_32[of 32] by (simp add: bit_drop_bit_eq)
  ultimately have "crc_shift (drop_bit 1 (top_bits w)) = top_bits w" by (simp add: crc_shift_eq)
  then have "crc_bit c b XOR top_bits w = crc_shift (c XOR top_bits (b # w))"
    by (simp only: crc_bit_shift crc_shift_xor top_bits.simps xor.assoc)
  then show ?case using Cons by (simp add: funpow_swap1 del: top_bits.simps)
qed simp

section \<open>Byte-wise and bit-serial computation agree\<close>

lemma length_byte_bits [simp]: "length (byte_bits b) = 8"
  by (simp add: byte_bits_def)

lemma top_bits_byte: "top_bits (byte_bits b) = push_bit 24 (ucast b)"
proof (rule bit_eqI)
  fix n
  have "byte_bits b ! k = bit b (7 - k)" if "k < 8" for k
    using that by (auto simp: byte_bits_def less_Suc_eq eval_nat_numeral)
  then show "bit (top_bits (byte_bits b)) n = bit (push_bit 24 (ucast b) :: u32) n"
    using bit_beyond_8[of "n - 24" b]
    by (cases "n < 32"; cases "24 \<le> n") (auto simp: bit_top_bits bit_push_bit_iff bit_ucast_iff)
qed

lemma crc_byte_bits: "crc_byte c b = foldl crc_bit c (byte_bits b)"
proof -
  define hi where "hi = (ucast (drop_bit 24 c) :: u8) XOR b"
  define lo where "lo = c AND 0x00FFFFFF"
  have split: "c XOR push_bit 24 (ucast b) = push_bit 24 (ucast hi) XOR lo"
    unfolding hi_def lo_def by (simp only: bit_pos) (simp add: bit_range)
  have "\<not> bit lo i" if "24 \<le> i" for i
  proof (cases "i < 32")
    case True
    then have "i \<in> {24, 25, 26, 27, 28, 29, 30, 31}" using that by auto
    then show ?thesis by (auto simp: lo_def bit_and_iff)
  qed (use bit_beyond_32 in simp)
  then have "(crc_shift ^^ 8) lo = push_bit 8 lo" by (intro crc_shift_low) simp_all
  also have "\<dots> = push_bit 8 c" unfolding lo_def by (simp only: bit_pos) (simp add: bit_range)
  finally have low: "(crc_shift ^^ 8) lo = push_bit 8 c" .
  have "unat hi < 256" using unat_lt2p[of hi] by simp
  then have "TABLE ! unat hi = (crc_shift ^^ 8) (push_bit 24 (ucast hi))"
    by (simp add: TABLE_def table_entry_def)
  moreover have "foldl crc_bit c (byte_bits b) = (crc_shift ^^ 8) (c XOR push_bit 24 (ucast b))"
    using crc_bits[of "byte_bits b" c] unfolding top_bits_byte length_byte_bits by simp
  ultimately show ?thesis
    unfolding crc_byte_def hi_def[symmetric] split crc_shift_pow_xor low by (simp add: xor.commute)
qed

abbreviation bits_of :: "bytes \<Rightarrow> bool list" where
  "bits_of bs \<equiv> concat (map byte_bits bs)"

lemma compute_bits: "compute bs = foldl crc_bit 0xFFFFFFFF (bits_of bs)"
proof -
  have "foldl crc_byte c bs = foldl crc_bit c (bits_of bs)" for c
    by (induction bs arbitrary: c) (simp_all add: crc_byte_bits)
  then show ?thesis by (simp add: compute_def)
qed


section \<open>Residue\<close>

lemma TABLE_0: "TABLE ! 0 = 0"
proof -
  have "(crc_shift ^^ n) 0 = 0" for n by (induction n) simp_all
  then show ?thesis by (simp add: TABLE_def table_entry_def del: upt_Suc)
qed

lemma crc_byte_top: "crc_byte c (ucast (drop_bit 24 c)) = push_bit 8 c"
  by (simp only: crc_byte_def xor_self_eq unat_0 TABLE_0 xor.right_neutral)

lemma compute_append: "compute (xs @ ys) = foldl crc_byte (compute xs) ys"
  by (simp add: compute_def)

lemma crc_own_bytes: "foldl crc_byte c (u32_to_be c) = 0"
proof -
  have b: "ucast (drop_bit 16 c) = (ucast (drop_bit 24 (push_bit 8 c)) :: u8)"
    "ucast (drop_bit 8 c) = (ucast (drop_bit 24 (push_bit 8 (push_bit 8 c))) :: u8)"
    "ucast c = (ucast (drop_bit 24 (push_bit 8 (push_bit 8 (push_bit 8 c)))) :: u8)"
    by (simp_all only: bit_pos) (simp_all add: bit_range)
  have "push_bit 8 (push_bit 8 (push_bit 8 (push_bit 8 c))) = 0"
    by (simp only: bit_pos) (simp add: bit_range)
  then show ?thesis
    unfolding u32_to_be_def foldl.simps crc_byte_top b(1) unfolding crc_byte_top b(2) unfolding crc_byte_top b(3)
    unfolding crc_byte_top .
qed

lemma bits_of_be: "bits_of (u32_to_be v) = map (bit v) (rev [0..<32])"
proof -
  have "bits_of (u32_to_be v) = map (bit v) [31, 30, 29, 28, 27, 26, 25, 24, 23, 22, 21, 20, 19, 18, 17, 16,
      15, 14, 13, 12, 11, 10, 9, 8, 7, 6, 5, 4, 3, 2, 1, 0]"
    by (simp add: u32_to_be_def byte_bits_def bit_ucast_iff bit_drop_bit_eq)
  also have "[31, 30, 29, 28, 27, 26, 25, 24, 23, 22, 21, 20, 19, 18, 17, 16,
      15, 14, 13, 12, 11, 10, 9, 8, 7, 6, 5, 4, 3, 2, 1, 0] = rev [0..<32]"
    by (simp add: upt_rec)
  finally show ?thesis .
qed

lemma top_bits_be: "top_bits (bits_of (u32_to_be v)) = v"
proof (rule bit_eqI)
  fix n
  show "bit (top_bits (bits_of (u32_to_be v))) n = bit v n"
    unfolding bits_of_be using bit_beyond_32[of n v] by (cases "n < 32") (auto simp: bit_top_bits rev_nth)
qed

lemma residue: "foldl crc_byte (compute bs) (u32_to_be w) = 0 \<longleftrightarrow> w = compute bs"
proof -
  have top: "foldl crc_byte c (u32_to_be v) = (crc_shift ^^ 32) (c XOR v)" for c v
  proof -
    have "foldl crc_byte c (u32_to_be v) = foldl crc_bit c (bits_of (u32_to_be v))"
      by (simp add: u32_to_be_def crc_byte_bits)
    moreover have "length (bits_of (u32_to_be v)) = 32" by (simp add: u32_to_be_def)
    moreover have "top_bits (bits_of (u32_to_be v)) = v" by (rule top_bits_be)
    ultimately show ?thesis using crc_bits[of "bits_of (u32_to_be v)" c] by simp
  qed
  show ?thesis
  proof
    assume "foldl crc_byte (compute bs) (u32_to_be w) = 0"
    then have "compute bs XOR w = 0" unfolding top by (rule crc_shift_pow_kernel)
    then show "w = compute bs" using xor_zero_eq by metis
  qed (simp add: crc_own_bytes)
qed

section \<open>Error bursts\<close>

lemma foldl_crc_bit_inject: "foldl crc_bit c w = foldl crc_bit d w \<Longrightarrow> c = d"
proof (induction w arbitrary: c d)
  case (Cons b w)
  then have "crc_bit c b = crc_bit d b" by simp
  then have "c XOR (if b then 0x80000000 else 0) = d XOR (if b then 0x80000000 else 0)"
    unfolding crc_bit_shift using crc_shift_pow_inject[of 1] by simp
  then show ?case by (rule xor_cancel(1))
qed simp

lemma top_bits_inject:
  assumes "length v = length w" "length w \<le> 32" "top_bits v = top_bits w"
  shows "v = w"
proof (rule nth_equalityI)
  fix i assume i: "i < length v"
  have "bit (top_bits v) (31 - i) = bit (top_bits w) (31 - i)" using assms(3) by simp
  moreover have "31 - i < 32" "31 - (31 - i) = i" using i assms(1,2) by simp_all
  ultimately show "v ! i = w ! i" using i assms(1,2) by (simp add: bit_top_bits)
qed (rule assms(1))

lemma burst_changes_register:
  assumes "length v = length w" "length w \<le> 32" "v \<noteq> w"
  shows "foldl crc_bit c (pre @ v @ post) \<noteq> foldl crc_bit c (pre @ w @ post)"
proof
  define d where "d = foldl crc_bit c pre"
  assume "foldl crc_bit c (pre @ v @ post) = foldl crc_bit c (pre @ w @ post)"
  then have "foldl crc_bit d v = foldl crc_bit d w" using foldl_crc_bit_inject by (fastforce simp: d_def)
  then have "d XOR top_bits v = d XOR top_bits w"
    using crc_bits assms(1,2) crc_shift_pow_inject by metis
  then have "top_bits v = top_bits w" by (rule xor_cancel(2))
  then show False using top_bits_inject assms by blast
qed

section \<open>Properties\<close>

text \<open>
  C38: the table-driven checksum is the shift register of the standard. Over any bytes \<open>compute\<close> returns
  the state of the register with polynomial \<open>0x04C11DB7\<close>, started with all ones and fed with the
  message bits, most significant first; and a message followed by four bytes leaves the register at
  zero exactly when those bytes are its checksum.
\<close>

theorem crc_shift_register:
  "compute bs = foldl crc_bit 0xFFFFFFFF (bits_of bs) \<and>
   (compute (bs @ u32_to_be w) = 0 \<longleftrightarrow> w = compute bs)"
  by (intro conjI compute_bits) (simp only: compute_append residue)

text \<open>
  Error bursts are detected. Two messages whose bits differ, and differ only within 32 consecutive bit
  positions anywhere in the message, have different checksums.
\<close>

theorem crc_detects_bursts:
  assumes "bits_of xs = pre @ v @ post" "bits_of ys = pre @ w @ post"
    and "length v = length w" "length w \<le> 32" "v \<noteq> w"
  shows "compute xs \<noteq> compute ys"
  unfolding compute_bits assms(1,2) by (rule burst_changes_register[OF assms(3-5)])

theorem crc_detects_bursts_witness:
  "compute [0x47, 0x1F, 0x80, 0x00] \<noteq> compute [0x47, 0x10, 0x00, 0x00]"
  by (rule crc_detects_bursts[of _ "byte_bits 0x47" "byte_bits 0x1F @ byte_bits 0x80" "byte_bits 0x00"
        _ "byte_bits 0x10 @ byte_bits 0x00"]) (simp_all add: byte_bits_def)

end
