(* ===== verification/Section.thy ===== *)
theory Section
  imports Reassembler Crc32
begin

text \<open>
  PSI/SI section framing (\<open>mpeg-ts/src/section.rs\<close>): the typed section, its parser and serializer for the
  short and the long form, and the check of the trailing CRC.
\<close>

section \<open>The code\<close>

definition MIN_HEADER_LEN :: nat where "MIN_HEADER_LEN = 3"
definition LONG_FORM_EXTRA :: nat where "LONG_FORM_EXTRA = 5"
definition CRC_LEN :: nat where "CRC_LEN = 4"
definition SSI_MASK :: u8 where "SSI_MASK = 0x80"
definition PRIVATE_INDICATOR_MASK :: u8 where "PRIVATE_INDICATOR_MASK = 0x40"
definition BYTE1_RESERVED_BITS :: u8 where "BYTE1_RESERVED_BITS = 0x30"
definition VERSION_NUMBER_MASK :: u8 where "VERSION_NUMBER_MASK = 0x1F"
definition BYTE5_RESERVED_BITS :: u8 where "BYTE5_RESERVED_BITS = 0xC0"
definition CURRENT_NEXT_MASK :: u8 where "CURRENT_NEXT_MASK = 0x01"

lemmas sec_consts = MIN_HEADER_LEN_def LONG_FORM_EXTRA_def CRC_LEN_def
lemmas sec_masks = SSI_MASK_def PRIVATE_INDICATOR_MASK_def BYTE1_RESERVED_BITS_def VERSION_NUMBER_MASK_def
  BYTE5_RESERVED_BITS_def CURRENT_NEXT_MASK_def SECTION_LENGTH_HI_MASK_def

record Section =
  sec_table_id :: u8
  sec_syntax_indicator :: bool
  sec_private_indicator :: bool
  sec_length :: u16
  sec_extension_id :: u16
  sec_version_number :: u8
  sec_current_next :: bool
  sec_number :: u8
  sec_last_number :: u8
  sec_payload :: bytes
  sec_crc32 :: "u32 option"

definition validate_crc :: "Section \<Rightarrow> bytes \<Rightarrow> (TsError, unit) result" where
  "validate_crc s rw =
     (case sec_crc32 s of
        None \<Rightarrow> Ok ()
      | Some expected \<Rightarrow>
          and_then (map_err TsBufferTooShort (need_in rw CRC_LEN ''CRC suffix in validate_crc'')) (\<lambda>_.
            let covered = take (length rw - CRC_LEN) rw;
                computed = compute covered
            in if computed \<noteq> expected
               then Err (TsCrcMismatch \<lparr>cm_what = ''section'', cm_computed = computed, cm_expected = expected\<rparr>)
               else Ok ()))"

text \<open>The \<open>expect\<close> on \<open>section_total_len\<close> cannot fail after the length check: its \<open>None\<close> is not a branch.\<close>

definition Section_parse :: "bytes \<Rightarrow> (TsError, Section) result" where
  "Section_parse bs =
     and_then (map_err TsBufferTooShort (need_in bs MIN_HEADER_LEN ''section header'')) (\<lambda>_.
       let table_id = bs ! 0;
           ssi = (bs ! 1 AND SSI_MASK) \<noteq> 0;
           pi = (bs ! 1 AND PRIVATE_INDICATOR_MASK) \<noteq> 0;
           total = the (section_total_len bs);
           len = of_nat (total - MIN_HEADER_LEN)
       in if length bs < total then Err (SectionLengthOverflow total (length bs))
          else let section_bytes = take total bs
          in if \<not> ssi then
               Ok \<lparr>sec_table_id = table_id, sec_syntax_indicator = ssi, sec_private_indicator = pi,
                   sec_length = len, sec_extension_id = 0, sec_version_number = 0, sec_current_next = False,
                   sec_number = 0, sec_last_number = 0, sec_payload = drop MIN_HEADER_LEN section_bytes,
                   sec_crc32 = None\<rparr>
             else and_then (map_err TsBufferTooShort
                 (need_in section_bytes (MIN_HEADER_LEN + LONG_FORM_EXTRA + CRC_LEN)
                    ''long-form section extension header + CRC'')) (\<lambda>_.
               let payload_start = MIN_HEADER_LEN + LONG_FORM_EXTRA;
                   payload_end = total - CRC_LEN;
                   crc_offset = total - CRC_LEN
               in Ok \<lparr>sec_table_id = table_id, sec_syntax_indicator = ssi, sec_private_indicator = pi,
                   sec_length = len,
                   sec_extension_id = push_bit 8 (ucast (bs ! 3)) OR ucast (bs ! 4),
                   sec_version_number = drop_bit 1 (bs ! 5) AND VERSION_NUMBER_MASK,
                   sec_current_next = (bs ! 5 AND CURRENT_NEXT_MASK) \<noteq> 0,
                   sec_number = bs ! 6, sec_last_number = bs ! 7,
                   sec_payload = sub_slice section_bytes payload_start payload_end,
                   sec_crc32 = Some (u32_from_be (section_bytes ! crc_offset) (section_bytes ! (crc_offset + 1))
                     (section_bytes ! (crc_offset + 2)) (section_bytes ! (crc_offset + 3)))\<rparr>))"

definition Section_serialized_len :: "Section \<Rightarrow> nat" where
  "Section_serialized_len s = unat (sec_length s) + MIN_HEADER_LEN"

definition checked_sub :: "nat \<Rightarrow> nat \<Rightarrow> nat option" where
  "checked_sub a b = (if b \<le> a then Some (a - b) else None)"

definition sec_byte1 :: "Section \<Rightarrow> u8" where
  "sec_byte1 s =
     (let length_hi = ucast (drop_bit 8 (sec_length s)) AND SECTION_LENGTH_HI_MASK;
          ssi = push_bit 7 (if sec_syntax_indicator s then 1 else 0);
          pi = push_bit 6 (if sec_private_indicator s then 1 else 0)
      in ssi OR pi OR BYTE1_RESERVED_BITS OR length_hi)"

definition sec_byte5 :: "Section \<Rightarrow> u8" where
  "sec_byte5 s =
     (let version = push_bit 1 (sec_version_number s AND VERSION_NUMBER_MASK);
          cni = (if sec_current_next s then 1 else 0)
      in BYTE5_RESERVED_BITS OR version OR cni)"

definition Section_serialize_into :: "Section \<Rightarrow> bytes \<Rightarrow> (TsError, bytes \<times> nat) result" where
  "Section_serialize_into s buf =
     (let need = Section_serialized_len s
      in and_then (map_err TsOutputBufferTooSmall (need_out buf need)) (\<lambda>_.
         let overhead = (if sec_syntax_indicator s then LONG_FORM_EXTRA + CRC_LEN else 0);
             expected_payload_len = checked_sub (unat (sec_length s)) overhead
         in if expected_payload_len \<noteq> Some (length (sec_payload s)) then
              Err (SectionPayloadLengthMismatch (sec_length s)
                (case expected_payload_len of None \<Rightarrow> 0 | Some n \<Rightarrow> n) (length (sec_payload s)))
            else
              let st = emit [sec_table_id s] (buf, 0);
                  st = emit [sec_byte1 s] st;
                  st = emit [ucast (sec_length s)] st
              in if sec_syntax_indicator s then
                   let st = emit (u16_to_be (sec_extension_id s)) st;
                       st = emit [sec_byte5 s] st;
                       st = emit [sec_number s] st;
                       st = emit [sec_last_number s] st;
                       st = emit (sec_payload s) st;
                       crc = (case sec_crc32 s of Some v \<Rightarrow> v | None \<Rightarrow> compute (take (snd st) (fst st)));
                       st = emit (u32_to_be crc) st
                   in Ok (fst st, need)
                 else let st = emit (sec_payload s) st in Ok (fst st, need)))"

section \<open>The wire image\<close>

definition sec_prefix :: "Section \<Rightarrow> bytes" where
  "sec_prefix s = [sec_table_id s, sec_byte1 s, ucast (sec_length s)] @
     (if sec_syntax_indicator s
      then u16_to_be (sec_extension_id s) @ [sec_byte5 s, sec_number s, sec_last_number s] else []) @ sec_payload s"

definition sec_wire :: "Section \<Rightarrow> bytes" where
  "sec_wire s = sec_prefix s @
     (if sec_syntax_indicator s
      then u32_to_be (case sec_crc32 s of Some v \<Rightarrow> v | None \<Rightarrow> compute (sec_prefix s)) else [])"

definition sec_sized :: "Section \<Rightarrow> bool" where
  "sec_sized s \<longleftrightarrow>
     unat (sec_length s) = length (sec_payload s) + (if sec_syntax_indicator s then 9 else 0)"

definition sec_ok :: "Section \<Rightarrow> bool" where
  "sec_ok s \<longleftrightarrow> sec_sized s \<and> unat (sec_length s) < 4096 \<and>
     (if sec_syntax_indicator s
      then sec_version_number s AND VERSION_NUMBER_MASK = sec_version_number s \<and> sec_crc32 s \<noteq> None
      else sec_extension_id s = 0 \<and> sec_version_number s = 0 \<and> \<not> sec_current_next s \<and>
           sec_number s = 0 \<and> sec_last_number s = 0 \<and> sec_crc32 s = None)"

lemma length_sec_wire: "sec_sized s \<Longrightarrow> length (sec_wire s) = Section_serialized_len s"
  by (simp add: sec_sized_def sec_wire_def sec_prefix_def Section_serialized_len_def sec_consts)

lemma Section_serialize_wire:
  assumes "sec_sized s" "length (sec_wire s) \<le> length buf"
  shows "Section_serialize_into s buf = Inr (sec_wire s @ drop (length (sec_wire s)) buf, length (sec_wire s))"
proof -
  have c: "checked_sub (unat (sec_length s)) (if sec_syntax_indicator s then LONG_FORM_EXTRA + CRC_LEN else 0)
      = Some (length (sec_payload s))"
    using assms(1) by (simp add: sec_sized_def checked_sub_def sec_consts)
  have tk: "take (snd (written xs buf)) (fst (written xs buf)) = xs" for xs by (simp add: written_def)
  note len = length_sec_wire[OF assms(1)]
  show ?thesis
  proof (cases "sec_syntax_indicator s")
    case True
    have p: "[sec_table_id s] @ [sec_byte1 s] @ [ucast (sec_length s)] @ u16_to_be (sec_extension_id s)
        @ [sec_byte5 s] @ [sec_number s] @ [sec_last_number s] @ sec_payload s = sec_prefix s"
      using True by (simp add: sec_prefix_def)
    have w: "sec_wire s = sec_prefix s @ u32_to_be (case sec_crc32 s of Some v \<Rightarrow> v | None \<Rightarrow> compute (sec_prefix s))"
      using True by (simp add: sec_wire_def)
    show ?thesis
      using assms(2) True c
      unfolding Section_serialize_into_def Let_def len need_out_eq emit_start emit_written append_assoc p tk w[symmetric]
      by (simp add: written_def len)
  next
    case False
    have "[sec_table_id s] @ [sec_byte1 s] @ [ucast (sec_length s)] @ sec_payload s = sec_wire s"
      using False by (simp add: sec_wire_def sec_prefix_def)
    then show ?thesis
      using assms(2) False c
      unfolding Section_serialize_into_def Let_def len need_out_eq emit_start emit_written append_assoc
      by (simp add: written_def len)
  qed
qed


section \<open>Parsing the image\<close>

abbreviation len_field :: "u8 \<Rightarrow> u8 \<Rightarrow> u16" where
  "len_field b1 b2 \<equiv> push_bit 8 (ucast (b1 AND 0x0F)) OR ucast b2"

lemma unat_len_field: "unat (len_field b1 b2) = push_bit 8 (unat (b1 AND 0x0F)) OR unat b2"
proof -
  have lo: "unat b2 < 2 ^ 8" and hi: "unat (b1 AND 0x0F) < 2 ^ 8" using unat_lt2p[of b2] unat_lt2p[of "b1 AND 0x0F"] by simp_all
  then have u: "unat (ucast b2 :: u16) = unat b2" "unat (ucast (b1 AND 0x0F) :: u16) = unat (b1 AND 0x0F)"
    by (simp_all add: unsigned_ucast_eq take_bit_eq_mod)
  have "unat (ucast b2 OR push_bit 8 (ucast (b1 AND 0x0F)) :: u16) = unat b2 + 2 ^ 8 * unat (b1 AND 0x0F)"
    using unat_or_push_bit[of "ucast b2 :: u16" 8 "ucast (b1 AND 0x0F)"] lo hi unfolding u by simp
  then show ?thesis using or_push_bit_nat[OF lo] by (simp add: or.commute)
qed

lemma total_len_field:
  "3 \<le> length bs \<Longrightarrow> section_total_len bs = Some (3 + unat (len_field (bs ! 1) (bs ! 2)))"
  unfolding unat_len_field by (simp add: section_total_len_def SECTION_HEADER_LEN_def SECTION_LENGTH_HI_MASK_def Let_def)

lemma len_field_mask: "unat (sec_length s) < 4096 \<Longrightarrow> len_field (sec_byte1 s) (ucast (sec_length s)) = sec_length s"
proof -
  assume "unat (sec_length s) < 4096"
  then have "uint (sec_length s) < 4096" using uint_nat[of "sec_length s"] by linarith
  then have "sec_length s AND mask 12 = sec_length s" by (simp add: and_mask_mod_2p)
  moreover have "len_field (sec_byte1 s) (ucast (sec_length s)) = sec_length s AND 0x0FFF"
    unfolding sec_byte1_def sec_masks Let_def
    by (cases "sec_syntax_indicator s"; cases "sec_private_indicator s"; simp only: if_True if_False bit_pos; simp add: bit_range)
  ultimately show ?thesis by (simp add: mask_eq_exp_minus_1)
qed

lemma sec_byte1_flags:
  "(sec_byte1 s AND SSI_MASK \<noteq> 0) = sec_syntax_indicator s"
  "(sec_byte1 s AND PRIVATE_INDICATOR_MASK \<noteq> 0) = sec_private_indicator s"
  unfolding sec_byte1_def sec_masks Let_def
  by (cases "sec_syntax_indicator s"; cases "sec_private_indicator s"; simp only: if_True if_False bit_pos; simp add: bit_range)+

lemma sec_byte5_fields:
  "drop_bit 1 (sec_byte5 s) AND VERSION_NUMBER_MASK = sec_version_number s AND VERSION_NUMBER_MASK"
  "(sec_byte5 s AND CURRENT_NEXT_MASK \<noteq> 0) = sec_current_next s"
  unfolding sec_byte5_def sec_masks Let_def
  by (cases "sec_current_next s"; simp only: if_True if_False bit_pos; simp add: bit_range)+


lemma u16_be_pair: "u16_to_be w = [ucast (drop_bit 8 w), ucast w]"
  by (simp add: u16_to_be_def)

lemma Section_parse_wire:
  assumes "sec_ok s"
  shows "Section_parse (sec_wire s @ rest) = Inr s"
proof -
  have sz: "sec_sized s" and lt: "unat (sec_length s) < 4096" using assms by (simp_all add: sec_ok_def)
  define bs where "bs = sec_wire s @ rest"
  have hd: "bs ! 0 = sec_table_id s" "bs ! 1 = sec_byte1 s" "bs ! 2 = ucast (sec_length s)"
    by (simp_all add: bs_def sec_wire_def sec_prefix_def)
  have len: "length (sec_wire s) = 3 + unat (sec_length s)"
    using length_sec_wire[OF sz] by (simp add: Section_serialized_len_def sec_consts)
  have "3 \<le> length bs" using len by (simp add: bs_def)
  then have tot: "section_total_len bs = Some (3 + unat (sec_length s))"
    using total_len_field[of bs] len_field_mask[OF lt] by (simp only: hd)
  have tk: "take (3 + unat (sec_length s)) bs = sec_wire s" "3 + unat (sec_length s) \<le> length bs"
    using len by (simp_all add: bs_def)
  have ln: "of_nat (3 + unat (sec_length s) - 3) = sec_length s" by simp
  show ?thesis
  proof (cases "sec_syntax_indicator s")
    case False
    have "drop 3 (sec_wire s) = sec_payload s" using False by (simp add: sec_wire_def sec_prefix_def)
    then show ?thesis
      unfolding bs_def[symmetric] Section_parse_def Let_def need_in_eq hd tot option.sel MIN_HEADER_LEN_def ln tk(1)
        sec_byte1_flags
      using tk(2) False assms \<open>3 \<le> length bs\<close> by (simp add: sec_ok_def)
  next
    case True
    obtain v where v: "sec_crc32 s = Some v" using assms True by (auto simp: sec_ok_def)
    define l where "l = length (sec_payload s)"
    have ul: "unat (sec_length s) = l + 9" using sz True by (simp add: sec_sized_def l_def)
    define pre where "pre = [sec_table_id s, sec_byte1 s, ucast (sec_length s), ucast (drop_bit 8 (sec_extension_id s)),
      ucast (sec_extension_id s), sec_byte5 s, sec_number s, sec_last_number s]"
    have w: "sec_wire s = pre @ sec_payload s @ u32_to_be v"
      using True v by (simp add: sec_wire_def sec_prefix_def pre_def u16_be_pair)
    have pl: "sub_slice (sec_wire s) 8 (3 + unat (sec_length s) - 4) = sec_payload s"
      unfolding w ul by (simp add: sub_slice_def pre_def l_def)
    have ext: "bs ! 3 = ucast (drop_bit 8 (sec_extension_id s))" "bs ! 4 = ucast (sec_extension_id s)"
      "bs ! 5 = sec_byte5 s" "bs ! 6 = sec_number s" "bs ! 7 = sec_last_number s"
      by (simp_all add: bs_def w pre_def)
    have at: "sec_wire s ! (3 + unat (sec_length s) - 4 + k) = u32_to_be v ! k" for k
      unfolding w ul by (simp add: nth_append pre_def l_def)
    have cr: "u32_from_be (u32_to_be v ! 0) (u32_to_be v ! 1) (u32_to_be v ! 2) (u32_to_be v ! 3) = v"
      by (simp add: u32_to_be_def)
    have fin: "sub_slice (sec_wire s) 8 (8 + l) = sec_payload s" "sec_wire s ! (8 + l) = u32_to_be v ! 0"
      using pl at[of 0] by (simp_all add: ul)
    have e: "push_bit 8 (ucast (ucast (drop_bit 8 (sec_extension_id s)) :: u8)) OR ucast (ucast (sec_extension_id s) :: u8)
        = sec_extension_id s"
      using u16_from_to_be[of "sec_extension_id s"] by (simp only: u16_from_be_def)
    show ?thesis
      unfolding bs_def[symmetric] Section_parse_def Let_def need_in_eq hd tot option.sel sec_consts ln tk(1)
        sec_byte1_flags ext sec_byte5_fields e at
      using tk(2) True assms \<open>3 \<le> length bs\<close> ul len v fin cr by (cases s) (simp add: sec_ok_def)
  qed
qed


interpretation ts_section: prefix_wire_type Section_parse Section_serialized_len Section_serialize_into sec_ok sec_wire
proof
  fix s :: Section and buf rest :: bytes
  assume ok: "sec_ok s"
  then have sz: "sec_sized s" by (simp add: sec_ok_def)
  show "Section_serialized_len s = length (sec_wire s)" using length_sec_wire[OF sz] by simp
  show "length (sec_wire s) \<le> length buf \<Longrightarrow> Section_serialize_into s buf =
      Inr (sec_wire s @ drop (length (sec_wire s)) buf, length (sec_wire s))"
    by (rule Section_serialize_wire[OF sz])
  show "length buf < length (sec_wire s) \<Longrightarrow> \<exists>e. Section_serialize_into s buf = Inl e"
    using length_sec_wire[OF sz] by (simp add: Section_serialize_into_def Let_def need_out_eq)
  show "Section_parse (sec_wire s) = Inr s" using Section_parse_wire[OF ok, of "[]"] by simp
  show "Section_parse (sec_wire s @ rest) = Inr s" by (rule Section_parse_wire[OF ok])
qed

section \<open>Re-serializing a parsed section\<close>

lemma bit_flags_u8:
  "(b AND SSI_MASK \<noteq> 0) = bit b 7" "(b AND PRIVATE_INDICATOR_MASK \<noteq> 0) = bit b 6"
  "(b AND CURRENT_NEXT_MASK \<noteq> 0) = bit b 0"
  unfolding sec_masks by (simp_all only: bit_pos) (simp_all add: bit_range)

lemma sec_byte1_rebuild:
  assumes "sec_syntax_indicator s = bit b1 7" "sec_private_indicator s = bit b1 6" "sec_length s = len_field b1 b2"
  shows "sec_byte1 s = b1 OR 0x30" "ucast (sec_length s) = b2"
proof -
  show "sec_byte1 s = b1 OR 0x30"
    unfolding sec_byte1_def assms sec_masks Let_def
    by (cases "bit b1 7"; cases "bit b1 6"; simp only: if_True if_False bit_pos; simp add: bit_range)
  show "ucast (sec_length s) = b2"
    unfolding assms(3) by (simp only: bit_pos) (simp add: bit_range)
qed

lemma sec_byte5_rebuild:
  assumes "sec_version_number s = drop_bit 1 b AND VERSION_NUMBER_MASK" "sec_current_next s = bit b 0"
  shows "sec_byte5 s = b OR 0xC0"
  unfolding sec_byte5_def assms sec_masks Let_def
  by (cases "bit b 0"; simp only: if_True if_False bit_pos; simp add: bit_range)

lemma version_masked: "(drop_bit 1 b AND VERSION_NUMBER_MASK) AND VERSION_NUMBER_MASK = drop_bit 1 b AND VERSION_NUMBER_MASK"
  by (simp add: and.assoc)

lemma len_field_bound: "unat (len_field b1 b2) < 4096"
proof -
  have "section_total_len [0, b1, b2] = Some (3 + unat (len_field b1 b2))"
    using total_len_field[of "[0, b1, b2]"] by simp
  then show ?thesis using section_total_len_Some by fastforce
qed

lemma eight_bytes: "8 \<le> length xs \<Longrightarrow> \<exists>a b c d e f g h ys. xs = [a, b, c, d, e, f, g, h] @ ys"
  by (auto simp: Suc_le_length_iff eval_nat_numeral)

lemma three_bytes: "3 \<le> length xs \<Longrightarrow> \<exists>a b c ys. xs = [a, b, c] @ ys"
  by (auto simp: Suc_le_length_iff eval_nat_numeral)

lemma four_bytes: "length xs = 4 \<Longrightarrow> xs = [xs ! 0, xs ! 1, xs ! 2, xs ! 3]"
  by (auto simp: length_Suc_conv eval_nat_numeral)

lemma Section_parse_inverse:
  assumes "Section_parse bs = Inr s"
  shows "sec_ok s" "Section_serialized_len s \<le> length bs"
    "section_total_len bs = Some (Section_serialized_len s)"
    "sec_wire s = (let w = (take (Section_serialized_len s) bs)[1 := bs ! 1 OR 0x30]
                   in if sec_syntax_indicator s then w[5 := bs ! 5 OR 0xC0] else w)"
proof -
  have l3: "3 \<le> length bs" using assms by (auto simp: Section_parse_def and_then_eq_Ok sec_consts)
  define n X where "n = 3 + unat (len_field (bs ! 1) (bs ! 2))" and "X = take n bs"
  have tot: "section_total_len bs = Some n" using total_len_field[OF l3] by (simp only: n_def)
  have ln: "of_nat (n - 3) = len_field (bs ! 1) (bs ! 2)" by (simp only: n_def) simp
  note p = assms[unfolded Section_parse_def Let_def and_then_eq_Ok map_err_eq_Ok need_in_Ok tot option.sel
      sec_consts ln bit_flags_u8, folded X_def]
  have le: "n \<le> length bs" using p by (auto split: if_splits)
  then have lX: "length X = n" by (simp add: X_def)
  have common: "sec_table_id s = bs ! 0 \<and> sec_syntax_indicator s = bit (bs ! 1) 7 \<and>
      sec_private_indicator s = bit (bs ! 1) 6 \<and> sec_length s = len_field (bs ! 1) (bs ! 2)"
    using p le by (cases "bit (bs ! 1) 7") (simp_all add: and_then_eq_Ok, auto)
  have len: "Section_serialized_len s = n" using common by (simp add: Section_serialized_len_def sec_consts n_def)
  note b1 = sec_byte1_rebuild[of s "bs ! 1" "bs ! 2"]
  have short: "sec_payload s = drop 3 X \<and> sec_extension_id s = 0 \<and> sec_version_number s = 0 \<and> \<not> sec_current_next s \<and>
      sec_number s = 0 \<and> sec_last_number s = 0 \<and> sec_crc32 s = None" if "\<not> bit (bs ! 1) 7"
    using p le that by auto
  have long: "12 \<le> n \<and> sec_extension_id s = u16_from_be (bs ! 3) (bs ! 4) \<and>
      sec_version_number s = drop_bit 1 (bs ! 5) AND VERSION_NUMBER_MASK \<and> sec_current_next s = bit (bs ! 5) 0 \<and>
      sec_number s = bs ! 6 \<and> sec_last_number s = bs ! 7 \<and> sec_payload s = sub_slice X 8 (n - 4) \<and>
      sec_crc32 s = Some (u32_from_be (X ! (n - 4)) (X ! (n - 4 + 1)) (X ! (n - 4 + 2)) (X ! (n - 4 + 3)))"
    if "bit (bs ! 1) 7"
    using p le that lX by (auto simp: and_then_eq_Ok u16_from_be_def)
  have ul: "unat (sec_length s) = n - 3" using common by (simp add: n_def)
  have "sec_sized s" unfolding sec_sized_def ul using common short long lX by (cases "bit (bs ! 1) 7") auto
  then show "sec_ok s"
    unfolding sec_ok_def using common short long len_field_bound version_masked by (cases "bit (bs ! 1) 7") auto
  show "Section_serialized_len s \<le> length bs" using le len by simp
  show "section_total_len bs = Some (Section_serialized_len s)" using tot len by simp
  have nth: "X ! i = bs ! i" if "i < n" for i using that by (simp add: X_def)
  have r1: "sec_byte1 s = bs ! 1 OR 0x30" "ucast (sec_length s) = bs ! 2"
    using common by (intro b1; simp)+
  show "sec_wire s = (let w = (take (Section_serialized_len s) bs)[1 := bs ! 1 OR 0x30]
                   in if sec_syntax_indicator s then w[5 := bs ! 5 OR 0xC0] else w)"
  proof (cases "bit (bs ! 1) 7")
    case False
    obtain a b c ys where X: "X = [a, b, c] @ ys"
      using three_bytes[of X] lX unfolding n_def by auto
    have "a = bs ! 0" "c = bs ! 2" using nth[of 0] nth[of 2] by (simp_all add: X n_def)
    then show ?thesis
      using common short[OF False] False r1
      by (simp add: sec_wire_def sec_prefix_def len X_def[symmetric]) (simp add: X)
  next
    case True
    note lg = long[OF True]
    then obtain a b c d e f g h ys where X: "X = [a, b, c, d, e, f, g, h] @ ys"
      using eight_bytes[of X] lX by auto
    have byte: "a = bs ! 0" "c = bs ! 2" "d = bs ! 3" "e = bs ! 4" "g = bs ! 6" "h = bs ! 7"
      using nth[of 0] nth[of 2] nth[of 3] nth[of 4] nth[of 6] nth[of 7] lg by (simp_all add: X)
    have ly: "length ys = n - 8" using lX by (simp add: X)
    obtain k where k: "n = k + 12" using lg by (metis le_iff_add add.commute)
    have at: "X ! (n - 4 + j) = ys ! (k + j)" for j
      unfolding X k by (subst nth_append) simp
    have "length (drop k ys) = 4" using ly k by simp
    from four_bytes[OF this]
    have crc: "[X ! (n - 4), X ! (n - 4 + 1), X ! (n - 4 + 2), X ! (n - 4 + 3)] = drop (n - 12) ys"
      using at[of 0] at[of 1] at[of 2] at[of 3] ly by (simp add: k)
    have pl: "sec_payload s = take (n - 12) ys" using lg by (simp add: X sub_slice_def)
    have b5: "sec_byte5 s = bs ! 5 OR 0xC0" using lg by (intro sec_byte5_rebuild) simp_all
    have "sec_wire s = [bs ! 0, bs ! 1 OR 0x30, bs ! 2, bs ! 3, bs ! 4, bs ! 5 OR 0xC0, bs ! 6, bs ! 7] @
        take (n - 12) ys @ drop (n - 12) ys"
      using common lg True r1 b5 crc by (simp add: sec_wire_def sec_prefix_def pl)
    then show ?thesis using common True by (simp add: len X_def[symmetric]) (simp add: X byte)
  qed
qed


section \<open>Properties\<close>

text \<open>
  A section survives the wire. A well-formed section (short or long form) is written in exactly its
  serialized length, the rest of the buffer is kept, and parsing the buffer returns the section; a
  section whose length field disagrees with its payload is refused with
  \<open>SectionPayloadLengthMismatch\<close> when the buffer is long enough.
\<close>

theorem section_write_read:
  assumes "Section_serialized_len s \<le> length buf"
  shows "(sec_ok s \<longrightarrow> (\<exists>out. Section_serialize_into s buf = Inr (out, Section_serialized_len s) \<and>
      Section_parse out = Inr s \<and> drop (Section_serialized_len s) out = drop (Section_serialized_len s) buf)) \<and>
    (\<not> sec_sized s \<longrightarrow> (\<exists>l e a. Section_serialize_into s buf = Inl (SectionPayloadLengthMismatch l e a)))"
proof (intro conjI impI)
  assume ok: "sec_ok s"
  obtain out n where o: "Section_serialize_into s buf = Inr (out, n)"
    using ts_section.serialize_iff_room[OF ok, of buf] assms by (metis surj_pair)
  show "\<exists>out. Section_serialize_into s buf = Inr (out, Section_serialized_len s) \<and>
      Section_parse out = Inr s \<and> drop (Section_serialized_len s) out = drop (Section_serialized_len s) buf"
    using ts_section.serialize_then_parse[OF ok o] o by metis
next
  assume "\<not> sec_sized s"
  then have "checked_sub (unat (sec_length s)) (if sec_syntax_indicator s then LONG_FORM_EXTRA + CRC_LEN else 0)
      \<noteq> Some (length (sec_payload s))"
    by (auto simp: sec_sized_def checked_sub_def sec_consts split: if_splits)
  then show "\<exists>l e a. Section_serialize_into s buf = Inl (SectionPayloadLengthMismatch l e a)"
    using assms by (simp add: Section_serialize_into_def need_out_eq Let_def)
qed

definition example_section :: Section where
  "example_section = \<lparr>sec_table_id = 0x42, sec_syntax_indicator = True, sec_private_indicator = True,
     sec_length = 11, sec_extension_id = 0x1234, sec_version_number = 3, sec_current_next = True,
     sec_number = 0, sec_last_number = 1, sec_payload = [0xAA, 0xBB], sec_crc32 = Some 0\<rparr>"

theorem section_write_read_witness:
  "\<exists>out. Section_serialize_into example_section (replicate 20 0) = Inr (out, 14) \<and>
    Section_parse out = Inr example_section"
proof -
  have "Section_serialized_len example_section = 14" "sec_ok example_section"
    by (simp_all add: example_section_def Section_serialized_len_def sec_consts sec_ok_def sec_sized_def VERSION_NUMBER_MASK_def)
  then show ?thesis using section_write_read[of example_section "replicate 20 0"] by auto
qed

text \<open>
  C36: parsing then serializing a section restores its bytes, with the reserved bits of bytes 1 and 5 set
  to ones; the parser stays inside the declared length.
\<close>

theorem section_byte_exact:
  assumes "Section_parse bs = Inr s" "length bs \<le> length buf"
  shows "section_total_len bs = Some (Section_serialized_len s) \<and>
    Section_serialize_into s buf = Inr ((let w = (take (Section_serialized_len s) bs)[1 := bs ! 1 OR 0x30]
        in if sec_syntax_indicator s then w[5 := bs ! 5 OR 0xC0] else w)
      @ drop (Section_serialized_len s) buf, Section_serialized_len s)"
proof -
  note inv = Section_parse_inverse[OF assms(1)]
  have "Section_serialize_into s buf = Inr (sec_wire s @ drop (Section_serialized_len s) buf, Section_serialized_len s)"
    using ts_section.serialize_wire[OF inv(1), of buf] ts_section.len_wire[OF inv(1)] inv(2) assms(2) by simp
  then show ?thesis using inv(3) unfolding inv(4) by simp
qed

theorem section_byte_exact_witness:
  "\<exists>s. Section_parse [0x70, 0x70, 0x02, 1, 2] = Inr s \<and>
    Section_serialize_into s [0, 0, 0, 0, 0] = Inr ([0x70, 0x70, 0x02, 1, 2], 5)"
proof -
  have t: "section_total_len [0x70, 0x70, 0x02, 1, 2] = Some 5"
    by (simp add: section_total_len_def SECTION_HEADER_LEN_def SECTION_LENGTH_HI_MASK_def Let_def)
  have p: "\<exists>s. Section_parse [0x70, 0x70, 0x02, 1, 2] = Inr s \<and> \<not> sec_syntax_indicator s"
    by (simp add: Section_parse_def need_in_eq sec_consts t Let_def SSI_MASK_def)
  then obtain s where s: "Section_parse [0x70, 0x70, 0x02, 1, 2] = Inr s" "\<not> sec_syntax_indicator s" by blast
  then show ?thesis
    using section_byte_exact[OF s(1), of "[0, 0, 0, 0, 0]"] t by (intro exI[of _ s]) simp
qed

text \<open>
  C37: the trailer protects the section. Serializing a long section without a given checksum appends one
  that \<open>validate_crc\<close> accepts, and the parsed section rejects, with \<open>CrcMismatch\<close>, every copy of the
  bytes whose covered part was changed only within 32 consecutive bits.
\<close>

theorem section_crc_protects:
  assumes "sec_sized s" "unat (sec_length s) < 4096" "sec_syntax_indicator s" "sec_crc32 s = None"
    and "sec_version_number s AND VERSION_NUMBER_MASK = sec_version_number s"
    and "w = sec_wire s" "s' = s\<lparr>sec_crc32 := Some (compute (take (length w - 4) w))\<rparr>"
    and "bits_of (take (length w - 4) w) = pre @ v @ post" "bits_of cov = pre @ v' @ post"
    and "length v' = length v" "length v \<le> 32" "v' \<noteq> v" "length tail = 4"
  shows "Section_parse w = Inr s' \<and> validate_crc s' w = Inr () \<and>
    (\<exists>m. validate_crc s' (cov @ tail) = Inl (TsCrcMismatch m))"
proof -
  have w: "w = sec_prefix s @ u32_to_be (compute (sec_prefix s))" using assms(3,4,6) by (simp add: sec_wire_def)
  then have cv: "take (length w - 4) w = sec_prefix s" by simp
  have w': "sec_wire s' = w" using assms(3) w cv by (simp add: assms(7) sec_wire_def sec_prefix_def sec_byte1_def sec_byte5_def)
  have "sec_ok s'" using assms(1,2,3,5) by (simp add: assms(7) sec_ok_def sec_sized_def)
  then have p: "Section_parse w = Inr s'" using Section_parse_wire[of s' "[]"] w' by simp
  have "compute cov \<noteq> compute (sec_prefix s)"
    unfolding compute_bits assms(8)[unfolded cv] assms(9)
    using burst_changes_register[of v' v] assms(10-12) by blast
  then have "\<exists>m. validate_crc s' (cov @ tail) = Inl (TsCrcMismatch m)"
    using assms(13) cv by (simp add: validate_crc_def assms(7) need_in_eq CRC_LEN_def Let_def)
  moreover have "validate_crc s' w = Inr ()"
    using w cv by (simp add: validate_crc_def assms(7) need_in_eq CRC_LEN_def Let_def)
  ultimately show ?thesis using p by blast
qed

theorem section_crc_protects_witness:
  "\<exists>s m. Section_parse (sec_wire (example_section\<lparr>sec_crc32 := None\<rparr>)) = Inr s \<and>
    validate_crc s (0x43 # tl (sec_wire (example_section\<lparr>sec_crc32 := None\<rparr>))) = Inl (TsCrcMismatch m)"
proof -
  let ?s = "example_section\<lparr>sec_crc32 := None\<rparr>"
  define ys where "ys = tl (sec_prefix ?s)"
  have pf: "sec_prefix ?s = 0x42 # ys" by (simp add: ys_def sec_prefix_def example_section_def)
  have w: "sec_wire ?s = 0x42 # ys @ u32_to_be (compute (sec_prefix ?s))"
    using pf by (simp add: sec_wire_def) (simp add: example_section_def)
  then have cv: "take (length (sec_wire ?s) - 4) (sec_wire ?s) = 0x42 # ys" by simp
  show ?thesis
    using section_crc_protects[of ?s "sec_wire ?s" _ "[]" "byte_bits 0x42" "bits_of ys" "0x43 # ys" "byte_bits 0x43"
        "u32_to_be (compute (sec_prefix ?s))"] cv w
    by (simp add: sec_sized_def example_section_def VERSION_NUMBER_MASK_def byte_bits_def)
qed

end
