(* ===== verification/Wire_Words.thy ===== *)
theory Wire_Words
  imports Common_Errors
begin

text \<open>
  Big-endian words at offsets of a packet, as the SRT and RIST codecs read and write them (the helper
  functions of \<open>srt-runtime/src/packet/mod.rs\<close>), and images made of 32-bit words.
\<close>

section \<open>Words at offsets\<close>

definition be32 :: "bytes \<Rightarrow> nat \<Rightarrow> u32" where
  "be32 bs off = u32_from_be (bs ! off) (bs ! (off + 1)) (bs ! (off + 2)) (bs ! (off + 3))"

definition put_be32 :: "bytes \<Rightarrow> nat \<Rightarrow> u32 \<Rightarrow> bytes" where
  "put_be32 buf off v = put_slice buf off (u32_to_be v)"

definition be16 :: "bytes \<Rightarrow> nat \<Rightarrow> u16" where
  "be16 bs off = u16_from_be (bs ! off) (bs ! (off + 1))"

definition put_be16 :: "bytes \<Rightarrow> nat \<Rightarrow> u16 \<Rightarrow> bytes" where
  "put_be16 buf off v = put_slice buf off (u16_to_be v)"

text \<open>An image made of words is read and written word by word.\<close>

definition words :: "u32 list \<Rightarrow> bytes" where
  "words ws = concat (map u32_to_be ws)"

lemma length_words [simp]: "length (words ws) = 4 * length ws"
  by (induction ws) (simp_all add: words_def)

lemma words_Nil [simp]: "words [] = []"
  by (simp add: words_def)

lemma words_Cons: "words (w # ws) = u32_to_be w @ words ws"
  by (simp add: words_def)

lemma words_append: "words (vs @ ws) = words vs @ words ws"
  by (simp add: words_def)

lemma be32_at: "off = length pre \<Longrightarrow> be32 (pre @ u32_to_be w @ rest) off = w"
  by (simp add: be32_def nth_append u32_to_be_def)

lemma be32_words:
  assumes "i < length ws" "off = 4 * i"
  shows "be32 (words ws @ rest) off = ws ! i"
proof -
  have "ws = take i ws @ ws ! i # drop (Suc i) ws" using assms(1) by (rule id_take_nth_drop)
  then have "words ws @ rest = words (take i ws) @ u32_to_be (ws ! i) @ (words (drop (Suc i) ws) @ rest)"
    by (metis append_assoc words_Cons words_append)
  then show ?thesis using be32_at[of off "words (take i ws)" "ws ! i"] assms by (simp add: min_def)
qed

lemma be32_back: "off + 4 \<le> length bs \<Longrightarrow> u32_to_be (be32 bs off) = sub_slice bs off (off + 4)"
proof -
  assume "off + 4 \<le> length bs"
  then have "length (sub_slice bs off (off + 4)) = 4" by simp
  then have "sub_slice bs off (off + 4) = map ((!) (sub_slice bs off (off + 4))) [0, 1, 2, 3]"
    by (auto simp: length_Suc_conv eval_nat_numeral)
  also have "\<dots> = [bs ! off, bs ! (off + 1), bs ! (off + 2), bs ! (off + 3)]"
    using \<open>off + 4 \<le> length bs\<close> by (simp add: sub_slice_nth)
  finally show ?thesis by (simp add: be32_def)
qed

lemma put_be32_0 [simp]: "put_be32 buf 0 w = words [w] @ drop 4 buf"
  by (simp add: put_be32_def words_def)

lemma put_be32_words [simp]:
  "off = 4 * length ws \<Longrightarrow> put_be32 (words ws @ rest) off w = words (ws @ [w]) @ drop 4 rest"
  by (simp add: put_be32_def words_append words_Cons)

text \<open>The first \<open>n\<close> words of a buffer, read at their offsets.\<close>

lemma take_words:
  "4 * n \<le> length bs \<Longrightarrow> words (map (\<lambda>i. be32 bs (4 * i)) [0..<n]) = take (4 * n) bs"
proof (induction n)
  case (Suc n)
  have "take (4 * Suc n) bs = take (4 * n) bs @ sub_slice bs (4 * n) (4 * n + 4)"
    by (simp add: sub_slice_def take_add[symmetric] add.commute)
  then show ?case using Suc be32_back[of "4 * n" bs] by (simp add: words_append words_Cons)
qed simp

lemma be16_at: "off = length pre \<Longrightarrow> be16 (pre @ u16_to_be w @ rest) off = w"
  by (simp add: be16_def nth_append u16_to_be_def)

lemma be16_back: "off + 2 \<le> length bs \<Longrightarrow> u16_to_be (be16 bs off) = sub_slice bs off (off + 2)"
proof -
  assume len: "off + 2 \<le> length bs"
  then have "length (sub_slice bs off (off + 2)) = 2" by simp
  then have "sub_slice bs off (off + 2) = map ((!) (sub_slice bs off (off + 2))) [0, 1]"
    by (auto simp: length_Suc_conv eval_nat_numeral)
  also have "\<dots> = [bs ! off, bs ! (off + 1)]" using len by (simp add: sub_slice_nth)
  finally show ?thesis by (simp add: be16_def)
qed

end
