(* ===== verification/Srt_Wire.thy ===== *)
theory Srt_Wire
  imports Wire_Words Seq
begin

text \<open>
  SRT packet primitives and the data packet (\<open>srt-runtime/src/packet/mod.rs\<close>, \<open>data.rs\<close>,
  \<open>error.rs\<close>): the error type, the header word with its bit fields, and the
  byte-exact round trip of data packets.
\<close>

section \<open>Errors\<close>

text \<open>
  The errors the packet codecs can return; the handshake state machines and the socket adapter add
  others to the same Rust type.
\<close>

datatype SrtError =
    SrtBufferTooShort BufferTooShort
  | SrtOutputBufferTooSmall OutputBufferTooSmall
  | SrtFieldOverflow FieldOverflow
  | InvalidAckLength nat
  | InvalidLossList string
  | ExtensionOverrun u16 nat
  | InvalidStreamIdUtf8
  | WrongPacketKind string
  | SrtReservedBits ReservedBits
  | SrtInvalidField InvalidField
  | UnexpectedTrailingBytes string nat
  | UnexpectedControlPacket string
  | HandshakeOutOfSequence string string

section \<open>The header\<close>

definition SRT_HEADER_LEN :: nat where "SRT_HEADER_LEN = 16"
definition F_BIT :: u32 where "F_BIT = 0x80000000"
definition DEST_SOCKET_ID_OFFSET :: nat where "DEST_SOCKET_ID_OFFSET = 12"

definition peek_dest_socket_id :: "bytes \<Rightarrow> u32 option" where
  "peek_dest_socket_id bs = (if length bs < SRT_HEADER_LEN then None else Some (be32 bs DEST_SOCKET_ID_OFFSET))"

section \<open>Data packets\<close>

datatype PacketPosition = PpFirst | PpMiddle | PpLast | PpSolo

definition PacketPosition_from_bits :: "u8 \<Rightarrow> PacketPosition" where
  "PacketPosition_from_bits v =
     (let b = v AND 3 in if b = 2 then PpFirst else if b = 1 then PpLast else if b = 3 then PpSolo else PpMiddle)"

fun PacketPosition_to_bits :: "PacketPosition \<Rightarrow> u8" where
  "PacketPosition_to_bits PpFirst = 2"
| "PacketPosition_to_bits PpMiddle = 0"
| "PacketPosition_to_bits PpLast = 1"
| "PacketPosition_to_bits PpSolo = 3"

datatype EncryptionKeyField = NotEncrypted | Even | Odd | KkReserved u8

definition EncryptionKeyField_from_bits :: "u8 \<Rightarrow> EncryptionKeyField" where
  "EncryptionKeyField_from_bits v =
     (let b = v AND 3 in if b = 0 then NotEncrypted else if b = 1 then Even else if b = 2 then Odd else KkReserved b)"

fun EncryptionKeyField_to_bits :: "EncryptionKeyField \<Rightarrow> u8" where
  "EncryptionKeyField_to_bits NotEncrypted = 0"
| "EncryptionKeyField_to_bits Even = 1"
| "EncryptionKeyField_to_bits Odd = 2"
| "EncryptionKeyField_to_bits (KkReserved v) = v AND 3"

definition MESSAGE_NUMBER_MASK :: u32 where "MESSAGE_NUMBER_MASK = push_bit 26 1 - 1"

definition next_message_number :: "u32 \<Rightarrow> u32" where
  "next_message_number n =
     (let nx = ((n AND MESSAGE_NUMBER_MASK) + 1) AND MESSAGE_NUMBER_MASK in if nx = 0 then 1 else nx)"

record DataPacket =
  dp_seq_number :: u32
  dp_position :: PacketPosition
  dp_in_order :: bool
  dp_key_flag :: EncryptionKeyField
  dp_retransmitted :: bool
  dp_message_number :: u32
  dp_timestamp :: u32
  dp_dest_socket_id :: u32
  dp_data :: bytes

definition KK_SHIFT :: nat where "KK_SHIFT = 27"
definition PP_SHIFT :: nat where "PP_SHIFT = 30"
definition O_SHIFT :: nat where "O_SHIFT = 29"
definition R_SHIFT :: nat where "R_SHIFT = 26"

definition DataPacket_parse :: "bytes \<Rightarrow> (SrtError, DataPacket) result" where
  "DataPacket_parse bs =
     and_then (map_err SrtBufferTooShort (need_in bs SRT_HEADER_LEN ''SRT data packet header'')) (\<lambda>_.
       let word0 = be32 bs 0
       in if word0 AND F_BIT \<noteq> 0 then Err (WrongPacketKind ''data packet (F=0)'')
          else let word1 = be32 bs 4
          in Ok \<lparr>dp_seq_number = word0 AND SEQ_NUMBER_MASK,
                 dp_position = PacketPosition_from_bits (ucast (drop_bit PP_SHIFT word1)),
                 dp_in_order = (drop_bit O_SHIFT word1 AND 1 \<noteq> 0),
                 dp_key_flag = EncryptionKeyField_from_bits (ucast (drop_bit KK_SHIFT word1)),
                 dp_retransmitted = (drop_bit R_SHIFT word1 AND 1 \<noteq> 0),
                 dp_message_number = word1 AND MESSAGE_NUMBER_MASK,
                 dp_timestamp = be32 bs 8,
                 dp_dest_socket_id = be32 bs 12,
                 dp_data = drop SRT_HEADER_LEN bs\<rparr>)"

definition DataPacket_serialized_len :: "DataPacket \<Rightarrow> nat" where
  "DataPacket_serialized_len p = SRT_HEADER_LEN + length (dp_data p)"

text \<open>\<open>fit_bits\<close> at a constant width cannot panic; only its error value matters here.\<close>

definition check_bits :: "u32 \<Rightarrow> nat \<Rightarrow> string \<Rightarrow> (SrtError, unit) result" where
  "check_bits v bits field =
     (case fit_bits (unat v) bits field of
        Some (Inr _) \<Rightarrow> Ok () | Some (Inl e) \<Rightarrow> Err (SrtFieldOverflow e) | None \<Rightarrow> Ok ())"

definition data_word1 :: "DataPacket \<Rightarrow> u32" where
  "data_word1 p =
     push_bit PP_SHIFT (ucast (PacketPosition_to_bits (dp_position p)))
     OR push_bit O_SHIFT (if dp_in_order p then 1 else 0)
     OR push_bit KK_SHIFT (ucast (EncryptionKeyField_to_bits (dp_key_flag p)))
     OR push_bit R_SHIFT (if dp_retransmitted p then 1 else 0)
     OR dp_message_number p"

definition DataPacket_serialize_into :: "DataPacket \<Rightarrow> bytes \<Rightarrow> (SrtError, bytes \<times> nat) result" where
  "DataPacket_serialize_into p buf =
     (let len = DataPacket_serialized_len p
      in and_then (map_err SrtOutputBufferTooSmall (need_out buf len)) (\<lambda>_.
         and_then (check_bits (dp_seq_number p) 31 ''Packet Sequence Number'') (\<lambda>_.
         and_then (check_bits (dp_message_number p) 26 ''Message Number'') (\<lambda>_.
           let word0 = dp_seq_number p;
               word1 = data_word1 p;
               buf = put_be32 buf 0 word0;
               buf = put_be32 buf 4 word1;
               buf = put_be32 buf 8 (dp_timestamp p);
               buf = put_be32 buf 12 (dp_dest_socket_id p);
               buf = put_slice buf SRT_HEADER_LEN (dp_data p)
           in Ok (buf, len)))))"


section \<open>Byte-exact round trip of data packets\<close>

lemma fits_iff_masked: "unat (v :: 'a::len word) < 2 ^ n \<longleftrightarrow> v AND mask n = v"
  by (simp only: word_unat_eq_iff take_bit_eq_mask[symmetric] unsigned_take_bit_eq take_bit_nat_eq_self_iff)

lemma check_bits_eq:
  "0 < n \<Longrightarrow> n < 32 \<Longrightarrow> check_bits v n field = (if v AND mask n = v then Ok ()
     else Err (SrtFieldOverflow \<lparr>fo_field = field, fo_value = unat v, fo_max = 2 ^ n - 1\<rparr>))"
  by (simp add: check_bits_def fit_bits_total fits_iff_masked)

lemma mask31: "mask 31 = SEQ_NUMBER_MASK" and mask26: "mask 26 = MESSAGE_NUMBER_MASK"
  by (simp_all add: SEQ_NUMBER_MASK_def MESSAGE_NUMBER_MASK_def mask_eq_exp_minus_1)

definition data_wire :: "DataPacket \<Rightarrow> bytes" where
  "data_wire p = words [dp_seq_number p, data_word1 p, dp_timestamp p, dp_dest_socket_id p] @ dp_data p"

definition data_ok :: "DataPacket \<Rightarrow> bool" where
  "data_ok p \<longleftrightarrow> dp_seq_number p AND SEQ_NUMBER_MASK = dp_seq_number p \<and>
     dp_message_number p AND MESSAGE_NUMBER_MASK = dp_message_number p \<and>
     (case dp_key_flag p of KkReserved v \<Rightarrow> v = 3 | _ \<Rightarrow> True)"

lemma two_bits: "(v :: u8) AND 3 = 0 \<or> v AND 3 = 1 \<or> v AND 3 = 2 \<or> v AND 3 = 3"
proof -
  have "unat (v AND 3) < 4" using word_and_le1[of v 3] by (simp add: word_le_nat_alt)
  then have "unat (v AND 3) \<in> {0, 1, 2, 3}" by auto
  then show ?thesis by (auto simp: word_unat_eq_iff)
qed

lemma position_bits:
  "PacketPosition_from_bits (PacketPosition_to_bits q) = q" "PacketPosition_to_bits (PacketPosition_from_bits v) = v AND 3"
  using two_bits[of v] by (cases q, auto simp: PacketPosition_from_bits_def Let_def)

lemma key_bits:
  "(case k of KkReserved v \<Rightarrow> v = 3 | _ \<Rightarrow> True) \<Longrightarrow> EncryptionKeyField_from_bits (EncryptionKeyField_to_bits k) = k"
  "EncryptionKeyField_to_bits (EncryptionKeyField_from_bits v) = v AND 3"
  "case EncryptionKeyField_from_bits v of KkReserved w \<Rightarrow> w = 3 | _ \<Rightarrow> True"
  using two_bits[of v] by (cases k, auto simp: EncryptionKeyField_from_bits_def Let_def)

lemma from_bits_masked:
  "PacketPosition_from_bits (v AND 3) = PacketPosition_from_bits v"
  "EncryptionKeyField_from_bits (v AND 3) = EncryptionKeyField_from_bits v"
  by (simp_all add: PacketPosition_from_bits_def EncryptionKeyField_from_bits_def and.assoc)

lemma to_bits_masked:
  "PacketPosition_to_bits q AND 3 = PacketPosition_to_bits q"
  "EncryptionKeyField_to_bits k AND 3 = EncryptionKeyField_to_bits k"
  by (cases q; simp) (cases k; simp add: and.assoc)

lemmas data_shifts = KK_SHIFT_def PP_SHIFT_def O_SHIFT_def R_SHIFT_def

text \<open>The second header word, field by field.\<close>

definition pack_word1 :: "u8 \<Rightarrow> bool \<Rightarrow> u8 \<Rightarrow> bool \<Rightarrow> u32 \<Rightarrow> u32" where
  "pack_word1 pp ord kk r n = push_bit 30 (ucast pp) OR push_bit 29 (if ord then 1 else 0)
     OR push_bit 27 (ucast kk) OR push_bit 26 (if r then 1 else 0) OR n"

lemma bit_if_1: "bit (if b then 1 else 0 :: 'a::len word) i \<longleftrightarrow> b \<and> i = 0"
  by (simp add: bit_1_iff)

lemma pack_word1_bits:
  "bit (pack_word1 pp ord (kk AND mask 2) r (n AND mask 26)) i \<longleftrightarrow>
     (if i < 26 then bit n i else if i = 26 then r else if i < 29 then bit kk (i - 27)
      else if i = 29 then ord else i < 32 \<and> bit pp (i - 30))"
  unfolding pack_word1_def bit_or_iff bit_push_bit_iff bit_if_1
  by (auto simp: bit_unsigned_iff bit_and_iff bit_mask_iff bit_imp_le_length)

lemma pack_word1_fields:
  assumes "n AND mask 26 = n" and "kk AND mask 2 = kk"
  shows "ucast (drop_bit 30 (pack_word1 pp ord kk r n)) AND mask 2 = pp AND mask 2"
    "ucast (drop_bit 27 (pack_word1 pp ord kk r n)) AND mask 2 = kk"
    "bit (pack_word1 pp ord kk r n) 29 = ord"
    "bit (pack_word1 pp ord kk r n) 26 = r"
    "pack_word1 pp ord kk r n AND mask 26 = n"
proof -
  obtain m k where [simp]: "n = m AND mask 26" "kk = k AND mask 2" using assms by metis
  show "ucast (drop_bit 30 (pack_word1 pp ord kk r n)) AND mask 2 = pp AND mask 2"
    "ucast (drop_bit 27 (pack_word1 pp ord kk r n)) AND mask 2 = kk"
    "pack_word1 pp ord kk r n AND mask 26 = n"
    by (rule bit_eqI, auto simp: bit_unsigned_iff bit_and_iff bit_mask_iff bit_drop_bit_eq pack_word1_bits)+
  show "bit (pack_word1 pp ord kk r n) 29 = ord" "bit (pack_word1 pp ord kk r n) 26 = r"
    by (simp_all add: pack_word1_bits)
qed

lemma pack_word1_back:
  "pack_word1 (ucast (drop_bit 30 w) AND mask 2) (bit w 29) (ucast (drop_bit 27 w) AND mask 2)
     (bit w 26) (w AND mask 26) = w" (is "?p = w")
proof (rule bit_eqI)
  fix i :: nat
  have cases: "i < 26 \<or> i = 26 \<or> i = 27 \<or> i = 28 \<or> i = 29 \<or> i = 30 \<or> i = 31 \<or> 32 \<le> i" by arith
  show "bit ?p i = bit w i"
    unfolding pack_word1_bits using cases
    by (auto simp: bit_unsigned_iff bit_and_iff bit_mask_iff bit_drop_bit_eq bit_range)
qed

lemma drop_bit_and_1: "drop_bit k (w :: 'a::len word) AND 1 \<noteq> 0 \<longleftrightarrow> bit w k"
  by (simp add: and_one_eq bit_iff_odd_drop_bit odd_iff_mod_2_eq_one)

lemma mask_2: "mask 2 = (3 :: 'a::len word)"
  by (simp add: mask_eq_exp_minus_1)

lemma data_word1_pack:
  "data_word1 p = pack_word1 (PacketPosition_to_bits (dp_position p)) (dp_in_order p)
     (EncryptionKeyField_to_bits (dp_key_flag p)) (dp_retransmitted p) (dp_message_number p)"
  by (simp add: data_word1_def pack_word1_def data_shifts)

lemma data_word1_fields:
  assumes "data_ok p"
  shows "PacketPosition_from_bits (ucast (drop_bit PP_SHIFT (data_word1 p))) = dp_position p"
    "EncryptionKeyField_from_bits (ucast (drop_bit KK_SHIFT (data_word1 p))) = dp_key_flag p"
    "bit (data_word1 p) O_SHIFT = dp_in_order p" "bit (data_word1 p) R_SHIFT = dp_retransmitted p"
    "data_word1 p AND MESSAGE_NUMBER_MASK = dp_message_number p"
proof -
  note f = pack_word1_fields[where n = "dp_message_number p" and kk = "EncryptionKeyField_to_bits (dp_key_flag p)",
      unfolded mask26 mask_2, OF _ to_bits_masked(2)]
  have n: "dp_message_number p AND MESSAGE_NUMBER_MASK = dp_message_number p" using assms by (simp add: data_ok_def)
  have k: "case dp_key_flag p of KkReserved v \<Rightarrow> v = 3 | _ \<Rightarrow> True" using assms by (simp add: data_ok_def)
  show "PacketPosition_from_bits (ucast (drop_bit PP_SHIFT (data_word1 p))) = dp_position p"
    using f(1)[OF n] by (metis PP_SHIFT_def data_word1_pack from_bits_masked(1) position_bits(1))
  show "EncryptionKeyField_from_bits (ucast (drop_bit KK_SHIFT (data_word1 p))) = dp_key_flag p"
    using f(2)[OF n] key_bits(1)[OF k] by (metis KK_SHIFT_def data_word1_pack from_bits_masked(2))
qed (use assms in \<open>simp_all add: data_word1_pack data_shifts data_ok_def to_bits_masked
      pack_word1_fields[unfolded mask26 mask_2]\<close>)

lemma F_BIT_bit: "w AND F_BIT \<noteq> 0 \<longleftrightarrow> bit w 31"
proof -
  have "F_BIT = push_bit 31 1" by (simp add: F_BIT_def)
  then show ?thesis by (simp only: bit_iff_and_push_bit_not_eq_0)
qed

lemma seq_mask_no_F: "w AND SEQ_NUMBER_MASK = w \<longleftrightarrow> \<not> bit w 31"
proof
  assume "w AND SEQ_NUMBER_MASK = w"
  then show "\<not> bit w 31" unfolding mask31[symmetric] by (metis bit_and_iff bit_mask_iff less_irrefl)
next
  assume w: "\<not> bit w 31"
  show "w AND SEQ_NUMBER_MASK = w" unfolding mask31[symmetric]
  proof (rule bit_eqI)
    fix i :: nat
    have "bit w i \<Longrightarrow> i < 31" using w bit_imp_le_length[of w i] by (cases "i = 31") auto
    then show "bit (w AND mask 31) i = bit w i" by (auto simp: bit_and_iff bit_mask_iff)
  qed
qed

lemma length_data_wire [simp]: "length (data_wire p) = 16 + length (dp_data p)"
  by (simp add: data_wire_def)

lemma DataPacket_parse_wire: "data_ok p \<Longrightarrow> DataPacket_parse (data_wire p) = Inr p"
proof -
  assume ok: "data_ok p"
  define ws where "ws = [dp_seq_number p, data_word1 p, dp_timestamp p, dp_dest_socket_id p]"
  have w: "data_wire p = words ws @ dp_data p" by (simp add: data_wire_def ws_def)
  have rd: "be32 (data_wire p) 0 = dp_seq_number p" "be32 (data_wire p) 4 = data_word1 p"
    "be32 (data_wire p) 8 = dp_timestamp p" "be32 (data_wire p) 12 = dp_dest_socket_id p"
    unfolding w using be32_words[of 0 ws 0] be32_words[of 1 ws 4] be32_words[of 2 ws 8] be32_words[of 3 ws 12]
    by (simp_all add: ws_def)
  have d: "drop SRT_HEADER_LEN (data_wire p) = dp_data p" by (simp add: w ws_def SRT_HEADER_LEN_def)
  have s: "dp_seq_number p AND SEQ_NUMBER_MASK = dp_seq_number p" using ok by (simp add: data_ok_def)
  show ?thesis
    unfolding DataPacket_parse_def Let_def need_in_eq rd d F_BIT_bit drop_bit_and_1 data_word1_fields[OF ok] s
    using s by (simp add: SRT_HEADER_LEN_def seq_mask_no_F)
qed

lemma DataPacket_parse_inverse: "DataPacket_parse bs = Inr p \<Longrightarrow> data_wire p = bs \<and> data_ok p"
proof -
  assume P: "DataPacket_parse bs = Inr p"
  then have len: "16 \<le> length bs" and F: "\<not> bit (be32 bs 0) 31"
    by (auto simp: DataPacket_parse_def need_in_eq SRT_HEADER_LEN_def Let_def F_BIT_bit split: if_splits)
  define w where "w = be32 bs 4"
  have s: "be32 bs 0 AND SEQ_NUMBER_MASK = be32 bs 0" using F by (simp add: seq_mask_no_F)
  have p: "p = \<lparr>dp_seq_number = be32 bs 0, dp_position = PacketPosition_from_bits (ucast (drop_bit 30 w)),
      dp_in_order = bit w 29, dp_key_flag = EncryptionKeyField_from_bits (ucast (drop_bit 27 w)),
      dp_retransmitted = bit w 26, dp_message_number = w AND MESSAGE_NUMBER_MASK,
      dp_timestamp = be32 bs 8, dp_dest_socket_id = be32 bs 12, dp_data = drop 16 bs\<rparr>"
    using P len F by (simp add: DataPacket_parse_def need_in_eq SRT_HEADER_LEN_def Let_def F_BIT_bit drop_bit_and_1 s
        data_shifts w_def)
  have w1: "data_word1 p = w"
    unfolding data_word1_pack p using pack_word1_back[of w, unfolded mask_2 mask26]
    by (simp add: position_bits(2) key_bits(2))
  have "words [be32 bs 0, be32 bs 4, be32 bs 8, be32 bs 12] = take 16 bs"
    using take_words[of 4 bs] len by (simp add: upt_rec)
  moreover have "data_wire p = words [be32 bs 0, be32 bs 4, be32 bs 8, be32 bs 12] @ drop 16 bs"
    unfolding data_wire_def w1 w_def by (simp add: p)
  ultimately have "data_wire p = bs" by simp
  moreover have "data_ok p"
    using s key_bits(3) by (simp add: data_ok_def p and.assoc)
  ultimately show ?thesis by blast
qed

lemma DataPacket_serialize_eq:
  "DataPacket_serialize_into p buf =
     (if length buf < 16 + length (dp_data p)
      then Err (SrtOutputBufferTooSmall \<lparr>obs_need = 16 + length (dp_data p), obs_have = length buf\<rparr>)
      else if dp_seq_number p AND SEQ_NUMBER_MASK \<noteq> dp_seq_number p
      then Err (SrtFieldOverflow \<lparr>fo_field = ''Packet Sequence Number'', fo_value = unat (dp_seq_number p), fo_max = 2 ^ 31 - 1\<rparr>)
      else if dp_message_number p AND MESSAGE_NUMBER_MASK \<noteq> dp_message_number p
      then Err (SrtFieldOverflow \<lparr>fo_field = ''Message Number'', fo_value = unat (dp_message_number p), fo_max = 2 ^ 26 - 1\<rparr>)
      else Ok (data_wire p @ drop (length (data_wire p)) buf, length (data_wire p)))"
  by (simp add: DataPacket_serialize_into_def DataPacket_serialized_len_def SRT_HEADER_LEN_def need_out_eq check_bits_eq
      mask31 mask26 Let_def data_wire_def add.commute)

interpretation srt_data: wire_type DataPacket_parse DataPacket_serialized_len DataPacket_serialize_into data_ok data_wire
  by unfold_locales
    (simp_all add: DataPacket_serialize_eq DataPacket_parse_wire DataPacket_serialized_len_def SRT_HEADER_LEN_def
      data_ok_def)

end
