(* ===== verification/Srt_Handshake.thy ===== *)
theory Srt_Handshake
  imports Srt_Wire
begin

text \<open>
  The SRT handshake control information field (\<open>srt-runtime/src/packet/handshake.rs\<close>): the code
  points of its enumerations, the extension messages, the chain of extension blocks and the walk
  over it, the stream identifier stored as little-endian words, and the fixed twelve words of the
  handshake itself.
\<close>

section \<open>Code points\<close>

definition HANDSHAKE_CIF_FIXED_LEN :: nat where "HANDSHAKE_CIF_FIXED_LEN = 48"

definition ENCRYPTION_FIELD_NONE :: u16 where "ENCRYPTION_FIELD_NONE = 0"
definition ENCRYPTION_FIELD_AES_128 :: u16 where "ENCRYPTION_FIELD_AES_128 = 2"
definition ENCRYPTION_FIELD_AES_192 :: u16 where "ENCRYPTION_FIELD_AES_192 = 3"
definition ENCRYPTION_FIELD_AES_256 :: u16 where "ENCRYPTION_FIELD_AES_256 = 4"

datatype EncryptionField = NoEncryption | Aes128 | Aes192 | Aes256 | EfReserved u16

definition EncryptionField_from_bits :: "u16 \<Rightarrow> EncryptionField" where
  "EncryptionField_from_bits v =
     (if v = ENCRYPTION_FIELD_NONE then NoEncryption
      else if v = ENCRYPTION_FIELD_AES_128 then Aes128
      else if v = ENCRYPTION_FIELD_AES_192 then Aes192
      else if v = ENCRYPTION_FIELD_AES_256 then Aes256
      else EfReserved v)"

fun EncryptionField_to_bits :: "EncryptionField \<Rightarrow> u16" where
  "EncryptionField_to_bits NoEncryption = ENCRYPTION_FIELD_NONE"
| "EncryptionField_to_bits Aes128 = ENCRYPTION_FIELD_AES_128"
| "EncryptionField_to_bits Aes192 = ENCRYPTION_FIELD_AES_192"
| "EncryptionField_to_bits Aes256 = ENCRYPTION_FIELD_AES_256"
| "EncryptionField_to_bits (EfReserved v) = v"

definition HANDSHAKE_TYPE_DONE :: u32 where "HANDSHAKE_TYPE_DONE = 0xFFFFFFFD"
definition HANDSHAKE_TYPE_AGREEMENT :: u32 where "HANDSHAKE_TYPE_AGREEMENT = 0xFFFFFFFE"
definition HANDSHAKE_TYPE_CONCLUSION :: u32 where "HANDSHAKE_TYPE_CONCLUSION = 0xFFFFFFFF"
definition HANDSHAKE_TYPE_WAVEHAND :: u32 where "HANDSHAKE_TYPE_WAVEHAND = 0x00000000"
definition HANDSHAKE_TYPE_INDUCTION :: u32 where "HANDSHAKE_TYPE_INDUCTION = 0x00000001"

datatype HandshakeType = HtDone | Agreement | Conclusion | Wavehand | Induction | HtReserved u32

definition HandshakeType_from_bits :: "u32 \<Rightarrow> HandshakeType" where
  "HandshakeType_from_bits v =
     (if v = HANDSHAKE_TYPE_DONE then HtDone
      else if v = HANDSHAKE_TYPE_AGREEMENT then Agreement
      else if v = HANDSHAKE_TYPE_CONCLUSION then Conclusion
      else if v = HANDSHAKE_TYPE_WAVEHAND then Wavehand
      else if v = HANDSHAKE_TYPE_INDUCTION then Induction
      else HtReserved v)"

fun HandshakeType_to_bits :: "HandshakeType \<Rightarrow> u32" where
  "HandshakeType_to_bits HtDone = HANDSHAKE_TYPE_DONE"
| "HandshakeType_to_bits Agreement = HANDSHAKE_TYPE_AGREEMENT"
| "HandshakeType_to_bits Conclusion = HANDSHAKE_TYPE_CONCLUSION"
| "HandshakeType_to_bits Wavehand = HANDSHAKE_TYPE_WAVEHAND"
| "HandshakeType_to_bits Induction = HANDSHAKE_TYPE_INDUCTION"
| "HandshakeType_to_bits (HtReserved v) = v"

text \<open>The flag words are newtypes over their integers; their accessors test one bit.\<close>

definition HS_EXT_FLAG_HSREQ :: u16 where "HS_EXT_FLAG_HSREQ = 0x0001"
definition HS_EXT_FLAG_KMREQ :: u16 where "HS_EXT_FLAG_KMREQ = 0x0002"
definition HS_EXT_FLAG_CONFIG :: u16 where "HS_EXT_FLAG_CONFIG = 0x0004"

definition ext_flag_hsreq :: "u16 \<Rightarrow> bool" where "ext_flag_hsreq w \<longleftrightarrow> w AND HS_EXT_FLAG_HSREQ \<noteq> 0"
definition ext_flag_kmreq :: "u16 \<Rightarrow> bool" where "ext_flag_kmreq w \<longleftrightarrow> w AND HS_EXT_FLAG_KMREQ \<noteq> 0"
definition ext_flag_config :: "u16 \<Rightarrow> bool" where "ext_flag_config w \<longleftrightarrow> w AND HS_EXT_FLAG_CONFIG \<noteq> 0"

definition EXT_TYPE_HSREQ :: u16 where "EXT_TYPE_HSREQ = 1"
definition EXT_TYPE_HSRSP :: u16 where "EXT_TYPE_HSRSP = 2"
definition EXT_TYPE_KMREQ :: u16 where "EXT_TYPE_KMREQ = 3"
definition EXT_TYPE_KMRSP :: u16 where "EXT_TYPE_KMRSP = 4"
definition EXT_TYPE_SID :: u16 where "EXT_TYPE_SID = 5"
definition EXT_TYPE_CONGESTION :: u16 where "EXT_TYPE_CONGESTION = 6"
definition EXT_TYPE_FILTER :: u16 where "EXT_TYPE_FILTER = 7"
definition EXT_TYPE_GROUP :: u16 where "EXT_TYPE_GROUP = 8"

datatype ExtensionType = HsReq | HsRsp | KmReq | KmRsp | Sid | Congestion | Filter | Group | EtReserved u16

definition ExtensionType_from_bits :: "u16 \<Rightarrow> ExtensionType" where
  "ExtensionType_from_bits v =
     (if v = EXT_TYPE_HSREQ then HsReq else if v = EXT_TYPE_HSRSP then HsRsp
      else if v = EXT_TYPE_KMREQ then KmReq else if v = EXT_TYPE_KMRSP then KmRsp
      else if v = EXT_TYPE_SID then Sid else if v = EXT_TYPE_CONGESTION then Congestion
      else if v = EXT_TYPE_FILTER then Filter else if v = EXT_TYPE_GROUP then Group
      else EtReserved v)"

fun ExtensionType_to_bits :: "ExtensionType \<Rightarrow> u16" where
  "ExtensionType_to_bits HsReq = EXT_TYPE_HSREQ"
| "ExtensionType_to_bits HsRsp = EXT_TYPE_HSRSP"
| "ExtensionType_to_bits KmReq = EXT_TYPE_KMREQ"
| "ExtensionType_to_bits KmRsp = EXT_TYPE_KMRSP"
| "ExtensionType_to_bits Sid = EXT_TYPE_SID"
| "ExtensionType_to_bits Congestion = EXT_TYPE_CONGESTION"
| "ExtensionType_to_bits Filter = EXT_TYPE_FILTER"
| "ExtensionType_to_bits Group = EXT_TYPE_GROUP"
| "ExtensionType_to_bits (EtReserved v) = v"

definition HS_MSG_FLAG_TSBPDSND :: u32 where "HS_MSG_FLAG_TSBPDSND = 0x01"
definition HS_MSG_FLAG_TSBPDRCV :: u32 where "HS_MSG_FLAG_TSBPDRCV = 0x02"
definition HS_MSG_FLAG_CRYPT :: u32 where "HS_MSG_FLAG_CRYPT = 0x04"
definition HS_MSG_FLAG_TLPKTDROP :: u32 where "HS_MSG_FLAG_TLPKTDROP = 0x08"
definition HS_MSG_FLAG_PERIODICNAK :: u32 where "HS_MSG_FLAG_PERIODICNAK = 0x10"
definition HS_MSG_FLAG_REXMITFLG :: u32 where "HS_MSG_FLAG_REXMITFLG = 0x20"
definition HS_MSG_FLAG_STREAM :: u32 where "HS_MSG_FLAG_STREAM = 0x40"
definition HS_MSG_FLAG_PACKET_FILTER :: u32 where "HS_MSG_FLAG_PACKET_FILTER = 0x80"

section \<open>Extension messages\<close>

record HsExtMessage =
  srt_version :: u32
  srt_flags :: u32
  receiver_tsbpd_delay_ms :: u16
  sender_tsbpd_delay_ms :: u16

definition HS_EXT_MESSAGE_LEN :: nat where "HS_EXT_MESSAGE_LEN = 12"

definition HsExtMessage_parse :: "bytes \<Rightarrow> (SrtError, HsExtMessage) result" where
  "HsExtMessage_parse bs =
     (if length bs \<noteq> HS_EXT_MESSAGE_LEN
      then Err (SrtBufferTooShort \<lparr>bts_need = HS_EXT_MESSAGE_LEN, bts_have = length bs,
                                   bts_what = ''handshake extension message''\<rparr>)
      else Ok \<lparr>srt_version = be32 bs 0, srt_flags = be32 bs 4,
               receiver_tsbpd_delay_ms = be16 bs 8, sender_tsbpd_delay_ms = be16 bs 10\<rparr>)"

definition HsExtMessage_to_bytes :: "HsExtMessage \<Rightarrow> bytes" where
  "HsExtMessage_to_bytes m =
     (let buf = replicate HS_EXT_MESSAGE_LEN 0;
          buf = put_be32 buf 0 (srt_version m);
          buf = put_be32 buf 4 (srt_flags m);
          buf = put_be16 buf 8 (receiver_tsbpd_delay_ms m);
          buf = put_be16 buf 10 (sender_tsbpd_delay_ms m)
      in buf)"

definition HsExtMessage_serialized_len :: "HsExtMessage \<Rightarrow> nat" where
  "HsExtMessage_serialized_len m = HS_EXT_MESSAGE_LEN"

definition HsExtMessage_serialize_into :: "HsExtMessage \<Rightarrow> bytes \<Rightarrow> (SrtError, bytes \<times> nat) result" where
  "HsExtMessage_serialize_into m buf =
     (if length buf < HS_EXT_MESSAGE_LEN
      then Err (SrtOutputBufferTooSmall \<lparr>obs_need = HS_EXT_MESSAGE_LEN, obs_have = length buf\<rparr>)
      else Ok (put_slice buf 0 (HsExtMessage_to_bytes m), HS_EXT_MESSAGE_LEN))"

definition GROUP_TYPE_UNDEFINED :: u8 where "GROUP_TYPE_UNDEFINED = 0"
definition GROUP_TYPE_BROADCAST :: u8 where "GROUP_TYPE_BROADCAST = 1"
definition GROUP_TYPE_MAIN_BACKUP :: u8 where "GROUP_TYPE_MAIN_BACKUP = 2"
definition GROUP_TYPE_BALANCING :: u8 where "GROUP_TYPE_BALANCING = 3"
definition GROUP_TYPE_MULTICAST :: u8 where "GROUP_TYPE_MULTICAST = 4"

datatype GroupType = Undefined | Broadcast | MainBackup | Balancing | Multicast | GtReserved u8

definition GroupType_from_bits :: "u8 \<Rightarrow> GroupType" where
  "GroupType_from_bits v =
     (if v = GROUP_TYPE_UNDEFINED then Undefined else if v = GROUP_TYPE_BROADCAST then Broadcast
      else if v = GROUP_TYPE_MAIN_BACKUP then MainBackup else if v = GROUP_TYPE_BALANCING then Balancing
      else if v = GROUP_TYPE_MULTICAST then Multicast else GtReserved v)"

fun GroupType_to_bits :: "GroupType \<Rightarrow> u8" where
  "GroupType_to_bits Undefined = GROUP_TYPE_UNDEFINED"
| "GroupType_to_bits Broadcast = GROUP_TYPE_BROADCAST"
| "GroupType_to_bits MainBackup = GROUP_TYPE_MAIN_BACKUP"
| "GroupType_to_bits Balancing = GROUP_TYPE_BALANCING"
| "GroupType_to_bits Multicast = GROUP_TYPE_MULTICAST"
| "GroupType_to_bits (GtReserved v) = v"

record GroupMembershipExtension =
  group_id :: u32
  group_type :: GroupType
  group_flags :: u8
  group_weight :: u16

definition GROUP_MEMBERSHIP_EXT_LEN :: nat where "GROUP_MEMBERSHIP_EXT_LEN = 8"

definition Group_parse :: "bytes \<Rightarrow> (SrtError, GroupMembershipExtension) result" where
  "Group_parse bs =
     (if length bs \<noteq> GROUP_MEMBERSHIP_EXT_LEN
      then Err (SrtBufferTooShort \<lparr>bts_need = GROUP_MEMBERSHIP_EXT_LEN, bts_have = length bs,
                                   bts_what = ''group membership extension''\<rparr>)
      else let word1 = be32 bs 4
           in Ok \<lparr>group_id = be32 bs 0, group_type = GroupType_from_bits (ucast (drop_bit 24 word1)),
                  group_flags = ucast (drop_bit 16 word1), group_weight = ucast (word1 AND 0xFFFF)\<rparr>)"

definition group_word1 :: "GroupMembershipExtension \<Rightarrow> u32" where
  "group_word1 g = push_bit 24 (ucast (GroupType_to_bits (group_type g)))
     OR push_bit 16 (ucast (group_flags g)) OR ucast (group_weight g)"

definition Group_to_bytes :: "GroupMembershipExtension \<Rightarrow> bytes" where
  "Group_to_bytes g =
     (let buf = replicate GROUP_MEMBERSHIP_EXT_LEN 0;
          buf = put_be32 buf 0 (group_id g);
          buf = put_be32 buf 4 (group_word1 g)
      in buf)"

definition Group_serialized_len :: "GroupMembershipExtension \<Rightarrow> nat" where
  "Group_serialized_len g = GROUP_MEMBERSHIP_EXT_LEN"

definition Group_serialize_into :: "GroupMembershipExtension \<Rightarrow> bytes \<Rightarrow> (SrtError, bytes \<times> nat) result" where
  "Group_serialize_into g buf =
     (if length buf < GROUP_MEMBERSHIP_EXT_LEN
      then Err (SrtOutputBufferTooSmall \<lparr>obs_need = GROUP_MEMBERSHIP_EXT_LEN, obs_have = length buf\<rparr>)
      else Ok (put_slice buf 0 (Group_to_bytes g), GROUP_MEMBERSHIP_EXT_LEN))"

section \<open>Extension blocks\<close>

record HandshakeExtensionBlock =
  ext_type :: ExtensionType
  ext_contents :: bytes

definition build_extension_block :: "ExtensionType \<Rightarrow> bytes \<Rightarrow> (SrtError, bytes) result" where
  "build_extension_block t contents =
     (if length contents mod 4 \<noteq> 0
      then Err (SrtInvalidField \<lparr>if_field = ''Extension Contents'',
                                 if_reason = ''length must be a whole number of 4-byte words''\<rparr>)
      else let ws = length contents div 4
           in and_then (map_err SrtFieldOverflow (fit_u16 ws ''Extension Length'')) (\<lambda>words_u16.
                Ok (u16_to_be (ExtensionType_to_bits t) @ u16_to_be words_u16 @ contents)))"

text \<open>
  One step of the extension iterator: the item, and the rest the iterator keeps. In the
  short-header branch the code clears \<open>rest\<close> before it reads its length for the error.
\<close>

definition ext_iter_next :: "bytes \<Rightarrow> ((SrtError, HandshakeExtensionBlock) result \<times> bytes) option" where
  "ext_iter_next rest =
     (if rest = [] then None
      else if length rest < 4
      then Some (Err (SrtBufferTooShort \<lparr>bts_need = 4, bts_have = 0,
                                         bts_what = ''handshake extension block header''\<rparr>), [])
      else let ext_type_bits = be16 rest 0;
               ext_len_words = be16 rest 2;
               ext_len_bytes = unat ext_len_words * 4
           in if length rest < 4 + ext_len_bytes
              then Some (Err (ExtensionOverrun ext_len_words (length rest - 4)), [])
              else Some (Ok \<lparr>ext_type = ExtensionType_from_bits ext_type_bits,
                             ext_contents = sub_slice rest 4 (4 + ext_len_bytes)\<rparr>,
                         drop (4 + ext_len_bytes) rest))"

text \<open>The items of the whole walk, as a \<open>for\<close> loop over the iterator sees them.\<close>

lemma ext_iter_next_shrinks: "ext_iter_next rest = Some (it, rest') \<Longrightarrow> length rest' < length rest"
  by (auto simp: ext_iter_next_def Let_def split: if_splits)

function ext_blocks :: "bytes \<Rightarrow> (SrtError, HandshakeExtensionBlock) result list" where
  "ext_blocks rest = (case ext_iter_next rest of None \<Rightarrow> [] | Some (it, rest') \<Rightarrow> it # ext_blocks rest')"
  by pat_completeness auto
termination
  by (relation "measure length") (use ext_iter_next_shrinks in \<open>force+\<close>)

declare ext_blocks.simps [simp del]

section \<open>The stream identifier\<close>

text \<open>\<open>chunks_exact(4)\<close>, each chunk reversed.\<close>

fun rev_words :: "bytes \<Rightarrow> bytes" where
  "rev_words (a # b # c # d # r) = d # c # b # a # rev_words r"
| "rev_words _ = []"

text \<open>\<open>while bytes.last() == Some(&0) { bytes.pop(); }\<close>\<close>

function trim_nul :: "bytes \<Rightarrow> bytes" where
  "trim_nul bs = (if bs \<noteq> [] \<and> last bs = 0 then trim_nul (butlast bs) else bs)"
  by pat_completeness auto
termination
  by (relation "measure length") simp_all

declare trim_nul.simps [simp del]

text \<open>\<open>while bytes.len() % 4 != 0 { bytes.push(0); }\<close>\<close>

function pad_words :: "bytes \<Rightarrow> bytes" where
  "pad_words bs = (if length bs mod 4 \<noteq> 0 then pad_words (bs @ [0]) else bs)"
  by pat_completeness auto
termination
  by (relation "measure (\<lambda>bs. (4 - length bs mod 4) mod 4)") (simp, auto simp: mod_Suc intro: diff_less_mono2)

declare pad_words.simps [simp del]

text \<open>
  The well-formed byte sequences of UTF-8, which \<open>String::from_utf8\<close> accepts (Unicode, table 3-7).
\<close>

definition utf8_cont :: "u8 \<Rightarrow> bool" where
  "utf8_cont b \<longleftrightarrow> 0x80 \<le> b \<and> b \<le> 0xBF"

fun utf8_valid :: "bytes \<Rightarrow> bool" where
  "utf8_valid [] \<longleftrightarrow> True"
| "utf8_valid (b # r) \<longleftrightarrow>
     (if b < 0x80 then utf8_valid r
      else if 0xC2 \<le> b \<and> b \<le> 0xDF then (case r of c # s \<Rightarrow> utf8_cont c \<and> utf8_valid s | [] \<Rightarrow> False)
      else if 0xE0 \<le> b \<and> b \<le> 0xEF then
        (case r of c # d # s \<Rightarrow>
           utf8_cont c \<and> (b = 0xE0 \<longrightarrow> 0xA0 \<le> c) \<and> (b = 0xED \<longrightarrow> c \<le> 0x9F) \<and> utf8_cont d \<and> utf8_valid s
         | _ \<Rightarrow> False)
      else if 0xF0 \<le> b \<and> b \<le> 0xF4 then
        (case r of c # d # e # s \<Rightarrow>
           utf8_cont c \<and> (b = 0xF0 \<longrightarrow> 0x90 \<le> c) \<and> (b = 0xF4 \<longrightarrow> c \<le> 0x8F) \<and> utf8_cont d \<and> utf8_cont e \<and> utf8_valid s
         | _ \<Rightarrow> False)
      else False)"

text \<open>A \<open>String\<close> is the list of its bytes.\<close>

definition as_stream_id :: "HandshakeExtensionBlock \<Rightarrow> (SrtError, bytes) result" where
  "as_stream_id blk =
     (let contents = ext_contents blk
      in if length contents mod 4 \<noteq> 0
         then Err (SrtBufferTooShort \<lparr>bts_need = (length contents + 3) div 4 * 4, bts_have = length contents,
                bts_what = ''stream ID extension (not a whole number of 4-byte words)''\<rparr>)
         else let bs = trim_nul (rev_words contents)
              in if utf8_valid bs then Ok bs else Err InvalidStreamIdUtf8)"

definition encode_stream_id :: "bytes \<Rightarrow> bytes" where
  "encode_stream_id sid = rev_words (pad_words sid)"

definition as_hs_ext_message :: "HandshakeExtensionBlock \<Rightarrow> (SrtError, HsExtMessage) result" where
  "as_hs_ext_message blk = HsExtMessage_parse (ext_contents blk)"

definition as_group_membership :: "HandshakeExtensionBlock \<Rightarrow> (SrtError, GroupMembershipExtension) result" where
  "as_group_membership blk = Group_parse (ext_contents blk)"

section \<open>The handshake packet\<close>

record HandshakePacket =
  hs_timestamp :: u32
  hs_dest_socket_id :: u32
  hs_version :: u32
  hs_encryption_field :: EncryptionField
  hs_extension_field :: u16
  hs_initial_seq_number :: u32
  hs_mtu :: u32
  hs_max_flow_window_size :: u32
  hs_handshake_type :: HandshakeType
  hs_srt_socket_id :: u32
  hs_syn_cookie :: u32
  hs_peer_ip :: "u32 list"
  hs_extensions :: bytes

definition Handshake_parse_cif :: "u32 \<Rightarrow> u32 \<Rightarrow> bytes \<Rightarrow> (SrtError, HandshakePacket) result" where
  "Handshake_parse_cif ts dest cif =
     and_then (map_err SrtBufferTooShort (need_in cif HANDSHAKE_CIF_FIXED_LEN ''handshake CIF'')) (\<lambda>_.
       let word1 = be32 cif 4
       in Ok \<lparr>hs_timestamp = ts, hs_dest_socket_id = dest, hs_version = be32 cif 0,
              hs_encryption_field = EncryptionField_from_bits (ucast (drop_bit 16 word1)),
              hs_extension_field = ucast (word1 AND 0xFFFF),
              hs_initial_seq_number = be32 cif 8, hs_mtu = be32 cif 12,
              hs_max_flow_window_size = be32 cif 16,
              hs_handshake_type = HandshakeType_from_bits (be32 cif 20),
              hs_srt_socket_id = be32 cif 24, hs_syn_cookie = be32 cif 28,
              hs_peer_ip = [be32 cif 32, be32 cif 36, be32 cif 40, be32 cif 44],
              hs_extensions = drop HANDSHAKE_CIF_FIXED_LEN cif\<rparr>)"

definition Handshake_cif_len :: "HandshakePacket \<Rightarrow> nat" where
  "Handshake_cif_len h = HANDSHAKE_CIF_FIXED_LEN + length (hs_extensions h)"

definition hs_word1 :: "HandshakePacket \<Rightarrow> u32" where
  "hs_word1 h = push_bit 16 (ucast (EncryptionField_to_bits (hs_encryption_field h))) OR ucast (hs_extension_field h)"

text \<open>The caller passes a buffer of exactly \<open>cif_len\<close> bytes.\<close>

definition Handshake_write_cif :: "HandshakePacket \<Rightarrow> bytes \<Rightarrow> bytes" where
  "Handshake_write_cif h buf =
     (let buf = put_be32 buf 0 (hs_version h);
          buf = put_be32 buf 4 (hs_word1 h);
          buf = put_be32 buf 8 (hs_initial_seq_number h);
          buf = put_be32 buf 12 (hs_mtu h);
          buf = put_be32 buf 16 (hs_max_flow_window_size h);
          buf = put_be32 buf 20 (HandshakeType_to_bits (hs_handshake_type h));
          buf = put_be32 buf 24 (hs_srt_socket_id h);
          buf = put_be32 buf 28 (hs_syn_cookie h);
          buf = put_be32 buf 32 (hs_peer_ip h ! 0);
          buf = put_be32 buf 36 (hs_peer_ip h ! 1);
          buf = put_be32 buf 40 (hs_peer_ip h ! 2);
          buf = put_be32 buf 44 (hs_peer_ip h ! 3)
      in put_slice buf HANDSHAKE_CIF_FIXED_LEN (hs_extensions h))"

section \<open>Round trips of the code points and messages\<close>

lemmas EncryptionField_codes = ENCRYPTION_FIELD_NONE_def ENCRYPTION_FIELD_AES_128_def ENCRYPTION_FIELD_AES_192_def
  ENCRYPTION_FIELD_AES_256_def
lemmas HandshakeType_codes = HANDSHAKE_TYPE_DONE_def HANDSHAKE_TYPE_AGREEMENT_def HANDSHAKE_TYPE_CONCLUSION_def
  HANDSHAKE_TYPE_WAVEHAND_def HANDSHAKE_TYPE_INDUCTION_def
lemmas ExtensionType_codes = EXT_TYPE_HSREQ_def EXT_TYPE_HSRSP_def EXT_TYPE_KMREQ_def EXT_TYPE_KMRSP_def EXT_TYPE_SID_def
  EXT_TYPE_CONGESTION_def EXT_TYPE_FILTER_def EXT_TYPE_GROUP_def
lemmas GroupType_codes = GROUP_TYPE_UNDEFINED_def GROUP_TYPE_BROADCAST_def GROUP_TYPE_MAIN_BACKUP_def
  GROUP_TYPE_BALANCING_def GROUP_TYPE_MULTICAST_def

lemma code_points_back [simp]:
  "EncryptionField_to_bits (EncryptionField_from_bits a) = a"
  "HandshakeType_to_bits (HandshakeType_from_bits b) = b"
  "ExtensionType_to_bits (ExtensionType_from_bits c) = c"
  "GroupType_to_bits (GroupType_from_bits d) = d"
  by (simp_all add: EncryptionField_from_bits_def HandshakeType_from_bits_def ExtensionType_from_bits_def
      GroupType_from_bits_def)

text \<open>
  A value is canonical when its reserved variant does not carry a defined code point; only such
  values come out of a parser.
\<close>

definition ef_canonical :: "EncryptionField \<Rightarrow> bool" where
  "ef_canonical e \<longleftrightarrow> (case e of EfReserved v \<Rightarrow> v \<notin> {0, 2, 3, 4} | _ \<Rightarrow> True)"
definition ht_canonical :: "HandshakeType \<Rightarrow> bool" where
  "ht_canonical e \<longleftrightarrow> (case e of HtReserved v \<Rightarrow> v \<notin> {0, 1, 0xFFFFFFFD, 0xFFFFFFFE, 0xFFFFFFFF} | _ \<Rightarrow> True)"
definition et_canonical :: "ExtensionType \<Rightarrow> bool" where
  "et_canonical e \<longleftrightarrow> (case e of EtReserved v \<Rightarrow> v \<notin> {1, 2, 3, 4, 5, 6, 7, 8} | _ \<Rightarrow> True)"
definition gt_canonical :: "GroupType \<Rightarrow> bool" where
  "gt_canonical e \<longleftrightarrow> (case e of GtReserved v \<Rightarrow> v \<notin> {0, 1, 2, 3, 4} | _ \<Rightarrow> True)"

lemma code_points_forth [simp]:
  "ef_canonical e \<Longrightarrow> EncryptionField_from_bits (EncryptionField_to_bits e) = e"
  "ht_canonical h \<Longrightarrow> HandshakeType_from_bits (HandshakeType_to_bits h) = h"
  "et_canonical t \<Longrightarrow> ExtensionType_from_bits (ExtensionType_to_bits t) = t"
  "gt_canonical g \<Longrightarrow> GroupType_from_bits (GroupType_to_bits g) = g"
proof -
  show "ef_canonical e \<Longrightarrow> EncryptionField_from_bits (EncryptionField_to_bits e) = e"
    by (cases e) (simp_all add: EncryptionField_from_bits_def EncryptionField_codes ef_canonical_def)
  show "ht_canonical h \<Longrightarrow> HandshakeType_from_bits (HandshakeType_to_bits h) = h"
    by (cases h) (simp_all add: HandshakeType_from_bits_def HandshakeType_codes ht_canonical_def)
  show "et_canonical t \<Longrightarrow> ExtensionType_from_bits (ExtensionType_to_bits t) = t"
    by (cases t) (simp_all add: ExtensionType_from_bits_def ExtensionType_codes et_canonical_def)
  show "gt_canonical g \<Longrightarrow> GroupType_from_bits (GroupType_to_bits g) = g"
    by (cases g) (simp_all add: GroupType_from_bits_def GroupType_codes gt_canonical_def)
qed

lemma code_points_canonical [simp]:
  "ef_canonical (EncryptionField_from_bits a)" "ht_canonical (HandshakeType_from_bits b)"
  "et_canonical (ExtensionType_from_bits c)" "gt_canonical (GroupType_from_bits d)"
  by (simp_all add: EncryptionField_from_bits_def EncryptionField_codes ef_canonical_def
     HandshakeType_from_bits_def HandshakeType_codes ht_canonical_def
     ExtensionType_from_bits_def ExtensionType_codes et_canonical_def
     GroupType_from_bits_def GroupType_codes gt_canonical_def)

text \<open>Two 16-bit halves in a 32-bit word.\<close>

definition halves :: "u16 \<Rightarrow> u16 \<Rightarrow> u32" where
  "halves a b = push_bit 16 (ucast a) OR ucast b"

lemma halves_bits: "bit (halves a b) i \<longleftrightarrow> (if i < 16 then bit b i else i < 32 \<and> bit a (i - 16))"
  unfolding halves_def by (auto simp: bit_or_iff bit_push_bit_iff bit_unsigned_iff bit_range)

lemma low_half: "(ucast ((w :: u32) AND 0xFFFF) :: u16) = ucast w"
  by (simp only: bit_pos) (simp add: bit_range)

lemma halves_fields [simp]: "ucast (drop_bit 16 (halves a b)) = a" "ucast (halves a b AND 0xFFFF) = b"
  unfolding low_half by (rule bit_eqI, auto simp: bit_unsigned_iff bit_drop_bit_eq halves_bits)+

lemma halves_back [simp]: "halves (ucast (drop_bit 16 w)) (ucast (w AND 0xFFFF)) = w"
  unfolding low_half
  by (rule bit_eqI) (auto simp: halves_bits bit_unsigned_iff bit_drop_bit_eq dest: bit_imp_le_length)

lemma put_be16_append [simp]: "i = length pre \<Longrightarrow> put_be16 (pre @ rest) i w = pre @ u16_to_be w @ drop 2 rest"
  by (simp add: put_be16_def)

lemma HsExtMessage_to_bytes_eq: "HsExtMessage_to_bytes m =
    words [srt_version m, srt_flags m] @ u16_to_be (receiver_tsbpd_delay_ms m) @ u16_to_be (sender_tsbpd_delay_ms m)"
  by (simp add: HsExtMessage_to_bytes_def HS_EXT_MESSAGE_LEN_def Let_def put_be16_def put_slice_def)

lemma HsExtMessage_round: "HsExtMessage_parse (HsExtMessage_to_bytes m) = Inr m"
proof -
  let ?w = "words [srt_version m, srt_flags m]"
  have w: "be32 (?w @ r) 0 = srt_version m" "be32 (?w @ r) 4 = srt_flags m" for r
    using be32_words[of 0 "[srt_version m, srt_flags m]" 0] be32_words[of 1 "[srt_version m, srt_flags m]" 4] by simp_all
  have h: "be16 (?w @ u16_to_be a @ u16_to_be b) 8 = a" "be16 (?w @ u16_to_be a @ u16_to_be b) 10 = b" for a b
    using be16_at[of 8 ?w a "u16_to_be b"] be16_at[of 10 "?w @ u16_to_be a" b "[]"] by simp_all
  show ?thesis unfolding HsExtMessage_to_bytes_eq HsExtMessage_parse_def w h by (simp add: HS_EXT_MESSAGE_LEN_def)
qed

lemma HsExtMessage_back: "HsExtMessage_parse bs = Inr m \<Longrightarrow> HsExtMessage_to_bytes m = bs"
proof -
  assume P: "HsExtMessage_parse bs = Inr m"
  then have len: "length bs = 12" by (simp add: HsExtMessage_parse_def HS_EXT_MESSAGE_LEN_def split: if_splits)
  have "words [be32 bs 0, be32 bs 4] = take 8 bs" using take_words[of 2 bs] len by (simp add: upt_rec)
  moreover have "take 8 bs @ sub_slice bs 8 10 @ sub_slice bs 10 12 = bs"
    using len take_sub_slice_drop[of 8 10 bs] by (simp add: sub_slice_def)
  ultimately show ?thesis
    using P len be16_back[of 8 bs] be16_back[of 10 bs]
    by (auto simp: HsExtMessage_parse_def HS_EXT_MESSAGE_LEN_def HsExtMessage_to_bytes_eq)
qed

interpretation hs_ext_message: wire_type HsExtMessage_parse HsExtMessage_serialized_len HsExtMessage_serialize_into
  "\<lambda>_. True" HsExtMessage_to_bytes
  by unfold_locales (simp_all add: HsExtMessage_round HsExtMessage_serialized_len_def HsExtMessage_serialize_into_def
      HS_EXT_MESSAGE_LEN_def, simp_all add: HsExtMessage_to_bytes_eq)

definition group_pack :: "u8 \<Rightarrow> u8 \<Rightarrow> u16 \<Rightarrow> u32" where
  "group_pack t f w = push_bit 24 (ucast t) OR push_bit 16 (ucast f) OR ucast w"

lemma group_pack_bits: "bit (group_pack t f w) i \<longleftrightarrow>
    (if i < 16 then bit w i else if i < 24 then bit f (i - 16) else i < 32 \<and> bit t (i - 24))"
  unfolding group_pack_def by (auto simp: bit_or_iff bit_push_bit_iff bit_unsigned_iff bit_range)

lemma group_pack_fields [simp]:
  "ucast (drop_bit 24 (group_pack t f w)) = t" "ucast (drop_bit 16 (group_pack t f w)) = f"
  "ucast (group_pack t f w AND 0xFFFF) = w"
  unfolding low_half by (rule bit_eqI, auto simp: bit_unsigned_iff bit_drop_bit_eq group_pack_bits)+

lemma group_pack_back [simp]:
  "group_pack (ucast (drop_bit 24 v)) (ucast (drop_bit 16 v)) (ucast (v AND 0xFFFF)) = v"
  unfolding low_half
  by (rule bit_eqI) (auto simp: group_pack_bits bit_unsigned_iff bit_drop_bit_eq dest: bit_imp_le_length)

lemma group_word1_pack: "group_word1 g = group_pack (GroupType_to_bits (group_type g)) (group_flags g) (group_weight g)"
  by (simp add: group_word1_def group_pack_def)

lemma Group_to_bytes_eq: "Group_to_bytes g = words [group_id g, group_word1 g]"
  by (simp add: Group_to_bytes_def GROUP_MEMBERSHIP_EXT_LEN_def Let_def)

lemma Group_round: "gt_canonical (group_type g) \<Longrightarrow> Group_parse (Group_to_bytes g) = Inr g"
proof -
  assume c: "gt_canonical (group_type g)"
  have w: "be32 (Group_to_bytes g) 0 = group_id g" "be32 (Group_to_bytes g) 4 = group_word1 g"
    unfolding Group_to_bytes_eq using be32_words[of 0 "[group_id g, group_word1 g]" 0 "[]"]
      be32_words[of 1 "[group_id g, group_word1 g]" 4 "[]"] by simp_all
  show ?thesis using c unfolding Group_parse_def w Let_def
    by (simp add: Group_to_bytes_eq group_word1_pack GROUP_MEMBERSHIP_EXT_LEN_def)
qed

lemma Group_back: "Group_parse bs = Inr g \<Longrightarrow> Group_to_bytes g = bs \<and> gt_canonical (group_type g)"
  using take_words[of 2 bs]
  by (auto simp: Group_parse_def GROUP_MEMBERSHIP_EXT_LEN_def Let_def Group_to_bytes_eq group_word1_pack upt_rec
      split: if_splits)

interpretation group_ext: wire_type Group_parse Group_serialized_len Group_serialize_into
  "\<lambda>g. gt_canonical (group_type g)" Group_to_bytes
  by unfold_locales (simp_all add: Group_round Group_serialized_len_def Group_serialize_into_def
      GROUP_MEMBERSHIP_EXT_LEN_def, simp_all add: Group_to_bytes_eq)

section \<open>The chain of extension blocks\<close>

text \<open>A block can be written when its contents are at most \<open>2\<^sup>1\<^sup>6 - 1\<close> whole words.\<close>

definition blk_ok :: "HandshakeExtensionBlock \<Rightarrow> bool" where
  "blk_ok b \<longleftrightarrow> et_canonical (ext_type b) \<and> length (ext_contents b) mod 4 = 0 \<and> length (ext_contents b) div 4 < 2 ^ 16"

definition blk_wire :: "HandshakeExtensionBlock \<Rightarrow> bytes" where
  "blk_wire b = u16_to_be (ExtensionType_to_bits (ext_type b)) @ u16_to_be (of_nat (length (ext_contents b) div 4))
     @ ext_contents b"

lemma build_extension_block_ok:
  "blk_ok b \<Longrightarrow> build_extension_block (ext_type b) (ext_contents b) = Inr (blk_wire b)"
  by (simp add: build_extension_block_def blk_ok_def blk_wire_def fit_u16_eq Let_def)

lemma ext_iter_next_wire:
  assumes "blk_ok b"
  shows "ext_iter_next (blk_wire b @ rest) = Some (Inr b, rest)"
proof -
  let ?n = "length (ext_contents b) div 4"
  have n: "?n * 4 = length (ext_contents b)" "unat (of_nat ?n :: u16) = ?n"
    using assms by (auto simp: blk_ok_def unat_of_nat)
  have w: "be16 (blk_wire b @ rest) 0 = ExtensionType_to_bits (ext_type b)"
    "be16 (blk_wire b @ rest) 2 = of_nat ?n"
    using be16_at[of 0 "[]"] be16_at[of 2 "u16_to_be (ExtensionType_to_bits (ext_type b))" "of_nat ?n" "ext_contents b @ rest"]
    by (simp_all add: blk_wire_def)
  have ne: "blk_wire b @ rest \<noteq> []" by (simp add: blk_wire_def u16_to_be_def)
  have c: "sub_slice (blk_wire b @ rest) 4 (4 + length (ext_contents b)) = ext_contents b"
    "drop (4 + length (ext_contents b)) (blk_wire b @ rest) = rest"
    "length (blk_wire b @ rest) = 4 + length (ext_contents b) + length rest"
    by (simp_all add: blk_wire_def sub_slice_def)
  show ?thesis
    using assms ne unfolding ext_iter_next_def w Let_def n c by (simp add: blk_ok_def)
qed

lemma ext_blocks_wires:
  "list_all blk_ok bs \<Longrightarrow> ext_blocks (concat (map blk_wire bs)) = map Inr bs"
proof (induction bs)
  case Nil
  show ?case by (subst ext_blocks.simps) (simp add: ext_iter_next_def)
next
  case (Cons b bs)
  then show ?case by (subst ext_blocks.simps) (simp add: ext_iter_next_wire)
qed

lemma ext_iter_next_back:
  assumes "ext_iter_next rest = Some (Inr b, rest')"
  shows "blk_ok b \<and> rest = blk_wire b @ rest'"
proof -
  define n where "n = unat (be16 rest 2)"
  have n: "n < 2 ^ 16" "of_nat n = be16 rest 2" unfolding n_def by (simp_all add: unsigned_less[of "be16 rest 2", simplified])
  have b: "b = \<lparr>ext_type = ExtensionType_from_bits (be16 rest 0), ext_contents = sub_slice rest 4 (4 + n * 4)\<rparr>"
    "rest' = drop (4 + n * 4) rest" "4 + n * 4 \<le> length rest"
    using assms by (auto simp: ext_iter_next_def Let_def n_def split: if_splits)
  have "rest = sub_slice rest 0 2 @ sub_slice rest 2 4 @ sub_slice rest 4 (4 + n * 4) @ rest'"
    unfolding b(2) by (simp add: sub_slice_drop_join)
  moreover have "u16_to_be (be16 rest 0) = sub_slice rest 0 2" "u16_to_be (be16 rest 2) = sub_slice rest 2 4"
    using be16_back[of 0 rest, unfolded add_0] be16_back[of 2 rest] b(3) by simp_all
  ultimately have "rest = u16_to_be (be16 rest 0) @ u16_to_be (be16 rest 2) @ sub_slice rest 4 (4 + n * 4) @ rest'"
    by (simp only:)
  then show ?thesis using b n by (simp add: blk_wire_def blk_ok_def)
qed

lemma ext_blocks_back:
  "ext_blocks rest = map Inr bs \<Longrightarrow> list_all blk_ok bs \<and> rest = concat (map blk_wire bs)"
proof (induction bs arbitrary: rest)
  case Nil
  then show ?case by (subst (asm) ext_blocks.simps) (auto simp: ext_iter_next_def Let_def split: option.splits if_splits)
next
  case (Cons b bs)
  then obtain rest' where "ext_iter_next rest = Some (Inr b, rest')" "ext_blocks rest' = map Inr bs"
    by (subst (asm) (2) ext_blocks.simps) (auto split: option.splits)
  then show ?case using Cons.IH[of rest'] ext_iter_next_back[of rest b rest'] by simp
qed

section \<open>The stream identifier, back and forth\<close>

lemma rev_words_word: "length a = 4 \<Longrightarrow> rev_words (a @ r) = rev a @ rev_words r"
  by (auto simp: length_Suc_conv eval_nat_numeral)

lemma length_rev_words: "length bs mod 4 = 0 \<Longrightarrow> length (rev_words bs) = length bs"
  by (induction bs rule: rev_words.induct) auto

lemma rev_words_twice: "length bs mod 4 = 0 \<Longrightarrow> rev_words (rev_words bs) = bs"
  by (induction bs rule: rev_words.induct) auto

text \<open>Padding and trimming are the two directions of "the same bytes up to trailing zeros".\<close>

lemma mod_4_step: "n mod 4 \<noteq> 0 \<Longrightarrow> (4 - n mod 4) mod 4 = Suc ((4 - Suc n mod 4) mod 4)" for n :: nat
proof -
  assume "n mod 4 \<noteq> 0"
  moreover have "n mod 4 < 4" by simp
  ultimately have "n mod 4 = 1 \<or> n mod 4 = 2 \<or> n mod 4 = 3" by arith
  then show ?thesis by (elim disjE) (simp_all add: mod_Suc)
qed

lemma mod_4_pad: "(n + (4 - n mod 4) mod 4) mod 4 = 0" for n :: nat
proof -
  have "(n + (4 - n mod 4) mod 4) mod 4 = (n mod 4 + (4 - n mod 4)) mod 4" by (simp only: mod_simps)
  also have "n mod 4 + (4 - n mod 4) = 4" by (simp add: less_imp_le)
  finally show ?thesis by simp
qed

lemma div_4_ceil: "n mod 4 \<noteq> 0 \<Longrightarrow> (n + 3) div 4 = Suc (n div 4)" for n :: nat
proof -
  assume "n mod 4 \<noteq> 0"
  moreover have "n mod 4 < 4" "n = 4 * (n div 4) + n mod 4" by simp_all
  ultimately show ?thesis by linarith
qed

lemma pad_words_eq: "\<exists>k < 4. pad_words bs = bs @ replicate k 0 \<and> length (pad_words bs) mod 4 = 0"
proof -
  have "pad_words bs = bs @ replicate ((4 - length bs mod 4) mod 4) 0"
  proof (induction bs rule: pad_words.induct)
    case (1 bs)
    show ?case
    proof (cases "length bs mod 4 = 0")
      case True then show ?thesis by (subst pad_words.simps) simp
    next
      case False
      then have k: "(4 - length bs mod 4) mod 4 = Suc ((4 - length (bs @ [0 :: u8]) mod 4) mod 4)"
        using mod_4_step[OF False] by simp
      have "pad_words bs = pad_words (bs @ [0])" using False by (subst pad_words.simps) simp
      then show ?thesis using "1" False unfolding k by simp
    qed
  qed
  moreover have "(length bs + (4 - length bs mod 4) mod 4) mod 4 = 0"
    by (rule mod_4_pad)
  ultimately show ?thesis by (metis length_append length_replicate mod_less_divisor zero_less_numeral)
qed

lemma trim_nul_replicate: "bs = [] \<or> last bs \<noteq> 0 \<Longrightarrow> trim_nul (bs @ replicate k 0) = bs"
proof (induction k)
  case 0
  then show ?case by (subst trim_nul.simps) auto
next
  case (Suc k)
  have "bs @ replicate (Suc k) 0 = (bs @ replicate k 0) @ [0]" by (simp add: replicate_append_same)
  then have "trim_nul (bs @ replicate (Suc k) 0) = trim_nul (bs @ replicate k 0)"
    by (subst trim_nul.simps) (simp add: butlast_append)
  then show ?case using Suc by simp
qed

lemma trim_nul_spec: "\<exists>k. bs = trim_nul bs @ replicate k 0 \<and> (trim_nul bs = [] \<or> last (trim_nul bs) \<noteq> 0)"
proof (induction bs rule: trim_nul.induct)
  case (1 bs)
  show ?case
  proof (cases "bs \<noteq> [] \<and> last bs = 0")
    case True
    then obtain k where k: "butlast bs = trim_nul (butlast bs) @ replicate k 0"
      "trim_nul (butlast bs) = [] \<or> last (trim_nul (butlast bs)) \<noteq> 0" using 1 by blast
    have t: "trim_nul bs = trim_nul (butlast bs)" using True by (subst trim_nul.simps) simp
    have "bs = butlast bs @ [0]" using True by (metis append_butlast_last_id)
    also have "\<dots> = (trim_nul bs @ replicate k 0) @ [0]" using k(1) unfolding t by simp
    also have "\<dots> = trim_nul bs @ replicate (Suc k) 0" by (simp add: replicate_append_same)
    finally show ?thesis using k(2) unfolding t by blast
  next
    case False
    then have "trim_nul bs = bs" by (subst trim_nul.simps) auto
    then show ?thesis using False by (intro exI[of _ 0]) auto
  qed
qed

lemma rev_words_append: "length a mod 4 = 0 \<Longrightarrow> rev_words (a @ b) = rev_words a @ rev_words b"
  by (induction a rule: rev_words.induct) auto

lemma rev_words_zeros: "rev_words (replicate (4 * n) 0) = replicate (4 * n) 0"
  by (induction n) (simp_all add: eval_nat_numeral)

lemma stream_pad_least: "(n + j) mod 4 = 0 \<Longrightarrow> (n + k) mod 4 = 0 \<Longrightarrow> k < 4 \<Longrightarrow> \<exists>i. j = k + 4 * i" for n j k :: nat
  by presburger

text \<open>A stream identifier is decoded from its encoding.\<close>

lemma stream_id_decodes:
  assumes "utf8_valid sid" "sid = [] \<or> last sid \<noteq> 0"
  shows "as_stream_id \<lparr>ext_type = t, ext_contents = encode_stream_id sid\<rparr> = Inr sid \<and>
      length (encode_stream_id sid) mod 4 = 0 \<and> length (encode_stream_id sid) < length sid + 4"
proof -
  obtain k where k: "k < 4" "pad_words sid = sid @ replicate k 0" "length (pad_words sid) mod 4 = 0"
    by (rule exE[OF pad_words_eq[of sid]]) (elim conjE)
  have "length (encode_stream_id sid) = length sid + k"
    unfolding encode_stream_id_def length_rev_words[OF k(3)] by (simp add: k(2))
  moreover have "trim_nul (rev_words (encode_stream_id sid)) = sid"
    unfolding encode_stream_id_def rev_words_twice[OF k(3)] using trim_nul_replicate[OF assms(2), of k] by (simp add: k(2))
  moreover have "(length sid + k) mod 4 = 0" using k(3) unfolding k(2) by simp
  ultimately show ?thesis using assms(1) k(1) by (simp add: as_stream_id_def)
qed

section \<open>The handshake, back and forth\<close>

definition hs_words :: "HandshakePacket \<Rightarrow> u32 list" where
  "hs_words h = [hs_version h, hs_word1 h, hs_initial_seq_number h, hs_mtu h, hs_max_flow_window_size h,
     HandshakeType_to_bits (hs_handshake_type h), hs_srt_socket_id h, hs_syn_cookie h,
     hs_peer_ip h ! 0, hs_peer_ip h ! 1, hs_peer_ip h ! 2, hs_peer_ip h ! 3]"

definition hs_ok :: "HandshakePacket \<Rightarrow> bool" where
  "hs_ok h \<longleftrightarrow> ef_canonical (hs_encryption_field h) \<and> ht_canonical (hs_handshake_type h) \<and> length (hs_peer_ip h) = 4"

lemma length_hs_words [simp]: "length (hs_words h) = 12"
  by (simp add: hs_words_def)

lemma Handshake_write_cif_eq:
  "length buf = Handshake_cif_len h \<Longrightarrow> Handshake_write_cif h buf = words (hs_words h) @ hs_extensions h"
  by (simp add: Handshake_write_cif_def Let_def hs_words_def HANDSHAKE_CIF_FIXED_LEN_def Handshake_cif_len_def)

lemma hs_word1_halves: "hs_word1 h = halves (EncryptionField_to_bits (hs_encryption_field h)) (hs_extension_field h)"
  by (simp add: hs_word1_def halves_def)

lemma Handshake_parse_wire:
  assumes "hs_ok h"
  shows "Handshake_parse_cif (hs_timestamp h) (hs_dest_socket_id h) (words (hs_words h) @ hs_extensions h) = Inr h"
proof -
  have rd: "be32 (words (hs_words h) @ r) (4 * i) = hs_words h ! i" if "i < 12" for i r
    using that be32_words[of i "hs_words h" "4 * i" r] by simp
  note r = rd[of 0, simplified] rd[of 1, simplified] rd[of 2, simplified] rd[of 3, simplified] rd[of 4, simplified]
    rd[of 5, simplified] rd[of 6, simplified] rd[of 7, simplified] rd[of 8, simplified] rd[of 9, simplified]
    rd[of 10, simplified] rd[of 11, simplified]
  have ip: "[hs_peer_ip h ! 0, hs_peer_ip h ! Suc 0, hs_peer_ip h ! 2, hs_peer_ip h ! 3] = hs_peer_ip h"
    using assms by (auto simp: hs_ok_def length_Suc_conv eval_nat_numeral)
  show ?thesis using assms ip unfolding Handshake_parse_cif_def need_in_eq Let_def r
    by (simp add: hs_ok_def hs_words_def HANDSHAKE_CIF_FIXED_LEN_def hs_word1_halves)
qed

lemma Handshake_parse_back:
  assumes "Handshake_parse_cif ts dest cif = Inr h"
  shows "hs_ok h \<and> hs_timestamp h = ts \<and> hs_dest_socket_id h = dest \<and> words (hs_words h) @ hs_extensions h = cif"
proof -
  have len: "48 \<le> length cif" using assms
    by (auto simp: Handshake_parse_cif_def need_in_eq HANDSHAKE_CIF_FIXED_LEN_def split: if_splits)
  have "words (map (\<lambda>i. be32 cif (4 * i)) [0..<12]) = take 48 cif" using take_words[of 12 cif] len by simp
  then have t: "words [be32 cif 0, be32 cif 4, be32 cif 8, be32 cif 12, be32 cif 16, be32 cif 20, be32 cif 24, be32 cif 28,
      be32 cif 32, be32 cif 36, be32 cif 40, be32 cif 44] = take 48 cif" by (simp add: upt_rec)
  show ?thesis using assms t len
    by (auto simp: Handshake_parse_cif_def need_in_eq HANDSHAKE_CIF_FIXED_LEN_def Let_def hs_ok_def hs_words_def
        hs_word1_halves)
qed

section \<open>Properties\<close>

text \<open>
  C33. Extension blocks survive the wire in both directions. Writing any list of blocks with
  \<open>build_extension_block\<close>, one after the other, and walking the result yields exactly those blocks
  and no error; and whenever a walk over arbitrary bytes yields no error, the bytes are exactly
  the blocks it yielded, written again. Both use only blocks whose contents are at most 65535
  whole words, and on any other contents \<open>build_extension_block\<close> reports an error.
\<close>

theorem extension_chain_round_trip:
  "(list_all blk_ok bs \<longrightarrow>
      (\<exists>ws. list_all2 (\<lambda>b w. build_extension_block (ext_type b) (ext_contents b) = Inr w) bs ws \<and>
            ext_blocks (concat ws) = map Inr bs)) \<and>
   (\<forall>blocks. ext_blocks rest = map Inr blocks \<longrightarrow>
      (\<exists>ws. list_all2 (\<lambda>b w. build_extension_block (ext_type b) (ext_contents b) = Inr w) blocks ws \<and>
            rest = concat ws)) \<and>
   ((\<exists>w. build_extension_block t c = Inr w) \<longleftrightarrow> length c mod 4 = 0 \<and> length c < 2 ^ 18)"
proof -
  have build: "list_all2 (\<lambda>b w. build_extension_block (ext_type b) (ext_contents b) = Inr w) l (map blk_wire l)"
    if "list_all blk_ok l" for l
    using that by (induction l) (simp_all add: build_extension_block_ok)
  have err: "(\<exists>w. build_extension_block t c = Inr w) \<longleftrightarrow> length c mod 4 = 0 \<and> length c < 2 ^ 18"
    by (auto simp: build_extension_block_def Let_def fit_u16_eq)
  show ?thesis
  proof (intro conjI allI impI err)
    assume "list_all blk_ok bs"
    then show "\<exists>ws. list_all2 (\<lambda>b w. build_extension_block (ext_type b) (ext_contents b) = Inr w) bs ws \<and>
        ext_blocks (concat ws) = map Inr bs"
      using build ext_blocks_wires by (intro exI[of _ "map blk_wire bs"]) blast
  next
    fix blocks
    assume "ext_blocks rest = map Inr blocks"
    then have "list_all blk_ok blocks" "rest = concat (map blk_wire blocks)" using ext_blocks_back by blast+
    then show "\<exists>ws. list_all2 (\<lambda>b w. build_extension_block (ext_type b) (ext_contents b) = Inr w) blocks ws \<and>
        rest = concat ws"
      using build by (intro exI[of _ "map blk_wire blocks"]) blast
  qed
qed

theorem extension_chain_round_trip_witness:
  "ext_blocks (u16_to_be 5 @ u16_to_be 1 @ [3, 2, 1, 0] @ u16_to_be 9 @ u16_to_be 0) =
     map Inr [\<lparr>ext_type = Sid, ext_contents = [3, 2, 1, 0]\<rparr>, \<lparr>ext_type = EtReserved 9, ext_contents = []\<rparr>]"
proof -
  let ?bs = "[\<lparr>ext_type = Sid, ext_contents = [3, 2, 1, 0]\<rparr>, \<lparr>ext_type = EtReserved 9, ext_contents = []\<rparr>]"
  have "list_all blk_ok ?bs" by (simp add: blk_ok_def et_canonical_def)
  then obtain ws where ws: "list_all2 (\<lambda>b w. build_extension_block (ext_type b) (ext_contents b) = Inr w) ?bs ws"
    "ext_blocks (concat ws) = map Inr ?bs"
    using extension_chain_round_trip[of ?bs "[]" Sid "[]"] by blast
  have "ws = [u16_to_be 5 @ u16_to_be 1 @ [3, 2, 1, 0], u16_to_be 9 @ u16_to_be 0]"
    using ws(1) by (auto simp: list_all2_Cons1 build_extension_block_def fit_u16_eq Let_def ExtensionType_codes)
  then show ?thesis using ws(2) by simp
qed

text \<open>
  The stream identifier survives its little-endian word storage. A UTF-8 string that does not
  end in NUL is encoded in a whole number of words that decode to it. Conversely, what is decoded
  from any contents is valid UTF-8 without a trailing NUL, and encoding it again gives the
  contents up to whole trailing words of zeros; the only errors are contents that are not whole
  words and contents that are not UTF-8.
\<close>

theorem stream_id_round_trip:
  "(utf8_valid sid \<and> (sid = [] \<or> last sid \<noteq> 0) \<longrightarrow>
      as_stream_id \<lparr>ext_type = t, ext_contents = encode_stream_id sid\<rparr> = Inr sid \<and>
      length (encode_stream_id sid) mod 4 = 0 \<and> length (encode_stream_id sid) < length sid + 4) \<and>
   (\<forall>s. as_stream_id blk = Inr s \<longrightarrow>
      utf8_valid s \<and> (s = [] \<or> last s \<noteq> 0) \<and>
      (\<exists>k. ext_contents blk = encode_stream_id s @ replicate (4 * k) 0)) \<and>
   (\<forall>e. as_stream_id blk = Inl e \<longrightarrow>
      (if length (ext_contents blk) mod 4 = 0 then e = InvalidStreamIdUtf8
       else e = SrtBufferTooShort \<lparr>bts_need = 4 * (length (ext_contents blk) div 4 + 1),
              bts_have = length (ext_contents blk),
              bts_what = ''stream ID extension (not a whole number of 4-byte words)''\<rparr>))"
proof -
  have A: "as_stream_id \<lparr>ext_type = t, ext_contents = encode_stream_id sid\<rparr> = Inr sid \<and>
      length (encode_stream_id sid) mod 4 = 0 \<and> length (encode_stream_id sid) < length sid + 4"
    if "utf8_valid sid" "sid = [] \<or> last sid \<noteq> 0"
    using stream_id_decodes[OF that] .
  have B: "utf8_valid s \<and> (s = [] \<or> last s \<noteq> 0) \<and> (\<exists>k. ext_contents blk = encode_stream_id s @ replicate (4 * k) 0)"
    if ok: "as_stream_id blk = Inr s" for s
  proof -
    let ?c = "ext_contents blk"
    have m: "length ?c mod 4 = 0" and s: "s = trim_nul (rev_words ?c)" and u: "utf8_valid s"
      using ok by (auto simp: as_stream_id_def Let_def split: if_splits)
    obtain j where j: "rev_words ?c = s @ replicate j 0" "s = [] \<or> last s \<noteq> 0"
      using trim_nul_spec[of "rev_words ?c"] s by blast
    obtain k where k: "k < 4" "pad_words s = s @ replicate k 0" "length (pad_words s) mod 4 = 0"
      by (rule exE[OF pad_words_eq[of s]]) (elim conjE)
    have "(length s + j) mod 4 = 0" using m length_rev_words[OF m] j(1) by simp
    then obtain n where n: "j = k + 4 * n"
      using k stream_pad_least[of "length s" j k] by auto
    then have "rev_words ?c = pad_words s @ replicate (4 * n) 0" using j(1) k(2) by (simp add: replicate_add)
    then have "?c = rev_words (pad_words s @ replicate (4 * n) 0)" using rev_words_twice[OF m] by simp
    also have "\<dots> = rev_words (pad_words s) @ rev_words (replicate (4 * n) 0)"
      using k(3) by (rule rev_words_append)
    also have "\<dots> = encode_stream_id s @ replicate (4 * n) 0"
      by (simp add: encode_stream_id_def rev_words_zeros)
    finally show ?thesis using u j(2) by blast
  qed
  have C: "length c mod 4 \<noteq> 0 \<Longrightarrow> (length c + 3) div 4 * 4 = 4 * (length c div 4 + 1)" for c :: bytes
    by (simp add: div_4_ceil)
  have D: "if length (ext_contents blk) mod 4 = 0 then e = InvalidStreamIdUtf8
       else e = SrtBufferTooShort \<lparr>bts_need = 4 * (length (ext_contents blk) div 4 + 1),
              bts_have = length (ext_contents blk),
              bts_what = ''stream ID extension (not a whole number of 4-byte words)''\<rparr>"
    if "as_stream_id blk = Inl e" for e
    using that C[of "ext_contents blk"] unfolding as_stream_id_def Let_def
    by (cases "length (ext_contents blk) mod 4 = 0") (simp_all split: if_splits)
  show ?thesis
    by (rule conjI, rule impI, elim conjE, erule (1) A, rule conjI, rule allI, rule impI, erule B,
        rule allI, rule impI, erule D)
qed

theorem stream_id_round_trip_witness:
  "as_stream_id \<lparr>ext_type = Sid, ext_contents = encode_stream_id [0x63, 0x61, 0x6D, 0x2F, 0xC3, 0xA9]\<rparr>
     = Inr [0x63, 0x61, 0x6D, 0x2F, 0xC3, 0xA9] \<and>
   (\<exists>k. [0x2F, 0x6D, 0x61, 0x63, 0, 0, 0, 0] =
      encode_stream_id [0x63, 0x61, 0x6D, 0x2F] @ replicate (4 * k) 0)"
proof -
  have t: "trim_nul [0x63, 0x61, 0x6D, 0x2F, 0, 0, 0, 0] = [0x63, 0x61, 0x6D, 0x2F]"
  proof -
    have "trim_nul ([0x63, 0x61, 0x6D, 0x2F] @ replicate 4 0) = [0x63, 0x61, 0x6D, 0x2F]"
      by (rule trim_nul_replicate) simp
    moreover have "replicate 4 0 = [0, 0, 0, 0 :: u8]" by (simp add: numeral_eq_Suc)
    ultimately show ?thesis by simp
  qed
  have "as_stream_id \<lparr>ext_type = Sid, ext_contents = [0x2F, 0x6D, 0x61, 0x63, 0, 0, 0, 0]\<rparr> = Inr [0x63, 0x61, 0x6D, 0x2F]"
    by (simp add: as_stream_id_def t)
  then show ?thesis
    using stream_id_round_trip[of "[0x63, 0x61, 0x6D, 0x2F, 0xC3, 0xA9]" Sid
        "\<lparr>ext_type = Sid, ext_contents = [0x2F, 0x6D, 0x61, 0x63, 0, 0, 0, 0]\<rparr>"]
    by (simp add: utf8_cont_def)
qed

end
