(* ===== verification/Srt_Control.thy ===== *)
theory Srt_Control
  imports Srt_Handshake
begin

text \<open>
  SRT control packets (\<open>srt-runtime/src/packet/control.rs\<close>, \<open>ack.rs\<close>, \<open>nak.rs\<close>, \<open>misc.rs\<close>) and the
  dispatch between data and control packets (\<open>packet/mod.rs\<close>): one record per packet type, parsing
  with its reserved-field checks, serialization, the loss list of a NAK, and the byte-exact round
  trips of all of them.
\<close>

section \<open>Acknowledgements\<close>

definition ACK_CIF_LEN_FULL :: nat where "ACK_CIF_LEN_FULL = 28"
definition ACK_CIF_LEN_SMALL :: nat where "ACK_CIF_LEN_SMALL = 16"
definition ACK_CIF_LEN_LIGHT :: nat where "ACK_CIF_LEN_LIGHT = 4"

text \<open>
  \<open>Full\<close>: last acknowledged number, RTT, RTT variance, available buffer, receiving rate, link
  capacity, receiving rate in bytes. \<open>Small\<close> has the first four, \<open>Light\<close> the first.
\<close>

datatype AckCif =
    Full u32 u32 u32 u32 u32 u32 u32
  | Small u32 u32 u32 u32
  | Light u32

record AckPacket =
  ack_number :: u32
  ack_timestamp :: u32
  ack_dest_socket_id :: u32
  ack_cif :: AckCif

definition Ack_parse_cif :: "u32 \<Rightarrow> u32 \<Rightarrow> u32 \<Rightarrow> bytes \<Rightarrow> (SrtError, AckPacket) result" where
  "Ack_parse_cif num ts dest cif =
     and_then
       (if length cif = ACK_CIF_LEN_FULL
        then Ok (Full (be32 cif 0) (be32 cif 4) (be32 cif 8) (be32 cif 12) (be32 cif 16) (be32 cif 20) (be32 cif 24))
        else if length cif = ACK_CIF_LEN_SMALL
        then Ok (Small (be32 cif 0) (be32 cif 4) (be32 cif 8) (be32 cif 12))
        else if length cif = ACK_CIF_LEN_LIGHT
        then Ok (Light (be32 cif 0))
        else Err (InvalidAckLength (length cif)))
       (\<lambda>parsed. Ok \<lparr>ack_number = num, ack_timestamp = ts, ack_dest_socket_id = dest, ack_cif = parsed\<rparr>)"

definition Ack_cif_len :: "AckPacket \<Rightarrow> nat" where
  "Ack_cif_len a =
     (case ack_cif a of
        Full _ _ _ _ _ _ _ \<Rightarrow> ACK_CIF_LEN_FULL
      | Small _ _ _ _ \<Rightarrow> ACK_CIF_LEN_SMALL
      | Light _ \<Rightarrow> ACK_CIF_LEN_LIGHT)"

definition Ack_write_cif :: "AckPacket \<Rightarrow> bytes \<Rightarrow> bytes" where
  "Ack_write_cif a buf =
     (case ack_cif a of
        Full acked rtt var avail rate cap bps \<Rightarrow>
          let buf = put_be32 buf 0 acked;
              buf = put_be32 buf 4 rtt;
              buf = put_be32 buf 8 var;
              buf = put_be32 buf 12 avail;
              buf = put_be32 buf 16 rate;
              buf = put_be32 buf 20 cap
          in put_be32 buf 24 bps
      | Small acked rtt var avail \<Rightarrow>
          let buf = put_be32 buf 0 acked;
              buf = put_be32 buf 4 rtt;
              buf = put_be32 buf 8 var
          in put_be32 buf 12 avail
      | Light acked \<Rightarrow> put_be32 buf 0 acked)"

section \<open>Loss reports\<close>

datatype LossListEntry = Single u32 | Range u32 u32

record NakPacket =
  nak_timestamp :: u32
  nak_dest_socket_id :: u32
  raw_loss_list :: bytes

definition Nak_parse_cif :: "u32 \<Rightarrow> u32 \<Rightarrow> bytes \<Rightarrow> NakPacket" where
  "Nak_parse_cif ts dest cif = \<lparr>nak_timestamp = ts, nak_dest_socket_id = dest, raw_loss_list = cif\<rparr>"

definition Nak_cif_len :: "NakPacket \<Rightarrow> nat" where
  "Nak_cif_len n = length (raw_loss_list n)"

definition Nak_write_cif :: "NakPacket \<Rightarrow> bytes \<Rightarrow> bytes" where
  "Nak_write_cif n buf = put_slice buf 0 (raw_loss_list n)"

text \<open>
  One step of the loss-list iterator. The last error leaves \<open>rest\<close> after the two words, so the
  walk goes on behind it.
\<close>

definition loss_iter_next :: "bytes \<Rightarrow> ((SrtError, LossListEntry) result \<times> bytes) option" where
  "loss_iter_next rest =
     (if rest = [] then None
      else if length rest < 4 then Some (Err (InvalidLossList ''trailing bytes are not a whole 4-byte entry''), [])
      else let w0 = be32 rest 0; rest = drop 4 rest
           in if w0 AND F_BIT \<noteq> 0
              then if length rest < 4
                   then Some (Err (InvalidLossList ''range entry missing its end sequence number''), [])
                   else let w1 = be32 rest 0; rest = drop 4 rest
                        in if w1 AND F_BIT \<noteq> 0
                           then Some (Err (InvalidLossList ''range end entry had its top bit set''), rest)
                           else Some (Ok (Range (w0 AND SEQ_NUMBER_MASK) (w1 AND SEQ_NUMBER_MASK)), rest)
              else Some (Ok (Single (w0 AND SEQ_NUMBER_MASK)), rest))"

lemma loss_iter_next_shrinks: "loss_iter_next rest = Some (it, rest') \<Longrightarrow> length rest' < length rest"
  by (auto simp: loss_iter_next_def Let_def split: if_splits)

function loss_entries :: "bytes \<Rightarrow> (SrtError, LossListEntry) result list" where
  "loss_entries rest = (case loss_iter_next rest of None \<Rightarrow> [] | Some (it, rest') \<Rightarrow> it # loss_entries rest')"
  by pat_completeness auto
termination
  by (relation "measure length") (use loss_iter_next_shrinks in \<open>force+\<close>)

declare loss_entries.simps [simp del]

fun build_loss_list :: "LossListEntry list \<Rightarrow> (SrtError, bytes) result" where
  "build_loss_list [] = Ok []"
| "build_loss_list (Single seq # es) =
     and_then (check_bits seq 31 ''loss list sequence number'') (\<lambda>_.
       and_then (build_loss_list es) (\<lambda>out. Ok (u32_to_be seq @ out)))"
| "build_loss_list (Range lo hi # es) =
     and_then (check_bits lo 31 ''loss list sequence number'') (\<lambda>_.
     and_then (check_bits hi 31 ''loss list sequence number'') (\<lambda>_.
       and_then (build_loss_list es) (\<lambda>out. Ok (u32_to_be (lo OR F_BIT) @ u32_to_be hi @ out))))"

section \<open>Packets without a control information field\<close>

record KeepAlivePacket =
  ka_timestamp :: u32
  ka_dest_socket_id :: u32
  ka_libsrt_pad :: bool

record CongestionWarningPacket =
  cw_timestamp :: u32
  cw_dest_socket_id :: u32
  cw_libsrt_pad :: bool

record ShutdownPacket =
  sd_timestamp :: u32
  sd_dest_socket_id :: u32
  sd_libsrt_pad :: bool

record AckAckPacket =
  aa_ack_number :: u32
  aa_timestamp :: u32
  aa_dest_socket_id :: u32
  aa_libsrt_pad :: bool

record DropReqPacket =
  dr_message_number :: u32
  dr_timestamp :: u32
  dr_dest_socket_id :: u32
  dr_first_seq :: u32
  dr_last_seq :: u32

record PeerErrorPacket =
  pe_error_code :: u32
  pe_timestamp :: u32
  pe_dest_socket_id :: u32
  pe_libsrt_pad :: bool

definition DropReq_parse_cif :: "u32 \<Rightarrow> u32 \<Rightarrow> u32 \<Rightarrow> bytes \<Rightarrow> (SrtError, DropReqPacket) result" where
  "DropReq_parse_cif num ts dest cif =
     (if length cif \<noteq> 8
      then Err (SrtBufferTooShort \<lparr>bts_need = 8, bts_have = length cif, bts_what = ''drop request CIF''\<rparr>)
      else Ok \<lparr>dr_message_number = num, dr_timestamp = ts, dr_dest_socket_id = dest,
               dr_first_seq = be32 cif 0, dr_last_seq = be32 cif 4\<rparr>)"

definition DropReq_cif_len :: "DropReqPacket \<Rightarrow> nat" where
  "DropReq_cif_len d = 8"

definition DropReq_write_cif :: "DropReqPacket \<Rightarrow> bytes \<Rightarrow> bytes" where
  "DropReq_write_cif d buf = put_be32 (put_be32 buf 0 (dr_first_seq d)) 4 (dr_last_seq d)"

section \<open>Control types\<close>

definition CONTROL_TYPE_HANDSHAKE :: u16 where "CONTROL_TYPE_HANDSHAKE = 0x0000"
definition CONTROL_TYPE_KEEPALIVE :: u16 where "CONTROL_TYPE_KEEPALIVE = 0x0001"
definition CONTROL_TYPE_ACK :: u16 where "CONTROL_TYPE_ACK = 0x0002"
definition CONTROL_TYPE_NAK :: u16 where "CONTROL_TYPE_NAK = 0x0003"
definition CONTROL_TYPE_CONGESTION_WARNING :: u16 where "CONTROL_TYPE_CONGESTION_WARNING = 0x0004"
definition CONTROL_TYPE_SHUTDOWN :: u16 where "CONTROL_TYPE_SHUTDOWN = 0x0005"
definition CONTROL_TYPE_ACKACK :: u16 where "CONTROL_TYPE_ACKACK = 0x0006"
definition CONTROL_TYPE_DROPREQ :: u16 where "CONTROL_TYPE_DROPREQ = 0x0007"
definition CONTROL_TYPE_PEERERROR :: u16 where "CONTROL_TYPE_PEERERROR = 0x0008"
definition CONTROL_TYPE_USER_DEFINED :: u16 where "CONTROL_TYPE_USER_DEFINED = 0x7FFF"

datatype ControlType = CtHandshake | CtKeepAlive | CtAck | CtNak | CtCongestionWarning | CtShutdown | CtAckAck
  | CtDropReq | CtPeerError | CtUserDefined | CtReserved u16

definition ControlType_from_bits :: "u16 \<Rightarrow> ControlType" where
  "ControlType_from_bits v =
     (if v = CONTROL_TYPE_HANDSHAKE then CtHandshake else if v = CONTROL_TYPE_KEEPALIVE then CtKeepAlive
      else if v = CONTROL_TYPE_ACK then CtAck else if v = CONTROL_TYPE_NAK then CtNak
      else if v = CONTROL_TYPE_CONGESTION_WARNING then CtCongestionWarning
      else if v = CONTROL_TYPE_SHUTDOWN then CtShutdown else if v = CONTROL_TYPE_ACKACK then CtAckAck
      else if v = CONTROL_TYPE_DROPREQ then CtDropReq else if v = CONTROL_TYPE_PEERERROR then CtPeerError
      else if v = CONTROL_TYPE_USER_DEFINED then CtUserDefined else CtReserved v)"

fun ControlType_to_bits :: "ControlType \<Rightarrow> u16" where
  "ControlType_to_bits CtHandshake = CONTROL_TYPE_HANDSHAKE"
| "ControlType_to_bits CtKeepAlive = CONTROL_TYPE_KEEPALIVE"
| "ControlType_to_bits CtAck = CONTROL_TYPE_ACK"
| "ControlType_to_bits CtNak = CONTROL_TYPE_NAK"
| "ControlType_to_bits CtCongestionWarning = CONTROL_TYPE_CONGESTION_WARNING"
| "ControlType_to_bits CtShutdown = CONTROL_TYPE_SHUTDOWN"
| "ControlType_to_bits CtAckAck = CONTROL_TYPE_ACKACK"
| "ControlType_to_bits CtDropReq = CONTROL_TYPE_DROPREQ"
| "ControlType_to_bits CtPeerError = CONTROL_TYPE_PEERERROR"
| "ControlType_to_bits CtUserDefined = CONTROL_TYPE_USER_DEFINED"
| "ControlType_to_bits (CtReserved v) = v"

record UserDefinedPacket =
  ud_control_type :: u16
  ud_subtype :: u16
  ud_type_specific_info :: u32
  ud_timestamp :: u32
  ud_dest_socket_id :: u32
  ud_cif :: bytes

datatype ControlPacket =
    Handshake HandshakePacket
  | KeepAlive KeepAlivePacket
  | Ack AckPacket
  | Nak NakPacket
  | CongestionWarning CongestionWarningPacket
  | Shutdown ShutdownPacket
  | AckAck AckAckPacket
  | DropReq DropReqPacket
  | PeerError PeerErrorPacket
  | UserDefined UserDefinedPacket

section \<open>Parsing\<close>

definition check_reserved_u16 :: "string \<Rightarrow> u16 \<Rightarrow> (SrtError, unit) result" where
  "check_reserved_u16 what v =
     (if v \<noteq> 0 then Err (SrtReservedBits \<lparr>rb_field = what, rb_expected = 0, rb_found = unat v\<rparr>) else Ok ())"

definition check_reserved_u32 :: "string \<Rightarrow> u32 \<Rightarrow> (SrtError, unit) result" where
  "check_reserved_u32 what v =
     (if v \<noteq> 0 then Err (SrtReservedBits \<lparr>rb_field = what, rb_expected = 0, rb_found = unat v\<rparr>) else Ok ())"

definition LIBSRT_CIF_PAD_LEN :: nat where "LIBSRT_CIF_PAD_LEN = 4"

definition check_no_cif_or_libsrt_pad :: "string \<Rightarrow> bytes \<Rightarrow> (SrtError, bool) result" where
  "check_no_cif_or_libsrt_pad what cif =
     (if length cif = 0 then Ok False
      else if length cif = LIBSRT_CIF_PAD_LEN
      then let val = be32 cif 0
           in if val \<noteq> 0 then Err (SrtReservedBits \<lparr>rb_field = what, rb_expected = 0, rb_found = unat val\<rparr>) else Ok True
      else Err (UnexpectedTrailingBytes what (length cif)))"

text \<open>The match on the control type, over the fields of the header.\<close>

definition control_dispatch :: "u16 \<Rightarrow> u16 \<Rightarrow> u32 \<Rightarrow> u32 \<Rightarrow> u32 \<Rightarrow> bytes \<Rightarrow> (SrtError, ControlPacket) result" where
  "control_dispatch ct st info ts dest cif =
     (case ControlType_from_bits ct of
         CtHandshake \<Rightarrow>
           and_then (check_reserved_u16 ''Subtype'' st) (\<lambda>_.
           and_then (check_reserved_u32 ''Type-specific Information'' info) (\<lambda>_.
           and_then (Handshake_parse_cif ts dest cif) (\<lambda>h. Ok (Handshake h))))
       | CtKeepAlive \<Rightarrow>
           and_then (check_reserved_u16 ''Subtype'' st) (\<lambda>_.
           and_then (check_reserved_u32 ''Type-specific Information'' info) (\<lambda>_.
           and_then (check_no_cif_or_libsrt_pad ''keep-alive CIF'' cif) (\<lambda>pad.
             Ok (KeepAlive \<lparr>ka_timestamp = ts, ka_dest_socket_id = dest, ka_libsrt_pad = pad\<rparr>))))
       | CtAck \<Rightarrow>
           and_then (check_reserved_u16 ''Subtype'' st) (\<lambda>_.
           and_then (Ack_parse_cif info ts dest cif) (\<lambda>a. Ok (Ack a)))
       | CtNak \<Rightarrow>
           and_then (check_reserved_u16 ''Subtype'' st) (\<lambda>_.
           and_then (check_reserved_u32 ''Type-specific Information'' info) (\<lambda>_.
             Ok (Nak (Nak_parse_cif ts dest cif))))
       | CtCongestionWarning \<Rightarrow>
           and_then (check_reserved_u16 ''Subtype'' st) (\<lambda>_.
           and_then (check_reserved_u32 ''Type-specific Information'' info) (\<lambda>_.
           and_then (check_no_cif_or_libsrt_pad ''congestion warning CIF'' cif) (\<lambda>pad.
             Ok (CongestionWarning \<lparr>cw_timestamp = ts, cw_dest_socket_id = dest, cw_libsrt_pad = pad\<rparr>))))
       | CtShutdown \<Rightarrow>
           and_then (check_reserved_u16 ''Subtype'' st) (\<lambda>_.
           and_then (check_reserved_u32 ''Type-specific Information'' info) (\<lambda>_.
           and_then (check_no_cif_or_libsrt_pad ''shutdown CIF'' cif) (\<lambda>pad.
             Ok (Shutdown \<lparr>sd_timestamp = ts, sd_dest_socket_id = dest, sd_libsrt_pad = pad\<rparr>))))
       | CtAckAck \<Rightarrow>
           and_then (check_reserved_u16 ''Subtype'' st) (\<lambda>_.
           and_then (check_no_cif_or_libsrt_pad ''ACKACK CIF'' cif) (\<lambda>pad.
             Ok (AckAck \<lparr>aa_ack_number = info, aa_timestamp = ts, aa_dest_socket_id = dest, aa_libsrt_pad = pad\<rparr>)))
       | CtDropReq \<Rightarrow>
           and_then (check_reserved_u16 ''Subtype'' st) (\<lambda>_.
           and_then (DropReq_parse_cif info ts dest cif) (\<lambda>d. Ok (DropReq d)))
       | CtPeerError \<Rightarrow>
           and_then (check_reserved_u16 ''Subtype'' st) (\<lambda>_.
           and_then (check_no_cif_or_libsrt_pad ''peer error CIF'' cif) (\<lambda>pad.
             Ok (PeerError \<lparr>pe_error_code = info, pe_timestamp = ts, pe_dest_socket_id = dest, pe_libsrt_pad = pad\<rparr>)))
       | _ \<Rightarrow>
           Ok (UserDefined \<lparr>ud_control_type = ct, ud_subtype = st,
                 ud_type_specific_info = info, ud_timestamp = ts, ud_dest_socket_id = dest, ud_cif = cif\<rparr>))"

definition ControlPacket_parse :: "bytes \<Rightarrow> (SrtError, ControlPacket) result" where
  "ControlPacket_parse bs =
     and_then (map_err SrtBufferTooShort (need_in bs SRT_HEADER_LEN ''SRT control packet header'')) (\<lambda>_.
       let word0 = be32 bs 0
       in if word0 AND F_BIT = 0 then Err (WrongPacketKind ''control packet (F=1)'')
          else let control_type_bits = ucast (drop_bit 16 word0 AND 0x7FFF);
                   subtype = ucast (word0 AND 0xFFFF);
                   info = be32 bs 4;
                   ts = be32 bs 8;
                   dest = be32 bs 12;
                   cif = drop SRT_HEADER_LEN bs
          in control_dispatch control_type_bits subtype info ts dest cif)"

section \<open>Serialization\<close>

fun control_type :: "ControlPacket \<Rightarrow> ControlType" where
  "control_type (Handshake _) = CtHandshake"
| "control_type (KeepAlive _) = CtKeepAlive"
| "control_type (Ack _) = CtAck"
| "control_type (Nak _) = CtNak"
| "control_type (CongestionWarning _) = CtCongestionWarning"
| "control_type (Shutdown _) = CtShutdown"
| "control_type (AckAck _) = CtAckAck"
| "control_type (DropReq _) = CtDropReq"
| "control_type (PeerError _) = CtPeerError"
| "control_type (UserDefined u) = ControlType_from_bits (ud_control_type u)"

fun ctl_subtype :: "ControlPacket \<Rightarrow> u16" where
  "ctl_subtype (UserDefined u) = ud_subtype u"
| "ctl_subtype _ = 0"

fun ctl_word1 :: "ControlPacket \<Rightarrow> u32" where
  "ctl_word1 (Ack a) = ack_number a"
| "ctl_word1 (AckAck a) = aa_ack_number a"
| "ctl_word1 (DropReq d) = dr_message_number d"
| "ctl_word1 (PeerError p) = pe_error_code p"
| "ctl_word1 (UserDefined u) = ud_type_specific_info u"
| "ctl_word1 _ = 0"

fun ctl_timestamp :: "ControlPacket \<Rightarrow> u32" where
  "ctl_timestamp (Handshake h) = hs_timestamp h"
| "ctl_timestamp (KeepAlive k) = ka_timestamp k"
| "ctl_timestamp (Ack a) = ack_timestamp a"
| "ctl_timestamp (Nak n) = nak_timestamp n"
| "ctl_timestamp (CongestionWarning c) = cw_timestamp c"
| "ctl_timestamp (Shutdown s) = sd_timestamp s"
| "ctl_timestamp (AckAck a) = aa_timestamp a"
| "ctl_timestamp (DropReq d) = dr_timestamp d"
| "ctl_timestamp (PeerError p) = pe_timestamp p"
| "ctl_timestamp (UserDefined u) = ud_timestamp u"

fun ctl_dest_socket_id :: "ControlPacket \<Rightarrow> u32" where
  "ctl_dest_socket_id (Handshake h) = hs_dest_socket_id h"
| "ctl_dest_socket_id (KeepAlive k) = ka_dest_socket_id k"
| "ctl_dest_socket_id (Ack a) = ack_dest_socket_id a"
| "ctl_dest_socket_id (Nak n) = nak_dest_socket_id n"
| "ctl_dest_socket_id (CongestionWarning c) = cw_dest_socket_id c"
| "ctl_dest_socket_id (Shutdown s) = sd_dest_socket_id s"
| "ctl_dest_socket_id (AckAck a) = aa_dest_socket_id a"
| "ctl_dest_socket_id (DropReq d) = dr_dest_socket_id d"
| "ctl_dest_socket_id (PeerError p) = pe_dest_socket_id p"
| "ctl_dest_socket_id (UserDefined u) = ud_dest_socket_id u"

fun ctl_cif_len :: "ControlPacket \<Rightarrow> nat" where
  "ctl_cif_len (Handshake h) = Handshake_cif_len h"
| "ctl_cif_len (KeepAlive k) = (if ka_libsrt_pad k then LIBSRT_CIF_PAD_LEN else 0)"
| "ctl_cif_len (CongestionWarning c) = (if cw_libsrt_pad c then LIBSRT_CIF_PAD_LEN else 0)"
| "ctl_cif_len (Shutdown s) = (if sd_libsrt_pad s then LIBSRT_CIF_PAD_LEN else 0)"
| "ctl_cif_len (AckAck a) = (if aa_libsrt_pad a then LIBSRT_CIF_PAD_LEN else 0)"
| "ctl_cif_len (PeerError p) = (if pe_libsrt_pad p then LIBSRT_CIF_PAD_LEN else 0)"
| "ctl_cif_len (Ack a) = Ack_cif_len a"
| "ctl_cif_len (Nak n) = Nak_cif_len n"
| "ctl_cif_len (DropReq d) = DropReq_cif_len d"
| "ctl_cif_len (UserDefined u) = length (ud_cif u)"

definition ControlPacket_serialized_len :: "ControlPacket \<Rightarrow> nat" where
  "ControlPacket_serialized_len p = SRT_HEADER_LEN + ctl_cif_len p"

text \<open>The last match of \<open>serialize_into\<close>, on the sub-slice of the control information field.\<close>

fun ctl_write_cif :: "ControlPacket \<Rightarrow> bytes \<Rightarrow> bytes" where
  "ctl_write_cif (Handshake h) cif = Handshake_write_cif h cif"
| "ctl_write_cif (Ack a) cif = Ack_write_cif a cif"
| "ctl_write_cif (Nak n) cif = Nak_write_cif n cif"
| "ctl_write_cif (DropReq d) cif = DropReq_write_cif d cif"
| "ctl_write_cif (UserDefined u) cif = put_slice cif 0 (ud_cif u)"
| "ctl_write_cif _ cif = replicate (length cif) 0"

definition ctl_word0 :: "u16 \<Rightarrow> u16 \<Rightarrow> u32" where
  "ctl_word0 ct subtype = F_BIT OR push_bit 16 (ucast ct) OR ucast subtype"

definition ControlPacket_serialize_into :: "ControlPacket \<Rightarrow> bytes \<Rightarrow> (SrtError, bytes \<times> nat) result" where
  "ControlPacket_serialize_into p buf =
     (let len = ControlPacket_serialized_len p
      in and_then (map_err SrtOutputBufferTooSmall (need_out buf len)) (\<lambda>_.
           let control_type_bits = ControlType_to_bits (control_type p)
           in and_then (check_bits (ucast control_type_bits) 15 ''Control Type'') (\<lambda>_.
                let buf = put_be32 buf 0 (ctl_word0 control_type_bits (ctl_subtype p));
                    buf = put_be32 buf 4 (ctl_word1 p);
                    buf = put_be32 buf 8 (ctl_timestamp p);
                    buf = put_be32 buf 12 (ctl_dest_socket_id p);
                    buf = put_slice buf SRT_HEADER_LEN (ctl_write_cif p (sub_slice buf SRT_HEADER_LEN len))
                in Ok (buf, len))))"

section \<open>Dispatch\<close>

datatype SrtPacket = Data DataPacket | Control ControlPacket

definition SrtPacket_parse :: "bytes \<Rightarrow> (SrtError, SrtPacket) result" where
  "SrtPacket_parse bs =
     and_then (map_err SrtBufferTooShort (need_in bs SRT_HEADER_LEN ''SRT header'')) (\<lambda>_.
       let word0 = be32 bs 0
       in if word0 AND F_BIT \<noteq> 0
          then and_then (ControlPacket_parse bs) (\<lambda>c. Ok (Control c))
          else and_then (DataPacket_parse bs) (\<lambda>d. Ok (Data d)))"

fun SrtPacket_serialized_len :: "SrtPacket \<Rightarrow> nat" where
  "SrtPacket_serialized_len (Data d) = DataPacket_serialized_len d"
| "SrtPacket_serialized_len (Control c) = ControlPacket_serialized_len c"

fun SrtPacket_serialize_into :: "SrtPacket \<Rightarrow> bytes \<Rightarrow> (SrtError, bytes \<times> nat) result" where
  "SrtPacket_serialize_into (Data d) buf = DataPacket_serialize_into d buf"
| "SrtPacket_serialize_into (Control c) buf = ControlPacket_serialize_into c buf"

section \<open>Back and forth\<close>

lemmas ControlType_codes = CONTROL_TYPE_HANDSHAKE_def CONTROL_TYPE_KEEPALIVE_def CONTROL_TYPE_ACK_def CONTROL_TYPE_NAK_def
  CONTROL_TYPE_CONGESTION_WARNING_def CONTROL_TYPE_SHUTDOWN_def CONTROL_TYPE_ACKACK_def CONTROL_TYPE_DROPREQ_def
  CONTROL_TYPE_PEERERROR_def CONTROL_TYPE_USER_DEFINED_def

lemma ControlType_back [simp]: "ControlType_to_bits (ControlType_from_bits v) = v"
  by (simp add: ControlType_from_bits_def)

fun ack_words :: "AckCif \<Rightarrow> u32 list" where
  "ack_words (Full a b c d e f g) = [a, b, c, d, e, f, g]"
| "ack_words (Small a b c d) = [a, b, c, d]"
| "ack_words (Light a) = [a]"

text \<open>The image of the control information field, and the packets a parser can produce.\<close>

fun ctl_cif :: "ControlPacket \<Rightarrow> bytes" where
  "ctl_cif (Handshake h) = words (hs_words h) @ hs_extensions h"
| "ctl_cif (Ack a) = words (ack_words (ack_cif a))"
| "ctl_cif (Nak n) = raw_loss_list n"
| "ctl_cif (DropReq d) = words [dr_first_seq d, dr_last_seq d]"
| "ctl_cif (UserDefined u) = ud_cif u"
| "ctl_cif p = replicate (ctl_cif_len p) 0"

fun ctl_ok :: "ControlPacket \<Rightarrow> bool" where
  "ctl_ok (Handshake h) \<longleftrightarrow> hs_ok h"
| "ctl_ok (UserDefined u) \<longleftrightarrow> ud_control_type u AND mask 15 = ud_control_type u \<and>
     (case ControlType_from_bits (ud_control_type u) of CtUserDefined \<Rightarrow> True | CtReserved _ \<Rightarrow> True | _ \<Rightarrow> False)"
| "ctl_ok _ \<longleftrightarrow> True"

lemmas ctl_lens = ACK_CIF_LEN_FULL_def ACK_CIF_LEN_SMALL_def ACK_CIF_LEN_LIGHT_def Ack_cif_len_def Nak_cif_len_def
  DropReq_cif_len_def Handshake_cif_len_def HANDSHAKE_CIF_FIXED_LEN_def

lemma length_ctl_cif [simp]: "length (ctl_cif p) = ctl_cif_len p"
  by (cases p) (simp_all add: ctl_lens split: AckCif.split)

lemma ctl_write_cif_eq: "length cif = ctl_cif_len p \<Longrightarrow> ctl_write_cif p cif = ctl_cif p"
  by (cases p) (simp_all add: Handshake_write_cif_eq Nak_write_cif_def DropReq_write_cif_def Ack_write_cif_def ctl_lens
      split: AckCif.splits)

definition ctl_wire :: "ControlPacket \<Rightarrow> bytes" where
  "ctl_wire p = words [ctl_word0 (ControlType_to_bits (control_type p)) (ctl_subtype p), ctl_word1 p,
     ctl_timestamp p, ctl_dest_socket_id p] @ ctl_cif p"

lemma unat_ucast_16_32: "unat (ucast (v :: u16) :: u32) = unat v"
proof -
  have "unat v < 2 ^ 32" using unsigned_less[of v] by (rule less_trans) simp
  then show ?thesis by (simp only: unsigned_ucast_eq) (simp add: take_bit_nat_eq_self_iff)
qed

lemma mask_ucast_15: "(ucast (v :: u16) :: u32) AND mask 15 = ucast v \<longleftrightarrow> v AND mask 15 = v"
  unfolding fits_iff_masked[symmetric] by (simp only: unat_ucast_16_32)

lemma ControlPacket_serialize_eq:
  "ControlPacket_serialize_into p buf =
     (if length buf < 16 + ctl_cif_len p
      then Err (SrtOutputBufferTooSmall \<lparr>obs_need = 16 + ctl_cif_len p, obs_have = length buf\<rparr>)
      else if ControlType_to_bits (control_type p) AND mask 15 \<noteq> ControlType_to_bits (control_type p)
      then Err (SrtFieldOverflow \<lparr>fo_field = ''Control Type'', fo_value = unat (ControlType_to_bits (control_type p)),
                                  fo_max = 2 ^ 15 - 1\<rparr>)
      else Ok (ctl_wire p @ drop (length (ctl_wire p)) buf, length (ctl_wire p)))"
proof (cases "16 + ctl_cif_len p \<le> length buf")
  case True
  define ws where "ws = [ctl_word0 (ControlType_to_bits (control_type p)) (ctl_subtype p), ctl_word1 p,
     ctl_timestamp p, ctl_dest_socket_id p]"
  have hdr: "put_be32 (put_be32 (put_be32 (put_be32 buf 0 (ws ! 0)) 4 (ws ! 1)) 8 (ws ! 2)) 12 (ws ! 3) = words ws @ drop 16 buf"
    by (simp add: ws_def)
  have cif: "ctl_write_cif p (sub_slice (words ws @ drop 16 buf) 16 (16 + ctl_cif_len p)) = ctl_cif p"
    using True by (intro ctl_write_cif_eq) (simp add: ws_def)
  have out: "put_slice (words ws @ drop 16 buf) 16 (ctl_cif p) = ctl_wire p @ drop (length (ctl_wire p)) buf"
    by (simp add: ws_def ctl_wire_def add.commute)
  show ?thesis
    using True hdr cif out unfolding ControlPacket_serialize_into_def ControlPacket_serialized_len_def
    by (simp add: need_out_eq check_bits_eq mask_ucast_15 SRT_HEADER_LEN_def Let_def ws_def unat_ucast_16_32)
      (simp add: ctl_wire_def)
next
  case False
  then show ?thesis
    by (simp add: ControlPacket_serialize_into_def ControlPacket_serialized_len_def SRT_HEADER_LEN_def need_out_eq Let_def)
qed

text \<open>The first header word.\<close>

lemma bit_F_BIT: "bit F_BIT i \<longleftrightarrow> i = 31"
proof -
  have F: "F_BIT = 2 ^ 31" by (simp add: F_BIT_def)
  show ?thesis unfolding F bit_exp_iff by auto
qed

lemma ctl_word0_bits:
  assumes "ct AND mask 15 = ct"
  shows "bit (ctl_word0 ct st) i \<longleftrightarrow> (if i < 16 then bit st i else if i < 31 then bit ct (i - 16) else i = 31)"
proof -
  obtain c where c: "ct = c AND mask 15" using assms by metis
  show ?thesis unfolding ctl_word0_def c
    by (simp only: bit_or_iff bit_push_bit_iff bit_unsigned_iff bit_and_iff bit_mask_iff bit_F_BIT)
      (auto simp: bit_range)
qed

lemma ctl_word0_fields:
  assumes "ct AND mask 15 = ct"
  shows "ucast (drop_bit 16 (ctl_word0 ct st) AND 0x7FFF) = ct" "ucast (ctl_word0 ct st AND 0xFFFF) = st"
    "ctl_word0 ct st AND F_BIT \<noteq> 0"
proof -
  have c: "bit ct n \<Longrightarrow> n < 15" for n using assms by (metis bit_and_iff bit_mask_iff)
  have m: "(0x7FFF :: u32) = mask 15" by (simp add: mask_eq_exp_minus_1)
  show "ucast (drop_bit 16 (ctl_word0 ct st) AND 0x7FFF) = ct" unfolding m
    by (rule bit_eqI) (auto simp: bit_unsigned_iff bit_drop_bit_eq bit_and_iff bit_mask_iff ctl_word0_bits[OF assms] dest: c)
  show "ucast (ctl_word0 ct st AND 0xFFFF) = st" unfolding low_half
    by (rule bit_eqI) (auto simp: bit_unsigned_iff ctl_word0_bits[OF assms])
  show "ctl_word0 ct st AND F_BIT \<noteq> 0" by (simp add: F_BIT_bit ctl_word0_bits[OF assms])
qed

lemma ctl_word0_back:
  assumes "w AND F_BIT \<noteq> 0"
  shows "ctl_word0 (ucast (drop_bit 16 w AND 0x7FFF)) (ucast (w AND 0xFFFF)) = w"
    "(ucast (drop_bit 16 w AND 0x7FFF) :: u16) AND mask 15 = ucast (drop_bit 16 w AND 0x7FFF)"
proof -
  have m: "(0x7FFF :: u32) = mask 15" by (simp add: mask_eq_exp_minus_1)
  show 15: "(ucast (drop_bit 16 w AND 0x7FFF) :: u16) AND mask 15 = ucast (drop_bit 16 w AND 0x7FFF)" unfolding m
    by (rule bit_eqI) (auto simp: bit_unsigned_iff bit_and_iff bit_mask_iff)
  have w: "bit w 31" using assms by (simp add: F_BIT_bit)
  show "ctl_word0 (ucast (drop_bit 16 w AND 0x7FFF)) (ucast (w AND 0xFFFF)) = w"
  proof (rule bit_eqI)
    fix i :: nat
    have "i < 16 \<or> 16 \<le> i \<and> i < 31 \<or> i = 31 \<or> 32 \<le> i" by arith
    then show "bit (ctl_word0 (ucast (drop_bit 16 w AND 0x7FFF)) (ucast (w AND 0xFFFF))) i = bit w i"
      unfolding ctl_word0_bits[OF 15] low_half using w
      by (auto simp: m bit_unsigned_iff bit_drop_bit_eq bit_and_iff bit_mask_iff bit_range)
  qed
qed

text \<open>The four header words.\<close>

lemma header_words:
  "be32 (words [a, b, c, d] @ rest) 0 = a" "be32 (words [a, b, c, d] @ rest) 4 = b"
  "be32 (words [a, b, c, d] @ rest) 8 = c" "be32 (words [a, b, c, d] @ rest) 12 = d"
  using be32_words[of 0 "[a, b, c, d]" 0] be32_words[of 1 "[a, b, c, d]" 4] be32_words[of 2 "[a, b, c, d]" 8]
    be32_words[of 3 "[a, b, c, d]" 12] by simp_all

lemma header_words_back:
  "16 \<le> length bs \<Longrightarrow> words [be32 bs 0, be32 bs 4, be32 bs 8, be32 bs 12] @ drop 16 bs = bs"
  using take_words[of 4 bs] by (simp add: upt_rec)

lemma Ack_parse_words: "Ack_parse_cif num ts dest (words (ack_words c)) =
    Inr \<lparr>ack_number = num, ack_timestamp = ts, ack_dest_socket_id = dest, ack_cif = c\<rparr>"
proof -
  have rd: "i < length (ack_words c) \<Longrightarrow> be32 (words (ack_words c)) (4 * i) = ack_words c ! i" for i
    using be32_words[of i "ack_words c" "4 * i" "[]"] by simp
  show ?thesis
  proof (cases c)
    case (Full x1 x2 x3 x4 x5 x6 x7)
    then show ?thesis using rd[of 0] rd[of 1] rd[of 2] rd[of 3] rd[of 4] rd[of 5] rd[of 6]
      by (simp add: Ack_parse_cif_def ctl_lens)
  next
    case (Small x1 x2 x3 x4)
    then show ?thesis using rd[of 0] rd[of 1] rd[of 2] rd[of 3] by (simp add: Ack_parse_cif_def ctl_lens)
  next
    case (Light x)
    then show ?thesis using rd[of 0] by (simp add: Ack_parse_cif_def ctl_lens)
  qed
qed

lemma Ack_parse_back:
  assumes "Ack_parse_cif num ts dest cif = Inr a"
  shows "ack_number a = num \<and> ack_timestamp a = ts \<and> ack_dest_socket_id a = dest \<and> words (ack_words (ack_cif a)) = cif"
  using assms take_words[of 7 cif] take_words[of 4 cif] take_words[of 1 cif]
  by (auto simp: Ack_parse_cif_def and_then_eq_Ok ctl_lens upt_rec split: if_splits)

lemma check_reserved_eq:
  "check_reserved_u16 what v = Inr () \<longleftrightarrow> v = 0" "check_reserved_u32 what w = Inr () \<longleftrightarrow> w = 0"
  by (simp_all add: check_reserved_u16_def check_reserved_u32_def)

lemma check_reserved_0 [simp]: "check_reserved_u16 what 0 = Inr ()" "check_reserved_u32 what 0 = Inr ()"
  by (simp_all add: check_reserved_eq)

lemma replicate_4_word: "replicate 4 0 = words [0]"
  by (simp add: words_def u32_to_be_def numeral_eq_Suc)

lemma pad_check:
  "check_no_cif_or_libsrt_pad what (replicate (if b then LIBSRT_CIF_PAD_LEN else 0) 0) = Inr b"
  "check_no_cif_or_libsrt_pad what cif = Inr b \<Longrightarrow> cif = replicate (if b then LIBSRT_CIF_PAD_LEN else 0) 0"
proof -
  have "be32 (replicate 4 0) 0 = 0" unfolding replicate_4_word using be32_words[of 0 "[0]" 0 "[]"] by simp
  then show "check_no_cif_or_libsrt_pad what (replicate (if b then LIBSRT_CIF_PAD_LEN else 0) 0) = Inr b"
    by (cases b) (simp_all add: check_no_cif_or_libsrt_pad_def LIBSRT_CIF_PAD_LEN_def)
  assume "check_no_cif_or_libsrt_pad what cif = Inr b"
  then show "cif = replicate (if b then LIBSRT_CIF_PAD_LEN else 0) 0"
    using take_words[of 1 cif]
    by (auto simp: check_no_cif_or_libsrt_pad_def LIBSRT_CIF_PAD_LEN_def Let_def upt_rec replicate_4_word split: if_splits)
qed

lemma DropReq_parse_words: "DropReq_parse_cif num ts dest (words [a, b]) =
    Inr \<lparr>dr_message_number = num, dr_timestamp = ts, dr_dest_socket_id = dest, dr_first_seq = a, dr_last_seq = b\<rparr>"
  using be32_words[of 0 "[a, b]" 0 "[]"] be32_words[of 1 "[a, b]" 4 "[]"] by (simp add: DropReq_parse_cif_def)

lemma DropReq_parse_back: "DropReq_parse_cif num ts dest cif = Inr d \<Longrightarrow>
    dr_message_number d = num \<and> dr_timestamp d = ts \<and> dr_dest_socket_id d = dest \<and> words [dr_first_seq d, dr_last_seq d] = cif"
  using take_words[of 2 cif] by (auto simp: DropReq_parse_cif_def upt_rec split: if_splits)

lemma ControlType_cases: "ControlType_from_bits CONTROL_TYPE_HANDSHAKE = CtHandshake"
  "ControlType_from_bits CONTROL_TYPE_KEEPALIVE = CtKeepAlive" "ControlType_from_bits CONTROL_TYPE_ACK = CtAck"
  "ControlType_from_bits CONTROL_TYPE_NAK = CtNak" "ControlType_from_bits CONTROL_TYPE_CONGESTION_WARNING = CtCongestionWarning"
  "ControlType_from_bits CONTROL_TYPE_SHUTDOWN = CtShutdown" "ControlType_from_bits CONTROL_TYPE_ACKACK = CtAckAck"
  "ControlType_from_bits CONTROL_TYPE_DROPREQ = CtDropReq" "ControlType_from_bits CONTROL_TYPE_PEERERROR = CtPeerError"
  by (simp_all add: ControlType_from_bits_def ControlType_codes)

lemma control_dispatch_forth:
  assumes "ctl_ok p"
  shows "control_dispatch (ControlType_to_bits (control_type p)) (ctl_subtype p) (ctl_word1 p) (ctl_timestamp p)
     (ctl_dest_socket_id p) (ctl_cif p) = Inr p"
  using assms
  by (cases p) (simp_all add: control_dispatch_def ControlType_cases check_reserved_eq pad_check Handshake_parse_wire
      Ack_parse_words Nak_parse_cif_def DropReq_parse_words split: ControlType.splits)

lemma control_dispatch_back:
  assumes "control_dispatch ct st info ts dest cif = Inr p" "ct AND mask 15 = ct"
  shows "ctl_ok p \<and> ControlType_to_bits (control_type p) = ct \<and> ctl_subtype p = st \<and> ctl_word1 p = info \<and>
    ctl_timestamp p = ts \<and> ctl_dest_socket_id p = dest \<and> ctl_cif p = cif"
proof -
  have t: "ControlType_to_bits (ControlType_from_bits ct) = ct" by simp
  show ?thesis
    using assms t
    by (cases "ControlType_from_bits ct")
      (auto simp: control_dispatch_def and_then_eq_Ok check_reserved_eq Nak_parse_cif_def
        dest: pad_check(2) Handshake_parse_back Ack_parse_back DropReq_parse_back)
qed

lemma ctl_type_fits: "ctl_ok p \<Longrightarrow>
    ControlType_to_bits (control_type p) AND mask 15 = ControlType_to_bits (control_type p)"
  by (cases p) (simp_all add: ControlType_codes mask_eq_exp_minus_1)

lemma ControlPacket_parse_wire: "ctl_ok p \<Longrightarrow> ControlPacket_parse (ctl_wire p) = Inr p"
proof -
  assume ok: "ctl_ok p"
  note fits = ctl_type_fits[OF ok]
  have d: "drop 16 (words [a, b, c, e] @ r) = r" for a b c e r by simp
  show ?thesis
    unfolding ControlPacket_parse_def ctl_wire_def Let_def need_in_eq SRT_HEADER_LEN_def d header_words
      ctl_word0_fields(1,2)[OF fits] control_dispatch_forth[OF ok]
    using ctl_word0_fields(3)[OF fits] by simp
qed

lemma ControlPacket_parse_inverse: "ControlPacket_parse bs = Inr p \<Longrightarrow> ctl_wire p = bs \<and> ctl_ok p"
proof -
  assume P: "ControlPacket_parse bs = Inr p"
  then have len: "16 \<le> length bs" and F: "be32 bs 0 AND F_BIT \<noteq> 0" and
    D: "control_dispatch (ucast (drop_bit 16 (be32 bs 0) AND 0x7FFF)) (ucast (be32 bs 0 AND 0xFFFF)) (be32 bs 4) (be32 bs 8)
      (be32 bs 12) (drop 16 bs) = Inr p"
    by (auto simp: ControlPacket_parse_def Let_def need_in_eq SRT_HEADER_LEN_def split: if_splits)
  from control_dispatch_back[OF D ctl_word0_back(2)[OF F]] ctl_word0_back(1)[OF F] header_words_back[OF len]
  show ?thesis by (simp add: ctl_wire_def)
qed

section \<open>The whole packet\<close>

fun srt_wire :: "SrtPacket \<Rightarrow> bytes" where
  "srt_wire (Data d) = data_wire d"
| "srt_wire (Control c) = ctl_wire c"

fun srt_ok :: "SrtPacket \<Rightarrow> bool" where
  "srt_ok (Data d) \<longleftrightarrow> data_ok d"
| "srt_ok (Control c) \<longleftrightarrow> ctl_ok c"

lemma length_ctl_wire [simp]: "length (ctl_wire p) = 16 + ctl_cif_len p"
  by (simp add: ctl_wire_def)

lemma SrtPacket_parse_wire: "srt_ok p \<Longrightarrow> SrtPacket_parse (srt_wire p) = Inr p"
proof (cases p)
  case (Data d)
  assume "srt_ok p"
  then have ok: "data_ok d" using Data by simp
  have "\<not> bit (dp_seq_number d) 31" using ok by (simp add: data_ok_def seq_mask_no_F)
  then have "be32 (data_wire d) 0 AND F_BIT = 0"
    by (metis F_BIT_bit data_wire_def header_words(1))
  then show ?thesis using Data DataPacket_parse_wire[OF ok]
    by (simp add: SrtPacket_parse_def need_in_eq SRT_HEADER_LEN_def)
next
  case (Control c)
  assume "srt_ok p"
  then have ok: "ctl_ok c" using Control by simp
  have "be32 (ctl_wire c) 0 AND F_BIT \<noteq> 0"
    unfolding ctl_wire_def header_words using ctl_word0_fields(3)[OF ctl_type_fits[OF ok]] .
  then show ?thesis using Control ControlPacket_parse_wire[OF ok]
    by (simp add: SrtPacket_parse_def need_in_eq SRT_HEADER_LEN_def)
qed

lemma SrtPacket_parse_inverse: "SrtPacket_parse bs = Inr p \<Longrightarrow> srt_wire p = bs \<and> srt_ok p"
  by (auto simp: SrtPacket_parse_def and_then_eq_Ok Let_def dest: DataPacket_parse_inverse ControlPacket_parse_inverse
      split: if_splits)

lemma SrtPacket_serialize_wire:
  "srt_ok p \<Longrightarrow> length (srt_wire p) \<le> length buf \<Longrightarrow>
     SrtPacket_serialize_into p buf = Inr (srt_wire p @ drop (length (srt_wire p)) buf, length (srt_wire p))"
  "srt_ok p \<Longrightarrow> length buf < length (srt_wire p) \<Longrightarrow>
     SrtPacket_serialize_into p buf =
       Inl (SrtOutputBufferTooSmall \<lparr>obs_need = length (srt_wire p), obs_have = length buf\<rparr>)"
  by (cases p; simp add: DataPacket_serialize_eq data_ok_def ControlPacket_serialize_eq ctl_type_fits)+

lemma SrtPacket_serialized_len_wire: "SrtPacket_serialized_len p = length (srt_wire p)"
  by (cases p) (simp_all add: DataPacket_serialized_len_def ControlPacket_serialized_len_def SRT_HEADER_LEN_def)

interpretation srt_packet: wire_type SrtPacket_parse SrtPacket_serialized_len SrtPacket_serialize_into srt_ok srt_wire
  by unfold_locales (simp_all add: SrtPacket_parse_wire SrtPacket_serialize_wire SrtPacket_serialized_len_wire)

section \<open>Loss lists\<close>

fun loss_ok :: "LossListEntry \<Rightarrow> bool" where
  "loss_ok (Single a) \<longleftrightarrow> \<not> bit a 31"
| "loss_ok (Range a b) \<longleftrightarrow> \<not> bit a 31 \<and> \<not> bit b 31"

fun loss_words :: "LossListEntry \<Rightarrow> u32 list" where
  "loss_words (Single a) = [a]"
| "loss_words (Range a b) = [a OR F_BIT, b]"

lemma build_loss_list_eq: "build_loss_list es = Inr out \<longleftrightarrow> list_all loss_ok es \<and> out = words (concat (map loss_words es))"
proof (induction es arbitrary: out)
  case (Cons e es)
  then show ?case
    by (cases e) (auto simp: and_then_eq_Ok check_bits_eq mask31 seq_mask_no_F words_append words_Cons)
qed auto

lemma range_word: "\<not> bit a 31 \<Longrightarrow> (a OR F_BIT) AND SEQ_NUMBER_MASK = a" "bit (a OR F_BIT) 31"
proof -
  show "bit (a OR F_BIT) 31" by (simp add: bit_or_iff bit_F_BIT)
  assume a: "\<not> bit a 31"
  show "(a OR F_BIT) AND SEQ_NUMBER_MASK = a" unfolding mask31[symmetric]
  proof (rule bit_eqI)
    fix n :: nat
    have "bit a n \<Longrightarrow> n < 31" using a bit_imp_le_length[of a n] by (cases "n = 31") auto
    then show "bit ((a OR F_BIT) AND mask 31) n = bit a n"
      by (auto simp: bit_and_iff bit_or_iff bit_mask_iff bit_F_BIT)
  qed
qed

lemma be32_first: "be32 (words (w # ws) @ r) 0 = w" "drop 4 (words (w # ws)) = words ws"
  using be32_words[of 0 "w # ws" 0] by (simp_all add: words_Cons)

lemma loss_iter_next_words: "loss_ok e \<Longrightarrow> loss_iter_next (words (loss_words e) @ r) = Some (Inr e, r)"
proof (cases e)
  case (Single a)
  assume ok: "loss_ok e"
  have ne: "words [a] @ r \<noteq> []" by (simp add: words_def u32_to_be_def)
  show ?thesis using ok Single ne seq_mask_no_F[of a]
    by (simp add: loss_iter_next_def be32_first F_BIT_bit Let_def)
next
  case (Range a b)
  assume ok: "loss_ok e"
  have ne: "words [a OR F_BIT, b] @ r \<noteq> []" by (simp add: words_def u32_to_be_def)
  show ?thesis using ok Range ne seq_mask_no_F[of b] range_word[of a]
    by (simp add: loss_iter_next_def be32_first Let_def F_BIT_bit)
qed

lemma loss_entries_words: "list_all loss_ok es \<Longrightarrow> loss_entries (words (concat (map loss_words es))) = map Inr es"
proof (induction es)
  case Nil
  show ?case by (subst loss_entries.simps) (simp add: loss_iter_next_def)
next
  case (Cons e es)
  then show ?case by (subst loss_entries.simps) (simp add: loss_iter_next_words words_append)
qed

lemma loss_iter_next_back:
  assumes "loss_iter_next rest = Some (Inr e, rest')"
  shows "loss_ok e \<and> rest = words (loss_words e) @ rest'"
proof -
  have len: "4 \<le> length rest"
    using assms by (auto simp: loss_iter_next_def split: if_splits)
  have w: "words [be32 rest 0] @ drop 4 rest = rest"
    using take_words[of 1 rest] len by (simp add: upt_rec)
  have w2: "words [be32 (drop 4 rest) 0] @ drop 8 rest = drop 4 rest" if "8 \<le> length rest"
  proof -
    have "words [be32 (drop 4 rest) 0] = take 4 (drop 4 rest)" using take_words[of 1 "drop 4 rest"] that by (simp add: upt_rec)
    moreover have "drop 8 rest = drop 4 (drop 4 rest)" by simp
    ultimately show ?thesis by (simp only: append_take_drop_id)
  qed
  have bk: "(v AND SEQ_NUMBER_MASK) OR F_BIT = v" "\<not> bit (v AND SEQ_NUMBER_MASK) 31" if "bit v 31" for v
  proof -
    show "\<not> bit (v AND SEQ_NUMBER_MASK) 31" unfolding mask31[symmetric] by (simp add: bit_and_iff bit_mask_iff)
    show "(v AND SEQ_NUMBER_MASK) OR F_BIT = v" unfolding mask31[symmetric]
    proof (rule bit_eqI)
      fix n :: nat
      have "bit v n \<Longrightarrow> n < 31 \<or> n = 31" using bit_imp_le_length[of v n] by auto
      then show "bit ((v AND mask 31) OR F_BIT) n = bit v n"
        using that by (auto simp: bit_and_iff bit_or_iff bit_mask_iff bit_F_BIT)
    qed
  qed
  consider (s) "\<not> bit (be32 rest 0) 31" "e = Single (be32 rest 0)" "rest' = drop 4 rest"
    | (r) "bit (be32 rest 0) 31" "8 \<le> length rest" "\<not> bit (be32 (drop 4 rest) 0) 31"
      "e = Range (be32 rest 0 AND SEQ_NUMBER_MASK) (be32 (drop 4 rest) 0)" "rest' = drop 8 rest"
    using assms by (auto simp: loss_iter_next_def Let_def F_BIT_bit seq_mask_no_F[THEN iffD2] split: if_splits)
  then show ?thesis
  proof cases
    case s then show ?thesis using w by simp
  next
    case r
    have "words (loss_words e) @ rest' = words [be32 rest 0] @ words [be32 (drop 4 rest) 0] @ drop 8 rest"
      using r bk by (simp add: words_Cons)
    then show ?thesis using r bk w w2 by simp
  qed
qed

lemma loss_entries_back:
  "loss_entries rest = map Inr es \<Longrightarrow> list_all loss_ok es \<and> rest = words (concat (map loss_words es))"
proof (induction es arbitrary: rest)
  case Nil
  then show ?case by (subst (asm) loss_entries.simps) (auto simp: loss_iter_next_def Let_def split: option.splits if_splits)
next
  case (Cons e es)
  then obtain rest' where "loss_iter_next rest = Some (Inr e, rest')" "loss_entries rest' = map Inr es"
    by (subst (asm) (2) loss_entries.simps) (auto split: option.splits)
  then show ?case using Cons.IH[of rest'] loss_iter_next_back[of rest e rest'] by (simp add: words_append)
qed

section \<open>Properties\<close>

text \<open>
  C24. Every SRT packet survives the wire in both directions, over all packet types. Whatever
  datagram the parser accepts is a well-formed packet that is serialized back to exactly the same
  bytes, whatever the buffer held; and every well-formed packet is serialized to bytes that parse
  to it. A buffer that is too short is reported with the length that would do, and nothing else is.
\<close>

theorem srt_packet_round_trip:
  "(\<forall>p. SrtPacket_parse bs = Inr p \<longrightarrow>
      srt_ok p \<and> SrtPacket_serialized_len p = length bs \<and>
      SrtPacket_serialize_into p buf =
        (if length bs \<le> length buf then Inr (bs @ drop (length bs) buf, length bs)
         else Inl (SrtOutputBufferTooSmall \<lparr>obs_need = length bs, obs_have = length buf\<rparr>))) \<and>
   (srt_ok q \<longrightarrow>
      (\<exists>out. try_to_bytes SrtPacket_serialized_len SrtPacket_serialize_into q = Inr out \<and>
             length out = SrtPacket_serialized_len q \<and> SrtPacket_parse out = Inr q))"
proof (intro conjI allI impI)
  fix p
  assume P: "SrtPacket_parse bs = Inr p"
  note w = SrtPacket_parse_inverse[OF P]
  show "srt_ok p" "SrtPacket_serialized_len p = length bs"
    using w by (simp_all add: SrtPacket_serialized_len_wire)
  show "SrtPacket_serialize_into p buf =
        (if length bs \<le> length buf then Inr (bs @ drop (length bs) buf, length bs)
         else Inl (SrtOutputBufferTooSmall \<lparr>obs_need = length bs, obs_have = length buf\<rparr>))"
    using w SrtPacket_serialize_wire[of p buf] by auto
next
  assume "srt_ok q"
  then show "\<exists>out. try_to_bytes SrtPacket_serialized_len SrtPacket_serialize_into q = Inr out \<and>
      length out = SrtPacket_serialized_len q \<and> SrtPacket_parse out = Inr q"
    using srt_packet.try_to_bytes_wire[of q] SrtPacket_parse_wire[of q] SrtPacket_serialized_len_wire[of q] by simp
qed

theorem srt_packet_round_trip_witness:
  "SrtPacket_serialize_into (Control (DropReq \<lparr>dr_message_number = 7, dr_timestamp = 1, dr_dest_socket_id = 2,
       dr_first_seq = 10, dr_last_seq = 20\<rparr>)) (replicate 24 0) =
     Inr (words [0x80070000, 7, 1, 2, 10, 20], 24) \<and>
   SrtPacket_parse (words [0x80070000, 7, 1, 2, 10, 20]) =
     Inr (Control (DropReq \<lparr>dr_message_number = 7, dr_timestamp = 1, dr_dest_socket_id = 2, dr_first_seq = 10, dr_last_seq = 20\<rparr>))"
proof -
  let ?p = "Control (DropReq \<lparr>dr_message_number = 7, dr_timestamp = 1, dr_dest_socket_id = 2, dr_first_seq = 10, dr_last_seq = 20\<rparr>)"
  let ?w = "words [0x80070000, 7, 1, 2, 10, 20]"
  have wire: "srt_wire ?p = ?w"
    by (simp add: ctl_wire_def ctl_word0_def ControlType_codes F_BIT_def words_Cons)
  have parse: "SrtPacket_parse ?w = Inr ?p" using SrtPacket_parse_wire[of ?p] wire by simp
  show ?thesis using srt_packet_round_trip[of ?w "replicate 24 0" ?p] parse by simp
qed

text \<open>
  The loss list of a NAK survives the wire in both directions. \<open>build_loss_list\<close> fails exactly
  when some sequence number needs more than 31 bits; otherwise walking its output yields exactly
  the entries it was given. And whenever a walk over arbitrary bytes reports no error, rebuilding
  the entries it yielded gives those bytes back, so no loss report is read in two ways.
\<close>

theorem loss_list_round_trip:
  "(build_loss_list es = Inr out \<longrightarrow> loss_entries out = map Inr es) \<and>
   ((\<exists>out. build_loss_list es = Inr out) \<longleftrightarrow>
      (\<forall>e \<in> set es. case e of Single a \<Rightarrow> unat a < 2 ^ 31 | Range a b \<Rightarrow> unat a < 2 ^ 31 \<and> unat b < 2 ^ 31)) \<and>
   (loss_entries rest = map Inr es \<longrightarrow> build_loss_list es = Inr rest)"
proof -
  have ok: "loss_ok e \<longleftrightarrow> (case e of Single a \<Rightarrow> unat a < 2 ^ 31 | Range a b \<Rightarrow> unat a < 2 ^ 31 \<and> unat b < 2 ^ 31)" for e
    by (cases e) (simp_all only: loss_ok.simps LossListEntry.case fits_iff_masked mask31 seq_mask_no_F simp_thms)
  show ?thesis
    using loss_entries_words[of es] loss_entries_back[of rest es] by (auto simp: build_loss_list_eq list_all_iff ok)
qed

theorem loss_list_round_trip_witness:
  "loss_entries (words [5, 0x8000000A, 20]) = [Inr (Single 5), Inr (Range 10 20)] \<and>
   build_loss_list [Single 5, Range 10 20] = Inr (words [5, 0x8000000A, 20])"
proof -
  have b: "build_loss_list [Single 5, Range 10 20] = Inr (words [5, 0x8000000A, 20])"
    by (simp add: check_bits_eq mask_eq_exp_minus_1 F_BIT_def words_Cons)
  then show ?thesis using loss_list_round_trip[of "[Single 5, Range 10 20]" "words [5, 0x8000000A, 20]" "[]"] by simp
qed

end
