(* ===== verification/Srt_Arq.thy ===== *)
theory Srt_Arq
  imports Srt_Control
begin

text \<open>
  The ground of the SRT reliability engine (\<open>srt-runtime/src/arq/mod.rs\<close>, \<open>rtt.rs\<close>): the
  timer constants, the round-trip estimator with its saturating arithmetic, and the position of a
  sequence number in the stream. Positions are integers counted from a fixed sequence number;
  inside half the circle the circular comparisons of the code are the comparisons of positions.
\<close>

section \<open>Positions\<close>

definition sq :: "u32 \<Rightarrow> int \<Rightarrow> u32" where
  "sq isn n = word_of_int ((uint isn + n) mod 2 ^ 31)"

lemma uint_sq: "uint (sq isn n) = (uint isn + n) mod 2 ^ 31"
proof -
  have "0 \<le> (uint isn + n) mod 2 ^ 31" "(uint isn + n) mod 2 ^ 31 < 2 ^ 31" by simp_all
  then show ?thesis by (simp add: sq_def uint_word_of_int)
qed

lemma sq_valid [simp]: "srt_valid (sq isn n)"
  by (simp add: srt_valid_def uint_sq)

lemma sq_0 [simp]: "srt_valid isn \<Longrightarrow> sq isn 0 = isn"
  by (simp add: sq_def srt_valid_def)

lemma sq_diff_cases:
  "srt_seq_diff (sq isn a) (sq isn b) =
     (let d = (a - b) mod 2 ^ 31 in if d > 2 ^ 30 then d - 2 ^ 31 else d)"
proof -
  have "(uint (sq isn a) - uint (sq isn b)) mod 2 ^ 31 = (a - b) mod 2 ^ 31"
    by (simp add: uint_sq mod_diff_eq algebra_simps)
  then show ?thesis
    using seq_diff_in_space[of srt_space "sq isn a" "sq isn b"] sq_valid[of isn a] sq_valid[of isn b]
    by (simp add: srt_seq_diff_def srt_valid_in_space srt_modulus Let_def)
qed

lemma sq_diff:
  assumes "- (2 ^ 30) < a - b" "a - b \<le> 2 ^ 30"
  shows "srt_seq_diff (sq isn a) (sq isn b) = a - b"
proof (cases "0 \<le> a - b")
  case True
  then have "(a - b) mod 2 ^ 31 = a - b" using assms by simp
  then show ?thesis using assms by (simp add: sq_diff_cases Let_def)
next
  case False
  have "(a - b) mod 2 ^ 31 = (a - b + 2 ^ 31) mod 2 ^ 31" by (simp only: mod_add_self2)
  also have "\<dots> = a - b + 2 ^ 31" using assms False by (intro mod_pos_pos_trivial) simp_all
  finally have "(a - b) mod 2 ^ 31 = a - b + 2 ^ 31" .
  then show ?thesis using assms False by (simp add: sq_diff_cases Let_def)
qed

lemma srt_seq_add_sq: "srt_seq_add (sq isn n) k = sq isn (n + uint k)"
  unfolding srt_seq_add_def seq_add_def srt_modulus uint_sq sq_def[of isn "n + uint k"]
  by (simp only: mod_add_left_eq add.assoc)

lemma sq_next: "srt_seq_next (sq isn n) = sq isn (n + 1)"
  by (simp add: srt_seq_next_def srt_seq_add_sq)

lemma sq_wrap: "sq isn (n + 2 ^ 31) = sq isn n"
  by (simp add: sq_def add.assoc[symmetric])

lemma sq_pred: "srt_seq_add (sq isn n) SEQ_NUMBER_MASK = sq isn (n - 1)"
proof -
  have "n + uint SEQ_NUMBER_MASK = (n - 1) + 2 ^ 31" by (simp add: SEQ_NUMBER_MASK_def)
  then show ?thesis by (simp only: srt_seq_add_sq sq_wrap)
qed

lemma sq_inject: "a - b < 2 ^ 31 \<Longrightarrow> b - a < 2 ^ 31 \<Longrightarrow> sq isn a = sq isn b \<longleftrightarrow> a = b"
proof
  assume r: "a - b < 2 ^ 31" "b - a < 2 ^ 31" and e: "sq isn a = sq isn b"
  have "(uint isn + a) mod 2 ^ 31 = (uint isn + b) mod 2 ^ 31" using e uint_sq by metis
  then have "2 ^ 31 dvd (uint isn + a) - (uint isn + b)" by (simp only: mod_eq_dvd_iff)
  then have "a - b = 0" using r by (intro dvd_small_zero[of "2 ^ 31"]) simp_all
  then show "a = b" by simp
qed simp

lemma sq_position: "srt_valid s \<Longrightarrow> s = sq isn (uint s - uint isn)"
  by (simp add: sq_def srt_valid_def)

lemma sq_shift: "sq (sq isn a) b = sq isn (a + b)"
  unfolding sq_def[of "sq isn a"] uint_sq by (simp only: sq_def mod_add_left_eq add.assoc)

text \<open>Every sequence number has a position within half the circle of any other.\<close>

lemma sq_near:
  assumes "srt_valid s" "srt_valid b"
  shows "s = sq b (srt_seq_diff s b)"
proof -
  have "2 ^ 31 dvd srt_seq_diff s b - (uint s - uint b)" using srt.diff_congruent[OF assms] .
  then have "(uint b + srt_seq_diff s b) mod 2 ^ 31 = uint s mod 2 ^ 31"
    by (simp add: mod_eq_dvd_iff algebra_simps)
  then have "uint (sq b (srt_seq_diff s b)) = uint s" using assms(1) by (simp add: uint_sq srt_valid_def)
  then show ?thesis by (simp only: word_uint_eq_iff)
qed

text \<open>The loss list entry for the positions from the one to the other.\<close>

definition run_entry :: "u32 \<Rightarrow> int \<times> int \<Rightarrow> LossListEntry" where
  "run_entry isn r = (if fst r = snd r then Single (sq isn (fst r)) else Range (sq isn (fst r)) (sq isn (snd r)))"

lemma sq_not_F [simp]: "\<not> bit (sq isn n) 31"
proof -
  have "uint (sq isn n) < 2 ^ 31" using sq_valid[of isn n] by (simp add: srt_valid_def)
  then have "int (unat (sq isn n)) < 2 ^ 31" unfolding uint_nat .
  then have "int (unat (sq isn n)) < int (2 ^ 31)" by simp
  then have "unat (sq isn n) < 2 ^ 31" by (simp only: of_nat_less_iff)
  then show ?thesis by (simp only: fits_iff_masked mask31 seq_mask_no_F not_False_eq_True)
qed

lemma run_entry_ok [simp]: "loss_ok (run_entry isn r)"
  by (simp add: run_entry_def)

section \<open>Timers\<close>

definition FULL_ACK_PERIOD :: duration where "FULL_ACK_PERIOD = from_millis 10"
definition LIGHT_ACK_THRESHOLD :: u32 where "LIGHT_ACK_THRESHOLD = 64"
definition NAK_INTERVAL_FLOOR :: duration where "NAK_INTERVAL_FLOOR = from_millis 20"

definition duration_to_wire_us :: "duration \<Rightarrow> u32" where
  "duration_to_wire_us d = word_of_nat (as_micros d mod 2 ^ 32)"

definition nak_interval :: "duration \<Rightarrow> duration \<Rightarrow> duration" where
  "nak_interval rtt rtt_var =
     (let sum = rtt + rtt_var * 4;
          half = sum div 2
      in if half < NAK_INTERVAL_FLOOR then NAK_INTERVAL_FLOOR else half)"

section \<open>The round-trip estimator\<close>

definition INITIAL_RTT :: duration where "INITIAL_RTT = from_millis 100"
definition INITIAL_RTT_VAR :: duration where "INITIAL_RTT_VAR = from_millis 50"

record RttEstimator =
  est_rtt :: duration
  est_rtt_var :: duration

definition Rtt_new :: RttEstimator where
  "Rtt_new = \<lparr>est_rtt = INITIAL_RTT, est_rtt_var = INITIAL_RTT_VAR\<rparr>"

definition I64_MAX :: int where "I64_MAX = 2 ^ 63 - 1"

text \<open>\<open>i64\<close> arithmetic that saturates at both ends.\<close>

definition sat64 :: "int \<Rightarrow> int" where
  "sat64 x = max (- (2 ^ 63)) (min I64_MAX x)"

definition micros64 :: "duration \<Rightarrow> int" where
  "micros64 d = (if int (as_micros d) \<le> I64_MAX then int (as_micros d) else I64_MAX)"

definition rtt_us :: "RttEstimator \<Rightarrow> u32" where
  "rtt_us e = (if as_micros (est_rtt e) < 2 ^ 32 then word_of_nat (as_micros (est_rtt e)) else 0xFFFFFFFF)"

definition rtt_var_us :: "RttEstimator \<Rightarrow> u32" where
  "rtt_var_us e = (if as_micros (est_rtt_var e) < 2 ^ 32 then word_of_nat (as_micros (est_rtt_var e)) else 0xFFFFFFFF)"

text \<open>The quotients are of non-negative numbers, where Rust's division and \<open>div\<close> agree.\<close>

definition Rtt_update :: "RttEstimator \<Rightarrow> duration \<Rightarrow> RttEstimator" where
  "Rtt_update e sample =
     (let rtt = micros64 (est_rtt e);
          var = micros64 (est_rtt_var e);
          smp = micros64 sample;
          new_rtt = sat64 (sat64 (rtt * 7) + smp) div 8;
          new_var = sat64 (sat64 (var * 3) + sat64 \<bar>sat64 (rtt - smp)\<bar>) div 4
      in \<lparr>est_rtt = from_micros (nat (max new_rtt 0)), est_rtt_var = from_micros (nat (max new_var 0))\<rparr>)"

lemma micros64_range: "0 \<le> micros64 d" "micros64 d \<le> I64_MAX"
  by (simp_all add: micros64_def I64_MAX_def)

lemma micros64_mono: "d \<le> m \<Longrightarrow> micros64 d \<le> micros64 m"
  by (auto simp: micros64_def as_micros_def div_le_mono)

lemma micros64_micros: "0 \<le> x \<Longrightarrow> x \<le> I64_MAX \<Longrightarrow> micros64 (from_micros (nat x)) = x"
  by (simp add: micros64_def as_micros_def from_micros_def)

text \<open>
  Each update is a weighted mean of the old estimate and the sample, and of the old variance and
  the deviation, as long as the product by seven does not saturate.
\<close>

lemma Rtt_update_micros:
  assumes "micros64 (est_rtt e) \<le> m" "micros64 (est_rtt_var e) \<le> m" "micros64 s \<le> m" "m < 2 ^ 60"
  shows "micros64 (est_rtt (Rtt_update e s)) = (7 * micros64 (est_rtt e) + micros64 s) div 8"
    "micros64 (est_rtt_var (Rtt_update e s)) =
       (3 * micros64 (est_rtt_var e) + \<bar>micros64 (est_rtt e) - micros64 s\<bar>) div 4"
proof -
  note p = micros64_range[of "est_rtt e"] micros64_range[of "est_rtt_var e"] micros64_range[of s]
  have sat: "sat64 x = x" if "- (2 ^ 63) \<le> x" "x \<le> 2 ^ 63 - 1" for x
    using that by (simp add: sat64_def I64_MAX_def)
  let ?r = "(7 * micros64 (est_rtt e) + micros64 s) div 8"
  let ?v = "(3 * micros64 (est_rtt_var e) + \<bar>micros64 (est_rtt e) - micros64 s\<bar>) div 4"
  have s1: "sat64 (sat64 (micros64 (est_rtt e) * 7) + micros64 s) = 7 * micros64 (est_rtt e) + micros64 s"
    using assms p by (subst (2) sat) (simp_all add: sat)
  have s2: "sat64 (sat64 (micros64 (est_rtt_var e) * 3) + sat64 \<bar>sat64 (micros64 (est_rtt e) - micros64 s)\<bar>) =
      3 * micros64 (est_rtt_var e) + \<bar>micros64 (est_rtt e) - micros64 s\<bar>"
  proof -
    have "sat64 (micros64 (est_rtt e) - micros64 s) = micros64 (est_rtt e) - micros64 s" using assms p by (intro sat) simp_all
    moreover have "sat64 \<bar>micros64 (est_rtt e) - micros64 s\<bar> = \<bar>micros64 (est_rtt e) - micros64 s\<bar>"
      using assms p by (intro sat) simp_all
    moreover have "sat64 (micros64 (est_rtt_var e) * 3) = micros64 (est_rtt_var e) * 3" using assms p by (intro sat) simp_all
    ultimately show ?thesis using assms p by (simp only:) (subst sat, auto)
  qed
  have r: "0 \<le> ?r" "?r \<le> m" "0 \<le> ?v" "?v \<le> m" using assms p by auto
  show "micros64 (est_rtt (Rtt_update e s)) = ?r" "micros64 (est_rtt_var (Rtt_update e s)) = ?v"
    unfolding Rtt_update_def Let_def s1 s2 RttEstimator.simps
    using r assms by (simp_all add: micros64_micros I64_MAX_def max_def)
qed

lemma Rtt_update_bounded:
  assumes "micros64 (est_rtt e) \<le> m" "micros64 (est_rtt_var e) \<le> m" "micros64 s \<le> m" "m < 2 ^ 60"
  shows "micros64 (est_rtt (Rtt_update e s)) \<le> m" "micros64 (est_rtt_var (Rtt_update e s)) \<le> m"
    "min (micros64 (est_rtt e)) (micros64 s) \<le> micros64 (est_rtt (Rtt_update e s))"
    "micros64 (est_rtt (Rtt_update e s)) \<le> max (micros64 (est_rtt e)) (micros64 s)"
  using Rtt_update_micros[OF assms] micros64_range[of s] micros64_range[of "est_rtt e"] assms by auto

end
