(* ===== verification/Srt_Receiver.thy ===== *)
theory Srt_Receiver
  imports Srt_Arq
begin

text \<open>
  The receiving half of the SRT reliability engine (\<open>srt-runtime/src/arq/receiver.rs\<close>): loss
  detection, acknowledgements, loss reports, round-trip measurement and drop requests. Ordered
  sets are sets, walked in increasing order; the ordered map of outstanding acknowledgements is
  its list of entries in increasing key order.
\<close>

section \<open>State\<close>

definition MAX_TRACKED_WINDOW :: u32 where "MAX_TRACKED_WINDOW = push_bit 18 1"
definition IP_UDP_HEADER_LEN :: nat where "IP_UDP_HEADER_LEN = 28"
definition LOSS_ENTRY_SINGLE_LEN :: nat where "LOSS_ENTRY_SINGLE_LEN = 4"
definition LOSS_ENTRY_RANGE_LEN :: nat where "LOSS_ENTRY_RANGE_LEN = 8"
definition DEFAULT_MTU :: u32 where "DEFAULT_MTU = 1500"
definition ACK_RETENTION_RTTS :: nat where "ACK_RETENTION_RTTS = 4"
definition ACK_RETENTION_FLOOR :: duration where "ACK_RETENTION_FLOOR = from_millis 1000"
definition MAX_OUTSTANDING_ACKS :: nat where "MAX_OUTSTANDING_ACKS = 1024"

record FeedOutcome =
  fo_delivered :: "u32 list"
  fo_nak :: "bytes option"
  fo_out_of_window :: bool

record Receiver =
  r_dest_socket_id :: u32
  next_expected :: u32
  out_of_order :: "u32 set"
  loss_list :: "u32 set"
  highest_received :: "u32 option"
  packets_since_ack :: u32
  last_full_ack_at :: duration
  last_nak_at :: duration
  next_ack_number :: u32
  outstanding_acks :: "(u32 \<times> duration) list"
  r_rtt :: RttEstimator
  avail_buf_size :: u32
  r_mtu :: u32

definition Receiver_new :: "u32 \<Rightarrow> u32 \<Rightarrow> u32 \<Rightarrow> Receiver" where
  "Receiver_new dest initial_seq max_flow_window =
     \<lparr>r_dest_socket_id = dest, next_expected = initial_seq, out_of_order = {}, loss_list = {},
      highest_received = None, packets_since_ack = 0, last_full_ack_at = 0, last_nak_at = 0,
      next_ack_number = 1, outstanding_acks = [], r_rtt = Rtt_new, avail_buf_size = max_flow_window,
      r_mtu = DEFAULT_MTU\<rparr>"

definition with_mtu :: "Receiver \<Rightarrow> u32 \<Rightarrow> Receiver" where
  "with_mtu r mtu = r\<lparr>r_mtu := mtu\<rparr>"

definition r_window :: "Receiver \<Rightarrow> u32" where
  "r_window r = min (avail_buf_size r) MAX_TRACKED_WINDOW"

definition max_nak_cif_len :: "Receiver \<Rightarrow> nat" where
  "max_nak_cif_len r = max (unat (r_mtu r) - (IP_UDP_HEADER_LEN + SRT_HEADER_LEN)) LOSS_ENTRY_RANGE_LEN"

definition ack_point :: "Receiver \<Rightarrow> u32" where "ack_point r = next_expected r"
definition loss_list_len :: "Receiver \<Rightarrow> nat" where "loss_list_len r = card (loss_list r)"

section \<open>Loss reports\<close>

definition elapsed :: "duration \<Rightarrow> duration \<Rightarrow> duration" where
  "elapsed now since = (if since \<le> now then now - since else 0)"

text \<open>The inner loop of \<open>coalesce\<close>: extend the run that ends in \<open>e\<close> as far as it goes.\<close>

fun coalesce_run :: "u32 \<Rightarrow> u32 list \<Rightarrow> u32 \<times> u32 list" where
  "coalesce_run e [] = (e, [])"
| "coalesce_run e (q # qs) = (if q = srt_seq_next e then coalesce_run q qs else (e, q # qs))"

lemma coalesce_run_shrinks: "length (snd (coalesce_run e qs)) \<le> length qs"
proof (induction qs arbitrary: e)
  case (Cons q qs)
  show ?case using Cons[of "srt_seq_next e"] by simp
qed simp

function coalesce :: "u32 list \<Rightarrow> LossListEntry list" where
  "coalesce [] = []"
| "coalesce (start # qs) =
     (case coalesce_run start qs of
        (e, rest) \<Rightarrow> (if start = e then Single start else Range start e) # coalesce rest)"
  by pat_completeness auto
termination
  by (relation "measure length") (simp_all, metis coalesce_run_shrinks le_imp_less_Suc snd_conv)

definition nak_datagram :: "Receiver \<Rightarrow> LossListEntry list \<Rightarrow> duration \<Rightarrow> bytes option" where
  "nak_datagram r entries now =
     (case build_loss_list entries of
        Inl _ \<Rightarrow> None
      | Inr raw \<Rightarrow>
          let pkt = Nak \<lparr>nak_timestamp = duration_to_wire_us now, nak_dest_socket_id = r_dest_socket_id r,
                         raw_loss_list = raw\<rparr>
          in case ControlPacket_serialize_into pkt (replicate (ControlPacket_serialized_len pkt) 0) of
               Inl _ \<Rightarrow> None | Inr (buf, _) \<Rightarrow> Some buf)"

fun entry_len :: "LossListEntry \<Rightarrow> nat" where
  "entry_len (Range _ _) = LOSS_ENTRY_RANGE_LEN"
| "entry_len _ = LOSS_ENTRY_SINGLE_LEN"

text \<open>\<open>out.extend(option)\<close>.\<close>

definition extend_opt :: "'a list \<Rightarrow> 'a option \<Rightarrow> 'a list" where
  "extend_opt xs opt = (case opt of None \<Rightarrow> xs | Some x \<Rightarrow> xs @ [x])"

text \<open>The loop of \<open>build_naks\<close>, over its locals \<open>out\<close>, \<open>chunk\<close> and \<open>used\<close>.\<close>

fun naks_loop :: "Receiver \<Rightarrow> duration \<Rightarrow> LossListEntry list \<Rightarrow> bytes list \<Rightarrow> LossListEntry list \<Rightarrow> nat \<Rightarrow> bytes list" where
  "naks_loop r now [] out chunk used =
     (if chunk \<noteq> [] then extend_opt out (nak_datagram r chunk now) else out)"
| "naks_loop r now (entry # es) out chunk used =
     (let len = entry_len entry
      in if used + len > max_nak_cif_len r \<and> chunk \<noteq> []
         then naks_loop r now es (extend_opt out (nak_datagram r chunk now)) [entry] len
         else naks_loop r now es out (chunk @ [entry]) (used + len))"

definition build_naks :: "Receiver \<Rightarrow> LossListEntry list \<Rightarrow> duration \<Rightarrow> bytes list" where
  "build_naks r entries now = naks_loop r now entries [] [] 0"

section \<open>Arriving data\<close>

text \<open>
  The loop that marks a gap lost, from \<open>s\<close> up to the number before \<open>seq_number\<close>
  (\<open>last_lost\<close> in the code, \<open>+ (2^31 - 1)\<close> being \<open>- 1\<close>).
\<close>

function mark_lost :: "u32 \<Rightarrow> u32 \<Rightarrow> u32 set \<Rightarrow> u32 set" where
  "mark_lost seq_number s lost =
     (let last_lost = srt_seq_add seq_number SEQ_NUMBER_MASK;
          lost = insert s lost
      in if s = last_lost then lost else mark_lost seq_number (srt_seq_next s) lost)"
  by pat_completeness auto
termination
proof (relation "measure (\<lambda>(q, s, _). if srt_valid s
    then nat ((uint (srt_seq_add q SEQ_NUMBER_MASK) - uint s) mod 2 ^ 31) else 2 ^ 31)")
  fix q s :: u32 and lost x y
  assume ne: "x = srt_seq_add q SEQ_NUMBER_MASK" "s \<noteq> x"
  have v: "srt_valid x" unfolding ne(1) srt_seq_add_def srt_valid_in_space by (rule seq_add_in_space[OF srt_space_wf])
  define m where "m = (uint x - uint s) mod 2 ^ 31"
  have nx: "srt_valid (srt_seq_next s)"
    unfolding srt_seq_next_def srt_seq_add_def srt_valid_in_space by (rule seq_add_in_space[OF srt_space_wf])
  have un: "uint (srt_seq_next s) = (uint s + 1) mod 2 ^ 31"
    unfolding srt_seq_next_def srt_seq_add_def by (simp add: uint_seq_add[OF srt_space_wf] srt_modulus)
  have m1: "(uint x - uint (srt_seq_next s)) mod 2 ^ 31 = (m - 1) mod 2 ^ 31"
    unfolding un m_def by (simp add: mod_diff_left_eq mod_diff_right_eq algebra_simps)
  have "nat ((m - 1) mod 2 ^ 31) < (if srt_valid s then nat m else 2 ^ 31)"
  proof (cases "srt_valid s")
    case True
    have "m \<noteq> 0"
    proof
      assume "m = 0"
      then have "uint x mod 2 ^ 31 = uint s mod 2 ^ 31" unfolding m_def by (simp add: mod_eq_dvd_iff dvd_eq_mod_eq_0)
      then have "uint x = uint s" using v True by (simp add: srt_valid_def)
      then show False using ne(2) by (simp only: word_uint_eq_iff)
    qed
    moreover have "0 \<le> m" "m < 2 ^ 31" by (simp_all add: m_def)
    ultimately show ?thesis using True by simp
  next
    case False
    have "(m - 1) mod 2 ^ 31 < 2 ^ 31" by simp
    then show ?thesis using False by (simp add: nat_less_iff)
  qed
  then show "((q, srt_seq_next s, y), q, s, lost) \<in> measure (\<lambda>(q, s, _). if srt_valid s
      then nat ((uint (srt_seq_add q SEQ_NUMBER_MASK) - uint s) mod 2 ^ 31) else 2 ^ 31)"
    using nx m1 unfolding m_def ne(1) by simp
qed simp

declare mark_lost.simps [simp del]

text \<open>\<open>while self.out_of_order.remove(&self.next_expected)\<close>: the numbers delivered, the set, the ack point.\<close>

function drain :: "u32 set \<Rightarrow> u32 \<Rightarrow> u32 list \<times> u32 set \<times> u32" where
  "drain ooo nx =
     (if nx \<in> ooo
      then case drain (ooo - {nx}) (srt_seq_next nx) of (ds, ooo', nx') \<Rightarrow> (nx # ds, ooo', nx')
      else ([], ooo, nx))"
  by pat_completeness auto
termination
  by (relation "measure (\<lambda>(ooo, _). card ooo)") (simp_all, metis card_gt_0_iff diff_less empty_iff finite zero_less_one One_nat_def)

declare drain.simps [simp del]

definition nothing_fed :: FeedOutcome where
  "nothing_fed = \<lparr>fo_delivered = [], fo_nak = None, fo_out_of_window = False\<rparr>"

definition first_lost :: "Receiver \<Rightarrow> u32 \<Rightarrow> u32" where
  "first_lost r highest =
     (let fl = srt_seq_next highest in if srt_seq_lt fl (next_expected r) then next_expected r else fl)"

definition feed_data :: "Receiver \<Rightarrow> u32 \<Rightarrow> duration \<Rightarrow> Receiver \<times> FeedOutcome" where
  "feed_data r seq_number now =
     (if seq_number > SEQ_NUMBER_MASK then (r, nothing_fed\<lparr>fo_out_of_window := True\<rparr>)
      else if srt_seq_gt seq_number (next_expected r) \<and>
        \<not> (0 \<le> srt_seq_diff seq_number (next_expected r) \<and>
           srt_seq_diff seq_number (next_expected r) \<le> uint (r_window r))
      then (r, nothing_fed\<lparr>fo_out_of_window := True\<rparr>)
      else
        let r = r\<lparr>packets_since_ack := (if packets_since_ack r = 0xFFFFFFFF then 0xFFFFFFFF else packets_since_ack r + 1)\<rparr>;
            highest = (case highest_received r of Some h \<Rightarrow> h | None \<Rightarrow> srt_seq_add (next_expected r) SEQ_NUMBER_MASK);
            (r, nak_entries) =
              (if srt_seq_gt seq_number highest
               then let fl = first_lost r highest;
                        (lost, entries) =
                          (if fl \<noteq> seq_number \<and> srt_seq_lt fl seq_number
                           then let last_lost = srt_seq_add seq_number SEQ_NUMBER_MASK
                                in (mark_lost seq_number fl (loss_list r),
                                    [if fl = last_lost then Single fl else Range fl last_lost])
                           else (loss_list r, []))
                    in (r\<lparr>loss_list := lost, highest_received := Some seq_number\<rparr>, entries)
               else (r, []));
            r = r\<lparr>loss_list := loss_list r - {seq_number}\<rparr>;
            (r, delivered) =
              (if seq_number = next_expected r
               then case drain (out_of_order r) (srt_seq_next seq_number) of
                      (ds, ooo, nx) \<Rightarrow> (r\<lparr>out_of_order := ooo, next_expected := nx\<rparr>, seq_number # ds)
               else if srt_seq_gt seq_number (next_expected r)
               then (r\<lparr>out_of_order := insert seq_number (out_of_order r)\<rparr>, [])
               else (r, []));
            nak = (if nak_entries = [] then None
                   else case build_naks r nak_entries now of [] \<Rightarrow> None | d # _ \<Rightarrow> Some d)
        in (r, \<lparr>fo_delivered = delivered, fo_nak = nak, fo_out_of_window = False\<rparr>))"

section \<open>Timers and acknowledgements\<close>

text \<open>\<open>BTreeMap::insert\<close> on the sorted entries.\<close>

fun map_insert :: "u32 \<Rightarrow> duration \<Rightarrow> (u32 \<times> duration) list \<Rightarrow> (u32 \<times> duration) list" where
  "map_insert k v [] = [(k, v)]"
| "map_insert k v ((k', v') # m) =
     (if k < k' then (k, v) # (k', v') # m else if k = k' then (k, v) # m else (k', v') # map_insert k v m)"

definition control_datagram :: "ControlPacket \<Rightarrow> bytes option" where
  "control_datagram pkt =
     (case ControlPacket_serialize_into pkt (replicate (ControlPacket_serialized_len pkt) 0) of
        Inl _ \<Rightarrow> None | Inr (buf, _) \<Rightarrow> Some buf)"

definition build_full_ack :: "Receiver \<Rightarrow> duration \<Rightarrow> Receiver \<times> bytes option" where
  "build_full_ack r now =
     (let num = next_ack_number r;
          r = r\<lparr>next_ack_number := num + 1\<rparr>;
          r = (if length (outstanding_acks r) \<ge> MAX_OUTSTANDING_ACKS
               then r\<lparr>outstanding_acks := tl (outstanding_acks r)\<rparr> else r);
          r = r\<lparr>outstanding_acks := map_insert num now (outstanding_acks r)\<rparr>;
          pkt = Ack \<lparr>ack_number = num, ack_timestamp = duration_to_wire_us now,
                     ack_dest_socket_id = r_dest_socket_id r,
                     ack_cif = Full (next_expected r) (rtt_us (r_rtt r)) (rtt_var_us (r_rtt r)) (avail_buf_size r) 0 0 0\<rparr>
      in (r, control_datagram pkt))"

definition build_light_ack :: "Receiver \<Rightarrow> bytes option" where
  "build_light_ack r =
     control_datagram (Ack \<lparr>ack_number = 0, ack_timestamp = 0, ack_dest_socket_id = r_dest_socket_id r,
                            ack_cif = Light (next_expected r)\<rparr>)"

definition expire_outstanding_acks :: "Receiver \<Rightarrow> duration \<Rightarrow> Receiver" where
  "expire_outstanding_acks r now =
     (let retention = max (est_rtt (r_rtt r) * ACK_RETENTION_RTTS) ACK_RETENTION_FLOOR
      in r\<lparr>outstanding_acks := filter (\<lambda>(_, sent_at). elapsed now sent_at \<le> retention) (outstanding_acks r)\<rparr>)"

text \<open>The loss list in circular order from the ack point.\<close>

definition lost_in_order :: "Receiver \<Rightarrow> u32 list" where
  "lost_in_order r = sort_key (\<lambda>s. srt_seq_diff s (next_expected r)) (sorted_list_of_set (loss_list r))"

definition receiver_tick :: "Receiver \<Rightarrow> duration \<Rightarrow> Receiver \<times> bytes list" where
  "receiver_tick r now =
     (let out = [];
          (r, out) =
            (if elapsed now (last_full_ack_at r) \<ge> FULL_ACK_PERIOD
             then case build_full_ack r now of
                    (r, ack) \<Rightarrow> (r\<lparr>last_full_ack_at := now, packets_since_ack := 0\<rparr>, extend_opt out ack)
             else if packets_since_ack r \<ge> LIGHT_ACK_THRESHOLD
             then (r\<lparr>packets_since_ack := 0\<rparr>, extend_opt out (build_light_ack r))
             else (r, out));
          interval = nak_interval (est_rtt (r_rtt r)) (est_rtt_var (r_rtt r));
          (r, out) =
            (if loss_list r \<noteq> {} \<and> elapsed now (last_nak_at r) \<ge> interval
             then (r\<lparr>last_nak_at := now\<rparr>, out @ build_naks r (coalesce (lost_in_order r)) now)
             else (r, out))
      in (expire_outstanding_acks r now, out))"

definition next_timeout :: "Receiver \<Rightarrow> duration" where
  "next_timeout r =
     (let ack = last_full_ack_at r + FULL_ACK_PERIOD
      in if loss_list r = {} then ack
         else min ack (last_nak_at r + nak_interval (est_rtt (r_rtt r)) (est_rtt_var (r_rtt r))))"

definition on_ackack :: "Receiver \<Rightarrow> AckAckPacket \<Rightarrow> duration \<Rightarrow> Receiver" where
  "on_ackack r ackack now =
     (case map_of (outstanding_acks r) (aa_ack_number ackack) of
        Some sent_at \<Rightarrow>
          r\<lparr>outstanding_acks := filter (\<lambda>(k, _). k \<noteq> aa_ack_number ackack) (outstanding_acks r),
            r_rtt := Rtt_update (r_rtt r) (elapsed now sent_at)\<rparr>
      | None \<Rightarrow> r)"

section \<open>Drop requests\<close>

definition skip_range :: "Receiver \<Rightarrow> u32 \<Rightarrow> u32 \<Rightarrow> Receiver" where
  "skip_range r f l =
     (if srt_seq_diff l f < 0 then r
      else
        let r = r\<lparr>loss_list := {s \<in> loss_list r. \<not> srt_seq_in_closed_range s f l}\<rparr>;
            r = r\<lparr>out_of_order := {s \<in> out_of_order r. \<not> srt_seq_in_closed_range s f l}\<rparr>;
            r = (if srt_seq_in_closed_range (next_expected r) f l then r\<lparr>next_expected := srt_seq_next l\<rparr> else r)
        in case drain (out_of_order r) (next_expected r) of
             (_, ooo, nx) \<Rightarrow> r\<lparr>out_of_order := ooo, next_expected := nx\<rparr>)"

end
