(* ===== verification/Srt_Reception.thy ===== *)
theory Srt_Reception
  imports Srt_Receiver
begin

text \<open>
  What the SRT receiver computes: its state is a function of the set of stream positions received
  so far. The ack point is the first position missing, the out-of-order set the positions received
  beyond it, the loss list exactly the positions missing below the highest one received, and what
  has been delivered is the stream in order. Reports fit the datagram size and name exactly the
  missing numbers.
\<close>

section \<open>The loops\<close>

lemma mark_lost_positions:
  assumes "a < n" "n - a < 2 ^ 31"
  shows "mark_lost (sq isn n) (sq isn a) L = L \<union> sq isn ` {a..<n}"
  using assms
proof (induction "nat (n - a)" arbitrary: a L)
  case 0
  then show ?case by simp
next
  case (Suc k)
  have ins: "{a..<n} = insert a {a + 1..<n}" using Suc.prems by auto
  show ?case
  proof (cases "a = n - 1")
    case True
    then have "{a..<n} = {n - 1}" by auto
    then show ?thesis using True by (subst mark_lost.simps) (simp add: sq_pred Let_def)
  next
    case False
    then have ne: "sq isn a \<noteq> sq isn (n - 1)" using Suc.prems by (subst sq_inject) simp_all
    have "mark_lost (sq isn n) (sq isn a) L = mark_lost (sq isn n) (sq isn (a + 1)) (insert (sq isn a) L)"
      using ne by (subst mark_lost.simps) (simp add: sq_pred sq_next)
    also have "\<dots> = insert (sq isn a) L \<union> sq isn ` {a + 1..<n}"
      using Suc False by (intro Suc.hyps) simp_all
    finally show ?thesis by (simp add: ins)
  qed
qed

lemma sq_inj_on: "A \<subseteq> {lo..<lo + 2 ^ 30} \<Longrightarrow> inj_on (sq isn) A"
proof (rule inj_onI)
  fix x y
  assume A: "A \<subseteq> {lo..<lo + 2 ^ 30}" "x \<in> A" "y \<in> A" "sq isn x = sq isn y"
  then have "x \<in> {lo..<lo + 2 ^ 30}" "y \<in> {lo..<lo + 2 ^ 30}" by blast+
  then show "x = y" using A(4) by (subst (asm) sq_inject) auto
qed

lemma drain_positions:
  assumes "k \<le> q" "\<forall>j. k \<le> j \<and> j < q \<longrightarrow> j \<in> A" "q \<notin> A" "A \<subseteq> {lo..<lo + 2 ^ 30}" "lo \<le> k" "k \<le> lo + 2 ^ 30"
  shows "drain (sq isn ` A) (sq isn k) = (map (sq isn) [k..q - 1], sq isn ` (A - {k..<q}), sq isn q)"
  using assms
proof (induction "nat (q - k)" arbitrary: k A)
  case 0
  then have q: "q = k" by simp
  have "sq isn k \<notin> sq isn ` A"
  proof
    assume "sq isn k \<in> sq isn ` A"
    then obtain a where a: "a \<in> A" "sq isn k = sq isn a" by blast
    then have "k = a" using 0 by (subst (asm) sq_inject) auto
    then show False using a 0 q by simp
  qed
  then show ?case by (subst drain.simps) (simp add: q)
next
  case (Suc m)
  have k: "k \<in> A" "k < q" using Suc.hyps(2) Suc.prems by auto
  have inj: "inj_on (sq isn) A"
    using Suc.prems(4) by (rule sq_inj_on)
  have rm: "sq isn ` A - {sq isn k} = sq isn ` (A - {k})"
    using inj k(1) by (simp add: inj_on_image_set_diff[of _ A])
  have "drain (sq isn ` (A - {k})) (sq isn (k + 1)) =
      (map (sq isn) [k + 1..q - 1], sq isn ` (A - {k} - {k + 1..<q}), sq isn q)"
    using Suc.hyps(2) Suc.prems k by (intro Suc.hyps) auto
  moreover have "A - {k} - {k + 1..<q} = A - {k..<q}" using k by auto
  moreover have "[k..q - 1] = k # [k + 1..q - 1]" using k by (simp add: upto_rec1)
  ultimately show ?case using k by (subst drain.simps) (simp add: sq_next rm del: upto.simps)
qed

section \<open>What the state means\<close>

text \<open>
  \<open>got\<close> are the positions received and not withdrawn since, \<open>gone\<close> those withdrawn and not received
  since, \<open>p\<close> the position of the ack point and \<open>h\<close> the highest position received, \<open>- 1\<close> before the
  first packet. The out-of-order set are the positions received beyond the ack point; the loss list are
  the positions from the ack point to the highest received that are neither received nor withdrawn.
\<close>

definition holds :: "u32 \<Rightarrow> int set \<Rightarrow> int set \<Rightarrow> int \<Rightarrow> int \<Rightarrow> Receiver \<Rightarrow> bool" where
  "holds isn got gone p h r \<longleftrightarrow>
     finite got \<and> 0 \<le> p \<and> p \<notin> got \<and> (\<forall>n\<in>got. n \<le> h) \<and> (\<forall>n\<in>gone. n \<le> max h (p - 1)) \<and>
     h \<le> p + uint (r_window r) \<and> p \<le> h + 2 ^ 28 \<and>
     next_expected r = sq isn p \<and>
     out_of_order r = sq isn ` {n \<in> got. p < n} \<and>
     loss_list r = sq isn ` ({p..h} - got - gone) \<and>
     (highest_received r = Some (sq isn h) \<or> highest_received r = None \<and> h < p)"

lemma window_le: "uint (r_window r) \<le> 2 ^ 18"
proof -
  have "r_window r \<le> MAX_TRACKED_WINDOW" by (simp add: r_window_def)
  then have "uint (r_window r) \<le> uint MAX_TRACKED_WINDOW" by (simp add: word_le_def)
  also have "uint MAX_TRACKED_WINDOW = 2 ^ 18" by (simp add: MAX_TRACKED_WINDOW_def)
  finally show ?thesis .
qed

lemma holds_bounds:
  assumes "holds isn got gone p h r"
  shows "h \<le> p + 2 ^ 18" "p \<le> h + 2 ^ 28" "n \<in> got \<Longrightarrow> n \<le> h"
  using assms window_le[of r] by (auto simp: holds_def)

text \<open>The least position at or after \<open>p\<close> that a finite set misses.\<close>

lemma next_missing:
  assumes "finite (A :: int set)"
  shows "\<exists>q\<ge>p. q \<notin> A \<and> {p..<q} \<subseteq> A"
proof -
  have "\<exists>k. p + int k \<notin> A"
  proof
    have "Max (insert p A) + 1 \<notin> A" using assms by (metis Max_ge finite.insertI insertI2 linorder_not_le zless_add1_eq)
    moreover have "p \<le> Max (insert p A) + 1" using assms by (metis Max_ge finite.insertI insertI1 add_increasing2 zero_le_one)
    ultimately show "p + int (nat (Max (insert p A) + 1 - p)) \<notin> A" by simp
  qed
  define k where "k = (LEAST k. p + int k \<notin> A)"
  have k: "p + int k \<notin> A" unfolding k_def using LeastI_ex[OF \<open>\<exists>k. p + int k \<notin> A\<close>] .
  have "p + int j \<in> A" if "j < k" for j using not_less_Least[of j "\<lambda>k. p + int k \<notin> A"] that by (auto simp: k_def)
  then have "{p..<p + int k} \<subseteq> A"
  proof (intro subsetI)
    fix x assume j: "\<And>j. j < k \<Longrightarrow> p + int j \<in> A" and x: "x \<in> {p..<p + int k}"
    then have "p + int (nat (x - p)) \<in> A" by (intro j) auto
    then show "x \<in> A" using x by simp
  qed
  then show ?thesis using k by (intro exI[of _ "p + int k"]) simp
qed

text \<open>That position.\<close>

definition next_gap :: "int set \<Rightarrow> int \<Rightarrow> int" where
  "next_gap A p = p + int (LEAST k. p + int k \<notin> A)"

lemma next_gap_eq: "p \<le> q \<Longrightarrow> q \<notin> A \<Longrightarrow> {p..<q} \<subseteq> A \<Longrightarrow> next_gap A p = q"
proof -
  assume q: "p \<le> q" "q \<notin> A" "{p..<q} \<subseteq> A"
  have "(LEAST k. p + int k \<notin> A) = nat (q - p)"
  proof (rule Least_equality)
    show "p + int (nat (q - p)) \<notin> A" using q by simp
    fix k assume "p + int k \<notin> A"
    then have "p + int k \<notin> {p..<q}" using q(3) by blast
    then show "nat (q - p) \<le> k" by simp
  qed
  then show ?thesis using q(1) by (simp add: next_gap_def)
qed

section \<open>One arriving packet\<close>

text \<open>A packet within half the circle of the ack point, less the window: no packet is older.\<close>

definition plausible :: "int \<Rightarrow> int \<Rightarrow> bool" where
  "plausible p n \<longleftrightarrow> 0 \<le> n \<and> p - (2 ^ 30 - 2 ^ 18) < n \<and> n < p + 2 ^ 30"

definition high_of :: "Receiver \<Rightarrow> u32" where
  "high_of r = (case highest_received r of Some h \<Rightarrow> h | None \<Rightarrow> srt_seq_add (next_expected r) SEQ_NUMBER_MASK)"

lemma sq_le_mask: "\<not> sq isn n > SEQ_NUMBER_MASK"
proof -
  have "uint (sq isn n) < 2 ^ 31" using sq_valid[of isn n] by (simp add: srt_valid_def)
  then show ?thesis by (simp add: word_less_def SEQ_NUMBER_MASK_def)
qed

lemmas srt_cmp = srt_seq_gt_def srt_seq_lt_def seq_gt_def seq_lt_def srt_seq_diff_def[symmetric]

text \<open>What the gap detection adds to the loss list, and the entry it reports.\<close>

definition gap_entries :: "u32 \<Rightarrow> int \<Rightarrow> int \<Rightarrow> LossListEntry list" where
  "gap_entries isn h n =
     (if h + 1 < n then [if h + 1 = n - 1 then Single (sq isn (h + 1)) else Range (sq isn (h + 1)) (sq isn (n - 1))] else [])"

lemma gap_detection:
  assumes t: "holds isn got gone p h r" and pl: "plausible p n" and w: "n \<le> p + uint (r_window r)"
  obtains hi where "(if srt_seq_gt (sq isn n) (high_of r)
          then let fl = first_lost r (high_of r);
                   (lost, entries) =
                     (if fl \<noteq> sq isn n \<and> srt_seq_lt fl (sq isn n)
                      then let last_lost = srt_seq_add (sq isn n) SEQ_NUMBER_MASK
                           in (mark_lost (sq isn n) fl (loss_list r), [if fl = last_lost then Single fl else Range fl last_lost])
                      else (loss_list r, []))
               in (r\<lparr>loss_list := lost, highest_received := Some (sq isn n)\<rparr>, entries)
          else (r, [])) =
    (r\<lparr>loss_list := loss_list r \<union> sq isn ` {max h (p - 1) + 1..<n}, highest_received := hi\<rparr>, gap_entries isn (max h (p - 1)) n)"
    "hi = Some (sq isn (max h n)) \<or> hi = None \<and> max h n < p"
    "p \<le> n \<Longrightarrow> hi = Some (sq isn (max h n))" "hi = (if n > h \<and> (highest_received r = None \<longrightarrow> p \<le> n) then Some (sq isn n) else highest_received r)"
proof -
  note b = holds_bounds[OF t] window_le[of r] uint_ge_0[of "r_window r"]
  have pn: "- (2 ^ 30 - 2 ^ 18) < n - p" using pl by (simp add: plausible_def)
  have nx: "next_expected r = sq isn p" using t by (simp add: holds_def)
  define t' where "t' = (if highest_received r = None then p - 1 else h)"
  have hi: "high_of r = sq isn t'" using t by (auto simp: t'_def high_of_def holds_def sq_pred)
  have t': "max t' (p - 1) = max h (p - 1)" "t' \<le> p + 2 ^ 18" "p - 1 \<le> t' + 2 ^ 28" using t b by (auto simp: t'_def holds_def)
  let ?H = "max h (p - 1)"
  let ?hi = "if n > t' then Some (sq isn n) else highest_received r"
  have gt: "srt_seq_gt (sq isn n) (high_of r) \<longleftrightarrow> n > t'"
    unfolding hi srt_cmp using t' pn w b by (subst sq_diff) auto
  have fl: "first_lost r (high_of r) = sq isn (?H + 1)"
  proof -
    have "srt_seq_lt (sq isn (t' + 1)) (sq isn p) \<longleftrightarrow> t' + 1 < p" unfolding srt_cmp using t' by (subst sq_diff) auto
    moreover have "t' + 1 < p \<Longrightarrow> ?H + 1 = p" "\<not> t' + 1 < p \<Longrightarrow> ?H = t'" using t'(1) by linarith+
    ultimately show ?thesis by (auto simp: first_lost_def hi sq_next nx Let_def)
  qed
  have lt: "sq isn (?H + 1) \<noteq> sq isn n \<and> srt_seq_lt (sq isn (?H + 1)) (sq isn n) \<longleftrightarrow> ?H + 1 < n"
    unfolding srt_cmp using b pn w by (subst sq_diff, simp, simp, subst sq_inject) auto
  have ml: "mark_lost (sq isn n) (sq isn (?H + 1)) (loss_list r) = loss_list r \<union> sq isn ` {?H + 1..<n}"
    if "?H + 1 < n" using that b w by (intro mark_lost_positions) auto
  have eq: "sq isn (?H + 1) = sq isn (n - 1) \<longleftrightarrow> ?H + 1 = n - 1"
    if "?H + 1 < n" using b w that by (intro sq_inject) auto
  have low: "?H + 1 < n \<Longrightarrow> n > t'" using t'(1) by linarith
  show thesis
  proof (rule that[of ?hi])
    show "(if srt_seq_gt (sq isn n) (high_of r)
          then let fl = first_lost r (high_of r);
                   (lost, entries) =
                     (if fl \<noteq> sq isn n \<and> srt_seq_lt fl (sq isn n)
                      then let last_lost = srt_seq_add (sq isn n) SEQ_NUMBER_MASK
                           in (mark_lost (sq isn n) fl (loss_list r), [if fl = last_lost then Single fl else Range fl last_lost])
                      else (loss_list r, []))
               in (r\<lparr>loss_list := lost, highest_received := Some (sq isn n)\<rparr>, entries)
          else (r, [])) =
      (r\<lparr>loss_list := loss_list r \<union> sq isn ` {?H + 1..<n}, highest_received := ?hi\<rparr>, gap_entries isn ?H n)"
      using ml eq low by (cases "?H + 1 < n") (simp_all add: gt fl lt sq_pred gap_entries_def Let_def)
    show "?hi = Some (sq isn (max h n)) \<or> ?hi = None \<and> max h n < p"
      using t by (auto simp: t'_def holds_def max_def)
    show "p \<le> n \<Longrightarrow> ?hi = Some (sq isn (max h n))" using t by (auto simp: t'_def holds_def max_def)
    show "?hi = (if n > h \<and> (highest_received r = None \<longrightarrow> p \<le> n) then Some (sq isn n) else highest_received r)"
      using t by (auto simp: t'_def holds_def)
  qed
qed

text \<open>The delivery part of \<open>feed_data\<close>.\<close>

definition deliver_step :: "Receiver \<Rightarrow> u32 \<Rightarrow> Receiver \<times> u32 list" where
  "deliver_step r q =
     (if q = next_expected r
      then case drain (out_of_order r) (srt_seq_next q) of
             (ds, ooo, nx) \<Rightarrow> (r\<lparr>out_of_order := ooo, next_expected := nx\<rparr>, q # ds)
      else if srt_seq_gt q (next_expected r)
      then (r\<lparr>out_of_order := insert q (out_of_order r)\<rparr>, [])
      else (r, []))"

lemma deliver_positions:
  assumes nx: "next_expected r = sq isn p" and ooo: "out_of_order r = sq isn ` {m \<in> got. p < m}"
    and got: "finite got" "p \<notin> got" "\<forall>m\<in>got. m \<le> p + 2 ^ 18" and pl: "plausible p n"
    and up: "n \<le> p + 2 ^ 18"
  obtains p' where "p \<le> p'" "{p..<p'} \<subseteq> insert n got" "p' \<notin> insert n got"
    "deliver_step r (sq isn n) = (r\<lparr>out_of_order := sq isn ` {m \<in> insert n got. p' < m}, next_expected := sq isn p'\<rparr>,
       map (sq isn) [p..p' - 1])"
proof (cases "n = p")
  case True
  obtain q where q: "p + 1 \<le> q" "q \<notin> got" "{p + 1..<q} \<subseteq> got" using next_missing[OF got(1), of "p + 1"] by blast
  have "drain (sq isn ` {m \<in> got. p < m}) (sq isn (p + 1)) =
      (map (sq isn) [p + 1..q - 1], sq isn ` ({m \<in> got. p < m} - {p + 1..<q}), sq isn q)"
  proof (rule drain_positions[where lo = p])
    show "\<forall>j. p + 1 \<le> j \<and> j < q \<longrightarrow> j \<in> {m \<in> got. p < m}" using q(3) by (auto simp: subset_iff)
    show "{m \<in> got. p < m} \<subseteq> {p..<p + 2 ^ 30}"
    proof
      fix m assume "m \<in> {m \<in> got. p < m}"
      then show "m \<in> {p..<p + 2 ^ 30}" using bspec[OF got(3), of m] by simp
    qed
  qed (use q in simp_all)
  moreover have "{m \<in> got. p < m} - {p + 1..<q} = {m \<in> insert n got. q < m}"
  proof (rule set_eqI)
    fix m
    show "m \<in> {m \<in> got. p < m} - {p + 1..<q} \<longleftrightarrow> m \<in> {m \<in> insert n got. q < m}"
      using q True by (cases "m = q") auto
  qed
  moreover have "sq isn p # map (sq isn) [p + 1..q - 1] = map (sq isn) [p..q - 1]" using q(1) by (simp add: upto_rec1)
  ultimately have "deliver_step r (sq isn n) = (r\<lparr>out_of_order := sq isn ` {m \<in> insert n got. q < m}, next_expected := sq isn q\<rparr>,
      map (sq isn) [p..q - 1])"
    using True by (simp add: deliver_step_def nx ooo sq_next del: upto.simps)
  moreover have "{p..<q} \<subseteq> insert n got"
  proof
    fix x assume "x \<in> {p..<q}"
    then have "x = p \<or> x \<in> {p + 1..<q}" by auto
    then show "x \<in> insert n got" using q(3) True by blast
  qed
  ultimately show ?thesis using that[of q] q True by simp
next
  case False
  have ne: "sq isn n \<noteq> sq isn p" using False pl up by (subst sq_inject) (auto simp: plausible_def)
  have gt: "srt_seq_gt (sq isn n) (sq isn p) \<longleftrightarrow> p < n"
    unfolding srt_cmp using pl up by (subst sq_diff) (auto simp: plausible_def)
  have "{m \<in> insert n got. p < m} = (if p < n then insert n {m \<in> got. p < m} else {m \<in> got. p < m})" by auto
  then have "deliver_step r (sq isn n) = (r\<lparr>out_of_order := sq isn ` {m \<in> insert n got. p < m}, next_expected := sq isn p\<rparr>, [])"
    using ne gt by (simp add: deliver_step_def nx ooo Receiver.equality)
  then show ?thesis using that[of p] False got(2) by simp
qed

lemma feed_data_steps:
  "feed_data r (sq isn n) now =
     (if srt_seq_gt (sq isn n) (next_expected r) \<and>
        \<not> (0 \<le> srt_seq_diff (sq isn n) (next_expected r) \<and> srt_seq_diff (sq isn n) (next_expected r) \<le> uint (r_window r))
      then (r, nothing_fed\<lparr>fo_out_of_window := True\<rparr>)
      else let r = r\<lparr>packets_since_ack := (if packets_since_ack r = 0xFFFFFFFF then 0xFFFFFFFF else packets_since_ack r + 1)\<rparr>;
               (r, nak_entries) =
                 (if srt_seq_gt (sq isn n) (high_of r)
                  then let fl = first_lost r (high_of r);
                           (lost, entries) =
                             (if fl \<noteq> sq isn n \<and> srt_seq_lt fl (sq isn n)
                              then let last_lost = srt_seq_add (sq isn n) SEQ_NUMBER_MASK
                                   in (mark_lost (sq isn n) fl (loss_list r), [if fl = last_lost then Single fl else Range fl last_lost])
                              else (loss_list r, []))
                       in (r\<lparr>loss_list := lost, highest_received := Some (sq isn n)\<rparr>, entries)
                  else (r, []));
               (r, delivered) = deliver_step (r\<lparr>loss_list := loss_list r - {sq isn n}\<rparr>) (sq isn n);
               nak = (if nak_entries = [] then None
                      else case build_naks r nak_entries now of [] \<Rightarrow> None | d # _ \<Rightarrow> Some d)
           in (r, \<lparr>fo_delivered = delivered, fo_nak = nak, fo_out_of_window = False\<rparr>))"
  unfolding feed_data_def high_of_def deliver_step_def Let_def using sq_le_mask[of isn n] by simp

text \<open>What feeding and withdrawing leave alone.\<close>

definition same_timers :: "Receiver \<Rightarrow> Receiver \<Rightarrow> bool" where
  "same_timers r r' \<longleftrightarrow> r_rtt r' = r_rtt r \<and> last_nak_at r' = last_nak_at r \<and> r_dest_socket_id r' = r_dest_socket_id r \<and>
     r_mtu r' = r_mtu r \<and> avail_buf_size r' = avail_buf_size r"

text \<open>The loss list after an arrival: the numbers added by the gap detection, without the one that came.\<close>

lemma loss_positions:
  assumes t: "holds isn got gone p h r" and p': "p \<le> p'" "{p..<p'} \<subseteq> insert n got" "p' \<notin> insert n got"
    and n: "plausible p n" "n \<le> p + uint (r_window r)"
  shows "(loss_list r \<union> sq isn ` {max h (p - 1) + 1..<n}) - {sq isn n} =
    sq isn ` ({p'..max h n} - insert n got - (gone - {n}))"
proof -
  note b = holds_bounds[OF t] window_le[of r]
  define A where "A = ({p..h} - got - gone) \<union> {max h (p - 1) + 1..<n}"
  have A: "A \<subseteq> {p..<p + 2 ^ 18 + 2}" using b n by (auto simp: A_def)
  have inj: "inj_on (sq isn) (insert n A)"
  proof (rule inj_onI)
    fix x y assume "x \<in> insert n A" "y \<in> insert n A" "sq isn x = sq isn y"
    moreover from this have "\<bar>x - p\<bar> < 2 ^ 30" "\<bar>y - p\<bar> < 2 ^ 30" using A n by (auto simp: plausible_def)
    ultimately show "x = y" by (subst (asm) sq_inject) auto
  qed
  have "(loss_list r \<union> sq isn ` {max h (p - 1) + 1..<n}) - {sq isn n} = sq isn ` A - sq isn ` {n}"
    using t by (simp add: holds_def A_def image_Un)
  also have "\<dots> = sq isn ` (A - {n})" using inj by (subst inj_on_image_set_diff[of _ "insert n A"]) auto
  also have "A - {n} = {p'..max h n} - insert n got - (gone - {n})"
  proof (rule set_eqI)
    fix m
    have notgot: "h < m \<Longrightarrow> m \<notin> got" using b(3)[of m] by auto
    have notgone: "max h (p - 1) < m \<Longrightarrow> m \<notin> gone" using t by (auto simp: holds_def)
    have low: "p \<le> m \<Longrightarrow> m \<noteq> n \<Longrightarrow> m \<notin> got \<Longrightarrow> p' \<le> m" using p'(2) by (meson atLeastLessThan_iff insertE not_le subset_iff)
    show "m \<in> A - {n} \<longleftrightarrow> m \<in> {p'..max h n} - insert n got - (gone - {n})"
      unfolding A_def using notgot notgone low p'(1) by (auto simp: not_less max_def split: if_splits)
  qed
  finally show ?thesis .
qed

lemma feed_holds:
  assumes t: "holds isn got gone p h r" and pl: "plausible p n"
  shows "if n > p + uint (r_window r)
    then feed_data r (sq isn n) now = (r, nothing_fed\<lparr>fo_out_of_window := True\<rparr>)
    else \<exists>p' r' nak. feed_data r (sq isn n) now =
           (r', \<lparr>fo_delivered = map (sq isn) [p..p' - 1], fo_nak = nak, fo_out_of_window = False\<rparr>) \<and>
         p \<le> p' \<and> {p..<p'} \<subseteq> insert n got \<and> holds isn (insert n got) (gone - {n}) p' (max h n) r' \<and>
         (p \<le> n \<or> highest_received r \<noteq> None \<longrightarrow> highest_received r' \<noteq> None) \<and> same_timers r r' \<and>
         nak = (if gap_entries isn (max h (p - 1)) n = [] then None
                else case build_naks r' (gap_entries isn (max h (p - 1)) n) now of [] \<Rightarrow> None | d # _ \<Rightarrow> Some d)"
proof -
  note b = holds_bounds[OF t]
  have nx: "next_expected r = sq isn p" using t by (simp add: holds_def)
  have d: "srt_seq_diff (sq isn n) (next_expected r) = n - p"
    unfolding nx using pl by (intro sq_diff) (auto simp: plausible_def)
  have oow: "srt_seq_gt (sq isn n) (next_expected r) \<and>
      \<not> (0 \<le> srt_seq_diff (sq isn n) (next_expected r) \<and> srt_seq_diff (sq isn n) (next_expected r) \<le> uint (r_window r))
      \<longleftrightarrow> n > p + uint (r_window r)"
    unfolding srt_cmp d using uint_ge_0[of "r_window r"] by linarith
  show ?thesis
  proof (cases "n > p + uint (r_window r)")
    case True
    then show ?thesis using oow by (simp add: feed_data_steps)
  next
    case False
    define H where "H = max h (p - 1)"
    define r1 where "r1 = r\<lparr>packets_since_ack := (if packets_since_ack r = 0xFFFFFFFF then 0xFFFFFFFF else packets_since_ack r + 1)\<rparr>"
    have t1: "holds isn got gone p h r1" and w1: "r_window r1 = r_window r" using t by (simp_all add: holds_def r1_def r_window_def)
    have n1: "n \<le> p + uint (r_window r1)" using False w1 by simp
    obtain hi where gap0: "(if srt_seq_gt (sq isn n) (high_of r1)
          then let fl = first_lost r1 (high_of r1);
                   (lost, entries) =
                     (if fl \<noteq> sq isn n \<and> srt_seq_lt fl (sq isn n)
                      then let last_lost = srt_seq_add (sq isn n) SEQ_NUMBER_MASK
                           in (mark_lost (sq isn n) fl (loss_list r1), [if fl = last_lost then Single fl else Range fl last_lost])
                      else (loss_list r1, []))
               in (r1\<lparr>loss_list := lost, highest_received := Some (sq isn n)\<rparr>, entries)
          else (r1, [])) = (r1\<lparr>loss_list := loss_list r1 \<union> sq isn ` {H + 1..<n}, highest_received := hi\<rparr>, gap_entries isn H n)"
      and hi: "hi = Some (sq isn (max h n)) \<or> hi = None \<and> max h n < p" "p \<le> n \<Longrightarrow> hi = Some (sq isn (max h n))"
        "hi = (if n > h \<and> (highest_received r1 = None \<longrightarrow> p \<le> n) then Some (sq isn n) else highest_received r1)"
      by (rule gap_detection[OF t1 pl n1, folded H_def]) (rule that; assumption)
    define r2 where "r2 = r1\<lparr>loss_list := loss_list r1 \<union> sq isn ` {H + 1..<n}, highest_received := hi\<rparr>"
    note gap = gap0[folded r2_def]
    define r3 where "r3 = r2\<lparr>loss_list := loss_list r2 - {sq isn n}\<rparr>"
    have hi_of: "high_of r = high_of r1" by (cases "highest_received r") (simp_all add: high_of_def r1_def)
    have up: "n \<le> p + 2 ^ 18" using n1 window_le[of r1] by simp
    have got: "finite got" "p \<notin> got" "\<forall>m\<in>got. m \<le> p + 2 ^ 18" using t b by (force simp: holds_def)+
    have r3: "next_expected r3 = sq isn p" "out_of_order r3 = sq isn ` {m \<in> got. p < m}"
      using t by (simp_all add: r3_def r2_def r1_def holds_def)
    obtain p' where p': "p \<le> p'" "{p..<p'} \<subseteq> insert n got" "p' \<notin> insert n got"
      "deliver_step r3 (sq isn n) = (r3\<lparr>out_of_order := sq isn ` {m \<in> insert n got. p' < m}, next_expected := sq isn p'\<rparr>,
         map (sq isn) [p..p' - 1])"
      using deliver_positions[OF r3 got pl up] by blast
    define r4 where "r4 = r3\<lparr>out_of_order := sq isn ` {m \<in> insert n got. p' < m}, next_expected := sq isn p'\<rparr>"
    have feed: "feed_data r (sq isn n) now = (r4, \<lparr>fo_delivered = map (sq isn) [p..p' - 1],
        fo_nak = (if gap_entries isn H n = [] then None
                  else case build_naks r4 (gap_entries isn H n) now of [] \<Rightarrow> None | d # _ \<Rightarrow> Some d),
        fo_out_of_window = False\<rparr>)"
      unfolding feed_data_steps oow r1_def[symmetric] Let_def hi_of
      using False gap p'(4) unfolding r3_def r4_def Let_def by simp
    have top: "p' \<le> max p (max h n + 1)"
    proof (cases "p' = p")
      case False
      then have "p' - 1 \<in> {p..<p'}" using p'(1) by simp
      then have "p' - 1 \<in> insert n got" using p'(2) by blast
      then show ?thesis using b(3)[of "p' - 1"] by auto
    qed simp
    have loss: "loss_list r4 = sq isn ` ({p'..max h n} - insert n got - (gone - {n}))"
      using loss_positions[OF t p'(1-3) pl] False by (simp add: r4_def r3_def r2_def r1_def H_def)
    have win: "r_window r4 = r_window r" by (simp add: r4_def r3_def r2_def r1_def r_window_def)
    have t': "0 \<le> p" "\<forall>m\<in>gone. m \<le> max h (p - 1)" "h \<le> p + uint (r_window r)" using t by (simp_all add: holds_def)
    have "(1 :: int) \<le> 2 ^ 28" by simp
    then have "0 \<le> p'" "max h n \<le> p' + uint (r_window r)" "p' \<le> max h n + 2 ^ 28" using t' p'(1) top False b(2) by linarith+
    moreover have "\<forall>m\<in>insert n got. m \<le> max h n" using b(3) by force
    moreover have "\<forall>m\<in>gone - {n}. m \<le> max (max h n) (p' - 1)" using t'(2) p'(1) by force
    moreover have "highest_received r4 = Some (sq isn (max h n)) \<or> highest_received r4 = None \<and> max h n < p'"
      using hi(1) p'(1) by (auto simp: r4_def r3_def r2_def)
    moreover have "next_expected r4 = sq isn p'" "out_of_order r4 = sq isn ` {m \<in> insert n got. p' < m}" by (simp_all add: r4_def)
    ultimately have "holds isn (insert n got) (gone - {n}) p' (max h n) r4"
      unfolding holds_def win loss using got(1) p'(3) by simp
    moreover have "same_timers r r4" by (simp add: same_timers_def r4_def r3_def r2_def r1_def)
    moreover have "p \<le> n \<or> highest_received r \<noteq> None \<longrightarrow> highest_received r4 \<noteq> None"
      using hi(2,3) by (auto simp: r4_def r3_def r2_def r1_def split: if_splits)
    ultimately show ?thesis using False feed p'(1,2) unfolding H_def[symmetric] by auto
  qed
qed

section \<open>A withdrawn range\<close>

lemma sq_in_range:
  "a \<le> b \<Longrightarrow> b - a < 2 ^ 30 \<Longrightarrow> n - a < 2 ^ 30 \<Longrightarrow> a - n < 2 ^ 30 \<Longrightarrow>
   srt_seq_in_closed_range (sq isn n) (sq isn a) (sq isn b) \<longleftrightarrow> a \<le> n \<and> n \<le> b"
  by (auto simp: srt_seq_in_closed_range_def seq_in_closed_range_def Let_def srt_seq_diff_def[symmetric] sq_diff)

text \<open>Ranges of which both ends are within a quarter of the circle of what the receiver is at.\<close>

definition withdrawable :: "int \<Rightarrow> int \<Rightarrow> int \<Rightarrow> int \<Rightarrow> bool" where
  "withdrawable p h a b \<longleftrightarrow> a \<le> b \<and> p - 2 ^ 28 < a \<and> b < h + 2 ^ 28"

lemma skip_holds:
  assumes t: "holds isn got gone p h r" and w: "withdrawable p h a b"
  shows "\<exists>p'. (if a \<le> p \<and> p \<le> b then b + 1 else p) \<le> p' \<and> {if a \<le> p \<and> p \<le> b then b + 1 else p..<p'} \<subseteq> got - {a..b} \<and>
    p \<le> p' \<and> {p..<p'} \<subseteq> got \<union> {a..b} \<and> same_timers r (skip_range r (sq isn a) (sq isn b)) \<and>
    holds isn (got - {a..b}) (gone \<union> ({a..b} \<inter> {..max h (p' - 1)})) p' h (skip_range r (sq isn a) (sq isn b))"
proof -
  note b = holds_bounds[OF t]
  have ab: "a \<le> b" "p - 2 ^ 28 < a" "b < h + 2 ^ 28" using w by (simp_all add: withdrawable_def)
  have d: "srt_seq_diff (sq isn b) (sq isn a) = b - a" using ab b by (intro sq_diff) auto
  have range: "srt_seq_in_closed_range (sq isn n) (sq isn a) (sq isn b) \<longleftrightarrow> a \<le> n \<and> n \<le> b" if "p \<le> n" "n \<le> p + 2 ^ 18" for n
    using that ab b by (intro sq_in_range) auto
  define p0 where "p0 = (if a \<le> p \<and> p \<le> b then b + 1 else p)"
  define A where "A = {n \<in> got. p < n} - {a..b}"
  define L where "L = {p..h} - got - gone - {a..b}"
  have fin: "finite A" using t by (simp add: A_def holds_def)
  obtain q where q: "p0 \<le> q" "q \<notin> A" "{p0..<q} \<subseteq> A" using next_missing[OF fin, of p0] by blast
  have loss: "{s \<in> loss_list r. \<not> srt_seq_in_closed_range s (sq isn a) (sq isn b)} = sq isn ` L"
    using t b range by (fastforce simp: holds_def L_def)
  have ooo: "{s \<in> out_of_order r. \<not> srt_seq_in_closed_range s (sq isn a) (sq isn b)} = sq isn ` A"
    using t b range by (fastforce simp: holds_def A_def)
  have nx: "next_expected r = sq isn p" using t by (simp add: holds_def)
  have front: "srt_seq_in_closed_range (next_expected r) (sq isn a) (sq isn b) \<longleftrightarrow> a \<le> p \<and> p \<le> b"
    unfolding nx by (rule range) simp_all
  have dr: "drain (sq isn ` A) (sq isn p0) = (map (sq isn) [p0..q - 1], sq isn ` (A - {p0..<q}), sq isn q)"
  proof (rule drain_positions[where lo = p])
    show "\<forall>j. p0 \<le> j \<and> j < q \<longrightarrow> j \<in> A" using q(3) by auto
    show "A \<subseteq> {p..<p + 2 ^ 30}" using b by (force simp: A_def)
  qed (use q ab b in \<open>auto simp: p0_def\<close>)
  have skip: "skip_range r (sq isn a) (sq isn b) = r\<lparr>loss_list := sq isn ` L, out_of_order := sq isn ` (A - {p0..<q}), next_expected := sq isn q\<rparr>"
    unfolding skip_range_def d Let_def using ab(1) loss ooo front nx dr by (auto simp: p0_def sq_next)
  have pq: "p \<le> q" using q(1) ab by (auto simp: p0_def split: if_splits)
  have passed: "{p..<q} \<subseteq> got \<union> {a..b}"
  proof
    fix x assume x: "x \<in> {p..<q}"
    show "x \<in> got \<union> {a..b}"
    proof (cases "x < p0")
      case True
      then show ?thesis using x by (auto simp: p0_def split: if_splits)
    next
      case False
      then have "x \<in> {p0..<q}" using x by simp
      then show ?thesis using q(3) by (auto simp: A_def)
    qed
  qed
  have A': "A - {p0..<q} = {n \<in> got - {a..b}. q < n}"
  proof (rule set_eqI)
    fix n
    have "n \<in> A \<Longrightarrow> p0 \<le> n" by (auto simp: A_def p0_def)
    then show "n \<in> A - {p0..<q} \<longleftrightarrow> n \<in> {n \<in> got - {a..b}. q < n}" using q(2) pq by (cases "n = q") (auto simp: A_def)
  qed
  have L': "L = {q..h} - (got - {a..b}) - (gone \<union> ({a..b} \<inter> {..max h (q - 1)}))"
    using passed pq by (auto simp: L_def subset_iff)
  have "q \<notin> got - {a..b}"
    using q(2) pq t by (cases "q = p") (auto simp: A_def holds_def)
  moreover have "q \<le> h + 2 ^ 28"
  proof (cases "q = p0")
    case True
    then show ?thesis using b ab by (auto simp: p0_def)
  next
    case False
    then have "q - 1 \<in> A" using q by auto
    then show ?thesis using b(3)[of "q - 1"] by (auto simp: A_def)
  qed
  moreover have "r_window (skip_range r (sq isn a) (sq isn b)) = r_window r" by (simp add: skip r_window_def)
  ultimately have "holds isn (got - {a..b}) (gone \<union> ({a..b} \<inter> {..max h (q - 1)})) q h (skip_range r (sq isn a) (sq isn b))"
    using t pq A' L' unfolding holds_def by (auto simp: skip)
  moreover have "same_timers r (skip_range r (sq isn a) (sq isn b))" by (simp add: skip same_timers_def)
  moreover have "{p0..<q} \<subseteq> got - {a..b}" using q(3) by (auto simp: A_def)
  ultimately show ?thesis using pq passed q(1) unfolding p0_def by blast
qed

section \<open>Runs without withdrawals: the state tracks the set of positions received\<close>

definition top_pos :: "int set \<Rightarrow> int" where
  "top_pos got = (if got = {} then - 1 else Max got)"

definition receives :: "u32 \<Rightarrow> int set \<Rightarrow> int \<Rightarrow> Receiver \<Rightarrow> bool" where
  "receives isn got p r \<longleftrightarrow>
     finite got \<and> 0 \<le> p \<and> {0..<p} \<subseteq> got \<and> p \<notin> got \<and> (\<forall>n\<in>got. 0 \<le> n \<and> n \<le> p + uint (r_window r)) \<and>
     next_expected r = sq isn p \<and>
     out_of_order r = sq isn ` {n \<in> got. p < n} \<and>
     highest_received r = (if got = {} then None else Some (sq isn (top_pos got)))"

definition tracks :: "u32 \<Rightarrow> int set \<Rightarrow> int \<Rightarrow> Receiver \<Rightarrow> bool" where
  "tracks isn got p r \<longleftrightarrow>
     receives isn got p r \<and> loss_list r = sq isn ` {n. p \<le> n \<and> n \<le> top_pos got \<and> n \<notin> got}"

lemmas tracks_unfold = tracks_def receives_def

lemma top_bounds:
  assumes "receives isn got p r"
  shows "p - 1 \<le> top_pos got" "top_pos got \<le> p + uint (r_window r)" "n \<in> got \<Longrightarrow> n \<le> top_pos got" "top_pos got \<noteq> p"
proof -
  note t = assms[unfolded receives_def]
  have sub: "got \<noteq> {} \<Longrightarrow> top_pos got \<in> got" using t Max_in by (simp add: top_pos_def)
  show "top_pos got \<le> p + uint (r_window r)"
  proof (cases "got = {}")
    case True
    have "0 \<le> uint (r_window r)" "0 \<le> p" using t by simp_all
    moreover have "top_pos got = - 1" using True by (simp add: top_pos_def)
    ultimately show ?thesis by linarith
  qed (use sub t in auto)
  show "n \<in> got \<Longrightarrow> n \<le> top_pos got" using t by (auto simp: top_pos_def)
  then show "p - 1 \<le> top_pos got"
  proof (cases "0 < p")
    case True
    then have "p - 1 \<in> got" using t by auto
    then show ?thesis using t by (auto simp: top_pos_def)
  next
    case False
    show ?thesis
    proof (cases "got = {}")
      case False
      then have "0 \<le> top_pos got" using sub t by blast
      then show ?thesis using \<open>\<not> 0 < p\<close> by simp
    qed (use \<open>\<not> 0 < p\<close> in \<open>simp add: top_pos_def\<close>)
  qed
  show "top_pos got \<noteq> p"
  proof (cases "got = {}")
    case False
    then show ?thesis using sub t by metis
  qed (use t in \<open>simp add: top_pos_def\<close>)
qed

lemma top_insert: "finite got \<Longrightarrow> \<forall>n\<in>got. 0 \<le> n \<Longrightarrow> 0 \<le> n \<Longrightarrow> top_pos (insert n got) = max n (top_pos got)"
  by (cases "got = {}") (auto simp: top_pos_def)

lemma tracks_new: "srt_valid isn \<Longrightarrow> tracks isn {} 0 (Receiver_new dest isn w)"
  by (simp add: tracks_unfold Receiver_new_def top_pos_def)

lemma tracks_holds: "tracks isn got p r \<Longrightarrow> holds isn got {} p (top_pos got) r"
proof -
  assume t: "tracks isn got p r"
  note b = top_bounds[OF t[unfolded tracks_def, THEN conjunct1]]
  have "{n. p \<le> n \<and> n \<le> top_pos got \<and> n \<notin> got} = {p..top_pos got} - got - {}" by auto
  moreover have "got = {} \<Longrightarrow> top_pos got < p" using t by (simp add: tracks_unfold top_pos_def)
  ultimately show ?thesis using t b by (auto simp: holds_def tracks_unfold)
qed

lemma receives_high: "receives isn got p r \<Longrightarrow> high_of r = sq isn (top_pos got)"
proof -
  assume t: "receives isn got p r"
  then have "got = {} \<Longrightarrow> p = 0" by (auto simp: receives_def)
  then show ?thesis using t by (auto simp: receives_def high_of_def sq_pred top_pos_def)
qed

theorem feed_tracks:
  assumes t: "tracks isn got p r" and pl: "plausible p n"
  shows "if n > p + uint (r_window r)
    then feed_data r (sq isn n) now = (r, nothing_fed\<lparr>fo_out_of_window := True\<rparr>)
    else \<exists>p' r' nak. feed_data r (sq isn n) now =
           (r', \<lparr>fo_delivered = map (sq isn) [p..p' - 1], fo_nak = nak, fo_out_of_window = False\<rparr>) \<and>
         p \<le> p' \<and> tracks isn (insert n got) p' r' \<and>
         same_timers r r' \<and>
         nak = (if gap_entries isn (top_pos got) n = [] then None
                else case build_naks r' (gap_entries isn (top_pos got) n) now of [] \<Rightarrow> None | d # _ \<Rightarrow> Some d)"
proof -
  have H: "holds isn got {} p (top_pos got) r" by (rule tracks_holds[OF t])
  have top: "max (top_pos got) (p - 1) = top_pos got" using top_bounds(1)[OF t[unfolded tracks_def, THEN conjunct1]] by simp
  show ?thesis
  proof (cases "n > p + uint (r_window r)")
    case True
    then show ?thesis using feed_holds[OF H pl, of now] by simp
  next
    case False
    then obtain p' r' nak where f: "feed_data r (sq isn n) now =
        (r', \<lparr>fo_delivered = map (sq isn) [p..p' - 1], fo_nak = nak, fo_out_of_window = False\<rparr>)"
      "p \<le> p'" "{p..<p'} \<subseteq> insert n got" "holds isn (insert n got) {} p' (max (top_pos got) n) r'"
      "p \<le> n \<or> highest_received r \<noteq> None \<longrightarrow> highest_received r' \<noteq> None" "same_timers r r'"
      "nak = (if gap_entries isn (top_pos got) n = [] then None
              else case build_naks r' (gap_entries isn (top_pos got) n) now of [] \<Rightarrow> None | d # _ \<Rightarrow> Some d)"
      using feed_holds[OF H pl, of now] unfolding top by auto
    have n0: "0 \<le> n" using pl by (simp add: plausible_def)
    have tt: "top_pos (insert n got) = max (top_pos got) n"
      using t n0 by (subst top_insert) (auto simp: tracks_unfold)
    have "highest_received r' \<noteq> None"
    proof (cases "got = {}")
      case True
      then have "p = 0" using t by (auto simp: tracks_unfold)
      then show ?thesis using f(5) n0 by simp
    next
      case False
      then show ?thesis using t f(5) by (simp add: tracks_unfold)
    qed
    then have hi: "highest_received r' = Some (sq isn (top_pos (insert n got)))" using f(4) by (auto simp: holds_def tt)
    have low: "{0..<p'} \<subseteq> insert n got"
    proof
      fix x assume "x \<in> {0..<p'}"
      then have "x \<in> {0..<p} \<or> x \<in> {p..<p'}" by auto
      then show "x \<in> insert n got" using t f(3) by (auto simp: tracks_unfold)
    qed
    have "r_window r' = r_window r" using f(6) by (simp add: same_timers_def r_window_def)
    then have up: "\<forall>m\<in>insert n got. 0 \<le> m \<and> m \<le> p' + uint (r_window r')"
      using t n0 False f(2) by (force simp: tracks_unfold)
    have "{p'..max (top_pos got) n} - insert n got - {} = {m. p' \<le> m \<and> m \<le> top_pos (insert n got) \<and> m \<notin> insert n got}"
      by (auto simp: tt)
    then have "tracks isn (insert n got) p' r'"
      using f(4) hi low up unfolding tracks_unfold holds_def by simp
    then show ?thesis using False f by auto
  qed
qed

section \<open>Loss reports\<close>

text \<open>The datagram that carries a list of entries.\<close>

definition nak_packet :: "Receiver \<Rightarrow> duration \<Rightarrow> LossListEntry list \<Rightarrow> NakPacket" where
  "nak_packet r now es = \<lparr>nak_timestamp = duration_to_wire_us now, nak_dest_socket_id = r_dest_socket_id r,
     raw_loss_list = words (concat (map loss_words es))\<rparr>"

definition cif_len_of :: "LossListEntry list \<Rightarrow> nat" where
  "cif_len_of es = sum_list (map entry_len es)"

lemma length_loss_words: "length (words (concat (map loss_words es))) = cif_len_of es"
proof (induction es)
  case (Cons e es)
  then show ?case by (cases e) (simp_all add: cif_len_of_def LOSS_ENTRY_SINGLE_LEN_def LOSS_ENTRY_RANGE_LEN_def words_append)
qed (simp add: cif_len_of_def)

lemma nak_datagram_eq:
  "list_all loss_ok es \<Longrightarrow> nak_datagram r es now = Some (ctl_wire (Nak (nak_packet r now es)))"
proof -
  assume ok: "list_all loss_ok es"
  define out where "out = words (concat (map loss_words es))"
  have "build_loss_list es = Inr out" using ok by (simp add: build_loss_list_eq out_def)
  moreover have "ControlPacket_serialized_len (Nak (nak_packet r now es)) = 16 + length out"
    by (simp add: ControlPacket_serialized_len_def SRT_HEADER_LEN_def nak_packet_def Nak_cif_len_def out_def)
  moreover have "ctl_cif_len (Nak (nak_packet r now es)) = length out" by (simp add: nak_packet_def Nak_cif_len_def out_def)
  moreover note ControlPacket_serialize_eq[of "Nak (nak_packet r now es)"] ctl_type_fits[of "Nak (nak_packet r now es)"]
  ultimately show ?thesis
    by (simp add: nak_datagram_def nak_packet_def[symmetric] out_def[symmetric] nak_packet_def Let_def)
qed

lemma naks_loop_chunks:
  assumes "list_all loss_ok (chunk @ es)" "used = cif_len_of chunk" "chunk \<noteq> [] \<longrightarrow> used \<le> max_nak_cif_len r"
  shows "\<exists>cs. naks_loop r now es out chunk used = out @ map (\<lambda>c. ctl_wire (Nak (nak_packet r now c))) cs \<and>
    concat cs = chunk @ es \<and> (\<forall>c \<in> set cs. c \<noteq> [] \<and> cif_len_of c \<le> max_nak_cif_len r)"
  using assms
proof (induction es arbitrary: out chunk used)
  case Nil
  show ?case
  proof (cases "chunk = []")
    case True
    then show ?thesis by (intro exI[of _ "[]"]) simp
  next
    case False
    then show ?thesis using Nil by (intro exI[of _ "[chunk]"]) (simp add: nak_datagram_eq extend_opt_def)
  qed
next
  case (Cons e es)
  have le: "entry_len e \<le> max_nak_cif_len r"
    by (cases e) (simp_all add: max_nak_cif_len_def LOSS_ENTRY_SINGLE_LEN_def LOSS_ENTRY_RANGE_LEN_def)
  show ?case
  proof (cases "used + entry_len e > max_nak_cif_len r \<and> chunk \<noteq> []")
    case True
    let ?d = "ctl_wire (Nak (nak_packet r now chunk))"
    obtain cs where "naks_loop r now es (out @ [?d]) [e] (entry_len e) = (out @ [?d]) @ map (\<lambda>c. ctl_wire (Nak (nak_packet r now c))) cs"
      "concat cs = [e] @ es" "\<forall>c \<in> set cs. c \<noteq> [] \<and> cif_len_of c \<le> max_nak_cif_len r"
      using Cons.IH[of "[e]" "entry_len e" "out @ [?d]"] Cons.prems le by (auto simp: cif_len_of_def)
    then show ?thesis using True Cons.prems
      by (intro exI[of _ "chunk # cs"]) (simp add: nak_datagram_eq extend_opt_def Let_def)
  next
    case False
    have "used + entry_len e \<le> max_nak_cif_len r"
      using False le Cons.prems(2) by (cases "chunk = []") (simp_all add: cif_len_of_def)
    moreover have "used + entry_len e = cif_len_of (chunk @ [e])" "list_all loss_ok ((chunk @ [e]) @ es)"
      using Cons.prems by (simp_all add: cif_len_of_def)
    ultimately obtain cs where "naks_loop r now es out (chunk @ [e]) (used + entry_len e) = out @ map (\<lambda>c. ctl_wire (Nak (nak_packet r now c))) cs"
      "concat cs = (chunk @ [e]) @ es" "\<forall>c \<in> set cs. c \<noteq> [] \<and> cif_len_of c \<le> max_nak_cif_len r"
      using Cons.IH[of "chunk @ [e]" "used + entry_len e" out] by blast
    moreover have "naks_loop r now (e # es) out chunk used = naks_loop r now es out (chunk @ [e]) (used + entry_len e)"
      using False by (auto simp: Let_def)
    ultimately show ?thesis by (intro exI[of _ cs]) simp
  qed
qed

lemma build_naks_chunks:
  assumes "list_all loss_ok es"
  shows "\<exists>cs. build_naks r es now = map (\<lambda>c. ctl_wire (Nak (nak_packet r now c))) cs \<and> concat cs = es \<and>
    (\<forall>c \<in> set cs. c \<noteq> [] \<and> cif_len_of c \<le> max_nak_cif_len r)"
  using naks_loop_chunks[of "[]" es 0 r now "[]"] assms by (simp add: build_naks_def cif_len_of_def)

text \<open>Coalescing an increasing list of positions: the entries spell out exactly the list.\<close>

lemma coalesce_run_positions:
  assumes "sorted_wrt (<) (a # xs)" "\<forall>x \<in> set xs. x < a + 2 ^ 30"
  shows "\<exists>b ys. coalesce_run (sq isn a) (map (sq isn) xs) = (sq isn b, map (sq isn) ys) \<and> a \<le> b \<and>
    a # xs = [a..b] @ ys \<and> (b = a \<or> b \<in> set xs)"
  using assms
proof (induction xs arbitrary: a)
  case Nil
  then show ?case by (intro exI[of _ a] exI[of _ "[]"]) simp
next
  case (Cons x xs)
  have x: "a < x" "x < a + 2 ^ 30" using Cons.prems by simp_all
  have eq: "sq isn x = sq isn (a + 1) \<longleftrightarrow> x = a + 1" using x by (intro sq_inject) auto
  show ?case
  proof (cases "x = a + 1")
    case True
    obtain b ys where b: "coalesce_run (sq isn x) (map (sq isn) xs) = (sq isn b, map (sq isn) ys)" "x \<le> b"
      "x # xs = [x..b] @ ys" "b = x \<or> b \<in> set xs"
      using Cons.IH[of x] Cons.prems x by force
    have "[a..b] = a # [x..b]" using b(2) True by (simp add: upto_rec1)
    then have "a # x # xs = [a..b] @ ys" using b(3) by simp
    moreover have "coalesce_run (sq isn a) (map (sq isn) (x # xs)) = (sq isn b, map (sq isn) ys)"
      using b(1) True by (simp add: sq_next)
    moreover have "a \<le> b" "b = a \<or> b \<in> set (x # xs)" using b(2,4) True by auto
    ultimately show ?thesis by blast
  next
    case False
    then show ?thesis using eq by (intro exI[of _ a] exI[of _ "x # xs"]) (simp add: sq_next)
  qed
qed

lemma coalesce_positions:
  assumes "sorted_wrt (<) xs" "\<forall>x \<in> set xs. \<forall>y \<in> set xs. y < x + 2 ^ 30"
  shows "\<exists>runs. coalesce (map (sq isn) xs) = map (run_entry isn) runs \<and> concat (map (\<lambda>(a, b). [a..b]) runs) = xs \<and>
    (\<forall>(a, b) \<in> set runs. a \<le> b \<and> b < a + 2 ^ 30)"
  using assms
proof (induction "length xs" arbitrary: xs rule: less_induct)
  case less
  show ?case
  proof (cases xs)
    case Nil
    then show ?thesis by (intro exI[of _ "[]"]) simp
  next
    case (Cons a xs')
    obtain b ys where b: "coalesce_run (sq isn a) (map (sq isn) xs') = (sq isn b, map (sq isn) ys)" "a \<le> b"
      "xs = [a..b] @ ys" "b = a \<or> b \<in> set xs'"
      using coalesce_run_positions[of a xs' isn] less.prems Cons by auto
    have bb: "b < a + 2 ^ 30" using b(4) less.prems(2) Cons by auto
    have "[a..b] \<noteq> []" using b(2) by (simp add: upto_rec1)
    then have "length ys < length xs" using b(3) by simp
    then obtain runs where runs: "coalesce (map (sq isn) ys) = map (run_entry isn) runs"
      "concat (map (\<lambda>(a, b). [a..b]) runs) = ys" "\<forall>(a, b) \<in> set runs. a \<le> b \<and> b < a + 2 ^ 30"
      using less.hyps[of ys] less.prems b(3) by (auto simp: sorted_wrt_append)
    have "sq isn a = sq isn b \<longleftrightarrow> a = b" using b(2) bb by (intro sq_inject) auto
    then have "coalesce (map (sq isn) xs) = run_entry isn (a, b) # coalesce (map (sq isn) ys)"
      using b(1) unfolding Cons by (simp add: run_entry_def)
    moreover have "xs = concat (map (\<lambda>(a, b). [a..b]) ((a, b) # runs))" using b(3) runs(2) by simp
    moreover have "\<forall>(a, b) \<in> set ((a, b) # runs). a \<le> b \<and> b < a + 2 ^ 30" using runs(3) b(2) bb by simp
    ultimately show ?thesis using runs(1) by (intro exI[of _ "(a, b) # runs"]) simp
  qed
qed

text \<open>The loss list in circular order is the list of missing positions in increasing order.\<close>

definition missing :: "int set \<Rightarrow> int \<Rightarrow> int list" where
  "missing got p = filter (\<lambda>n. n \<notin> got) [p..top_pos got]"

lemma set_missing: "set (missing got p) = {n. p \<le> n \<and> n \<le> top_pos got \<and> n \<notin> got}"
  by (auto simp: missing_def)

lemma sorted_missing: "sorted_wrt (<) (missing got p)"
  unfolding missing_def by (intro sorted_wrt_filter sorted_upto)

lemma lost_in_order_holds:
  assumes "holds isn got gone p h r"
  shows "lost_in_order r = map (sq isn) (filter (\<lambda>n. n \<notin> got \<union> gone) [p..h])" (is "_ = map _ ?ms")
proof -
  let ?key = "\<lambda>s. srt_seq_diff s (next_expected r)"
  note b = holds_bounds[OF assms]
  have "{p..h} - got - gone = set ?ms" by auto
  then have L: "loss_list r = sq isn ` set ?ms" and nx: "next_expected r = sq isn p"
    using assms by (simp_all add: holds_def)
  have key: "?key (sq isn n) = n - p" if "n \<in> set ?ms" for n
    unfolding nx using that b by (intro sq_diff) auto
  have inj: "inj_on ?key (loss_list r)" unfolding L by (rule inj_onI) (auto simp: key)
  have mk: "map ?key (map (sq isn) ?ms) = map (\<lambda>n. n - p) ?ms" by (simp add: key)
  have "sorted_wrt (<) ?ms" by (intro sorted_wrt_filter sorted_upto)
  then have sm: "sorted_wrt (<) (map (\<lambda>n. n - p) ?ms)" by (simp add: sorted_wrt_map)
  show ?thesis
  proof (rule map_sorted_distinct_set_unique[of ?key])
    show "set (lost_in_order r) = set (map (sq isn) ?ms)" by (simp add: lost_in_order_def L)
    then show "inj_on ?key (set (lost_in_order r) \<union> set (map (sq isn) ?ms))" using inj by (simp add: L)
    show "sorted (map ?key (lost_in_order r))" by (simp add: lost_in_order_def)
    have "distinct (lost_in_order r)" by (simp add: lost_in_order_def)
    then show "distinct (map ?key (lost_in_order r))" using inj by (simp add: distinct_map lost_in_order_def)
    show "sorted (map ?key (map (sq isn) ?ms))" "distinct (map ?key (map (sq isn) ?ms))"
      unfolding mk using sm strict_sorted_iff by blast+
  qed
qed

end
