(* ===== verification/Srt_Receiver_Spec.thy ===== *)
theory Srt_Receiver_Spec
  imports Srt_Reception
begin

text \<open>
  Runs of the SRT receiver, over all its operations: the theorems that its state is what the events
  say of the positions of the stream, that its periodic reports name exactly the gaps and fit the path,
  and two behaviours that break its documented contract. \<open>reception\<close> are the runs in which nothing is
  withdrawn, \<open>srt_receiving\<close> those with withdrawals.
\<close>

section \<open>Runs of the receiver\<close>

text \<open>
  The other operations leave the reliability state alone: timers, acknowledgement numbers and the
  estimator are all they touch.
\<close>

definition same_reliability :: "Receiver \<Rightarrow> Receiver \<Rightarrow> bool" where
  "same_reliability r r' \<longleftrightarrow> next_expected r' = next_expected r \<and> out_of_order r' = out_of_order r \<and>
     loss_list r' = loss_list r \<and> highest_received r' = highest_received r \<and> avail_buf_size r' = avail_buf_size r \<and>
     r_dest_socket_id r' = r_dest_socket_id r \<and> r_mtu r' = r_mtu r"

lemma same_reliability_tracks: "same_reliability r r' \<Longrightarrow> tracks isn got p r \<Longrightarrow> tracks isn got p r'"
  by (simp add: same_reliability_def tracks_unfold r_window_def)

lemma build_full_ack_same: "same_reliability r (fst (build_full_ack r now))"
  by (simp add: build_full_ack_def same_reliability_def Let_def)

lemma receiver_tick_same: "same_reliability r (fst (receiver_tick r now))"
proof -
  have "same_reliability r (fst (build_full_ack r now))" by (rule build_full_ack_same)
  then show ?thesis
    by (auto simp: receiver_tick_def expire_outstanding_acks_def same_reliability_def Let_def split: prod.splits if_splits)
qed

lemma on_ackack_same: "same_reliability r (on_ackack r a now)"
  by (auto simp: on_ackack_def same_reliability_def split: option.split)

text \<open>
  A run of a fresh receiver: \<open>got\<close> are the positions whose packets were accepted and \<open>out\<close> is the
  stream delivered so far. A packet may be up to \<open>2^30 - 2^18\<close> positions behind what has been
  delivered and less than \<open>2^30\<close> ahead of it.
\<close>

inductive reception :: "u32 \<Rightarrow> u32 \<Rightarrow> int set \<Rightarrow> Receiver \<Rightarrow> u32 list \<Rightarrow> bool" for isn window where
  start: "reception isn window {} (Receiver_new dest isn window) []"
| arrival: "reception isn window got r out \<Longrightarrow> plausible (int (length out)) n \<Longrightarrow> feed_data r (sq isn n) now = (r', o') \<Longrightarrow>
    reception isn window (if fo_out_of_window o' then got else insert n got) r' (out @ fo_delivered o')"
| timer: "reception isn window got r out \<Longrightarrow> reception isn window got (fst (receiver_tick r now)) out"
| acked: "reception isn window got r out \<Longrightarrow> reception isn window got (on_ackack r a now) out"
| mtu: "reception isn window got r out \<Longrightarrow> reception isn window got (with_mtu r m) out"

lemma reception_tracks:
  assumes "reception isn window got r out" "srt_valid isn"
  shows "tracks isn got (int (length out)) r \<and> out = map (sq isn) [0..int (length out) - 1] \<and> avail_buf_size r = window"
  using assms
proof (induction rule: reception.induct)
  case (start dest)
  then show ?case using tracks_new[of isn dest window] by (simp add: Receiver_new_def)
next
  case (arrival got r out n now r' o')
  then have t: "tracks isn got (int (length out)) r" and o: "out = map (sq isn) [0..int (length out) - 1]"
    and w: "avail_buf_size r = window" by simp_all
  show ?case
  proof (cases "n > int (length out) + uint (r_window r)")
    case True
    then have "r' = r" "o' = nothing_fed\<lparr>fo_out_of_window := True\<rparr>"
      using feed_tracks[OF t arrival.hyps(2), of now] arrival.hyps(3) by simp_all
    then show ?thesis using t o w by (simp add: nothing_fed_def)
  next
    case False
    then obtain p' nak where p': "o' = \<lparr>fo_delivered = map (sq isn) [int (length out)..p' - 1], fo_nak = nak, fo_out_of_window = False\<rparr>"
      "int (length out) \<le> p'" "tracks isn (insert n got) p' r'" "avail_buf_size r' = avail_buf_size r"
      using feed_tracks[OF t arrival.hyps(2), of now] arrival.hyps(3) by (auto simp: same_timers_def)
    have len: "int (length (out @ fo_delivered o')) = p'" using p'(1,2) by simp
    have "[0..int (length out) - 1] @ [int (length out)..p' - 1] = [0..p' - 1]"
      using p'(2) upto_split1[of 0 "int (length out)" "p' - 1"] by (cases "int (length out) = p'") auto
    then have "out @ fo_delivered o' = map (sq isn) [0..p' - 1]" using o p'(1) by (metis FeedOutcome.select_convs(1) map_append)
    then show ?thesis using p' w len by simp
  qed
next
  case (timer got r out now)
  then show ?case using same_reliability_tracks[OF receiver_tick_same, of isn got _ r now] receiver_tick_same[of r now]
    by (simp add: same_reliability_def)
next
  case (acked got r out a now)
  then show ?case using same_reliability_tracks[OF on_ackack_same, of isn got _ r a now] on_ackack_same[of r a now]
    by (simp add: same_reliability_def)
next
  case (mtu got r out m)
  have "r_window (with_mtu r m) = r_window r" by (simp add: with_mtu_def r_window_def)
  then show ?case using mtu by (simp add: tracks_unfold) (simp add: with_mtu_def)
qed

lemma reception_step:
  assumes "reception isn window got r out" "srt_valid isn" "plausible (int (length out)) n"
    "n \<le> int (length out) + min (uint window) (2 ^ 18)"
  shows "\<exists>r' ds. reception isn window (insert n got) r' (out @ ds)"
proof -
  have t: "tracks isn got (int (length out)) r" and w: "avail_buf_size r = window"
    using reception_tracks[OF assms(1,2)] by simp_all
  have win: "uint (r_window r) = min (uint window) (2 ^ 18)"
    by (simp add: r_window_def w MAX_TRACKED_WINDOW_def min_def word_le_def)
  obtain r' o' where f: "feed_data r (sq isn n) 0 = (r', o')" by fastforce
  have "\<not> fo_out_of_window o'" using feed_tracks[OF t assms(3), of 0] assms(4) f win by auto
  then show ?thesis using reception.arrival[OF assms(1,3) f] by auto
qed

section \<open>Runs with withdrawals\<close>

text \<open>
  What a receiver should know of its stream, in positions: those received and not withdrawn since, those
  withdrawn and not received since (as far as the highest received or the ack point), those the ack
  point passed because of a withdrawal, the position of the ack point, the highest received; and the
  numbers the receiver really delivered.
\<close>

record Stream =
  s_got :: "int set"
  s_gone :: "int set"
  s_skipped :: "int set"
  s_front :: int
  s_high :: int
  s_out :: "u32 list"

definition Stream_new :: Stream where
  "Stream_new = \<lparr>s_got = {}, s_gone = {}, s_skipped = {}, s_front = 0, s_high = - 1, s_out = []\<rparr>"

datatype ReceiverEvent = Packet int | Withdrawn int int | Other

text \<open>
  What an event means: a packet within the window is received, and the ack point moves to the next
  position not received; a withdrawn range is forgotten, and an ack point in it moves behind it and on
  to the next position not received.
\<close>

primrec take_note :: "u32 \<Rightarrow> ReceiverEvent \<Rightarrow> Stream \<Rightarrow> Stream" where
  "take_note window (Packet n) s =
     (if n > s_front s + min (uint window) (2 ^ 18) then s
      else s\<lparr>s_got := insert n (s_got s), s_gone := s_gone s - {n}, s_front := next_gap (insert n (s_got s)) (s_front s),
             s_high := max (s_high s) n\<rparr>)"
| "take_note window (Withdrawn a b) s =
     (let front = next_gap (s_got s - {a..b}) (if a \<le> s_front s \<and> s_front s \<le> b then b + 1 else s_front s)
      in s\<lparr>s_got := s_got s - {a..b}, s_gone := s_gone s \<union> ({a..b} \<inter> {..max (s_high s) (front - 1)}),
           s_skipped := s_skipped s \<union> {s_front s..<front}, s_front := front\<rparr>)"
| "take_note window Other s = s"

declare take_note.simps [simp del]

text \<open>
  One call of any operation of the receiver. A packet is \<open>plausible\<close>, less than half the circle away
  from the ack point; a withdrawn range ends within a quarter of the circle of the ack point and of the
  highest position received.
\<close>

inductive srt_step :: "u32 \<Rightarrow> u32 \<Rightarrow> ReceiverEvent \<Rightarrow> Stream \<times> Receiver \<Rightarrow> Stream \<times> Receiver \<Rightarrow> bool" for isn window where
  packet: "plausible (s_front s) n \<Longrightarrow> feed_data r (sq isn n) now = (r', o') \<Longrightarrow>
    srt_step isn window (Packet n) (s, r) ((take_note window (Packet n) s)\<lparr>s_out := s_out s @ fo_delivered o'\<rparr>, r')"
| withdrawal: "withdrawable (s_front s) (s_high s) a b \<Longrightarrow>
    srt_step isn window (Withdrawn a b) (s, r) (take_note window (Withdrawn a b) s, skip_range r (sq isn a) (sq isn b))"
| timer: "srt_step isn window Other (s, r) (s, fst (receiver_tick r now))"
| acked: "srt_step isn window Other (s, r) (s, on_ackack r a now)"
| mtu: "srt_step isn window Other (s, r) (s, with_mtu r m)"

inductive_cases srt_stepE: "srt_step isn window e (s, r) (s', r')"

inductive srt_receiving :: "u32 \<Rightarrow> u32 \<Rightarrow> Stream \<times> Receiver \<Rightarrow> bool" for isn window where
  start: "srt_receiving isn window (Stream_new, Receiver_new dest isn window)"
| step: "srt_receiving isn window x \<Longrightarrow> srt_step isn window e x y \<Longrightarrow> srt_receiving isn window y"

definition stream_inv :: "u32 \<Rightarrow> u32 \<Rightarrow> Stream \<Rightarrow> Receiver \<Rightarrow> bool" where
  "stream_inv isn window s r \<longleftrightarrow> holds isn (s_got s) (s_gone s) (s_front s) (s_high s) r \<and> avail_buf_size r = window \<and>
     s_got s \<inter> s_gone s = {} \<and> {0..<s_front s} \<subseteq> s_got s \<union> s_gone s \<and> s_skipped s \<subseteq> {0..<s_front s} \<and>
     s_out s = map (sq isn) (filter (\<lambda>n. n \<notin> s_skipped s) [0..s_front s - 1])"

lemma window_of: "avail_buf_size r = window \<Longrightarrow> uint (r_window r) = min (uint window) (2 ^ 18)"
  by (simp add: r_window_def MAX_TRACKED_WINDOW_def min_def word_le_def)

lemma upto_pieces: "0 \<le> p \<Longrightarrow> p \<le> q \<Longrightarrow> [0..p - 1] @ [p..q - 1 :: int] = [0..q - 1]"
  using upto_split1[of 0 p "q - 1"] by (cases "p = q") auto

lemma filter_extend:
  assumes "0 \<le> p" "p \<le> q" "S \<subseteq> {0..<p}"
  shows "filter (\<lambda>n. n \<notin> S) [0..q - 1] = filter (\<lambda>n. n \<notin> S) [0..p - 1] @ [p..q - 1]"
    "filter (\<lambda>n. n \<notin> S \<union> {p..<q}) [0..q - 1] = filter (\<lambda>n. n \<notin> S) [0..p - 1]"
proof -
  have a: "filter (\<lambda>n. n \<notin> S) [p..q - 1] = [p..q - 1]" using assms(3) by (intro filter_True) auto
  then show "filter (\<lambda>n. n \<notin> S) [0..q - 1] = filter (\<lambda>n. n \<notin> S) [0..p - 1] @ [p..q - 1]"
    unfolding upto_pieces[OF assms(1,2), symmetric] by simp
  have "filter (\<lambda>n. n \<notin> S \<union> {p..<q}) [p..q - 1] = []" by (intro filter_False) auto
  moreover have "filter (\<lambda>n. n \<notin> S \<union> {p..<q}) [0..p - 1] = filter (\<lambda>n. n \<notin> S) [0..p - 1]" by (intro filter_cong) auto
  ultimately show "filter (\<lambda>n. n \<notin> S \<union> {p..<q}) [0..q - 1] = filter (\<lambda>n. n \<notin> S) [0..p - 1]"
    unfolding upto_pieces[OF assms(1,2), symmetric] by simp
qed

lemma same_reliability_holds: "same_reliability r r' \<Longrightarrow> holds isn got gone p h r \<Longrightarrow> holds isn got gone p h r'"
  by (simp add: same_reliability_def holds_def r_window_def)

lemma packet_inv:
  assumes I: "stream_inv isn window s r" and pl: "plausible (s_front s) n" and f: "feed_data r (sq isn n) now = (r', o')"
  shows "stream_inv isn window ((take_note window (Packet n) s)\<lparr>s_out := s_out s @ fo_delivered o'\<rparr>) r' \<and>
    fo_out_of_window o' = (n > s_front s + min (uint window) (2 ^ 18))"
proof (cases "n > s_front s + min (uint window) (2 ^ 18)")
  case True
  have H: "holds isn (s_got s) (s_gone s) (s_front s) (s_high s) r" and w: "avail_buf_size r = window" using I by (simp_all add: stream_inv_def)
  have "r' = r" "o' = nothing_fed\<lparr>fo_out_of_window := True\<rparr>"
    using feed_holds[OF H pl, of now] True f unfolding window_of[OF w] by simp_all
  then show ?thesis using True I by (simp add: nothing_fed_def stream_inv_def take_note.simps)
next
  case False
  note i = I[unfolded stream_inv_def]
  have H: "holds isn (s_got s) (s_gone s) (s_front s) (s_high s) r" and w: "avail_buf_size r = window" using i by simp_all
  obtain p' nak where p': "o' = \<lparr>fo_delivered = map (sq isn) [s_front s..p' - 1], fo_nak = nak, fo_out_of_window = False\<rparr>"
    "s_front s \<le> p'" "{s_front s..<p'} \<subseteq> insert n (s_got s)"
    "holds isn (insert n (s_got s)) (s_gone s - {n}) p' (max (s_high s) n) r'" "same_timers r r'"
    using feed_holds[OF H pl, of now] False f unfolding window_of[OF w] by auto
  have front: "next_gap (insert n (s_got s)) (s_front s) = p'" using p'(2-4) by (intro next_gap_eq) (auto simp: holds_def)
  have p0: "0 \<le> s_front s" using H by (simp add: holds_def)
  have "{0..<p'} \<subseteq> insert n (s_got s) \<union> (s_gone s - {n})"
  proof
    fix x assume "x \<in> {0..<p'}"
    then have "x \<in> {0..<s_front s} \<or> x \<in> {s_front s..<p'}" by auto
    then show "x \<in> insert n (s_got s) \<union> (s_gone s - {n})" using i p'(3) by blast
  qed
  moreover have "insert n (s_got s) \<inter> (s_gone s - {n}) = {}" using i by blast
  moreover have "s_skipped s \<subseteq> {0..<p'}" using i p'(2) by fastforce
  moreover have "s_out s @ fo_delivered o' = map (sq isn) (filter (\<lambda>n. n \<notin> s_skipped s) [0..p' - 1])"
    using i p'(1,2) p0 filter_extend(1)[of "s_front s" p' "s_skipped s"] by simp
  moreover have "avail_buf_size r' = window" using p'(5) w by (simp add: same_timers_def)
  ultimately show ?thesis using False p'(1,4) by (simp add: stream_inv_def front take_note.simps)
qed

lemma withdrawal_inv:
  assumes I: "stream_inv isn window s r" and wd: "withdrawable (s_front s) (s_high s) a b"
  shows "stream_inv isn window (take_note window (Withdrawn a b) s) (skip_range r (sq isn a) (sq isn b))"
proof -
  note i = I[unfolded stream_inv_def]
  have H: "holds isn (s_got s) (s_gone s) (s_front s) (s_high s) r" using i by simp
  let ?p0 = "if a \<le> s_front s \<and> s_front s \<le> b then b + 1 else s_front s" and ?got = "s_got s - {a..b}"
  obtain p' where p': "?p0 \<le> p'" "{?p0..<p'} \<subseteq> ?got" "s_front s \<le> p'" "{s_front s..<p'} \<subseteq> s_got s \<union> {a..b}"
    "same_timers r (skip_range r (sq isn a) (sq isn b))"
    "holds isn ?got (s_gone s \<union> ({a..b} \<inter> {..max (s_high s) (p' - 1)})) p' (s_high s) (skip_range r (sq isn a) (sq isn b))"
    using skip_holds[OF H wd] by blast
  have front: "next_gap ?got ?p0 = p'" using p'(1,2,6) by (intro next_gap_eq) (auto simp: holds_def)
  have p0: "0 \<le> s_front s" using H by (simp add: holds_def)
  have "{0..<p'} \<subseteq> ?got \<union> (s_gone s \<union> ({a..b} \<inter> {..max (s_high s) (p' - 1)}))"
  proof
    fix x assume x: "x \<in> {0..<p'}"
    then have "x \<in> {0..<s_front s} \<or> x \<in> {s_front s..<p'}" by auto
    then have "x \<in> s_got s \<union> s_gone s \<or> x \<in> s_got s \<union> {a..b}" using i p'(4) by blast
    then show "x \<in> ?got \<union> (s_gone s \<union> ({a..b} \<inter> {..max (s_high s) (p' - 1)}))" using x by auto
  qed
  moreover have "?got \<inter> (s_gone s \<union> ({a..b} \<inter> {..max (s_high s) (p' - 1)})) = {}" using i by blast
  moreover have "s_skipped s \<union> {s_front s..<p'} \<subseteq> {0..<p'}" using i p'(3) p0 by fastforce
  moreover have "s_out s = map (sq isn) (filter (\<lambda>n. n \<notin> s_skipped s \<union> {s_front s..<p'}) [0..p' - 1])"
    using i p'(3) p0 filter_extend(2)[of "s_front s" p' "s_skipped s"] by simp
  moreover have "avail_buf_size (skip_range r (sq isn a) (sq isn b)) = window" using p'(5) i by (simp add: same_timers_def)
  ultimately show ?thesis using p'(6) by (simp add: stream_inv_def Let_def front take_note.simps)
qed

lemma srt_step_inv:
  assumes "srt_step isn window e (s, r) (s', r')" "stream_inv isn window s r"
  shows "stream_inv isn window s' r'"
proof (cases rule: srt_stepE[OF assms(1), case_names packet withdrawal timer acked mtu])
  case (packet n now o')
  then show ?thesis using packet_inv[OF assms(2), of n now r' o'] by simp
next
  case (withdrawal a b)
  then show ?thesis using withdrawal_inv[OF assms(2), of a b] by simp
next
  case (timer now)
  then show ?thesis using assms(2) receiver_tick_same[of r now] same_reliability_holds
    by (auto simp: stream_inv_def same_reliability_def)
next
  case (acked a now)
  then show ?thesis using assms(2) on_ackack_same[of r a now] same_reliability_holds
    by (auto simp: stream_inv_def same_reliability_def)
next
  case (mtu m)
  then show ?thesis using assms(2) by (auto simp: stream_inv_def holds_def with_mtu_def r_window_def)
qed

lemma srt_receiving_inv:
  assumes "srt_receiving isn window (s, r)" "srt_valid isn"
  shows "stream_inv isn window s r"
  using assms
proof (induction "(s, r)" arbitrary: s r rule: srt_receiving.induct)
  case (start dest)
  then show ?case using tracks_holds[OF tracks_new[OF start], of dest window]
    by (simp add: stream_inv_def Stream_new_def top_pos_def Receiver_new_def)
next
  case (step x e)
  obtain s0 r0 where "x = (s0, r0)" by (cases x)
  then show ?case using step srt_step_inv by blast
qed

text \<open>A run without withdrawals is one of these.\<close>

lemma reception_receiving:
  assumes "reception isn window got r out" "srt_valid isn"
  shows "srt_receiving isn window (\<lparr>s_got = got, s_gone = {}, s_skipped = {}, s_front = int (length out), s_high = top_pos got, s_out = out\<rparr>, r)"
  using assms
proof (induction rule: reception.induct)
  case (start dest)
  then show ?case using srt_receiving.start[of isn window dest] by (simp add: Stream_new_def top_pos_def)
next
  case (arrival got r out n now r' o')
  let ?s = "\<lparr>s_got = got, s_gone = {}, s_skipped = {}, s_front = int (length out), s_high = top_pos got, s_out = out\<rparr>"
  have rc: "srt_receiving isn window (?s, r)" using arrival by simp
  have step: "srt_step isn window (Packet n) (?s, r) ((take_note window (Packet n) ?s)\<lparr>s_out := s_out ?s @ fo_delivered o'\<rparr>, r')"
    by (rule srt_step.packet) (use arrival.hyps in simp_all)
  have inv: "stream_inv isn window ?s r" by (rule srt_receiving_inv[OF rc arrival.prems])
  have pk: "fo_out_of_window o' = (n > s_front ?s + min (uint window) (2 ^ 18))"
    "stream_inv isn window ((take_note window (Packet n) ?s)\<lparr>s_out := s_out ?s @ fo_delivered o'\<rparr>) r'"
    using packet_inv[OF inv _ arrival.hyps(3)] arrival.hyps(2) by simp_all
  have "(take_note window (Packet n) ?s)\<lparr>s_out := s_out ?s @ fo_delivered o'\<rparr> =
    \<lparr>s_got = (if fo_out_of_window o' then got else insert n got), s_gone = {}, s_skipped = {}, s_front = int (length (out @ fo_delivered o')),
      s_high = top_pos (if fo_out_of_window o' then got else insert n got), s_out = out @ fo_delivered o'\<rparr>"
  proof (cases "fo_out_of_window o'")
    case True
    then have "o' = nothing_fed\<lparr>fo_out_of_window := True\<rparr>"
      using feed_tracks[OF conjunct1[OF reception_tracks[OF arrival.hyps(1) arrival.prems]] arrival.hyps(2), of now] arrival.hyps(3)
      by (auto split: if_splits)
    then show ?thesis using pk(1) True by (simp add: nothing_fed_def take_note.simps)
  next
    case False
    let ?f = "next_gap (insert n got) (int (length out))"
    have "0 \<le> ?f" "out @ fo_delivered o' = map (sq isn) [0..?f - 1]"
      using pk(2) False pk(1) by (simp_all add: stream_inv_def holds_def take_note.simps)
    then have "int (length (out @ fo_delivered o')) = ?f" by simp
    moreover have "finite got" "\<forall>m\<in>got. 0 \<le> m" "0 \<le> n"
      using reception_tracks[OF arrival.hyps(1) arrival.prems] arrival.hyps(2) by (auto simp: tracks_unfold plausible_def)
    ultimately show ?thesis using False pk(1) top_insert[of got n] by (simp add: max.commute take_note.simps)
  qed
  then show ?case using srt_receiving.step[OF rc step] by simp
next
  case (timer got r out now)
  then show ?case using srt_receiving.step srt_step.timer by blast
next
  case (acked got r out a now)
  then show ?case using srt_receiving.step srt_step.acked by blast
next
  case (mtu got r out m)
  then show ?case using srt_receiving.step srt_step.mtu by blast
qed

lemma nak_datagram_cong:
  "r_dest_socket_id r' = r_dest_socket_id r \<Longrightarrow> nak_datagram r' es now = nak_datagram r es now"
proof -
  assume e: "r_dest_socket_id r' = r_dest_socket_id r"
  show ?thesis unfolding nak_datagram_def e ..
qed

lemma naks_loop_cong:
  "r_dest_socket_id r' = r_dest_socket_id r \<Longrightarrow> r_mtu r' = r_mtu r \<Longrightarrow>
     naks_loop r' now es out chunk used = naks_loop r now es out chunk used"
proof (induction es arbitrary: out chunk used)
  case Nil
  show ?case using nak_datagram_cong[OF Nil(1)] by (simp only: naks_loop.simps)
next
  case (Cons e es)
  have m: "max_nak_cif_len r' = max_nak_cif_len r" using Cons.prems(2) by (simp only: max_nak_cif_len_def)
  show ?case unfolding naks_loop.simps m nak_datagram_cong[OF Cons.prems(1)] Cons.IH[OF Cons.prems] ..
qed

lemma build_full_ack_keeps:
  "last_nak_at (fst (build_full_ack r now)) = last_nak_at r" "r_rtt (fst (build_full_ack r now)) = r_rtt r"
  by (simp_all add: build_full_ack_def Let_def)

text \<open>
  The acknowledgement a tick sends: a full one when its period has elapsed, otherwise a light one when
  enough packets have arrived since the last, otherwise none.
\<close>

definition due_acks :: "Receiver \<Rightarrow> duration \<Rightarrow> AckPacket list" where
  "due_acks r now =
     (if FULL_ACK_PERIOD \<le> elapsed now (last_full_ack_at r)
      then [\<lparr>ack_number = next_ack_number r, ack_timestamp = duration_to_wire_us now, ack_dest_socket_id = r_dest_socket_id r,
              ack_cif = Full (ack_point r) (rtt_us (r_rtt r)) (rtt_var_us (r_rtt r)) (avail_buf_size r) 0 0 0\<rparr>]
      else if LIGHT_ACK_THRESHOLD \<le> packets_since_ack r
      then [\<lparr>ack_number = 0, ack_timestamp = 0, ack_dest_socket_id = r_dest_socket_id r, ack_cif = Light (ack_point r)\<rparr>]
      else [])"

text \<open>Whether the periodic report is due.\<close>

definition report_due :: "Receiver \<Rightarrow> duration \<Rightarrow> bool" where
  "report_due r now \<longleftrightarrow> loss_list r \<noteq> {} \<and> nak_interval (est_rtt (r_rtt r)) (est_rtt_var (r_rtt r)) \<le> elapsed now (last_nak_at r)"

lemma control_datagram_ok: "ctl_ok pkt \<Longrightarrow> control_datagram pkt = Some (ctl_wire pkt)"
  using ctl_type_fits[of pkt]
  by (simp add: control_datagram_def ControlPacket_serialize_eq ControlPacket_serialized_len_def SRT_HEADER_LEN_def)

lemma receiver_tick_sends:
  "snd (receiver_tick r now) = map (\<lambda>a. ctl_wire (Ack a)) (due_acks r now) @
     (if report_due r now then build_naks r (coalesce (lost_in_order r)) now else [])"
proof -
  obtain r1 acks where a: "(if elapsed now (last_full_ack_at r) \<ge> FULL_ACK_PERIOD
       then case build_full_ack r now of (r, ack) \<Rightarrow> (r\<lparr>last_full_ack_at := now, packets_since_ack := 0\<rparr>, extend_opt [] ack)
       else if packets_since_ack r \<ge> LIGHT_ACK_THRESHOLD
       then (r\<lparr>packets_since_ack := 0\<rparr>, extend_opt [] (build_light_ack r)) else (r, [])) = (r1, acks)" by fastforce
  have r1: "same_reliability r r1" "last_nak_at r1 = last_nak_at r" "r_rtt r1 = r_rtt r"
    using a build_full_ack_same[of r now] build_full_ack_keeps[of r now]
    by (auto simp: same_reliability_def split: if_splits prod.splits)
  have acks: "acks = map (\<lambda>a. ctl_wire (Ack a)) (due_acks r now)"
    using a by (auto simp: due_acks_def build_full_ack_def build_light_ack_def Let_def control_datagram_ok extend_opt_def ack_point_def
        split: if_splits)
  have due: "report_due r1 now = report_due r now" and lo: "lost_in_order r1 = lost_in_order r"
    using r1 by (simp_all add: report_due_def lost_in_order_def same_reliability_def)
  have b: "build_naks (r1\<lparr>last_nak_at := now\<rparr>) es now = build_naks r es now" "build_naks r1 es now = build_naks r es now" for es
    unfolding build_naks_def using r1(1) by (auto intro!: naks_loop_cong simp: same_reliability_def)
  show ?thesis
    unfolding receiver_tick_def Let_def a acks[symmetric] due[symmetric] b(2)[symmetric] lo[symmetric] by (simp add: report_due_def)
qed

text \<open>A datagram that acknowledges everything before \<open>q\<close>.\<close>

definition acknowledges :: "u32 \<Rightarrow> bytes \<Rightarrow> bool" where
  "acknowledges q d \<longleftrightarrow> (\<exists>a. d = ctl_wire (Ack a) \<and>
     (case ack_cif a of Full l _ _ _ _ _ _ \<Rightarrow> l = q | Light l \<Rightarrow> l = q | Small _ _ _ _ \<Rightarrow> False))"

lemma acknowledges_wire:
  "(case ack_cif a of Full l _ _ _ _ _ _ \<Rightarrow> l = q | Light l \<Rightarrow> l = q | Small _ _ _ _ \<Rightarrow> False) \<Longrightarrow> acknowledges q (ctl_wire (Ack a))"
  unfolding acknowledges_def by blast

lemma receiver_tick_naks:
  "\<exists>acks. list_all (acknowledges (next_expected r)) acks \<and> snd (receiver_tick r now) =
     acks @ (if loss_list r \<noteq> {} \<and> nak_interval (est_rtt (r_rtt r)) (est_rtt_var (r_rtt r)) \<le> elapsed now (last_nak_at r)
             then build_naks r (coalesce (lost_in_order r)) now else [])"
  unfolding receiver_tick_sends report_due_def
  by (intro exI[of _ "map (\<lambda>a. ctl_wire (Ack a)) (due_acks r now)"]) (simp add: due_acks_def acknowledges_wire ack_point_def)

text \<open>The datagrams of a periodic report, and what they say.\<close>

lemma report_holds:
  assumes H: "holds isn got gone p h r"
  shows "\<exists>cs runs. build_naks r (coalesce (lost_in_order r)) now = map (\<lambda>c. ctl_wire (Nak (nak_packet r now c))) cs \<and>
    concat cs = map (run_entry isn) runs \<and> concat (map (\<lambda>(a, b). [a..b]) runs) = filter (\<lambda>n. n \<notin> got \<union> gone) [p..h] \<and>
    (\<forall>(a, b) \<in> set runs. a \<le> b \<and> b < a + 2 ^ 30) \<and> (\<forall>c \<in> set cs. c \<noteq> [] \<and> cif_len_of c \<le> max_nak_cif_len r)"
proof -
  let ?ms = "filter (\<lambda>n. n \<notin> got \<union> gone) [p..h]"
  have spread: "\<forall>x \<in> set ?ms. \<forall>y \<in> set ?ms. y < x + 2 ^ 30" using holds_bounds(1)[OF H] by auto
  have sorted: "sorted_wrt (<) ?ms" by (intro sorted_wrt_filter sorted_upto)
  obtain runs where runs: "coalesce (map (sq isn) ?ms) = map (run_entry isn) runs"
    "concat (map (\<lambda>(a, b). [a..b]) runs) = ?ms" "\<forall>(a, b) \<in> set runs. a \<le> b \<and> b < a + 2 ^ 30"
    using coalesce_positions[OF sorted spread, of isn] by blast
  have "list_all loss_ok (map (run_entry isn) runs)" by (simp add: list_all_iff)
  then obtain cs where "build_naks r (map (run_entry isn) runs) now = map (\<lambda>c. ctl_wire (Nak (nak_packet r now c))) cs"
    "concat cs = map (run_entry isn) runs" "\<forall>c \<in> set cs. c \<noteq> [] \<and> cif_len_of c \<le> max_nak_cif_len r"
    using build_naks_chunks by blast
  then show ?thesis using runs lost_in_order_holds[OF H] by (intro exI[of _ cs] exI[of _ runs]) simp
qed

lemma periodic_report:
  assumes "tracks isn got p r"
  shows "\<exists>cs runs. build_naks r (coalesce (lost_in_order r)) now = map (\<lambda>c. ctl_wire (Nak (nak_packet r now c))) cs \<and>
    concat cs = map (run_entry isn) runs \<and> concat (map (\<lambda>(a, b). [a..b]) runs) = missing got p \<and>
    (\<forall>(a, b) \<in> set runs. a \<le> b \<and> b < a + 2 ^ 30) \<and> (\<forall>c \<in> set cs. c \<noteq> [] \<and> cif_len_of c \<le> max_nak_cif_len r)"
  using report_holds[OF tracks_holds[OF assms], of now] by (simp add: missing_def)

lemma nak_packet_parse: "SrtPacket_parse (ctl_wire (Nak (nak_packet r now c))) = Inr (Control (Nak (nak_packet r now c)))"
  using SrtPacket_parse_wire[of "Control (Nak (nak_packet r now c))"] by simp

lemma nak_packet_entries: "list_all loss_ok c \<Longrightarrow> loss_entries (raw_loss_list (nak_packet r now c)) = map Inr c"
  by (simp add: nak_packet_def loss_entries_words)

lemma nak_packet_length: "length (ctl_wire (Nak (nak_packet r now c))) = 16 + cif_len_of c"
  using length_loss_words[of c] by (simp add: nak_packet_def Nak_cif_len_def)

text \<open>A receiver that has missed the first packet, just before a wrap of the numbers, with its report due.\<close>

lemma first_packet_missing:
  "\<exists>r. reception 0x7FFFFFFF 8192 {1} r [] \<and> loss_list r \<noteq> {} \<and> loss_list_len r = 1 \<and>
     nak_interval (est_rtt (r_rtt r)) (est_rtt_var (r_rtt r)) \<le> elapsed 1000000000000 (last_nak_at r)"
proof -
  have v: "srt_valid 0x7FFFFFFF" by (simp add: srt_valid_def)
  let ?r0 = "Receiver_new 7 0x7FFFFFFF 8192"
  define rf where "rf = feed_data ?r0 (sq 0x7FFFFFFF 1) 0"
  obtain r o' where f: "rf = (r, o')" by fastforce
  have t0: "tracks 0x7FFFFFFF {} 0 ?r0" by (rule tracks_new[OF v])
  have w: "\<not> 1 > 0 + uint (r_window ?r0)" by (simp add: Receiver_new_def r_window_def MAX_TRACKED_WINDOW_def)
  have pl: "plausible 0 1" by (simp add: plausible_def)
  have o': "\<not> fo_out_of_window o'" "fo_delivered o' = []" "same_timers ?r0 r"
  proof -
    obtain p' nak where o: "o' = \<lparr>fo_delivered = map (sq 0x7FFFFFFF) [0..p' - 1], fo_nak = nak, fo_out_of_window = False\<rparr>"
      "0 \<le> p'" "tracks 0x7FFFFFFF {1} p' r" "same_timers ?r0 r"
      using feed_tracks[OF t0 pl, of 0] w f unfolding rf_def by (auto simp del: upto.simps)
    have "p' = 0"
    proof (rule ccontr)
      assume "p' \<noteq> 0"
      then have "0 \<in> {0..<p'}" using o(2) by simp
      then show False using o(3) unfolding tracks_unfold by (metis empty_iff insert_iff subsetD zero_neq_one)
    qed
    then show "\<not> fo_out_of_window o'" "fo_delivered o' = []" "same_timers ?r0 r" using o by simp_all
  qed
  have rc: "reception 0x7FFFFFFF 8192 {1} r []"
    using reception.arrival[OF reception.start[of "0x7FFFFFFF" 8192 7], of 1 0 r o'] pl f o' unfolding rf_def by simp
  have same: "r_rtt r = Rtt_new \<and> last_nak_at r = 0" using o'(3) by (simp add: same_timers_def Receiver_new_def)
  have "tracks 0x7FFFFFFF {1} 0 r" using reception_tracks[OF rc v] by simp
  then have "loss_list r = sq 0x7FFFFFFF ` {n. 0 \<le> n \<and> n \<le> 1 \<and> n \<notin> {1}}" by (simp add: tracks_def top_pos_def)
  moreover have "{n :: int. 0 \<le> n \<and> n \<le> 1 \<and> n \<notin> {1}} = {0}" by auto
  ultimately have loss: "loss_list r \<noteq> {}" "loss_list_len r = 1" by (simp_all add: loss_list_len_def)
  have due: "nak_interval (est_rtt (r_rtt r)) (est_rtt_var (r_rtt r)) \<le> elapsed 1000000000000 (last_nak_at r)"
    using same by (simp add: Rtt_new_def INITIAL_RTT_def INITIAL_RTT_VAR_def from_millis_def nak_interval_def
        NAK_INTERVAL_FLOOR_def elapsed_def Let_def)
  show ?thesis using rc loss due by blast
qed

section \<open>Properties\<close>





section \<open>Two behaviours outside the contract\<close>

text \<open>
  C32. The window check has a blind spot, against the documentation of \<open>feed_data\<close>. A packet is
  tested against the flow window only if it is ahead of the ack point, and against the highest
  number received separately. A number just over half the circle ahead of the ack point counts as
  behind it, and yet as ahead of the highest number received once a single packet is missing: one
  such datagram enters about \<open>2^30\<close> numbers into the loss list, far beyond the window.
\<close>

theorem crafted_packet_floods_loss_list:
  assumes "1 \<le> uint window"
  shows "\<exists>r out. reception 0 window {1} r out \<and> loss_list r = {0} \<and>
     \<not> fo_out_of_window (snd (feed_data r 0x40000001 now)) \<and>
     loss_list_len (fst (feed_data r 0x40000001 now)) = 2 ^ 30"
proof -
  have v: "srt_valid 0" by (simp add: srt_valid_def)
  obtain r d where rc: "reception 0 window {1} r ([] @ d)"
    using reception_step[OF reception.start[of 0 window 7] v, of 1] assms by (auto simp: plausible_def)
  have R: "{0..<int (length d)} \<subseteq> {1}" using reception_tracks[OF rc v] by (simp add: tracks_unfold)
  have d: "d = []"
  proof (rule ccontr)
    assume "d \<noteq> []"
    then have "0 \<in> {0..<int (length d)}" by simp
    then show False using R by (metis empty_iff insert_iff subsetD zero_neq_one)
  qed
  have t: "tracks 0 {1} 0 r" using reception_tracks[OF rc v] d by simp
  have set0: "{n. 0 \<le> n \<and> n \<le> top_pos {1} \<and> n \<notin> {1}} = {0}" by (auto simp: top_pos_def)
  have L: "loss_list r = {0}" and nx: "next_expected r = sq 0 0" and hi: "high_of r = sq 0 1"
    using t receives_high[OF t[unfolded tracks_def, THEN conjunct1]] unfolding tracks_unfold set0 by (simp_all add: v top_pos_def)
  let ?n = "2 ^ 30 + 1 :: int"
  have n: "sq 0 ?n = 0x40000001" by (simp add: sq_def)
  have d0: "srt_seq_diff (sq 0 ?n) (sq 0 0) = 2 ^ 30 + 1 - 2 ^ 31" by (simp only: sq_diff_cases Let_def) simp
  have gt: "\<not> srt_seq_gt (sq 0 ?n) (sq 0 0)" "srt_seq_gt (sq 0 ?n) (sq 0 1)" "\<not> srt_seq_lt (sq 0 2) (sq 0 0)"
    "srt_seq_lt (sq 0 2) (sq 0 ?n)"
    unfolding srt_cmp d0 by (simp_all only: sq_diff_cases Let_def) simp_all
  have ne: "sq 0 2 \<noteq> sq 0 ?n" "sq 0 ?n \<noteq> sq 0 0" "sq 0 2 \<noteq> sq 0 (2 ^ 30)" by (simp_all add: sq_inject)
  have fl: "first_lost r (sq 0 1) = sq 0 2" unfolding first_lost_def nx sq_next Let_def using gt(3) by simp
  have ml: "mark_lost (sq 0 ?n) (sq 0 2) {0} = {0} \<union> sq 0 ` {2..<?n}" by (intro mark_lost_positions) simp_all
  define r1 where "r1 = r\<lparr>packets_since_ack := (if packets_since_ack r = 0xFFFFFFFF then 0xFFFFFFFF else packets_since_ack r + 1)\<rparr>"
  have r1: "next_expected r1 = sq 0 0" "loss_list r1 = {0}" "first_lost r1 (sq 0 1) = sq 0 2" "out_of_order r1 = out_of_order r"
    "high_of r1 = sq 0 1"
  proof -
    show "high_of r1 = sq 0 1" using hi by (cases "highest_received r") (simp_all add: r1_def high_of_def)
    show n1: "next_expected r1 = sq 0 0" "loss_list r1 = {0}" "out_of_order r1 = out_of_order r"
      using nx L by (simp_all add: r1_def)
    show "first_lost r1 (sq 0 1) = sq 0 2" using fl unfolding first_lost_def n1(1) nx .
  qed
  define r2 where "r2 = r1\<lparr>loss_list := {0} \<union> sq 0 ` {2..<?n}, highest_received := Some (sq 0 ?n)\<rparr>"
  have f: "loss_list (fst (feed_data r (sq 0 ?n) now)) = ({0} \<union> sq 0 ` {2..<?n}) - {sq 0 ?n} \<and>
      \<not> fo_out_of_window (snd (feed_data r (sq 0 ?n) now))"
    unfolding feed_data_steps r1_def[symmetric] hi nx Let_def r1
    using gt ne r1 ml by (simp add: deliver_step_def Let_def split: prod.split)
  have "({0} \<union> sq 0 ` {2..<?n}) - {sq 0 ?n} = sq 0 ` insert 0 {2..<?n}"
  proof -
    have "sq 0 ?n \<notin> sq 0 ` insert 0 {2..<?n}" by (auto simp: sq_inject)
    moreover have "{0} \<union> sq 0 ` {2..<?n} = sq 0 ` insert 0 {2..<?n}" by (simp add: v)
    ultimately show ?thesis by blast
  qed
  moreover have "card (sq 0 ` insert 0 {2..<?n}) = card (insert 0 {2..<?n})"
    by (intro card_image inj_onI) (auto simp: sq_inject)
  ultimately have "loss_list_len (fst (feed_data r (sq 0 ?n) now)) = 2 ^ 30" using f by (simp add: loss_list_len_def)
  then show ?thesis using rc L f unfolding n by blast
qed

theorem crafted_packet_floods_loss_list_witness:
  "\<exists>r out. reception 0 8192 {1} r out \<and> loss_list r = {0} \<and>
     \<not> fo_out_of_window (snd (feed_data r 0x40000001 0)) \<and>
     loss_list_len (fst (feed_data r 0x40000001 0)) = 2 ^ 30"
  using crafted_packet_floods_loss_list[of 8192 0] by simp

text \<open>The events that have to do with a position.\<close>

fun concerns :: "int \<Rightarrow> ReceiverEvent \<Rightarrow> bool" where
  "concerns m (Packet n) \<longleftrightarrow> n = m"
| "concerns m (Withdrawn a b) \<longleftrightarrow> a \<le> m \<and> m \<le> b"
| "concerns m Other \<longleftrightarrow> False"

definition srt_step_apart :: "u32 \<Rightarrow> u32 \<Rightarrow> int \<Rightarrow> Stream \<times> Receiver \<Rightarrow> Stream \<times> Receiver \<Rightarrow> bool" where
  "srt_step_apart isn window m x y \<longleftrightarrow> (\<exists>e. srt_step isn window e x y \<and> \<not> concerns m e)"

text \<open>A withdrawn position that the ack point has not passed, and what keeps it there.\<close>

lemma next_gap_before:
  assumes "finite A" "p \<le> m" "m \<notin> A"
  shows "next_gap A p \<le> m"
proof -
  obtain q where q: "q \<ge> p" "q \<notin> A" "{p..<q} \<subseteq> A" using next_missing[OF assms(1), of p] by blast
  then have "next_gap A p = q" by (intro next_gap_eq)
  moreover have "\<not> m < q"
  proof
    assume "m < q"
    then have "m \<in> {p..<q}" using assms(2) by simp
    then show False using q(3) assms(3) by blast
  qed
  ultimately show ?thesis by simp
qed

lemma stuck_note:
  assumes I: "stream_inv isn window s r" and m: "m \<in> s_gone s" "s_front s \<le> m" and e: "\<not> concerns m e"
  shows "m \<in> s_gone (take_note window e s) \<and> s_front (take_note window e s) \<le> m"
proof -
  have fin: "finite (s_got s)" and mg: "m \<notin> s_got s" using I m(1) by (auto simp: stream_inv_def holds_def)
  show ?thesis
  proof (cases e)
    case (Packet n)
    have "next_gap (insert n (s_got s)) (s_front s) \<le> m" using e Packet fin mg m(2) by (intro next_gap_before) auto
    then show ?thesis using m e Packet by (simp add: take_note.simps)
  next
    case (Withdrawn a b)
    have "next_gap (s_got s - {a..b}) (if a \<le> s_front s \<and> s_front s \<le> b then b + 1 else s_front s) \<le> m"
      using e Withdrawn fin mg m(2) by (intro next_gap_before) auto
    then show ?thesis using m Withdrawn by (simp add: take_note.simps Let_def)
  qed (use m in \<open>simp add: take_note.simps\<close>)
qed

lemma stuck_steps:
  assumes "(srt_step_apart isn window m)\<^sup>*\<^sup>* x (s', r')" "stream_inv isn window (fst x) (snd x)" "m \<in> s_gone (fst x)" "s_front (fst x) \<le> m"
  shows "stream_inv isn window s' r' \<and> m \<in> s_gone s' \<and> s_front s' \<le> m"
  using assms
proof (induction "(s', r')" arbitrary: s' r' rule: rtranclp_induct)
  case base
  then show ?case by auto
next
  case (step y)
  obtain s1 r1 where y: "y = (s1, r1)" by (cases y)
  have 1: "stream_inv isn window s1 r1" "m \<in> s_gone s1" "s_front s1 \<le> m" using step y by auto
  obtain e where e: "srt_step isn window e (s1, r1) (s', r')" "\<not> concerns m e" using step(2) unfolding y srt_step_apart_def by blast
  have "s_gone s' = s_gone (take_note window e s1) \<and> s_front s' = s_front (take_note window e s1)"
    by (cases rule: srt_stepE[OF e(1)]) (auto simp: take_note.simps)
  then show ?case using srt_step_inv[OF e(1) 1(1)] stuck_note[OF 1 e(2)] by simp
qed



end
