(* ===== verification/Srt_Sender.thy ===== *)
theory Srt_Sender
  imports Srt_Arq
begin

text \<open>
  The sending half of the SRT reliability engine (\<open>srt-runtime/src/arq/sender.rs\<close>): the buffer of
  unacknowledged packets, its binary searches with their work counter, loss reports,
  retransmission and acknowledgements.
\<close>

section \<open>State\<close>

definition MAX_NAK_SEQS_PER_PACKET :: nat where "MAX_NAK_SEQS_PER_PACKET = 2 ^ 16"

record SentPacket =
  sp_seq :: u32
  sp_message_number :: u32
  sp_payload :: bytes
  sp_key_flag :: EncryptionKeyField
  sp_resend_count :: u32

record Sender =
  s_dest_socket_id :: u32
  s_buffer :: "SentPacket list"
  pending_retransmit :: "u32 set"
  s_rtt :: RttEstimator
  lookup_steps :: nat

definition Sender_new :: "u32 \<Rightarrow> Sender" where
  "Sender_new dest = \<lparr>s_dest_socket_id = dest, s_buffer = [], pending_retransmit = {}, s_rtt = Rtt_new, lookup_steps = 0\<rparr>"

text \<open>The work counter is a \<open>u64\<close> that saturates.\<close>

definition step_inc :: "nat \<Rightarrow> nat" where
  "step_inc n = (if n < 2 ^ 64 - 1 then n + 1 else n)"

section \<open>Searching the buffer\<close>

text \<open>The loop of \<open>index_of\<close>, over \<open>lo\<close>, \<open>hi\<close> and the work counter.\<close>

function index_loop :: "SentPacket list \<Rightarrow> u32 \<Rightarrow> nat \<Rightarrow> nat \<Rightarrow> nat \<Rightarrow> nat option \<times> nat" where
  "index_loop buf q lo hi steps =
     (if lo < hi
      then let steps = step_inc steps;
               mid = lo + (hi - lo) div 2;
               d = srt_seq_diff (sp_seq (buf ! mid)) q
           in if d = 0 then (Some mid, steps)
              else if d < 0 then index_loop buf q (mid + 1) hi steps
              else index_loop buf q lo mid steps
      else (None, steps))"
  by pat_completeness auto
termination
  by (relation "measure (\<lambda>(_, _, lo, hi, _). hi - lo)") auto

declare index_loop.simps [simp del]

definition index_of :: "Sender \<Rightarrow> u32 \<Rightarrow> Sender \<times> nat option" where
  "index_of s q =
     (case index_loop (s_buffer s) q 0 (length (s_buffer s)) (lookup_steps s) of
        (i, steps) \<Rightarrow> (s\<lparr>lookup_steps := steps\<rparr>, i))"

function at_or_after_loop :: "SentPacket list \<Rightarrow> u32 \<Rightarrow> nat \<Rightarrow> nat \<Rightarrow> nat \<Rightarrow> nat \<times> nat" where
  "at_or_after_loop buf q lo hi steps =
     (if lo < hi
      then let steps = step_inc steps;
               mid = lo + (hi - lo) div 2
           in if srt_seq_diff (sp_seq (buf ! mid)) q < 0
              then at_or_after_loop buf q (mid + 1) hi steps
              else at_or_after_loop buf q lo mid steps
      else (lo, steps))"
  by pat_completeness auto
termination
  by (relation "measure (\<lambda>(_, _, lo, hi, _). hi - lo)") auto

declare at_or_after_loop.simps [simp del]

definition first_at_or_after :: "Sender \<Rightarrow> u32 \<Rightarrow> Sender \<times> nat" where
  "first_at_or_after s q =
     (case at_or_after_loop (s_buffer s) q 0 (length (s_buffer s)) (lookup_steps s) of
        (i, steps) \<Rightarrow> (s\<lparr>lookup_steps := steps\<rparr>, i))"

definition buffered_count :: "Sender \<Rightarrow> nat" where "buffered_count s = length (s_buffer s)"
definition pending_retransmit_count :: "Sender \<Rightarrow> nat" where
  "pending_retransmit_count s = card (pending_retransmit s)"

section \<open>First transmission\<close>

text \<open>
  \<open>on_data_keyed\<close>, and \<open>on_data\<close> as its instance for plaintext; the two Rust functions differ only
  in the key flag. The assertion that numbers increase is a debug build's; it is a hypothesis of
  the theorems instead.
\<close>

definition on_data_keyed :: "Sender \<Rightarrow> u32 \<Rightarrow> u32 \<Rightarrow> bytes \<Rightarrow> EncryptionKeyField \<Rightarrow> duration \<Rightarrow> (SrtError, Sender \<times> bytes) result" where
  "on_data_keyed s q message_number payload key_flag now =
     and_then (check_bits q 31 ''Packet Sequence Number'') (\<lambda>_.
     and_then (check_bits message_number 26 ''Message Number'') (\<lambda>_.
       let pkt = \<lparr>dp_seq_number = q, dp_position = PpSolo, dp_in_order = True, dp_key_flag = key_flag,
                  dp_retransmitted = False, dp_message_number = message_number,
                  dp_timestamp = duration_to_wire_us now, dp_dest_socket_id = s_dest_socket_id s, dp_data = payload\<rparr>;
           buf = replicate (DataPacket_serialized_len pkt) 0
       in and_then (DataPacket_serialize_into pkt buf) (\<lambda>(buf, _).
            Ok (s\<lparr>s_buffer := s_buffer s @ [\<lparr>sp_seq = q, sp_message_number = message_number, sp_payload = payload,
                                                 sp_key_flag = key_flag, sp_resend_count = 0\<rparr>]\<rparr>, buf))))"

definition on_data :: "Sender \<Rightarrow> u32 \<Rightarrow> u32 \<Rightarrow> bytes \<Rightarrow> duration \<Rightarrow> (SrtError, Sender \<times> bytes) result" where
  "on_data s q message_number payload now = on_data_keyed s q message_number payload NotEncrypted now"

section \<open>Loss reports\<close>

text \<open>The inner loop of a range entry, over the index and the budget.\<close>

function range_loop :: "Sender \<Rightarrow> u32 \<Rightarrow> nat \<Rightarrow> nat \<Rightarrow> Sender \<times> nat" where
  "range_loop s l i budget =
     (if budget > 0 \<and> i < length (s_buffer s)
      then let s = s\<lparr>lookup_steps := step_inc (lookup_steps s)\<rparr>;
               q = sp_seq (s_buffer s ! i)
           in if srt_seq_diff q l > 0 then (s, budget)
              else range_loop (s\<lparr>pending_retransmit := insert q (pending_retransmit s)\<rparr>) l (i + 1) (budget - 1)
      else (s, budget))"
  by pat_completeness auto
termination
  by (relation "measure (\<lambda>(_, _, _, budget). budget)") auto

declare range_loop.simps [simp del]

fun nak_loop :: "Sender \<Rightarrow> nat \<Rightarrow> (SrtError, LossListEntry) result list \<Rightarrow> Sender" where
  "nak_loop s budget [] = s"
| "nak_loop s budget (it # its) =
     (if budget = 0 then s
      else case it of
             Inl _ \<Rightarrow> nak_loop s budget its
           | Inr (Single q) \<Rightarrow>
               (case index_of s q of
                  (s, i) \<Rightarrow>
                    let s = (if i \<noteq> None then s\<lparr>pending_retransmit := insert q (pending_retransmit s)\<rparr> else s)
                    in nak_loop s (budget - 1) its)
           | Inr (Range f l) \<Rightarrow>
               (case first_at_or_after s f of
                  (s, i) \<Rightarrow> (case range_loop s l i budget of (s, budget) \<Rightarrow> nak_loop s budget its)))"

definition on_nak :: "Sender \<Rightarrow> NakPacket \<Rightarrow> Sender" where
  "on_nak s nak = nak_loop s MAX_NAK_SEQS_PER_PACKET (loss_entries (raw_loss_list nak))"

section \<open>Retransmission\<close>

definition retransmission :: "Sender \<Rightarrow> SentPacket \<Rightarrow> duration \<Rightarrow> DataPacket" where
  "retransmission s sent now =
     \<lparr>dp_seq_number = sp_seq sent, dp_position = PpSolo, dp_in_order = True, dp_key_flag = sp_key_flag sent,
      dp_retransmitted = True, dp_message_number = sp_message_number sent,
      dp_timestamp = duration_to_wire_us now, dp_dest_socket_id = s_dest_socket_id s, dp_data = sp_payload sent\<rparr>"

text \<open>The loop over the drained queue; \<open>out\<close> is what it appends.\<close>

fun resend_loop :: "Sender \<Rightarrow> duration \<Rightarrow> u32 list \<Rightarrow> Sender \<times> bytes list" where
  "resend_loop s now [] = (s, [])"
| "resend_loop s now (q # qs) =
     (case index_of s q of
        (s, None) \<Rightarrow> resend_loop s now qs
      | (s, Some idx) \<Rightarrow>
          let sent = s_buffer s ! idx;
              sent = sent\<lparr>sp_resend_count := (if sp_resend_count sent = 0xFFFFFFFF then 0xFFFFFFFF else sp_resend_count sent + 1)\<rparr>;
              s = s\<lparr>s_buffer := (s_buffer s)[idx := sent]\<rparr>;
              pkt = retransmission s sent now
          in case resend_loop s now qs of
               (s', out) \<Rightarrow>
                 (case DataPacket_serialize_into pkt (replicate (DataPacket_serialized_len pkt) 0) of
                    Inr (buf, _) \<Rightarrow> (s', buf # out) | Inl _ \<Rightarrow> (s', out)))"

definition sender_tick :: "Sender \<Rightarrow> duration \<Rightarrow> Sender \<times> bytes list" where
  "sender_tick s now =
     (let seqs = sorted_list_of_set (pending_retransmit s);
          s = s\<lparr>pending_retransmit := {}\<rparr>;
          seqs = (case s_buffer s of [] \<Rightarrow> seqs | front # _ \<Rightarrow> sort_key (\<lambda>q. srt_seq_diff q (sp_seq front)) seqs)
      in resend_loop s now seqs)"

section \<open>Acknowledgements\<close>

fun ack_seq :: "AckCif \<Rightarrow> u32" where
  "ack_seq (Full last_ack _ _ _ _ _ _) = last_ack"
| "ack_seq (Small last_ack _ _ _) = last_ack"
| "ack_seq (Light last_ack) = last_ack"

text \<open>The loop that frees acknowledged packets from the front of the buffer.\<close>

fun free_loop :: "u32 \<Rightarrow> SentPacket list \<Rightarrow> u32 set \<Rightarrow> SentPacket list \<times> u32 set" where
  "free_loop last_ack [] pending = ([], pending)"
| "free_loop last_ack (front # buf) pending =
     (if srt_seq_lt (sp_seq front) last_ack then free_loop last_ack buf (pending - {sp_seq front})
      else (front # buf, pending))"

definition on_ack :: "Sender \<Rightarrow> AckPacket \<Rightarrow> duration \<Rightarrow> Sender \<times> bytes option" where
  "on_ack s ack now =
     (case free_loop (ack_seq (ack_cif ack)) (s_buffer s) (pending_retransmit s) of
        (buf, pending) \<Rightarrow>
          let s = s\<lparr>s_buffer := buf, pending_retransmit := pending\<rparr>
          in case ack_cif ack of
               Full _ rtt _ _ _ _ _ \<Rightarrow>
                 let s = s\<lparr>s_rtt := Rtt_update (s_rtt s) (from_micros (unat rtt))\<rparr>;
                     pkt = AckAck \<lparr>aa_ack_number = ack_number ack, aa_timestamp = duration_to_wire_us now,
                                   aa_dest_socket_id = s_dest_socket_id s, aa_libsrt_pad = True\<rparr>
                 in (s, case ControlPacket_serialize_into pkt (replicate (ControlPacket_serialized_len pkt) 0) of
                          Inl _ \<Rightarrow> None | Inr (buf, _) \<Rightarrow> Some buf)
             | _ \<Rightarrow> (s, None))"

section \<open>The searches are correct and cheap\<close>

lemma index_loop_sound:
  assumes "index_loop buf q lo hi steps = (Some i, steps')"
  shows "lo \<le> i \<and> i < hi \<and> srt_seq_diff (sp_seq (buf ! i)) q = 0"
  using assms
proof (induction "hi - lo" arbitrary: lo hi steps rule: less_induct)
  case less
  define mid where "mid = lo + (hi - lo) div 2"
  have lt: "lo < hi" using less.prems by (subst (asm) index_loop.simps) (auto split: if_splits)
  then have mid: "lo \<le> mid" "mid < hi" by (auto simp: mid_def)
  let ?d = "srt_seq_diff (sp_seq (buf ! mid)) q"
  have loop: "index_loop buf q lo hi steps =
      (if ?d = 0 then (Some mid, step_inc steps)
       else if ?d < 0 then index_loop buf q (mid + 1) hi (step_inc steps)
       else index_loop buf q lo mid (step_inc steps))"
    using lt by (subst index_loop.simps) (simp add: Let_def mid_def)
  consider "?d = 0" | "?d < 0" | "?d > 0" by linarith
  then show ?case
  proof cases
    case 1
    then show ?thesis using less.prems mid by (simp add: loop)
  next
    case 2
    then have "index_loop buf q (mid + 1) hi (step_inc steps) = (Some i, steps')" using less.prems by (simp add: loop)
    from less.hyps[OF _ this] show ?thesis using mid by linarith
  next
    case 3
    then have "index_loop buf q lo mid (step_inc steps) = (Some i, steps')" using less.prems by (simp add: loop)
    from less.hyps[OF _ this] show ?thesis using mid by linarith
  qed
qed

text \<open>With increasing distances the search finds what there is to find.\<close>

lemma index_loop_complete:
  assumes "\<And>i j. i < j \<Longrightarrow> j < hi \<Longrightarrow> srt_seq_diff (sp_seq (buf ! i)) q < srt_seq_diff (sp_seq (buf ! j)) q"
    and "lo \<le> k" "k < hi" "srt_seq_diff (sp_seq (buf ! k)) q = 0"
  shows "fst (index_loop buf q lo hi steps) = Some k"
  using assms
proof (induction "hi - lo" arbitrary: lo hi steps rule: less_induct)
  case less
  let ?d = "\<lambda>i. srt_seq_diff (sp_seq (buf ! i)) q"
  define mid where "mid = lo + (hi - lo) div 2"
  have mid: "lo \<le> mid" "mid < hi" using less.prems by (auto simp: mid_def)
  have mono: "i < j \<Longrightarrow> j < hi \<Longrightarrow> ?d i < ?d j" for i j using less.prems(1) .
  consider "mid = k" | "mid < k" | "k < mid" by linarith
  then show ?case
  proof cases
    case 1
    then show ?thesis using less.prems mid by (subst index_loop.simps) (simp add: Let_def mid_def[symmetric])
  next
    case 2
    then have "?d mid < 0" using mono[of mid k] less.prems by simp
    moreover have "fst (index_loop buf q (mid + 1) hi (step_inc steps)) = Some k"
      using less.prems 2 mid by (intro less.hyps) auto
    ultimately show ?thesis using mid by (subst index_loop.simps) (simp add: Let_def mid_def[symmetric])
  next
    case 3
    then have "?d mid > 0" using mono[of k mid] less.prems mid by simp
    moreover have "fst (index_loop buf q lo mid (step_inc steps)) = Some k"
      using less.prems 3 mid by (intro less.hyps) auto
    ultimately show ?thesis using mid by (subst index_loop.simps) (simp add: Let_def mid_def[symmetric])
  qed
qed

lemma at_or_after_loop_correct:
  assumes "\<And>i j. i < j \<Longrightarrow> j < length buf \<Longrightarrow> srt_seq_diff (sp_seq (buf ! i)) q < srt_seq_diff (sp_seq (buf ! j)) q"
    and "lo \<le> hi" "hi \<le> length buf" "\<And>i. i < lo \<Longrightarrow> srt_seq_diff (sp_seq (buf ! i)) q < 0"
    and "\<And>i. hi \<le> i \<Longrightarrow> i < length buf \<Longrightarrow> 0 \<le> srt_seq_diff (sp_seq (buf ! i)) q"
  shows "let i = fst (at_or_after_loop buf q lo hi steps) in i \<le> length buf \<and>
    (\<forall>j < length buf. j < i \<longleftrightarrow> srt_seq_diff (sp_seq (buf ! j)) q < 0)"
  using assms
proof (induction "hi - lo" arbitrary: lo hi steps rule: less_induct)
  case less
  let ?d = "\<lambda>i. srt_seq_diff (sp_seq (buf ! i)) q"
  show ?case
  proof (cases "lo < hi")
    case False
    then have "lo = hi" using less.prems(2) by simp
    then have "j < lo \<longleftrightarrow> ?d j < 0" if "j < length buf" for j
      using less.prems(4)[of j] less.prems(5)[of j] that by (cases "j < lo") auto
    then show ?thesis using less.prems(3) \<open>lo = hi\<close> by (subst at_or_after_loop.simps) (simp add: Let_def)
  next
    case True
    define mid where "mid = lo + (hi - lo) div 2"
    have mid: "lo \<le> mid" "mid < hi" using True by (auto simp: mid_def)
    show ?thesis
    proof (cases "?d mid < 0")
      case True
      have "?d i < 0" if "i < mid + 1" for i
        using less.prems(1)[of i mid] that True mid less.prems(3) by (cases "i = mid") auto
      then have "let i = fst (at_or_after_loop buf q (mid + 1) hi (step_inc steps)) in i \<le> length buf \<and>
          (\<forall>j < length buf. j < i \<longleftrightarrow> ?d j < 0)"
        using less.prems mid by (intro less.hyps) auto
      then show ?thesis using True \<open>lo < hi\<close> by (subst at_or_after_loop.simps) (simp add: Let_def mid_def[symmetric])
    next
      case False
      have "0 \<le> ?d i" if "mid \<le> i" "i < length buf" for i
        using less.prems(1)[of mid i] that False by (cases "i = mid") auto
      then have "let i = fst (at_or_after_loop buf q lo mid (step_inc steps)) in i \<le> length buf \<and>
          (\<forall>j < length buf. j < i \<longleftrightarrow> ?d j < 0)"
        using less.prems mid by (intro less.hyps) auto
      then show ?thesis using False \<open>lo < hi\<close> by (subst at_or_after_loop.simps) (simp add: Let_def mid_def[symmetric])
    qed
  qed
qed

text \<open>Each search halves its interval.\<close>

lemma step_inc_le: "step_inc n \<le> n + 1"
  by (simp add: step_inc_def)

lemma index_loop_steps: "hi - lo < 2 ^ n \<Longrightarrow> snd (index_loop buf q lo hi steps) \<le> steps + n"
proof (induction n arbitrary: lo hi steps)
  case 0
  then show ?case by (subst index_loop.simps) simp
next
  case (Suc n)
  define mid where "mid = lo + (hi - lo) div 2"
  have "hi - (mid + 1) < 2 ^ n" "mid - lo < 2 ^ n" using Suc.prems by (auto simp: mid_def)
  then have "snd (index_loop buf q (mid + 1) hi (step_inc steps)) \<le> step_inc steps + n"
    "snd (index_loop buf q lo mid (step_inc steps)) \<le> step_inc steps + n" using Suc.IH by blast+
  then show ?case using step_inc_le[of steps]
    by (subst index_loop.simps) (auto simp: Let_def mid_def[symmetric])
qed

lemma at_or_after_loop_steps: "hi - lo < 2 ^ n \<Longrightarrow> snd (at_or_after_loop buf q lo hi steps) \<le> steps + n"
proof (induction n arbitrary: lo hi steps)
  case 0
  then show ?case by (subst at_or_after_loop.simps) simp
next
  case (Suc n)
  define mid where "mid = lo + (hi - lo) div 2"
  have "hi - (mid + 1) < 2 ^ n" "mid - lo < 2 ^ n" using Suc.prems by (auto simp: mid_def)
  then have "snd (at_or_after_loop buf q (mid + 1) hi (step_inc steps)) \<le> step_inc steps + n"
    "snd (at_or_after_loop buf q lo mid (step_inc steps)) \<le> step_inc steps + n" using Suc.IH by blast+
  then show ?case using step_inc_le[of steps]
    by (subst at_or_after_loop.simps) (auto simp: Let_def mid_def[symmetric])
qed

end
