(* ===== verification/Srt_Sender_Spec.thy ===== *)
theory Srt_Sender_Spec
  imports Srt_Sender
begin

text \<open>
  What the SRT sender's operations do: the cost of a loss report, the invariant of the buffer and
  the retransmission queue in every run, and the exact effect of a well-formed report, of a tick
  and of an acknowledgement in terms of stream positions.
\<close>

section \<open>Lookups leave the state alone\<close>

lemma steps_then_pending: "s\<lparr>lookup_steps := n, pending_retransmit := P\<rparr> = s\<lparr>pending_retransmit := P, lookup_steps := n\<rparr>"
  by (rule Sender.equality) simp_all

lemma index_of_frame:
  "length (s_buffer s) < 2 ^ k \<Longrightarrow>
     \<exists>n. fst (index_of s q) = s\<lparr>lookup_steps := n\<rparr> \<and> n \<le> lookup_steps s + k"
  using index_loop_steps[of "length (s_buffer s)" 0 k "s_buffer s" q "lookup_steps s"]
  by (auto simp: index_of_def split: prod.split)

lemma first_at_or_after_frame:
  "length (s_buffer s) < 2 ^ k \<Longrightarrow>
     \<exists>n. fst (first_at_or_after s q) = s\<lparr>lookup_steps := n\<rparr> \<and> n \<le> lookup_steps s + k"
  using at_or_after_loop_steps[of "length (s_buffer s)" 0 k "s_buffer s" q "lookup_steps s"]
  by (auto simp: first_at_or_after_def split: prod.split)

lemma range_loop_frame:
  "\<exists>P n budget'. range_loop s l i budget = (s\<lparr>pending_retransmit := P, lookup_steps := n\<rparr>, budget') \<and> budget' \<le> budget \<and>
     n \<le> lookup_steps s + (budget - budget') + 1 \<and> pending_retransmit s \<subseteq> P \<and>
     P \<subseteq> pending_retransmit s \<union> sp_seq ` set (s_buffer s) \<and> card (P - pending_retransmit s) \<le> budget - budget'"
proof (induction budget arbitrary: s i)
  case 0
  show ?case by (subst range_loop.simps) (intro exI[of _ "pending_retransmit s"] exI[of _ "lookup_steps s"] exI[of _ 0], simp)
next
  case (Suc m)
  let ?q = "sp_seq (s_buffer s ! i)"
  let ?s = "s\<lparr>lookup_steps := step_inc (lookup_steps s)\<rparr>"
  show ?case
  proof (cases "i < length (s_buffer s) \<and> \<not> srt_seq_diff ?q l > 0")
    case False
    then have "range_loop s l i (Suc m) = (s, Suc m) \<or> range_loop s l i (Suc m) = (?s, Suc m)"
      by (subst (1 2) range_loop.simps) (auto simp: Let_def)
    then show ?thesis using step_inc_le[of "lookup_steps s"]
      by (elim disjE) (rule exI[of _ "pending_retransmit s"], rule exI[of _ "lookup_steps s"], simp,
        rule exI[of _ "pending_retransmit s"], rule exI[of _ "step_inc (lookup_steps s)"], simp)
  next
    case True
    let ?t = "?s\<lparr>pending_retransmit := insert ?q (pending_retransmit s)\<rparr>"
    have step: "range_loop s l i (Suc m) = range_loop ?t l (i + 1) m"
      using True by (subst range_loop.simps) (simp add: Let_def)
    obtain P n budget' where r: "range_loop ?t l (i + 1) m = (?t\<lparr>pending_retransmit := P, lookup_steps := n\<rparr>, budget')"
      "budget' \<le> m" "n \<le> step_inc (lookup_steps s) + (m - budget') + 1" "insert ?q (pending_retransmit s) \<subseteq> P"
      "P \<subseteq> insert ?q (pending_retransmit s) \<union> sp_seq ` set (s_buffer s)"
      "card (P - insert ?q (pending_retransmit s)) \<le> m - budget'" using Suc.IH[of ?t "i + 1"] by auto
    have "P - pending_retransmit s \<subseteq> insert ?q (P - insert ?q (pending_retransmit s))" by blast
    then have "card (P - pending_retransmit s) \<le> card (insert ?q (P - insert ?q (pending_retransmit s)))"
      by (intro card_mono) simp_all
    then have "card (P - pending_retransmit s) \<le> Suc m - budget'"
      using r(2,6) card_insert_le_m1[of "Suc (m - budget')"] by (auto simp: card_insert_if split: if_splits)
    moreover have "n \<le> lookup_steps s + (Suc m - budget') + 1" using r(2,3) step_inc_le[of "lookup_steps s"] by simp
    moreover have "?q \<in> sp_seq ` set (s_buffer s)" using True by simp
    ultimately show ?thesis unfolding step r(1) using r(2,4,5) by (intro exI[of _ P] exI[of _ n] exI[of _ budget']) auto
  qed
qed

lemma nak_loop_frame:
  assumes "length (s_buffer s) < 2 ^ k"
  shows "\<exists>P n. nak_loop s budget its = s\<lparr>pending_retransmit := P, lookup_steps := n\<rparr> \<and>
     n \<le> lookup_steps s + length its * (k + 1) + budget \<and> pending_retransmit s \<subseteq> P \<and>
     card (P - pending_retransmit s) \<le> budget"
  using assms
proof (induction its arbitrary: s budget)
  case Nil
  show ?case by (intro exI[of _ "pending_retransmit s"] exI[of _ "lookup_steps s"]) simp
next
  case (Cons it its)
  have triv: "\<exists>P n. s = s\<lparr>pending_retransmit := P, lookup_steps := n\<rparr> \<and>
     n \<le> lookup_steps s + length (it # its) * (k + 1) + budget \<and> pending_retransmit s \<subseteq> P \<and>
     card (P - pending_retransmit s) \<le> budget"
    by (intro exI[of _ "pending_retransmit s"] exI[of _ "lookup_steps s"]) simp
  have glue: "\<exists>P n. nak_loop t b its = s\<lparr>pending_retransmit := P, lookup_steps := n\<rparr> \<and>
     n \<le> lookup_steps s + length (it # its) * (k + 1) + budget \<and> pending_retransmit s \<subseteq> P \<and>
     card (P - pending_retransmit s) \<le> budget"
    if t: "t = s\<lparr>pending_retransmit := P0, lookup_steps := n0\<rparr>" "b \<le> budget" "n0 \<le> lookup_steps s + k + 1 + (budget - b)"
      "pending_retransmit s \<subseteq> P0" "card (P0 - pending_retransmit s) \<le> budget - b" for t b P0 n0
  proof -
    obtain P n where r: "nak_loop t b its = t\<lparr>pending_retransmit := P, lookup_steps := n\<rparr>"
      "n \<le> n0 + length its * (k + 1) + b" "P0 \<subseteq> P" "card (P - P0) \<le> b"
      using Cons.IH[of t b] Cons.prems t(1) by auto
    have "P - pending_retransmit s \<subseteq> (P - P0) \<union> (P0 - pending_retransmit s)" by blast
    then have "card (P - pending_retransmit s) \<le> card ((P - P0) \<union> (P0 - pending_retransmit s))" by (intro card_mono) simp_all
    also have "\<dots> \<le> card (P - P0) + card (P0 - pending_retransmit s)" by (rule card_Un_le)
    finally have "card (P - pending_retransmit s) \<le> budget" using r(4) t(2,5) by linarith
    moreover have "n \<le> lookup_steps s + length (it # its) * (k + 1) + budget" using r(2) t(2,3) by simp
    moreover have "pending_retransmit s \<subseteq> P" using t(4) r(3) by blast
    moreover have "nak_loop t b its = s\<lparr>pending_retransmit := P, lookup_steps := n\<rparr>" unfolding r(1) by (simp add: t(1))
    ultimately show ?thesis by (intro exI[of _ P] exI[of _ n]) simp
  qed
  show ?case
  proof (cases "budget = 0")
    case True
    then show ?thesis using triv by simp
  next
    case False
    show ?thesis
    proof (cases it)
      case (Inl e)
      have step: "nak_loop s budget (it # its) = nak_loop s budget its" using False Inl by simp
      show ?thesis unfolding step by (rule glue[of s "lookup_steps s" "pending_retransmit s"]) auto
    next
      case (Inr e)
      show ?thesis
      proof (cases e)
        case (Single q)
        obtain n where n: "fst (index_of s q) = s\<lparr>lookup_steps := n\<rparr>" "n \<le> lookup_steps s + k"
          using index_of_frame[OF Cons.prems, of q] by blast
        obtain i where i: "index_of s q = (s\<lparr>lookup_steps := n\<rparr>, i)" using n(1) by (cases "index_of s q") simp
        let ?P = "if i \<noteq> None then insert q (pending_retransmit s) else pending_retransmit s"
        have step: "nak_loop s budget (it # its) = nak_loop (s\<lparr>pending_retransmit := ?P, lookup_steps := n\<rparr>) (budget - 1) its"
          using False Inr Single i by (simp add: Let_def steps_then_pending)
        show ?thesis unfolding step by (rule glue[OF refl]) (use False n(2) in \<open>auto simp: insert_Diff_if\<close>)
      next
        case (Range f l)
        obtain n where n: "fst (first_at_or_after s f) = s\<lparr>lookup_steps := n\<rparr>" "n \<le> lookup_steps s + k"
          using first_at_or_after_frame[OF Cons.prems, of f] by blast
        obtain i where i: "first_at_or_after s f = (s\<lparr>lookup_steps := n\<rparr>, i)" using n(1) by (cases "first_at_or_after s f") simp
        obtain P n' b where r: "range_loop (s\<lparr>lookup_steps := n\<rparr>) l i budget = (s\<lparr>pending_retransmit := P, lookup_steps := n'\<rparr>, b)"
          "b \<le> budget" "n' \<le> n + (budget - b) + 1" "pending_retransmit s \<subseteq> P" "card (P - pending_retransmit s) \<le> budget - b"
          using range_loop_frame[of "s\<lparr>lookup_steps := n\<rparr>" l i budget] by auto
        have step: "nak_loop s budget (it # its) = nak_loop (s\<lparr>pending_retransmit := P, lookup_steps := n'\<rparr>) b its"
          using False Inr Range i r(1) by simp
        show ?thesis unfolding step by (rule glue[OF refl]) (use n(2) r in auto)
      qed
    qed
  qed
qed

section \<open>The numbers of a loss report\<close>

lemma masked_valid: "srt_valid (w AND SEQ_NUMBER_MASK)"
proof -
  have "uint (take_bit 31 w) < 2 ^ 31" unfolding unsigned_take_bit_eq by (rule take_bit_int_less_exp)
  then show ?thesis by (simp add: srt_valid_def mask31[symmetric] take_bit_eq_mask)
qed

fun entry_valid :: "LossListEntry \<Rightarrow> bool" where
  "entry_valid (Single a) \<longleftrightarrow> srt_valid a"
| "entry_valid (Range a b) \<longleftrightarrow> srt_valid a \<and> srt_valid b"

lemma loss_entries_valid: "Inr e \<in> set (loss_entries rest) \<Longrightarrow> entry_valid e"
proof (induction rest rule: loss_entries.induct)
  case (1 rest)
  show ?case
  proof (cases "loss_iter_next rest")
    case None
    then show ?thesis using 1(2) by (subst (asm) loss_entries.simps) simp
  next
    case (Some x)
    obtain it rest' where x: "x = (it, rest')" by (cases x)
    have "Inr e = it \<or> Inr e \<in> set (loss_entries rest')"
      using 1(2) Some x by (subst (asm) loss_entries.simps) auto
    moreover have "entry_valid e" if "Inr e = it"
      using Some that x by (auto simp: loss_iter_next_def Let_def masked_valid split: if_splits)
    ultimately show ?thesis using 1(1)[OF Some x[symmetric]] x by auto
  qed
qed

lemma loss_entries_count: "4 * length (loss_entries rest) \<le> length rest + 3"
proof (induction rest rule: loss_entries.induct)
  case (1 rest)
  show ?case
  proof (cases "loss_iter_next rest")
    case None
    then show ?thesis by (subst loss_entries.simps) simp
  next
    case (Some x)
    obtain it rest' where x: "x = (it, rest')" by (cases x)
    have "rest' = [] \<and> rest \<noteq> [] \<or> length rest' + 4 \<le> length rest"
      using Some x by (auto simp: loss_iter_next_def Let_def split: if_splits)
    moreover have "loss_entries [] = []" by (subst loss_entries.simps) (simp add: loss_iter_next_def)
    moreover have "loss_entries rest = it # loss_entries rest'" using Some x by (subst loss_entries.simps) simp
    ultimately show ?thesis using 1[OF Some x[symmetric]] x by (cases rest) auto
  qed
qed

lemma index_of_hit:
  assumes "snd (index_of s q) = Some i" "srt_valid q" "\<forall>p \<in> set (s_buffer s). srt_valid (sp_seq p)"
  shows "i < length (s_buffer s) \<and> sp_seq (s_buffer s ! i) = q"
proof -
  have "index_loop (s_buffer s) q 0 (length (s_buffer s)) (lookup_steps s) =
      (Some i, snd (index_loop (s_buffer s) q 0 (length (s_buffer s)) (lookup_steps s)))"
    using assms(1) by (simp add: index_of_def split: prod.splits)
  from index_loop_sound[OF this] show ?thesis
    using assms(2,3) srt.diff_eq_0_iff[of "sp_seq (s_buffer s ! i)" q] by (auto dest: nth_mem)
qed

text \<open>Whatever a report names, only buffered numbers are queued.\<close>

lemma nak_loop_pending:
  assumes "\<forall>e. Inr e \<in> set its \<longrightarrow> entry_valid e" "\<forall>p \<in> set (s_buffer s). srt_valid (sp_seq p)"
  shows "pending_retransmit (nak_loop s budget its) \<subseteq> pending_retransmit s \<union> sp_seq ` set (s_buffer s)"
  using assms
proof (induction its arbitrary: s budget)
  case (Cons it its)
  have ent: "\<forall>e. Inr e \<in> set its \<longrightarrow> entry_valid e" using Cons.prems(1) by simp
  have IH: "pending_retransmit (nak_loop t b its) \<subseteq> pending_retransmit s \<union> sp_seq ` set (s_buffer s)"
    if "s_buffer t = s_buffer s" "pending_retransmit t \<subseteq> pending_retransmit s \<union> sp_seq ` set (s_buffer s)" for t b
    using Cons.IH[of t b] ent Cons.prems(2) that by auto
  show ?case
  proof (cases "budget = 0 \<or> (\<exists>e. it = Inl e)")
    case True
    then show ?thesis using IH[of s budget] by (cases "budget = 0") auto
  next
    case False
    then obtain e where e: "it = Inr e" by (cases it) auto
    show ?thesis
    proof (cases e)
      case (Single q)
      obtain n where n: "fst (index_of s q) = s\<lparr>lookup_steps := n\<rparr>"
        using index_of_frame[OF less_exp, of s q] by blast
      then obtain i where i: "index_of s q = (s\<lparr>lookup_steps := n\<rparr>, i)" by (cases "index_of s q") simp
      have "srt_valid q" using Cons.prems(1) e Single by simp
      then have "i \<noteq> None \<Longrightarrow> q \<in> sp_seq ` set (s_buffer s)"
        using index_of_hit[of s q] i Cons.prems(2) by auto
      moreover have "nak_loop s budget (it # its) =
          nak_loop (if i \<noteq> None then s\<lparr>lookup_steps := n, pending_retransmit := insert q (pending_retransmit s)\<rparr>
                    else s\<lparr>lookup_steps := n\<rparr>) (budget - 1) its"
        using False e Single i by simp
      ultimately show ?thesis
        using IH[of "s\<lparr>lookup_steps := n, pending_retransmit := insert q (pending_retransmit s)\<rparr>" "budget - 1"]
          IH[of "s\<lparr>lookup_steps := n\<rparr>" "budget - 1"] by (cases i) auto
    next
      case (Range f l)
      obtain n where n: "fst (first_at_or_after s f) = s\<lparr>lookup_steps := n\<rparr>"
        using first_at_or_after_frame[OF less_exp, of s f] by blast
      then obtain i where i: "first_at_or_after s f = (s\<lparr>lookup_steps := n\<rparr>, i)" by (cases "first_at_or_after s f") simp
      obtain P n' b where r: "range_loop (s\<lparr>lookup_steps := n\<rparr>) l i budget = (s\<lparr>pending_retransmit := P, lookup_steps := n'\<rparr>, b)"
        "P \<subseteq> pending_retransmit s \<union> sp_seq ` set (s_buffer s)"
        using range_loop_frame[of "s\<lparr>lookup_steps := n\<rparr>" l i budget] by auto
      have "nak_loop s budget (it # its) = nak_loop (s\<lparr>pending_retransmit := P, lookup_steps := n'\<rparr>) b its"
        using False e Range i r(1) by simp
      then show ?thesis using IH[of "s\<lparr>pending_retransmit := P, lookup_steps := n'\<rparr>" b] r(2) by simp
    qed
  qed
qed simp

section \<open>What the buffer holds\<close>

type_synonym submission = "u32 \<times> bytes \<times> EncryptionKeyField"

definition view :: "SentPacket \<Rightarrow> u32 \<times> submission" where
  "view p = (sp_seq p, sp_message_number p, sp_payload p, sp_key_flag p)"

definition sub_ok :: "submission \<Rightarrow> bool" where
  "sub_ok = (\<lambda>(m, _, k). m AND MESSAGE_NUMBER_MASK = m \<and> (case k of KkReserved v \<Rightarrow> v = 3 | _ \<Rightarrow> True))"

text \<open>The buffer holds the packets of the positions \<open>ns\<close>, in order and within half the circle.\<close>

definition buffered :: "u32 \<Rightarrow> int list \<Rightarrow> Sender \<Rightarrow> bool" where
  "buffered isn ns s \<longleftrightarrow> map sp_seq (s_buffer s) = map (sq isn) ns \<and> sorted_wrt (<) ns \<and>
     (\<forall>a \<in> set ns. \<forall>b \<in> set ns. b < a + 2 ^ 30) \<and> (\<forall>p \<in> set (s_buffer s). sub_ok (snd (view p)))"

lemma buffered_length: "buffered isn ns s \<Longrightarrow> length (s_buffer s) = length ns"
  by (metis buffered_def length_map)

lemma buffered_nth: "buffered isn ns s \<Longrightarrow> i < length ns \<Longrightarrow> sp_seq (s_buffer s ! i) = sq isn (ns ! i)"
  using buffered_length[of isn ns s] by (metis buffered_def nth_map)

lemma buffered_diff:
  assumes "buffered isn ns s" "i < length ns" "\<forall>n \<in> set ns. \<bar>n - q\<bar> < 2 ^ 30"
  shows "srt_seq_diff (sp_seq (s_buffer s ! i)) (sq isn q) = ns ! i - q"
proof -
  have "\<bar>ns ! i - q\<bar> < 2 ^ 30" using assms(2,3) by simp
  then show ?thesis unfolding buffered_nth[OF assms(1,2)] by (intro sq_diff) linarith+
qed

lemma buffered_valid: "buffered isn ns s \<Longrightarrow> p \<in> set (s_buffer s) \<Longrightarrow> srt_valid (sp_seq p)"
  using buffered_nth buffered_length by (metis in_set_conv_nth sq_valid)

lemma buffered_inj:
  assumes "buffered isn ns s" "a \<in> set ns" "b \<in> set ns" "sq isn a = sq isn b"
  shows "a = b"
proof -
  have "b < a + 2 ^ 30" "a < b + 2 ^ 30" using assms(1-3) unfolding buffered_def by blast+
  then have "a - b < 2 ^ 31" "b - a < 2 ^ 31" by simp_all
  then show ?thesis using assms(4) sq_inject by blast
qed

lemma index_of_buffered:
  assumes b: "buffered isn ns s" and near: "\<forall>n \<in> set ns. \<bar>n - q\<bar> < 2 ^ 30"
  shows "k < length ns \<Longrightarrow> ns ! k = q \<Longrightarrow> snd (index_of s (sq isn q)) = Some k"
    "q \<notin> set ns \<Longrightarrow> snd (index_of s (sq isn q)) = None"
proof -
  have sorted: "sorted_wrt (<) ns" using b by (simp add: buffered_def)
  have len: "length (s_buffer s) = length ns" using buffered_length[OF b] .
  have snd_eq: "snd (index_of s (sq isn q)) =
      fst (index_loop (s_buffer s) (sq isn q) 0 (length ns) (lookup_steps s))"
    by (simp add: index_of_def len split: prod.split)
  show "snd (index_of s (sq isn q)) = Some k" if k: "k < length ns" "ns ! k = q"
    unfolding snd_eq
  proof (rule index_loop_complete)
    fix i j assume ij: "i < j" "j < length ns"
    then have "ns ! i < ns ! j" using sorted by (simp add: sorted_wrt_iff_nth_less)
    then show "srt_seq_diff (sp_seq (s_buffer s ! i)) (sq isn q) < srt_seq_diff (sp_seq (s_buffer s ! j)) (sq isn q)"
      using ij by (simp add: buffered_diff[OF b _ near])
  qed (use k in \<open>simp_all add: buffered_diff[OF b _ near]\<close>)
  show "snd (index_of s (sq isn q)) = None" if "q \<notin> set ns"
  proof (rule ccontr)
    assume "snd (index_of s (sq isn q)) \<noteq> None"
    then obtain i where i: "fst (index_loop (s_buffer s) (sq isn q) 0 (length ns) (lookup_steps s)) = Some i"
      unfolding snd_eq by blast
    obtain n where "index_loop (s_buffer s) (sq isn q) 0 (length ns) (lookup_steps s) = (Some i, n)"
      using i by (cases "index_loop (s_buffer s) (sq isn q) 0 (length ns) (lookup_steps s)") simp
    from index_loop_sound[OF this] have "i < length ns" "srt_seq_diff (sp_seq (s_buffer s ! i)) (sq isn q) = 0" by simp_all
    then have "i < length ns" "ns ! i = q" by (simp_all add: buffered_diff[OF b _ near])
    then show False using that nth_mem by blast
  qed
qed

section \<open>The effect of a well-formed report\<close>

lemma buffered_cong [simp]:
  "buffered isn ns (s\<lparr>lookup_steps := n\<rparr>) = buffered isn ns s"
  "buffered isn ns (s\<lparr>pending_retransmit := P\<rparr>) = buffered isn ns s"
  by (simp_all add: buffered_def)

lemma range_loop_buffered:
  assumes "buffered isn ns s" "\<forall>n \<in> set ns. \<bar>n - b\<bar> < 2 ^ 30" "length (filter (\<lambda>n. n \<le> b) (drop i ns)) \<le> budget"
  shows "\<exists>m. range_loop s (sq isn b) i budget =
    (s\<lparr>pending_retransmit := pending_retransmit s \<union> sq isn ` {n \<in> set (drop i ns). n \<le> b}, lookup_steps := m\<rparr>,
     budget - length (filter (\<lambda>n. n \<le> b) (drop i ns)))"
  using assms
proof (induction "length ns - i" arbitrary: s i budget)
  case 0
  then have "drop i ns = []" "length (s_buffer s) \<le> i" using buffered_length[of isn ns s] by simp_all
  then show ?case by (subst range_loop.simps) (intro exI[of _ "lookup_steps s"], simp)
next
  case (Suc k)
  have i: "i < length ns" "i < length (s_buffer s)" using Suc.hyps(2) buffered_length[OF Suc.prems(1)] by simp_all
  have d: "drop i ns = ns ! i # drop (Suc i) ns" using i(1) by (simp add: Cons_nth_drop_Suc)
  have q: "sp_seq (s_buffer s ! i) = sq isn (ns ! i)" using buffered_nth[OF Suc.prems(1) i(1)] .
  have diff: "srt_seq_diff (sq isn (ns ! i)) (sq isn b) = ns ! i - b"
    using buffered_diff[OF Suc.prems(1) i(1) Suc.prems(2)] by (simp add: q)
  show ?case
  proof (cases "ns ! i \<le> b")
    case True
    let ?s = "s\<lparr>lookup_steps := step_inc (lookup_steps s), pending_retransmit := insert (sq isn (ns ! i)) (pending_retransmit s)\<rparr>"
    have budget: "0 < budget" "length (filter (\<lambda>n. n \<le> b) (drop (Suc i) ns)) \<le> budget - 1"
      using Suc.prems(3) True unfolding d by auto
    have "range_loop s (sq isn b) i budget = range_loop ?s (sq isn b) (Suc i) (budget - 1)"
      using budget(1) i(2) True diff by (subst range_loop.simps) (simp add: Let_def q)
    moreover obtain m where "range_loop ?s (sq isn b) (Suc i) (budget - 1) =
        (?s\<lparr>pending_retransmit := pending_retransmit ?s \<union> sq isn ` {n \<in> set (drop (Suc i) ns). n \<le> b}, lookup_steps := m\<rparr>,
         budget - 1 - length (filter (\<lambda>n. n \<le> b) (drop (Suc i) ns)))"
    proof -
      have "k = length ns - Suc i" "buffered isn ns ?s" using Suc.hyps(2) Suc.prems(1) by simp_all
      then show ?thesis using that Suc.hyps(1)[OF _ _ Suc.prems(2) budget(2)] by blast
    qed
    moreover have "insert (sq isn (ns ! i)) (pending_retransmit s) \<union> sq isn ` {n \<in> set (drop (Suc i) ns). n \<le> b} =
        pending_retransmit s \<union> sq isn ` {n \<in> set (drop i ns). n \<le> b}"
      unfolding d using True by auto
    ultimately show ?thesis using True d by (intro exI[of _ m]) (simp add: steps_then_pending)
  next
    case False
    have "sorted_wrt (<) (drop i ns)" using Suc.prems(1) by (simp add: buffered_def sorted_wrt_drop)
    then have gt: "\<forall>n \<in> set (drop i ns). b < n" using False unfolding d by auto
    then have none: "{n \<in> set (drop i ns). n \<le> b} = {}" "filter (\<lambda>n. n \<le> b) (drop i ns) = []"
      by (auto simp: filter_empty_conv)
    have "range_loop s (sq isn b) i budget = (s, budget) \<or>
        range_loop s (sq isn b) i budget = (s\<lparr>lookup_steps := step_inc (lookup_steps s)\<rparr>, budget)"
      using i(2) False diff by (subst (1 2) range_loop.simps) (simp add: Let_def q)
    then show ?thesis unfolding none
      by (elim disjE) (rule exI[of _ "lookup_steps s"], simp, rule exI[of _ "step_inc (lookup_steps s)"], simp)
  qed
qed

lemma first_at_or_after_buffered:
  assumes "buffered isn ns s" "\<forall>n \<in> set ns. \<bar>n - a\<bar> < 2 ^ 30"
  obtains m i where "first_at_or_after s (sq isn a) = (s\<lparr>lookup_steps := m\<rparr>, i)"
    "filter (\<lambda>n. n \<le> b) (drop i ns) = filter (\<lambda>n. a \<le> n \<and> n \<le> b) ns"
proof -
  obtain m where m: "fst (first_at_or_after s (sq isn a)) = s\<lparr>lookup_steps := m\<rparr>"
    using first_at_or_after_frame[OF less_exp, of s "sq isn a"] by blast
  then obtain i where i: "first_at_or_after s (sq isn a) = (s\<lparr>lookup_steps := m\<rparr>, i)"
    by (cases "first_at_or_after s (sq isn a)") simp
  have len: "length (s_buffer s) = length ns" using buffered_length[OF assms(1)] .
  have d: "srt_seq_diff (sp_seq (s_buffer s ! j)) (sq isn a) = ns ! j - a" if "j < length ns" for j
    using buffered_diff[OF assms(1) that assms(2)] .
  have sorted: "sorted_wrt (<) ns" using assms(1) by (simp add: buffered_def)
  have "let i = fst (at_or_after_loop (s_buffer s) (sq isn a) 0 (length ns) (lookup_steps s)) in i \<le> length (s_buffer s) \<and>
      (\<forall>j < length (s_buffer s). j < i \<longleftrightarrow> srt_seq_diff (sp_seq (s_buffer s ! j)) (sq isn a) < 0)"
  proof (rule at_or_after_loop_correct)
    fix x y assume "x < y" "y < length (s_buffer s)"
    then show "srt_seq_diff (sp_seq (s_buffer s ! x)) (sq isn a) < srt_seq_diff (sp_seq (s_buffer s ! y)) (sq isn a)"
      using sorted by (simp add: len d sorted_wrt_iff_nth_less)
  qed (simp_all add: len)
  moreover have "fst (at_or_after_loop (s_buffer s) (sq isn a) 0 (length ns) (lookup_steps s)) = i"
    using i by (simp add: first_at_or_after_def len split: prod.splits)
  ultimately have ii: "i \<le> length ns" "\<And>j. j < length ns \<Longrightarrow> j < i \<longleftrightarrow> ns ! j < a"
    by (auto simp: Let_def len d)
  have "n < a" if "n \<in> set (take i ns)" for n
    using that ii by (metis in_set_conv_nth length_take min.absorb2 nth_take order_less_le_trans)
  then have "filter (\<lambda>n. a \<le> n \<and> n \<le> b) (take i ns) = []"
    by (force simp: filter_empty_conv)
  moreover have "filter (\<lambda>n. a \<le> n \<and> n \<le> b) (drop i ns) = filter (\<lambda>n. n \<le> b) (drop i ns)"
  proof (intro filter_cong refl)
    fix n assume "n \<in> set (drop i ns)"
    then obtain j where "i + j < length ns" "ns ! (i + j) = n"
      by (auto simp: in_set_conv_nth) (metis add.commute less_diff_conv)
    then have "a \<le> n" using ii(2)[of "i + j"] by simp
    then show "(a \<le> n \<and> n \<le> b) = (n \<le> b)" by simp
  qed
  ultimately have "filter (\<lambda>n. n \<le> b) (drop i ns) = filter (\<lambda>n. a \<le> n \<and> n \<le> b) ns"
    by (metis append_Nil append_take_drop_id filter_append)
  then show ?thesis using that i by blast
qed

text \<open>What resolving a report costs of its budget.\<close>

definition nak_cost :: "int list \<Rightarrow> (int \<times> int) list \<Rightarrow> nat" where
  "nak_cost ns runs = sum_list (map (\<lambda>(a, b). if a = b then 1 else length (filter (\<lambda>n. a \<le> n \<and> n \<le> b) ns)) runs)"

lemma nak_loop_buffered:
  assumes "buffered isn ns s" "\<forall>(a, b) \<in> set runs. a \<le> b \<and> (\<forall>n \<in> set ns. \<bar>n - a\<bar> < 2 ^ 30 \<and> \<bar>n - b\<bar> < 2 ^ 30)"
    "nak_cost ns runs \<le> budget"
  shows "\<exists>m. nak_loop s budget (map (\<lambda>r. Inr (run_entry isn r)) runs) =
    s\<lparr>pending_retransmit := pending_retransmit s \<union> sq isn ` {n \<in> set ns. \<exists>(a, b) \<in> set runs. a \<le> n \<and> n \<le> b}, lookup_steps := m\<rparr>"
  using assms
proof (induction runs arbitrary: s budget)
  case Nil
  show ?case by (intro exI[of _ "lookup_steps s"]) simp
next
  case (Cons r runs)
  obtain a b where r: "r = (a, b)" by (cases r)
  have ab: "a \<le> b" and near: "\<forall>n \<in> set ns. \<bar>n - a\<bar> < 2 ^ 30" "\<forall>n \<in> set ns. \<bar>n - b\<bar> < 2 ^ 30"
    using Cons.prems(2) r by auto
  let ?A = "\<lambda>rs. {n \<in> set ns. \<exists>(a, b) \<in> set rs. a \<le> n \<and> n \<le> b}"
  have A: "?A (r # runs) = {n \<in> set ns. a \<le> n \<and> n \<le> b} \<union> ?A runs" using r by auto
  have glue: "\<exists>m. nak_loop t c (map (\<lambda>r. Inr (run_entry isn r)) runs) =
      s\<lparr>pending_retransmit := pending_retransmit s \<union> sq isn ` ?A (r # runs), lookup_steps := m\<rparr>"
    if t: "t = s\<lparr>pending_retransmit := pending_retransmit s \<union> sq isn ` {n \<in> set ns. a \<le> n \<and> n \<le> b}, lookup_steps := m0\<rparr>"
      and c: "nak_cost ns runs \<le> c" for t c m0
  proof -
    have "buffered isn ns t" using Cons.prems(1) t by simp
    then obtain m where "nak_loop t c (map (\<lambda>r. Inr (run_entry isn r)) runs) =
        t\<lparr>pending_retransmit := pending_retransmit t \<union> sq isn ` ?A runs, lookup_steps := m\<rparr>"
      using Cons.IH[of t c] Cons.prems(2) c by auto
    moreover have "pending_retransmit s \<union> sq isn ` ?A (r # runs) = pending_retransmit t \<union> sq isn ` ?A runs"
      unfolding A by (simp add: t image_Un Un_assoc)
    ultimately show ?thesis by (intro exI[of _ m]) (simp add: t)
  qed
  show ?case
  proof (cases "budget = 0")
    case True
    then have "\<forall>(a, b) \<in> set (r # runs). filter (\<lambda>n. a \<le> n \<and> n \<le> b) ns = []"
      using Cons.prems(3) by (force simp: nak_cost_def split: if_splits)
    then have none: "?A (r # runs) = {}" by (force simp: filter_empty_conv)
    show ?thesis unfolding none using True by (intro exI[of _ "lookup_steps s"]) simp
  next
    case False
    show ?thesis
    proof (cases "a = b")
      case True
      obtain m where m: "fst (index_of s (sq isn a)) = s\<lparr>lookup_steps := m\<rparr>"
        using index_of_frame[OF less_exp, of s "sq isn a"] by blast
      then obtain i where i: "index_of s (sq isn a) = (s\<lparr>lookup_steps := m\<rparr>, i)" by (cases "index_of s (sq isn a)") simp
      have hit: "i \<noteq> None \<longleftrightarrow> a \<in> set ns"
        using index_of_buffered[OF Cons.prems(1) near(1)] i by (auto simp: in_set_conv_nth)
      have "nak_loop s budget (map (\<lambda>r. Inr (run_entry isn r)) (r # runs)) =
          nak_loop (s\<lparr>pending_retransmit := pending_retransmit s \<union> sq isn ` {n \<in> set ns. a \<le> n \<and> n \<le> b}, lookup_steps := m\<rparr>)
            (budget - 1) (map (\<lambda>r. Inr (run_entry isn r)) runs)"
      proof (cases "a \<in> set ns")
        case mem: True
        have "{n \<in> set ns. a \<le> n \<and> n \<le> b} = {a}" using mem \<open>a = b\<close> by auto
        then show ?thesis using False \<open>a = b\<close> r i hit mem by (simp add: run_entry_def steps_then_pending)
      next
        case mem: False
        then have none: "pending_retransmit s \<union> sq isn ` {n \<in> set ns. a \<le> n \<and> n \<le> b} = pending_retransmit s"
          using \<open>a = b\<close> by auto
        have "s\<lparr>lookup_steps := m\<rparr> = s\<lparr>pending_retransmit := pending_retransmit s, lookup_steps := m\<rparr>" by simp
        then show ?thesis unfolding none using False \<open>a = b\<close> r i hit mem by (simp add: run_entry_def)
      qed
      moreover have "nak_cost ns runs \<le> budget - 1" using Cons.prems(3) r True by (simp add: nak_cost_def)
      ultimately show ?thesis using glue[OF refl, of "budget - 1"] by simp
    next
      case ne: False
      obtain m i where i: "first_at_or_after s (sq isn a) = (s\<lparr>lookup_steps := m\<rparr>, i)"
        "filter (\<lambda>n. n \<le> b) (drop i ns) = filter (\<lambda>n. a \<le> n \<and> n \<le> b) ns"
        using first_at_or_after_buffered[OF Cons.prems(1) near(1)] by metis
      have set_eq: "{n \<in> set (drop i ns). n \<le> b} = {n \<in> set ns. a \<le> n \<and> n \<le> b}"
        using arg_cong[OF i(2), of set] by auto
      have cost: "length (filter (\<lambda>n. a \<le> n \<and> n \<le> b) ns) + nak_cost ns runs \<le> budget"
        using Cons.prems(3) r ne by (simp add: nak_cost_def)
      then obtain m' where "range_loop (s\<lparr>lookup_steps := m\<rparr>) (sq isn b) i budget =
          (s\<lparr>pending_retransmit := pending_retransmit s \<union> sq isn ` {n \<in> set ns. a \<le> n \<and> n \<le> b}, lookup_steps := m'\<rparr>,
           budget - length (filter (\<lambda>n. a \<le> n \<and> n \<le> b) ns))"
        using range_loop_buffered[of isn ns "s\<lparr>lookup_steps := m\<rparr>" b i budget] Cons.prems(1) near(2)
        unfolding i(2) set_eq by (auto simp: steps_then_pending)
      then have "nak_loop s budget (map (\<lambda>r. Inr (run_entry isn r)) (r # runs)) =
          nak_loop (s\<lparr>pending_retransmit := pending_retransmit s \<union> sq isn ` {n \<in> set ns. a \<le> n \<and> n \<le> b}, lookup_steps := m'\<rparr>)
            (budget - length (filter (\<lambda>n. a \<le> n \<and> n \<le> b) ns)) (map (\<lambda>r. Inr (run_entry isn r)) runs)"
        using False ne r i(1) by (simp add: run_entry_def)
      then show ?thesis using glue[OF refl, of "budget - length (filter (\<lambda>n. a \<le> n \<and> n \<le> b) ns)"] cost by simp
    qed
  qed
qed

section \<open>The effect of a tick\<close>

definition resent :: "u32 \<Rightarrow> duration \<Rightarrow> u32 \<Rightarrow> submission \<Rightarrow> DataPacket" where
  "resent dest now q = (\<lambda>(m, d, k).
     \<lparr>dp_seq_number = q, dp_position = PpSolo, dp_in_order = True, dp_key_flag = k, dp_retransmitted = True,
      dp_message_number = m, dp_timestamp = duration_to_wire_us now, dp_dest_socket_id = dest, dp_data = d\<rparr>)"

lemma retransmission_view: "retransmission s p now = resent (s_dest_socket_id s) now (sp_seq p) (snd (view p))"
  by (simp add: retransmission_def resent_def view_def)

lemma resent_ok: "srt_valid q \<Longrightarrow> sub_ok x \<Longrightarrow> data_ok (resent dest now q x)"
proof -
  assume q: "srt_valid q" and x: "sub_ok x"
  have "unat q < 2 ^ 31" using q by (simp add: srt_valid_def uint_nat del: of_nat_unat) 
  then have "q AND SEQ_NUMBER_MASK = q" by (simp only: fits_iff_masked mask31)
  then show ?thesis using x by (cases x) (simp add: resent_def data_ok_def sub_ok_def)
qed

lemma serialize_fresh:
  "data_ok pkt \<Longrightarrow> DataPacket_serialize_into pkt (replicate (DataPacket_serialized_len pkt) 0) =
     Inr (data_wire pkt, 16 + length (dp_data pkt))"
  by (simp add: DataPacket_serialize_eq DataPacket_serialized_len_def SRT_HEADER_LEN_def data_ok_def)

lemma view_update: "map view (buf[i := (buf ! i)\<lparr>sp_resend_count := c\<rparr>]) = map view buf"
  by (cases "i < length buf") (simp_all add: map_update view_def list_update_same_conv list_update_beyond)

lemma view_seqs: "map view buf = map view buf' \<Longrightarrow> map sp_seq buf = map sp_seq buf'"
proof -
  assume "map view buf = map view buf'"
  then have "map fst (map view buf) = map fst (map view buf')" by simp
  then show ?thesis by (simp add: view_def comp_def)
qed

lemma buffered_views: "map view (s_buffer s') = map view (s_buffer s) \<Longrightarrow> buffered isn ns s' \<longleftrightarrow> buffered isn ns s"
proof -
  assume v: "map view (s_buffer s') = map view (s_buffer s)"
  then have "set (map view (s_buffer s')) = set (map view (s_buffer s))" by simp
  then have "(\<forall>p \<in> set (s_buffer s'). sub_ok (snd (view p))) \<longleftrightarrow> (\<forall>p \<in> set (s_buffer s). sub_ok (snd (view p)))"
    by (metis (mono_tags, lifting) image_iff list.set_map)
  then show ?thesis using view_seqs[OF v] by (simp add: buffered_def)
qed

text \<open>The datagrams for the positions \<open>ps\<close>, from what the buffer holds for each.\<close>

definition resends :: "u32 \<Rightarrow> Sender \<Rightarrow> duration \<Rightarrow> int list \<Rightarrow> bytes list" where
  "resends isn s now ps =
     map (\<lambda>n. data_wire (resent (s_dest_socket_id s) now (sq isn n) (the (map_of (map view (s_buffer s)) (sq isn n))))) ps"

lemma buffered_map_of:
  assumes "buffered isn ns s" "i < length ns"
  shows "map_of (map view (s_buffer s)) (sq isn (ns ! i)) = Some (snd (view (s_buffer s ! i)))"
proof -
  have keys: "map fst (map view (s_buffer s)) = map (sq isn) ns"
    using assms(1) by (simp add: buffered_def view_def comp_def)
  have "distinct (map (sq isn) ns)"
  proof (simp only: distinct_map, intro conjI inj_onI)
    show "distinct ns" using assms(1) by (simp add: buffered_def strict_sorted_iff)
  qed (use buffered_inj[OF assms(1)] in blast)
  then have "distinct (map fst (map view (s_buffer s)))" unfolding keys .
  moreover have "(sq isn (ns ! i), snd (view (s_buffer s ! i))) \<in> set (map view (s_buffer s))"
    using buffered_nth[OF assms] buffered_length[OF assms(1)] assms(2)
    by (auto simp: view_def in_set_conv_nth intro!: image_eqI[of _ _ "s_buffer s ! i"])
  ultimately show ?thesis by (rule map_of_is_SomeI)
qed

lemma resend_loop_buffered:
  assumes "buffered isn ns s" "set ps \<subseteq> set ns"
  shows "\<exists>buf m. resend_loop s now (map (sq isn) ps) = (s\<lparr>s_buffer := buf, lookup_steps := m\<rparr>, resends isn s now ps) \<and>
    map view buf = map view (s_buffer s)"
  using assms
proof (induction ps arbitrary: s)
  case Nil
  show ?case by (intro exI[of _ "s_buffer s"] exI[of _ "lookup_steps s"]) (simp add: resends_def)
next
  case (Cons p ps)
  obtain i where i: "i < length ns" "ns ! i = p" using Cons.prems(2) by (auto simp: in_set_conv_nth)
  have near: "\<forall>n \<in> set ns. \<bar>n - p\<bar> < 2 ^ 30"
  proof
    fix n assume n: "n \<in> set ns"
    have "p \<in> set ns" using Cons.prems(2) by simp
    then have "n < p + 2 ^ 30" "p < n + 2 ^ 30" using n Cons.prems(1) unfolding buffered_def by blast+
    then show "\<bar>n - p\<bar> < 2 ^ 30" by linarith
  qed
  obtain m where m: "fst (index_of s (sq isn p)) = s\<lparr>lookup_steps := m\<rparr>"
    using index_of_frame[OF less_exp, of s "sq isn p"] by blast
  then have idx: "index_of s (sq isn p) = (s\<lparr>lookup_steps := m\<rparr>, Some i)"
    using index_of_buffered(1)[OF Cons.prems(1) near i] by (metis prod.collapse)
  let ?sent = "s_buffer s ! i"
  let ?c = "if sp_resend_count ?sent = 0xFFFFFFFF then 0xFFFFFFFF else sp_resend_count ?sent + 1"
  let ?buf = "(s_buffer s)[i := ?sent\<lparr>sp_resend_count := ?c\<rparr>]"
  let ?s = "s\<lparr>lookup_steps := m, s_buffer := ?buf\<rparr>"
  let ?pkt = "retransmission ?s (?sent\<lparr>sp_resend_count := ?c\<rparr>) now"
  have v: "map view (s_buffer ?s) = map view (s_buffer s)" by (simp add: view_update)
  have b: "buffered isn ns ?s" using buffered_views[OF v] Cons.prems(1) by blast
  obtain buf m' where r: "resend_loop ?s now (map (sq isn) ps) = (?s\<lparr>s_buffer := buf, lookup_steps := m'\<rparr>, resends isn ?s now ps)"
    "map view buf = map view (s_buffer ?s)" using Cons.IH[OF b] Cons.prems(2) by auto
  have same: "resends isn ?s now ps = resends isn s now ps" unfolding resends_def v by simp
  have vw: "snd (view (?sent\<lparr>sp_resend_count := ?c\<rparr>)) = snd (view ?sent)" by (simp add: view_def)
  have pkt: "?pkt = resent (s_dest_socket_id s) now (sq isn p) (the (map_of (map view (s_buffer s)) (sq isn p)))"
    using buffered_map_of[OF Cons.prems(1) i(1)] buffered_nth[OF Cons.prems(1) i(1)]
    unfolding retransmission_view vw i(2) by simp
  have "sub_ok (snd (view ?sent))"
    using Cons.prems(1) i(1) buffered_length[OF Cons.prems(1)] by (simp add: buffered_def)
  then have "data_ok ?pkt" unfolding retransmission_view vw
    using buffered_nth[OF Cons.prems(1) i(1)] by (intro resent_ok) simp_all
  then have ser: "DataPacket_serialize_into ?pkt (replicate (DataPacket_serialized_len ?pkt) 0) = Inr (data_wire ?pkt, 16 + length (dp_data ?pkt))"
    by (rule serialize_fresh)
  have "resend_loop s now (map (sq isn) (p # ps)) = (case resend_loop ?s now (map (sq isn) ps) of (s', out) \<Rightarrow>
      (case DataPacket_serialize_into ?pkt (replicate (DataPacket_serialized_len ?pkt) 0) of
         Inr (buf, _) \<Rightarrow> (s', buf # out) | Inl _ \<Rightarrow> (s', out)))"
    unfolding list.map resend_loop.simps idx Let_def prod.case option.case by simp
  then have "resend_loop s now (map (sq isn) (p # ps)) =
      (s\<lparr>s_buffer := buf, lookup_steps := m'\<rparr>, data_wire ?pkt # resends isn s now ps)"
    unfolding r(1) ser same prod.case sum.case by simp
  moreover have "data_wire ?pkt # resends isn s now ps = resends isn s now (p # ps)"
    unfolding pkt by (simp add: resends_def)
  ultimately show ?case using r(2) v by auto
qed

lemma sender_tick_buffered:
  assumes b: "buffered isn ns s" and P: "pending_retransmit s \<subseteq> sq isn ` set ns"
  shows "\<exists>buf m. sender_tick s now =
      (s\<lparr>pending_retransmit := {}, s_buffer := buf, lookup_steps := m\<rparr>,
       resends isn s now (filter (\<lambda>n. sq isn n \<in> pending_retransmit s) ns)) \<and>
    map view buf = map view (s_buffer s)"
proof -
  let ?ps = "filter (\<lambda>n. sq isn n \<in> pending_retransmit s) ns"
  let ?s = "s\<lparr>pending_retransmit := {}\<rparr>"
  define seqs where "seqs = sorted_list_of_set (pending_retransmit s)"
  have "(case s_buffer s of [] \<Rightarrow> seqs | front # _ \<Rightarrow> sort_key (\<lambda>q. srt_seq_diff q (sp_seq front)) seqs) = map (sq isn) ?ps"
  proof (cases "s_buffer s")
    case Nil
    then have "ns = []" using buffered_length[OF b] by simp
    then show ?thesis using P Nil by (simp add: seqs_def)
  next
    case (Cons front rest)
    then obtain n0 ns' where n0: "ns = n0 # ns'" using buffered_length[OF b] by (cases ns) auto
    have front: "sp_seq front = sq isn n0" using buffered_nth[OF b, of 0] Cons n0 by simp
    let ?key = "\<lambda>q. srt_seq_diff q (sp_seq front)"
    have key: "?key (sq isn n) = n - n0" if "n \<in> set ns" for n
    proof -
      have "n < n0 + 2 ^ 30" "n0 < n + 2 ^ 30" using that b n0 unfolding buffered_def by auto
      then show ?thesis unfolding front by (intro sq_diff) linarith+
    qed
    have sorted: "sorted_wrt (<) ns" using b by (simp add: buffered_def)
    have set1: "set seqs = set (map (sq isn) ?ps)" using P by (auto simp: seqs_def)
    have mk: "map ?key (map (sq isn) ?ps) = map (\<lambda>n. n - n0) ?ps" by (simp add: key)
    have inj: "inj_on ?key (set (map (sq isn) ?ps))" by (rule inj_onI) (auto simp: key)
    have "sort_key ?key seqs = map (sq isn) ?ps"
    proof (rule map_sorted_distinct_set_unique[of ?key])
      show "inj_on ?key (set (sort_key ?key seqs) \<union> set (map (sq isn) ?ps))" using inj set1 by simp
      show "sorted (map ?key (sort_key ?key seqs))" by simp
      show "distinct (map ?key (sort_key ?key seqs))" using inj set1 by (simp add: distinct_map seqs_def)
      have "sorted_wrt (<) (map (\<lambda>n. n - n0) ?ps)" using sorted_wrt_filter[OF sorted] by (simp add: sorted_wrt_map)
      then show "sorted (map ?key (map (sq isn) ?ps))" "distinct (map ?key (map (sq isn) ?ps))"
        unfolding mk using strict_sorted_iff by blast+
      show "set (sort_key ?key seqs) = set (map (sq isn) ?ps)" using set1 by simp
    qed
    then show ?thesis using Cons by simp
  qed
  then have "sender_tick s now = resend_loop ?s now (map (sq isn) ?ps)"
    unfolding seqs_def by (simp add: sender_tick_def Let_def)
  moreover have "buffered isn ns ?s" using b by simp
  moreover have "resends isn ?s now ?ps = resends isn s now ?ps" by (simp add: resends_def)
  ultimately show ?thesis using resend_loop_buffered[of isn ns ?s ?ps now] by auto
qed

section \<open>The effect of an acknowledgement\<close>

lemma free_loop_prefix:
  "\<exists>k \<le> length buf. free_loop a buf P = (drop k buf, P - sp_seq ` set (take k buf))"
proof (induction buf arbitrary: P)
  case (Cons p buf)
  show ?case
  proof (cases "srt_seq_lt (sp_seq p) a")
    case True
    obtain k where "k \<le> length buf" "free_loop a buf (P - {sp_seq p}) = (drop k buf, P - {sp_seq p} - sp_seq ` set (take k buf))"
      using Cons by blast
    then show ?thesis using True by (intro exI[of _ "Suc k"]) auto
  next
    case False
    then show ?thesis by (intro exI[of _ 0]) simp
  qed
qed simp

lemma on_ack_state:
  "\<exists>k e. k \<le> length (s_buffer s) \<and> free_loop (ack_seq (ack_cif ack)) (s_buffer s) (pending_retransmit s) =
      (drop k (s_buffer s), pending_retransmit s - sp_seq ` set (take k (s_buffer s))) \<and>
    fst (on_ack s ack now) = s\<lparr>s_buffer := drop k (s_buffer s),
      pending_retransmit := pending_retransmit s - sp_seq ` set (take k (s_buffer s)), s_rtt := e\<rparr>"
proof -
  obtain k where k: "k \<le> length (s_buffer s)" "free_loop (ack_seq (ack_cif ack)) (s_buffer s) (pending_retransmit s) =
      (drop k (s_buffer s), pending_retransmit s - sp_seq ` set (take k (s_buffer s)))" using free_loop_prefix by blast
  have "\<exists>e. fst (on_ack s ack now) = s\<lparr>s_buffer := drop k (s_buffer s),
      pending_retransmit := pending_retransmit s - sp_seq ` set (take k (s_buffer s)), s_rtt := e\<rparr>"
  proof (cases "ack_cif ack")
    case (Full a rtt b c d e f)
    then show ?thesis unfolding on_ack_def k(2)
      by (intro exI[of _ "Rtt_update (s_rtt s) (from_micros (unat rtt))"]) (simp add: Let_def)
  qed (use k(2) in \<open>auto intro!: exI[of _ "s_rtt s"] simp: on_ack_def\<close>)
  then show ?thesis using k by blast
qed

lemma buffered_drop: "buffered isn ns s \<Longrightarrow> s_buffer t = drop k (s_buffer s) \<Longrightarrow> buffered isn (drop k ns) t"
  by (auto simp: buffered_def drop_map[symmetric] sorted_wrt_drop dest: in_set_dropD)

lemma free_loop_buffered:
  "buffered isn ns s \<Longrightarrow> \<forall>n \<in> set ns. \<bar>n - a\<bar> < 2 ^ 30 \<Longrightarrow>
     fst (free_loop (sq isn a) (s_buffer s) P) = drop (length (filter (\<lambda>n. n < a) ns)) (s_buffer s)"
proof (induction ns arbitrary: s P)
  case Nil
  then show ?case using buffered_length[of isn "[]" s] by simp
next
  case (Cons n ns)
  obtain p buf where s: "s_buffer s = p # buf" using buffered_length[OF Cons.prems(1)] by (cases "s_buffer s") auto
  have "sp_seq p = sq isn n" using buffered_nth[OF Cons.prems(1), of 0] s by simp
  moreover have "srt_seq_diff (sq isn n) (sq isn a) = n - a" using Cons.prems(2) by (intro sq_diff) auto
  ultimately have lt: "srt_seq_lt (sp_seq p) (sq isn a) \<longleftrightarrow> n < a" by (simp add: srt_seq_lt_def seq_lt_def srt_seq_diff_def[symmetric])
  show ?case
  proof (cases "n < a")
    case True
    have "buffered isn ns (s\<lparr>s_buffer := buf\<rparr>)"
      using buffered_drop[OF Cons.prems(1), of "s\<lparr>s_buffer := buf\<rparr>" 1] s by simp
    from Cons.IH[OF this] show ?thesis using True lt s Cons.prems(2) by simp
  next
    case False
    have "sorted_wrt (<) (n # ns)" using Cons.prems(1) by (simp add: buffered_def)
    then have "filter (\<lambda>n. n < a) (n # ns) = []" using False by (auto simp: filter_empty_conv)
    then show ?thesis using lt False s by simp
  qed
qed

section \<open>Runs of the sender\<close>

text \<open>
  \<open>subs\<close> are the packets submitted so far, with consecutive numbers from \<open>isn\<close> on; loss reports and
  acknowledgements are arbitrary, as a hostile peer may send them. At most \<open>2^30 - 1\<close> packets are
  buffered.
\<close>

inductive sending :: "u32 \<Rightarrow> submission list \<Rightarrow> Sender \<Rightarrow> bool" for isn where
  fresh: "sending isn [] (Sender_new dest)"
| submit: "sending isn subs s \<Longrightarrow> length (s_buffer s) + 1 < 2 ^ 30 \<Longrightarrow> sub_ok (m, d, k) \<Longrightarrow>
    on_data_keyed s (sq isn (int (length subs))) m d k now = Inr (s', dg) \<Longrightarrow> sending isn (subs @ [(m, d, k)]) s'"
| nak: "sending isn subs s \<Longrightarrow> sending isn subs (on_nak s report)"
| tick: "sending isn subs s \<Longrightarrow> sending isn subs (fst (sender_tick s now))"
| ack: "sending isn subs s \<Longrightarrow> sending isn subs (fst (on_ack s a now))"

text \<open>The numbered packets from position \<open>k\<close> on.\<close>

definition numbered :: "u32 \<Rightarrow> submission list \<Rightarrow> nat \<Rightarrow> (u32 \<times> submission) list" where
  "numbered isn subs k = map (\<lambda>i. (sq isn (int i), subs ! i)) [k..<length subs]"

lemma on_data_keyed_ok:
  assumes "on_data_keyed s q m d k now = Inr (s', dg)"
  shows "q AND SEQ_NUMBER_MASK = q \<and> m AND MESSAGE_NUMBER_MASK = m \<and>
    s' = s\<lparr>s_buffer := s_buffer s @ [\<lparr>sp_seq = q, sp_message_number = m, sp_payload = d, sp_key_flag = k, sp_resend_count = 0\<rparr>]\<rparr> \<and>
    dg = data_wire ((resent (s_dest_socket_id s) now q (m, d, k))\<lparr>dp_retransmitted := False\<rparr>)"
  using assms
  by (auto simp: on_data_keyed_def check_bits_eq mask31 mask26 Let_def DataPacket_serialize_eq
      DataPacket_serialized_len_def SRT_HEADER_LEN_def resent_def split: if_splits)

lemma numbered_snoc: "k \<le> length subs \<Longrightarrow> numbered isn (subs @ [x]) k = numbered isn subs k @ [(sq isn (int (length subs)), x)]"
  by (simp add: numbered_def nth_append)

lemma view_mk: "view \<lparr>sp_seq = q, sp_message_number = m, sp_payload = d, sp_key_flag = k, sp_resend_count = c\<rparr> = (q, m, d, k)"
  by (simp add: view_def)

lemma view_seq: "map sp_seq buf = map fst (map view buf)"
  by (simp add: view_def comp_def)

lemma numbered_buffered:
  assumes "map view (s_buffer s) = numbered isn subs k" "length subs < k + 2 ^ 30" "list_all sub_ok subs"
  shows "buffered isn (map int [k..<length subs]) s"
proof -
  have "sub_ok (snd (view p))" if "p \<in> set (s_buffer s)" for p
  proof -
    have "view p \<in> set (numbered isn subs k)" using that unfolding assms(1)[symmetric] by simp
    then show ?thesis using assms(3) by (auto simp: numbered_def list_all_length)
  qed
  moreover have "map sp_seq (s_buffer s) = map (sq isn) (map int [k..<length subs])"
    unfolding view_seq assms(1) by (simp add: numbered_def)
  moreover have "sorted_wrt (<) (map int [k..<length subs])" by (simp add: sorted_wrt_map)
  ultimately show ?thesis using assms(2) by (auto simp: buffered_def)
qed

lemma numbered_drop: "drop j (numbered isn subs k) = numbered isn subs (k + j)"
  by (simp add: numbered_def drop_map)

lemma sending_state:
  assumes "sending isn subs s"
  shows "\<exists>k \<le> length subs. map view (s_buffer s) = numbered isn subs k \<and> length subs < k + 2 ^ 30 \<and>
    list_all sub_ok subs \<and> pending_retransmit s \<subseteq> sp_seq ` set (s_buffer s)"
  using assms
proof (induction rule: sending.induct)
  case (fresh dest)
  show ?case by (intro exI[of _ 0]) (simp add: Sender_new_def numbered_def)
next
  case (submit subs s m d k now s' dg)
  then obtain j where j: "j \<le> length subs" "map view (s_buffer s) = numbered isn subs j" "length subs < j + 2 ^ 30"
    "list_all sub_ok subs" "pending_retransmit s \<subseteq> sp_seq ` set (s_buffer s)" by blast
  note s' = on_data_keyed_ok[OF submit.hyps(4)]
  have "length (s_buffer s) = length subs - j" using arg_cong[OF j(2), of length] by (simp add: numbered_def)
  then have "length (subs @ [(m, d, k)]) < j + 2 ^ 30" using submit.hyps(2) j(1) by simp
  moreover have "map view (s_buffer s') = numbered isn (subs @ [(m, d, k)]) j"
    using s' j(1,2) by (simp add: numbered_snoc view_mk)
  moreover have "pending_retransmit s' \<subseteq> sp_seq ` set (s_buffer s')" using s' j(5) by auto
  ultimately show ?case using j(1,4) submit.hyps(3) by (intro exI[of _ j]) simp
next
  case (nak subs s report)
  then obtain j where j: "j \<le> length subs" "map view (s_buffer s) = numbered isn subs j" "length subs < j + 2 ^ 30"
    "list_all sub_ok subs" "pending_retransmit s \<subseteq> sp_seq ` set (s_buffer s)" by blast
  obtain P n where f: "on_nak s report = s\<lparr>pending_retransmit := P, lookup_steps := n\<rparr>"
    using nak_loop_frame[OF less_exp, of s MAX_NAK_SEQS_PER_PACKET "loss_entries (raw_loss_list report)"]
    unfolding on_nak_def by blast
  have "set (map sp_seq (s_buffer s)) \<subseteq> {q. srt_valid q}"
  proof -
    have "map sp_seq (s_buffer s) = map fst (map view (s_buffer s))" by (simp add: view_def comp_def)
    then show ?thesis unfolding j(2) by (auto simp: numbered_def)
  qed
  then have "pending_retransmit (on_nak s report) \<subseteq> pending_retransmit s \<union> sp_seq ` set (s_buffer s)"
    unfolding on_nak_def by (intro nak_loop_pending) (auto dest: loss_entries_valid)
  then show ?case using j f by (intro exI[of _ j]) auto
next
  case (tick subs s now)
  then obtain j where j: "j \<le> length subs" "map view (s_buffer s) = numbered isn subs j" "length subs < j + 2 ^ 30"
    "list_all sub_ok subs" "pending_retransmit s \<subseteq> sp_seq ` set (s_buffer s)" by blast
  have b: "buffered isn (map int [j..<length subs]) s" by (rule numbered_buffered[OF j(2,3,4)])
  have "sp_seq ` set (s_buffer s) = set (map sp_seq (s_buffer s))" by simp
  also have "\<dots> = sq isn ` set (map int [j..<length subs])" using b unfolding buffered_def by (metis list.set_map)
  finally have "pending_retransmit s \<subseteq> sq isn ` set (map int [j..<length subs])" using j(5) by simp
  then obtain buf m where "fst (sender_tick s now) = s\<lparr>pending_retransmit := {}, s_buffer := buf, lookup_steps := m\<rparr>"
    "map view buf = map view (s_buffer s)" using sender_tick_buffered[OF b, of now] by auto
  then show ?case using j by (intro exI[of _ j]) simp
next
  case (ack subs s a now)
  then obtain j where j: "j \<le> length subs" "map view (s_buffer s) = numbered isn subs j" "length subs < j + 2 ^ 30"
    "list_all sub_ok subs" "pending_retransmit s \<subseteq> sp_seq ` set (s_buffer s)" by blast
  obtain k e where k: "k \<le> length (s_buffer s)" "fst (on_ack s a now) = s\<lparr>s_buffer := drop k (s_buffer s),
      pending_retransmit := pending_retransmit s - sp_seq ` set (take k (s_buffer s)), s_rtt := e\<rparr>" using on_ack_state by blast
  have len: "length (s_buffer s) = length subs - j" using arg_cong[OF j(2), of length] by (simp add: numbered_def)
  have "sp_seq ` set (s_buffer s) = sp_seq ` set (take k (s_buffer s)) \<union> sp_seq ` set (drop k (s_buffer s))"
    by (metis append_take_drop_id image_Un set_append)
  then have "pending_retransmit s - sp_seq ` set (take k (s_buffer s)) \<subseteq> sp_seq ` set (drop k (s_buffer s))"
    using j(5) by (simp only: Diff_subset_conv)
  moreover have "map view (drop k (s_buffer s)) = numbered isn subs (j + k)"
    unfolding drop_map[symmetric] j(2) numbered_drop ..
  moreover have "j + k \<le> length subs" "length subs < j + k + 2 ^ 30" using j(1,3) k(1) len by simp_all
  ultimately show ?case unfolding k(2) using j(4) by (intro exI[of _ "j + k"]) simp
qed

section \<open>Properties\<close>

text \<open>
  C3. A run of the sender, whatever loss reports and acknowledgements arrive. The buffer is always
  what has been submitted from some position on, in order and unchanged; only numbers of that
  suffix are queued for retransmission; and a tick empties the queue and emits exactly one datagram
  for each queued number, oldest first across the wrap of the numbers, each of which parses to the
  packet submitted under that number with the retransmission flag set, and leaves the buffer as it
  was.
\<close>

theorem sender_resends_submissions:
  assumes "sending isn subs s"
  shows "\<exists>k \<le> length subs. map view (s_buffer s) = numbered isn subs k \<and>
    pending_retransmit s \<subseteq> (\<lambda>i. sq isn (int i)) ` {k..<length subs} \<and>
    (case sender_tick s now of (s', out) \<Rightarrow>
       pending_retransmit s' = {} \<and> map view (s_buffer s') = numbered isn subs k \<and>
       length out = card (pending_retransmit s) \<and>
       map DataPacket_parse out =
         map (\<lambda>i. Inr (resent (s_dest_socket_id s) now (sq isn (int i)) (subs ! i)))
           (filter (\<lambda>i. sq isn (int i) \<in> pending_retransmit s) [k..<length subs]))"
proof -
  obtain k where k: "k \<le> length subs" "map view (s_buffer s) = numbered isn subs k" "length subs < k + 2 ^ 30"
    "list_all sub_ok subs" "pending_retransmit s \<subseteq> sp_seq ` set (s_buffer s)" using sending_state[OF assms] by blast
  let ?ns = "map int [k..<length subs]"
  let ?is = "filter (\<lambda>i. sq isn (int i) \<in> pending_retransmit s) [k..<length subs]"
  have b: "buffered isn ?ns s" by (rule numbered_buffered[OF k(2,3,4)])
  have "sp_seq ` set (s_buffer s) = set (map sp_seq (s_buffer s))" by simp
  also have "\<dots> = sq isn ` set ?ns" using b unfolding buffered_def by (metis list.set_map)
  finally have P: "pending_retransmit s \<subseteq> sq isn ` set ?ns" using k(5) by simp
  obtain buf m where t: "sender_tick s now = (s\<lparr>pending_retransmit := {}, s_buffer := buf, lookup_steps := m\<rparr>,
      resends isn s now (map int ?is))" "map view buf = map view (s_buffer s)"
    using sender_tick_buffered[OF b P, of now] by (auto simp: filter_map comp_def)
  have look: "map_of (numbered isn subs k) (sq isn (int i)) = Some (subs ! i)" if "i \<in> set ?is" for i
  proof -
    have ki: "k \<le> i" "i < length subs" using that by simp_all
    then have i: "i - k < length ?ns" "?ns ! (i - k) = int i" "k \<le> i" "i < length subs" by simp_all
    have "length (s_buffer s) = length ?ns" using buffered_length[OF b] .
    then have "view (s_buffer s ! (i - k)) = numbered isn subs k ! (i - k)" using k(2) i(1) by (metis nth_map)
    also have "\<dots> = (sq isn (int i), subs ! i)" using i by (simp add: numbered_def)
    finally show ?thesis using buffered_map_of[OF b i(1)] unfolding i(2) k(2) by simp
  qed
  have out: "resends isn s now (map int ?is) =
      map (\<lambda>i. data_wire (resent (s_dest_socket_id s) now (sq isn (int i)) (subs ! i))) ?is"
    unfolding resends_def k(2) using look by simp
  have "sub_ok (subs ! i)" if "i \<in> set ?is" for i using that k(4) by (simp add: list_all_length)
  then have parse: "map DataPacket_parse (resends isn s now (map int ?is)) =
      map (\<lambda>i. Inr (resent (s_dest_socket_id s) now (sq isn (int i)) (subs ! i))) ?is"
    unfolding out by (simp add: DataPacket_parse_wire resent_ok)
  have inj: "inj_on (\<lambda>i. sq isn (int i)) {k..<length subs}"
    using buffered_inj[OF b] by (intro inj_onI) fastforce
  have "length ?is = card (set ?is)" by (intro distinct_card[symmetric] distinct_filter distinct_upt)
  also have "\<dots> = card ((\<lambda>i. sq isn (int i)) ` set ?is)"
    by (intro card_image[symmetric] inj_on_subset[OF inj]) auto
  also have "(\<lambda>i. sq isn (int i)) ` set ?is = pending_retransmit s" using P by auto
  finally have "length (resends isn s now (map int ?is)) = card (pending_retransmit s)" by (simp add: resends_def)
  moreover have "pending_retransmit s \<subseteq> (\<lambda>i. sq isn (int i)) ` {k..<length subs}" using P by (auto simp: image_image)
  ultimately show ?thesis using k(1,2) t parse by (intro exI[of _ k]) simp
qed

lemma on_data_keyed_fits:
  "srt_valid q \<Longrightarrow> sub_ok (m, d, k) \<Longrightarrow> \<exists>dg. on_data_keyed s q m d k now =
     Inr (s\<lparr>s_buffer := s_buffer s @ [\<lparr>sp_seq = q, sp_message_number = m, sp_payload = d, sp_key_flag = k, sp_resend_count = 0\<rparr>]\<rparr>, dg)"
  using resent_ok[of q "(m, d, k)"]
  by (auto simp: on_data_keyed_def check_bits_eq mask31 mask26 Let_def DataPacket_serialize_eq data_ok_def resent_def
      DataPacket_serialized_len_def SRT_HEADER_LEN_def)

theorem sender_resends_submissions_witness:
  "\<exists>s d. sending 0x7FFFFFFF [(0, [71], NotEncrypted)] s \<and> pending_retransmit s = {0x7FFFFFFF} \<and>
     snd (sender_tick s 0) = [d] \<and> (\<exists>p. DataPacket_parse d = Inr p \<and> dp_data p = [71] \<and> dp_retransmitted p)"
proof -
  have v: "srt_valid 0x7FFFFFFF" by (simp add: srt_valid_def)
  have z: "sq 0x7FFFFFFF 0 = 0x7FFFFFFF" using v by simp
  have ok: "sub_ok (0, [71], NotEncrypted)" by (simp add: sub_ok_def)
  obtain s1 dg where s1: "on_data_keyed (Sender_new 7) 0x7FFFFFFF 0 [71] NotEncrypted 0 = Inr (s1, dg)"
    "pending_retransmit s1 = {}"
    using on_data_keyed_fits[OF v ok, of "Sender_new 7" 0] by (auto simp: Sender_new_def)
  have r1: "sending 0x7FFFFFFF [(0, [71], NotEncrypted)] s1"
    using sending.submit[OF sending.fresh[of "0x7FFFFFFF" 7], of 0 "[71]" NotEncrypted 0 s1 dg] s1(1) ok z
    by (simp add: Sender_new_def)
  define report where "report = \<lparr>nak_timestamp = 0, nak_dest_socket_id = 7, raw_loss_list = words [0x7FFFFFFF]\<rparr>"
  have raw: "raw_loss_list report = words [0x7FFFFFFF]" by (simp add: report_def)
  have "loss_entries (words (concat (map loss_words [Single 0x7FFFFFFF]))) = map Inr [Single 0x7FFFFFFF]"
    by (intro loss_entries_words) simp
  then have ents: "loss_entries (raw_loss_list report) = map (\<lambda>r. Inr (run_entry 0x7FFFFFFF r)) [(0, 0)]"
    unfolding raw using z by (simp add: run_entry_def)
  obtain k where k: "k \<le> 1" "map view (s_buffer s1) = numbered 0x7FFFFFFF [(0, [71], NotEncrypted)] k"
    using sending_state[OF r1] by auto
  have "s_buffer s1 \<noteq> []" using s1(1) on_data_keyed_fits[OF v ok, of "Sender_new 7" 0] by auto
  then have "k = 0" using k by (cases k) (auto simp: numbered_def)
  then have b: "buffered 0x7FFFFFFF [0] s1"
    using numbered_buffered[OF k(2)] ok by simp
  have "nak_cost [0] [(0, 0)] \<le> MAX_NAK_SEQS_PER_PACKET" by (simp add: nak_cost_def MAX_NAK_SEQS_PER_PACKET_def)
  then obtain m where m0: "on_nak s1 report = s1\<lparr>pending_retransmit := pending_retransmit s1 \<union> sq 0x7FFFFFFF `
      {n \<in> set [0]. \<exists>(a, b) \<in> set [(0, 0)]. a \<le> n \<and> n \<le> b}, lookup_steps := m\<rparr>"
    using nak_loop_buffered[OF b, of "[(0, 0)]" MAX_NAK_SEQS_PER_PACKET] unfolding on_nak_def ents by auto
  have "{n \<in> set [0]. \<exists>(a, b) \<in> set [(0, 0)]. a \<le> n \<and> n \<le> b} = {0 :: int}" by auto
  then have m: "on_nak s1 report = s1\<lparr>pending_retransmit := {0x7FFFFFFF}, lookup_steps := m\<rparr>"
    using m0 s1(2) z by simp
  have r2: "sending 0x7FFFFFFF [(0, [71], NotEncrypted)] (on_nak s1 report)" by (rule sending.nak[OF r1])
  have p2: "pending_retransmit (on_nak s1 report) = {0x7FFFFFFF}" unfolding m by simp
  define s where "s = on_nak s1 report"
  let ?subs = "[(0, [71], NotEncrypted)] :: submission list"
  obtain s' out where st: "sender_tick s 0 = (s', out)" by fastforce
  have r: "sending 0x7FFFFFFF ?subs s" and p: "pending_retransmit s = {0x7FFFFFFF}" using r2 p2 by (simp_all add: s_def)
  obtain k' where k': "k' \<le> 1" "{0x7FFFFFFF} \<subseteq> (\<lambda>i. sq 0x7FFFFFFF (int i)) ` {k'..<1}"
    "map DataPacket_parse out = map (\<lambda>i. Inr (resent (s_dest_socket_id s) 0 (sq 0x7FFFFFFF (int i)) (?subs ! i)))
       (filter (\<lambda>i. sq 0x7FFFFFFF (int i) \<in> {0x7FFFFFFF}) [k'..<1])"
    using sender_resends_submissions[OF r, of 0] unfolding st prod.case p
    by (elim exE conjE) (simp only: list.size One_nat_def add_0)
  have "k' = 0" using k'(1,2) by (cases k') auto
  then have "map DataPacket_parse out = [Inr (resent (s_dest_socket_id s) 0 0x7FFFFFFF (0, [71], NotEncrypted))]"
    using k'(3) z by simp
  then obtain d where "out = [d]"
    "DataPacket_parse d = Inr (resent (s_dest_socket_id s) 0 0x7FFFFFFF (0, [71], NotEncrypted))"
    by (cases out) auto
  then show ?thesis using r p st by (intro exI[of _ s] exI[of _ d]) (simp add: resent_def)
qed

text \<open>
  C26. The work of a loss report is bounded by its length and the logarithm of the buffer, whatever
  it says. For a report of arbitrary bytes and a buffer of fewer than \<open>2^k\<close> packets, the lookup
  counter grows by at most \<open>k + 1\<close> per entry of the report plus \<open>2^16\<close>, at most \<open>2^16\<close> numbers are
  queued, nothing is unqueued and the buffer is unchanged.
\<close>

theorem nak_work_bounded:
  assumes "length (s_buffer s) < 2 ^ k"
  shows "lookup_steps (on_nak s nak) \<le> lookup_steps s + (length (raw_loss_list nak) + 3) div 4 * (k + 1) + 2 ^ 16 \<and>
    s_buffer (on_nak s nak) = s_buffer s \<and> pending_retransmit s \<subseteq> pending_retransmit (on_nak s nak) \<and>
    card (pending_retransmit (on_nak s nak)) \<le> card (pending_retransmit s) + 2 ^ 16"
proof -
  obtain P n where f: "on_nak s nak = s\<lparr>pending_retransmit := P, lookup_steps := n\<rparr>"
    "n \<le> lookup_steps s + length (loss_entries (raw_loss_list nak)) * (k + 1) + 2 ^ 16" "pending_retransmit s \<subseteq> P"
    "card (P - pending_retransmit s) \<le> 2 ^ 16"
    using nak_loop_frame[OF assms, of MAX_NAK_SEQS_PER_PACKET "loss_entries (raw_loss_list nak)"]
    unfolding on_nak_def MAX_NAK_SEQS_PER_PACKET_def by blast
  have "length (loss_entries (raw_loss_list nak)) \<le> (length (raw_loss_list nak) + 3) div 4"
    using loss_entries_count[of "raw_loss_list nak"] by simp
  then have "length (loss_entries (raw_loss_list nak)) * (k + 1) \<le> (length (raw_loss_list nak) + 3) div 4 * (k + 1)"
    by (rule mult_le_mono1)
  moreover have "card P \<le> card (pending_retransmit s) + card (P - pending_retransmit s)"
    using card_Un_le[of "pending_retransmit s" "P - pending_retransmit s"] f(3) by (simp add: Un_absorb1)
  ultimately show ?thesis using f by simp
qed

theorem nak_work_bounded_witness:
  "lookup_steps (on_nak (Sender_new 7) \<lparr>nak_timestamp = 0, nak_dest_socket_id = 7, raw_loss_list = [0x80, 0, 0, 0, 0x7F, 255, 255, 255]\<rparr>)
     \<le> 2 + 2 ^ 16"
  using nak_work_bounded[of "Sender_new 7" 0
    "\<lparr>nak_timestamp = 0, nak_dest_socket_id = 7, raw_loss_list = [0x80, 0, 0, 0, 0x7F, 255, 255, 255]\<rparr>"]
  by (simp add: Sender_new_def)

end
