(* ===== verification/Srt_Recovery.thy ===== *)
theory Srt_Recovery
  imports Srt_Receiver_Spec Srt_Sender_Spec
begin

text \<open>
  The two halves of the SRT reliability engine together: one round of loss recovery over a channel
  that delivers the datagrams of that round. The receiver's timer fires, the sender hears what it
  sends, the sender's timer fires, and the receiver absorbs the retransmissions.
\<close>

section \<open>Dispatch at both ends\<close>

text \<open>A control datagram at the sender, as its connection dispatches it.\<close>

definition hear :: "Sender \<Rightarrow> bytes \<Rightarrow> duration \<Rightarrow> Sender" where
  "hear s d now =
     (case SrtPacket_parse d of
        Inr (Control (Nak n)) \<Rightarrow> on_nak s n
      | Inr (Control (Ack a)) \<Rightarrow> fst (on_ack s a now)
      | _ \<Rightarrow> s)"

fun hear_all :: "Sender \<Rightarrow> bytes list \<Rightarrow> duration \<Rightarrow> Sender" where
  "hear_all s [] now = s"
| "hear_all s (d # ds) now = hear_all (hear s d now) ds now"

text \<open>A data datagram at the receiver; the second result is what it delivers.\<close>

definition absorb :: "Receiver \<Rightarrow> bytes \<Rightarrow> duration \<Rightarrow> Receiver \<times> u32 list" where
  "absorb r d now =
     (case SrtPacket_parse d of
        Inr (Data p) \<Rightarrow> (case feed_data r (dp_seq_number p) now of (r', o') \<Rightarrow> (r', fo_delivered o'))
      | _ \<Rightarrow> (r, []))"

fun absorb_all :: "Receiver \<Rightarrow> bytes list \<Rightarrow> duration \<Rightarrow> Receiver \<times> u32 list" where
  "absorb_all r [] now = (r, [])"
| "absorb_all r (d # ds) now =
     (case absorb r d now of (r, out) \<Rightarrow> (case absorb_all r ds now of (r, out') \<Rightarrow> (r, out @ out')))"

lemma hear_all_append: "hear_all s (ds @ es) now = hear_all (hear_all s ds now) es now"
  by (induction ds arbitrary: s) simp_all

section \<open>The sender hears the receiver\<close>

text \<open>The packets from position \<open>k\<close> on are buffered and nothing is queued but \<open>P\<close>.\<close>

definition holding :: "u32 \<Rightarrow> submission list \<Rightarrow> nat \<Rightarrow> int set \<Rightarrow> Sender \<Rightarrow> bool" where
  "holding isn subs k P s \<longleftrightarrow> map view (s_buffer s) = numbered isn subs k \<and> k \<le> length subs \<and> length subs < k + 2 ^ 30 \<and>
     list_all sub_ok subs \<and> pending_retransmit s = sq isn ` P"

lemma holding_buffered: "holding isn subs k P s \<Longrightarrow> buffered isn (map int [k..<length subs]) s"
  by (rule numbered_buffered) (simp_all add: holding_def)

lemma hear_ack:
  assumes h: "holding isn subs k {} s" and d: "acknowledges (sq isn (int p)) d" and p: "k \<le> p" "p \<le> length subs"
  shows "holding isn subs p {} (hear s d now)"
proof -
  obtain a where a: "d = ctl_wire (Ack a)" "ack_seq (ack_cif a) = sq isn (int p)"
  proof -
    obtain a where "d = ctl_wire (Ack a)" and c: "case ack_cif a of Full l _ _ _ _ _ _ \<Rightarrow> l = sq isn (int p)
        | Light l \<Rightarrow> l = sq isn (int p) | Small _ _ _ _ \<Rightarrow> False"
      using d unfolding acknowledges_def by blast
    moreover have "ack_seq (ack_cif a) = sq isn (int p)" using c by (cases "ack_cif a") simp_all
    ultimately show ?thesis using that by blast
  qed
  have parse: "SrtPacket_parse d = Inr (Control (Ack a))" using SrtPacket_parse_wire[of "Control (Ack a)"] a(1) by simp
  note b = holding_buffered[OF h]
  have h': "map view (s_buffer s) = numbered isn subs k" "length subs < k + 2 ^ 30" "list_all sub_ok subs"
    "pending_retransmit s = {}" using h by (simp_all add: holding_def)
  obtain j e where j: "free_loop (ack_seq (ack_cif a)) (s_buffer s) (pending_retransmit s) =
      (drop j (s_buffer s), pending_retransmit s - sp_seq ` set (take j (s_buffer s)))"
    "fst (on_ack s a now) = s\<lparr>s_buffer := drop j (s_buffer s),
      pending_retransmit := pending_retransmit s - sp_seq ` set (take j (s_buffer s)), s_rtt := e\<rparr>"
    using on_ack_state[of s a now] by blast
  have near: "\<forall>n \<in> set (map int [k..<length subs]). \<bar>n - int p\<bar> < 2 ^ 30" using p h'(2) by auto
  have "filter (\<lambda>n. n < int p) (map int [k..<length subs]) = map int [k..<p]"
  proof -
    have "[k..<length subs] = [k..<p] @ [p..<length subs]" using p by (metis le_add_diff_inverse upt_add_eq_append)
    then have "filter (\<lambda>i. int i < int p) [k..<length subs] = [k..<p]" by (simp add: filter_empty_conv filter_id_conv)
    then show ?thesis by (simp add: filter_map comp_def)
  qed
  then have "length (filter (\<lambda>n. n < int p) (map int [k..<length subs])) = p - k" by simp
  then have "drop j (s_buffer s) = drop (p - k) (s_buffer s)"
    using free_loop_buffered[OF b near, of "pending_retransmit s"] j(1) a(2) by simp
  then have "map view (drop j (s_buffer s)) = numbered isn subs p"
    using h'(1) p(1) numbered_drop[of "p - k" isn subs k] by (simp add: drop_map[symmetric])
  then show ?thesis using h' p by (simp add: holding_def hear_def parse j(2))
qed

lemma hear_acks:
  assumes "holding isn subs k {} s" "list_all (acknowledges (sq isn (int p))) ds" "k \<le> p" "p \<le> length subs"
  shows "\<exists>k' \<le> p. holding isn subs k' {} (hear_all s ds now)"
  using assms
proof (induction ds arbitrary: k s)
  case (Cons d ds)
  have "holding isn subs p {} (hear s d now)" using Cons.prems by (intro hear_ack) simp_all
  then show ?case using Cons.IH[of p "hear s d now"] Cons.prems by auto
qed auto

text \<open>The positions a list of runs spells out.\<close>

abbreviation spelled :: "(int \<times> int) list \<Rightarrow> int list" where
  "spelled runs \<equiv> concat (map (\<lambda>(a, b). [a..b]) runs)"

lemma concat_eq_map: "concat cs = map f xs \<Longrightarrow> \<exists>xss. concat xss = xs \<and> cs = map (map f) xss"
proof (induction cs arbitrary: xs)
  case Nil
  then show ?case by (intro exI[of _ "[]"]) simp
next
  case (Cons c cs)
  define ys where "ys = take (length c) xs"
  define zs where "zs = drop (length c) xs"
  have "c = map f ys" "concat cs = map f zs"
    using Cons.prems unfolding ys_def zs_def take_map[symmetric] drop_map[symmetric] by (simp_all add: Cons.prems[symmetric])
  moreover obtain zss where "concat zss = zs" "cs = map (map f) zss" using Cons.IH[OF calculation(2)] by blast
  ultimately show ?case by (intro exI[of _ "ys # zss"]) (simp add: ys_def zs_def)
qed

lemma nak_cost_spelled:
  assumes "sorted_wrt (<) ns" "\<forall>(a, b) \<in> set runs. a \<le> b"
  shows "nak_cost ns runs \<le> length (spelled runs)"
  using assms(2)
proof (induction runs)
  case (Cons r runs)
  obtain a b where r: "r = (a, b)" by (cases r)
  have ab: "a \<le> b" using Cons.prems r by simp
  have "distinct ns" using assms(1) strict_sorted_iff by blast
  then have "length (filter (\<lambda>n. a \<le> n \<and> n \<le> b) ns) = card (set (filter (\<lambda>n. a \<le> n \<and> n \<le> b) ns))"
    by (intro distinct_card[symmetric] distinct_filter)
  also have "\<dots> \<le> card {a..b}" by (intro card_mono) auto
  finally have "length (filter (\<lambda>n. a \<le> n \<and> n \<le> b) ns) \<le> length [a..b]" by simp
  moreover have "1 \<le> length [a..b]" using ab by simp
  moreover have "nak_cost ns runs \<le> length (spelled runs)" using Cons by simp
  ultimately show ?case using r by (auto simp: nak_cost_def)
qed (simp add: nak_cost_def)

lemma hear_nak:
  assumes h: "holding isn subs k P s" and rs: "\<forall>(a, b) \<in> set rs. int k \<le> a \<and> a \<le> b \<and> b < int (length subs)"
    and cost: "length (spelled rs) \<le> 2 ^ 16"
  shows "holding isn subs k (P \<union> set (spelled rs)) (hear s (ctl_wire (Nak (nak_packet r now (map (run_entry isn) rs)))) now)"
proof -
  let ?c = "map (run_entry isn) rs" and ?ns = "map int [k..<length subs]"
  note b = holding_buffered[OF h]
  have ents: "loss_entries (raw_loss_list (nak_packet r now ?c)) = map (\<lambda>r. Inr (run_entry isn r)) rs"
    using nak_packet_entries[of ?c r now] by (simp add: list_all_iff comp_def)
  have "nak_cost ?ns rs \<le> length (spelled rs)" using rs b by (intro nak_cost_spelled) (auto simp: buffered_def)
  then have c: "nak_cost ?ns rs \<le> MAX_NAK_SEQS_PER_PACKET" using cost by (simp add: MAX_NAK_SEQS_PER_PACKET_def)
  have near: "\<forall>(a, b) \<in> set rs. a \<le> b \<and> (\<forall>n \<in> set ?ns. \<bar>n - a\<bar> < 2 ^ 30 \<and> \<bar>n - b\<bar> < 2 ^ 30)"
  proof (rule ballI, clarify)
    fix a b assume "(a, b) \<in> set rs"
    then have "int k \<le> a" "a \<le> b" "b < int (length subs)" using rs by auto
    moreover have "length subs < k + 2 ^ 30" using h by (simp add: holding_def)
    ultimately show "a \<le> b \<and> (\<forall>n \<in> set ?ns. \<bar>n - a\<bar> < 2 ^ 30 \<and> \<bar>n - b\<bar> < 2 ^ 30)" by auto
  qed
  obtain m where m: "on_nak s (nak_packet r now ?c) = s\<lparr>pending_retransmit := pending_retransmit s \<union>
      sq isn ` {n \<in> set ?ns. \<exists>(a, b) \<in> set rs. a \<le> n \<and> n \<le> b}, lookup_steps := m\<rparr>"
    using nak_loop_buffered[OF b near c] unfolding on_nak_def ents by blast
  have "{n \<in> set ?ns. \<exists>(a, b) \<in> set rs. a \<le> n \<and> n \<le> b} = set (spelled rs)"
  proof (intro equalityI subsetI)
    fix n assume "n \<in> set (spelled rs)"
    then obtain a b where ab: "(a, b) \<in> set rs" "a \<le> n" "n \<le> b" by auto
    then have "int k \<le> n" "n < int (length subs)" using rs by force+
    then have "n = int (nat n)" "nat n \<in> {k..<length subs}" by auto
    then have "n \<in> set ?ns" by (metis image_eqI list.set_map set_upt)
    then show "n \<in> {n \<in> set ?ns. \<exists>(a, b) \<in> set rs. a \<le> n \<and> n \<le> b}" using ab by auto
  qed auto
  then show ?thesis using h by (simp add: hear_def nak_packet_parse m holding_def image_Un)
qed

lemma hear_naks:
  assumes "holding isn subs k P s" "\<forall>rs \<in> set rss. \<forall>(a, b) \<in> set rs. int k \<le> a \<and> a \<le> b \<and> b < int (length subs)"
    "\<forall>rs \<in> set rss. length (spelled rs) \<le> 2 ^ 16"
  shows "holding isn subs k (P \<union> set (spelled (concat rss)))
    (hear_all s (map (\<lambda>c. ctl_wire (Nak (nak_packet r now c))) (map (map (run_entry isn)) rss)) now)"
  using assms
proof (induction rss arbitrary: P s)
  case (Cons rs rss)
  let ?s = "hear s (ctl_wire (Nak (nak_packet r now (map (run_entry isn) rs)))) now"
  have "holding isn subs k (P \<union> set (spelled rs)) ?s" using Cons.prems by (intro hear_nak) auto
  then have "holding isn subs k (P \<union> set (spelled rs) \<union> set (spelled (concat rss)))
      (hear_all ?s (map (\<lambda>c. ctl_wire (Nak (nak_packet r now c))) (map (map (run_entry isn)) rss)) now)"
    using Cons.prems by (intro Cons.IH) auto
  then show ?case by (simp add: Un_assoc)
qed simp

text \<open>The sender's tick after that: one retransmission per position.\<close>

lemma holding_tick:
  assumes h: "holding isn subs k (set ms) s" and ms: "sorted_wrt (<) ms" "\<forall>n \<in> set ms. int k \<le> n \<and> n < int (length subs)"
  shows "\<exists>s' xs. sender_tick s now = (s', map (\<lambda>n. data_wire (resent (s_dest_socket_id s) now (sq isn n) (xs n))) ms) \<and>
    pending_retransmit s' = {} \<and> (\<forall>n \<in> set ms. sub_ok (xs n))"
proof -
  let ?ns = "map int [k..<length subs]"
  note b = holding_buffered[OF h]
  have sub: "set ms \<subseteq> set ?ns"
  proof
    fix n assume "n \<in> set ms"
    then have "n = int (nat n)" "nat n \<in> {k..<length subs}" using ms(2) by auto
    then show "n \<in> set ?ns" by (metis image_eqI list.set_map set_upt)
  qed
  have P: "pending_retransmit s = sq isn ` set ms" using h by (simp add: holding_def)
  have mem: "sq isn n \<in> pending_retransmit s \<longleftrightarrow> n \<in> set ms" if "n \<in> set ?ns" for n
    unfolding P using buffered_inj[OF b that] sub by blast
  have "filter (\<lambda>n. sq isn n \<in> pending_retransmit s) ?ns = filter (\<lambda>n. n \<in> set ms) ?ns"
    using mem by (intro filter_cong) auto
  also have "\<dots> = ms"
  proof (rule sorted_distinct_set_unique)
    have "sorted_wrt (<) (filter (\<lambda>n. n \<in> set ms) ?ns)" using b by (intro sorted_wrt_filter) (simp add: buffered_def)
    then show "sorted (filter (\<lambda>n. n \<in> set ms) ?ns)" "distinct (filter (\<lambda>n. n \<in> set ms) ?ns)"
      using strict_sorted_iff by blast+
    show "sorted ms" "distinct ms" using ms(1) strict_sorted_iff by blast+
    show "set (filter (\<lambda>n. n \<in> set ms) ?ns) = set ms" using sub by auto
  qed
  finally have f: "filter (\<lambda>n. sq isn n \<in> pending_retransmit s) ?ns = ms" .
  have "pending_retransmit s \<subseteq> sq isn ` set ?ns" unfolding P using sub by blast
  then obtain buf m where t: "sender_tick s now = (s\<lparr>pending_retransmit := {}, s_buffer := buf, lookup_steps := m\<rparr>, resends isn s now ms)"
    using sender_tick_buffered[OF b, of now] unfolding f by blast
  have "sub_ok (the (map_of (map view (s_buffer s)) (sq isn n)))" if "n \<in> set ms" for n
  proof -
    have "n \<in> set ?ns" using that sub by blast
    then obtain i where i: "i < length ?ns" "?ns ! i = n" unfolding in_set_conv_nth by blast
    have "i < length (s_buffer s)" using i(1) buffered_length[OF b] by simp
    then have "sub_ok (snd (view (s_buffer s ! i)))" using b unfolding buffered_def by (metis nth_mem)
    then show ?thesis using buffered_map_of[OF b i(1)] unfolding i(2) by simp
  qed
  then show ?thesis unfolding t resends_def
    by (intro exI[of _ "s\<lparr>pending_retransmit := {}, s_buffer := buf, lookup_steps := m\<rparr>"]
        exI[of _ "\<lambda>n. the (map_of (map view (s_buffer s)) (sq isn n))"]) simp
qed

section \<open>The receiver absorbs the retransmissions\<close>

lemma absorb_resent:
  assumes "sub_ok x"
  shows "absorb r (data_wire (resent dest now' (sq isn n) x)) now =
    (case feed_data r (sq isn n) now of (r', o') \<Rightarrow> (r', fo_delivered o'))"
proof -
  let ?p = "resent dest now' (sq isn n) x"
  have "data_ok ?p" using assms by (intro resent_ok) simp_all
  then have "SrtPacket_parse (data_wire ?p) = Inr (Data ?p)" using SrtPacket_parse_wire[of "Data ?p"] by simp
  moreover have "dp_seq_number ?p = sq isn n" by (simp add: resent_def split: prod.split)
  ultimately show ?thesis by (simp add: absorb_def)
qed

lemma absorb_missing:
  assumes "reception isn window got r out" "srt_valid isn" "\<forall>n \<in> set ms. sub_ok (xs n)"
    "\<forall>n \<in> set ms. p0 \<le> n \<and> n \<le> p0 + int w" "0 \<le> p0" "w \<le> unat (r_window r)" "p0 \<le> int (length out)"
    "\<forall>n \<in> got. n \<le> p0 + int w"
  shows "\<exists>r' late. absorb_all r (map (\<lambda>n. data_wire (resent dest now (sq isn n) (xs n))) ms) now' = (r', late) \<and>
    reception isn window (got \<union> set ms) r' (out @ late)"
  using assms
proof (induction ms arbitrary: got r out)
  case Nil
  then show ?case by simp
next
  case (Cons n ms)
  note t = reception_tracks[OF Cons.prems(1,2)]
  have rc: "receives isn got (int (length out)) r" using t by (simp add: tracks_def)
  have win: "int w \<le> uint (r_window r)" "uint (r_window r) \<le> 2 ^ 18"
    using Cons.prems(6) window_le[of r] by (simp_all add: uint_nat del: of_nat_unat)
  have top: "int (length out) - 1 \<le> p0 + int w"
  proof (cases "got = {}")
    case True
    then have "int (length out) = 0" using rc by (auto simp: receives_def)
    then show ?thesis using Cons.prems(5) by simp
  next
    case False
    have "{0..<int (length out)} \<subseteq> got" using rc by (simp add: receives_def)
    then have "int (length out) = 0 \<or> int (length out) - 1 \<in> got" by (cases "length out") auto
    then show ?thesis using Cons.prems(5,8) by auto
  qed
  have n: "p0 \<le> n" "n \<le> p0 + int w" using Cons.prems(4) by simp_all
  have pl: "plausible (int (length out)) n" using n top win Cons.prems(5,7) by (simp add: plausible_def)
  obtain r1 o1 where f: "feed_data r (sq isn n) now' = (r1, o1)" by fastforce
  have nw: "\<not> n > int (length out) + uint (r_window r)" using n win Cons.prems(7) by simp
  have f1: "\<not> fo_out_of_window o1" "avail_buf_size r1 = avail_buf_size r"
    using feed_tracks[OF conjunct1[OF t] pl, of now'] nw f by (auto simp: same_timers_def)
  have r1: "reception isn window (insert n got) r1 (out @ fo_delivered o1)"
    using reception.arrival[OF Cons.prems(1) pl f] f1 by simp
  obtain r' late where "absorb_all r1 (map (\<lambda>n. data_wire (resent dest now (sq isn n) (xs n))) ms) now' = (r', late)"
    "reception isn window (insert n got \<union> set ms) r' ((out @ fo_delivered o1) @ late)"
    using Cons.IH[OF r1] Cons.prems(2-8) f1(2) n by (auto simp: r_window_def)
  moreover have "absorb r (data_wire (resent dest now (sq isn n) (xs n))) now' = (r1, fo_delivered o1)"
    using absorb_resent[of "xs n" r dest now isn n now'] Cons.prems(3) f by simp
  ultimately show ?case by simp
qed

section \<open>Property\<close>

text \<open>
  C4. One round recovers every loss. Take any run of the receiver and any run of the sender of the
  same stream, with nothing queued and nothing freed that the receiver still lacks, and a flow
  window below \<open>2^16\<close> packets. When a periodic report falls due and the datagrams of the round are
  delivered, the receiver ends with an empty loss list and an empty out-of-order set, the ack point
  is just past the highest position received, the stream delivered is complete up to there, and the
  sender has sent exactly one retransmission for each lost packet and has nothing queued.
\<close>

theorem one_round_recovers_all:
  assumes "reception isn window got r out" "sending isn subs s" "srt_valid isn" "unat window < 2 ^ 16"
    "got \<subseteq> {0..<int (length subs)}" "pending_retransmit s = {}" "length subs - length (s_buffer s) \<le> length out"
    "loss_list r \<noteq> {}" "nak_interval (est_rtt (r_rtt r)) (est_rtt_var (r_rtt r)) \<le> elapsed now (last_nak_at r)"
  shows "case receiver_tick r now of (r1, reports) \<Rightarrow>
    case sender_tick (hear_all s reports now) now of (s2, again) \<Rightarrow>
    case absorb_all r1 again now of (r2, late) \<Rightarrow>
      loss_list r2 = {} \<and> out_of_order r2 = {} \<and> ack_point r2 = sq isn (Max got + 1) \<and>
      out @ late = map (sq isn) [0..Max got] \<and> length again = loss_list_len r \<and> pending_retransmit s2 = {}"
proof -
  let ?p = "int (length out)" and ?ms = "missing got (int (length out))"
  have t: "tracks isn got ?p r" and w: "avail_buf_size r = window" using reception_tracks[OF assms(1,3)] by simp_all
  have rc: "receives isn got ?p r" using t by (simp add: tracks_def)
  note b = top_bounds[OF rc]
  have ne: "got \<noteq> {}" using assms(8) t by (auto simp: tracks_def top_pos_def)
  have top: "top_pos got = Max got" "Max got \<in> got" using ne rc Max_in by (auto simp: top_pos_def receives_def)
  have win: "unat (r_window r) < 2 ^ 16" using assms(4) w by (simp add: r_window_def min_def word_le_nat_alt split: if_splits)
  have ms: "n \<in> set ?ms \<Longrightarrow> ?p \<le> n \<and> n < Max got" for n
    using top by (cases "n = Max got") (auto simp: set_missing)
  have top_w: "Max got \<le> ?p + int (unat (r_window r))" using b(2) top(1) by simp
  have len_ms: "length ?ms \<le> 2 ^ 16"
  proof -
    have "length ?ms \<le> length [?p..top_pos got]" unfolding missing_def by (rule length_filter_le)
    moreover have "uint (r_window r) < 2 ^ 16" using win by (simp add: uint_nat del: of_nat_unat)
    ultimately show ?thesis using top_w top(1) by simp
  qed
  have top_sub: "Max got < int (length subs)" using assms(5) top(2) by auto
  \<comment> \<open>the report\<close>
  obtain cs runs where cs: "build_naks r (coalesce (lost_in_order r)) now = map (\<lambda>c. ctl_wire (Nak (nak_packet r now c))) cs"
    "concat cs = map (run_entry isn) runs" "spelled runs = ?ms" "\<forall>(a, b) \<in> set runs. a \<le> b \<and> b < a + 2 ^ 30"
    using periodic_report[OF t, of now] by blast
  obtain rss where rss: "concat rss = runs" "cs = map (map (run_entry isn)) rss" using concat_eq_map[OF cs(2)] by blast
  obtain acks where acks: "list_all (acknowledges (next_expected r)) acks"
    "snd (receiver_tick r now) = acks @ map (\<lambda>c. ctl_wire (Nak (nak_packet r now c))) cs"
    using receiver_tick_naks[of r now] assms(8,9) cs(1) by auto
  \<comment> \<open>the sender hears it\<close>
  obtain k where k: "k \<le> length subs" "map view (s_buffer s) = numbered isn subs k" "length subs < k + 2 ^ 30" "list_all sub_ok subs"
    using sending_state[OF assms(2)] by blast
  have "length (s_buffer s) = length subs - k" using arg_cong[OF k(2), of length] by (simp add: numbered_def)
  then have kp: "k \<le> length out" using assms(7) k(1) by simp
  have h0: "holding isn subs k {} s" using k assms(6) by (simp add: holding_def)
  have "?p \<le> int (length subs)" using b(1) top(1) top_sub by simp
  moreover have "next_expected r = sq isn ?p" using rc by (simp add: receives_def)
  ultimately obtain k' where k': "k' \<le> length out" "holding isn subs k' {} (hear_all s acks now)"
    using hear_acks[OF h0, of "length out" acks now] acks(1) kp by auto
  have runs_in: "int k' \<le> a \<and> a \<le> b \<and> b < int (length subs)" if ab: "(a, b) \<in> set runs" for a b
  proof -
    have "a \<le> b" using cs(4) ab by blast
    then have "a \<in> set (spelled runs)" "b \<in> set (spelled runs)" using ab by force+
    then have "?p \<le> a" "b < Max got" unfolding cs(3) using ms by blast+
    then show ?thesis using k'(1) top_sub \<open>a \<le> b\<close> by linarith
  qed
  have small: "length (spelled rs) \<le> 2 ^ 16" if q: "rs \<in> set rss" for rs
  proof -
    obtain xs ys where "rss = xs @ rs # ys" using split_list[OF q] by blast
    then have "spelled runs = spelled (concat xs) @ spelled rs @ spelled (concat ys)" unfolding rss(1)[symmetric] by simp
    then show ?thesis using len_ms cs(3) by (metis add_leD1 add_leD2 length_append)
  qed
  define s1 where "s1 = hear_all s (snd (receiver_tick r now)) now"
  have in_rss: "\<forall>rs \<in> set rss. \<forall>(a, b) \<in> set rs. int k' \<le> a \<and> a \<le> b \<and> b < int (length subs)"
  proof (intro ballI, clarify)
    fix rs a b assume "rs \<in> set rss" "(a, b) \<in> set rs"
    then have "(a, b) \<in> set runs" unfolding rss(1)[symmetric] by auto
    then show "int k' \<le> a \<and> a \<le> b \<and> b < int (length subs)" by (rule runs_in)
  qed
  have "holding isn subs k' ({} \<union> set (spelled (concat rss))) s1"
    unfolding s1_def acks(2) hear_all_append rss(2) using small in_rss by (intro hear_naks[OF k'(2)]) auto
  then have h1: "holding isn subs k' (set ?ms) s1" by (simp only: rss(1) cs(3) Un_empty_left)
  have ms_in: "\<forall>n \<in> set ?ms. int k' \<le> n \<and> n < int (length subs)" using ms k'(1) top_sub by force
  obtain s2 xs where s2: "sender_tick s1 now = (s2, map (\<lambda>n. data_wire (resent (s_dest_socket_id s1) now (sq isn n) (xs n))) ?ms)"
    "pending_retransmit s2 = {}" "\<forall>n \<in> set ?ms. sub_ok (xs n)" using holding_tick[OF h1 sorted_missing ms_in, of now] by blast
  \<comment> \<open>the receiver absorbs the retransmissions\<close>
  obtain r1 where r1: "receiver_tick r now = (r1, snd (receiver_tick r now))" "r1 = fst (receiver_tick r now)" by simp
  have rec1: "reception isn window got r1 out" unfolding r1(2) by (rule reception.timer[OF assms(1)])
  have "r_window r1 = r_window r" using receiver_tick_same[of r now] by (simp add: r1(2) r_window_def same_reliability_def)
  moreover have "\<forall>n \<in> got. n \<le> ?p + int (unat (r_window r))" using b(3) top top_w by force
  moreover have "\<forall>n \<in> set ?ms. ?p \<le> n \<and> n \<le> ?p + int (unat (r_window r))" using ms top_w by force
  ultimately obtain r2 late where a: "absorb_all r1 (map (\<lambda>n. data_wire (resent (s_dest_socket_id s1) now (sq isn n) (xs n))) ?ms) now = (r2, late)"
    "reception isn window (got \<union> set ?ms) r2 (out @ late)"
    using absorb_missing[OF rec1 assms(3) s2(3), of ?p "unat (r_window r)" "s_dest_socket_id s1" now now] by auto
  have all: "got \<union> set ?ms = {0..Max got}"
    using rc b(3) top by (auto simp: set_missing receives_def subset_iff)
  have t2: "tracks isn {0..Max got} (int (length (out @ late))) r2" "out @ late = map (sq isn) [0..int (length (out @ late)) - 1]"
    using reception_tracks[OF a(2) assms(3)] unfolding all by simp_all
  have "0 \<le> Max got" using top(2) rc by (auto simp: receives_def)
  have fin: "int (length (out @ late)) = Max got + 1"
  proof -
    let ?L = "int (length (out @ late))"
    have s: "{0..<?L} \<subseteq> {0..Max got}" and n: "?L \<notin> {0..Max got}"
      using t2(1) unfolding tracks_def receives_def by blast+
    have "Max got < ?L" using n \<open>0 \<le> Max got\<close> by simp
    then have "?L - 1 \<in> {0..<?L}" using \<open>0 \<le> Max got\<close> by simp
    then have "?L - 1 \<in> {0..Max got}" by (rule subsetD[OF s])
    then have "?L - 1 \<le> Max got" by (simp only: atLeastAtMost_iff)
    then show ?thesis using \<open>Max got < ?L\<close> by linarith
  qed
  have top2: "top_pos {0..Max got} = Max got" using \<open>0 \<le> Max got\<close> by (auto simp: top_pos_def intro: Max_eqI)
  have "loss_list r2 = {}" "out_of_order r2 = {}" "ack_point r2 = sq isn (Max got + 1)"
    using t2(1) unfolding fin by (auto simp: tracks_def receives_def ack_point_def top2)
  moreover have "out @ late = map (sq isn) [0..Max got]" using t2(2) unfolding fin by simp
  moreover have "length ?ms = loss_list_len r"
  proof -
    have "loss_list r = sq isn ` set ?ms" using t by (simp add: tracks_def set_missing)
    moreover have "inj_on (sq isn) (set ?ms)"
    proof (rule sq_inj_on)
      have "x < ?p + 2 ^ 30" if "x \<in> set ?ms" for x
        using ms[OF that] top_w window_le[of r] by simp
      then show "set ?ms \<subseteq> {?p..<?p + 2 ^ 30}" using ms by auto
    qed
    moreover have "distinct ?ms" using sorted_missing strict_sorted_iff by blast
    ultimately show ?thesis by (simp add: loss_list_len_def card_image distinct_card)
  qed
  ultimately show ?thesis
    using r1(1) s2(1,2) a(1) unfolding s1_def by (cases "receiver_tick r now") simp
qed

theorem one_round_recovers_all_witness:
  "\<exists>r s. reception 0x7FFFFFFF 8192 {1} r [] \<and> sending 0x7FFFFFFF [(0, [71], NotEncrypted), (1, [72], NotEncrypted)] s \<and>
     (case receiver_tick r 1000000000000 of (r1, reports) \<Rightarrow>
      case sender_tick (hear_all s reports 1000000000000) 1000000000000 of (s2, again) \<Rightarrow>
      case absorb_all r1 again 1000000000000 of (r2, late) \<Rightarrow>
        late = [0x7FFFFFFF, 0] \<and> length again = 1 \<and> loss_list r2 = {})"
proof -
  have v: "srt_valid 0x7FFFFFFF" by (simp add: srt_valid_def)
  have ok: "sub_ok (0, [71], NotEncrypted)" "sub_ok (1, [72], NotEncrypted)"
    by (simp_all add: sub_ok_def MESSAGE_NUMBER_MASK_def)
  obtain s1 d1 where s1: "on_data_keyed (Sender_new 7) (sq 0x7FFFFFFF 0) 0 [71] NotEncrypted 0 = Inr (s1, d1)"
    "length (s_buffer s1) = 1" "pending_retransmit s1 = {}"
    using on_data_keyed_fits[OF sq_valid ok(1), of "Sender_new 7" "0x7FFFFFFF" 0 0] by (auto simp: Sender_new_def)
  obtain s d2 where s2: "on_data_keyed s1 (sq 0x7FFFFFFF 1) 1 [72] NotEncrypted 0 = Inr (s, d2)"
    "length (s_buffer s) = 2" "pending_retransmit s = {}"
    using on_data_keyed_fits[OF sq_valid ok(2), of s1 "0x7FFFFFFF" 1 0] s1(2,3) by auto
  have "sending 0x7FFFFFFF ([] @ [(0, [71], NotEncrypted)]) s1"
    using s1(1) ok(1) by (intro sending.submit[OF sending.fresh[of _ 7]]) (simp_all add: Sender_new_def)
  then have r1: "sending 0x7FFFFFFF [(0, [71], NotEncrypted)] s1" by simp
  have "sending 0x7FFFFFFF ([(0, [71], NotEncrypted)] @ [(1, [72], NotEncrypted)]) s"
    using s2(1) s1(2) ok(2) by (intro sending.submit[OF r1]) simp_all
  then have snd: "sending 0x7FFFFFFF [(0, [71], NotEncrypted), (1, [72], NotEncrypted)] s" by simp
  obtain r where r: "reception 0x7FFFFFFF 8192 {1} r []" "loss_list r \<noteq> {}" "loss_list_len r = 1"
    "nak_interval (est_rtt (r_rtt r)) (est_rtt_var (r_rtt r)) \<le> elapsed 1000000000000 (last_nak_at r)"
    using first_packet_missing by blast
  obtain r1 reports where t1: "receiver_tick r 1000000000000 = (r1, reports)" by fastforce
  obtain s2 again where t2: "sender_tick (hear_all s reports 1000000000000) 1000000000000 = (s2, again)" by fastforce
  obtain r2 late where t3: "absorb_all r1 again 1000000000000 = (r2, late)" by fastforce
  have "loss_list r2 = {}" "[] @ late = map (sq 0x7FFFFFFF) [0..Max {1}]" "length again = loss_list_len r"
    using one_round_recovers_all[OF r(1) snd v _ _ s2(3) _ r(2,4)] s2(2) unfolding t1 t2 t3 prod.case
    by simp_all
  moreover have "sq 0x7FFFFFFF 0 = 0x7FFFFFFF" "sq 0x7FFFFFFF 1 = 0" by (simp_all add: sq_def)
  moreover have "[0..1 :: int] = [0, 1]" by (simp add: upto_rec1)
  ultimately show ?thesis using r(1,3) snd t1 t2 t3 by (intro exI[of _ r] exI[of _ s]) simp
qed

end
