(* ===== verification/Srt_Tsbpd.thy ===== *)
theory Srt_Tsbpd
  imports Srt_Receiver
begin

text \<open>
  Timestamp-based packet delivery with too-late drop (\<open>srt-runtime/src/tsbpd.rs\<close>): play times and
  drift, the unwrapping of the 32-bit timestamps, and the scheduler that releases packets in order.
\<close>

section \<open>State\<close>

definition DRIFT_SAMPLE_COUNT :: nat where "DRIFT_SAMPLE_COUNT = 1000"
definition DRIFT_MAX_US :: int where "DRIFT_MAX_US = 5000"
definition TSBPD_DELAY_MIN_MS :: nat where "TSBPD_DELAY_MIN_MS = 120"
definition MAX_TLPKT_SKIP_SPAN :: int where "MAX_TLPKT_SKIP_SPAN = 2 ^ 16"
definition MAX_SKIPS :: nat where "MAX_SKIPS = 1024"

text \<open>The \<open>u64\<close> values are \<open>nat\<close>; where the code saturates, so does the model.\<close>

definition sat_u64 :: "nat \<Rightarrow> nat" where "sat_u64 n = min n U64_MAX"

text \<open>\<open>i64::try_from(n).unwrap_or(i64::MAX)\<close>.\<close>

definition i64_of :: "nat \<Rightarrow> int" where
  "i64_of n = (if int n \<le> I64_MAX then int n else I64_MAX)"

definition duration_us :: "duration \<Rightarrow> nat" where
  "duration_us now = (if as_micros now \<le> U64_MAX then as_micros now else U64_MAX)"

record TickOutcome =
  to_delivered :: "u32 list"
  to_dropped :: "u32 list"

text \<open>The \<open>BTreeMap\<close> of play times is its association list in increasing key order.\<close>

record TsbpdScheduler =
  tsbpd_time_base :: int
  tsbpd_delay_ms :: nat
  drift_us :: int
  drift_sample_sum :: int
  drift_sample_count :: nat
  tlpktdrop_threshold_us :: nat
  tlpktdrop_enabled :: bool
  next_release :: u32
  tb_buffer :: "(u32 \<times> nat) list"
  highest_fed :: "u32 option"
  pending_skips :: "(u32 \<times> u32) list"
  ts_unwrap_reference :: "(u32 \<times> nat) option"

definition Tsbpd_new :: "u32 \<Rightarrow> int \<Rightarrow> nat \<Rightarrow> int \<Rightarrow> bool \<Rightarrow> nat option \<Rightarrow> TsbpdScheduler" where
  "Tsbpd_new initial_seq time_base delay_ms drift enabled threshold =
     (let delay_ms = max delay_ms TSBPD_DELAY_MIN_MS;
          threshold = (case threshold of Some t \<Rightarrow> t
                       | None \<Rightarrow> sat_u64 ((sat_u64 (delay_ms * 5) + 3) div 4 * 1000))
      in \<lparr>tsbpd_time_base = time_base, tsbpd_delay_ms = delay_ms, drift_us = drift,
          drift_sample_sum = 0, drift_sample_count = 0, tlpktdrop_threshold_us = threshold,
          tlpktdrop_enabled = enabled, next_release = initial_seq, tb_buffer = [], highest_fed = None,
          pending_skips = [], ts_unwrap_reference = None\<rparr>)"

section \<open>Play times\<close>

definition pkt_tsbpd_time :: "TsbpdScheduler \<Rightarrow> nat \<Rightarrow> nat" where
  "pkt_tsbpd_time t unwrapped =
     (let sum = sat64 (sat64 (sat64 (tsbpd_time_base t + i64_of unwrapped)
                              + i64_of (sat_u64 (tsbpd_delay_ms t * 1000)))
                       + drift_us t)
      in nat sum)"

text \<open>Rust's division truncates towards zero.\<close>

definition quot64 :: "int \<Rightarrow> int \<Rightarrow> int" where
  "quot64 a b = (if 0 \<le> a then a div b else - ((- a) div b))"

definition add_drift_sample :: "TsbpdScheduler \<Rightarrow> nat \<Rightarrow> nat \<Rightarrow> TsbpdScheduler" where
  "add_drift_sample t now_us unwrapped_ts =
     (let arrival = i64_of now_us;
          expected = sat64 (tsbpd_time_base t + i64_of unwrapped_ts);
          t = t\<lparr>drift_sample_sum := sat64 (drift_sample_sum t + sat64 (arrival - expected)),
                drift_sample_count := drift_sample_count t + 1\<rparr>
      in if drift_sample_count t < DRIFT_SAMPLE_COUNT then t
         else
           let average = quot64 (drift_sample_sum t) (int DRIFT_SAMPLE_COUNT);
               overdrift = (if average > DRIFT_MAX_US then average - DRIFT_MAX_US
                            else if average < - DRIFT_MAX_US then average + DRIFT_MAX_US else 0)
           in t\<lparr>drift_sample_sum := 0, drift_sample_count := 0,
                tsbpd_time_base := sat64 (tsbpd_time_base t + overdrift), drift_us := average - overdrift\<rparr>)"

definition unwrap_timestamp :: "TsbpdScheduler \<Rightarrow> u32 \<Rightarrow> TsbpdScheduler \<times> nat" where
  "unwrap_timestamp t raw =
     (case ts_unwrap_reference t of
        None \<Rightarrow> (t\<lparr>ts_unwrap_reference := Some (raw, unat raw)\<rparr>, unat raw)
      | Some (ref_raw, ref_abs) \<Rightarrow>
          let delta = uint raw - uint ref_raw;
              delta = (if delta < - (2 ^ 31) then delta + 2 ^ 32
                       else if delta \<ge> 2 ^ 31 then delta - 2 ^ 32 else delta);
              abs = nat (sat64 (i64_of ref_abs + delta))
          in (if abs > ref_abs then t\<lparr>ts_unwrap_reference := Some (raw, abs)\<rparr> else t, abs))"

section \<open>Releasing\<close>

definition map_remove :: "u32 \<Rightarrow> (u32 \<times> nat) list \<Rightarrow> (u32 \<times> nat) list" where
  "map_remove k m = filter (\<lambda>(k', _). k' \<noteq> k) m"

text \<open>\<open>buffer.range(next..).chain(buffer.range(..next)).next()\<close>.\<close>

definition next_avail :: "TsbpdScheduler \<Rightarrow> (u32 \<times> nat) option" where
  "next_avail t =
     (case filter (\<lambda>(k, _). next_release t \<le> k) (tb_buffer t) @ filter (\<lambda>(k, _). k < next_release t) (tb_buffer t) of
        [] \<Rightarrow> None | e # _ \<Rightarrow> Some e)"

text \<open>
  The loops of \<open>release_ready\<close>. Neither has a bound of its own: the first ends only if \<open>skip_to\<close> is
  in the sequence space, so that not returning is the value \<open>None\<close>.
\<close>

partial_function (option) walk :: "u32 \<Rightarrow> u32 \<Rightarrow> (u32 \<times> nat) list \<Rightarrow> u32 list \<Rightarrow> ((u32 \<times> nat) list \<times> u32 list) option" where
  "walk skip_to s buf dropped =
     (if s = skip_to then Some (buf, dropped)
      else walk skip_to (srt_seq_next s) (map_remove s buf) (dropped @ [s]))"

text \<open>\<open>now_us.saturating_sub(threshold)\<close>.\<close>

definition drop_before :: "TsbpdScheduler \<Rightarrow> nat \<Rightarrow> nat" where
  "drop_before t now_us = now_us - tlpktdrop_threshold_us t"

partial_function (option) release_loop ::
  "nat \<Rightarrow> TsbpdScheduler \<Rightarrow> u32 list \<Rightarrow> u32 list \<Rightarrow> (TsbpdScheduler \<times> u32 list \<times> u32 list) option" where
  "release_loop now_us t delivered dropped =
     (case map_of (tb_buffer t) (next_release t) of
        Some tsbpd_time \<Rightarrow>
          if now_us < tsbpd_time then Some (t, delivered, dropped)
          else if tlpktdrop_enabled t \<and> tsbpd_time < drop_before t now_us
          then release_loop now_us
                 (t\<lparr>tb_buffer := map_remove (next_release t) (tb_buffer t), next_release := srt_seq_next (next_release t)\<rparr>)
                 delivered (dropped @ [next_release t])
          else release_loop now_us
                 (t\<lparr>tb_buffer := map_remove (next_release t) (tb_buffer t), next_release := srt_seq_next (next_release t)\<rparr>)
                 (delivered @ [next_release t]) dropped
      | None \<Rightarrow>
          (case position (\<lambda>(f, l). srt_seq_in_closed_range (next_release t) f l) (pending_skips t) of
             Some pos \<Rightarrow>
               release_loop now_us
                 (t\<lparr>pending_skips := remove_at pos (pending_skips t), next_release := srt_seq_next (snd (pending_skips t ! pos))\<rparr>)
                 delivered dropped
           | None \<Rightarrow>
               if \<not> tlpktdrop_enabled t then Some (t, delivered, dropped)
               else (case next_avail t of
                       None \<Rightarrow> Some (t, delivered, dropped)
                     | Some (skip_to, skip_time) \<Rightarrow>
                         if now_us < skip_time then Some (t, delivered, dropped)
                         else if \<not> (0 \<le> srt_seq_diff skip_to (next_release t) \<and>
                                    srt_seq_diff skip_to (next_release t) \<le> MAX_TLPKT_SKIP_SPAN)
                         then Some (t, delivered, dropped)
                         else Option.bind (walk skip_to (next_release t) (tb_buffer t) dropped)
                                (\<lambda>(buf, dropped). release_loop now_us (t\<lparr>tb_buffer := buf, next_release := skip_to\<rparr>)
                                   delivered dropped))))"

definition release_ready :: "TsbpdScheduler \<Rightarrow> nat \<Rightarrow> (TsbpdScheduler \<times> u32 list \<times> u32 list) option" where
  "release_ready t now_us = release_loop now_us t [] []"

section \<open>Operations\<close>

text \<open>The drift bookkeeping at the start of \<open>feed_data\<close>.\<close>

definition track_highest :: "TsbpdScheduler \<Rightarrow> u32 \<Rightarrow> nat \<Rightarrow> nat \<Rightarrow> TsbpdScheduler" where
  "track_highest t seq_number now_us unwrapped_ts =
     (case highest_fed t of
        None \<Rightarrow> add_drift_sample (t\<lparr>highest_fed := Some seq_number\<rparr>) now_us unwrapped_ts
      | Some h \<Rightarrow>
          if srt_seq_gt seq_number h
          then let t = (if seq_number = srt_seq_next h then add_drift_sample t now_us unwrapped_ts else t)
               in t\<lparr>highest_fed := Some seq_number\<rparr>
          else t)"

definition tsbpd_feed_data :: "TsbpdScheduler \<Rightarrow> u32 \<Rightarrow> u32 \<Rightarrow> duration \<Rightarrow> (TsbpdScheduler \<times> TickOutcome) option" where
  "tsbpd_feed_data t seq_number pkt_timestamp now =
     (let now_us = duration_us now;
          (t, unwrapped_ts) = unwrap_timestamp t pkt_timestamp;
          t = track_highest t seq_number now_us unwrapped_ts;
          time = pkt_tsbpd_time t unwrapped_ts
      in if tlpktdrop_enabled t \<and> time < drop_before t now_us
         then let dropped = [seq_number];
                  t = (if seq_number = next_release t then t\<lparr>next_release := srt_seq_next seq_number\<rparr> else t);
                  t = t\<lparr>tb_buffer := map_remove seq_number (tb_buffer t)\<rparr>
              in map_option (\<lambda>(t, delivered, later_dropped).
                   (t, \<lparr>to_delivered = delivered, to_dropped = dropped @ later_dropped\<rparr>)) (release_ready t now_us)
         else let t = (if \<not> srt_seq_lt seq_number (next_release t)
                       then t\<lparr>tb_buffer := map_insert seq_number time (tb_buffer t)\<rparr> else t)
              in map_option (\<lambda>(t, delivered, dropped). (t, \<lparr>to_delivered = delivered, to_dropped = dropped\<rparr>))
                   (release_ready t now_us))"

definition tsbpd_tick :: "TsbpdScheduler \<Rightarrow> duration \<Rightarrow> (TsbpdScheduler \<times> TickOutcome) option" where
  "tsbpd_tick t now =
     map_option (\<lambda>(t, delivered, dropped). (t, \<lparr>to_delivered = delivered, to_dropped = dropped\<rparr>))
       (release_ready t (duration_us now))"

definition next_release_after :: "TsbpdScheduler \<Rightarrow> duration \<Rightarrow> duration option" where
  "next_release_after t now =
     (case filter (\<lambda>x. duration_us now < x) (map snd (tb_buffer t)) of
        [] \<Rightarrow> None | x # xs \<Rightarrow> Some (from_micros (fold min xs x)))"

definition tsbpd_skip_range :: "TsbpdScheduler \<Rightarrow> u32 \<Rightarrow> u32 \<Rightarrow> TsbpdScheduler" where
  "tsbpd_skip_range t f l =
     (if srt_seq_diff l f < 0 then t
      else
        let t = t\<lparr>tb_buffer := filter (\<lambda>(s, _). \<not> srt_seq_in_closed_range s f l) (tb_buffer t)\<rparr>;
            t = t\<lparr>pending_skips := filter (\<lambda>(_, l). \<not> srt_seq_lt l (next_release t)) (pending_skips t)\<rparr>
        in if srt_seq_in_closed_range (next_release t) f l then t\<lparr>next_release := srt_seq_next l\<rparr>
           else if srt_seq_lt (next_release t) f \<and> length (pending_skips t) < MAX_SKIPS
           then t\<lparr>pending_skips := pending_skips t @ [(f, l)]\<rparr>
           else t)"

definition tsbpd_buffered_count :: "TsbpdScheduler \<Rightarrow> nat" where
  "tsbpd_buffered_count t = length (tb_buffer t)"

definition has_gap :: "TsbpdScheduler \<Rightarrow> bool" where
  "has_gap t = (map_of (tb_buffer t) (next_release t) = None)"

end
