(* ===== verification/Srt_Tsbpd_Spec.thy ===== *)
theory Srt_Tsbpd_Spec
  imports Srt_Tsbpd
begin

text \<open>
  The play-out scheduler in terms of stream positions: every call returns, the cursor only moves
  forward, what a call releases and drops partitions the positions it passes, and the stream handed
  to the application is strictly increasing in every run.
\<close>

section \<open>The map of play times\<close>

lemma map_of_remove: "map_of (map_remove k m) = (map_of m)(k := None)"
  by (induction m) (auto simp: map_remove_def fun_eq_iff)

lemma map_remove_shorter: "map_of m k = Some v \<Longrightarrow> length (map_remove k m) < length m"
proof -
  assume "map_of m k = Some v"
  then have "(k, v) \<in> set m" by (rule map_of_SomeD)
  then show ?thesis unfolding map_remove_def by (intro length_filter_less) auto
qed

lemma set_map_remove: "set (map_remove k m) \<subseteq> set m"
  by (auto simp: map_remove_def)

lemma map_of_map_insert: "map_of (map_insert k v m) = (map_of m)(k \<mapsto> v)"
  by (induction k v m rule: map_insert.induct) (auto simp: fun_eq_iff)

lemma set_map_insert: "set (map_insert k v m) \<subseteq> insert (k, v) (set m)"
  by (induction k v m rule: map_insert.induct) auto

section \<open>The walk over a gap\<close>

lemma walk_positions:
  assumes "c \<le> e" "e - c < 2 ^ 31"
  shows "walk (sq isn e) (sq isn c) buf dropped =
    Some (filter (\<lambda>(k, _). k \<notin> sq isn ` {c..<e}) buf, dropped @ map (sq isn) [c..e - 1])"
  using assms
proof (induction "nat (e - c)" arbitrary: c buf dropped)
  case 0
  then have "c = e" by simp
  then show ?case by (subst walk.simps) (simp add: case_prod_beta)
next
  case (Suc m)
  have ne: "sq isn c \<noteq> sq isn e" using Suc.hyps(2) Suc.prems by (subst sq_inject) auto
  have up: "[c..e - 1] = c # [c + 1..e - 1]" using Suc.hyps(2) by (intro upto_rec1) simp
  have "{c..<e} = insert c {c + 1..<e}" using Suc.hyps(2) by auto
  then have f: "filter (\<lambda>(k, _). k \<notin> sq isn ` {c + 1..<e}) (map_remove (sq isn c) buf) = filter (\<lambda>(k, _). k \<notin> sq isn ` {c..<e}) buf"
    by (auto simp: map_remove_def intro!: filter_cong)
  have "walk (sq isn e) (sq isn c) buf dropped = walk (sq isn e) (sq isn (c + 1)) (map_remove (sq isn c) buf) (dropped @ [sq isn c])"
    using ne by (subst walk.simps) (simp add: sq_next)
  also have "\<dots> = Some (filter (\<lambda>(k, _). k \<notin> sq isn ` {c + 1..<e}) (map_remove (sq isn c) buf), (dropped @ [sq isn c]) @ map (sq isn) [c + 1..e - 1])"
    using Suc.hyps(2) Suc.prems by (intro Suc.hyps(1)) auto
  finally show ?case unfolding f up by simp
qed

text \<open>The walk only reaches numbers of the sequence space: towards any other it does not end.\<close>

lemma walk_ends_valid:
  assumes "walk k s buf dropped = Some r"
  shows "srt_valid s \<longrightarrow> srt_valid k"
proof (rule walk.raw_induct[OF _ assms, where P = "\<lambda>k s _ _ _. srt_valid s \<longrightarrow> srt_valid k"], intro impI)
  fix walk_rec :: "u32 \<Rightarrow> u32 \<Rightarrow> (u32 \<times> nat) list \<Rightarrow> u32 list \<Rightarrow> ((u32 \<times> nat) list \<times> u32 list) option"
  fix k s buf dropped r
  assume IH: "\<And>k s buf dropped r. walk_rec k s buf dropped = Some r \<Longrightarrow> srt_valid s \<longrightarrow> srt_valid k"
    and step: "(if s = k then Some (buf, dropped) else walk_rec k (srt_seq_next s) (map_remove s buf) (dropped @ [s])) = Some r"
    and s: "srt_valid s"
  show "srt_valid k"
  proof (cases "s = k")
    case False
    have "srt_valid (srt_seq_next s)" using s by (metis sq_0 sq_next sq_valid)
    then show ?thesis using IH[of k "srt_seq_next s"] step False by auto
  qed (use s in simp)
qed

lemma walk_stuck: "srt_valid s \<Longrightarrow> \<not> srt_valid k \<Longrightarrow> walk k s buf dropped = None"
  using walk_ends_valid[of k s buf dropped] by (cases "walk k s buf dropped") auto

section \<open>What one call releases\<close>

definition tb_valid :: "TsbpdScheduler \<Rightarrow> bool" where
  "tb_valid t \<longleftrightarrow> (\<forall>(k, _) \<in> set (tb_buffer t). srt_valid k) \<and>
     (\<forall>(f, l) \<in> set (pending_skips t). srt_valid f \<and> srt_valid l)"

text \<open>Why the loop stops.\<close>

definition waiting :: "nat \<Rightarrow> TsbpdScheduler \<Rightarrow> bool" where
  "waiting now_us t \<longleftrightarrow>
     (case map_of (tb_buffer t) (next_release t) of
        Some time \<Rightarrow> now_us < time
      | None \<Rightarrow> (\<forall>(f, l) \<in> set (pending_skips t). \<not> srt_seq_in_closed_range (next_release t) f l) \<and>
          (\<not> tlpktdrop_enabled t \<or>
           (case next_avail t of None \<Rightarrow> True
            | Some (k, time) \<Rightarrow> now_us < time \<or> srt_seq_diff k (next_release t) \<notin> {0..MAX_TLPKT_SKIP_SPAN})))"

text \<open>Every number the scheduler holds stands in the stretch from \<open>lo\<close> to \<open>hi\<close> of the stream.\<close>

definition within_stretch :: "u32 \<Rightarrow> int \<Rightarrow> int \<Rightarrow> TsbpdScheduler \<Rightarrow> int \<Rightarrow> bool" where
  "within_stretch isn lo hi t c \<longleftrightarrow> lo \<le> c \<and> c \<le> hi \<and> hi - lo < 2 ^ 30 \<and>
     (\<forall>(k, _) \<in> set (tb_buffer t). k \<in> sq isn ` {lo..<hi}) \<and>
     (\<forall>(_, l) \<in> set (pending_skips t). l \<in> sq isn ` {lo..<hi})"

text \<open>
  \<open>released isn now_us t c t' c' D X\<close>: the cursor moves from position \<open>c\<close> to \<open>c'\<close>, releasing the
  positions \<open>D\<close> and dropping the positions \<open>X\<close>.
\<close>

definition released :: "u32 \<Rightarrow> nat \<Rightarrow> TsbpdScheduler \<Rightarrow> int \<Rightarrow> TsbpdScheduler \<Rightarrow> int \<Rightarrow> int list \<Rightarrow> int list \<Rightarrow> bool" where
  "released isn now_us t c t' c' D X \<longleftrightarrow>
     c \<le> c' \<and> next_release t' = sq isn c' \<and>
     sorted_wrt (<) D \<and> sorted_wrt (<) X \<and> set D \<union> set X \<subseteq> {c..<c'} \<and> set D \<inter> set X = {} \<and>
     (\<forall>n \<in> set D. \<exists>time. map_of (tb_buffer t) (sq isn n) = Some time \<and> time \<le> now_us \<and>
        (tlpktdrop_enabled t \<longrightarrow> drop_before t now_us \<le> time)) \<and>
     (\<forall>n \<in> set D \<union> set X. map_of (tb_buffer t') (sq isn n) = None) \<and>
     (\<forall>lo hi. within_stretch isn lo hi t c \<longrightarrow> c' \<le> hi) \<and>
     (X \<noteq> [] \<longrightarrow> tlpktdrop_enabled t) \<and>
     (\<forall>n \<in> {c..<c'} - set D - set X. \<exists>(f, l) \<in> set (pending_skips t). srt_seq_in_closed_range (sq isn n) f l) \<and>
     map_of (tb_buffer t') \<subseteq>\<^sub>m map_of (tb_buffer t) \<and> set (tb_buffer t') \<subseteq> set (tb_buffer t) \<and>
     set (pending_skips t') \<subseteq> set (pending_skips t) \<and> length (pending_skips t') \<le> length (pending_skips t) \<and>
     (\<exists>buf nx sk. t' = t\<lparr>tb_buffer := buf, next_release := nx, pending_skips := sk\<rparr>)"

lemma stretch_end:
  "sq isn e \<in> sq isn ` {lo..<hi} \<Longrightarrow> lo \<le> e \<Longrightarrow> e - lo < 2 ^ 31 \<Longrightarrow> hi - lo < 2 ^ 30 \<Longrightarrow> e < hi"
proof -
  assume e: "sq isn e \<in> sq isn ` {lo..<hi}" "lo \<le> e" "e - lo < 2 ^ 31" "hi - lo < 2 ^ 30"
  then obtain p where "p \<in> {lo..<hi}" "sq isn e = sq isn p" by blast
  then show "e < hi" using e by (subst (asm) sq_inject) auto
qed

lemma stretch_key:
  assumes w: "within_stretch isn lo hi t c" and k: "(sq isn e, time) \<in> set (tb_buffer t)" and e: "c \<le> e" "e - c \<le> 2 ^ 30"
  shows "e < hi"
proof (rule stretch_end)
  show "sq isn e \<in> sq isn ` {lo..<hi}" using w k by (auto simp: within_stretch_def)
  show "lo \<le> e" "e - lo < 2 ^ 31" "hi - lo < 2 ^ 30" using w e by (auto simp: within_stretch_def)
qed

lemma stretch_skip:
  assumes w: "within_stretch isn lo hi t c" and k: "(f, sq isn e) \<in> set (pending_skips t)" and e: "c \<le> e" "e - c \<le> 2 ^ 30"
  shows "e < hi"
proof (rule stretch_end)
  show "sq isn e \<in> sq isn ` {lo..<hi}" using w k by (auto simp: within_stretch_def)
  show "lo \<le> e" "e - lo < 2 ^ 31" "hi - lo < 2 ^ 30" using w e by (auto simp: within_stretch_def)
qed

lemma released_refl: "next_release t = sq isn c \<Longrightarrow> released isn now_us t c t c [] []"
  by (auto simp: released_def within_stretch_def intro!: exI[of _ "tb_buffer t"] exI[of _ "next_release t"] exI[of _ "pending_skips t"])

text \<open>One turn of the loop, followed by the rest.\<close>

lemma released_step:
  assumes r: "released isn now_us t1 c1 t' c' D X" and c: "c \<le> c1"
    and t1: "t1 = t\<lparr>tb_buffer := buf, next_release := nx, pending_skips := sk\<rparr>"
    and buf: "map_of buf \<subseteq>\<^sub>m map_of (tb_buffer t)" "set buf \<subseteq> set (tb_buffer t)"
    and sk: "set sk \<subseteq> set (pending_skips t)" "length sk \<le> length (pending_skips t)"
    and D0: "sorted_wrt (<) D0" "sorted_wrt (<) X0" "set D0 \<union> set X0 \<subseteq> {c..<c1}" "set D0 \<inter> set X0 = {}"
    and D0': "\<forall>n \<in> set D0. \<exists>time. map_of (tb_buffer t) (sq isn n) = Some time \<and> time \<le> now_us \<and>
        (tlpktdrop_enabled t \<longrightarrow> drop_before t now_us \<le> time)"
    and gone: "\<forall>n \<in> set D0 \<union> set X0. map_of buf (sq isn n) = None"
    and hi: "\<And>lo hi. within_stretch isn lo hi t c \<Longrightarrow> c1 \<le> hi"
    and X0: "X0 \<noteq> [] \<longrightarrow> tlpktdrop_enabled t"
    and rest: "\<forall>n \<in> {c..<c1} - set D0 - set X0. \<exists>(f, l) \<in> set (pending_skips t). srt_seq_in_closed_range (sq isn n) f l"
  shows "released isn now_us t c t' c' (D0 @ D) (X0 @ X)"
proof -
  note R = r[unfolded released_def]
  have en: "tlpktdrop_enabled t1 = tlpktdrop_enabled t" "drop_before t1 now_us = drop_before t now_us"
    by (simp_all add: t1 drop_before_def)
  have bnds: "set D \<union> set X \<subseteq> {c1..<c'}" "c1 \<le> c'" using R by simp_all
  have sorted: "sorted_wrt (<) (D0 @ D)" "sorted_wrt (<) (X0 @ X)"
  proof -
    have "\<forall>x \<in> set D0 \<union> set X0. x < c1" using D0(3) by force
    moreover have "\<forall>y \<in> set D \<union> set X. c1 \<le> y" using bnds(1) by force
    ultimately have "x < y" if "x \<in> set D0 \<union> set X0" "y \<in> set D \<union> set X" for x y
      using that by (meson order_less_le_trans)
    then show "sorted_wrt (<) (D0 @ D)" "sorted_wrt (<) (X0 @ X)" using D0(1,2) R by (simp_all add: sorted_wrt_append)
  qed
  have sub: "set (D0 @ D) \<union> set (X0 @ X) \<subseteq> {c..<c'}" using D0(3) bnds c by force
  have disj: "set (D0 @ D) \<inter> set (X0 @ X) = {}"
  proof -
    have "set D0 \<inter> set X = {}" "set D \<inter> set X0 = {}" using D0(3) bnds(1) by force+
    then show ?thesis using D0(4) R by auto
  qed
  have dl: "\<forall>n \<in> set (D0 @ D). \<exists>time. map_of (tb_buffer t) (sq isn n) = Some time \<and> time \<le> now_us \<and>
        (tlpktdrop_enabled t \<longrightarrow> drop_before t now_us \<le> time)"
  proof
    fix n assume n: "n \<in> set (D0 @ D)"
    show "\<exists>time. map_of (tb_buffer t) (sq isn n) = Some time \<and> time \<le> now_us \<and> (tlpktdrop_enabled t \<longrightarrow> drop_before t now_us \<le> time)"
    proof (cases "n \<in> set D0")
      case True
      then show ?thesis using D0' by blast
    next
      case False
      then have "n \<in> set D" using n by simp
      then obtain time where "map_of buf (sq isn n) = Some time" "time \<le> now_us" "tlpktdrop_enabled t \<longrightarrow> drop_before t now_us \<le> time"
        using R unfolding en by (auto simp: t1)
      then show ?thesis using buf(1) by (auto simp: map_le_def dom_def)
    qed
  qed
  have gaps: "\<forall>n \<in> {c..<c'} - set (D0 @ D) - set (X0 @ X). \<exists>(f, l) \<in> set (pending_skips t). srt_seq_in_closed_range (sq isn n) f l"
  proof
    fix n assume n: "n \<in> {c..<c'} - set (D0 @ D) - set (X0 @ X)"
    show "\<exists>(f, l) \<in> set (pending_skips t). srt_seq_in_closed_range (sq isn n) f l"
    proof (cases "n < c1")
      case True
      then show ?thesis using n rest by auto
    next
      case False
      then have "n \<in> {c1..<c'} - set D - set X" using n by auto
      moreover have "\<forall>n \<in> {c1..<c'} - set D - set X. \<exists>(f, l) \<in> set (pending_skips t1). srt_seq_in_closed_range (sq isn n) f l"
        using R by simp
      moreover have "pending_skips t1 = sk" by (simp add: t1)
      ultimately have "\<exists>(f, l) \<in> set sk. srt_seq_in_closed_range (sq isn n) f l" by simp
      then show ?thesis using sk(1) by blast
    qed
  qed
  have mono: "map_of (tb_buffer t') \<subseteq>\<^sub>m map_of (tb_buffer t)" "set (tb_buffer t') \<subseteq> set (tb_buffer t)"
    "set (pending_skips t') \<subseteq> set (pending_skips t)" "length (pending_skips t') \<le> length (pending_skips t)"
  proof -
    have "map_of (tb_buffer t') \<subseteq>\<^sub>m map_of buf" "set (tb_buffer t') \<subseteq> set buf"
      "set (pending_skips t') \<subseteq> set sk" "length (pending_skips t') \<le> length sk" using R by (simp_all add: t1)
    then show "map_of (tb_buffer t') \<subseteq>\<^sub>m map_of (tb_buffer t)" "set (tb_buffer t') \<subseteq> set (tb_buffer t)"
      "set (pending_skips t') \<subseteq> set (pending_skips t)" "length (pending_skips t') \<le> length (pending_skips t)"
      using buf sk by (auto intro: map_le_trans)
  qed
  have left: "\<forall>n \<in> set (D0 @ D) \<union> set (X0 @ X). map_of (tb_buffer t') (sq isn n) = None"
  proof
    fix n assume n: "n \<in> set (D0 @ D) \<union> set (X0 @ X)"
    show "map_of (tb_buffer t') (sq isn n) = None"
    proof (cases "n \<in> set D0 \<union> set X0")
      case True
      then have "map_of (tb_buffer t1) (sq isn n) = None" using gone by (simp add: t1)
      moreover have "map_of (tb_buffer t') \<subseteq>\<^sub>m map_of (tb_buffer t1)" using R by simp
      ultimately show ?thesis by (metis domIff map_le_def)
    next
      case False
      then have "n \<in> set D \<union> set X" using n by auto
      moreover have "\<forall>n \<in> set D \<union> set X. map_of (tb_buffer t') (sq isn n) = None" using R by simp
      ultimately show ?thesis by blast
    qed
  qed
  have bound: "\<forall>lo hi. within_stretch isn lo hi t c \<longrightarrow> c' \<le> hi"
  proof (intro allI impI)
    fix lo top assume w: "within_stretch isn lo top t c"
    then have "within_stretch isn lo top t1 c1"
      using hi[OF w] c buf(2) sk(1) unfolding within_stretch_def t1 by auto
    then show "c' \<le> top" using R by blast
  qed
  obtain b2 n2 s2 where "t' = t1\<lparr>tb_buffer := b2, next_release := n2, pending_skips := s2\<rparr>" using R by blast
  then have "t' = t\<lparr>tb_buffer := b2, next_release := n2, pending_skips := s2\<rparr>" by (simp add: t1)
  then have upd: "\<exists>buf nx sk. t' = t\<lparr>tb_buffer := buf, next_release := nx, pending_skips := sk\<rparr>" by blast
  have "X0 @ X \<noteq> [] \<longrightarrow> tlpktdrop_enabled t" using X0 R en by auto
  then show ?thesis unfolding released_def using sorted sub disj dl gaps left bound mono upd R bnds c by auto
qed

lemma skip_jump:
  assumes "srt_valid f" "srt_valid l" "srt_seq_in_closed_range (sq isn c) f l"
  shows "\<exists>c1 > c. srt_seq_next l = sq isn c1 \<and> l = sq isn (c1 - 1) \<and> c1 - 1 - c \<le> 2 ^ 30 \<and> (\<forall>n \<in> {c..<c1}. srt_seq_in_closed_range (sq isn n) f l)"
proof -
  define span where "span = srt_seq_diff l f"
  define off where "off = srt_seq_diff (sq isn c) f"
  have r: "0 \<le> span" "0 \<le> off" "off \<le> span"
    using assms(3) by (auto simp: srt_seq_in_closed_range_def seq_in_closed_range_def span_def off_def
        srt_seq_diff_def[symmetric] Let_def split: if_splits)
  have half: "span \<le> 2 ^ 30" using srt.diff_range[OF assms(2,1)] by (simp add: span_def)
  have l: "l = sq f span" unfolding span_def using sq_near[OF assms(2,1)] .
  have b: "sq isn c = sq f off" unfolding off_def by (rule sq_near) (simp_all add: assms(1))
  have at: "sq isn (c + i) = sq f (off + i)" for i unfolding sq_shift[symmetric] b ..
  have nx: "srt_seq_next l = sq isn (c + (span - off + 1))" unfolding at l sq_next by (simp add: algebra_simps)
  have "srt_seq_in_closed_range (sq isn n) f l" if n: "n \<in> {c..<c + (span - off + 1)}" for n
  proof -
    have d: "srt_seq_diff (sq isn n) f = off + (n - c)"
    proof -
      have "srt_seq_diff (sq f (off + (n - c))) (sq f 0) = off + (n - c) - 0"
        using n r half by (intro sq_diff) auto
      then show ?thesis using at[of "n - c"] assms(1) by simp
    qed
    then show ?thesis using n r by (simp add: srt_seq_in_closed_range_def seq_in_closed_range_def
        srt_seq_diff_def[symmetric] Let_def span_def[symmetric])
  qed
  moreover have "l = sq isn (c + (span - off + 1) - 1)" using at[of "span - off"] l by (simp add: algebra_simps)
  ultimately show ?thesis using nx r half by (intro exI[of _ "c + (span - off + 1)"]) auto
qed

definition loop_measure :: "TsbpdScheduler \<Rightarrow> nat" where
  "loop_measure t = 2 * length (tb_buffer t) + length (pending_skips t) +
     (if map_of (tb_buffer t) (next_release t) = None then 1 else 0)"

text \<open>The buffered packet at the cursor leaves, released or dropped.\<close>

lemma release_head:
  assumes "map_of (tb_buffer t) (next_release t) = Some time" "tb_valid t" "next_release t = sq isn c"
  defines "t1 \<equiv> t\<lparr>tb_buffer := map_remove (next_release t) (tb_buffer t), next_release := srt_seq_next (next_release t)\<rparr>"
  shows "tb_valid t1" "next_release t1 = sq isn (c + 1)" "loop_measure t1 < loop_measure t"
    "t1 = t\<lparr>tb_buffer := map_remove (next_release t) (tb_buffer t), next_release := srt_seq_next (next_release t),
       pending_skips := pending_skips t\<rparr>"
proof -
  show "tb_valid t1" using assms(2) set_map_remove[of "next_release t" "tb_buffer t"] by (auto simp: tb_valid_def t1_def)
  show "next_release t1 = sq isn (c + 1)" by (simp add: t1_def assms(3) sq_next)
  show "loop_measure t1 < loop_measure t"
    using map_remove_shorter[OF assms(1)] assms(1) by (simp add: loop_measure_def t1_def)
qed (simp add: t1_def)

lemma map_le_remove: "map_of (map_remove k m) \<subseteq>\<^sub>m map_of m"
  by (auto simp: map_of_remove map_le_def)

lemma map_of_filter_key: "map_of (filter (\<lambda>(k, _). k \<notin> A) m) k = (if k \<in> A then None else map_of m k)"
  by (induction m) auto

lemma map_le_filter_key: "map_of (filter (\<lambda>(k, _). k \<notin> A) m) \<subseteq>\<^sub>m map_of m"
  by (auto simp: map_le_def dom_def map_of_filter_key split: if_splits)

lemma next_avail_mem: "next_avail t = Some e \<Longrightarrow> e \<in> set (tb_buffer t)"
proof -
  assume "next_avail t = Some e"
  then obtain xs where "filter (\<lambda>(k, _). next_release t \<le> k) (tb_buffer t) @ filter (\<lambda>(k, _). k < next_release t) (tb_buffer t) = e # xs"
    unfolding next_avail_def by (simp split: list.splits)
  then have "e \<in> set (filter (\<lambda>(k, _). next_release t \<le> k) (tb_buffer t) @ filter (\<lambda>(k, _). k < next_release t) (tb_buffer t))"
    by (simp only: list.set_intros(1))
  then show ?thesis by auto
qed

lemma release_over_gap:
  assumes "map_of (tb_buffer t) (next_release t) = None"
    and "position (\<lambda>(f, l). srt_seq_in_closed_range (next_release t) f l) (pending_skips t) = None"
    and "tlpktdrop_enabled t" "next_avail t = Some (k, time)" "\<not> now_us < time"
    and "0 \<le> srt_seq_diff k (next_release t)" "srt_seq_diff k (next_release t) \<le> MAX_TLPKT_SKIP_SPAN"
    and w: "walk k (next_release t) (tb_buffer t) dr = Some (buf, dr')"
  shows "release_loop now_us t dl dr = release_loop now_us (t\<lparr>tb_buffer := buf, next_release := k\<rparr>) dl dr'"
  by (subst release_loop.simps) (simp add: assms del: MAX_TLPKT_SKIP_SPAN_def)

lemma end_not_before: "c < e \<Longrightarrow> e - c < 2 ^ 31 \<Longrightarrow> sq isn e \<notin> sq isn ` {c..<e}"
proof
  assume e: "c < e" "e - c < 2 ^ 31" and "sq isn e \<in> sq isn ` {c..<e}"
  then obtain n where "n \<in> {c..<e}" "sq isn e = sq isn n" by blast
  then show False using e by (subst (asm) sq_inject) auto
qed

lemma measure_over_gap:
  assumes "map_of (tb_buffer t) (next_release t) = None" "map_of buf k \<noteq> None" "length buf \<le> length (tb_buffer t)"
  shows "loop_measure (t\<lparr>tb_buffer := buf, next_release := k\<rparr>) < loop_measure t"
  using assms by (auto simp: loop_measure_def)

lemma release_loop_returns:
  assumes "tb_valid t" "next_release t = sq isn c"
  shows "\<exists>t' c' D X. release_loop now_us t dl dr = Some (t', dl @ map (sq isn) D, dr @ map (sq isn) X) \<and>
    released isn now_us t c t' c' D X \<and> waiting now_us t'"
  using assms
proof (induction "loop_measure t" arbitrary: t c dl dr rule: less_induct)
  case less
  note v = less.prems(1) and nx = less.prems(2)
  have stop: ?case if "waiting now_us t" "release_loop now_us t dl dr = Some (t, dl, dr)"
    using that released_refl[OF nx, of now_us] by (intro exI[of _ t] exI[of _ c] exI[of _ "[]"]) simp
  show ?case
  proof (cases "map_of (tb_buffer t) (next_release t)")
    case (Some time)
    let ?t1 = "t\<lparr>tb_buffer := map_remove (next_release t) (tb_buffer t), next_release := srt_seq_next (next_release t)\<rparr>"
    note h = release_head[OF Some v nx]
    note step = released_step[OF _ _ h(4) map_le_remove set_map_remove subset_refl le_refl]
    have cur: "map_of (tb_buffer t) (sq isn c) = Some time" using Some nx by simp
    have hi: "c + 1 \<le> hi" if "within_stretch isn lo hi t c" for lo hi
      using stretch_key[OF that map_of_SomeD[OF cur]] by simp
    have gone: "map_of (map_remove (next_release t) (tb_buffer t)) (sq isn c) = None" by (simp add: map_of_remove nx)
    show ?thesis
    proof (cases "now_us < time")
      case True
      then show ?thesis using Some by (intro stop) (simp add: waiting_def, subst release_loop.simps, simp)
    next
      case due: False
      show ?thesis
      proof (cases "tlpktdrop_enabled t \<and> time < drop_before t now_us")
        case True
        have loop: "release_loop now_us t dl dr = release_loop now_us ?t1 dl (dr @ [sq isn c])"
          using Some due True by (subst release_loop.simps) (simp add: nx)
        obtain t' c' D X where r: "release_loop now_us ?t1 dl (dr @ [sq isn c]) = Some (t', dl @ map (sq isn) D, (dr @ [sq isn c]) @ map (sq isn) X)"
          "released isn now_us ?t1 (c + 1) t' c' D X" "waiting now_us t'" using less.hyps[OF h(3,1,2)] by blast
        have "released isn now_us t c t' c' ([] @ D) ([c] @ X)"
          using True gone hi by (intro step[OF r(2)]) auto
        then show ?thesis using loop r(1,3) by (intro exI[of _ t'] exI[of _ c'] exI[of _ D] exI[of _ "c # X"]) simp
      next
        case False
        have loop: "release_loop now_us t dl dr = release_loop now_us ?t1 (dl @ [sq isn c]) dr"
          using Some due by (subst release_loop.simps) (simp only: if_not_P[OF False] option.case if_not_P[OF due], simp add: nx)
        obtain t' c' D X where r: "release_loop now_us ?t1 (dl @ [sq isn c]) dr = Some (t', (dl @ [sq isn c]) @ map (sq isn) D, dr @ map (sq isn) X)"
          "released isn now_us ?t1 (c + 1) t' c' D X" "waiting now_us t'" using less.hyps[OF h(3,1,2)] by blast
        have "released isn now_us t c t' c' ([c] @ D) ([] @ X)"
          using False due cur gone hi by (intro step[OF r(2)]) auto
        then show ?thesis using loop r(1,3) by (intro exI[of _ t'] exI[of _ c'] exI[of _ "c # D"] exI[of _ X]) simp
      qed
    qed
  next
    case None
    show ?thesis
    proof (cases "position (\<lambda>(f, l). srt_seq_in_closed_range (next_release t) f l) (pending_skips t)")
      case (Some pos)
      obtain f l where fl: "pending_skips t ! pos = (f, l)" by (cases "pending_skips t ! pos")
      have pos: "pos < length (pending_skips t)" "srt_seq_in_closed_range (sq isn c) f l"
        using position_Some[OF Some] fl nx by simp_all
      have mem: "(f, l) \<in> set (pending_skips t)" using pos(1) fl by (metis nth_mem)
      then obtain c1 where c1: "c < c1" "srt_seq_next l = sq isn c1" "l = sq isn (c1 - 1)" "c1 - 1 - c \<le> 2 ^ 30"
          "\<forall>n \<in> {c..<c1}. srt_seq_in_closed_range (sq isn n) f l"
        using skip_jump[OF _ _ pos(2)] v unfolding tb_valid_def by blast
      let ?t1 = "t\<lparr>pending_skips := remove_at pos (pending_skips t), next_release := srt_seq_next l\<rparr>"
      have t1: "?t1 = t\<lparr>tb_buffer := tb_buffer t, next_release := srt_seq_next l, pending_skips := remove_at pos (pending_skips t)\<rparr>"
        by (rule TsbpdScheduler.equality) simp_all
      have len: "Suc (length (remove_at pos (pending_skips t))) = length (pending_skips t)" using length_remove_at[OF pos(1)] .
      have m: "loop_measure ?t1 < loop_measure t" using len None by (simp add: loop_measure_def)
      have v1: "tb_valid ?t1" using v set_remove_at[of pos "pending_skips t"] by (auto simp: tb_valid_def)
      have nx1: "next_release ?t1 = sq isn c1" using c1(2) by simp
      obtain t' c' D X where r: "release_loop now_us ?t1 dl dr = Some (t', dl @ map (sq isn) D, dr @ map (sq isn) X)"
        "released isn now_us ?t1 c1 t' c' D X" "waiting now_us t'" using less.hyps[OF m v1 nx1] by blast
      have loop: "release_loop now_us t dl dr = release_loop now_us ?t1 dl dr"
        using None Some fl by (subst release_loop.simps) simp
      have hi: "c1 \<le> hi" if "within_stretch isn lo hi t c" for lo hi
        using stretch_skip[OF that, of f "c1 - 1"] mem c1 by simp
      have "released isn now_us t c t' c' ([] @ D) ([] @ X)"
        using c1(1,5) len mem hi by (intro released_step[OF r(2) _ t1 map_le_refl subset_refl set_remove_at]) auto
      then show ?thesis using loop r(1,3) by (intro exI[of _ t'] exI[of _ c'] exI[of _ D] exI[of _ X]) simp
    next
      case no: None
      then have nocover: "\<forall>(f, l) \<in> set (pending_skips t). \<not> srt_seq_in_closed_range (next_release t) f l"
        by (auto simp: position_None)
      show ?thesis
      proof (cases "\<not> tlpktdrop_enabled t \<or> (case next_avail t of None \<Rightarrow> True
            | Some (k, time) \<Rightarrow> now_us < time \<or> srt_seq_diff k (next_release t) \<notin> {0..MAX_TLPKT_SKIP_SPAN})")
        case True
        have "release_loop now_us t dl dr = Some (t, dl, dr)"
          using True None no by (subst release_loop.simps) (auto split: option.splits)
        then show ?thesis using True None nocover by (intro stop) (simp_all add: waiting_def)
      next
        case False
        then obtain k time where kt: "next_avail t = Some (k, time)" "\<not> now_us < time"
          "0 \<le> srt_seq_diff k (next_release t)" "srt_seq_diff k (next_release t) \<le> MAX_TLPKT_SKIP_SPAN" and en: "tlpktdrop_enabled t"
          by (auto split: option.splits)
        define e where "e = c + srt_seq_diff k (next_release t)"
        have mem: "(k, time) \<in> set (tb_buffer t)" using next_avail_mem[OF kt(1)] .
        then have vk: "srt_valid k" using v by (auto simp: tb_valid_def)
        have "k = sq (sq isn c) (srt_seq_diff k (sq isn c))" by (rule sq_near[OF vk sq_valid])
        then have ke: "k = sq isn e" unfolding sq_shift e_def nx .
        obtain time' where look: "map_of (tb_buffer t) k = Some time'" using mem by (metis map_of_eq_None_iff option.exhaust image_eqI fst_conv)
        have ce: "c < e" "e - c < 2 ^ 31"
        proof -
          have "k \<noteq> sq isn c" using look None nx by auto
          then have "e \<noteq> c" using ke by auto
          then show "c < e" "e - c < 2 ^ 31" using kt(3,4) by (auto simp: e_def MAX_TLPKT_SKIP_SPAN_def)
        qed
        let ?buf = "filter (\<lambda>(k, _). k \<notin> sq isn ` {c..<e}) (tb_buffer t)"
        let ?t1 = "t\<lparr>tb_buffer := ?buf, next_release := k\<rparr>"
        have t1: "?t1 = t\<lparr>tb_buffer := ?buf, next_release := k, pending_skips := pending_skips t\<rparr>" by simp
        have kin: "k \<notin> sq isn ` {c..<e}" unfolding ke using ce by (rule end_not_before)
        have hit: "map_of ?buf k \<noteq> None" unfolding map_of_filter_key if_not_P[OF kin] look by (rule option.distinct(2))
        have m: "loop_measure ?t1 < loop_measure t"
          by (rule measure_over_gap[OF None hit length_filter_le])
        have v1: "tb_valid ?t1" using v by (auto simp: tb_valid_def)
        have nx1: "next_release ?t1 = sq isn e" using ke by simp
        obtain t' c' D X where r: "release_loop now_us ?t1 dl (dr @ map (sq isn) [c..e - 1]) =
            Some (t', dl @ map (sq isn) D, (dr @ map (sq isn) [c..e - 1]) @ map (sq isn) X)"
          "released isn now_us ?t1 e t' c' D X" "waiting now_us t'" using less.hyps[OF m v1 nx1] by blast
        have wk: "walk k (next_release t) (tb_buffer t) dr = Some (?buf, dr @ map (sq isn) [c..e - 1])"
          unfolding ke nx using ce by (intro walk_positions) simp_all
        have loop: "release_loop now_us t dl dr = release_loop now_us ?t1 dl (dr @ map (sq isn) [c..e - 1])"
          by (rule release_over_gap[OF None no en kt wk])
        have le: "map_of ?buf \<subseteq>\<^sub>m map_of (tb_buffer t)" by (rule map_le_filter_key)
        have hi: "e \<le> hi" if "within_stretch isn lo hi t c" for lo hi
          using stretch_key[OF that mem[unfolded ke]] ce(1) kt(4) by (simp add: e_def MAX_TLPKT_SKIP_SPAN_def)
        have gone: "\<forall>n \<in> set [] \<union> set [c..e - 1]. map_of ?buf (sq isn n) = None"
          by (auto simp: map_of_filter_key)
        have "sorted_wrt (<) [c..e - 1]" by (rule sorted_upto)
        then have "released isn now_us t c t' c' ([] @ D) ([c..e - 1] @ X)"
          using ce en gone hi by (intro released_step[OF r(2) _ t1 le _ subset_refl le_refl]) auto
        then show ?thesis using loop r(1,3) by (intro exI[of _ t'] exI[of _ c'] exI[of _ D] exI[of _ "[c..e - 1] @ X"]) simp
      qed
    qed
  qed
qed

text \<open>
  C28. A tick returns for every state with valid numbers, however its buffer and its announced drops
  are laid out: it moves the cursor forward, reports in order the packets it releases (due, and not
  past the too-late threshold when dropping is on) and the positions it drops (only when dropping is
  on), every other position it passes having been announced as dropped by the peer, and stops for one
  of the reasons \<open>waiting\<close> names.
\<close>

theorem tick_outcome:
  assumes "tb_valid t" "srt_valid (next_release t)"
  shows "\<exists>t' out c' D X. tsbpd_tick t now = Some (t', out) \<and>
    to_delivered out = map (sq (next_release t)) D \<and> to_dropped out = map (sq (next_release t)) X \<and>
    released (next_release t) (duration_us now) t 0 t' c' D X \<and> waiting (duration_us now) t'"
proof -
  have "next_release t = sq (next_release t) 0" using assms(2) by simp
  from release_loop_returns[OF assms(1) this, of "duration_us now" "[]" "[]"] show ?thesis
    unfolding tsbpd_tick_def release_ready_def by fastforce
qed

text \<open>A packet two past the cursor is due at time 4 ms, so the two before it are given up.\<close>

theorem tick_outcome_witness:
  "let t = (Tsbpd_new 5 0 120 0 True None)\<lparr>tb_buffer := [(7, 4000)]\<rparr> in
   \<exists>t' out c' D X. tsbpd_tick t (from_millis 5) = Some (t', out) \<and>
    to_delivered out = map (sq (next_release t)) D \<and> to_dropped out = map (sq (next_release t)) X \<and>
    released (next_release t) (duration_us (from_millis 5)) t 0 t' c' D X \<and> waiting (duration_us (from_millis 5)) t'"
  unfolding Let_def by (rule tick_outcome) (simp_all add: Tsbpd_new_def tb_valid_def srt_valid_def Let_def)

section \<open>A stream with no gap left behind\<close>

lemma next_avail_None: "next_avail t = None \<Longrightarrow> tb_buffer t = []"
proof -
  assume "next_avail t = None"
  then have "filter (\<lambda>(k, _). next_release t \<le> k) (tb_buffer t) = []" "filter (\<lambda>(k, _). k < next_release t) (tb_buffer t) = []"
    by (simp_all add: next_avail_def split: list.splits)
  then have "\<not> (next_release t \<le> k) \<and> \<not> k < next_release t" if "(k, v) \<in> set (tb_buffer t)" for k v
    using that unfolding filter_empty_conv by fastforce
  then show ?thesis by (metis last_in_set linorder_le_less_linear surj_pair)
qed

text \<open>
  C29. With too-late drop on, no loss holds the stream up: when every buffered packet is due and
  stands at most 65,536 numbers ahead of the cursor, and the peer announced no drop, one tick empties
  the buffer.
\<close>

theorem due_stream_drains:
  assumes "tlpktdrop_enabled t" "pending_skips t = []" "srt_valid (next_release t)"
    and due: "\<forall>(k, time) \<in> set (tb_buffer t). srt_valid k \<and> time \<le> duration_us now \<and>
      srt_seq_diff k (next_release t) \<in> {0..MAX_TLPKT_SKIP_SPAN}"
  shows "\<exists>t' out. tsbpd_tick t now = Some (t', out) \<and> tsbpd_buffered_count t' = 0"
proof -
  let ?isn = "next_release t" and ?now = "duration_us now"
  have v: "tb_valid t" using assms(2) due by (auto simp: tb_valid_def)
  have nx: "next_release t = sq ?isn 0" using assms(3) by simp
  obtain t' c' D X where r: "release_loop ?now t [] [] = Some (t', map (sq ?isn) D, map (sq ?isn) X)"
    and rel: "released ?isn ?now t 0 t' c' D X" and w: "waiting ?now t'"
    using release_loop_returns[OF v nx, of ?now "[]" "[]"] by auto
  note R = rel[unfolded released_def]
  have sub: "set (tb_buffer t') \<subseteq> set (tb_buffer t)" and nx': "next_release t' = sq ?isn c'" using R by simp_all
  have cover: "{0..<c'} \<subseteq> set D \<union> set X"
  proof
    fix n assume n: "n \<in> {0..<c'}"
    have "\<forall>n \<in> {0..<c'} - set D - set X. \<exists>(f, l) \<in> set (pending_skips t). srt_seq_in_closed_range (sq ?isn n) f l"
      using R by simp
    then show "n \<in> set D \<union> set X" using n assms(2) by auto
  qed
  have left: "\<forall>n \<in> set D \<union> set X. map_of (tb_buffer t') (sq ?isn n) = None" using R by simp
  have ahead: "0 \<le> srt_seq_diff k (next_release t') \<and> srt_seq_diff k (next_release t') \<le> MAX_TLPKT_SKIP_SPAN"
    if k: "(k, time) \<in> set (tb_buffer t')" for k time
  proof -
    define p where "p = srt_seq_diff k ?isn"
    have kt: "srt_valid k" "0 \<le> p" "p \<le> MAX_TLPKT_SKIP_SPAN" using due sub k by (auto simp: p_def)
    have kp: "k = sq ?isn p" unfolding p_def by (rule sq_near[OF kt(1) assms(3)])
    have held: "map_of (tb_buffer t') k \<noteq> None" using k by (metis map_of_eq_None_iff fst_conv image_eqI)
    have "p \<notin> {0..<c'}"
    proof
      assume "p \<in> {0..<c'}"
      then have "map_of (tb_buffer t') (sq ?isn p) = None" using cover left by blast
      then show False using held unfolding kp[symmetric] by contradiction
    qed
    then have "c' \<le> p" "0 \<le> c'" using kt(2) R by auto
    then have "srt_seq_diff k (next_release t') = p - c'"
      unfolding kp nx' using kt by (intro sq_diff) (auto simp: MAX_TLPKT_SKIP_SPAN_def)
    then show ?thesis using kt(3) \<open>c' \<le> p\<close> \<open>0 \<le> c'\<close> by simp
  qed
  have en: "tlpktdrop_enabled t'" using R assms(1) by auto
  have "tb_buffer t' = []"
  proof (cases "map_of (tb_buffer t') (next_release t')")
    case (Some time)
    then have "(next_release t', time) \<in> set (tb_buffer t)" using sub map_of_SomeD by fastforce
    then have "time \<le> ?now" using due by auto
    then show ?thesis using w Some by (simp add: waiting_def)
  next
    case None
    show ?thesis
    proof (cases "next_avail t'")
      case None
      then show ?thesis by (rule next_avail_None)
    next
      case (Some e)
      obtain k time where e: "e = (k, time)" by fastforce
      then have k: "(k, time) \<in> set (tb_buffer t')" using next_avail_mem[OF Some] by simp
      then have "time \<le> ?now" using due sub by auto
      then show ?thesis using w None Some e en ahead[OF k] by (simp add: waiting_def)
    qed
  qed
  then show ?thesis using r by (simp add: tsbpd_tick_def release_ready_def tsbpd_buffered_count_def)
qed

theorem due_stream_drains_witness:
  "let t = (Tsbpd_new 5 0 120 0 True None)\<lparr>tb_buffer := [(7, 4000), (9, 4500)]\<rparr> in
   \<exists>t' out. tsbpd_tick t (from_millis 5) = Some (t', out) \<and> tsbpd_buffered_count t' = 0"
proof -
  have d: "srt_seq_diff 7 5 = 2" "srt_seq_diff 9 5 = 4" by code_simp+
  show ?thesis unfolding Let_def
    by (rule due_stream_drains)
      (simp_all add: d Tsbpd_new_def srt_valid_def Let_def from_millis_def duration_us_def as_micros_def U64_MAX_def
        MAX_TLPKT_SKIP_SPAN_def)
qed

end
