(* ===== verification/Srt_Playout.thy ===== *)
theory Srt_Playout
  imports Srt_Tsbpd_Spec
begin

text \<open>
  Runs of the play-out scheduler: any sequence of arrivals, ticks and announced drops over a stretch
  of the stream keeps the buffer within the stretch and hands the application an increasing stream;
  and the unwrapping of the 32-bit timestamps recovers the sender's time line.
\<close>

section \<open>Runs\<close>

inductive playing :: "u32 \<Rightarrow> int \<Rightarrow> TsbpdScheduler \<Rightarrow> u32 list \<Rightarrow> u32 list \<Rightarrow> bool" for isn and N where
  playing_new: "playing isn N (Tsbpd_new isn base delay drift enabled threshold) [] []"
| playing_feed: "playing isn N t fed dl \<Longrightarrow> p \<in> {0..<N} \<Longrightarrow>
    tsbpd_feed_data t (sq isn p) timestamp now = Some (t', out) \<Longrightarrow>
    playing isn N t' (fed @ [sq isn p]) (dl @ to_delivered out)"
| playing_tick: "playing isn N t fed dl \<Longrightarrow> tsbpd_tick t now = Some (t', out) \<Longrightarrow>
    playing isn N t' fed (dl @ to_delivered out)"
| playing_skip: "playing isn N t fed dl \<Longrightarrow> a \<in> {0..<N} \<Longrightarrow> b \<in> {0..<N} \<Longrightarrow>
    playing isn N (tsbpd_skip_range t (sq isn a) (sq isn b)) fed dl"

definition play_ok :: "u32 \<Rightarrow> int \<Rightarrow> TsbpdScheduler \<Rightarrow> u32 list \<Rightarrow> u32 list \<Rightarrow> bool" where
  "play_ok isn N t fed dl \<longleftrightarrow>
     (\<exists>c P. next_release t = sq isn c \<and> within_stretch isn 0 N t c \<and> dl = map (sq isn) P \<and>
        sorted_wrt (<) P \<and> set P \<subseteq> {0..<c}) \<and>
     tb_valid t \<and> fst ` set (tb_buffer t) \<subseteq> set fed \<and> set dl \<subseteq> set fed \<and> length (pending_skips t) \<le> MAX_SKIPS"

lemma play_okI:
  assumes "next_release t = sq isn c" "within_stretch isn 0 N t c" "dl = map (sq isn) P" "sorted_wrt (<) P"
    "set P \<subseteq> {0..<c}" "tb_valid t" "fst ` set (tb_buffer t) \<subseteq> set fed" "set dl \<subseteq> set fed" "length (pending_skips t) \<le> MAX_SKIPS"
  shows "play_ok isn N t fed dl"
  using assms unfolding play_ok_def by blast

text \<open>Only these three fields matter.\<close>

lemma play_ok_cong:
  "next_release t' = next_release t \<Longrightarrow> tb_buffer t' = tb_buffer t \<Longrightarrow> pending_skips t' = pending_skips t \<Longrightarrow>
   play_ok isn N t' fed dl = play_ok isn N t fed dl"
  by (simp add: play_ok_def within_stretch_def tb_valid_def)

lemma play_release:
  assumes "play_ok isn N t fed dl" "release_ready t now_us = Some (t', dl', X)"
  shows "play_ok isn N t' fed (dl @ dl')"
proof -
  obtain c P where c: "next_release t = sq isn c" "within_stretch isn 0 N t c" "dl = map (sq isn) P"
      "sorted_wrt (<) P" "set P \<subseteq> {0..<c}"
    and t: "tb_valid t" "fst ` set (tb_buffer t) \<subseteq> set fed" "set dl \<subseteq> set fed" "length (pending_skips t) \<le> MAX_SKIPS"
    using assms(1) unfolding play_ok_def by blast
  obtain c' D where r: "dl' = map (sq isn) D" "\<exists>Y. released isn now_us t c t' c' D Y"
    using release_loop_returns[OF t(1) c(1), of now_us "[]" "[]"] assms(2) unfolding release_ready_def by auto
  then obtain Y where rel: "released isn now_us t c t' c' D Y" by blast
  note R = rel[unfolded released_def]
  have b: "c \<le> c'" "set D \<subseteq> {c..<c'}" "sorted_wrt (<) D" "next_release t' = sq isn c'"
    "set (tb_buffer t') \<subseteq> set (tb_buffer t)" "set (pending_skips t') \<subseteq> set (pending_skips t)"
    "length (pending_skips t') \<le> length (pending_skips t)" using R by simp_all
  have "\<forall>lo hi. within_stretch isn lo hi t c \<longrightarrow> c' \<le> hi" using R by simp
  then have N: "c' \<le> N" using c(2) by blast
  have keys: "sq isn n \<in> fst ` set (tb_buffer t)" if "n \<in> set D" for n
  proof -
    have "\<forall>n \<in> set D. \<exists>time. map_of (tb_buffer t) (sq isn n) = Some time" using R by blast
    then show ?thesis using that by (metis map_of_SomeD fst_conv image_eqI)
  qed
  show ?thesis
  proof (rule play_okI)
    show "next_release t' = sq isn c'" by (rule b(4))
    show "within_stretch isn 0 N t' c'" using c(2) b N unfolding within_stretch_def by auto
    show "dl @ dl' = map (sq isn) (P @ D)" using c(3) r(1) by simp
    show "sorted_wrt (<) (P @ D)" unfolding sorted_wrt_append using c(4,5) b(2,3) by force
    show "set (P @ D) \<subseteq> {0..<c'}" using c(2,5) b(1,2) unfolding within_stretch_def by force
    show "tb_valid t'" using t(1) b(5,6) unfolding tb_valid_def by blast
    show "fst ` set (tb_buffer t') \<subseteq> set fed" using t(2) b(5) by blast
    show "set (dl @ dl') \<subseteq> set fed" using t(2,3) keys r(1) by auto
    show "length (pending_skips t') \<le> MAX_SKIPS" using t(4) b(7) by simp
  qed
qed

section \<open>Arrivals\<close>

lemma unwrap_keeps:
  assumes "unwrap_timestamp t raw = (t', ts)"
  shows "next_release t' = next_release t" "tb_buffer t' = tb_buffer t" "pending_skips t' = pending_skips t"
  using assms by (auto simp: unwrap_timestamp_def Let_def split: option.splits if_splits prod.splits)

lemma sample_keeps:
  "next_release (add_drift_sample t a b) = next_release t" "tb_buffer (add_drift_sample t a b) = tb_buffer t"
  "pending_skips (add_drift_sample t a b) = pending_skips t"
  by (simp_all add: add_drift_sample_def Let_def)

lemma track_keeps:
  "next_release (track_highest t s a b) = next_release t" "tb_buffer (track_highest t s a b) = tb_buffer t"
  "pending_skips (track_highest t s a b) = pending_skips t"
  by (simp_all add: track_highest_def Let_def sample_keeps split: option.splits)

lemma play_more_fed: "play_ok isn N t fed dl \<Longrightarrow> play_ok isn N t (fed @ fed') dl"
  unfolding play_ok_def by (simp only: set_append) blast

lemma play_shrink:
  assumes "play_ok isn N t fed dl"
  shows "play_ok isn N (t\<lparr>tb_buffer := filter f (tb_buffer t), pending_skips := filter g (pending_skips t)\<rparr>) fed dl"
proof -
  obtain c P where c: "next_release t = sq isn c" "within_stretch isn 0 N t c" "dl = map (sq isn) P"
      "sorted_wrt (<) P" "set P \<subseteq> {0..<c}"
    and t: "tb_valid t" "fst ` set (tb_buffer t) \<subseteq> set fed" "set dl \<subseteq> set fed" "length (pending_skips t) \<le> MAX_SKIPS"
    using assms unfolding play_ok_def by blast
  show ?thesis
    using c t le_trans[OF length_filter_le t(4)] by (intro play_okI[of _ _ c _ _ P]) (auto simp: within_stretch_def tb_valid_def)
qed

text \<open>The cursor moves on past a number of the stretch it has reached.\<close>

lemma play_advance:
  assumes "play_ok isn N t fed dl" "next_release t = sq isn c" "within_stretch isn 0 N t c"
    and e: "l = sq isn (c1 - 1)" "l \<in> sq isn ` {0..<N}" "c < c1" "c1 - 1 - c \<le> 2 ^ 30"
    and c: "dl = map (sq isn) P" "sorted_wrt (<) P" "set P \<subseteq> {0..<c}"
  shows "play_ok isn N (t\<lparr>next_release := srt_seq_next l\<rparr>) fed dl"
proof -
  have "c1 - 1 < N"
    using assms(3) e by (intro stretch_end[of isn _ 0 N]) (auto simp: within_stretch_def)
  moreover have "srt_seq_next l = sq isn c1" by (simp add: e(1) sq_next)
  ultimately show ?thesis
    using assms(1,3) c e(3) by (intro play_okI[of _ _ c1 _ _ P]) (auto simp: play_ok_def within_stretch_def tb_valid_def)
qed

lemma play_ok_cursor:
  assumes "play_ok isn N t fed dl"
  obtains c P where "next_release t = sq isn c" "within_stretch isn 0 N t c" "dl = map (sq isn) P"
    "sorted_wrt (<) P" "set P \<subseteq> {0..<c}"
  using assms unfolding play_ok_def by blast

lemma play_insert:
  assumes "play_ok isn N t fed dl" "p \<in> {0..<N}" "sq isn p \<in> set fed"
  shows "play_ok isn N (t\<lparr>tb_buffer := map_insert (sq isn p) time (tb_buffer t)\<rparr>) fed dl"
proof -
  obtain c P where c: "next_release t = sq isn c" "within_stretch isn 0 N t c" "dl = map (sq isn) P"
      "sorted_wrt (<) P" "set P \<subseteq> {0..<c}" using assms(1) by (rule play_ok_cursor)
  note sub = set_map_insert[of "sq isn p" time "tb_buffer t"]
  have keys: "\<forall>(k, _) \<in> set (map_insert (sq isn p) time (tb_buffer t)). Q k"
    if "\<forall>(k, _) \<in> set (tb_buffer t). Q k" "Q (sq isn p)" for Q
    using sub that by blast
  show ?thesis
  proof (rule play_okI)
    show "next_release (t\<lparr>tb_buffer := map_insert (sq isn p) time (tb_buffer t)\<rparr>) = sq isn c" using c(1) by simp
    show "within_stretch isn 0 N (t\<lparr>tb_buffer := map_insert (sq isn p) time (tb_buffer t)\<rparr>) c"
      using c(2) assms(2) unfolding within_stretch_def by (simp add: keys)
    show "tb_valid (t\<lparr>tb_buffer := map_insert (sq isn p) time (tb_buffer t)\<rparr>)"
      using assms(1) unfolding play_ok_def tb_valid_def by (simp add: keys)
    show "fst ` set (tb_buffer (t\<lparr>tb_buffer := map_insert (sq isn p) time (tb_buffer t)\<rparr>)) \<subseteq> set fed"
    proof -
      have "fst ` set (tb_buffer t) \<subseteq> set fed" using assms(1) unfolding play_ok_def by blast
      then have "fst ` insert (sq isn p, time) (set (tb_buffer t)) \<subseteq> set fed" using assms(3) by simp
      from subset_trans[OF image_mono[OF sub] this] show ?thesis by simp
    qed
  qed (use c assms(1) in \<open>simp_all add: play_ok_def\<close>)
qed

lemma ready_returns:
  assumes "play_ok isn N t fed dl"
  shows "\<exists>r. release_ready t now_us = Some r"
proof -
  obtain c where c: "next_release t = sq isn c" "tb_valid t" using assms unfolding play_ok_def by blast
  show ?thesis unfolding release_ready_def using release_loop_returns[OF c(2,1)] by blast
qed

text \<open>An arrival files the packet, or drops it, and then releases what is ready.\<close>

lemma feed_files:
  assumes "play_ok isn N t fed dl" "p \<in> {0..<N}"
  shows "\<exists>t3 pre. play_ok isn N t3 (fed @ [sq isn p]) dl \<and>
    tsbpd_feed_data t (sq isn p) timestamp now =
      map_option (\<lambda>(t, delivered, dropped). (t, \<lparr>to_delivered = delivered, to_dropped = pre @ dropped\<rparr>))
        (release_ready t3 (duration_us now))"
proof -
  let ?s = "sq isn p" and ?fed = "fed @ [sq isn p]"
  obtain t1 ts where u: "unwrap_timestamp t timestamp = (t1, ts)" by fastforce
  define t2 where "t2 = track_highest t1 ?s (duration_us now) ts"
  have "play_ok isn N t2 fed dl = play_ok isn N t fed dl"
    by (rule play_ok_cong) (simp_all add: t2_def track_keeps unwrap_keeps[OF u])
  then have ok2: "play_ok isn N t2 ?fed dl" using assms(1) by (simp add: play_more_fed)
  show ?thesis
  proof (cases "tlpktdrop_enabled t2 \<and> pkt_tsbpd_time t2 ts < drop_before t2 (duration_us now)")
    case True
    define t3 where "t3 = (if ?s = next_release t2 then t2\<lparr>next_release := srt_seq_next ?s\<rparr> else t2)"
    have "play_ok isn N t3 ?fed dl"
    proof (cases "?s = next_release t2")
      case head: True
      obtain c P where c: "next_release t2 = sq isn c" "within_stretch isn 0 N t2 c" "dl = map (sq isn) P"
        "sorted_wrt (<) P" "set P \<subseteq> {0..<c}" using ok2 by (rule play_ok_cursor)
      have "?s \<in> sq isn ` {0..<N}" using assms(2) by (rule imageI)
      then have "play_ok isn N (t2\<lparr>next_release := srt_seq_next ?s\<rparr>) ?fed dl"
        using head c by (intro play_advance[OF ok2 c(1,2), of _ "c + 1"]) simp_all
      then show ?thesis using head by (simp add: t3_def)
    next
      case False
      then show ?thesis using ok2 by (simp add: t3_def)
    qed
    then have "play_ok isn N (t3\<lparr>tb_buffer := filter (\<lambda>(k', _). k' \<noteq> ?s) (tb_buffer t3), pending_skips := filter (\<lambda>_. True) (pending_skips t3)\<rparr>) ?fed dl"
      by (rule play_shrink)
    then have "play_ok isn N (t3\<lparr>tb_buffer := map_remove ?s (tb_buffer t3)\<rparr>) ?fed dl" by (simp add: map_remove_def)
    moreover have "tsbpd_feed_data t ?s timestamp now =
        map_option (\<lambda>(t, delivered, dropped). (t, \<lparr>to_delivered = delivered, to_dropped = [?s] @ dropped\<rparr>))
          (release_ready (t3\<lparr>tb_buffer := map_remove ?s (tb_buffer t3)\<rparr>) (duration_us now))"
      unfolding tsbpd_feed_data_def Let_def u prod.case t2_def[symmetric]
      unfolding t3_def[symmetric] if_P[OF True] by (rule refl)
    ultimately show ?thesis by blast
  next
    case False
    define t3 where "t3 = (if \<not> srt_seq_lt ?s (next_release t2)
       then t2\<lparr>tb_buffer := map_insert ?s (pkt_tsbpd_time t2 ts) (tb_buffer t2)\<rparr> else t2)"
    have "play_ok isn N t3 ?fed dl" using ok2 play_insert[OF ok2 assms(2)] by (simp add: t3_def)
    moreover have "tsbpd_feed_data t ?s timestamp now =
        map_option (\<lambda>(t, delivered, dropped). (t, \<lparr>to_delivered = delivered, to_dropped = [] @ dropped\<rparr>))
          (release_ready t3 (duration_us now))"
      unfolding tsbpd_feed_data_def Let_def u prod.case t2_def[symmetric]
      unfolding t3_def[symmetric] if_not_P[OF False] append_Nil by (rule refl)
    ultimately show ?thesis by blast
  qed
qed

lemma play_feed:
  assumes "play_ok isn N t fed dl" "p \<in> {0..<N}" "tsbpd_feed_data t (sq isn p) timestamp now = Some (t', out)"
  shows "play_ok isn N t' (fed @ [sq isn p]) (dl @ to_delivered out)"
proof -
  obtain t3 pre where t3: "play_ok isn N t3 (fed @ [sq isn p]) dl"
    and eq: "tsbpd_feed_data t (sq isn p) timestamp now =
      map_option (\<lambda>(t, delivered, dropped). (t, \<lparr>to_delivered = delivered, to_dropped = pre @ dropped\<rparr>))
        (release_ready t3 (duration_us now))"
    using feed_files[OF assms(1,2), of timestamp now] by blast
  obtain x where "release_ready t3 (duration_us now) = Some (t', to_delivered out, x)"
    using assms(3) unfolding eq by auto
  then show ?thesis using t3 by (rule play_release[rotated])
qed

lemma returns_feed:
  assumes "play_ok isn N t fed dl" "p \<in> {0..<N}"
  shows "tsbpd_feed_data t (sq isn p) timestamp now \<noteq> None"
  using feed_files[OF assms, of timestamp now] ready_returns by fastforce

lemma returns_tick: "play_ok isn N t fed dl \<Longrightarrow> tsbpd_tick t now \<noteq> None"
  using ready_returns[of isn N t fed dl "duration_us now"] by (auto simp: tsbpd_tick_def)

section \<open>Announced drops\<close>

lemma play_skip:
  assumes "play_ok isn N t fed dl" "a \<in> {0..<N}" "b \<in> {0..<N}"
  shows "play_ok isn N (tsbpd_skip_range t (sq isn a) (sq isn b)) fed dl"
proof (cases "srt_seq_diff (sq isn b) (sq isn a) < 0")
  case True
  then show ?thesis using assms(1) by (simp add: tsbpd_skip_range_def)
next
  case False
  let ?f = "sq isn a" and ?l = "sq isn b"
  define t2 where "t2 = t\<lparr>tb_buffer := filter (\<lambda>(s, _). \<not> srt_seq_in_closed_range s ?f ?l) (tb_buffer t),
    pending_skips := filter (\<lambda>(_, l). \<not> srt_seq_lt l (next_release t)) (pending_skips t)\<rparr>"
  have ok2: "play_ok isn N t2 fed dl" unfolding t2_def by (rule play_shrink[OF assms(1)])
  have run: "tsbpd_skip_range t ?f ?l = (if srt_seq_in_closed_range (next_release t2) ?f ?l then t2\<lparr>next_release := srt_seq_next ?l\<rparr>
      else if srt_seq_lt (next_release t2) ?f \<and> length (pending_skips t2) < MAX_SKIPS
      then t2\<lparr>pending_skips := pending_skips t2 @ [(?f, ?l)]\<rparr> else t2)"
    using False by (simp add: tsbpd_skip_range_def Let_def t2_def)
  obtain c P where c: "next_release t2 = sq isn c" "within_stretch isn 0 N t2 c" "dl = map (sq isn) P"
    "sorted_wrt (<) P" "set P \<subseteq> {0..<c}" using ok2 by (rule play_ok_cursor)
  have l: "?l \<in> sq isn ` {0..<N}" using assms(3) by (rule imageI)
  show ?thesis
  proof (cases "srt_seq_in_closed_range (next_release t2) ?f ?l")
    case True
    then obtain c1 where "c < c1" "?l = sq isn (c1 - 1)" "c1 - 1 - c \<le> 2 ^ 30"
      using skip_jump[OF sq_valid sq_valid, of isn c isn a isn b] unfolding c(1) by blast
    then have "play_ok isn N (t2\<lparr>next_release := srt_seq_next ?l\<rparr>) fed dl"
      by (intro play_advance[OF ok2 c(1,2) _ l _ _ c(3-5)])
    then show ?thesis using True run by simp
  next
    case out: False
    have "play_ok isn N (t2\<lparr>pending_skips := pending_skips t2 @ [(?f, ?l)]\<rparr>) fed dl"
      if "length (pending_skips t2) < MAX_SKIPS"
      using ok2 that c l by (intro play_okI[of _ _ c _ _ P]) (simp_all add: play_ok_def within_stretch_def tb_valid_def)
    then show ?thesis using ok2 out run by simp
  qed
qed

lemma playing_ok:
  assumes "srt_valid isn" "0 \<le> N" "N < 2 ^ 30"
  shows "playing isn N t fed dl \<Longrightarrow> play_ok isn N t fed dl"
proof (induction rule: playing.induct)
  case (playing_new base delay drift enabled threshold)
  then show ?case using assms
    by (intro play_okI[of _ _ 0 _ _ "[]"]) (simp_all add: Tsbpd_new_def Let_def within_stretch_def tb_valid_def)
next
  case (playing_feed t fed dl p timestamp now t' out)
  then show ?case by (blast intro: play_feed)
next
  case (playing_tick t fed dl now t' out)
  then have "\<exists>X. release_ready t (duration_us now) = Some (t', to_delivered out, X)"
    by (auto simp: tsbpd_tick_def)
  then show ?case using playing_tick play_release by blast
next
  case (playing_skip t fed dl a b)
  then show ?case by (blast intro: play_skip)
qed

lemma stretch_increasing:
  "sorted_wrt (<) P \<Longrightarrow> set P \<subseteq> {0..<2 ^ 30} \<Longrightarrow> sorted_wrt srt_seq_lt (map (sq isn) P)"
proof (induction P)
  case (Cons p P)
  have "srt_seq_lt (sq isn p) (sq isn q)" if "q \<in> set P" for q
    using Cons.prems that unfolding srt_seq_lt_def seq_lt_def srt_seq_diff_def[symmetric] by (subst sq_diff) auto
  then show ?case using Cons by simp
qed simp

text \<open>
  C27. Over any stretch of fewer than 2^30 sequence numbers, whatever the order, the timestamps and
  the clock of the arrivals, the ticks and the announced drops: the application sees a strictly
  increasing stream of packets that arrived (so each at most once and none of them after a later one),
  at most 1024 announced drops are remembered, and the scheduler answers every further arrival and
  tick.
\<close>

theorem delivers_in_order:
  assumes "srt_valid isn" "0 \<le> N" "N < 2 ^ 30" "playing isn N t fed dl"
  shows "sorted_wrt srt_seq_lt dl \<and> set dl \<subseteq> set fed \<and> length (pending_skips t) \<le> MAX_SKIPS \<and>
    (\<forall>p timestamp now. p \<in> {0..<N} \<longrightarrow> tsbpd_feed_data t (sq isn p) timestamp now \<noteq> None) \<and>
    (\<forall>now. tsbpd_tick t now \<noteq> None)"
proof -
  have ok: "play_ok isn N t fed dl" by (rule playing_ok[OF assms])
  obtain c P where c: "next_release t = sq isn c" "within_stretch isn 0 N t c" "dl = map (sq isn) P"
    "sorted_wrt (<) P" "set P \<subseteq> {0..<c}" using ok by (rule play_ok_cursor)
  have "sorted_wrt srt_seq_lt dl"
    unfolding c(3) using c(2,4,5) assms(3) by (intro stretch_increasing) (auto simp: within_stretch_def)
  then show ?thesis using ok returns_feed[OF ok] returns_tick[OF ok] by (auto simp: play_ok_def)
qed

lemma release_one:
  assumes "tb_buffer t = [(k, time)]" "next_release t = k" "pending_skips t = []" "time \<le> now_us" "drop_before t now_us \<le> time"
  shows "\<exists>t1. release_loop now_us t [] [] = Some (t1, [k], [])"
  using assms by (subst release_loop.simps, simp, subst release_loop.simps) (simp add: map_remove_def position_None next_avail_def)

text \<open>The first packet arrives when it is due.\<close>

theorem delivers_in_order_witness:
  "\<exists>t. playing 5 10 t [5] [5] \<and>
    sorted_wrt srt_seq_lt [5] \<and> set [5::u32] \<subseteq> set [5] \<and> length (pending_skips t) \<le> MAX_SKIPS \<and>
    (\<forall>p timestamp now. p \<in> {0..<10} \<longrightarrow> tsbpd_feed_data t (sq 5 p) timestamp now \<noteq> None) \<and>
    (\<forall>now. tsbpd_tick t now \<noteq> None)"
proof -
  let ?t = "Tsbpd_new 5 0 120 0 True None" and ?now = "from_millis 200"
  let ?t3 = "?t\<lparr>ts_unwrap_reference := Some (0, 0), highest_fed := Some 5, drift_sample_sum := 200000,
    drift_sample_count := 1, tb_buffer := [(5, 120000)]\<rparr>"
  obtain t1 where r: "release_loop 200000 ?t3 [] [] = Some (t1, [5], [])"
    using release_one[of ?t3 5 120000 200000]
    by (auto simp: Tsbpd_new_def Let_def drop_before_def sat_u64_def U64_MAX_def TSBPD_DELAY_MIN_MS_def)
  let ?t2 = "?t\<lparr>ts_unwrap_reference := Some (0, 0), highest_fed := Some 5, drift_sample_sum := 200000, drift_sample_count := 1\<rparr>"
  have now: "duration_us ?now = 200000" by (simp add: duration_us_def from_millis_def as_micros_def U64_MAX_def)
  have u: "unwrap_timestamp ?t 0 = (?t\<lparr>ts_unwrap_reference := Some (0, 0)\<rparr>, 0)"
    by (simp add: unwrap_timestamp_def Tsbpd_new_def Let_def)
  have t2: "track_highest (?t\<lparr>ts_unwrap_reference := Some (0, 0)\<rparr>) 5 200000 0 = ?t2"
    by (simp add: track_highest_def add_drift_sample_def Tsbpd_new_def Let_def sat64_def i64_of_def I64_MAX_def DRIFT_SAMPLE_COUNT_def)
  have time: "pkt_tsbpd_time ?t2 0 = 120000"
    by (simp add: pkt_tsbpd_time_def Tsbpd_new_def Let_def sat64_def i64_of_def I64_MAX_def sat_u64_def U64_MAX_def TSBPD_DELAY_MIN_MS_def)
  have late: "\<not> 120000 < drop_before ?t2 200000"
    by (simp add: Tsbpd_new_def Let_def drop_before_def sat_u64_def U64_MAX_def TSBPD_DELAY_MIN_MS_def)
  have lt: "\<not> srt_seq_lt 5 (next_release ?t2)" by (simp add: Tsbpd_new_def Let_def srt_seq_lt_def seq_lt_def seq_diff_def)
  have buf: "?t2\<lparr>tb_buffer := map_insert 5 120000 (tb_buffer ?t2)\<rparr> = ?t3" by (simp add: Tsbpd_new_def Let_def)
  have "tsbpd_feed_data ?t 5 0 ?now =
      map_option (\<lambda>(t, delivered, dropped). (t, \<lparr>to_delivered = delivered, to_dropped = dropped\<rparr>)) (release_loop 200000 ?t3 [] [])"
    unfolding tsbpd_feed_data_def now Let_def u prod.case t2 time release_ready_def
    using late lt buf by simp
  then have s: "tsbpd_feed_data ?t (sq 5 0) 0 ?now = Some (t1, \<lparr>to_delivered = [5], to_dropped = []\<rparr>)"
    unfolding r by (simp add: sq_def)
  have "playing 5 10 t1 ([] @ [sq 5 0]) ([] @ to_delivered \<lparr>to_delivered = [5], to_dropped = []\<rparr>)"
    by (rule playing_feed[OF playing_new _ s]) simp
  then have p: "playing 5 10 t1 [5] [5]" by (simp add: sq_def)
  have "srt_valid 5" "(0::int) \<le> 10" "(10::int) < 2 ^ 30" by (simp_all add: srt_valid_def)
  then show ?thesis using delivers_in_order[OF _ _ _ p] p by blast
qed

section \<open>The sender's time line\<close>

primrec unwrap_all :: "TsbpdScheduler \<Rightarrow> u32 list \<Rightarrow> nat list" where
  "unwrap_all t [] = []"
| "unwrap_all t (raw # raws) = (let (t, abs) = unwrap_timestamp t raw in abs # unwrap_all t raws)"

text \<open>Every time is within half of the 32-bit period of the latest time before it.\<close>

primrec steady :: "nat \<Rightarrow> nat list \<Rightarrow> bool" where
  "steady latest [] = True"
| "steady latest (x # xs) = (latest \<le> x + 2 ^ 31 \<and> x < latest + 2 ^ 31 \<and> x < 2 ^ 63 \<and> steady (max latest x) xs)"

lemma unwrap_delta:
  fixes x m :: int
  assumes "m \<le> x + 2 ^ 31" "x < m + 2 ^ 31"
  defines "d \<equiv> x mod 2 ^ 32 - m mod 2 ^ 32"
  shows "(if d < - (2 ^ 31) then d + 2 ^ 32 else if d \<ge> 2 ^ 31 then d - 2 ^ 32 else d) = x - m"
proof -
  define k where "k = x div 2 ^ 32 - m div 2 ^ 32"
  have "x = x div 2 ^ 32 * 2 ^ 32 + x mod 2 ^ 32" "m = m div 2 ^ 32 * 2 ^ 32 + m mod 2 ^ 32" by simp_all
  then have d: "d = (x - m) - k * 2 ^ 32" unfolding d_def k_def by (simp add: algebra_simps)
  have "0 \<le> x mod 2 ^ 32" "x mod 2 ^ 32 < 2 ^ 32" "0 \<le> m mod 2 ^ 32" "m mod 2 ^ 32 < 2 ^ 32" by simp_all
  then have "- (2 ^ 32) < d" "d < 2 ^ 32" unfolding d_def by linarith+
  then have "- 2 < k" "k < 2" using d assms(1,2) by simp_all
  then consider "k = - 1" | "k = 0" | "k = 1" by linarith
  then show ?thesis using d assms(1,2) by cases simp_all
qed

lemma unwrap_step:
  assumes "ts_unwrap_reference t = Some (word_of_nat m, m)" "m < 2 ^ 63"
    and "m \<le> x + 2 ^ 31" "x < m + 2 ^ 31" "x < 2 ^ 63"
  shows "\<exists>t'. unwrap_timestamp t (word_of_nat x) = (t', x) \<and>
    ts_unwrap_reference t' = Some (word_of_nat (max m x), max m x)"
proof -
  have u: "uint (word_of_nat n :: u32) = int n mod 2 ^ 32" for n
    by (simp add: unsigned_of_nat take_bit_eq_mod zmod_int)
  have d: "(let d = uint (word_of_nat x :: u32) - uint (word_of_nat m :: u32)
      in if d < - (2 ^ 31) then d + 2 ^ 32 else if d \<ge> 2 ^ 31 then d - 2 ^ 32 else d) = int x - int m"
    unfolding u Let_def using assms(3,4) by (intro unwrap_delta) simp_all
  have s: "sat64 (i64_of m + (int x - int m)) = int x"
    using assms(2,5) by (simp add: i64_of_def sat64_def I64_MAX_def)
  show ?thesis
    unfolding unwrap_timestamp_def assms(1) option.case prod.case using d unfolding Let_def
    by (cases "m < x") (auto simp: s assms(1) max_def)
qed

lemma unwrap_all_steady:
  "ts_unwrap_reference t = Some (word_of_nat m, m) \<Longrightarrow> m < 2 ^ 63 \<Longrightarrow> steady m xs \<Longrightarrow>
   unwrap_all t (map word_of_nat xs) = xs"
proof (induction xs arbitrary: t m)
  case (Cons x xs)
  obtain t' where t': "unwrap_timestamp t (word_of_nat x) = (t', x)"
    "ts_unwrap_reference t' = Some (word_of_nat (max m x), max m x)"
    using unwrap_step[OF Cons.prems(1,2), of x] Cons.prems(3) by auto
  then show ?case using Cons.IH[OF t'(2)] Cons.prems by simp
qed simp

text \<open>
  C30. The 32-bit timestamps of a stream are unwrapped to the sender's microseconds through any number
  of wraps, for packets out of order too, as long as each time is less than 2^31 microseconds (35
  minutes) from the latest time seen before it.
\<close>

theorem time_line_recovered:
  assumes "ts_unwrap_reference t = None" "x < 2 ^ 32" "steady x xs"
  shows "unwrap_all t (map word_of_nat (x # xs)) = x # xs"
proof -
  have u: "unat (word_of_nat x :: u32) = x" using assms(2) by (simp add: unat_of_nat)
  show ?thesis
    using assms unwrap_all_steady[of _ x xs] by (simp add: unwrap_timestamp_def u)
qed

text \<open>Two wraps, and a packet from before the first of them.\<close>

theorem time_line_recovered_witness:
  "unwrap_all (Tsbpd_new 5 0 120 0 True None) (map word_of_nat [4294967290, 4294967300, 4294967295, 6000000000, 8000000000, 8600000000]) =
    [4294967290, 4294967300, 4294967295, 6000000000, 8000000000, 8600000000]"
  by (rule time_line_recovered) (simp_all add: Tsbpd_new_def Let_def)

end
