(* ===== verification/Srt_Connect.thy ===== *)
theory Srt_Connect
  imports Srt_Control
begin

text \<open>
  The caller-listener handshake (\<open>srt-runtime/src/handshake_sm.rs\<close>, \<open>caller.rs\<close>, \<open>listener.rs\<close>), in the
  default build without the \<open>crypto\<close> feature: the negotiation input and output, the rejection codes,
  the retransmission bookkeeping and the two state machines, byte for byte over the packet codecs.
  A call through \<open>&mut self\<close> returns the new state together with its \<open>Result\<close>, since an error may
  leave a changed state behind.
\<close>

section \<open>Rejection reasons (handshake_sm.rs)\<close>

definition HANDSHAKE_VERSION_4 :: u32 where "HANDSHAKE_VERSION_4 = 4"
definition HANDSHAKE_VERSION_5 :: u32 where "HANDSHAKE_VERSION_5 = 5"
definition SRT_MAGIC_CODE :: u16 where "SRT_MAGIC_CODE = 0x4A17"
definition INDUCTION_LEGACY_SOCKET_TYPE :: u16 where "INDUCTION_LEGACY_SOCKET_TYPE = 2"
definition REJECTION_CODE_BASE :: u32 where "REJECTION_CODE_BASE = 1000"
definition REJECTION_CODE_LIMIT :: u32 where "REJECTION_CODE_LIMIT = 0x80000000"

datatype RejectionReason = Unknown | System | Peer | Resource | Rogue | Backlog | Ipe | Close | Version | RdvCookie
  | BadSecret | Unsecure | MessageApi | RejCongestion | RejFilter | RejGroup | RejReserved u32

definition RejectionReason_from_bits :: "u32 \<Rightarrow> RejectionReason" where
  "RejectionReason_from_bits v =
     (if v = 1000 then Unknown else if v = 1001 then System else if v = 1002 then Peer
      else if v = 1003 then Resource else if v = 1004 then Rogue else if v = 1005 then Backlog
      else if v = 1006 then Ipe else if v = 1007 then Close else if v = 1008 then Version
      else if v = 1009 then RdvCookie else if v = 1010 then BadSecret else if v = 1011 then Unsecure
      else if v = 1012 then MessageApi else if v = 1013 then RejCongestion else if v = 1014 then RejFilter
      else if v = 1015 then RejGroup else RejReserved v)"

fun RejectionReason_to_bits :: "RejectionReason \<Rightarrow> u32" where
  "RejectionReason_to_bits Unknown = 1000"
| "RejectionReason_to_bits System = 1001"
| "RejectionReason_to_bits Peer = 1002"
| "RejectionReason_to_bits Resource = 1003"
| "RejectionReason_to_bits Rogue = 1004"
| "RejectionReason_to_bits Backlog = 1005"
| "RejectionReason_to_bits Ipe = 1006"
| "RejectionReason_to_bits Close = 1007"
| "RejectionReason_to_bits Version = 1008"
| "RejectionReason_to_bits RdvCookie = 1009"
| "RejectionReason_to_bits BadSecret = 1010"
| "RejectionReason_to_bits Unsecure = 1011"
| "RejectionReason_to_bits MessageApi = 1012"
| "RejectionReason_to_bits RejCongestion = 1013"
| "RejectionReason_to_bits RejFilter = 1014"
| "RejectionReason_to_bits RejGroup = 1015"
| "RejectionReason_to_bits (RejReserved v) = v"

definition from_handshake_type :: "HandshakeType \<Rightarrow> RejectionReason option" where
  "from_handshake_type ht =
     (case ht of
        HtReserved v \<Rightarrow> if REJECTION_CODE_BASE \<le> v \<and> v < REJECTION_CODE_LIMIT then Some (RejectionReason_from_bits v) else None
      | _ \<Rightarrow> None)"

definition to_handshake_type :: "RejectionReason \<Rightarrow> HandshakeType" where
  "to_handshake_type r = HandshakeType_from_bits (RejectionReason_to_bits r)"

section \<open>Configuration and outcome (handshake_sm.rs)\<close>

record HandshakeConfig =
  hc_latency_ms :: u16
  hc_mtu :: u32
  hc_max_flow_window_size :: u32
  hc_initial_seq_number :: u32
  hc_srt_version :: u32
  hc_flags :: u32
  hc_encryption_field :: EncryptionField
  hc_stream_id :: "bytes option"
  hc_group :: "GroupMembershipExtension option"
  hc_local_ip :: "u32 list"
  retransmit_after_ticks :: u32
  max_retries :: u32

definition DEFAULT_MAX_RETRIES :: u32 where "DEFAULT_MAX_RETRIES = 12"

definition HandshakeConfig_default :: HandshakeConfig where
  "HandshakeConfig_default =
     \<lparr>hc_latency_ms = 120, hc_mtu = 1500, hc_max_flow_window_size = 8192, hc_initial_seq_number = 0,
      hc_srt_version = 0x01050000,
      hc_flags = HS_MSG_FLAG_TSBPDSND OR HS_MSG_FLAG_TSBPDRCV OR HS_MSG_FLAG_CRYPT OR HS_MSG_FLAG_TLPKTDROP
        OR HS_MSG_FLAG_PERIODICNAK OR HS_MSG_FLAG_REXMITFLG,
      hc_encryption_field = NoEncryption, hc_stream_id = None, hc_group = None,
      hc_local_ip = [0, 0, 0, 0], retransmit_after_ticks = 3, max_retries = DEFAULT_MAX_RETRIES\<rparr>"

record NegotiatedParams =
  np_version :: u32
  np_flags :: u32
  np_latency_ms :: u16
  np_own_socket_id :: u32
  np_peer_socket_id :: u32
  np_mtu :: u32
  np_max_flow_window_size :: u32
  np_stream_id :: "bytes option"
  np_group :: "GroupMembershipExtension option"

datatype HandshakeOutput = Send bytes | Connected NegotiatedParams | Rejected RejectionReason | TimedOut

section \<open>Retransmission (handshake_sm.rs)\<close>

datatype RetransmitStep = StepIdle | Resend bytes | StepTimedOut

fun into_outputs :: "RetransmitStep \<Rightarrow> HandshakeOutput list" where
  "into_outputs StepIdle = []"
| "into_outputs (Resend bs) = [Send bs]"
| "into_outputs StepTimedOut = [TimedOut]"

text \<open>The tick and retry counters are \<open>u32\<close>: \<open>+\<close> wraps, as in a release build.\<close>

record Retransmit =
  last_sent :: "bytes option"
  ticks_since_send :: u32
  retries :: u32

definition Retransmit_default :: Retransmit where
  "Retransmit_default = \<lparr>last_sent = None, ticks_since_send = 0, retries = 0\<rparr>"

definition remember :: "Retransmit \<Rightarrow> bytes \<Rightarrow> Retransmit" where
  "remember r bs = r\<lparr>last_sent := Some bs\<rparr>"

definition arm :: "Retransmit \<Rightarrow> bytes \<Rightarrow> Retransmit" where
  "arm r bs = (remember r bs)\<lparr>ticks_since_send := 0\<rparr>"

definition arm_fresh :: "Retransmit \<Rightarrow> bytes \<Rightarrow> Retransmit" where
  "arm_fresh r bs = (arm r bs)\<lparr>retries := 0\<rparr>"

definition retransmit_tick :: "Retransmit \<Rightarrow> HandshakeConfig \<Rightarrow> Retransmit \<times> RetransmitStep" where
  "retransmit_tick r config =
     (let r = r\<lparr>ticks_since_send := ticks_since_send r + 1\<rparr>
      in if ticks_since_send r < retransmit_after_ticks config then (r, StepIdle)
         else let r = r\<lparr>ticks_since_send := 0, retries := retries r + 1\<rparr>
              in if retries r > max_retries config then (r, StepTimedOut)
                 else (r, case last_sent r of None \<Rightarrow> StepIdle | Some bs \<Rightarrow> Resend bs))"

section \<open>Packets (handshake_sm.rs)\<close>

definition build_bytes :: "HandshakePacket \<Rightarrow> (SrtError, bytes) result" where
  "build_bytes hp =
     (let pkt = Handshake hp
      in and_then (ControlPacket_serialize_into pkt (replicate (ControlPacket_serialized_len pkt) 0)) (\<lambda>(buf, _). Ok buf))"

definition build_conclusion_extensions ::
  "ExtensionType \<Rightarrow> HsExtMessage \<Rightarrow> bytes option \<Rightarrow> GroupMembershipExtension option \<Rightarrow> (SrtError, bytes \<times> u16) result" where
  "build_conclusion_extensions hs_ext_type hs_msg sid grp =
     and_then (build_extension_block hs_ext_type (HsExtMessage_to_bytes hs_msg)) (\<lambda>ext_bytes.
       and_then
         (case sid of
            None \<Rightarrow> Ok (ext_bytes, HS_EXT_FLAG_HSREQ)
          | Some sid \<Rightarrow> and_then (build_extension_block Sid (encode_stream_id sid)) (\<lambda>blk.
              Ok (ext_bytes @ blk, HS_EXT_FLAG_HSREQ OR HS_EXT_FLAG_CONFIG)))
         (\<lambda>(ext_bytes, ext_flags).
            case grp of
              None \<Rightarrow> Ok (ext_bytes, ext_flags)
            | Some g \<Rightarrow> and_then (build_extension_block Group (Group_to_bytes g)) (\<lambda>blk.
                Ok (ext_bytes @ blk, ext_flags OR HS_EXT_FLAG_CONFIG))))"

record ParsedPeerExtensions =
  ppe_hs_msg :: "HsExtMessage option"
  ppe_stream_id :: "bytes option"
  ppe_group :: "GroupMembershipExtension option"

definition invalid_field :: "string \<Rightarrow> string \<Rightarrow> SrtError" where
  "invalid_field field reason = SrtInvalidField \<lparr>if_field = field, if_reason = reason\<rparr>"

fun parse_peer_blocks ::
  "ParsedPeerExtensions \<Rightarrow> (SrtError, HandshakeExtensionBlock) result list \<Rightarrow> (SrtError, ParsedPeerExtensions) result" where
  "parse_peer_blocks out [] = Ok out"
| "parse_peer_blocks out (blk # rest) =
     and_then (map_err (\<lambda>_. invalid_field ''handshake extensions'' ''malformed extension block'') blk) (\<lambda>blk.
       if ext_type blk = HsReq \<or> ext_type blk = HsRsp then
         and_then (map_err (\<lambda>_. invalid_field ''handshake extension message'' ''malformed HSREQ/HSRSP contents'')
             (as_hs_ext_message blk))
           (\<lambda>msg. parse_peer_blocks (out\<lparr>ppe_hs_msg := Some msg\<rparr>) rest)
       else if ext_type blk = Sid then
         and_then (map_err (\<lambda>_. invalid_field ''stream ID extension'' ''malformed or non-UTF-8 contents'') (as_stream_id blk))
           (\<lambda>sid. parse_peer_blocks (out\<lparr>ppe_stream_id := Some sid\<rparr>) rest)
       else if ext_type blk = Group then
         and_then (map_err (\<lambda>_. invalid_field ''group membership extension'' ''malformed contents'') (as_group_membership blk))
           (\<lambda>g. parse_peer_blocks (out\<lparr>ppe_group := Some g\<rparr>) rest)
       else parse_peer_blocks out rest)"

definition parse_peer_extensions :: "HandshakePacket \<Rightarrow> (SrtError, ParsedPeerExtensions) result" where
  "parse_peer_extensions hp =
     parse_peer_blocks \<lparr>ppe_hs_msg = None, ppe_stream_id = None, ppe_group = None\<rparr> (ext_blocks (hs_extensions hp))"

definition negotiate_latency_ms :: "u16 \<Rightarrow> HsExtMessage \<Rightarrow> u16" where
  "negotiate_latency_ms local_latency_ms peer_msg =
     max (max local_latency_ms (receiver_tsbpd_delay_ms peer_msg)) (sender_tsbpd_delay_ms peer_msg)"

fun ControlType_name :: "ControlType \<Rightarrow> string" where
  "ControlType_name CtHandshake = ''handshake''"
| "ControlType_name CtKeepAlive = ''keep-alive''"
| "ControlType_name CtAck = ''ACK''"
| "ControlType_name CtNak = ''NAK''"
| "ControlType_name CtCongestionWarning = ''congestion warning''"
| "ControlType_name CtShutdown = ''shutdown''"
| "ControlType_name CtAckAck = ''ACKACK''"
| "ControlType_name CtDropReq = ''message drop request''"
| "ControlType_name CtPeerError = ''peer error''"
| "ControlType_name CtUserDefined = ''user-defined''"
| "ControlType_name (CtReserved v) = ''reserved''"

section \<open>The caller (caller.rs)\<close>

datatype CallerHandshakeState = CallerIdle | AwaitingInductionResponse | AwaitingConclusionResponse | CallerConnected
  | CallerRejected | CallerTimedOut

fun CallerHandshakeState_name :: "CallerHandshakeState \<Rightarrow> string" where
  "CallerHandshakeState_name CallerIdle = ''Idle''"
| "CallerHandshakeState_name AwaitingInductionResponse = ''AwaitingInductionResponse''"
| "CallerHandshakeState_name AwaitingConclusionResponse = ''AwaitingConclusionResponse''"
| "CallerHandshakeState_name CallerConnected = ''Connected''"
| "CallerHandshakeState_name CallerRejected = ''Rejected''"
| "CallerHandshakeState_name CallerTimedOut = ''TimedOut''"

record CallerHandshake =
  ch_own_socket_id :: u32
  ch_config :: HandshakeConfig
  ch_state :: CallerHandshakeState
  ch_peer_socket_id :: u32
  ch_syn_cookie :: u32
  ch_retransmit :: Retransmit
  ch_negotiated :: "NegotiatedParams option"

definition Caller_new :: "u32 \<Rightarrow> HandshakeConfig \<Rightarrow> CallerHandshake" where
  "Caller_new own_socket_id config =
     \<lparr>ch_own_socket_id = own_socket_id, ch_config = config, ch_state = CallerIdle, ch_peer_socket_id = 0,
      ch_syn_cookie = 0, ch_retransmit = Retransmit_default, ch_negotiated = None\<rparr>"

definition caller_induction :: "CallerHandshake \<Rightarrow> HandshakePacket" where
  "caller_induction c =
     (let config = ch_config c
      in \<lparr>hs_timestamp = 0, hs_dest_socket_id = 0, hs_version = HANDSHAKE_VERSION_4,
          hs_encryption_field = NoEncryption, hs_extension_field = INDUCTION_LEGACY_SOCKET_TYPE,
          hs_initial_seq_number = hc_initial_seq_number config, hs_mtu = hc_mtu config,
          hs_max_flow_window_size = hc_max_flow_window_size config, hs_handshake_type = Induction,
          hs_srt_socket_id = ch_own_socket_id c, hs_syn_cookie = 0, hs_peer_ip = hc_local_ip config,
          hs_extensions = []\<rparr>)"

definition caller_start :: "CallerHandshake \<Rightarrow> CallerHandshake \<times> (SrtError, bytes) result" where
  "caller_start c =
     (if ch_state c \<noteq> CallerIdle
      then (c, Err (HandshakeOutOfSequence (CallerHandshakeState_name (ch_state c))
             ''start() called after the handshake already began''))
      else case build_bytes (caller_induction c) of
             Inl e \<Rightarrow> (c, Err e)
           | Inr bs \<Rightarrow> (c\<lparr>ch_retransmit := arm (ch_retransmit c) bs, ch_state := AwaitingInductionResponse\<rparr>, Ok bs))"

definition caller_reject :: "CallerHandshake \<Rightarrow> RejectionReason \<Rightarrow> CallerHandshake \<times> (SrtError, HandshakeOutput list) result" where
  "caller_reject c reason = (c\<lparr>ch_state := CallerRejected\<rparr>, Ok [Rejected reason])"

definition own_hs_msg :: "HandshakeConfig \<Rightarrow> HsExtMessage" where
  "own_hs_msg config = \<lparr>srt_version = hc_srt_version config, srt_flags = hc_flags config,
     receiver_tsbpd_delay_ms = hc_latency_ms config, sender_tsbpd_delay_ms = hc_latency_ms config\<rparr>"

definition caller_conclusion :: "CallerHandshake \<Rightarrow> bytes \<Rightarrow> u16 \<Rightarrow> HandshakePacket" where
  "caller_conclusion c ext_bytes ext_flags =
     (let config = ch_config c
      in \<lparr>hs_timestamp = 0, hs_dest_socket_id = 0, hs_version = HANDSHAKE_VERSION_5,
          hs_encryption_field = hc_encryption_field config, hs_extension_field = ext_flags,
          hs_initial_seq_number = hc_initial_seq_number config, hs_mtu = hc_mtu config,
          hs_max_flow_window_size = hc_max_flow_window_size config, hs_handshake_type = Conclusion,
          hs_srt_socket_id = ch_own_socket_id c, hs_syn_cookie = ch_syn_cookie c, hs_peer_ip = hc_local_ip config,
          hs_extensions = ext_bytes\<rparr>)"

definition on_induction_response ::
  "CallerHandshake \<Rightarrow> HandshakePacket \<Rightarrow> CallerHandshake \<times> (SrtError, HandshakeOutput list) result" where
  "on_induction_response c hp =
     (case from_handshake_type (hs_handshake_type hp) of
        Some reason \<Rightarrow> caller_reject c reason
      | None \<Rightarrow>
          if hs_handshake_type hp \<noteq> Induction then caller_reject c Rogue
          else if hs_version hp \<noteq> HANDSHAKE_VERSION_5 then caller_reject c Version
          else if hs_extension_field hp \<noteq> SRT_MAGIC_CODE then caller_reject c Rogue
          else
            let c = c\<lparr>ch_peer_socket_id := hs_srt_socket_id hp, ch_syn_cookie := hs_syn_cookie hp\<rparr>
            in case build_conclusion_extensions HsReq (own_hs_msg (ch_config c)) (hc_stream_id (ch_config c)) (hc_group (ch_config c)) of
                 Inl e \<Rightarrow> (c, Err e)
               | Inr (ext_bytes, ext_flags) \<Rightarrow>
                   (case build_bytes (caller_conclusion c ext_bytes ext_flags) of
                      Inl e \<Rightarrow> (c, Err e)
                    | Inr bs \<Rightarrow> (c\<lparr>ch_retransmit := arm_fresh (ch_retransmit c) bs, ch_state := AwaitingConclusionResponse\<rparr>,
                                Ok [Send bs])))"

definition on_conclusion_response ::
  "CallerHandshake \<Rightarrow> HandshakePacket \<Rightarrow> CallerHandshake \<times> (SrtError, HandshakeOutput list) result" where
  "on_conclusion_response c hp =
     (case from_handshake_type (hs_handshake_type hp) of
        Some reason \<Rightarrow> caller_reject c reason
      | None \<Rightarrow>
          if hs_handshake_type hp \<noteq> Conclusion then caller_reject c Rogue
          else if hs_version hp \<noteq> HANDSHAKE_VERSION_5 then caller_reject c Version
          else if hs_initial_seq_number hp > SEQ_NUMBER_MASK then caller_reject c Rogue
          else
            let c = c\<lparr>ch_peer_socket_id := hs_srt_socket_id hp\<rparr>
            in case parse_peer_extensions hp of
                 Inl e \<Rightarrow> caller_reject c Rogue
               | Inr parsed \<Rightarrow>
                   (case ppe_hs_msg parsed of
                      None \<Rightarrow> caller_reject c Rogue
                    | Some peer_msg \<Rightarrow>
                        let negotiated =
                          \<lparr>np_version = HANDSHAKE_VERSION_5, np_flags = hc_flags (ch_config c) AND srt_flags peer_msg,
                           np_latency_ms = negotiate_latency_ms (hc_latency_ms (ch_config c)) peer_msg,
                           np_own_socket_id = ch_own_socket_id c, np_peer_socket_id = ch_peer_socket_id c,
                           np_mtu = min (hc_mtu (ch_config c)) (hs_mtu hp),
                           np_max_flow_window_size = min (hc_max_flow_window_size (ch_config c)) (hs_max_flow_window_size hp),
                           np_stream_id = hc_stream_id (ch_config c), np_group = hc_group (ch_config c)\<rparr>
                        in (c\<lparr>ch_negotiated := Some negotiated, ch_state := CallerConnected\<rparr>, Ok [Connected negotiated])))"

definition caller_feed ::
  "CallerHandshake \<Rightarrow> ControlPacket \<Rightarrow> CallerHandshake \<times> (SrtError, HandshakeOutput list) result" where
  "caller_feed c packet =
     (case packet of
        Handshake hp \<Rightarrow>
          (case ch_state c of
             AwaitingInductionResponse \<Rightarrow> on_induction_response c hp
           | AwaitingConclusionResponse \<Rightarrow>
               if hs_handshake_type hp = Induction then (c, Ok []) else on_conclusion_response c hp
           | _ \<Rightarrow> (c, Err (HandshakeOutOfSequence (CallerHandshakeState_name (ch_state c)) ''not awaiting a handshake response'')))
      | _ \<Rightarrow> (c, Err (UnexpectedControlPacket (ControlType_name (control_type packet)))))"

definition caller_feed_bytes ::
  "CallerHandshake \<Rightarrow> bytes \<Rightarrow> CallerHandshake \<times> (SrtError, HandshakeOutput list) result" where
  "caller_feed_bytes c bs = (case ControlPacket_parse bs of Inl e \<Rightarrow> (c, Err e) | Inr packet \<Rightarrow> caller_feed c packet)"

definition caller_tick :: "CallerHandshake \<Rightarrow> CallerHandshake \<times> HandshakeOutput list" where
  "caller_tick c =
     (if ch_state c \<notin> {AwaitingInductionResponse, AwaitingConclusionResponse} then (c, [])
      else let (r, step) = retransmit_tick (ch_retransmit c) (ch_config c);
               c = c\<lparr>ch_retransmit := r\<rparr>;
               c = (if step = StepTimedOut then c\<lparr>ch_state := CallerTimedOut\<rparr> else c)
           in (c, into_outputs step))"

section \<open>The listener (listener.rs)\<close>

datatype ListenerHandshakeState = ListenerIdle | AwaitingConclusion | ListenerConnected | ListenerRejected | ListenerTimedOut

fun ListenerHandshakeState_name :: "ListenerHandshakeState \<Rightarrow> string" where
  "ListenerHandshakeState_name ListenerIdle = ''Idle''"
| "ListenerHandshakeState_name AwaitingConclusion = ''AwaitingConclusion''"
| "ListenerHandshakeState_name ListenerConnected = ''Connected''"
| "ListenerHandshakeState_name ListenerRejected = ''Rejected''"
| "ListenerHandshakeState_name ListenerTimedOut = ''TimedOut''"

record ListenerHandshake =
  lh_own_socket_id :: u32
  lh_syn_cookie :: u32
  lh_config :: HandshakeConfig
  lh_state :: ListenerHandshakeState
  lh_peer_socket_id :: u32
  lh_retransmit :: Retransmit
  lh_negotiated :: "NegotiatedParams option"

definition Listener_new :: "u32 \<Rightarrow> u32 \<Rightarrow> HandshakeConfig \<Rightarrow> ListenerHandshake" where
  "Listener_new own_socket_id syn_cookie config =
     \<lparr>lh_own_socket_id = own_socket_id, lh_syn_cookie = syn_cookie, lh_config = config, lh_state = ListenerIdle,
      lh_peer_socket_id = 0, lh_retransmit = Retransmit_default, lh_negotiated = None\<rparr>"

definition rejection_packet :: "ListenerHandshake \<Rightarrow> RejectionReason \<Rightarrow> HandshakePacket \<Rightarrow> HandshakePacket" where
  "rejection_packet l reason hp =
     \<lparr>hs_timestamp = 0, hs_dest_socket_id = hs_srt_socket_id hp, hs_version = HANDSHAKE_VERSION_5,
      hs_encryption_field = NoEncryption, hs_extension_field = 0, hs_initial_seq_number = 0,
      hs_mtu = hc_mtu (lh_config l), hs_max_flow_window_size = hc_max_flow_window_size (lh_config l),
      hs_handshake_type = to_handshake_type reason, hs_srt_socket_id = lh_own_socket_id l, hs_syn_cookie = 0,
      hs_peer_ip = hc_local_ip (lh_config l), hs_extensions = []\<rparr>"

definition listener_reject ::
  "ListenerHandshake \<Rightarrow> RejectionReason \<Rightarrow> HandshakePacket \<Rightarrow> ListenerHandshake \<times> (SrtError, HandshakeOutput list) result" where
  "listener_reject l reason hp =
     (let l = l\<lparr>lh_state := ListenerRejected\<rparr>
      in case build_bytes (rejection_packet l reason hp) of
           Inl e \<Rightarrow> (l, Err e)
         | Inr bs \<Rightarrow> (l\<lparr>lh_retransmit := remember (lh_retransmit l) bs\<rparr>, Ok [Send bs, Rejected reason]))"

definition listener_induction :: "ListenerHandshake \<Rightarrow> HandshakePacket" where
  "listener_induction l =
     (let config = lh_config l
      in \<lparr>hs_timestamp = 0, hs_dest_socket_id = lh_peer_socket_id l, hs_version = HANDSHAKE_VERSION_5,
          hs_encryption_field = hc_encryption_field config, hs_extension_field = SRT_MAGIC_CODE,
          hs_initial_seq_number = hc_initial_seq_number config, hs_mtu = hc_mtu config,
          hs_max_flow_window_size = hc_max_flow_window_size config, hs_handshake_type = Induction,
          hs_srt_socket_id = lh_own_socket_id l, hs_syn_cookie = lh_syn_cookie l, hs_peer_ip = hc_local_ip config,
          hs_extensions = []\<rparr>)"

definition on_induction ::
  "ListenerHandshake \<Rightarrow> HandshakePacket \<Rightarrow> ListenerHandshake \<times> (SrtError, HandshakeOutput list) result" where
  "on_induction l hp =
     (if hs_handshake_type hp \<noteq> Induction
      then (l, Err (HandshakeOutOfSequence (ListenerHandshakeState_name (lh_state l)) ''expected an INDUCTION handshake''))
      else if hs_initial_seq_number hp > SEQ_NUMBER_MASK then listener_reject l Rogue hp
      else
        let l = l\<lparr>lh_peer_socket_id := hs_srt_socket_id hp\<rparr>
        in case build_bytes (listener_induction l) of
             Inl e \<Rightarrow> (l, Err e)
           | Inr bs \<Rightarrow> (l\<lparr>lh_retransmit := arm (lh_retransmit l) bs, lh_state := AwaitingConclusion\<rparr>, Ok [Send bs]))"

definition listener_conclusion :: "ListenerHandshake \<Rightarrow> bytes \<Rightarrow> u16 \<Rightarrow> HandshakePacket" where
  "listener_conclusion l ext_bytes ext_flags =
     (let config = lh_config l
      in \<lparr>hs_timestamp = 0, hs_dest_socket_id = lh_peer_socket_id l, hs_version = HANDSHAKE_VERSION_5,
          hs_encryption_field = hc_encryption_field config, hs_extension_field = ext_flags,
          hs_initial_seq_number = hc_initial_seq_number config, hs_mtu = hc_mtu config,
          hs_max_flow_window_size = hc_max_flow_window_size config, hs_handshake_type = Conclusion,
          hs_srt_socket_id = lh_own_socket_id l, hs_syn_cookie = 0, hs_peer_ip = hc_local_ip config,
          hs_extensions = ext_bytes\<rparr>)"

definition on_conclusion ::
  "ListenerHandshake \<Rightarrow> HandshakePacket \<Rightarrow> ListenerHandshake \<times> (SrtError, HandshakeOutput list) result" where
  "on_conclusion l hp =
     (if hs_handshake_type hp \<noteq> Conclusion then listener_reject l Rogue hp
      else if hs_version hp \<noteq> HANDSHAKE_VERSION_5 then listener_reject l Version hp
      else if hs_initial_seq_number hp > SEQ_NUMBER_MASK then listener_reject l Rogue hp
      else if hs_syn_cookie hp \<noteq> lh_syn_cookie l then listener_reject l Rogue hp
      else case parse_peer_extensions hp of
             Inl e \<Rightarrow> listener_reject l Rogue hp
           | Inr parsed \<Rightarrow>
               (case ppe_hs_msg parsed of
                  None \<Rightarrow> listener_reject l Rogue hp
                | Some peer_msg \<Rightarrow>
                    let l = l\<lparr>lh_peer_socket_id := hs_srt_socket_id hp\<rparr>;
                        negotiated =
                          \<lparr>np_version = HANDSHAKE_VERSION_5, np_flags = hc_flags (lh_config l) AND srt_flags peer_msg,
                           np_latency_ms = negotiate_latency_ms (hc_latency_ms (lh_config l)) peer_msg,
                           np_own_socket_id = lh_own_socket_id l, np_peer_socket_id = lh_peer_socket_id l,
                           np_mtu = min (hc_mtu (lh_config l)) (hs_mtu hp),
                           np_max_flow_window_size = min (hc_max_flow_window_size (lh_config l)) (hs_max_flow_window_size hp),
                           np_stream_id = ppe_stream_id parsed, np_group = ppe_group parsed\<rparr>
                    in case build_conclusion_extensions HsRsp (own_hs_msg (lh_config l)) None (hc_group (lh_config l)) of
                         Inl e \<Rightarrow> (l, Err e)
                       | Inr (ext_bytes, ext_flags) \<Rightarrow>
                           (case build_bytes (listener_conclusion l ext_bytes ext_flags) of
                              Inl e \<Rightarrow> (l, Err e)
                            | Inr bs \<Rightarrow>
                                (l\<lparr>lh_retransmit := remember (lh_retransmit l) bs, lh_negotiated := Some negotiated,
                                   lh_state := ListenerConnected\<rparr>, Ok [Send bs, Connected negotiated]))))"

definition listener_feed ::
  "ListenerHandshake \<Rightarrow> ControlPacket \<Rightarrow> ListenerHandshake \<times> (SrtError, HandshakeOutput list) result" where
  "listener_feed l packet =
     (case packet of
        Handshake hp \<Rightarrow>
          (if lh_state l = ListenerIdle then on_induction l hp
           else if lh_state l = AwaitingConclusion \<and> hs_handshake_type hp = Induction then on_induction l hp
           else if lh_state l = AwaitingConclusion then on_conclusion l hp
           else if lh_state l = ListenerConnected \<and> hs_handshake_type hp = Conclusion \<and>
             hs_srt_socket_id hp = lh_peer_socket_id l \<and> hs_syn_cookie hp = lh_syn_cookie l
           then (l, Ok (case last_sent (lh_retransmit l) of None \<Rightarrow> [] | Some bs \<Rightarrow> [Send bs]))
           else (l, Err (HandshakeOutOfSequence (ListenerHandshakeState_name (lh_state l))
                   ''not awaiting an induction or conclusion'')))
      | _ \<Rightarrow> (l, Err (UnexpectedControlPacket (ControlType_name (control_type packet)))))"

definition listener_feed_bytes ::
  "ListenerHandshake \<Rightarrow> bytes \<Rightarrow> ListenerHandshake \<times> (SrtError, HandshakeOutput list) result" where
  "listener_feed_bytes l bs = (case ControlPacket_parse bs of Inl e \<Rightarrow> (l, Err e) | Inr packet \<Rightarrow> listener_feed l packet)"

definition listener_tick :: "ListenerHandshake \<Rightarrow> ListenerHandshake \<times> HandshakeOutput list" where
  "listener_tick l =
     (if lh_state l \<noteq> AwaitingConclusion then (l, [])
      else let (r, step) = retransmit_tick (lh_retransmit l) (lh_config l);
               l = l\<lparr>lh_retransmit := r\<rparr>;
               l = (if step = StepTimedOut then l\<lparr>lh_state := ListenerTimedOut\<rparr> else l)
           in (l, into_outputs step))"

section \<open>What a connection is seeded with (io.rs)\<close>

record PeerHandshake =
  ph_initial_seq_number :: u32
  ph_timestamp_us :: u32

definition peer_handshake :: "bytes \<Rightarrow> (SrtError, PeerHandshake) result" where
  "peer_handshake bs =
     (case SrtPacket_parse bs of
        Inr (Control (Handshake hp)) \<Rightarrow> Ok \<lparr>ph_initial_seq_number = hs_initial_seq_number hp, ph_timestamp_us = hs_timestamp hp\<rparr>
      | _ \<Rightarrow> Err (invalid_field ''peer handshake''
          ''handshake reached Connected but its final packet did not re-parse as a Handshake control packet; refusing to seed ARQ/TSBPD with a fabricated ISN''))"

section \<open>The cookie (handshake_sm.rs)\<close>

type_synonym sip_state = "u64 \<times> u64 \<times> u64 \<times> u64"

definition sip_round :: "sip_state \<Rightarrow> sip_state" where
  "sip_round v =
     (let (v0, v1, v2, v3) = v;
          v0 = v0 + v1; v1 = word_rotl 13 v1; v1 = v1 XOR v0; v0 = word_rotl 32 v0;
          v2 = v2 + v3; v3 = word_rotl 16 v3; v3 = v3 XOR v2;
          v0 = v0 + v3; v3 = word_rotl 21 v3; v3 = v3 XOR v0;
          v2 = v2 + v1; v1 = word_rotl 17 v1; v1 = v1 XOR v2; v2 = word_rotl 32 v2
      in (v0, v1, v2, v3))"

definition le64 :: "bytes \<Rightarrow> u64" where
  "le64 bs = foldr (\<lambda>b w. ucast b OR push_bit 8 w) bs 0"

definition sip_block :: "u64 \<Rightarrow> sip_state \<Rightarrow> sip_state" where
  "sip_block m v =
     (let (v0, v1, v2, v3) = v;
          (v0, v1, v2, v3) = (sip_round ^^ 2) (v0, v1, v2, v3 XOR m)
      in (v0 XOR m, v1, v2, v3))"

text \<open>\<open>chunks_exact(8)\<close>, and what is left of it.\<close>

function sip_chunks :: "bytes \<Rightarrow> sip_state \<Rightarrow> sip_state \<times> bytes" where
  "sip_chunks data v = (if length data < 8 then (v, data) else sip_chunks (drop 8 data) (sip_block (le64 (take 8 data)) v))"
  by pat_completeness auto
termination by (relation "measure (length \<circ> fst)") auto

declare sip_chunks.simps [simp del]

definition siphash24 :: "u64 \<Rightarrow> u64 \<Rightarrow> bytes \<Rightarrow> u64" where
  "siphash24 k0 k1 data =
     (let (v, rest) = sip_chunks data (k0 XOR 0x736f6d6570736575, k1 XOR 0x646f72616e646f6d,
            k0 XOR 0x6c7967656e657261, k1 XOR 0x7465646279746573);
          last_block = put_slice (replicate 8 0) 0 rest;
          last_block = last_block[7 := of_nat (length data)];
          (v0, v1, v2, v3) = sip_block (le64 last_block) v;
          (v0, v1, v2, v3) = (sip_round ^^ 4) (v0, v1, v2 XOR 0xFF, v3)
      in v0 XOR v1 XOR v2 XOR v3)"

definition le_bytes :: "nat \<Rightarrow> u64 \<Rightarrow> bytes" where
  "le_bytes n w = map (\<lambda>i. ucast (drop_bit (8 * i) w)) [0..<n]"

definition derive_cookie :: "u64 \<Rightarrow> u32 \<Rightarrow> 128 word \<Rightarrow> u32" where
  "derive_cookie peer_key time_bucket secret =
     (let input = le_bytes 8 peer_key @ le_bytes 4 (ucast time_bucket);
          k0 = ucast secret;
          k1 = ucast (drop_bit 64 secret);
          digest = siphash24 k0 k1 input
      in ucast digest OR 1)"

end
