(* ===== verification/Srt_Connect_Spec.thy ===== *)
theory Srt_Connect_Spec
  imports Srt_Connect
begin

text \<open>
  The caller-listener handshake: the exchange over bytes completes with the same parameters on both
  sides, a listener connects only to a caller that knows its cookie, refusals reach the caller with
  their reason, and a handshake without an answer ends after its retry budget.
\<close>

section \<open>Packets over the wire\<close>

lemma build_bytes_ok:
  assumes "hs_ok hp"
  shows "build_bytes hp = Inr (ctl_wire (Handshake hp))"
proof -
  have "ctl_ok (Handshake hp)" using assms by simp
  then show ?thesis
    using ctl_type_fits[of "Handshake hp"]
    by (simp add: build_bytes_def Let_def ControlPacket_serialize_eq ControlPacket_serialized_len_def SRT_HEADER_LEN_def)
qed

lemma parse_built: "hs_ok hp \<Longrightarrow> ControlPacket_parse (ctl_wire (Handshake hp)) = Inr (Handshake hp)"
  by (rule ControlPacket_parse_wire) simp

lemma caller_feed_built: "hs_ok hp \<Longrightarrow> caller_feed_bytes c (ctl_wire (Handshake hp)) = caller_feed c (Handshake hp)"
  by (simp add: caller_feed_bytes_def parse_built)

lemma listener_feed_built: "hs_ok hp \<Longrightarrow> listener_feed_bytes l (ctl_wire (Handshake hp)) = listener_feed l (Handshake hp)"
  by (simp add: listener_feed_bytes_def parse_built)

section \<open>The extensions of a conclusion\<close>

definition sid_ok :: "bytes option \<Rightarrow> bool" where
  "sid_ok sid \<longleftrightarrow> (case sid of None \<Rightarrow> True
     | Some s \<Rightarrow> utf8_valid s \<and> (s = [] \<or> last s \<noteq> 0) \<and> length s + 4 \<le> 2 ^ 18)"

definition grp_ok :: "GroupMembershipExtension option \<Rightarrow> bool" where
  "grp_ok grp \<longleftrightarrow> (case grp of None \<Rightarrow> True | Some g \<Rightarrow> gt_canonical (group_type g))"

definition ext_list :: "ExtensionType \<Rightarrow> HsExtMessage \<Rightarrow> bytes option \<Rightarrow> GroupMembershipExtension option \<Rightarrow> HandshakeExtensionBlock list" where
  "ext_list t m sid grp = [\<lparr>ext_type = t, ext_contents = HsExtMessage_to_bytes m\<rparr>]
     @ (case sid of None \<Rightarrow> [] | Some s \<Rightarrow> [\<lparr>ext_type = Sid, ext_contents = encode_stream_id s\<rparr>])
     @ (case grp of None \<Rightarrow> [] | Some g \<Rightarrow> [\<lparr>ext_type = Group, ext_contents = Group_to_bytes g\<rparr>])"

lemma ext_list_blocks:
  assumes "t \<in> {HsReq, HsRsp}" "sid_ok sid" "grp_ok grp"
  shows "list_all blk_ok (ext_list t m sid grp)"
proof -
  have hs: "blk_ok \<lparr>ext_type = t, ext_contents = HsExtMessage_to_bytes m\<rparr>"
    using assms(1) by (auto simp: blk_ok_def et_canonical_def HsExtMessage_to_bytes_eq)
  have sid: "blk_ok \<lparr>ext_type = Sid, ext_contents = encode_stream_id s\<rparr>" if "sid = Some s" for s
    using stream_id_decodes[of s Sid] assms(2) that by (auto simp: sid_ok_def blk_ok_def et_canonical_def)
  have grp: "blk_ok \<lparr>ext_type = Group, ext_contents = Group_to_bytes g\<rparr>" for g
    by (simp add: blk_ok_def et_canonical_def Group_to_bytes_eq)
  show ?thesis using hs sid grp by (simp add: ext_list_def split: option.split)
qed

lemma build_extensions_ok:
  assumes "t \<in> {HsReq, HsRsp}" "sid_ok sid" "grp_ok grp"
  shows "\<exists>flags. build_conclusion_extensions t m sid grp = Inr (concat (map blk_wire (ext_list t m sid grp)), flags)"
proof -
  have b: "build_extension_block (ext_type b) (ext_contents b) = Inr (blk_wire b)" if "b \<in> set (ext_list t m sid grp)" for b
    using ext_list_blocks[OF assms, of m] that by (intro build_extension_block_ok) (simp add: list_all_iff)
  show ?thesis
    using b[of "\<lparr>ext_type = t, ext_contents = HsExtMessage_to_bytes m\<rparr>"]
      b[of "\<lparr>ext_type = Sid, ext_contents = encode_stream_id (the sid)\<rparr>"]
      b[of "\<lparr>ext_type = Group, ext_contents = Group_to_bytes (the grp)\<rparr>"]
    by (cases sid; cases grp) (simp_all add: build_conclusion_extensions_def ext_list_def)
qed

lemma parse_ext_list:
  assumes "t \<in> {HsReq, HsRsp}" "sid_ok sid" "grp_ok grp"
    and "hs_extensions hp = concat (map blk_wire (ext_list t m sid grp))"
  shows "parse_peer_extensions hp = Inr \<lparr>ppe_hs_msg = Some m, ppe_stream_id = sid, ppe_group = grp\<rparr>"
proof -
  have sid: "as_stream_id \<lparr>ext_type = Sid, ext_contents = encode_stream_id s\<rparr> = Inr s" if "sid = Some s" for s
    using stream_id_decodes[of s Sid] assms(2) that by (simp add: sid_ok_def)
  have grp: "as_group_membership \<lparr>ext_type = Group, ext_contents = Group_to_bytes g\<rparr> = Inr g" if "grp = Some g" for g
    using Group_round[of g] assms(3) that by (simp add: grp_ok_def as_group_membership_def)
  have "ext_blocks (hs_extensions hp) = map Inr (ext_list t m sid grp)"
    unfolding assms(4) by (rule ext_blocks_wires[OF ext_list_blocks[OF assms(1-3)]])
  then show ?thesis
    using assms(1) sid grp
    by (cases sid; cases grp) (auto simp: parse_peer_extensions_def ext_list_def as_hs_ext_message_def HsExtMessage_round)
qed

section \<open>The exchange\<close>

definition config_ok :: "HandshakeConfig \<Rightarrow> bool" where
  "config_ok config \<longleftrightarrow> ef_canonical (hc_encryption_field config) \<and> length (hc_local_ip config) = 4 \<and>
     hc_initial_seq_number config \<le> SEQ_NUMBER_MASK \<and> sid_ok (hc_stream_id config) \<and> grp_ok (hc_group config)"

lemma ht_canonical_defined [simp]: "ht_canonical Induction" "ht_canonical Conclusion"
  by (simp_all add: ht_canonical_def)

lemma ef_canonical_none [simp]: "ef_canonical NoEncryption"
  by (simp add: ef_canonical_def)

text \<open>The parameters one side agrees on.\<close>

definition agreed :: "HandshakeConfig \<Rightarrow> HandshakeConfig \<Rightarrow> u32 \<Rightarrow> u32 \<Rightarrow> bytes option \<Rightarrow> GroupMembershipExtension option \<Rightarrow> NegotiatedParams" where
  "agreed own peer own_id peer_id sid grp =
     \<lparr>np_version = 5, np_flags = hc_flags own AND hc_flags peer, np_latency_ms = max (hc_latency_ms own) (hc_latency_ms peer),
      np_own_socket_id = own_id, np_peer_socket_id = peer_id, np_mtu = min (hc_mtu own) (hc_mtu peer),
      np_max_flow_window_size = min (hc_max_flow_window_size own) (hc_max_flow_window_size peer),
      np_stream_id = sid, np_group = grp\<rparr>"

lemma latency_own: "negotiate_latency_ms a (own_hs_msg config) = max a (hc_latency_ms config)"
  by (simp add: negotiate_latency_ms_def own_hs_msg_def)

text \<open>What a packet seeds the peer's connection with: the initial sequence number of its sender, at time 0.\<close>

definition seeds :: "HandshakePacket \<Rightarrow> HandshakeConfig \<Rightarrow> bool" where
  "seeds hp config \<longleftrightarrow> hs_initial_seq_number hp = hc_initial_seq_number config \<and> hs_timestamp hp = 0"

lemma peer_handshake_built: "hs_ok hp \<Longrightarrow> seeds hp config \<Longrightarrow>
    peer_handshake (ctl_wire (Handshake hp)) = Inr \<lparr>ph_initial_seq_number = hc_initial_seq_number config, ph_timestamp_us = 0\<rparr>"
  using SrtPacket_parse_wire[of "Control (Handshake hp)"] by (simp add: peer_handshake_def seeds_def)

lemma caller_starts:
  assumes "config_ok cc"
  shows "\<exists>c hp. caller_start (Caller_new cid cc) = (c, Inr (ctl_wire (Handshake hp))) \<and> hs_ok hp \<and>
    ch_state c = AwaitingInductionResponse \<and> ch_config c = cc \<and> ch_own_socket_id c = cid \<and>
    hs_handshake_type hp = Induction \<and> hs_initial_seq_number hp \<le> SEQ_NUMBER_MASK \<and> hs_srt_socket_id hp = cid \<and>
    seeds hp cc"
proof -
  let ?hp = "caller_induction (Caller_new cid cc)"
  have ok: "hs_ok ?hp" using assms by (simp add: hs_ok_def caller_induction_def Caller_new_def config_ok_def Let_def)
  show ?thesis
    using assms ok build_bytes_ok[OF ok]
    by (intro exI[of _ "fst (caller_start (Caller_new cid cc))"] exI[of _ ?hp])
      (simp add: caller_start_def Caller_new_def caller_induction_def config_ok_def seeds_def Let_def)
qed

lemma listener_answers_induction:
  assumes "config_ok (lh_config l)" "hs_handshake_type hp = Induction" "hs_initial_seq_number hp \<le> SEQ_NUMBER_MASK"
    "lh_state l = ListenerIdle \<or> lh_state l = AwaitingConclusion"
  shows "\<exists>l' hp'. listener_feed l (Handshake hp) = (l', Inr [Send (ctl_wire (Handshake hp'))]) \<and> hs_ok hp' \<and>
    lh_state l' = AwaitingConclusion \<and> lh_config l' = lh_config l \<and> lh_own_socket_id l' = lh_own_socket_id l \<and>
    lh_syn_cookie l' = lh_syn_cookie l \<and>
    hs_handshake_type hp' = Induction \<and> hs_version hp' = HANDSHAKE_VERSION_5 \<and> hs_extension_field hp' = SRT_MAGIC_CODE \<and>
    hs_syn_cookie hp' = lh_syn_cookie l \<and> hs_srt_socket_id hp' = lh_own_socket_id l \<and> seeds hp' (lh_config l)"
proof -
  let ?l = "l\<lparr>lh_peer_socket_id := hs_srt_socket_id hp\<rparr>"
  let ?hp = "listener_induction ?l"
  have ok: "hs_ok ?hp" using assms(1) by (simp add: hs_ok_def listener_induction_def config_ok_def Let_def)
  have "listener_feed l (Handshake hp) = on_induction l hp" using assms(2,4) by (auto simp: listener_feed_def)
  also have "\<dots> = (?l\<lparr>lh_retransmit := arm (lh_retransmit ?l) (ctl_wire (Handshake ?hp)), lh_state := AwaitingConclusion\<rparr>,
      Inr [Send (ctl_wire (Handshake ?hp))])"
    using assms(2) not_less[THEN iffD2, OF assms(3)] build_bytes_ok[OF ok] by (simp add: on_induction_def Let_def)
  finally show ?thesis
    using ok by (intro exI[of _ "?l\<lparr>lh_retransmit := arm (lh_retransmit ?l) (ctl_wire (Handshake ?hp)), lh_state := AwaitingConclusion\<rparr>"]
        exI[of _ ?hp]) (simp add: listener_induction_def seeds_def Let_def)
qed

lemma caller_concludes:
  assumes "config_ok (ch_config c)" "ch_state c = AwaitingInductionResponse"
    "hs_handshake_type hp = Induction" "hs_version hp = HANDSHAKE_VERSION_5" "hs_extension_field hp = SRT_MAGIC_CODE"
  shows "\<exists>c' hp'. caller_feed c (Handshake hp) = (c', Inr [Send (ctl_wire (Handshake hp'))]) \<and> hs_ok hp' \<and>
    ch_state c' = AwaitingConclusionResponse \<and> ch_config c' = ch_config c \<and> ch_own_socket_id c' = ch_own_socket_id c \<and>
    hs_handshake_type hp' = Conclusion \<and> hs_version hp' = HANDSHAKE_VERSION_5 \<and> hs_syn_cookie hp' = hs_syn_cookie hp \<and>
    hs_initial_seq_number hp' \<le> SEQ_NUMBER_MASK \<and> hs_srt_socket_id hp' = ch_own_socket_id c \<and>
    hs_mtu hp' = hc_mtu (ch_config c) \<and> hs_max_flow_window_size hp' = hc_max_flow_window_size (ch_config c) \<and>
    hs_extensions hp' = concat (map blk_wire (ext_list HsReq (own_hs_msg (ch_config c)) (hc_stream_id (ch_config c)) (hc_group (ch_config c)))) \<and>
    seeds hp' (ch_config c)"
proof -
  let ?c = "c\<lparr>ch_peer_socket_id := hs_srt_socket_id hp, ch_syn_cookie := hs_syn_cookie hp\<rparr>"
  let ?ext = "concat (map blk_wire (ext_list HsReq (own_hs_msg (ch_config c)) (hc_stream_id (ch_config c)) (hc_group (ch_config c))))"
  obtain flags where b: "build_conclusion_extensions HsReq (own_hs_msg (ch_config c)) (hc_stream_id (ch_config c)) (hc_group (ch_config c)) = Inr (?ext, flags)"
    using build_extensions_ok[of HsReq] assms(1) unfolding config_ok_def by blast
  let ?hp = "caller_conclusion ?c ?ext flags"
  let ?c' = "?c\<lparr>ch_retransmit := arm_fresh (ch_retransmit ?c) (ctl_wire (Handshake ?hp)), ch_state := AwaitingConclusionResponse\<rparr>"
  have ok: "hs_ok ?hp" using assms(1) by (simp add: hs_ok_def caller_conclusion_def config_ok_def Let_def)
  have "caller_feed c (Handshake hp) = (?c', Inr [Send (ctl_wire (Handshake ?hp))])"
    using assms(2-5) b build_bytes_ok[OF ok] by (simp add: caller_feed_def on_induction_response_def from_handshake_type_def Let_def)
  then show ?thesis
    using ok assms(1) by (intro exI[of _ ?c'] exI[of _ ?hp]) (simp add: caller_conclusion_def config_ok_def seeds_def Let_def)
qed

lemma listener_connects:
  assumes "config_ok (lh_config l)" "lh_state l = AwaitingConclusion"
    "hs_handshake_type hp = Conclusion" "hs_version hp = HANDSHAKE_VERSION_5" "hs_initial_seq_number hp \<le> SEQ_NUMBER_MASK"
    "hs_syn_cookie hp = lh_syn_cookie l" "hs_mtu hp = hc_mtu cc" "hs_max_flow_window_size hp = hc_max_flow_window_size cc"
    and cc: "sid_ok (hc_stream_id cc)" "grp_ok (hc_group cc)"
      "hs_extensions hp = concat (map blk_wire (ext_list HsReq (own_hs_msg cc) (hc_stream_id cc) (hc_group cc)))"
  shows "\<exists>l' hp'. listener_feed l (Handshake hp) = (l', Inr [Send (ctl_wire (Handshake hp')),
      Connected (agreed (lh_config l) cc (lh_own_socket_id l) (hs_srt_socket_id hp) (hc_stream_id cc) (hc_group cc))]) \<and>
    hs_ok hp' \<and> lh_state l' = ListenerConnected \<and>
    lh_negotiated l' = Some (agreed (lh_config l) cc (lh_own_socket_id l) (hs_srt_socket_id hp) (hc_stream_id cc) (hc_group cc)) \<and>
    hs_handshake_type hp' = Conclusion \<and> hs_version hp' = HANDSHAKE_VERSION_5 \<and> hs_initial_seq_number hp' \<le> SEQ_NUMBER_MASK \<and>
    hs_srt_socket_id hp' = lh_own_socket_id l \<and> hs_mtu hp' = hc_mtu (lh_config l) \<and>
    hs_max_flow_window_size hp' = hc_max_flow_window_size (lh_config l) \<and>
    hs_extensions hp' = concat (map blk_wire (ext_list HsRsp (own_hs_msg (lh_config l)) None (hc_group (lh_config l)))) \<and>
    seeds hp' (lh_config l)"
proof -
  let ?lc = "lh_config l"
  let ?n = "agreed ?lc cc (lh_own_socket_id l) (hs_srt_socket_id hp) (hc_stream_id cc) (hc_group cc)"
  let ?l = "l\<lparr>lh_peer_socket_id := hs_srt_socket_id hp\<rparr>"
  let ?ext = "concat (map blk_wire (ext_list HsRsp (own_hs_msg ?lc) None (hc_group ?lc)))"
  obtain flags where b: "build_conclusion_extensions HsRsp (own_hs_msg ?lc) None (hc_group ?lc) = Inr (?ext, flags)"
    using build_extensions_ok[of HsRsp None "hc_group ?lc" "own_hs_msg ?lc"] assms(1) by (auto simp: config_ok_def sid_ok_def)
  let ?hp = "listener_conclusion ?l ?ext flags"
  let ?l' = "?l\<lparr>lh_retransmit := remember (lh_retransmit ?l) (ctl_wire (Handshake ?hp)), lh_negotiated := Some ?n, lh_state := ListenerConnected\<rparr>"
  have ok: "hs_ok ?hp" using assms(1) by (simp add: hs_ok_def listener_conclusion_def config_ok_def Let_def)
  have p: "parse_peer_extensions hp = Inr \<lparr>ppe_hs_msg = Some (own_hs_msg cc), ppe_stream_id = hc_stream_id cc, ppe_group = hc_group cc\<rparr>"
    by (rule parse_ext_list[OF _ cc]) simp
  have neg: "\<lparr>np_version = HANDSHAKE_VERSION_5, np_flags = hc_flags ?lc AND srt_flags (own_hs_msg cc),
      np_latency_ms = negotiate_latency_ms (hc_latency_ms ?lc) (own_hs_msg cc), np_own_socket_id = lh_own_socket_id l,
      np_peer_socket_id = hs_srt_socket_id hp, np_mtu = min (hc_mtu ?lc) (hs_mtu hp),
      np_max_flow_window_size = min (hc_max_flow_window_size ?lc) (hs_max_flow_window_size hp),
      np_stream_id = hc_stream_id cc, np_group = hc_group cc\<rparr> = ?n"
    unfolding latency_own by (simp add: agreed_def own_hs_msg_def HANDSHAKE_VERSION_5_def assms(7,8))
  have "listener_feed l (Handshake hp) = on_conclusion l hp" using assms(2,3) by (simp add: listener_feed_def)
  also have "\<dots> = (?l', Inr [Send (ctl_wire (Handshake ?hp)), Connected ?n])"
    using assms(3,4,6) not_less[THEN iffD2, OF assms(5)] b build_bytes_ok[OF ok] p neg
    by (simp add: on_conclusion_def Let_def)
  finally show ?thesis
    using ok assms(1) by (intro exI[of _ ?l'] exI[of _ ?hp]) (simp add: listener_conclusion_def config_ok_def seeds_def Let_def)
qed

lemma caller_connects:
  assumes "ch_state c = AwaitingConclusionResponse"
    "hs_handshake_type hp = Conclusion" "hs_version hp = HANDSHAKE_VERSION_5" "hs_initial_seq_number hp \<le> SEQ_NUMBER_MASK"
    "hs_mtu hp = hc_mtu lc" "hs_max_flow_window_size hp = hc_max_flow_window_size lc" "grp_ok (hc_group lc)"
    "hs_extensions hp = concat (map blk_wire (ext_list HsRsp (own_hs_msg lc) None (hc_group lc)))"
  shows "\<exists>c'. caller_feed c (Handshake hp) = (c', Inr [Connected (agreed (ch_config c) lc (ch_own_socket_id c)
      (hs_srt_socket_id hp) (hc_stream_id (ch_config c)) (hc_group (ch_config c)))]) \<and> ch_state c' = CallerConnected \<and>
    ch_negotiated c' = Some (agreed (ch_config c) lc (ch_own_socket_id c) (hs_srt_socket_id hp) (hc_stream_id (ch_config c)) (hc_group (ch_config c)))"
proof -
  let ?cc = "ch_config c"
  let ?n = "agreed ?cc lc (ch_own_socket_id c) (hs_srt_socket_id hp) (hc_stream_id ?cc) (hc_group ?cc)"
  have p: "parse_peer_extensions hp = Inr \<lparr>ppe_hs_msg = Some (own_hs_msg lc), ppe_stream_id = None, ppe_group = hc_group lc\<rparr>"
    by (rule parse_ext_list[OF _ _ assms(7,8)]) (simp_all add: sid_ok_def)
  have neg: "\<lparr>np_version = HANDSHAKE_VERSION_5, np_flags = hc_flags ?cc AND srt_flags (own_hs_msg lc),
      np_latency_ms = negotiate_latency_ms (hc_latency_ms ?cc) (own_hs_msg lc), np_own_socket_id = ch_own_socket_id c,
      np_peer_socket_id = hs_srt_socket_id hp, np_mtu = min (hc_mtu ?cc) (hs_mtu hp),
      np_max_flow_window_size = min (hc_max_flow_window_size ?cc) (hs_max_flow_window_size hp),
      np_stream_id = hc_stream_id ?cc, np_group = hc_group ?cc\<rparr> = ?n"
    unfolding latency_own by (simp add: agreed_def own_hs_msg_def HANDSHAKE_VERSION_5_def assms(5,6))
  have "caller_feed c (Handshake hp) = (c\<lparr>ch_peer_socket_id := hs_srt_socket_id hp, ch_negotiated := Some ?n, ch_state := CallerConnected\<rparr>,
      Inr [Connected ?n])"
    using assms(1-3) not_less[THEN iffD2, OF assms(4)] p neg
    by (simp add: caller_feed_def on_conclusion_response_def from_handshake_type_def Let_def)
  then show ?thesis by simp
qed

text \<open>
  C9. The caller-listener handshake completes over the wire. For any two configurations whose values
  fit their wire fields, the bytes of the caller's INDUCTION, the listener's answer, the caller's
  CONCLUSION and the listener's answer carry both sides to the connected state, with each other's
  socket ids and the same flags, latency (the greater), MTU and flow window (the smaller), and the
  listener knows the caller's stream id and group. Both of the caller's packets seed the connection
  with the caller's initial sequence number and both of the listener's with the listener's, whichever
  of them the adapter reads it from.
\<close>

theorem handshake_completes:
  assumes "config_ok cc" "config_ok lc"
  shows "\<exists>c1 l1 c2 l2 c3 b1 b2 b3 b4 nc nl.
    caller_start (Caller_new cid cc) = (c1, Inr b1) \<and>
    listener_feed_bytes (Listener_new lid cookie lc) b1 = (l1, Inr [Send b2]) \<and>
    caller_feed_bytes c1 b2 = (c2, Inr [Send b3]) \<and>
    listener_feed_bytes l1 b3 = (l2, Inr [Send b4, Connected nl]) \<and>
    caller_feed_bytes c2 b4 = (c3, Inr [Connected nc]) \<and>
    ch_state c3 = CallerConnected \<and> ch_negotiated c3 = Some nc \<and>
    lh_state l2 = ListenerConnected \<and> lh_negotiated l2 = Some nl \<and>
    nc = agreed cc lc cid lid (hc_stream_id cc) (hc_group cc) \<and>
    nl = agreed lc cc lid cid (hc_stream_id cc) (hc_group cc) \<and>
    (\<forall>b \<in> {b1, b3}. peer_handshake b = Inr \<lparr>ph_initial_seq_number = hc_initial_seq_number cc, ph_timestamp_us = 0\<rparr>) \<and>
    (\<forall>b \<in> {b2, b4}. peer_handshake b = Inr \<lparr>ph_initial_seq_number = hc_initial_seq_number lc, ph_timestamp_us = 0\<rparr>)"
proof -
  obtain c1 h1 where c1: "caller_start (Caller_new cid cc) = (c1, Inr (ctl_wire (Handshake h1)))" "hs_ok h1"
    "ch_state c1 = AwaitingInductionResponse" "ch_config c1 = cc" "ch_own_socket_id c1 = cid"
    "hs_handshake_type h1 = Induction" "hs_initial_seq_number h1 \<le> SEQ_NUMBER_MASK" "hs_srt_socket_id h1 = cid"
    "seeds h1 cc"
    using caller_starts[OF assms(1)] by blast
  let ?l = "Listener_new lid cookie lc"
  have l0: "config_ok (lh_config ?l)" "lh_state ?l = ListenerIdle" using assms(2) by (simp_all add: Listener_new_def)
  obtain l1 h2 where l1: "listener_feed ?l (Handshake h1) = (l1, Inr [Send (ctl_wire (Handshake h2))])" "hs_ok h2"
    "lh_state l1 = AwaitingConclusion" "lh_config l1 = lc" "lh_own_socket_id l1 = lid" "lh_syn_cookie l1 = cookie"
    "hs_handshake_type h2 = Induction" "hs_version h2 = HANDSHAKE_VERSION_5" "hs_extension_field h2 = SRT_MAGIC_CODE"
    "hs_syn_cookie h2 = cookie" "hs_srt_socket_id h2 = lid" "seeds h2 lc"
    using listener_answers_induction[OF l0(1) c1(6,7)] l0(2) by (auto simp: Listener_new_def)
  obtain c2 h3 where c2: "caller_feed c1 (Handshake h2) = (c2, Inr [Send (ctl_wire (Handshake h3))])" "hs_ok h3"
    "ch_state c2 = AwaitingConclusionResponse" "ch_config c2 = cc" "ch_own_socket_id c2 = cid"
    "hs_handshake_type h3 = Conclusion" "hs_version h3 = HANDSHAKE_VERSION_5" "hs_syn_cookie h3 = cookie"
    "hs_initial_seq_number h3 \<le> SEQ_NUMBER_MASK" "hs_srt_socket_id h3 = cid" "hs_mtu h3 = hc_mtu cc"
    "hs_max_flow_window_size h3 = hc_max_flow_window_size cc"
    "hs_extensions h3 = concat (map blk_wire (ext_list HsReq (own_hs_msg cc) (hc_stream_id cc) (hc_group cc)))"
    "seeds h3 cc"
    using caller_concludes[of c1 h2] assms(1) c1(3-5) l1(7-10) by auto
  have ok: "sid_ok (hc_stream_id cc)" "grp_ok (hc_group cc)" "grp_ok (hc_group lc)" using assms by (simp_all add: config_ok_def)
  obtain l2 h4 where l2: "listener_feed l1 (Handshake h3) = (l2, Inr [Send (ctl_wire (Handshake h4)),
      Connected (agreed lc cc lid cid (hc_stream_id cc) (hc_group cc))])" "hs_ok h4" "lh_state l2 = ListenerConnected"
    "lh_negotiated l2 = Some (agreed lc cc lid cid (hc_stream_id cc) (hc_group cc))"
    "hs_handshake_type h4 = Conclusion" "hs_version h4 = HANDSHAKE_VERSION_5" "hs_initial_seq_number h4 \<le> SEQ_NUMBER_MASK"
    "hs_srt_socket_id h4 = lid" "hs_mtu h4 = hc_mtu lc" "hs_max_flow_window_size h4 = hc_max_flow_window_size lc"
    "hs_extensions h4 = concat (map blk_wire (ext_list HsRsp (own_hs_msg lc) None (hc_group lc)))" "seeds h4 lc"
    using listener_connects[of l1 h3 cc] assms(2) l1(3-6) c2(6-13) ok by auto
  obtain c3 where c3: "caller_feed c2 (Handshake h4) = (c3, Inr [Connected (agreed cc lc cid lid (hc_stream_id cc) (hc_group cc))])"
    "ch_state c3 = CallerConnected" "ch_negotiated c3 = Some (agreed cc lc cid lid (hc_stream_id cc) (hc_group cc))"
    using caller_connects[OF c2(3) l2(5-7) l2(9,10) ok(3) l2(11)] c2(4,5) l2(8) by auto
  note seeded = peer_handshake_built[OF c1(2) c1(9)] peer_handshake_built[OF l1(2) l1(12)]
    peer_handshake_built[OF c2(2) c2(14)] peer_handshake_built[OF l2(2) l2(12)]
  have "\<forall>b \<in> {ctl_wire (Handshake h1), ctl_wire (Handshake h3)}. peer_handshake b = Inr \<lparr>ph_initial_seq_number = hc_initial_seq_number cc, ph_timestamp_us = 0\<rparr>"
    "\<forall>b \<in> {ctl_wire (Handshake h2), ctl_wire (Handshake h4)}. peer_handshake b = Inr \<lparr>ph_initial_seq_number = hc_initial_seq_number lc, ph_timestamp_us = 0\<rparr>"
    using seeded by simp_all
  then show ?thesis
    using c1(1) l1(1)[folded listener_feed_built[OF c1(2)]] c2(1)[folded caller_feed_built[OF l1(2)]]
      l2(1)[folded listener_feed_built[OF c2(2)]] c3(1)[folded caller_feed_built[OF l2(2)]] l2(3,4) c3(2,3)
    by blast
qed

text \<open>The default configuration on both sides.\<close>

theorem handshake_completes_witness:
  "\<exists>c1 l1 c2 l2 c3 b1 b2 b3 b4 nc nl.
    caller_start (Caller_new 7 HandshakeConfig_default) = (c1, Inr b1) \<and>
    listener_feed_bytes (Listener_new 9 0x1234 HandshakeConfig_default) b1 = (l1, Inr [Send b2]) \<and>
    caller_feed_bytes c1 b2 = (c2, Inr [Send b3]) \<and>
    listener_feed_bytes l1 b3 = (l2, Inr [Send b4, Connected nl]) \<and>
    caller_feed_bytes c2 b4 = (c3, Inr [Connected nc]) \<and>
    ch_state c3 = CallerConnected \<and> ch_negotiated c3 = Some nc \<and>
    lh_state l2 = ListenerConnected \<and> lh_negotiated l2 = Some nl \<and>
    nc = agreed HandshakeConfig_default HandshakeConfig_default 7 9 None None \<and>
    nl = agreed HandshakeConfig_default HandshakeConfig_default 9 7 None None \<and>
    (\<forall>b \<in> {b1, b3}. peer_handshake b = Inr \<lparr>ph_initial_seq_number = 0, ph_timestamp_us = 0\<rparr>) \<and>
    (\<forall>b \<in> {b2, b4}. peer_handshake b = Inr \<lparr>ph_initial_seq_number = 0, ph_timestamp_us = 0\<rparr>)"
proof -
  have ok: "config_ok HandshakeConfig_default"
    by (simp add: config_ok_def HandshakeConfig_default_def sid_ok_def grp_ok_def SEQ_NUMBER_MASK_def)
  show ?thesis using handshake_completes[OF ok ok, of 7 9 "0x1234"] by (simp add: HandshakeConfig_default_def)
qed

section \<open>What a listener can do\<close>

text \<open>A derived cookie is never the zero that a caller without a cookie sends.\<close>

lemma derive_cookie_not_zero: "derive_cookie k t s \<noteq> 0"
proof
  assume "derive_cookie k t s = 0"
  then have "bit (derive_cookie k t s) 0 = bit (0 :: 32 word) 0" by simp
  then show False by (simp add: derive_cookie_def Let_def bit_simps)
qed

inductive listening :: "u32 \<Rightarrow> u32 \<Rightarrow> HandshakeConfig \<Rightarrow> ListenerHandshake \<Rightarrow> ControlPacket list \<Rightarrow> bool" for lid cookie lc where
  listening_new: "listening lid cookie lc (Listener_new lid cookie lc) []"
| listening_feed: "listening lid cookie lc l fed \<Longrightarrow> listener_feed l packet = (l', r) \<Longrightarrow> listening lid cookie lc l' (fed @ [packet])"
| listening_tick: "listening lid cookie lc l fed \<Longrightarrow> listener_tick l = (l', out) \<Longrightarrow> listening lid cookie lc l' fed"

text \<open>A packet that may complete the handshake.\<close>

definition acceptable :: "u32 \<Rightarrow> HandshakePacket \<Rightarrow> bool" where
  "acceptable cookie hp \<longleftrightarrow> hs_handshake_type hp = Conclusion \<and> hs_version hp = HANDSHAKE_VERSION_5 \<and>
     hs_initial_seq_number hp \<le> SEQ_NUMBER_MASK \<and> hs_syn_cookie hp = cookie \<and>
     (\<exists>parsed m. parse_peer_extensions hp = Inr parsed \<and> ppe_hs_msg parsed = Some m)"

lemma reject_keeps:
  "listener_reject l reason hp = (l', r) \<Longrightarrow>
   lh_syn_cookie l' = lh_syn_cookie l \<and> lh_config l' = lh_config l \<and> lh_negotiated l' = lh_negotiated l \<and> lh_state l' = ListenerRejected"
  by (auto simp: listener_reject_def Let_def split: sum.splits)

lemma on_induction_keeps:
  "on_induction l hp = (l', r) \<Longrightarrow> lh_state l \<in> {ListenerIdle, AwaitingConclusion} \<Longrightarrow>
   lh_syn_cookie l' = lh_syn_cookie l \<and> lh_config l' = lh_config l \<and> lh_negotiated l' = lh_negotiated l \<and>
   lh_state l' \<in> {ListenerIdle, AwaitingConclusion, ListenerRejected}"
  by (auto simp: on_induction_def Let_def dest: reject_keeps split: sum.splits if_splits)

text \<open>The message a conclusion is negotiated from is read from one of its blocks, an HSREQ or an HSRSP.\<close>

lemma and_then_map_err: "and_then (map_err f x) g = Inr y \<longleftrightarrow> (\<exists>v. x = Inr v \<and> g v = Inr y)"
  by (cases x) simp_all

lemma parse_peer_blocks_msg:
  "parse_peer_blocks out blks = Inr parsed \<Longrightarrow> ppe_hs_msg parsed = Some m \<Longrightarrow> ppe_hs_msg out \<noteq> Some m \<Longrightarrow>
   \<exists>blk. Inr blk \<in> set blks \<and> ext_type blk \<in> {HsReq, HsRsp} \<and> as_hs_ext_message blk = Inr m"
proof (induction out blks rule: parse_peer_blocks.induct)
  case (2 out blk rest)
  then obtain b where b: "blk = Inr b" by (cases blk) auto
  show ?case
  proof (cases "\<exists>m'. ext_type b \<in> {HsReq, HsRsp} \<and> as_hs_ext_message b = Inr m' \<and> m' = m")
    case True
    then show ?thesis unfolding b by (intro exI[of _ b]) auto
  next
    case False
    then have "\<exists>blk. Inr blk \<in> set rest \<and> ext_type blk \<in> {HsReq, HsRsp} \<and> as_hs_ext_message blk = Inr m"
      using 2 unfolding b by (auto simp: and_then_map_err split: if_splits)
    then show ?thesis by auto
  qed
qed simp

definition negotiated_by :: "u32 \<Rightarrow> HandshakeConfig \<Rightarrow> NegotiatedParams \<Rightarrow> HandshakePacket \<Rightarrow> bool" where
  "negotiated_by cookie config n hp \<longleftrightarrow> acceptable cookie hp \<and> np_peer_socket_id n = hs_srt_socket_id hp \<and>
     (\<exists>blk m. Inr blk \<in> set (ext_blocks (hs_extensions hp)) \<and> ext_type blk \<in> {HsReq, HsRsp} \<and> as_hs_ext_message blk = Inr m \<and>
        np_flags n = hc_flags config AND srt_flags m \<and> np_latency_ms n = negotiate_latency_ms (hc_latency_ms config) m)"

lemma on_conclusion_cases:
  assumes f: "on_conclusion l hp = (l', r)"
  shows "lh_syn_cookie l' = lh_syn_cookie l \<and> lh_config l' = lh_config l \<and>
    (lh_negotiated l' = lh_negotiated l \<and> lh_state l' \<in> {lh_state l, ListenerRejected} \<or>
     lh_state l' = ListenerConnected \<and> (\<exists>n. lh_negotiated l' = Some n \<and> negotiated_by (lh_syn_cookie l) (lh_config l) n hp))"
proof (cases "acceptable (lh_syn_cookie l) hp")
  case False
  then show ?thesis using f unfolding on_conclusion_def Let_def acceptable_def
    by (auto dest: reject_keeps split: if_splits sum.splits option.splits prod.splits simp: not_less)
next
  case True
  then obtain parsed m where p: "parse_peer_extensions hp = Inr parsed" "ppe_hs_msg parsed = Some m" unfolding acceptable_def by blast
  then obtain blk where "Inr blk \<in> set (ext_blocks (hs_extensions hp))" "ext_type blk \<in> {HsReq, HsRsp}" "as_hs_ext_message blk = Inr m"
    using parse_peer_blocks_msg[of _ "ext_blocks (hs_extensions hp)" parsed m] unfolding parse_peer_extensions_def by fastforce
  then have n: "negotiated_by (lh_syn_cookie l) (lh_config l) n hp"
    if "np_peer_socket_id n = hs_srt_socket_id hp" "np_flags n = hc_flags (lh_config l) AND srt_flags m"
      "np_latency_ms n = negotiate_latency_ms (hc_latency_ms (lh_config l)) m" for n
    using True that unfolding negotiated_by_def by blast
  show ?thesis using f True p n unfolding on_conclusion_def Let_def acceptable_def
    by (auto split: sum.splits prod.splits simp: not_less[symmetric])
qed

definition listener_sound :: "u32 \<Rightarrow> HandshakeConfig \<Rightarrow> ListenerHandshake \<Rightarrow> ControlPacket list \<Rightarrow> bool" where
  "listener_sound cookie lc l fed \<longleftrightarrow> lh_syn_cookie l = cookie \<and> lh_config l = lc \<and>
     (lh_negotiated l \<noteq> None \<longleftrightarrow> lh_state l = ListenerConnected) \<and>
     (\<forall>n. lh_negotiated l = Some n \<longrightarrow> (\<exists>hp. Handshake hp \<in> set fed \<and> negotiated_by cookie lc n hp))"

lemma listener_feed_sound:
  assumes s: "listener_sound cookie lc l fed" and f: "listener_feed l packet = (l', r)"
  shows "listener_sound cookie lc l' (fed @ [packet])"
proof -
  have more: "listener_sound cookie lc l (fed @ [packet])" using s by (auto simp: listener_sound_def)
  show ?thesis
  proof (cases packet)
    case (Handshake hp)
    have conclude: ?thesis if "on_conclusion l hp = (l', r)" "lh_state l = AwaitingConclusion"
      using on_conclusion_cases[OF that(1)] s that(2) Handshake by (auto simp: listener_sound_def)
    have induce: ?thesis if "on_induction l hp = (l', r)" "lh_state l \<in> {ListenerIdle, AwaitingConclusion}"
      using on_induction_keeps[OF that] s that(2) by (auto simp: listener_sound_def)
    show ?thesis using f more conclude induce unfolding listener_feed_def Handshake
      by (auto split: if_splits)
  qed (use f more in \<open>auto simp: listener_feed_def\<close>)
qed

lemma listening_sound: "listening lid cookie lc l fed \<Longrightarrow> listener_sound cookie lc l fed"
proof (induction rule: listening.induct)
  case listening_new
  show ?case by (simp add: listener_sound_def Listener_new_def)
next
  case (listening_feed l fed packet l' r)
  then show ?case by (blast intro: listener_feed_sound)
next
  case (listening_tick l fed l' out)
  then show ?case by (auto simp: listener_sound_def listener_tick_def Let_def split: if_splits prod.splits)
qed

text \<open>
  C10. No connection without the cookie. In every run of a listener, whatever packets it is fed and
  however often it ticks, it holds negotiated parameters exactly in the connected state, and then it
  was fed a CONCLUSION of version 5 that carries its cookie, a 31-bit initial sequence number and a
  readable handshake extension message, in an HSREQ or an HSRSP block (the code takes either); the
  peer of the connection is the socket that sent that packet, and flags and latency are negotiated
  from that message.
\<close>

theorem listener_requires_cookie:
  assumes "listening lid cookie lc l fed"
  shows "(lh_negotiated l \<noteq> None \<longleftrightarrow> lh_state l = ListenerConnected) \<and>
    (lh_state l = ListenerConnected \<longrightarrow>
      (\<exists>n hp blk m. lh_negotiated l = Some n \<and> Handshake hp \<in> set fed \<and>
        hs_handshake_type hp = Conclusion \<and> hs_version hp = 5 \<and> hs_syn_cookie hp = cookie \<and>
        hs_initial_seq_number hp \<le> SEQ_NUMBER_MASK \<and>
        Inr blk \<in> set (ext_blocks (hs_extensions hp)) \<and> ext_type blk \<in> {HsReq, HsRsp} \<and> as_hs_ext_message blk = Inr m \<and>
        np_peer_socket_id n = hs_srt_socket_id hp \<and> np_flags n = hc_flags lc AND srt_flags m \<and>
        np_latency_ms n = negotiate_latency_ms (hc_latency_ms lc) m))"
proof -
  have s: "listener_sound cookie lc l fed" by (rule listening_sound[OF assms])
  then show ?thesis unfolding listener_sound_def negotiated_by_def acceptable_def HANDSHAKE_VERSION_5_def by blast
qed

text \<open>A listener that a caller with the default configuration has connected to.\<close>

theorem listener_requires_cookie_witness:
  "\<exists>l fed n hp. listening 9 0x1234 HandshakeConfig_default l fed \<and> length fed = 2 \<and> lh_state l = ListenerConnected \<and>
    lh_negotiated l = Some n \<and> Handshake hp \<in> set fed \<and> hs_syn_cookie hp = 0x1234"
proof -
  let ?d = HandshakeConfig_default and ?l0 = "Listener_new 9 0x1234 HandshakeConfig_default"
  have ok: "config_ok ?d" by (simp add: config_ok_def HandshakeConfig_default_def sid_ok_def grp_ok_def SEQ_NUMBER_MASK_def)
  then have exts: "sid_ok (hc_stream_id ?d)" "grp_ok (hc_group ?d)" by (simp_all add: config_ok_def)
  have l0: "config_ok (lh_config ?l0)" "lh_state ?l0 = ListenerIdle" using ok by (simp_all add: Listener_new_def)
  obtain c1 :: CallerHandshake and h1 :: HandshakePacket where c1: "ch_state c1 = AwaitingInductionResponse" "ch_config c1 = ?d"
    "hs_handshake_type h1 = Induction" "hs_initial_seq_number h1 \<le> SEQ_NUMBER_MASK"
    using caller_starts[OF ok, of 7] by blast
  obtain l1 h2 where l1: "listener_feed ?l0 (Handshake h1) = (l1, Inr [Send (ctl_wire (Handshake h2))])"
    "lh_state l1 = AwaitingConclusion" "lh_config l1 = ?d" "lh_syn_cookie l1 = 0x1234"
    "hs_handshake_type h2 = Induction" "hs_version h2 = HANDSHAKE_VERSION_5" "hs_extension_field h2 = SRT_MAGIC_CODE" "hs_syn_cookie h2 = 0x1234"
    using listener_answers_induction[OF l0(1) c1(3,4)] l0(2) by (auto simp: Listener_new_def)
  obtain h3 :: HandshakePacket where c2: "hs_handshake_type h3 = Conclusion" "hs_version h3 = HANDSHAKE_VERSION_5" "hs_initial_seq_number h3 \<le> SEQ_NUMBER_MASK"
    "hs_syn_cookie h3 = 0x1234" "hs_mtu h3 = hc_mtu ?d" "hs_max_flow_window_size h3 = hc_max_flow_window_size ?d"
    "hs_extensions h3 = concat (map blk_wire (ext_list HsReq (own_hs_msg ?d) (hc_stream_id ?d) (hc_group ?d)))"
    using caller_concludes[of c1 h2] ok c1(1,2) l1(5-8) by auto
  have l1ok: "config_ok (lh_config l1)" using ok l1(3) by simp
  obtain l2 r where l2: "listener_feed l1 (Handshake h3) = (l2, r)" "lh_state l2 = ListenerConnected"
    using listener_connects[OF l1ok l1(2) c2(1-3) _ c2(5,6) exts c2(7)] c2(4) l1(4) by auto
  have run: "listening 9 0x1234 ?d l2 (([] @ [Handshake h1]) @ [Handshake h3])"
    by (rule listening_feed[OF listening_feed[OF listening_new l1(1)] l2(1)])
  obtain n hp where "lh_negotiated l2 = Some n" "Handshake hp \<in> set (([] @ [Handshake h1]) @ [Handshake h3])" "hs_syn_cookie hp = 0x1234"
    using listener_requires_cookie[OF run] l2(2) by blast
  then show ?thesis using run l2(2) by (intro exI conjI) (assumption | simp)+
qed

section \<open>Refusals\<close>

lemma rejection_read_back: "r \<in> {Rogue, Version} \<Longrightarrow> from_handshake_type (to_handshake_type r) = Some r \<and>
    ht_canonical (to_handshake_type r) \<and> to_handshake_type r \<noteq> Induction"
  by (auto simp: to_handshake_type_def from_handshake_type_def HandshakeType_from_bits_def HandshakeType_codes
      REJECTION_CODE_BASE_def REJECTION_CODE_LIMIT_def RejectionReason_from_bits_def ht_canonical_def)

lemma refusal_reaches_caller:
  assumes "length (hc_local_ip (lh_config l)) = 4" "r \<in> {Rogue, Version}"
  shows "\<exists>l' b. listener_reject l r hp = (l', Inr [Send b, Rejected r]) \<and> lh_state l' = ListenerRejected \<and>
    lh_negotiated l' = lh_negotiated l \<and>
    (\<forall>c. ch_state c \<in> {AwaitingInductionResponse, AwaitingConclusionResponse} \<longrightarrow>
      caller_feed_bytes c b = (c\<lparr>ch_state := CallerRejected\<rparr>, Inr [Rejected r]))"
proof -
  let ?l = "l\<lparr>lh_state := ListenerRejected\<rparr>"
  let ?hp = "rejection_packet ?l r hp"
  note rb = rejection_read_back[OF assms(2)]
  have ok: "hs_ok ?hp" using assms(1) rb by (simp add: hs_ok_def rejection_packet_def)
  have t: "hs_handshake_type ?hp = to_handshake_type r" by (simp add: rejection_packet_def)
  have "caller_feed_bytes c (ctl_wire (Handshake ?hp)) = (c\<lparr>ch_state := CallerRejected\<rparr>, Inr [Rejected r])"
    if "ch_state c \<in> {AwaitingInductionResponse, AwaitingConclusionResponse}" for c
    unfolding caller_feed_built[OF ok] using that rb t
    by (auto simp: caller_feed_def on_induction_response_def on_conclusion_response_def caller_reject_def)
  then show ?thesis using build_bytes_ok[OF ok] by (simp add: listener_reject_def Let_def)
qed

text \<open>
  C11. The verdict on a CONCLUSION. A listener that awaits one accepts exactly the packets that are
  acceptable; every other packet that is not a repeated INDUCTION it refuses, and the bytes of the
  refusal, fed to a caller that awaits an answer, are reported to it as the same reason: the version
  for a CONCLUSION of another version, rogue data for everything else.
\<close>

theorem conclusion_verdict:
  assumes "config_ok (lh_config l)" "lh_state l = AwaitingConclusion" "hs_handshake_type hp \<noteq> Induction"
  shows "if acceptable (lh_syn_cookie l) hp
    then \<exists>l' b n. listener_feed l (Handshake hp) = (l', Inr [Send b, Connected n]) \<and> lh_state l' = ListenerConnected
    else \<exists>l' b reason. listener_feed l (Handshake hp) = (l', Inr [Send b, Rejected reason]) \<and>
      lh_state l' = ListenerRejected \<and> lh_negotiated l' = lh_negotiated l \<and>
      reason = (if hs_handshake_type hp = Conclusion \<and> hs_version hp \<noteq> HANDSHAKE_VERSION_5 then Version else Rogue) \<and>
      (\<forall>c. ch_state c \<in> {AwaitingInductionResponse, AwaitingConclusionResponse} \<longrightarrow>
        caller_feed_bytes c b = (c\<lparr>ch_state := CallerRejected\<rparr>, Inr [Rejected reason]))"
proof -
  let ?lc = "lh_config l"
  have feed: "listener_feed l (Handshake hp) = on_conclusion l hp" using assms(2,3) by (simp add: listener_feed_def)
  show ?thesis
  proof (cases "acceptable (lh_syn_cookie l) hp")
    case True
    let ?l = "l\<lparr>lh_peer_socket_id := hs_srt_socket_id hp\<rparr>"
    let ?ext = "concat (map blk_wire (ext_list HsRsp (own_hs_msg ?lc) None (hc_group ?lc)))"
    obtain flags where b: "build_conclusion_extensions HsRsp (own_hs_msg ?lc) None (hc_group ?lc) = Inr (?ext, flags)"
      using build_extensions_ok[of HsRsp None "hc_group ?lc" "own_hs_msg ?lc"] assms(1) by (auto simp: config_ok_def sid_ok_def)
    have ok: "hs_ok (listener_conclusion ?l ?ext flags)"
      using assms(1) by (simp add: hs_ok_def listener_conclusion_def config_ok_def Let_def)
    obtain parsed m where p: "parse_peer_extensions hp = Inr parsed" "ppe_hs_msg parsed = Some m"
      using True unfolding acceptable_def by blast
    have "\<exists>l' b n. on_conclusion l hp = (l', Inr [Send b, Connected n]) \<and> lh_state l' = ListenerConnected"
      using True p b build_bytes_ok[OF ok] by (simp add: on_conclusion_def acceptable_def Let_def not_less[symmetric])
    then show ?thesis using True by (simp only: feed if_True)
  next
    case False
    define reason where "reason = (if hs_handshake_type hp = Conclusion \<and> hs_version hp \<noteq> HANDSHAKE_VERSION_5 then Version else Rogue)"
    have ip: "length (hc_local_ip ?lc) = 4" using assms(1) by (simp add: config_ok_def)
    have "on_conclusion l hp = listener_reject l reason hp"
      using False unfolding on_conclusion_def acceptable_def reason_def
      by (auto split: sum.splits option.splits simp: not_less)
    moreover have "reason \<in> {Rogue, Version}" by (simp add: reason_def)
    ultimately show ?thesis using refusal_reaches_caller[OF ip, of reason hp] False
      unfolding feed reason_def[symmetric] by auto
  qed
qed

text \<open>A CONCLUSION with another cookie is refused as rogue.\<close>

theorem conclusion_verdict_witness:
  "let l = (Listener_new 9 0x1234 HandshakeConfig_default)\<lparr>lh_state := AwaitingConclusion\<rparr>;
       hp = caller_conclusion (Caller_new 7 HandshakeConfig_default) [] 1
   in \<exists>l' b reason. listener_feed l (Handshake hp) = (l', Inr [Send b, Rejected reason]) \<and>
      lh_state l' = ListenerRejected \<and> lh_negotiated l' = lh_negotiated l \<and> reason = Rogue \<and>
      (\<forall>c. ch_state c \<in> {AwaitingInductionResponse, AwaitingConclusionResponse} \<longrightarrow>
        caller_feed_bytes c b = (c\<lparr>ch_state := CallerRejected\<rparr>, Inr [Rejected reason]))"
proof -
  let ?l = "(Listener_new 9 0x1234 HandshakeConfig_default)\<lparr>lh_state := AwaitingConclusion\<rparr>"
  let ?hp = "caller_conclusion (Caller_new 7 HandshakeConfig_default) [] 1"
  have ok: "config_ok (lh_config ?l)" "lh_state ?l = AwaitingConclusion"
    by (simp_all add: config_ok_def Listener_new_def HandshakeConfig_default_def sid_ok_def grp_ok_def SEQ_NUMBER_MASK_def)
  have hp: "hs_handshake_type ?hp = Conclusion" "hs_version ?hp = HANDSHAKE_VERSION_5" "hs_syn_cookie ?hp = 0"
    by (simp_all add: caller_conclusion_def Caller_new_def)
  have "\<not> acceptable (lh_syn_cookie ?l) ?hp" using hp by (simp add: acceptable_def Listener_new_def)
  then show ?thesis using conclusion_verdict[OF ok, of ?hp] hp unfolding Let_def by simp
qed

section \<open>Giving up\<close>

text \<open>The caller after \<open>n\<close> ticks.\<close>

definition caller_after :: "nat \<Rightarrow> CallerHandshake \<Rightarrow> CallerHandshake" where
  "caller_after n = (\<lambda>c. fst (caller_tick c)) ^^ n"

lemma caller_after_simps [simp]: "caller_after 0 c = c" "caller_after (Suc n) c = fst (caller_tick (caller_after n c))"
  by (simp_all add: caller_after_def)

definition awaiting :: "CallerHandshake \<Rightarrow> bool" where
  "awaiting c \<longleftrightarrow> ch_state c \<in> {AwaitingInductionResponse, AwaitingConclusionResponse}"

text \<open>The caller \<open>i\<close> ticks after its \<open>k\<close>-th repetition.\<close>

definition waited :: "nat \<Rightarrow> nat \<Rightarrow> CallerHandshake \<Rightarrow> CallerHandshake" where
  "waited i k c = c\<lparr>ch_retransmit := (ch_retransmit c)\<lparr>ticks_since_send := of_nat i, retries := of_nat k\<rparr>\<rparr>"

definition timed_out :: "CallerHandshake \<Rightarrow> bool" where "timed_out c \<longleftrightarrow> ch_state c = CallerTimedOut"

text \<open>How many ticks apart the packets are.\<close>

definition resend_period :: "HandshakeConfig \<Rightarrow> nat" where
  "resend_period config = max 1 (unat (retransmit_after_ticks config))"

lemma resend_period_bounds: "0 < resend_period config" "resend_period config < 2 ^ 32"
  using unat_lt2p[of "retransmit_after_ticks config"] by (simp_all add: resend_period_def)

lemma dvd_Suc_iff: "0 < p \<Longrightarrow> p dvd Suc n \<longleftrightarrow> \<not> Suc (n mod p) < p"
proof -
  assume "0 < p"
  then have "n mod p < p" by (rule mod_less_divisor)
  then show ?thesis unfolding dvd_eq_mod_eq_0 mod_Suc by auto
qed

text \<open>One tick. The counters do not wrap: each is compared with a bound of its own width before it goes on.\<close>

lemma tick_of_waiting:
  assumes c: "awaiting c" "last_sent (ch_retransmit c) = Some b" and m: "max_retries (ch_config c) \<noteq> 0xFFFFFFFF"
    and i: "i < resend_period (ch_config c)" and k: "k \<le> unat (max_retries (ch_config c))"
  shows "caller_tick (waited i k c) =
    (if Suc i < resend_period (ch_config c) then (waited (Suc i) k c, [])
     else if k < unat (max_retries (ch_config c)) then (waited 0 (Suc k) c, [Send b])
     else ((waited 0 (Suc k) c)\<lparr>ch_state := CallerTimedOut\<rparr>, [TimedOut]))"
proof -
  let ?after = "retransmit_after_ticks (ch_config c)" and ?max = "max_retries (ch_config c)"
  have "Suc i < 2 ^ 32" using i resend_period_bounds(2)[of "ch_config c"] by linarith
  then have "unat (of_nat i + 1 :: u32) = Suc i" by (simp add: unat_word_ariths unat_of_nat)
  then have early: "of_nat i + 1 < ?after \<longleftrightarrow> Suc i < resend_period (ch_config c)"
    by (auto simp: word_less_nat_alt resend_period_def)
  have "unat ?max < 2 ^ 32 - 1"
  proof -
    have "unat (0xFFFFFFFF :: u32) = 2 ^ 32 - 1" by simp
    moreover have "unat ?max \<noteq> unat (0xFFFFFFFF :: u32)" using m word_unat_eq_iff by blast
    moreover have "unat ?max < 2 ^ 32" using unat_lt2p[of ?max] by simp
    ultimately show ?thesis by linarith
  qed
  then have "unat (of_nat k + 1 :: u32) = Suc k" using k by (simp add: unat_word_ariths unat_of_nat)
  then have late: "of_nat k + 1 > ?max \<longleftrightarrow> \<not> k < unat ?max" by (auto simp: word_less_nat_alt)
  show ?thesis using c early late
    by (simp add: caller_tick_def retransmit_tick_def waited_def awaiting_def Let_def add.commute)
qed

lemma caller_waits:
  assumes c: "awaiting c" "last_sent (ch_retransmit c) = Some b" and m: "max_retries (ch_config c) \<noteq> 0xFFFFFFFF"
    and new: "waited 0 0 c = c"
  defines "p \<equiv> resend_period (ch_config c)"
  shows "n < Suc (unat (max_retries (ch_config c))) * p \<Longrightarrow> caller_after n c = waited (n mod p) (n div p) c"
proof (induction n)
  case 0
  then show ?case using new by (simp add: p_def)
next
  case (Suc n)
  have p: "0 < p" using resend_period_bounds by (simp add: p_def)
  have "n mod p < p" "n div p \<le> unat (max_retries (ch_config c))" "Suc n div p \<le> unat (max_retries (ch_config c))"
    using Suc.prems p by (simp_all add: less_Suc_eq_le[symmetric] less_mult_imp_div_less)
  moreover have "Suc (n mod p) < p \<or> Suc (n mod p) = p" using p mod_less_divisor[of p n] by linarith
  ultimately show ?case using Suc tick_of_waiting[OF c m, of "n mod p" "n div p"]
    by (auto simp: p_def[symmetric] mod_Suc div_Suc)
qed

lemma caller_stays_timed_out: "timed_out (caller_after n c) \<Longrightarrow> caller_after (n + k) c = caller_after n c"
  by (induction k) (simp_all add: caller_tick_def timed_out_def)

text \<open>
  C12. A handshake without an answer ends, tick by tick. From the moment a caller has sent a packet it
  awaits the answer to, it repeats exactly that packet on every tick whose number is a multiple of the
  configured period (at least one tick) and on no other, as often as configured; one period after the
  last repetition it reports once that it timed out, and from then on it is silent. It keeps its state
  until then. The one configuration excluded is a retry limit of \<open>u32::MAX\<close>, which the counter cannot exceed.
\<close>

theorem caller_gives_up:
  assumes "awaiting c" "last_sent (ch_retransmit c) = Some b" "ticks_since_send (ch_retransmit c) = 0" "retries (ch_retransmit c) = 0"
    and "max_retries (ch_config c) \<noteq> 0xFFFFFFFF"
  defines "p \<equiv> resend_period (ch_config c)" and "m \<equiv> unat (max_retries (ch_config c))"
  shows "snd (caller_tick (caller_after n c)) =
      (if p dvd Suc n \<and> Suc n \<le> m * p then [Send b] else if Suc n = Suc m * p then [TimedOut] else []) \<and>
    ch_state (caller_after n c) = (if n < Suc m * p then ch_state c else CallerTimedOut)"
proof -
  have new: "waited 0 0 c = c" using assms(3,4) by (simp add: waited_def)
  have p: "0 < p" using resend_period_bounds by (simp add: p_def)
  have before: "caller_after n c = waited (n mod p) (n div p) c" if "n < Suc m * p" for n
    using caller_waits[OF assms(1,2,5) new] that by (simp add: p_def m_def)
  have tick: "caller_tick (caller_after n c) =
      (if Suc (n mod p) < p then (waited (Suc (n mod p)) (n div p) c, [])
       else if n div p < m then (waited 0 (Suc (n div p)) c, [Send b])
       else ((waited 0 (Suc (n div p)) c)\<lparr>ch_state := CallerTimedOut\<rparr>, [TimedOut]))" if "n < Suc m * p" for n
    unfolding before[OF that] p_def m_def
    by (rule tick_of_waiting[OF assms(1,2,5)])
      (use p that in \<open>simp_all add: p_def[symmetric] m_def[symmetric] less_Suc_eq_le[symmetric] less_mult_imp_div_less\<close>)
  show ?thesis
  proof (cases "n < Suc m * p")
    case True
    note d = dvd_Suc_iff[OF p, of n]
    have e: "Suc n = Suc (n div p) * p" if "p dvd Suc n"
      using that p by (auto simp: dvd_eq_mod_eq_0 mod_Suc div_Suc split: if_splits elim!: dvdE) (metis add.commute add_Suc div_mult_mod_eq mult.commute)
    have "Suc n \<le> m * p \<longleftrightarrow> n div p < m" "Suc n = Suc m * p \<longleftrightarrow> n div p = m" if "p dvd Suc n"
      using e[OF that] p by (metis mult_le_cancel2 Suc_le_eq, metis mult_cancel2 nat.inject gr_implies_not0)
    moreover have "n div p \<le> m" using True p by (simp add: less_Suc_eq_le[symmetric] less_mult_imp_div_less)
    moreover have "Suc n = Suc m * p \<Longrightarrow> p dvd Suc n" by simp
    ultimately show ?thesis using tick[OF True] before[OF True] d True by (auto simp: waited_def)
  next
    case False
    obtain q where q: "Suc m * p = Suc q" using p by (metis mult_is_0 not0_implies_Suc neq0_conv nat.distinct(1))
    then have "q < Suc m * p" by simp
    have "p dvd Suc q" unfolding q[symmetric] by simp
    then have "\<not> Suc (q mod p) < p" using dvd_Suc_iff[OF p, of q] by blast
    moreover have "\<not> q div p < m"
    proof
      assume "q div p < m"
      then have "q < m * p" using p by (simp add: div_less_iff_less_mult)
      then show False using q p by simp
    qed
    ultimately have t: "timed_out (caller_after (Suc q) c)" using tick[OF \<open>q < Suc m * p\<close>] by (simp add: timed_out_def)
    have "caller_after n c = caller_after (Suc q) c"
      using caller_stays_timed_out[OF t, of "n - Suc q"] False q by simp
    then show ?thesis using False t p by (auto simp: timed_out_def caller_tick_def)
  qed
qed

text \<open>The default configuration: every third tick up to the 36th repeats, the 39th gives up.\<close>

theorem caller_gives_up_witness:
  "\<exists>c b. caller_start (Caller_new 7 HandshakeConfig_default) = (c, Inr b) \<and>
    (\<forall>n. snd (caller_tick (caller_after n c)) =
      (if 3 dvd Suc n \<and> Suc n \<le> 36 then [Send b] else if Suc n = 39 then [TimedOut] else []))"
proof -
  let ?new = "Caller_new 7 HandshakeConfig_default"
  have ok: "hs_ok (caller_induction ?new)"
    by (simp add: hs_ok_def caller_induction_def Caller_new_def HandshakeConfig_default_def)
  let ?b = "ctl_wire (Handshake (caller_induction ?new))"
  let ?c = "?new\<lparr>ch_retransmit := arm (ch_retransmit ?new) ?b, ch_state := AwaitingInductionResponse\<rparr>"
  have "ch_state ?new = CallerIdle" by (simp add: Caller_new_def)
  then have start: "caller_start ?new = (?c, Inr ?b)" by (simp add: caller_start_def build_bytes_ok[OF ok])
  have c: "awaiting ?c" "last_sent (ch_retransmit ?c) = Some ?b" "ticks_since_send (ch_retransmit ?c) = 0" "retries (ch_retransmit ?c) = 0"
    by (simp_all add: awaiting_def arm_def remember_def Caller_new_def Retransmit_default_def)
  have n: "max_retries (ch_config ?c) = 12" "resend_period (ch_config ?c) = 3"
    by (simp_all add: Caller_new_def HandshakeConfig_default_def DEFAULT_MAX_RETRIES_def resend_period_def)
  have u: "unat (12 :: u32) * 3 = 36" "Suc (unat (12 :: u32)) * 3 = 39" by simp_all
  have "max_retries (ch_config ?c) \<noteq> 0xFFFFFFFF" unfolding n by simp
  from caller_gives_up[OF c this] have "\<forall>n. snd (caller_tick (caller_after n ?c)) =
      (if 3 dvd Suc n \<and> Suc n \<le> 36 then [Send ?b] else if Suc n = 39 then [TimedOut] else [])"
    unfolding n u by blast
  then show ?thesis using start by blast
qed

end
