(* ===== verification/Resync.thy ===== *)
theory Resync
  imports Ts_Packet
begin

text \<open>
  The transport stream resynchroniser (\<open>mpeg-ts/src/resync.rs\<close>): recovery of the packet alignment in
  a byte stream that starts anywhere and loses bytes, for packets of 188 and of 204 bytes.
\<close>

section \<open>State\<close>

definition RS_PACKET_SIZE :: nat where "RS_PACKET_SIZE = 204"
definition LOCK_CONFIRMATIONS :: nat where "LOCK_CONFIRMATIONS = 5"

datatype PacketStride = Ts188 | Rs204

record ResyncStats =
  rs_packets :: nat
  rs_resyncs :: nat
  rs_dropped_bytes :: nat

record ResyncLoss =
  loss_offset :: nat
  loss_dropped_bytes :: nat
  loss_packet_index :: nat
  truncated_tail :: bool

text \<open>The counters are \<open>u64\<close>; a stream of fewer than \<open>2 ^ 64\<close> bytes does not overflow them.\<close>

record TsResync =
  rs_buf :: bytes
  rs_head :: nat
  rs_stride :: "PacketStride option"
  rs_stats :: ResyncStats
  rs_consumed :: nat
  open_loss :: "nat option"
  rs_losses :: "ResyncLoss list"

definition Resync_new :: TsResync where
  "Resync_new = \<lparr>rs_buf = [], rs_head = 0, rs_stride = None,
     rs_stats = \<lparr>rs_packets = 0, rs_resyncs = 0, rs_dropped_bytes = 0\<rparr>,
     rs_consumed = 0, open_loss = None, rs_losses = []\<rparr>"

section \<open>Operations\<close>

definition try_stride :: "bytes \<Rightarrow> nat \<Rightarrow> nat \<Rightarrow> bool" where
  "try_stride buf i s =
     list_all (\<lambda>k. let pos = i + k * s in pos < length buf \<and> buf ! pos = TS_SYNC_BYTE) [1..<LOCK_CONFIRMATIONS]"

definition lock_at :: "bytes \<Rightarrow> nat \<Rightarrow> (nat \<times> PacketStride) option" where
  "lock_at buf i =
     (if buf ! i \<noteq> TS_SYNC_BYTE then None
      else if try_stride buf i TS_PACKET_SIZE then Some (i, Ts188)
      else if try_stride buf i RS_PACKET_SIZE then Some (i, Rs204)
      else None)"

text \<open>The first offset of the scan that locks.\<close>

fun first_lock :: "bytes \<Rightarrow> nat list \<Rightarrow> (nat \<times> PacketStride) option" where
  "first_lock buf [] = None"
| "first_lock buf (i # is) = (case lock_at buf i of Some r \<Rightarrow> Some r | None \<Rightarrow> first_lock buf is)"

definition find_sync :: "bytes \<Rightarrow> (nat \<times> PacketStride) option" where
  "find_sync buf = first_lock buf [0..<length buf]"

definition compact :: "TsResync \<Rightarrow> TsResync" where
  "compact r = (if rs_head r > 0
     then r\<lparr>rs_consumed := rs_consumed r + rs_head r, rs_buf := drop (rs_head r) (rs_buf r), rs_head := 0\<rparr> else r)"

definition stride_len :: "PacketStride \<Rightarrow> nat" where
  "stride_len s = (case s of Ts188 \<Rightarrow> TS_PACKET_SIZE | Rs204 \<Rightarrow> RS_PACKET_SIZE)"

definition drop_stat :: "nat \<Rightarrow> ResyncStats \<Rightarrow> ResyncStats" where
  "drop_stat n st = st\<lparr>rs_dropped_bytes := rs_dropped_bytes st + n\<rparr>"

text \<open>The three things one turn of the loop can do besides returning.\<close>

definition gain_lock :: "TsResync \<Rightarrow> nat \<Rightarrow> PacketStride \<Rightarrow> TsResync" where
  "gain_lock r off s =
     (let r = r\<lparr>rs_stats := drop_stat off (rs_stats r), rs_head := rs_head r + off, rs_stride := Some s\<rparr>
      in case open_loss r of
           None \<Rightarrow> r
         | Some start \<Rightarrow> r\<lparr>open_loss := None, rs_losses := rs_losses r @
             [\<lparr>loss_offset = start, loss_dropped_bytes = rs_consumed r + rs_head r - start,
               loss_packet_index = rs_packets (rs_stats r), truncated_tail = False\<rparr>]\<rparr>)"

definition emit_packet :: "TsResync \<Rightarrow> nat \<Rightarrow> TsResync" where
  "emit_packet r s =
     (let r = r\<lparr>rs_head := rs_head r + s\<rparr>
      in r\<lparr>rs_stats := (rs_stats r)\<lparr>rs_packets := rs_packets (rs_stats r) + 1\<rparr>\<rparr>)"

definition lose_lock :: "TsResync \<Rightarrow> TsResync" where
  "lose_lock r =
     (let r = r\<lparr>rs_stats := drop_stat 1 ((rs_stats r)\<lparr>rs_resyncs := rs_resyncs (rs_stats r) + 1\<rparr>)\<rparr>;
          r = (case open_loss r of None \<Rightarrow> r\<lparr>open_loss := Some (rs_consumed r + rs_head r)\<rparr> | Some _ \<Rightarrow> r)
      in r\<lparr>rs_head := rs_head r + 1, rs_stride := None\<rparr>)"

definition keep_tail :: "TsResync \<Rightarrow> TsResync" where
  "keep_tail r =
     (let keep = LOCK_CONFIRMATIONS * RS_PACKET_SIZE;
          tail_len = length (rs_buf r) - rs_head r
      in if tail_len > keep
         then r\<lparr>rs_stats := drop_stat (tail_len - keep) (rs_stats r), rs_head := rs_head r + (tail_len - keep)\<rparr>
         else r)"

definition resync_measure :: "TsResync \<Rightarrow> nat" where
  "resync_measure r = 2 * (length (rs_buf r) - rs_head r) + (if rs_stride r = None then 1 else 0)"

lemma first_lock_mem: "first_lock buf is = Some (i, s) \<Longrightarrow> i \<in> set is \<and> lock_at buf i = Some (i, s)"
  by (induction buf "is" rule: first_lock.induct) (auto simp: lock_at_def split: option.splits if_splits)

lemma find_sync_SomeD: "find_sync buf = Some (i, s) \<Longrightarrow> i < length buf \<and> lock_at buf i = Some (i, s)"
  unfolding find_sync_def by (auto dest: first_lock_mem)

function resync_loop :: "TsResync \<Rightarrow> bytes list \<Rightarrow> TsResync \<times> bytes list" where
  "resync_loop r emitted =
     (case rs_stride r of
        None \<Rightarrow>
          (case find_sync (drop (rs_head r) (rs_buf r)) of
             Some (off, s) \<Rightarrow> resync_loop (gain_lock r off s) emitted
           | None \<Rightarrow> (compact (keep_tail r), emitted))
      | Some stride \<Rightarrow>
          if length (rs_buf r) - rs_head r < stride_len stride then (compact r, emitted)
          else if rs_buf r ! rs_head r = TS_SYNC_BYTE
          then resync_loop (emit_packet r (stride_len stride))
                 (emitted @ [sub_slice (rs_buf r) (rs_head r) (rs_head r + TS_PACKET_SIZE)])
          else resync_loop (lose_lock r) emitted)"
  by pat_completeness auto

lemma gain_lock_fields [simp]:
  "rs_buf (gain_lock r off s) = rs_buf r" "rs_head (gain_lock r off s) = rs_head r + off"
  "rs_stride (gain_lock r off s) = Some s" "rs_consumed (gain_lock r off s) = rs_consumed r"
  "open_loss (gain_lock r off s) = None"
  "rs_packets (rs_stats (gain_lock r off s)) = rs_packets (rs_stats r)"
  "rs_dropped_bytes (rs_stats (gain_lock r off s)) = rs_dropped_bytes (rs_stats r) + off"
  by (simp_all add: gain_lock_def Let_def drop_stat_def split: option.split)

lemma emit_packet_fields [simp]:
  "rs_buf (emit_packet r n) = rs_buf r" "rs_head (emit_packet r n) = rs_head r + n"
  "rs_stride (emit_packet r n) = rs_stride r" "rs_consumed (emit_packet r n) = rs_consumed r"
  "open_loss (emit_packet r n) = open_loss r" "rs_losses (emit_packet r n) = rs_losses r"
  "rs_packets (rs_stats (emit_packet r n)) = rs_packets (rs_stats r) + 1"
  "rs_dropped_bytes (rs_stats (emit_packet r n)) = rs_dropped_bytes (rs_stats r)"
  by (simp_all add: emit_packet_def Let_def)

lemma lose_lock_fields [simp]:
  "rs_buf (lose_lock r) = rs_buf r" "rs_head (lose_lock r) = rs_head r + 1"
  "rs_stride (lose_lock r) = None" "rs_consumed (lose_lock r) = rs_consumed r"
  "open_loss (lose_lock r) = Some (case open_loss r of None \<Rightarrow> rs_consumed r + rs_head r | Some p \<Rightarrow> p)"
  "rs_losses (lose_lock r) = rs_losses r"
  "rs_packets (rs_stats (lose_lock r)) = rs_packets (rs_stats r)"
  "rs_dropped_bytes (rs_stats (lose_lock r)) = rs_dropped_bytes (rs_stats r) + 1"
  by (simp_all add: lose_lock_def Let_def drop_stat_def split: option.split)

lemma stride_len_pos [simp]: "0 < stride_len s" "TS_PACKET_SIZE \<le> stride_len s"
  by (cases s; simp add: stride_len_def TS_PACKET_SIZE_def RS_PACKET_SIZE_def)+

termination resync_loop
proof (relation "measure (\<lambda>(r, _). resync_measure r)")
  fix r :: TsResync and emitted :: "bytes list" and p off s
  assume "rs_stride r = None" "find_sync (drop (rs_head r) (rs_buf r)) = Some p" "(off, s) = p"
  then show "((gain_lock r off s, emitted), r, emitted) \<in> measure (\<lambda>(r, _). resync_measure r)"
    by (simp add: resync_measure_def)
next
  fix r :: TsResync and emitted :: "bytes list" and stride
  assume "rs_stride r = Some stride" "\<not> length (rs_buf r) - rs_head r < stride_len stride"
  then show "((emit_packet r (stride_len stride), emitted @ [sub_slice (rs_buf r) (rs_head r) (rs_head r + TS_PACKET_SIZE)]), r, emitted)
      \<in> measure (\<lambda>(r, _). resync_measure r)"
    "((lose_lock r, emitted), r, emitted) \<in> measure (\<lambda>(r, _). resync_measure r)"
  proof -
    obtain n where "stride_len stride = n" "0 < n" by simp
    then show "((emit_packet r (stride_len stride), emitted @ [sub_slice (rs_buf r) (rs_head r) (rs_head r + TS_PACKET_SIZE)]), r, emitted)
      \<in> measure (\<lambda>(r, _). resync_measure r)"
      "((lose_lock r, emitted), r, emitted) \<in> measure (\<lambda>(r, _). resync_measure r)"
      using \<open>rs_stride r = Some stride\<close> \<open>\<not> length (rs_buf r) - rs_head r < stride_len stride\<close>
      by (simp_all add: resync_measure_def)
  qed
qed simp

declare resync_loop.simps [simp del]

definition feed_into :: "TsResync \<Rightarrow> bytes \<Rightarrow> bytes list \<Rightarrow> TsResync \<times> bytes list \<times> nat" where
  "feed_into r data emitted =
     (let (r, out) = resync_loop (r\<lparr>rs_buf := rs_buf r @ data\<rparr>) emitted in (r, out, length out - length emitted))"

definition resync_feed :: "TsResync \<Rightarrow> bytes \<Rightarrow> TsResync \<times> bytes list" where
  "resync_feed r data = (let (r, emitted, _) = feed_into r data [] in (r, emitted))"

definition take_losses :: "TsResync \<Rightarrow> TsResync \<times> ResyncLoss list" where
  "take_losses r = (r\<lparr>rs_losses := []\<rparr>, rs_losses r)"

definition resync_finish :: "TsResync \<Rightarrow> TsResync" where
  "resync_finish r =
     (let end_pos = rs_consumed r + length (rs_buf r);
          r = (case open_loss r of
                 Some start \<Rightarrow> r\<lparr>open_loss := None, rs_losses := rs_losses r @
                   [\<lparr>loss_offset = start, loss_dropped_bytes = end_pos - start,
                     loss_packet_index = rs_packets (rs_stats r), truncated_tail = False\<rparr>]\<rparr>
               | None \<Rightarrow>
                   if rs_stride r \<noteq> None \<and> rs_head r < length (rs_buf r)
                   then r\<lparr>rs_losses := rs_losses r @
                     [\<lparr>loss_offset = rs_consumed r + rs_head r, loss_dropped_bytes = length (rs_buf r) - rs_head r,
                       loss_packet_index = rs_packets (rs_stats r), truncated_tail = True\<rparr>]\<rparr>
                   else r)
      in compact (r\<lparr>rs_stats := drop_stat (length (rs_buf r) - rs_head r) (rs_stats r), rs_head := length (rs_buf r)\<rparr>))"

end
