(* ===== verification/Resync_Clean.thy ===== *)
theory Resync_Clean
  imports Resync_Spec
begin

text \<open>
  A clean stream of 188-byte packets behind junk is recovered whole: after any number of bytes of it,
  however they were cut into chunks, the state of the resynchroniser is a function of that number.
\<close>

section \<open>Packets of one length\<close>

lemma concat_slice:
  "\<forall>p \<in> set ps. length p = m \<Longrightarrow> k < length ps \<Longrightarrow> take m (drop (k * m) (concat ps)) = ps ! k"
proof (induction ps arbitrary: k)
  case (Cons p ps)
  then show ?case by (cases k) (simp_all add: add.commute)
qed simp

lemma length_concat_eq: "\<forall>p \<in> set ps. length p = m \<Longrightarrow> length (concat ps) = length ps * m"
  by (induction ps) simp_all

section \<open>The scan\<close>

lemma first_lock_append:
  "first_lock buf (xs @ ys) = (case first_lock buf xs of Some r \<Rightarrow> Some r | None \<Rightarrow> first_lock buf ys)"
  by (induction buf xs rule: first_lock.induct) (auto split: option.split)

lemma first_lock_None: "\<forall>i \<in> set xs. lock_at buf i = None \<Longrightarrow> first_lock buf xs = None"
  by (induction buf xs rule: first_lock.induct) auto

lemma find_sync_first:
  assumes "\<And>i. i < o1 \<Longrightarrow> lock_at buf i = None" "lock_at buf o1 = Some r" "o1 < length buf"
  shows "find_sync buf = Some r"
proof -
  have "[0..<length buf] = [0..<o1] @ o1 # [Suc o1..<length buf]"
    using assms(3) by (metis less_imp_le upt_conv_Cons upt_add_eq_append le_add_diff_inverse zero_le)
  then show ?thesis using assms(1,2) by (simp add: find_sync_def first_lock_append first_lock_None)
qed

lemma find_sync_none: "\<forall>i < length buf. lock_at buf i = None \<Longrightarrow> find_sync buf = None"
  by (simp add: find_sync_def first_lock_None)

section \<open>The stream\<close>

definition clean_stream :: "bytes \<Rightarrow> bytes list \<Rightarrow> bool" where
  "clean_stream junk ps \<longleftrightarrow> TS_SYNC_BYTE \<notin> set junk \<and>
     (\<forall>p \<in> set ps. length p = TS_PACKET_SIZE \<and> p ! 0 = TS_SYNC_BYTE)"

definition stream_of :: "bytes \<Rightarrow> bytes list \<Rightarrow> bytes" where
  "stream_of junk ps = junk @ concat ps"

lemma clean_length: "clean_stream junk ps \<Longrightarrow> length (stream_of junk ps) = length junk + 188 * length ps"
  using length_concat_eq[of ps TS_PACKET_SIZE] by (auto simp: stream_of_def clean_stream_def TS_PACKET_SIZE_def)

lemma clean_packet:
  assumes "clean_stream junk ps" "k < length ps"
  shows "take 188 (drop (length junk + 188 * k) (stream_of junk ps)) = ps ! k"
  using assms concat_slice[of ps TS_PACKET_SIZE k] by (auto simp: stream_of_def clean_stream_def TS_PACKET_SIZE_def mult.commute)

lemma clean_sync:
  assumes "clean_stream junk ps" "k < length ps"
  shows "stream_of junk ps ! (length junk + 188 * k) = TS_SYNC_BYTE"
proof -
  have p: "length (ps ! k) = 188" "ps ! k ! 0 = TS_SYNC_BYTE" using assms by (auto simp: clean_stream_def TS_PACKET_SIZE_def)
  have "length junk + 188 * k < length (stream_of junk ps)" unfolding clean_length[OF assms(1)] using assms(2) by simp
  then have "stream_of junk ps ! (length junk + 188 * k) = take 188 (drop (length junk + 188 * k) (stream_of junk ps)) ! 0"
    by simp
  then show ?thesis unfolding clean_packet[OF assms] using p by simp
qed

lemma clean_junk: "clean_stream junk ps \<Longrightarrow> i < length junk \<Longrightarrow> stream_of junk ps ! i \<noteq> TS_SYNC_BYTE"
  by (simp add: stream_of_def nth_append clean_stream_def) (metis nth_mem)

section \<open>Locked\<close>

definition locked_at :: "bytes \<Rightarrow> bytes list \<Rightarrow> nat \<Rightarrow> nat \<Rightarrow> TsResync \<Rightarrow> bool" where
  "locked_at junk ps n k r \<longleftrightarrow> rs_stride r = Some Ts188 \<and> open_loss r = None \<and> rs_losses r = [] \<and>
     rs_dropped_bytes (rs_stats r) = length junk \<and> rs_head r \<le> length (rs_buf r) \<and>
     rs_buf r = drop (rs_consumed r) (take n (stream_of junk ps)) \<and> rs_consumed r \<le> n \<and>
     rs_consumed r + rs_head r = length junk + 188 * k"

lemma locked_run:
  assumes "clean_stream junk ps" "n \<le> length (stream_of junk ps)"
  shows "locked_at junk ps n k r \<Longrightarrow> k \<le> (n - length junk) div 188 \<Longrightarrow>
    \<exists>r'. resync_loop r E = (r', E @ take ((n - length junk) div 188 - k) (drop k ps)) \<and>
      locked_at junk ps n ((n - length junk) div 188) r' \<and> rs_head r' = 0"
proof (induction "(n - length junk) div 188 - k" arbitrary: k r E)
  case 0
  let ?q = "(n - length junk) div 188"
  have k: "k = ?q" using 0 by simp
  note l = 0(2)[unfolded locked_at_def]
  have j: "length junk + 188 * k \<le> n" using l by auto
  have len: "length (rs_buf r) = n - rs_consumed r" using l assms(2) by auto
  have "length (rs_buf r) - rs_head r = n - (length junk + 188 * k)" using l len by linarith
  also have "\<dots> < 188" unfolding k using j k by (simp add: minus_div_mult_eq_mod[symmetric] less_diff_conv2)
  finally have short: "length (rs_buf r) - rs_head r < stride_len Ts188" by (simp add: stride_len_def TS_PACKET_SIZE_def)
  have run: "resync_loop r E = (compact r, E)" using l short by (subst resync_loop.simps) simp
  have "locked_at junk ps n k (compact r)" using l unfolding locked_at_def compact_def by (auto simp: add.commute)
  then show ?case using run k by (intro exI[of _ "compact r"]) simp
next
  case (Suc m)
  let ?q = "(n - length junk) div 188"
  note l = Suc.prems(1)[unfolded locked_at_def]
  have k: "k < ?q" using Suc.hyps(2) by simp
  then have "188 * (k + 1) \<le> n - length junk" by (metis Suc_eq_plus1 Suc_leI less_eq_div_iff_mult_less_eq mult.commute zero_less_numeral)
  then have n: "length junk + 188 * k + 188 \<le> n" by (cases "length junk \<le> n") simp_all
  have kp: "k < length ps" using n assms(2) unfolding clean_length[OF assms(1)] by simp
  have len: "length (rs_buf r) = n - rs_consumed r" using l assms(2) by auto
  have enough: "\<not> length (rs_buf r) - rs_head r < stride_len Ts188"
    using l len n by (simp add: stride_len_def TS_PACKET_SIZE_def)
  have buf: "drop (rs_head r) (rs_buf r) = drop (length junk + 188 * k) (take n (stream_of junk ps))"
    using l by (simp add: add.commute)
  have hl: "rs_head r \<le> length (rs_buf r)" using l by blast
  have "rs_buf r ! rs_head r = drop (rs_head r) (rs_buf r) ! 0" by (simp only: nth_drop[OF hl] add_0_right)
  also have "\<dots> = stream_of junk ps ! (length junk + 188 * k)" unfolding buf using n assms(2) by simp
  finally have sync: "rs_buf r ! rs_head r = TS_SYNC_BYTE" unfolding clean_sync[OF assms(1) kp] .
  have "sub_slice (rs_buf r) (rs_head r) (rs_head r + TS_PACKET_SIZE) = take 188 (drop (length junk + 188 * k) (take n (stream_of junk ps)))"
    unfolding sub_slice_def buf by (simp add: TS_PACKET_SIZE_def)
  also have "\<dots> = take 188 (drop (length junk + 188 * k) (stream_of junk ps))" using n by (simp add: drop_take)
  finally have packet: "sub_slice (rs_buf r) (rs_head r) (rs_head r + TS_PACKET_SIZE) = ps ! k"
    unfolding clean_packet[OF assms(1) kp] .
  have run: "resync_loop r E = resync_loop (emit_packet r 188) (E @ [ps ! k])"
    using l enough sync packet by (subst resync_loop.simps) (simp add: stride_len_def TS_PACKET_SIZE_def)
  have "locked_at junk ps n (k + 1) (emit_packet r 188)"
    using l len n unfolding locked_at_def by auto
  moreover have "m = ?q - (k + 1)" "k + 1 \<le> ?q" using Suc.hyps(2) k by linarith+
  ultimately obtain r' where r': "resync_loop (emit_packet r 188) (E @ [ps ! k]) = (r', (E @ [ps ! k]) @ take (?q - (k + 1)) (drop (k + 1) ps))"
    "locked_at junk ps n ?q r'" "rs_head r' = 0" using Suc.hyps(1) by blast
  have "drop k ps = ps ! k # drop (k + 1) ps" using Cons_nth_drop_Suc[OF kp] by simp
  moreover have "?q - k = Suc (?q - (k + 1))" using k by linarith
  ultimately have "E @ take (?q - k) (drop k ps) = (E @ [ps ! k]) @ take (?q - (k + 1)) (drop (k + 1) ps)"
    by (simp only: take_Suc_Cons append_assoc append_Cons append_Nil)
  then show ?case using run r' by metis
qed

section \<open>Chunks\<close>

definition LOCK_LEN :: nat where "LOCK_LEN = 4 * 188 + 1"

text \<open>Before the lock: nothing locks in fewer than \<open>LOCK_LEN\<close> bytes behind the junk.\<close>

lemma no_lock_yet:
  assumes "clean_stream junk ps" "n < length junk + LOCK_LEN" "n \<le> length (stream_of junk ps)"
  shows "find_sync (drop c (take n (stream_of junk ps))) = None"
proof (rule find_sync_none, intro allI impI)
  let ?b = "drop c (take n (stream_of junk ps))"
  fix i assume i: "i < length ?b"
  then have n: "c + i < n" by simp
  have "c \<le> length (take n (stream_of junk ps))" using i unfolding length_drop by linarith
  then have at: "?b ! i = stream_of junk ps ! (c + i)" using nth_drop n by simp
  show "lock_at ?b i = None"
  proof (cases "c + i < length junk")
    case True
    then show ?thesis using clean_junk[OF assms(1)] unfolding lock_at_def at by simp
  next
    case False
    have "\<not> try_stride ?b i s" if "188 \<le> s" for s
    proof
      assume "try_stride ?b i s"
      then have "i + 4 * s < length ?b" by (simp add: try_stride_def LOCK_CONFIRMATIONS_def Let_def list_all_iff)
      then have "c + i + 4 * s < n" by simp
      then show False using False assms(2) that by (simp add: LOCK_LEN_def)
    qed
    then show ?thesis by (simp add: lock_at_def TS_PACKET_SIZE_def RS_PACKET_SIZE_def)
  qed
qed

lemma locks_on_stream:
  assumes "clean_stream junk ps" "length junk + LOCK_LEN \<le> n" "n \<le> length (stream_of junk ps)" "c \<le> length junk"
  shows "find_sync (drop c (take n (stream_of junk ps))) = Some (length junk - c, Ts188)"
proof (rule find_sync_first)
  let ?b = "drop c (take n (stream_of junk ps))" and ?o = "length junk - c"
  have at: "?b ! i = stream_of junk ps ! (c + i)" if "c + i < n" for i using that assms(3) by simp
  have few: "k < length ps" if "k \<le> 4" for k
    using assms(2,3) that unfolding clean_length[OF assms(1)] by (simp add: LOCK_LEN_def)
  show "?o < length ?b" using assms(2-4) by (simp add: LOCK_LEN_def)
  show "lock_at ?b i = None" if "i < ?o" for i
    using clean_junk[OF assms(1), of "c + i"] at[of i] that assms(2,4) by (simp add: lock_at_def)
  have sync: "?b ! (?o + k * 188) = TS_SYNC_BYTE \<and> ?o + k * 188 < length ?b" if "k \<le> 4" for k
    using clean_sync[OF assms(1) few[OF that]] at[of "?o + k * 188"] assms(2-4) that by (simp add: LOCK_LEN_def mult.commute)
  then have "try_stride ?b ?o TS_PACKET_SIZE"
    by (simp add: try_stride_def Let_def list_all_iff LOCK_CONFIRMATIONS_def TS_PACKET_SIZE_def)
  then show "lock_at ?b ?o = Some (?o, Ts188)" using sync[of 0] by (simp add: lock_at_def)
qed

definition unlocked_at :: "bytes \<Rightarrow> bytes list \<Rightarrow> nat \<Rightarrow> TsResync \<Rightarrow> bool" where
  "unlocked_at junk ps n r \<longleftrightarrow> rs_stride r = None \<and> open_loss r = None \<and> rs_losses r = [] \<and>
     rs_head r = 0 \<and> rs_consumed r = n - 1020 \<and> rs_dropped_bytes (rs_stats r) = n - 1020 \<and>
     rs_buf r = drop (n - 1020) (take n (stream_of junk ps))"

text \<open>The state after \<open>n\<close> bytes, and the number of packets handed out by then.\<close>

definition clean_at :: "bytes \<Rightarrow> bytes list \<Rightarrow> nat \<Rightarrow> TsResync \<Rightarrow> bool" where
  "clean_at junk ps n r \<longleftrightarrow>
     (if n < length junk + LOCK_LEN then unlocked_at junk ps n r
      else locked_at junk ps n ((n - length junk) div 188) r \<and> rs_head r = 0)"

definition out_by :: "bytes \<Rightarrow> nat \<Rightarrow> nat" where
  "out_by junk n = (if n < length junk + LOCK_LEN then 0 else (n - length junk) div 188)"

lemma out_by_mono: "n \<le> n' \<Longrightarrow> out_by junk n \<le> out_by junk n'"
  by (auto simp: out_by_def div_le_mono)

lemma feed_buf:
  assumes "take n S @ data = take n' S" "rs_buf r = drop c (take n S)" "c \<le> n" "n \<le> length S"
  shows "rs_buf r @ data = drop c (take n' S)"
  using assms by (metis (no_types, lifting) drop_append drop_0 diff_is_0_eq length_take min.absorb2)

lemma clean_feed:
  assumes cl: "clean_stream junk ps" and r: "clean_at junk ps n r" and n': "n \<le> n'" "n' \<le> length (stream_of junk ps)"
    and data: "take n (stream_of junk ps) @ data = take n' (stream_of junk ps)"
  shows "\<exists>r'. resync_feed r data = (r', take (out_by junk n' - out_by junk n) (drop (out_by junk n) ps)) \<and> clean_at junk ps n' r'"
proof -
  let ?S = "stream_of junk ps" and ?r = "r\<lparr>rs_buf := rs_buf r @ data\<rparr>"
  have feed: "resync_feed r data = resync_loop ?r []"
    by (simp add: resync_feed_def feed_into_def Let_def split: prod.splits)
  show ?thesis
  proof (cases "n < length junk + LOCK_LEN")
    case False
    then have l: "locked_at junk ps n ((n - length junk) div 188) r" "rs_head r = 0" using r by (simp_all add: clean_at_def)
    have buf: "rs_buf r @ data = drop (rs_consumed r) (take n' ?S)"
      using l(1) n' by (intro feed_buf[OF data]) (auto simp: locked_at_def)
    have l': "locked_at junk ps n' ((n - length junk) div 188) ?r"
      using l n' buf unfolding locked_at_def by simp
    from locked_run[OF cl n'(2) this, of "[]"] show ?thesis
      using False n' unfolding feed clean_at_def out_by_def by (auto simp: div_le_mono)
  next
    case before: True
    have u: "unlocked_at junk ps n r" using r before by (simp add: clean_at_def)
    have buf: "rs_buf r @ data = drop (n - 1020) (take n' ?S)"
      using u n' by (intro feed_buf[OF data]) (auto simp: unlocked_at_def)
    have old: "n - 1020 \<le> length junk" using before by (simp add: LOCK_LEN_def)
    have st: "rs_stride r = None" "rs_head r = 0" using u by (simp_all add: unlocked_at_def)
    have out0: "out_by junk n = 0" using before by (simp add: out_by_def)
    show ?thesis
    proof (cases "n' < length junk + LOCK_LEN")
      case True
      have "resync_loop ?r [] = (compact (keep_tail ?r), [])"
        using st no_lock_yet[OF cl True n'(2), of "n - 1020"]
        by (subst resync_loop.simps) (simp add: buf)
      moreover have "unlocked_at junk ps n' (compact (keep_tail ?r))"
      proof (cases "1020 < n' - (n - 1020)")
        case True
        then show ?thesis using u n' buf unfolding unlocked_at_def compact_def keep_tail_def Let_def
          by (auto simp: drop_stat_def LOCK_CONFIRMATIONS_def RS_PACKET_SIZE_def)
      next
        case False
        then have "n' - 1020 = n - 1020" using n'(1) by arith
        then show ?thesis using False u n' buf unfolding unlocked_at_def compact_def keep_tail_def Let_def
          by (auto simp: drop_stat_def LOCK_CONFIRMATIONS_def RS_PACKET_SIZE_def)
      qed
      ultimately show ?thesis using True unfolding feed clean_at_def out_by_def by simp
    next
      case False
      let ?g = "gain_lock ?r (length junk - (n - 1020)) Ts188"
      have "resync_loop ?r [] = resync_loop ?g []"
        using st locks_on_stream[OF cl _ n'(2) old] False
        by (subst resync_loop.simps) (simp add: buf)
      moreover have "locked_at junk ps n' 0 ?g"
        using u n' buf old False unfolding unlocked_at_def locked_at_def
        by (auto simp: gain_lock_def Let_def drop_stat_def LOCK_LEN_def)
      moreover from locked_run[OF cl n'(2) this, of "[]"]
      obtain r' where "resync_loop ?g [] = (r', take ((n' - length junk) div 188) ps)"
        "locked_at junk ps n' ((n' - length junk) div 188) r'" "rs_head r' = 0" by auto
      ultimately show ?thesis using False before unfolding feed clean_at_def out_by_def by simp
    qed
  qed
qed

primrec feed_chunks :: "TsResync \<Rightarrow> bytes list \<Rightarrow> TsResync \<times> bytes list" where
  "feed_chunks r [] = (r, [])"
| "feed_chunks r (c # cs) = (let (r, out) = resync_feed r c; (r, out') = feed_chunks r cs in (r, out @ out'))"

lemma clean_chunks:
  assumes cl: "clean_stream junk ps"
  defines "S \<equiv> stream_of junk ps"
  shows "clean_at junk ps n r \<Longrightarrow> n \<le> length S \<Longrightarrow> take n S @ concat chunks = S \<Longrightarrow>
    \<exists>r'. feed_chunks r chunks = (r', take (out_by junk (length S) - out_by junk n) (drop (out_by junk n) ps)) \<and>
      clean_at junk ps (length S) r'"
proof (induction chunks arbitrary: n r)
  case Nil
  then have "n = length S" by (metis append_Nil2 concat.simps(1) length_take min.absorb2)
  then show ?case using Nil by simp
next
  case (Cons c cs)
  let ?n = "n + length c"
  have split: "S = (take n S @ c) @ concat cs" using Cons.prems(3) by simp
  then have "length S = length (take n S @ c) + length (concat cs)" by (metis length_append)
  then have n': "?n \<le> length S" using Cons.prems(2) by simp
  have data: "take n S @ c = take ?n S"
  proof -
    have "take ?n S = take ?n ((take n S @ c) @ concat cs)" using split by simp
    then show ?thesis using Cons.prems(2) by simp
  qed
  obtain r1 where r1: "resync_feed r c = (r1, take (out_by junk ?n - out_by junk n) (drop (out_by junk n) ps))" "clean_at junk ps ?n r1"
    using clean_feed[OF cl Cons.prems(1) _ n'[unfolded S_def] data[unfolded S_def]] by auto
  have "take ?n S @ concat cs = S" using split data by simp
  from Cons.IH[OF r1(2) n' this] obtain r' where r': "feed_chunks r1 cs =
      (r', take (out_by junk (length S) - out_by junk ?n) (drop (out_by junk ?n) ps))" "clean_at junk ps (length S) r'" by blast
  have o: "out_by junk n \<le> out_by junk ?n" "out_by junk ?n \<le> out_by junk (length S)" using n' by (simp_all add: out_by_mono)
  have "take (out_by junk ?n - out_by junk n) (drop (out_by junk n) ps) @ take (out_by junk (length S) - out_by junk ?n) (drop (out_by junk ?n) ps) =
      take (out_by junk (length S) - out_by junk n) (drop (out_by junk n) ps)"
    using take_add[of "out_by junk ?n - out_by junk n" "out_by junk (length S) - out_by junk ?n" "drop (out_by junk n) ps"] o by simp
  then show ?case using r1(1) r' by simp
qed

text \<open>
  C13. A stream of at least five 188-byte packets behind any junk without a sync byte is recovered
  whole, however it is cut into chunks: exactly its packets are handed out, exactly the junk is counted
  as dropped, and no loss is reported.
\<close>

theorem clean_stream_recovered:
  assumes "clean_stream junk ps" "5 \<le> length ps" "concat chunks = junk @ concat ps"
  shows "\<exists>r. feed_chunks Resync_new chunks = (r, ps) \<and> rs_stride r = Some Ts188 \<and>
    rs_dropped_bytes (rs_stats r) = length junk \<and> rs_losses r = [] \<and> rs_buf r = []"
proof -
  let ?S = "stream_of junk ps"
  have len: "length ?S = length junk + 188 * length ps" by (rule clean_length[OF assms(1)])
  have new: "clean_at junk ps 0 Resync_new" by (simp add: clean_at_def LOCK_LEN_def unlocked_at_def Resync_new_def)
  have late: "\<not> length ?S < length junk + LOCK_LEN" unfolding len LOCK_LEN_def using assms(2) by simp
  have out: "out_by junk 0 = 0" "out_by junk (length ?S) = length ps" using late len by (simp_all add: out_by_def LOCK_LEN_def)
  obtain r where r: "feed_chunks Resync_new chunks = (r, ps)" "clean_at junk ps (length ?S) r"
    using clean_chunks[OF assms(1) new, of chunks] assms(3) out by (auto simp: stream_of_def)
  then have l: "locked_at junk ps (length ?S) (length ps) r" "rs_head r = 0" using late len by (simp_all add: clean_at_def)
  then have "rs_consumed r = length ?S" by (simp add: locked_at_def len)
  then show ?thesis using r(1) l by (auto simp: locked_at_def)
qed

text \<open>Three bytes of junk and five packets, in chunks of which one ends inside the first packet.\<close>

theorem clean_stream_recovered_witness:
  "let p = 0x47 # replicate 187 0 in
   \<exists>r. feed_chunks Resync_new [[1, 2, 3, 0x47], replicate 187 0 @ p @ p, p @ p] = (r, [p, p, p, p, p]) \<and>
    rs_stride r = Some Ts188 \<and> rs_dropped_bytes (rs_stats r) = length [1, 2, 3::u8] \<and> rs_losses r = [] \<and> rs_buf r = []"
  unfolding Let_def
  by (rule clean_stream_recovered) (simp_all add: clean_stream_def TS_SYNC_BYTE_def TS_PACKET_SIZE_def)

text \<open>
  The account of a run over three bytes of junk, five packets and the first byte of a sixth, at the
  end of the input: five spans handed out, and the truncated packet reported as the one loss.
\<close>

theorem resync_accounts_for_input_witness:
  "let p = 0x47 # replicate 187 0 in
   \<exists>r log. resyncing ([1, 2, 3] @ concat [p, p, p, p, p] @ [0x47]) [p, p, p, p, p] [] r \<and>
     in_order log \<and> length (kept log) = 5 \<and> lost log = [(943, 1)] \<and> rs_dropped_bytes (rs_stats r) = 4"
proof -
  let ?p = "0x47 # replicate 187 (0::u8)"
  let ?ps = "[?p, ?p, ?p, ?p, ?p]" and ?junk = "[1, 2, 3::u8]"
  have cl: "clean_stream ?junk ?ps" by (simp add: clean_stream_def TS_SYNC_BYTE_def TS_PACKET_SIZE_def)
  have len: "length (stream_of ?junk ?ps) = 943" using clean_length[OF cl] by simp
  have new: "clean_at ?junk ?ps 0 Resync_new" by (simp add: clean_at_def LOCK_LEN_def unlocked_at_def Resync_new_def)
  obtain r where r: "resync_feed Resync_new (stream_of ?junk ?ps) = (r, ?ps)" "clean_at ?junk ?ps 943 r"
    using clean_feed[OF cl new, of 943 "stream_of ?junk ?ps"] len by (auto simp: out_by_def LOCK_LEN_def)
  then have l: "rs_stride r = Some Ts188" "open_loss r = None" "rs_losses r = []" "rs_dropped_bytes (rs_stats r) = 3"
      "rs_buf r = []" "rs_head r = 0" "rs_consumed r = 943"
    using len by (auto simp: clean_at_def locked_at_def LOCK_LEN_def)
  let ?r = "r\<lparr>rs_buf := [0x47]\<rparr>"
  have f: "resync_feed r [0x47] = (?r, [])"
    using l by (simp add: resync_feed_def feed_into_def resync_loop.simps stride_len_def TS_PACKET_SIZE_def compact_def)
  have run: "resyncing ((([] @ stream_of ?junk ?ps) @ [0x47])) (([] @ ?ps) @ []) [] (resync_finish ?r)"
    by (rule resyncing_finish[OF resyncing_feed[OF resyncing_feed[OF resyncing_new r(1)] f]])
  have fin: "map loss_span (rs_losses (resync_finish ?r)) = [(943, 1)]" "rs_dropped_bytes (rs_stats (resync_finish ?r)) = 4"
    using l by (simp_all add: resync_finish_def Let_def drop_stat_def compact_def)
  obtain log where log: "in_order log" "([] @ ?ps) @ [] = map (\<lambda>(i, _). sub_slice ((([] @ stream_of ?junk ?ps) @ [0x47])) i (i + TS_PACKET_SIZE)) (kept log)"
      "map loss_span ([] @ rs_losses (resync_finish ?r)) = lost log"
    using resync_accounts_for_input[OF run] by blast
  have "length (kept log) = 5" using arg_cong[OF log(2), of length] by simp
  then show ?thesis unfolding Let_def
    using run log(1,3) fin by (intro exI[of _ "resync_finish ?r"] exI[of _ log]) (simp add: stream_of_def)
qed

end
