(* ===== verification/Pusi.thy ===== *)
theory Pusi
  imports Ts_Packet
begin

text \<open>
  Units delimited by \<open>payload_unit_start_indicator\<close>: the accumulator of
  \<open>broadcast-common/src/pusi.rs\<close> and its two users, the per-PID reassembler \<open>mpeg-ts/src/pusi.rs\<close> and
  the PES assembler \<open>mpeg-pes/src/assembler.rs\<close>, against the cutting of the payloads at the starts.
\<close>

section \<open>The accumulator (broadcast-common pusi.rs)\<close>

definition DEFAULT_MAX_UNIT_SIZE :: nat where "DEFAULT_MAX_UNIT_SIZE = 16 * 1024 * 1024"

record PusiAccumulator =
  pa_buf :: bytes
  pa_started :: bool
  max_unit_size :: nat

definition pa_with_max_unit_size :: "nat \<Rightarrow> PusiAccumulator" where
  "pa_with_max_unit_size m = \<lparr>pa_buf = [], pa_started = False, max_unit_size = m\<rparr>"

definition pa_new :: PusiAccumulator where "pa_new = pa_with_max_unit_size DEFAULT_MAX_UNIT_SIZE"

definition pa_feed :: "PusiAccumulator \<Rightarrow> bool \<Rightarrow> bytes \<Rightarrow> PusiAccumulator \<times> bytes option" where
  "pa_feed a start data =
     (if start then
        let completed = (if pa_started a \<and> pa_buf a \<noteq> [] then Some (pa_buf a) else None);
            a = a\<lparr>pa_buf := []\<rparr>;
            a = (if length data > max_unit_size a then a\<lparr>pa_started := False\<rparr>
                 else a\<lparr>pa_started := True, pa_buf := pa_buf a @ data\<rparr>)
        in (a, completed)
      else if \<not> pa_started a then (a, None)
      else if length (pa_buf a) + length data > max_unit_size a
      then (a\<lparr>pa_buf := [], pa_started := False\<rparr>, None)
      else (a\<lparr>pa_buf := pa_buf a @ data\<rparr>, None))"

definition pa_flush :: "PusiAccumulator \<Rightarrow> PusiAccumulator \<times> bytes option" where
  "pa_flush a =
     (let a = a\<lparr>pa_started := False\<rparr>
      in if pa_buf a = [] then (a, None) else (a\<lparr>pa_buf := []\<rparr>, Some (pa_buf a)))"

section \<open>Its users\<close>

text \<open>\<open>PusiReassembler\<close> (mpeg-ts pusi.rs) filters by PID.\<close>

record PusiReassembler =
  pr_pid :: Pid
  pr_inner :: PusiAccumulator

definition PusiReassembler_new :: "Pid \<Rightarrow> PusiReassembler" where
  "PusiReassembler_new own = \<lparr>pr_pid = own, pr_inner = pa_new\<rparr>"

definition PusiReassembler_with_max_unit_size :: "Pid \<Rightarrow> nat \<Rightarrow> PusiReassembler" where
  "PusiReassembler_with_max_unit_size own m = \<lparr>pr_pid = own, pr_inner = pa_with_max_unit_size m\<rparr>"

definition pr_push :: "PusiReassembler \<Rightarrow> Pid \<Rightarrow> bool \<Rightarrow> bytes \<Rightarrow> PusiReassembler \<times> bytes option" where
  "pr_push r own start data =
     (if own \<noteq> pr_pid r then (r, None)
      else let (a, out) = pa_feed (pr_inner r) start data in (r\<lparr>pr_inner := a\<rparr>, out))"

definition pr_flush :: "PusiReassembler \<Rightarrow> PusiReassembler \<times> bytes option" where
  "pr_flush r = (let (a, out) = pa_flush (pr_inner r) in (r\<lparr>pr_inner := a\<rparr>, out))"

text \<open>\<open>PesAssembler\<close> (mpeg-pes assembler.rs) is the accumulator itself.\<close>

record PesAssembler =
  pes_inner :: PusiAccumulator

definition PesAssembler_new :: PesAssembler where "PesAssembler_new = \<lparr>pes_inner = pa_new\<rparr>"

definition PesAssembler_with_max_unit_size :: "nat \<Rightarrow> PesAssembler" where
  "PesAssembler_with_max_unit_size m = \<lparr>pes_inner = pa_with_max_unit_size m\<rparr>"

definition pes_feed :: "PesAssembler \<Rightarrow> bool \<Rightarrow> bytes \<Rightarrow> PesAssembler \<times> bytes option" where
  "pes_feed p start data = (let (a, out) = pa_feed (pes_inner p) start data in (p\<lparr>pes_inner := a\<rparr>, out))"

definition pes_flush :: "PesAssembler \<Rightarrow> PesAssembler \<times> bytes option" where
  "pes_flush p = (let (a, out) = pa_flush (pes_inner p) in (p\<lparr>pes_inner := a\<rparr>, out))"

section \<open>The units of a payload sequence\<close>

text \<open>What still belongs to a unit that is open.\<close>

definition unit_rest :: "(bool \<times> bytes) list \<Rightarrow> bytes" where
  "unit_rest xs = concat (map snd (takeWhile (\<lambda>(start, _). \<not> start) xs))"

lemma unit_rest_simps [simp]:
  "unit_rest [] = []" "unit_rest ((True, p) # xs) = []" "unit_rest ((False, p) # xs) = p @ unit_rest xs"
  by (simp_all add: unit_rest_def)

text \<open>The units: each start with everything up to the next one.\<close>

fun pusi_units :: "(bool \<times> bytes) list \<Rightarrow> bytes list" where
  "pusi_units [] = []"
| "pusi_units ((False, p) # xs) = pusi_units xs"
| "pusi_units ((True, p) # xs) = (p @ unit_rest xs) # pusi_units xs"

definition keeps :: "nat \<Rightarrow> bytes list \<Rightarrow> bytes list" where
  "keeps m us = filter (\<lambda>u. u \<noteq> [] \<and> length u \<le> m) us"

text \<open>A run: the packets of one PID in order, and the flush at the end.\<close>

primrec pa_run :: "PusiAccumulator \<Rightarrow> (bool \<times> bytes) list \<Rightarrow> bytes list" where
  "pa_run a [] = (case snd (pa_flush a) of None \<Rightarrow> [] | Some u \<Rightarrow> [u])"
| "pa_run a (x # xs) =
     (let (a, out) = pa_feed a (fst x) (snd x) in (case out of None \<Rightarrow> [] | Some u \<Rightarrow> [u]) @ pa_run a xs)"

definition pa_ok :: "PusiAccumulator \<Rightarrow> bool" where
  "pa_ok a \<longleftrightarrow> length (pa_buf a) \<le> max_unit_size a \<and> (\<not> pa_started a \<longrightarrow> pa_buf a = [])"

lemma pa_run_units:
  "pa_ok a \<Longrightarrow> pa_run a xs = keeps (max_unit_size a) ((if pa_started a then [pa_buf a @ unit_rest xs] else []) @ pusi_units xs)"
proof (induction xs arbitrary: a)
  case Nil
  then show ?case by (auto simp: pa_flush_def pa_ok_def keeps_def Let_def)
next
  case (Cons x xs)
  obtain start p where x: "x = (start, p)" by fastforce
  obtain a' out where f: "pa_feed a start p = (a', out)" by fastforce
  have ok: "pa_ok a'" and m: "max_unit_size a' = max_unit_size a"
    using f Cons.prems by (auto simp: pa_feed_def pa_ok_def Let_def split: if_splits)
  note IH = Cons.IH[OF ok, unfolded m]
  show ?case
  proof (cases start)
    case True
    then show ?thesis using f Cons.prems IH x
      by (auto simp: pa_feed_def pa_ok_def Let_def keeps_def split: if_splits)
  next
    case False
    then show ?thesis using f Cons.prems IH x
      by (auto simp: pa_feed_def pa_ok_def Let_def keeps_def split: if_splits)
  qed
qed

text \<open>
  C21. The accumulator hands out exactly the units of the payload sequence, cut at the starts, in
  order and each once, but for those that are empty or longer than the cap: what precedes the first
  start is ignored, a unit over the cap is lost alone, and the last unit comes with the flush. It
  never holds more than the cap. The reassembler of one PID and the PES assembler agree with it.
\<close>

theorem pusi_units_recovered:
  "pa_run (pa_with_max_unit_size m) xs = filter (\<lambda>u. u \<noteq> [] \<and> length u \<le> m) (pusi_units xs) \<and>
   (pa_ok a \<longrightarrow> pa_ok (fst (pa_feed a start p)) \<and> length (pa_buf (fst (pa_feed a start p))) \<le> max_unit_size a) \<and>
   snd (pes_feed \<lparr>pes_inner = a\<rparr> start p) = snd (pa_feed a start p) \<and>
   pes_inner (fst (pes_feed \<lparr>pes_inner = a\<rparr> start p)) = fst (pa_feed a start p) \<and>
   pr_push \<lparr>pr_pid = own, pr_inner = a\<rparr> own' start p =
     (if own' = own then (\<lparr>pr_pid = own, pr_inner = fst (pa_feed a start p)\<rparr>, snd (pa_feed a start p))
      else (\<lparr>pr_pid = own, pr_inner = a\<rparr>, None))"
proof (intro conjI)
  have "pa_ok (pa_with_max_unit_size m)" by (simp add: pa_ok_def pa_with_max_unit_size_def)
  then show "pa_run (pa_with_max_unit_size m) xs = filter (\<lambda>u. u \<noteq> [] \<and> length u \<le> m) (pusi_units xs)"
    using pa_run_units[of "pa_with_max_unit_size m" xs] by (simp add: keeps_def pa_with_max_unit_size_def)
  show "pa_ok a \<longrightarrow> pa_ok (fst (pa_feed a start p)) \<and> length (pa_buf (fst (pa_feed a start p))) \<le> max_unit_size a"
    by (auto simp: pa_feed_def pa_ok_def Let_def)
qed (auto simp: pes_feed_def pr_push_def split: prod.splits)

theorem pusi_units_recovered_witness:
  "pa_run (pa_with_max_unit_size 3) [(False, [9]), (True, [1, 2]), (False, [3]), (True, [4, 5]), (False, [6, 7]), (True, [8])] =
     [[1, 2, 3], [8]] \<and>
   length (pa_buf (fst (pa_feed (pa_with_max_unit_size 3) True [1, 2]))) \<le> 3"
proof -
  have "pa_ok (pa_with_max_unit_size 3)" by (simp add: pa_ok_def pa_with_max_unit_size_def)
  then have "length (pa_buf (fst (pa_feed (pa_with_max_unit_size 3) True [1, 2]))) \<le> max_unit_size (pa_with_max_unit_size 3)"
    using pusi_units_recovered[of 3 "[]" "pa_with_max_unit_size 3" True "[1, 2]"] by blast
  moreover have "pa_run (pa_with_max_unit_size 3) [(False, [9]), (True, [1, 2]), (False, [3]), (True, [4, 5]), (False, [6, 7]), (True, [8])] =
     filter (\<lambda>u. u \<noteq> [] \<and> length u \<le> 3) (pusi_units [(False, [9]), (True, [1, 2]), (False, [3]), (True, [4, 5]), (False, [6, 7]), (True, [8])])"
    using pusi_units_recovered by blast
  ultimately show ?thesis by (simp add: pa_with_max_unit_size_def)
qed

end
