(* ===== verification/Rist_Wire.thy ===== *)
theory Rist_Wire
  imports Wire_Words
begin

text \<open>
  The RTCP feedback messages of RIST (\<open>rist-runtime/src/nack.rs\<close>, \<open>rtt_echo.rs\<close>, \<open>error.rs\<close>, with
  \<open>padding_count\<close> of \<open>rtcp-packet/src/packet.rs\<close>): the Generic NACK with its bit masks, the Range NACK,
  the RTT Echo, the padding they share, and their byte-exact round trips.
\<close>

section \<open>Errors and constants\<close>

text \<open>The variant \<open>Rtcp\<close>, which only the compound packets return, is left out.\<close>

datatype RistError =
    RistBufferTooShort BufferTooShort
  | RistOutputBufferTooSmall OutputBufferTooSmall
  | RistUnsupportedVersion string u8
  | InvalidAppName u32
  | InvalidSubtype u8
  | InvalidFmt u8 u8
  | InvalidPacketType u8 u8
  | TooManyRanges nat nat
  | InvalidPaddingLength nat
  | InvalidPaddingCount nat nat
  | PaddingBitSet
  | MissingCname
  | DuplicateRttEcho
  | UnexpectedPacketType u8
  | RistFieldOverflow FieldOverflow

definition RIST_APP_NAME :: bytes where "RIST_APP_NAME = [0x52, 0x49, 0x53, 0x54]"
definition RIST_APP_NAME_U32 :: u32 where "RIST_APP_NAME_U32 = 0x52495354"
definition PT_RTPFB :: u8 where "PT_RTPFB = 205"
definition FMT_GENERIC_NACK :: u8 where "FMT_GENERIC_NACK = 1"
definition SUBTYPE_RTT_ECHO_REQUEST :: u8 where "SUBTYPE_RTT_ECHO_REQUEST = 2"
definition SUBTYPE_RTT_ECHO_RESPONSE :: u8 where "SUBTYPE_RTT_ECHO_RESPONSE = 3"
definition SUBTYPE_RANGE_NACK :: u8 where "SUBTYPE_RANGE_NACK = 0"
definition RTCP_COUNT_MASK :: u8 where "RTCP_COUNT_MASK = 0x1F"
definition RTCP_PADDING_MASK :: u8 where "RTCP_PADDING_MASK = 0x20"

definition RTCP_VERSION :: u8 where "RTCP_VERSION = 2"
definition RTCP_HEADER_LEN :: nat where "RTCP_HEADER_LEN = 4"
definition WORD_LEN :: nat where "WORD_LEN = 4"
definition APP_NAME_LEN :: nat where "APP_NAME_LEN = 4"
definition PT_APP :: u8 where "PT_APP = 204"
definition MAX_RANGE_ENTRIES :: nat where "MAX_RANGE_ENTRIES = 16"
definition GENERIC_NACK_MIN_LEN :: nat where "GENERIC_NACK_MIN_LEN = RTCP_HEADER_LEN + WORD_LEN + WORD_LEN"
definition NACK_FCI_LEN :: nat where "NACK_FCI_LEN = 4"
definition BLP_BIT_WIDTH :: nat where "BLP_BIT_WIDTH = 16"
definition RANGE_NACK_MIN_LEN :: nat where "RANGE_NACK_MIN_LEN = RTCP_HEADER_LEN + WORD_LEN + APP_NAME_LEN"
definition RANGE_ENTRY_LEN :: nat where "RANGE_ENTRY_LEN = 4"

lemmas rtcp_consts =
  RTCP_VERSION_def RTCP_HEADER_LEN_def WORD_LEN_def APP_NAME_LEN_def PT_APP_def PT_RTPFB_def FMT_GENERIC_NACK_def
  SUBTYPE_RANGE_NACK_def SUBTYPE_RTT_ECHO_REQUEST_def SUBTYPE_RTT_ECHO_RESPONSE_def RTCP_COUNT_MASK_def
  RTCP_PADDING_MASK_def GENERIC_NACK_MIN_LEN_def NACK_FCI_LEN_def RANGE_NACK_MIN_LEN_def RANGE_ENTRY_LEN_def
  MAX_RANGE_ENTRIES_def

section \<open>Padding\<close>

definition padding_count :: "bytes \<Rightarrow> (RistError, nat) result" where
  "padding_count body =
     (let count = (if body = [] then 0 else unat (last body))
      in if count = 0 \<or> count > length body then Err (InvalidPaddingCount count (length body)) else Ok count)"

definition unpadded_end :: "bytes \<Rightarrow> nat \<Rightarrow> (RistError, nat) result" where
  "unpadded_end bs total_len =
     (if bs ! 0 AND RTCP_PADDING_MASK = 0 then Ok total_len
      else and_then (padding_count (sub_slice bs RTCP_HEADER_LEN total_len)) (\<lambda>count. Ok (total_len - count)))"

definition padding_region :: "bytes \<Rightarrow> nat \<Rightarrow> nat \<Rightarrow> nat \<Rightarrow> nat \<Rightarrow> (RistError, bytes) result" where
  "padding_region bs total_len end_at min_len entry_len =
     (if end_at = total_len then Ok []
      else if (end_at - min_len) mod entry_len \<noteq> 0
      then Err (InvalidPaddingCount (total_len - end_at) (total_len - RTCP_HEADER_LEN))
      else Ok (sub_slice bs end_at (total_len - 1)))"

definition padding_total :: "bytes \<Rightarrow> nat \<Rightarrow> (RistError, nat) result" where
  "padding_total padding body =
     (if padding = [] then Ok 0
      else let count = length padding + 1
           in if count > 255 \<or> count mod WORD_LEN \<noteq> 0 then Err (InvalidPaddingCount count body) else Ok count)"

definition padded_len :: "nat \<Rightarrow> bytes \<Rightarrow> nat" where
  "padded_len body_len padding = body_len + length padding + (if padding = [] then 0 else 1)"

definition serialize_padded ::
    "nat \<Rightarrow> bytes \<Rightarrow> bytes \<Rightarrow> (bytes \<Rightarrow> (RistError, bytes \<times> nat) result) \<Rightarrow> (RistError, bytes \<times> nat) result" where
  "serialize_padded body_len padding buf write_body =
     (let len = padded_len body_len padding
      in and_then (map_err RistOutputBufferTooSmall (need_out buf len)) (\<lambda>_.
         and_then (write_body buf) (\<lambda>(buf, written).
         and_then (padding_total padding (written - RTCP_HEADER_LEN)) (\<lambda>pad.
           if pad > 0
           then let total = written + pad
                in and_then (map_err RistFieldOverflow (fit_u16 (total div WORD_LEN - 1) ''RTCP length'')) (\<lambda>length_field.
                     let buf = buf[0 := buf ! 0 OR RTCP_PADDING_MASK];
                         buf = put_be16 buf 2 length_field;
                         buf = put_slice buf written padding;
                         buf = buf[total - 1 := word_of_nat pad]
                     in Ok (buf, len))
           else Ok (buf, len)))))"

section \<open>Lists of number pairs\<close>

text \<open>Both NACK formats carry 4-byte entries of two 16-bit numbers, read and written at a cursor.\<close>

fun read_entries :: "nat \<Rightarrow> nat \<Rightarrow> bytes \<Rightarrow> (u16 \<times> u16) list" where
  "read_entries 0 off bs = []"
| "read_entries (Suc n) off bs = (be16 bs off, be16 bs (off + 2)) # read_entries n (off + 4) bs"

fun put_entries :: "(u16 \<times> u16) list \<Rightarrow> nat \<Rightarrow> bytes \<Rightarrow> bytes" where
  "put_entries [] off buf = buf"
| "put_entries ((a, b) # es) off buf = put_entries es (off + 4) (put_be16 (put_be16 buf off a) (off + 2) b)"

definition entry_bytes :: "u16 \<times> u16 \<Rightarrow> bytes" where
  "entry_bytes e = u16_to_be (fst e) @ u16_to_be (snd e)"

definition entries_wire :: "(u16 \<times> u16) list \<Rightarrow> bytes" where
  "entries_wire es = concat (map entry_bytes es)"

lemma entries_wire_simps [simp]:
  "entries_wire [] = []" "entries_wire (e # es) = entry_bytes e @ entries_wire es"
  by (simp_all add: entries_wire_def)

lemma length_entry_bytes [simp]: "length (entry_bytes e) = 4"
  by (simp add: entry_bytes_def)

lemma length_entries_wire [simp]: "length (entries_wire es) = 4 * length es"
  by (induction es) simp_all

lemma read_entries_wire:
  "off = length pre \<Longrightarrow> read_entries (length es) off (pre @ entries_wire es @ rest) = es"
proof (induction es arbitrary: pre off)
  case (Cons e es)
  have "read_entries (length es) (off + 4) ((pre @ entry_bytes e) @ entries_wire es @ rest) = es"
    using Cons by (intro Cons.IH) simp
  moreover have "be16 (pre @ u16_to_be (fst e) @ (u16_to_be (snd e) @ entries_wire es @ rest)) off = fst e"
    by (rule be16_at[OF Cons.prems])
  moreover have "be16 ((pre @ u16_to_be (fst e)) @ u16_to_be (snd e) @ (entries_wire es @ rest)) (off + 2) = snd e"
    using Cons.prems by (intro be16_at) simp
  ultimately show ?case by (simp add: entry_bytes_def)
qed simp

lemma read_entries_back:
  "off + 4 * n \<le> length bs \<Longrightarrow> entries_wire (read_entries n off bs) = sub_slice bs off (off + 4 * n)"
proof (induction n arbitrary: off)
  case (Suc n)
  have "entry_bytes (be16 bs off, be16 bs (off + 2)) = sub_slice bs off (off + 4)"
    using Suc.prems be16_back[of off bs] be16_back[of "off + 2" bs]
    by (simp add: entry_bytes_def sub_slice_def take_add[of 2 2 "drop off bs", simplified] add.commute)
  moreover have "sub_slice bs off (off + 4) @ sub_slice bs (off + 4) (off + 4 + 4 * n) = sub_slice bs off (off + 4 * Suc n)"
    by (simp add: sub_slice_def take_add[of 4 "4 * n" "drop off bs"] add.commute)
  ultimately show ?case using Suc.IH[of "off + 4"] Suc.prems by simp
qed (simp add: sub_slice_def)

lemma length_read_entries [simp]: "length (read_entries n off bs) = n"
  by (induction n off bs rule: read_entries.induct) simp_all

lemma put_be16_at: "off = length pre \<Longrightarrow> put_be16 (pre @ rest) off w = pre @ u16_to_be w @ drop 2 rest"
  by (simp add: put_be16_def)

lemma put_be32_at: "off = length pre \<Longrightarrow> put_be32 (pre @ rest) off w = pre @ u32_to_be w @ drop 4 rest"
  by (simp add: put_be32_def)

lemma put_entries_at:
  "off = length pre \<Longrightarrow> put_entries es off (pre @ rest) = pre @ entries_wire es @ drop (4 * length es) rest"
proof (induction es arbitrary: pre off rest)
  case (Cons e es)
  obtain a b where e: "e = (a, b)" by (cases e)
  have "put_be16 (put_be16 (pre @ rest) off a) (off + 2) b = (pre @ entry_bytes e) @ drop 4 rest"
    using Cons.prems put_be16_at[of "off + 2" "pre @ u16_to_be a" "drop 2 rest" b]
    by (simp add: put_be16_at e entry_bytes_def)
  then show ?case using Cons.IH[of "off + 4" "pre @ entry_bytes e" "drop 4 rest"] Cons.prems by (simp add: e add.commute)
qed simp

section \<open>The common header\<close>

text \<open>The length checks that follow the header, the same in the three parsers.\<close>

definition rtcp_total_len :: "bytes \<Rightarrow> nat" where
  "rtcp_total_len bs = (unat (be16 bs 2) + 1) * WORD_LEN"

definition check_total_len :: "bytes \<Rightarrow> nat \<Rightarrow> string \<Rightarrow> (RistError, unit) result" where
  "check_total_len bs min_len what =
     (let total_len = rtcp_total_len bs
      in if length bs < total_len
         then Err (RistBufferTooShort \<lparr>bts_need = total_len, bts_have = length bs, bts_what = what\<rparr>)
         else if total_len < min_len
         then Err (RistBufferTooShort \<lparr>bts_need = min_len, bts_have = total_len, bts_what = what\<rparr>)
         else Ok ())"

definition check_version :: "bytes \<Rightarrow> (RistError, unit) result" where
  "check_version bs =
     (if length bs < RTCP_HEADER_LEN
      then Err (RistBufferTooShort \<lparr>bts_need = RTCP_HEADER_LEN, bts_have = length bs, bts_what = ''RTCP common header''\<rparr>)
      else if drop_bit 6 (bs ! 0) \<noteq> RTCP_VERSION then Err (RistUnsupportedVersion ''RTCP'' (drop_bit 6 (bs ! 0)))
      else Ok ())"

section \<open>Generic NACK\<close>

record NackFci =
  fci_pid :: u16
  fci_blp :: u16

record GenericNack =
  gn_ssrc_sender :: u32
  gn_ssrc_media :: u32
  gn_nacks :: "NackFci list"
  gn_padding :: bytes

definition GenericNack_parse :: "bytes \<Rightarrow> (RistError, GenericNack) result" where
  "GenericNack_parse bs =
     and_then (check_version bs) (\<lambda>_.
       let fmt = bs ! 0 AND RTCP_COUNT_MASK
       in if fmt \<noteq> FMT_GENERIC_NACK then Err (InvalidFmt FMT_GENERIC_NACK fmt)
          else if bs ! 1 \<noteq> PT_RTPFB then Err (InvalidPacketType PT_RTPFB (bs ! 1))
          else and_then (check_total_len bs GENERIC_NACK_MIN_LEN ''Generic NACK'') (\<lambda>_.
            let total_len = rtcp_total_len bs
            in and_then (unpadded_end bs total_len) (\<lambda>end_at.
                 if end_at < GENERIC_NACK_MIN_LEN
                 then Err (RistBufferTooShort \<lparr>bts_need = GENERIC_NACK_MIN_LEN, bts_have = end_at, bts_what = ''Generic NACK''\<rparr>)
                 else let fci_count = (end_at - GENERIC_NACK_MIN_LEN) div NACK_FCI_LEN;
                          nacks = map (\<lambda>(a, b). \<lparr>fci_pid = a, fci_blp = b\<rparr>) (read_entries fci_count GENERIC_NACK_MIN_LEN bs)
                      in and_then (padding_region bs total_len end_at GENERIC_NACK_MIN_LEN NACK_FCI_LEN) (\<lambda>padding.
                           Ok \<lparr>gn_ssrc_sender = be32 bs 4, gn_ssrc_media = be32 bs 8, gn_nacks = nacks, gn_padding = padding\<rparr>))))"

definition GenericNack_body_len :: "GenericNack \<Rightarrow> nat" where
  "GenericNack_body_len g = GENERIC_NACK_MIN_LEN + length (gn_nacks g) * NACK_FCI_LEN"

definition GenericNack_serialized_len :: "GenericNack \<Rightarrow> nat" where
  "GenericNack_serialized_len g = padded_len (GenericNack_body_len g) (gn_padding g)"

definition GenericNack_write_body :: "GenericNack \<Rightarrow> bytes \<Rightarrow> (RistError, bytes \<times> nat) result" where
  "GenericNack_write_body g buf =
     (let len = GenericNack_body_len g
      in and_then (map_err RistOutputBufferTooSmall (need_out buf len)) (\<lambda>_.
         and_then (map_err RistFieldOverflow (fit_u16 (len div WORD_LEN - 1) ''RTCP length'')) (\<lambda>length_field.
           let buf = buf[0 := push_bit 6 RTCP_VERSION OR FMT_GENERIC_NACK];
               buf = buf[1 := PT_RTPFB];
               buf = put_be16 buf 2 length_field;
               buf = put_be32 buf 4 (gn_ssrc_sender g);
               buf = put_be32 buf 8 (gn_ssrc_media g);
               buf = put_entries (map (\<lambda>f. (fci_pid f, fci_blp f)) (gn_nacks g)) GENERIC_NACK_MIN_LEN buf
           in Ok (buf, len))))"

definition GenericNack_serialize_into :: "GenericNack \<Rightarrow> bytes \<Rightarrow> (RistError, bytes \<times> nat) result" where
  "GenericNack_serialize_into g buf =
     serialize_padded (GenericNack_body_len g) (gn_padding g) buf (GenericNack_write_body g)"

section \<open>Range NACK\<close>

record PacketRange =
  range_start :: u16
  range_additional :: u16

record RangeNack =
  rn_ssrc_media :: u32
  rn_ranges :: "PacketRange list"
  rn_padding :: bytes

definition RangeNack_parse :: "bytes \<Rightarrow> (RistError, RangeNack) result" where
  "RangeNack_parse bs =
     and_then (check_version bs) (\<lambda>_.
       let subtype = bs ! 0 AND RTCP_COUNT_MASK
       in if subtype \<noteq> SUBTYPE_RANGE_NACK then Err (InvalidSubtype subtype)
          else if bs ! 1 \<noteq> PT_APP then Err (InvalidPacketType PT_APP (bs ! 1))
          else and_then (check_total_len bs RANGE_NACK_MIN_LEN ''Range NACK'') (\<lambda>_.
            if be32 bs 8 \<noteq> RIST_APP_NAME_U32 then Err (InvalidAppName (be32 bs 8))
            else let total_len = rtcp_total_len bs
            in and_then (unpadded_end bs total_len) (\<lambda>end_at.
                 if end_at < RANGE_NACK_MIN_LEN
                 then Err (RistBufferTooShort \<lparr>bts_need = RANGE_NACK_MIN_LEN, bts_have = end_at, bts_what = ''Range NACK''\<rparr>)
                 else let range_count = (end_at - RANGE_NACK_MIN_LEN) div RANGE_ENTRY_LEN
                      in if range_count > MAX_RANGE_ENTRIES then Err (TooManyRanges MAX_RANGE_ENTRIES range_count)
                         else let ranges = map (\<lambda>(a, b). \<lparr>range_start = a, range_additional = b\<rparr>)
                                             (read_entries range_count RANGE_NACK_MIN_LEN bs)
                              in and_then (padding_region bs total_len end_at RANGE_NACK_MIN_LEN RANGE_ENTRY_LEN) (\<lambda>padding.
                                   Ok \<lparr>rn_ssrc_media = be32 bs 4, rn_ranges = ranges, rn_padding = padding\<rparr>))))"

definition RangeNack_body_len :: "RangeNack \<Rightarrow> nat" where
  "RangeNack_body_len r = RANGE_NACK_MIN_LEN + length (rn_ranges r) * RANGE_ENTRY_LEN"

definition RangeNack_serialized_len :: "RangeNack \<Rightarrow> nat" where
  "RangeNack_serialized_len r = padded_len (RangeNack_body_len r) (rn_padding r)"

definition RangeNack_write_body :: "RangeNack \<Rightarrow> bytes \<Rightarrow> (RistError, bytes \<times> nat) result" where
  "RangeNack_write_body r buf =
     (let len = RangeNack_body_len r
      in and_then (map_err RistOutputBufferTooSmall (need_out buf len)) (\<lambda>_.
         if length (rn_ranges r) > MAX_RANGE_ENTRIES then Err (TooManyRanges MAX_RANGE_ENTRIES (length (rn_ranges r)))
         else and_then (map_err RistFieldOverflow (fit_u16 (len div WORD_LEN - 1) ''RTCP length'')) (\<lambda>length_field.
           let buf = buf[0 := push_bit 6 RTCP_VERSION OR SUBTYPE_RANGE_NACK];
               buf = buf[1 := PT_APP];
               buf = put_be16 buf 2 length_field;
               buf = put_be32 buf 4 (rn_ssrc_media r);
               buf = put_slice buf 8 RIST_APP_NAME;
               buf = put_entries (map (\<lambda>g. (range_start g, range_additional g)) (rn_ranges r)) RANGE_NACK_MIN_LEN buf
           in Ok (buf, len))))"

definition RangeNack_serialize_into :: "RangeNack \<Rightarrow> bytes \<Rightarrow> (RistError, bytes \<times> nat) result" where
  "RangeNack_serialize_into r buf =
     serialize_padded (RangeNack_body_len r) (rn_padding r) buf (RangeNack_write_body r)"

section \<open>RTT Echo\<close>

definition RTT_ECHO_BODY_LEN :: nat where "RTT_ECHO_BODY_LEN = 20"
definition RTT_ECHO_MIN_LEN :: nat where "RTT_ECHO_MIN_LEN = RTCP_HEADER_LEN + RTT_ECHO_BODY_LEN"

datatype RttEchoKind = EchoRequest | EchoResponse

fun RttEchoKind_subtype :: "RttEchoKind \<Rightarrow> u8" where
  "RttEchoKind_subtype EchoRequest = SUBTYPE_RTT_ECHO_REQUEST"
| "RttEchoKind_subtype EchoResponse = SUBTYPE_RTT_ECHO_RESPONSE"

definition RttEchoKind_from_subtype :: "u8 \<Rightarrow> (RistError, RttEchoKind) result" where
  "RttEchoKind_from_subtype subtype =
     (if subtype = SUBTYPE_RTT_ECHO_REQUEST then Ok EchoRequest
      else if subtype = SUBTYPE_RTT_ECHO_RESPONSE then Ok EchoResponse
      else Err (InvalidSubtype subtype))"

record RttEcho =
  echo_kind :: RttEchoKind
  echo_ssrc_media :: u32
  echo_timestamp :: u64
  echo_processing_delay_us :: u32
  echo_padding :: bytes

definition RttEcho_parse :: "bytes \<Rightarrow> (RistError, RttEcho) result" where
  "RttEcho_parse bs =
     and_then (check_version bs) (\<lambda>_.
       if bs ! 0 AND RTCP_PADDING_MASK \<noteq> 0 then Err PaddingBitSet
       else and_then (RttEchoKind_from_subtype (bs ! 0 AND RTCP_COUNT_MASK)) (\<lambda>kind.
         if bs ! 1 \<noteq> PT_APP then Err (InvalidPacketType PT_APP (bs ! 1))
         else and_then (check_total_len bs RTT_ECHO_MIN_LEN ''RTT Echo'') (\<lambda>_.
           if be32 bs 8 \<noteq> RIST_APP_NAME_U32 then Err (InvalidAppName (be32 bs 8))
           else let timestamp = push_bit 32 (ucast (be32 bs 12)) OR ucast (be32 bs 16);
                    total_len = rtcp_total_len bs;
                    padding = (if total_len > RTT_ECHO_MIN_LEN then sub_slice bs RTT_ECHO_MIN_LEN total_len else [])
                in Ok \<lparr>echo_kind = kind, echo_ssrc_media = be32 bs 4, echo_timestamp = timestamp,
                      echo_processing_delay_us = be32 bs 20, echo_padding = padding\<rparr>)))"

definition RttEcho_serialized_len :: "RttEcho \<Rightarrow> nat" where
  "RttEcho_serialized_len e = RTT_ECHO_MIN_LEN + length (echo_padding e)"

definition RttEcho_serialize_into :: "RttEcho \<Rightarrow> bytes \<Rightarrow> (RistError, bytes \<times> nat) result" where
  "RttEcho_serialize_into e buf =
     (let len = RttEcho_serialized_len e
      in and_then (map_err RistOutputBufferTooSmall (need_out buf len)) (\<lambda>_.
         if length (echo_padding e) mod WORD_LEN \<noteq> 0 then Err (InvalidPaddingLength (length (echo_padding e)))
         else and_then (map_err RistFieldOverflow (fit_u16 (len div WORD_LEN - 1) ''RTCP length'')) (\<lambda>length_field.
           let buf = buf[0 := push_bit 6 RTCP_VERSION OR RttEchoKind_subtype (echo_kind e)];
               buf = buf[1 := PT_APP];
               buf = put_be16 buf 2 length_field;
               buf = put_be32 buf 4 (echo_ssrc_media e);
               buf = put_slice buf 8 RIST_APP_NAME;
               buf = put_be32 buf 12 (ucast (drop_bit 32 (echo_timestamp e)));
               buf = put_be32 buf 16 (ucast (echo_timestamp e));
               buf = put_be32 buf 20 (echo_processing_delay_us e);
               buf = (if echo_padding e \<noteq> [] then put_slice buf 24 (echo_padding e) else buf)
           in Ok (buf, len))))"

end
