(* ===== verification/Rist_Arq.thy ===== *)
theory Rist_Arq
  imports Rist_Wire Seq "HOL-Library.AList"
begin

text \<open>
  The reliability engine of RIST (\<open>rist-runtime/src/arq/mod.rs\<close>, \<open>rtt.rs\<close>, \<open>sender.rs\<close>,
  \<open>receiver.rs\<close>). A \<open>BTreeMap\<close> that is iterated is an association list in the order of its keys, one
  that is only looked up an association list with distinct keys; a \<open>BTreeSet\<close> is a set.
\<close>

section \<open>Configuration and round-trip estimate\<close>

definition MAX_RANGE_EXPANSION :: nat where "MAX_RANGE_EXPANSION = 2 ^ 16"

record ArqConfig =
  receiver_buffer :: duration
  reorder_section :: duration
  max_retransmission_requests :: nat
  recovery_rtt_min :: duration
  recovery_rtt_max :: duration

definition appendix_b_defaults :: ArqConfig where
  "appendix_b_defaults = \<lparr>receiver_buffer = from_millis 1000, reorder_section = from_millis 70,
     max_retransmission_requests = 7, recovery_rtt_min = from_millis 5, recovery_rtt_max = from_millis 500\<rparr>"

definition reassembly_budget :: "ArqConfig \<Rightarrow> duration" where
  "reassembly_budget c = receiver_buffer c - reorder_section c"

definition fallback_retransmission_interval :: "ArqConfig \<Rightarrow> duration" where
  "fallback_retransmission_interval c = reassembly_budget c div max (max_retransmission_requests c) 1"

record RistRtt =
  eight_times_us :: "nat option"

definition RistRtt_new :: RistRtt where "RistRtt_new = \<lparr>eight_times_us = None\<rparr>"

definition RistRtt_update :: "RistRtt \<Rightarrow> duration \<Rightarrow> RistRtt" where
  "RistRtt_update e sample =
     (let sample_us = min (as_micros sample) U64_MAX
      in e\<lparr>eight_times_us := Some (case eight_times_us e of
             None \<Rightarrow> min (sample_us * 8) U64_MAX
           | Some acc \<Rightarrow> min ((acc - acc div 8) + sample_us) U64_MAX)\<rparr>)"

definition RistRtt_smoothed :: "RistRtt \<Rightarrow> duration option" where
  "RistRtt_smoothed e = map_option (\<lambda>acc. from_micros (acc div 8)) (eight_times_us e)"

definition rtt_sample :: "duration \<Rightarrow> duration \<Rightarrow> RttEcho \<Rightarrow> duration" where
  "rtt_sample sent_at now response = (now - sent_at) - from_micros (unat (echo_processing_delay_us response))"

section \<open>Sender\<close>

definition MIN_RETRANSMIT_INTERVAL :: duration where "MIN_RETRANSMIT_INTERVAL = from_millis 20"

record Retransmission =
  rt_seq :: u16
  rt_timestamp :: u32
  rt_payload :: bytes

record RistSent =
  rs_sent_seq :: u16
  rs_sent_timestamp :: u32
  rs_sent_payload :: bytes

record RistSender =
  by_seq :: "(u16 \<times> RistSent) list"
  sent_order :: "u16 list"
  max_buffered :: nat
  last_retransmitted :: "(u16 \<times> duration) list"

definition RistSender_new :: "nat \<Rightarrow> RistSender" where
  "RistSender_new max_n = \<lparr>by_seq = [], sent_order = [], max_buffered = max 1 (min max_n (2 ^ 15 - 1)), last_retransmitted = []\<rparr>"

definition rist_buffered_count :: "RistSender \<Rightarrow> nat" where
  "rist_buffered_count s = length (by_seq s)"

text \<open>The eviction loop, over the queue of numbers in the order they were sent.\<close>

fun evict :: "nat \<Rightarrow> u16 list \<Rightarrow> (u16 \<times> RistSent) list \<Rightarrow> (u16 \<times> duration) list \<Rightarrow>
    u16 list \<times> (u16 \<times> RistSent) list \<times> (u16 \<times> duration) list" where
  "evict n [] sent last_rt = ([], sent, last_rt)"
| "evict n (oldest # order) sent last_rt =
     (if length sent > n then evict n order (AList.delete oldest sent) (AList.delete oldest last_rt)
      else (oldest # order, sent, last_rt))"

definition on_sent :: "RistSender \<Rightarrow> u16 \<Rightarrow> u32 \<Rightarrow> bytes \<Rightarrow> RistSender" where
  "on_sent s seq_n timestamp payload_b =
     (let sent = AList.update seq_n \<lparr>rs_sent_seq = seq_n, rs_sent_timestamp = timestamp, rs_sent_payload = payload_b\<rparr> (by_seq s);
          order = sent_order s @ [seq_n];
          last_rt = AList.delete seq_n (last_retransmitted s);
          (order, sent, last_rt) = evict (max_buffered s) order sent last_rt
      in s\<lparr>by_seq := sent, sent_order := order, last_retransmitted := last_rt\<rparr>)"

text \<open>\<open>run_from n s\<close>: the loop that lists \<open>n\<close> consecutive numbers from \<open>s\<close>.\<close>

fun run_from :: "nat \<Rightarrow> u16 \<Rightarrow> u16 list" where
  "run_from 0 s = []"
| "run_from (Suc n) s = s # run_from n (rist_seq_next s)"

definition expand_range :: "PacketRange \<Rightarrow> u16 list" where
  "expand_range r = run_from (min (unat (range_additional r) + 1) MAX_RANGE_EXPANSION) (range_start r)"

definition expand_fci :: "NackFci \<Rightarrow> u16 list" where
  "expand_fci f = fci_pid f #
     map (\<lambda>b. rist_seq_add (fci_pid f) (word_of_nat (b + 1))) (filter (\<lambda>b. fci_blp f AND push_bit b 1 \<noteq> 0) [0..<BLP_BIT_WIDTH])"

text \<open>
  The candidate loop of \<open>resolve\<close>: \<open>seen\<close> and \<open>out\<close> are its two collections, \<open>out\<close> in reverse.
\<close>

fun resolve_loop :: "(u16 \<times> RistSent) list \<Rightarrow> nat \<Rightarrow> duration \<Rightarrow> u16 list \<Rightarrow> u16 set \<Rightarrow> u16 list \<Rightarrow> (u16 \<times> duration) list \<Rightarrow>
    u16 list \<times> (u16 \<times> duration) list" where
  "resolve_loop sent max_out now [] seen out last_rt = (rev out, last_rt)"
| "resolve_loop sent max_out now (s # cands) seen out last_rt =
     (if length out \<ge> max_out then (rev out, last_rt)
      else if s \<in> seen then resolve_loop sent max_out now cands seen out last_rt
      else if map_of sent s = None then resolve_loop sent max_out now cands (insert s seen) out last_rt
      else if (case map_of last_rt s of None \<Rightarrow> False | Some t \<Rightarrow> now - t < MIN_RETRANSMIT_INTERVAL)
      then resolve_loop sent max_out now cands (insert s seen) out last_rt
      else resolve_loop sent max_out now cands (insert s seen) (s # out) (AList.update s now last_rt))"

definition rist_resolve :: "RistSender \<Rightarrow> u16 list \<Rightarrow> duration \<Rightarrow> RistSender \<times> Retransmission list" where
  "rist_resolve s candidates now =
     (let (out_seqs, last_rt) =
            resolve_loop (by_seq s) (max_buffered s) now (take MAX_RANGE_EXPANSION candidates) {} [] (last_retransmitted s)
      in (s\<lparr>last_retransmitted := last_rt\<rparr>,
          List.map_filter (\<lambda>q. map_option (\<lambda>p. \<lparr>rt_seq = rs_sent_seq p, rt_timestamp = rs_sent_timestamp p, rt_payload = rs_sent_payload p\<rparr>)
            (map_of (by_seq s) q)) out_seqs))"

definition on_range_nack :: "RistSender \<Rightarrow> RangeNack \<Rightarrow> duration \<Rightarrow> RistSender \<times> Retransmission list" where
  "on_range_nack s nack now = rist_resolve s (concat (map expand_range (rn_ranges nack))) now"

definition on_generic_nack :: "RistSender \<Rightarrow> GenericNack \<Rightarrow> duration \<Rightarrow> RistSender \<times> Retransmission list" where
  "on_generic_nack s nack now = rist_resolve s (concat (map expand_fci (gn_nacks nack))) now"

section \<open>Receiver\<close>

definition BASE_MAX_GAP :: nat where "BASE_MAX_GAP = 512"
definition RESYNC_CONFIRM_COUNT :: nat where "RESYNC_CONFIRM_COUNT = 3"

text \<open>\<open>clamp\<close>; Rust's panics when the lower bound exceeds the upper.\<close>

definition clamp_to :: "nat \<Rightarrow> nat \<Rightarrow> nat \<Rightarrow> nat" where
  "clamp_to lo hi x = (if x < lo then lo else if x > hi then hi else x)"

definition as_millis :: "duration \<Rightarrow> nat" where "as_millis d = d div 1000000"

definition derive_max_gap :: "duration \<Rightarrow> nat" where
  "derive_max_gap rb =
     (let default_ms = max (as_millis (receiver_buffer appendix_b_defaults)) 1;
          scaled = BASE_MAX_GAP * as_millis rb div default_ms
      in clamp_to BASE_MAX_GAP 65535 scaled)"

record PendingResync =
  resync_base :: u16
  next_needed :: u16
  resync_count :: nat

record RistTick =
  tick_promoted :: "u16 list"
  tick_due :: "PacketRange list"
  tick_given_up :: "u16 list"
  tick_unblocked :: "u16 list"

record MissingState =
  first_missing_at :: duration
  promoted_at :: "duration option"
  requests_sent :: nat
  next_request_due :: "duration option"

record RistReceiver =
  arq_config :: ArqConfig
  next_expected :: "u16 option"
  ahead_set :: "u16 set"
  missing :: "(u16 \<times> MissingState) list"
  highest_received :: "u16 option"
  max_gap :: nat
  pending_resync :: "PendingResync option"
  rist_rtt :: RistRtt

definition RistReceiver_new :: "ArqConfig \<Rightarrow> RistReceiver" where
  "RistReceiver_new c = \<lparr>arq_config = c, next_expected = None, ahead_set = {}, missing = [], highest_received = None,
     max_gap = derive_max_gap (receiver_buffer c), pending_resync = None, rist_rtt = RistRtt_new\<rparr>"

definition missing_count :: "RistReceiver \<Rightarrow> nat" where "missing_count r = length (missing r)"

definition on_rtt_sample :: "RistReceiver \<Rightarrow> duration \<Rightarrow> RistReceiver" where
  "on_rtt_sample r sample = r\<lparr>rist_rtt := RistRtt_update (rist_rtt r) sample\<rparr>"

definition rtt_estimate :: "RistReceiver \<Rightarrow> duration option" where
  "rtt_estimate r = RistRtt_smoothed (rist_rtt r)"

text \<open>\<open>missing.entry(s).or_insert(v)\<close>, in the order of the keys.\<close>

fun or_insert :: "u16 \<Rightarrow> 'v \<Rightarrow> (u16 \<times> 'v) list \<Rightarrow> (u16 \<times> 'v) list" where
  "or_insert s v [] = [(s, v)]"
| "or_insert s v ((k, x) # m) = (if s < k then (s, v) # (k, x) # m else if s = k then (k, x) # m else (k, x) # or_insert s v m)"

definition newly_missing :: "duration \<Rightarrow> MissingState" where
  "newly_missing now = \<lparr>first_missing_at = now, promoted_at = None, requests_sent = 0, next_request_due = None\<rparr>"

text \<open>The loop that records the gap below a new highest number.\<close>

function fill_gap :: "u16 \<Rightarrow> u16 \<Rightarrow> duration \<Rightarrow> (u16 \<times> MissingState) list \<Rightarrow> (u16 \<times> MissingState) list" where
  "fill_gap s stop now m = (if s = stop then m else fill_gap (rist_seq_next s) stop now (or_insert s (newly_missing now) m))"
  by pat_completeness auto

termination fill_gap
proof (relation "measure (\<lambda>(s, stop, _). unat (stop - s))")
  fix s stop :: u16 and now :: duration and m :: "(u16 \<times> MissingState) list"
  assume "s \<noteq> stop"
  then have "stop - s \<noteq> 0" by simp
  then have "unat (stop - s - 1) < unat (stop - s)"
    by (metis One_nat_def diff_less lessI neq0_conv unat_0_iff unat_eq_0 unat_minus_one)
  then show "((rist_seq_next s, stop, now, or_insert s (newly_missing now) m), s, stop, now, m) \<in> measure (\<lambda>(s, stop, _). unat (stop - s))"
    by (simp add: rist_seq_next_def rist_seq_add_def diff_diff_eq)
qed simp

declare fill_gap.simps [simp del]

text \<open>\<open>while received_ahead.remove(&n)\<close>: the numbers that follow without a gap.\<close>

function rist_drain :: "u16 \<Rightarrow> u16 set \<Rightarrow> u16 list \<times> u16 \<times> u16 set" where
  "rist_drain n A = (if n \<in> A then (let (ds, n', A') = rist_drain (rist_seq_next n) (A - {n}) in (n # ds, n', A')) else ([], n, A))"
  by pat_completeness auto

termination rist_drain
proof (relation "measure (\<lambda>(n, A). card A)")
  fix n :: u16 and A :: "u16 set"
  assume "n \<in> A"
  then have "card (A - {n}) < card A" by (intro psubset_card_mono) auto
  then show "((rist_seq_next n, A - {n}), n, A) \<in> measure (\<lambda>(n, A). card A)" by simp
qed simp

declare rist_drain.simps [simp del]

definition feed_resync_candidate :: "RistReceiver \<Rightarrow> u16 \<Rightarrow> RistReceiver \<times> u16 list" where
  "feed_resync_candidate r seq_n =
     (let fresh = \<lparr>resync_base = seq_n, next_needed = rist_seq_next seq_n, resync_count = 1\<rparr>;
          candidate = (case pending_resync r of
            Some p \<Rightarrow> if next_needed p = seq_n
                      then p\<lparr>resync_count := resync_count p + 1, next_needed := rist_seq_next seq_n\<rparr> else fresh
          | None \<Rightarrow> fresh);
          r = r\<lparr>pending_resync := Some candidate\<rparr>
      in if resync_count candidate < RESYNC_CONFIRM_COUNT then (r, [])
         else (r\<lparr>pending_resync := None, missing := [], ahead_set := {}, highest_received := Some seq_n,
                 next_expected := Some (rist_seq_next seq_n)\<rparr>,
               run_from (unat (seq_n - resync_base candidate) + 1) (resync_base candidate)))"

text \<open>The second half of \<open>feed\<close>: the packet has arrived, deliver what is in order.\<close>

definition arrive :: "RistReceiver \<Rightarrow> u16 \<Rightarrow> RistReceiver \<times> u16 list" where
  "arrive r seq_n =
     (let r = r\<lparr>missing := AList.delete seq_n (missing r)\<rparr>;
          ne = (case next_expected r of Some n \<Rightarrow> n | None \<Rightarrow> seq_n)
      in if seq_n = ne
         then let (ds, n, A) = rist_drain (rist_seq_next seq_n) (ahead_set r)
              in (r\<lparr>ahead_set := A, next_expected := Some n\<rparr>, seq_n # ds)
         else if rist_seq_gt seq_n ne then (r\<lparr>ahead_set := insert seq_n (ahead_set r)\<rparr>, [])
         else (r, []))"

definition rist_feed :: "RistReceiver \<Rightarrow> u16 \<Rightarrow> duration \<Rightarrow> RistReceiver \<times> u16 list" where
  "rist_feed r seq_n now =
     (case highest_received r of
        None \<Rightarrow> arrive (r\<lparr>highest_received := Some seq_n, next_expected := Some seq_n\<rparr>) seq_n
      | Some highest \<Rightarrow>
          if rist_seq_gt seq_n highest
          then if nat (rist_seq_diff seq_n highest) > max_gap r then feed_resync_candidate r seq_n
               else arrive (r\<lparr>pending_resync := None, missing := fill_gap (rist_seq_next highest) seq_n now (missing r),
                              highest_received := Some seq_n\<rparr>) seq_n
          else arrive r seq_n)"

section \<open>The receiver's tick\<close>

definition scale_1_1 :: "duration \<Rightarrow> duration" where
  "scale_1_1 d = (let us = min (as_micros d) U64_MAX in from_micros (min (us * 11) U64_MAX div 10))"

definition request_delay :: "duration option \<Rightarrow> ArqConfig \<Rightarrow> bool \<Rightarrow> duration" where
  "request_delay rtt cfg is_first =
     (case rtt of
        Some rtt \<Rightarrow> let clamped = clamp_to (recovery_rtt_min cfg) (recovery_rtt_max cfg) rtt
                    in if is_first then clamped else scale_1_1 clamped
      | None \<Rightarrow> fallback_retransmission_interval cfg)"

fun run_end :: "u16 \<Rightarrow> u16 list \<Rightarrow> u16 \<times> u16 list" where
  "run_end e [] = (e, [])"
| "run_end e (s # ss) = (if s = rist_seq_next e then run_end s ss else (e, s # ss))"

lemma run_end_length: "run_end e ss = (e', rest) \<Longrightarrow> length rest \<le> length ss"
  by (induction e ss rule: run_end.induct) (auto split: if_splits)

function coalesce_ranges :: "u16 list \<Rightarrow> PacketRange list" where
  "coalesce_ranges [] = []"
| "coalesce_ranges (s # ss) = (let (e, rest) = run_end s ss in \<lparr>range_start = s, range_additional = e - s\<rparr> # coalesce_ranges rest)"
  by pat_completeness auto

termination coalesce_ranges
  by (relation "measure length") (auto simp: le_imp_less_Suc dest!: sym[THEN run_end_length])

definition cap_ranges :: "PacketRange list \<Rightarrow> nat \<Rightarrow> PacketRange list" where
  "cap_ranges ranges n = take n ranges"

definition expand_ranges :: "PacketRange list \<Rightarrow> u16 list" where
  "expand_ranges ranges =
     concat (map (\<lambda>r. run_from (min (unat (range_additional r) + 1) MAX_RANGE_EXPANSION) (range_start r)) ranges)"

definition ripe :: "ArqConfig \<Rightarrow> duration \<Rightarrow> MissingState \<Rightarrow> bool" where
  "ripe c now st \<longleftrightarrow> promoted_at st = None \<and> now - first_missing_at st \<ge> reorder_section c"

definition promote :: "ArqConfig \<Rightarrow> duration option \<Rightarrow> duration \<Rightarrow> MissingState \<Rightarrow> MissingState" where
  "promote c rtt now st =
     (if ripe c now st then st\<lparr>promoted_at := Some now, next_request_due := Some (now + request_delay rtt c True)\<rparr> else st)"

definition exhausted :: "ArqConfig \<Rightarrow> duration \<Rightarrow> MissingState \<Rightarrow> bool" where
  "exhausted c now st \<longleftrightarrow>
     (case promoted_at st of None \<Rightarrow> False | Some p \<Rightarrow> now - p \<ge> scale_1_1 (reassembly_budget c)) \<or>
     requests_sent st \<ge> max_retransmission_requests c"

definition request_is_due :: "ArqConfig \<Rightarrow> duration \<Rightarrow> MissingState \<Rightarrow> bool" where
  "request_is_due c now st \<longleftrightarrow>
     promoted_at st \<noteq> None \<and> requests_sent st < max_retransmission_requests c \<and>
     (case next_request_due st of None \<Rightarrow> False | Some d \<Rightarrow> now \<ge> d)"

definition requested :: "ArqConfig \<Rightarrow> duration option \<Rightarrow> duration \<Rightarrow> MissingState \<Rightarrow> MissingState" where
  "requested c rtt now st =
     st\<lparr>requests_sent := requests_sent st + 1, next_request_due := Some (now + request_delay rtt c False)\<rparr>"

text \<open>
  The loop that skips delivery past numbers given up in this tick. It has no bound of its own:
  \<open>None\<close> stands for a call that does not return.
\<close>

partial_function (option) skip_loop :: "u16 set \<Rightarrow> u16 \<Rightarrow> u16 set \<Rightarrow> u16 list \<Rightarrow> (u16 \<times> u16 set \<times> u16 list) option" where
  "skip_loop G ne A unblocked =
     (if ne \<in> G then (case rist_drain (rist_seq_next ne) A of (ds, ne', A') \<Rightarrow> skip_loop G ne' A' (unblocked @ ds))
      else Some (ne, A, unblocked))"

declare skip_loop.simps [code]

definition tick_requests :: "RistReceiver \<Rightarrow> duration \<Rightarrow> (u16 \<times> MissingState) list \<Rightarrow> u16 option \<Rightarrow>
    (u16 \<times> MissingState) list \<times> PacketRange list" where
  "tick_requests r now m ne =
     (let c = arq_config r;
          due_seqs = map fst (filter (\<lambda>(s, st). request_is_due c now st) m);
          reference = (case ne of Some n \<Rightarrow> n | None \<Rightarrow> 0);
          due_seqs = sort_key (\<lambda>s. rist_seq_diff s reference) due_seqs;
          due = cap_ranges (coalesce_ranges due_seqs) MAX_RANGE_ENTRIES;
          m = fold (\<lambda>s. AList.map_entry s (requested c (rtt_estimate r) now)) (expand_ranges due) m
      in (m, due))"

definition rist_tick :: "RistReceiver \<Rightarrow> duration \<Rightarrow> (RistReceiver \<times> RistTick) option" where
  "rist_tick r now =
     (let c = arq_config r;
          promoted = map fst (filter (\<lambda>(s, st). ripe c now st) (missing r));
          m = map (\<lambda>(s, st). (s, promote c (rtt_estimate r) now st)) (missing r);
          given_up = map fst (filter (\<lambda>(s, st). exhausted c now st) m);
          m = filter (\<lambda>(s, st). s \<notin> set given_up) m
      in case (case next_expected r of
                 None \<Rightarrow> Some (None, ahead_set r, [])
               | Some ne \<Rightarrow> map_option (\<lambda>(ne, A, u). (Some ne, A, u)) (skip_loop (set given_up) ne (ahead_set r) [])) of
           None \<Rightarrow> None
         | Some (ne, A, unblocked) \<Rightarrow>
             let (m, due) = tick_requests r now m ne
             in Some (r\<lparr>missing := m, next_expected := ne, ahead_set := A\<rparr>,
                      \<lparr>tick_promoted = promoted, tick_due = due, tick_given_up = given_up, tick_unblocked = unblocked\<rparr>))"

section \<open>The bit-mask format\<close>

fun fci_mask :: "u16 \<Rightarrow> u16 \<Rightarrow> u16 list \<Rightarrow> u16 \<times> u16 list" where
  "fci_mask p blp [] = (blp, [])"
| "fci_mask p blp (s # ss) =
     (let d = rist_seq_diff s p
      in if 1 \<le> d \<and> d \<le> int BLP_BIT_WIDTH then fci_mask p (blp OR push_bit (nat d - 1) 1) ss else (blp, s # ss))"

lemma fci_mask_length: "fci_mask p blp ss = (blp', rest) \<Longrightarrow> length rest \<le> length ss"
  by (induction p blp ss rule: fci_mask.induct) (auto simp: Let_def split: if_splits)

function seqs_to_fci :: "u16 list \<Rightarrow> NackFci list" where
  "seqs_to_fci [] = []"
| "seqs_to_fci (p # ss) = (let (blp, rest) = fci_mask p 0 ss in \<lparr>fci_pid = p, fci_blp = blp\<rparr> # seqs_to_fci rest)"
  by pat_completeness auto

termination seqs_to_fci
  by (relation "measure length") (auto simp: le_imp_less_Suc dest!: sym[THEN fci_mask_length])

definition ranges_to_fci :: "PacketRange list \<Rightarrow> NackFci list" where
  "ranges_to_fci ranges = seqs_to_fci (expand_ranges ranges)"

end
