(* ===== verification/Rist_Reception.thy ===== *)
theory Rist_Reception
  imports Rist_Arq
begin

text \<open>
  The RIST receiver one operation at a time, in terms of positions: the integers that the 16-bit
  numbers stand for in a stream. The state is described by the next expected position, the highest
  position received, the set of positions received and the set of positions given up.
\<close>

section \<open>Positions\<close>

definition rq :: "u16 \<Rightarrow> int \<Rightarrow> u16" where
  "rq base p = base + word_of_int p"

lemma rq_next [simp]: "rist_seq_next (rq base p) = rq base (p + 1)"
  by (simp add: rist_seq_next_def rist_seq_add_def rq_def)

lemma uint_rq_diff: "uint (rq base a - rq base b) = (a - b) mod 65536"
proof -
  have "rq base a - rq base b = word_of_int (a - b)" by (simp add: rq_def)
  then show ?thesis by (simp only: uint_word_of_int) simp
qed

lemma rq_inject:
  assumes "a - b < 65536" "b - a < 65536"
  shows "rq base a = rq base b \<longleftrightarrow> a = b"
proof
  assume "rq base a = rq base b"
  then have "(word_of_int a :: u16) = word_of_int b" by (simp add: rq_def)
  then have "a mod 65536 = b mod 65536" by (simp add: word_of_int_eq_iff take_bit_eq_mod)
  then have "65536 dvd a - b" by (simp only: mod_eq_dvd_iff)
  then have "a - b = 0" using assms by (intro dvd_small_zero[of 65536]) simp_all
  then show "a = b" by simp
qed simp

lemma rist_diff_cases: "rist_seq_diff a b = (let d = uint (a - b) in if d > 32768 then d - 65536 else d)"
proof -
  have m: "uint (a - b) = (uint a - uint b) mod 65536" by (simp add: uint_word_ariths)
  show ?thesis unfolding rist_seq_diff_def seq_diff_in_space[OF rist_in_space rist_in_space] m
    by (simp add: rist_modulus uint_ucast_u16 Let_def)
qed

lemma rq_diff:
  assumes "- 32768 < a - b" "a - b \<le> 32768"
  shows "rist_seq_diff (rq base a) (rq base b) = a - b"
proof (cases "0 \<le> a - b")
  case True
  then have "(a - b) mod 65536 = a - b" using assms by simp
  then show ?thesis using assms by (simp add: rist_diff_cases Let_def uint_rq_diff)
next
  case False
  have "(a - b) mod 65536 = (a - b + 65536) mod 65536" by (simp only: mod_add_self2)
  also have "\<dots> = a - b + 65536" using assms False by (intro mod_pos_pos_trivial) simp_all
  finally show ?thesis using assms False by (simp add: rist_diff_cases Let_def uint_rq_diff)
qed

lemma rist_gt_diff: "rist_seq_gt a b \<longleftrightarrow> 0 < rist_seq_diff a b"
  by (simp add: rist_seq_gt_def rist_seq_diff_def seq_gt_def)

lemma rq_gt: "- 32768 < a - b \<Longrightarrow> a - b \<le> 32768 \<Longrightarrow> rist_seq_gt (rq base a) (rq base b) \<longleftrightarrow> b < a"
  by (simp add: rist_gt_diff rq_diff)

lemma rq_inj_on: "\<forall>p \<in> S. lo \<le> p \<and> p < lo + 65536 \<Longrightarrow> inj_on (rq base) S"
proof (rule inj_onI)
  fix x y assume "\<forall>p \<in> S. lo \<le> p \<and> p < lo + 65536" "x \<in> S" "y \<in> S" "rq base x = rq base y"
  then have "lo \<le> x" "x < lo + 65536" "lo \<le> y" "y < lo + 65536" by blast+
  then have "x - y < 65536" "y - x < 65536" by linarith+
  then show "x = y" using \<open>rq base x = rq base y\<close> by (simp add: rq_inject)
qed

lemma rq_mem: "\<forall>p \<in> S. lo \<le> p \<and> p < lo + 65536 \<Longrightarrow> lo \<le> a \<Longrightarrow> a < lo + 65536 \<Longrightarrow> rq base a \<in> rq base ` S \<longleftrightarrow> a \<in> S"
  by (force simp: rq_inject)

lemma run_from_rq: "run_from n (rq base p) = map (rq base) [p..p + int n - 1]"
proof (induction n arbitrary: p)
  case (Suc n)
  have "[p..p + int (Suc n) - 1] = p # [p + 1..(p + 1) + int n - 1]" by (simp add: upto_rec1 algebra_simps)
  then show ?case using Suc[of "p + 1"] by simp
qed simp

lemma map_image_obtain: "set ws \<subseteq> f ` S \<Longrightarrow> \<exists>hs. ws = map f hs \<and> set hs \<subseteq> S"
proof (induction ws)
  case (Cons w ws)
  then obtain hs where "ws = map f hs" "set hs \<subseteq> S" by auto
  moreover obtain h where "w = f h" "h \<in> S" using Cons.prems by auto
  ultimately show ?case by (intro exI[of _ "h # hs"]) simp
qed simp

section \<open>The map of missing numbers\<close>

lemma no_keys: "dom (map_of m) = {} \<Longrightarrow> m = []"
  by (cases m) auto

definition strict_keys :: "('k::linorder \<times> 'v) list \<Rightarrow> bool" where
  "strict_keys m \<longleftrightarrow> sorted_wrt (<) (map fst m)"

lemma strict_keys_Nil [simp]: "strict_keys []"
  by (simp add: strict_keys_def)

lemma strict_keys_Cons [simp]: "strict_keys ((k, v) # m) \<longleftrightarrow> (\<forall>x \<in> fst ` set m. k < x) \<and> strict_keys m"
  by (simp add: strict_keys_def)

lemma strict_keys_distinct: "strict_keys m \<Longrightarrow> distinct (map fst m)"
  by (simp add: strict_keys_def strict_sorted_iff)

lemma strict_keys_filter: "strict_keys m \<Longrightarrow> strict_keys (filter P m)"
  by (induction m) auto

lemma strict_keys_delete: "strict_keys m \<Longrightarrow> strict_keys (AList.delete s m)"
  by (simp add: AList.delete_eq strict_keys_filter)

lemma strict_keys_map: "strict_keys (map (\<lambda>(s, x). (s, f s x)) m) \<longleftrightarrow> strict_keys m"
  by (simp add: strict_keys_def comp_def case_prod_unfold)

lemma keys_or_insert: "fst ` set (or_insert s v m) = insert s (fst ` set m)"
  by (induction s v m rule: or_insert.induct) auto

lemma strict_keys_or_insert: "strict_keys m \<Longrightarrow> strict_keys (or_insert s v m)"
  by (induction s v m rule: or_insert.induct) (auto simp: keys_or_insert)

lemma map_of_or_insert:
  "strict_keys m \<Longrightarrow> map_of (or_insert s v m) = (case map_of m s of None \<Rightarrow> (map_of m)(s \<mapsto> v) | Some _ \<Rightarrow> map_of m)"
proof (induction s v m rule: or_insert.induct)
  case (2 s v k x m)
  show ?case
  proof (cases "s < k")
    case True
    then have "s \<notin> fst ` set m" using 2(2) by force
    then have "map_of m s = None" by (simp add: map_of_eq_None_iff)
    then show ?thesis using True by auto
  next
    case False
    then show ?thesis using 2 by (auto split: option.splits)
  qed
qed simp

lemma fill_gap_rq:
  assumes "a \<le> b" "b < a + 65536" "strict_keys m"
  shows "strict_keys (fill_gap (rq base a) (rq base b) now m) \<and>
    map_of (fill_gap (rq base a) (rq base b) now m) =
      (\<lambda>s. case map_of m s of Some x \<Rightarrow> Some x | None \<Rightarrow> if s \<in> rq base ` {a..<b} then Some (newly_missing now) else None)"
  using assms
proof (induction "nat (b - a)" arbitrary: a m)
  case 0
  then have "a = b" by simp
  then show ?case using 0 by (subst (1 2) fill_gap.simps) (auto split: option.splits)
next
  case (Suc n)
  then have ab: "a < b" by simp
  have ne: "rq base a \<noteq> rq base b" using ab Suc.prems by (simp add: rq_inject)
  have eq: "fill_gap (rq base a) (rq base b) now m =
      fill_gap (rq base (a + 1)) (rq base b) now (or_insert (rq base a) (newly_missing now) m)"
    using ne by (subst fill_gap.simps) simp
  have set: "{a..<b} = insert a {a + 1..<b}" using ab by auto
  have IH: "strict_keys (fill_gap (rq base a) (rq base b) now m) \<and>
    map_of (fill_gap (rq base a) (rq base b) now m) =
      (\<lambda>s. case map_of (or_insert (rq base a) (newly_missing now) m) s of Some x \<Rightarrow> Some x
          | None \<Rightarrow> if s \<in> rq base ` {a + 1..<b} then Some (newly_missing now) else None)"
    unfolding eq using Suc.hyps(2) Suc.prems ab by (intro Suc.hyps(1)) (simp_all add: strict_keys_or_insert)
  show ?case
    using IH Suc.prems(3) unfolding set by (auto simp: map_of_or_insert fun_eq_iff split: option.splits)
qed

section \<open>Delivery of what follows without a gap\<close>

lemma drain_rq:
  assumes "\<forall>p \<in> A. p \<le> hi" "hi < n + 65535"
  shows "\<exists>m. n \<le> m \<and> {n..<m} \<subseteq> A \<and> m \<notin> A \<and>
    rist_drain (rq base n) (rq base ` {p \<in> A. n \<le> p}) = (map (rq base) [n..m - 1], rq base m, rq base ` {p \<in> A. m < p})"
  using assms
proof (induction "nat (hi + 1 - n)" arbitrary: n)
  case 0
  then have "n \<notin> A" and e: "{p \<in> A. n \<le> p} = {}" "{p \<in> A. n < p} = {}" by fastforce+
  then show ?case unfolding e by (intro exI[of _ n]) (simp add: e rist_drain.simps[of _ "{}"] del: Collect_empty_eq)
next
  case (Suc k)
  show ?case
  proof (cases "n \<in> A")
    case False
    have mem: "rq base n \<notin> rq base ` {p \<in> A. n \<le> p}"
      using False Suc.prems rq_mem[of "{p \<in> A. n \<le> p}" n n base] by fastforce
    have "{p \<in> A. n < p} = {p \<in> A. n \<le> p}" using False by (auto simp: less_le)
    then show ?thesis using False mem by (intro exI[of _ n]) (simp add: rist_drain.simps[of "rq base n"])
  next
    case True
    have win: "\<forall>p \<in> {p \<in> A. n \<le> p}. n \<le> p \<and> p < n + 65536" using Suc.prems by fastforce
    have "rq base ` {p \<in> A. n \<le> p} - {rq base n} = rq base ` ({p \<in> A. n \<le> p} - {n})"
      using inj_on_image_set_diff[OF rq_inj_on[OF win], of "{p \<in> A. n \<le> p}" "{n}"] True by simp
    also have "{p \<in> A. n \<le> p} - {n} = {p \<in> A. n + 1 \<le> p}" by auto
    finally have rest: "rq base ` {p \<in> A. n \<le> p} - {rq base n} = rq base ` {p \<in> A. n + 1 \<le> p}" .
    have "\<exists>m. n + 1 \<le> m \<and> {n + 1..<m} \<subseteq> A \<and> m \<notin> A \<and>
      rist_drain (rq base (n + 1)) (rq base ` {p \<in> A. n + 1 \<le> p}) = (map (rq base) [n + 1..m - 1], rq base m, rq base ` {p \<in> A. m < p})"
      using Suc.hyps(2) Suc.prems by (intro Suc.hyps(1)) auto
    then obtain m where m: "n + 1 \<le> m" "{n + 1..<m} \<subseteq> A" "m \<notin> A"
      "rist_drain (rq base (n + 1)) (rq base ` {p \<in> A. n + 1 \<le> p}) = (map (rq base) [n + 1..m - 1], rq base m, rq base ` {p \<in> A. m < p})"
      by blast
    have "{n..<m} = insert n {n + 1..<m}" using m(1) by auto
    moreover have "[n..m - 1] = n # [n + 1..m - 1]" using m(1) by (simp add: upto_rec1)
    ultimately show ?thesis using m True rest
      by (intro exI[of _ m]) (simp add: rist_drain.simps[of "rq base n"])
  qed
qed

section \<open>The state of a receiver\<close>

text \<open>
  \<open>ne\<close> is the next position to deliver, \<open>hi\<close> the highest received, \<open>A\<close> holds the positions taken
  into the buffer and \<open>G\<close> those given up.
\<close>

definition receiving :: "u16 \<Rightarrow> int \<Rightarrow> int \<Rightarrow> int set \<Rightarrow> int set \<Rightarrow> RistReceiver \<Rightarrow> bool" where
  "receiving base ne hi A G r \<longleftrightarrow>
     next_expected r = Some (rq base ne) \<and> highest_received r = Some (rq base hi) \<and>
     ne \<le> hi + 1 \<and> hi < ne + 32768 \<and> ne \<notin> A \<and> (\<forall>p \<in> A. p \<le> hi) \<and>
     ahead_set r = rq base ` {p \<in> A. ne < p} \<and>
     strict_keys (missing r) \<and> dom (map_of (missing r)) = rq base ` ({ne..hi} - A - G)"

lemma from_next: "{ne..<n} \<subseteq> X \<Longrightarrow> ne \<le> n \<Longrightarrow> {ne..hi} - X - G = {n..hi} - X - (G :: int set)"
  by (force simp: subset_iff)

lemma rq_image_minus:
  assumes "hi < ne + 32768" "ne - 32768 < p" "p \<le> ne + 32767"
  shows "rq base ` ({ne..hi} - X) - {rq base p} = rq base ` ({ne..hi} - insert p X)"
proof -
  have "inj_on (rq base) ({ne..hi} \<union> {p})" using assms by (intro rq_inj_on[of _ "ne - 32768"]) auto
  then have "rq base ` (({ne..hi} - X) - {p}) = rq base ` ({ne..hi} - X) - rq base ` {p}"
    by (rule inj_on_image_set_diff) auto
  moreover have "({ne..hi} - X) - {p} = {ne..hi} - insert p X" by auto
  ultimately show ?thesis by simp
qed

lemma arrive_receiving:
  assumes nx: "next_expected r = Some (rq base ne)" and high: "highest_received r = Some (rq base hi)"
    and le: "ne \<le> hi + 1" "hi < ne + 32768" "p \<le> hi" "ne - 32768 < p"
    and A: "ne \<notin> A" "\<forall>p \<in> A. p \<le> hi" "ahead_set r = rq base ` {p \<in> A. ne < p}"
    and m: "strict_keys (missing r)" "dom (map_of (missing r)) - {rq base p} = rq base ` ({ne..hi} - insert p A - G)"
  shows "\<exists>n r'. arrive r (rq base p) = (r', map (rq base) [ne..n - 1]) \<and> ne \<le> n \<and> {ne..<n} \<subseteq> insert p A \<and>
    receiving base n hi (insert p A) G r' \<and> missing r' = AList.delete (rq base p) (missing r)"
proof -
  let ?m = "AList.delete (rq base p) (missing r)"
  have keys: "strict_keys ?m" "dom (map_of ?m) = rq base ` ({ne..hi} - insert p A - G)"
    using m by (simp_all add: strict_keys_delete AList.delete_conv')
  consider "p = ne" | "ne < p" | "p < ne" by linarith
  then show ?thesis
  proof cases
    case 1
    have ge: "{q \<in> A. ne < q} = {q \<in> A. ne + 1 \<le> q}" by auto
    obtain n where n: "ne + 1 \<le> n" "{ne + 1..<n} \<subseteq> A" "n \<notin> A"
      "rist_drain (rq base (ne + 1)) (ahead_set r) = (map (rq base) [ne + 1..n - 1], rq base n, rq base ` {p \<in> A. n < p})"
      using drain_rq[OF A(2), of "ne + 1" base] le unfolding A(3) ge by auto
    have n_hi: "n \<le> hi + 1"
    proof (cases "n = ne + 1")
      case False
      then have "n - 1 \<in> A" using n by (intro subsetD[OF n(2)]) auto
      then show ?thesis using A(2) by fastforce
    qed (use 1 le in simp)
    have sub: "{ne..<n} \<subseteq> insert p A"
    proof
      fix x assume "x \<in> {ne..<n}"
      then have "x = p \<or> x \<in> {ne + 1..<n}" using 1 by auto
      then show "x \<in> insert p A" using n(2) by blast
    qed
    then have "{ne..hi} - insert p A - G = {n..hi} - insert p A - G" using n by (intro from_next) simp_all
    moreover have "{q \<in> A. n < q} = {q \<in> insert p A. n < q}" using 1 n by auto
    moreover have "[ne..n - 1] = ne # [ne + 1..n - 1]" using n by (simp add: upto_rec1)
    ultimately show ?thesis using sub 1 n n_hi le A nx high keys
      by (intro exI[of _ n]) (simp add: arrive_def Let_def receiving_def)
  next
    case 2
    have "rq base p \<noteq> rq base ne" "rist_seq_gt (rq base p) (rq base ne)"
      using 2 le by (simp_all add: rq_inject rq_gt)
    moreover have "insert (rq base p) (rq base ` {q \<in> A. ne < q}) = rq base ` {q \<in> insert p A. ne < q}" using 2 by auto
    ultimately show ?thesis using 2 le A nx high keys
      by (intro exI[of _ ne]) (simp add: arrive_def Let_def receiving_def)
  next
    case 3
    have "rq base p \<noteq> rq base ne" "\<not> rist_seq_gt (rq base p) (rq base ne)"
      using 3 le by (simp_all add: rq_inject rq_gt)
    moreover have "{q \<in> A. ne < q} = {q \<in> insert p A. ne < q}" using 3 by auto
    ultimately show ?thesis using 3 le A nx high keys
      by (intro exI[of _ ne]) (simp add: arrive_def Let_def receiving_def)
  qed
qed

text \<open>An arrival inside the window: the new state, and the positions it delivers.\<close>

lemma feed_receiving:
  assumes r: "receiving base ne hi A G r"
    and p: "hi - 32767 < p" "p < ne + 32768" "p \<le> hi + int (max_gap r)" and G: "\<forall>g \<in> G. g \<le> hi"
  shows "\<exists>n r'. rist_feed r (rq base p) now = (r', map (rq base) [ne..n - 1]) \<and> ne \<le> n \<and> {ne..<n} \<subseteq> insert p A \<and>
    receiving base n (max hi p) (insert p A) G r' \<and>
    missing r' = AList.delete (rq base p)
      (if hi < p then fill_gap (rq base (hi + 1)) (rq base p) now (missing r) else missing r)"
proof -
  note R = r[unfolded receiving_def]
  have dk: "dom (map_of (missing r)) = rq base ` ({ne..hi} - A - G)" using R by simp
  have minus: "X - {p} - G = X - insert p G" for X :: "int set" by auto
  show ?thesis
  proof (cases "hi < p")
    case False
    then have gt: "\<not> rist_seq_gt (rq base p) (rq base hi)" using p by (simp add: rq_gt)
    have "rist_feed r (rq base p) now = arrive r (rq base p)" using R gt by (simp add: rist_feed_def)
    moreover have "dom (map_of (missing r)) - {rq base p} = rq base ` ({ne..hi} - insert p A - G)"
    proof -
      have "{ne..hi} - A - G = {ne..hi} - (A \<union> G)" "{ne..hi} - insert p A - G = {ne..hi} - insert p (A \<union> G)" by auto
      then show ?thesis unfolding dk using R p by (simp add: rq_image_minus)
    qed
    ultimately show ?thesis using arrive_receiving[of r base ne hi p A G] R p False by (simp add: max_def)
  next
    case True
    have d: "rist_seq_diff (rq base p) (rq base hi) = p - hi" using True p R by (intro rq_diff) auto
    then have gt: "rist_seq_gt (rq base p) (rq base hi)" using True by (simp add: rist_gt_diff)
    let ?m = "fill_gap (rq base (hi + 1)) (rq base p) now (missing r)"
    let ?r = "r\<lparr>pending_resync := None, missing := ?m, highest_received := Some (rq base p)\<rparr>"
    have feed: "rist_feed r (rq base p) now = arrive ?r (rq base p)"
    proof -
      have "\<not> nat (p - hi) > max_gap r" using p by simp
      then show ?thesis using R gt d by (simp add: rist_feed_def)
    qed
    have F: "strict_keys ?m" "map_of ?m = (\<lambda>s. case map_of (missing r) s of Some x \<Rightarrow> Some x
        | None \<Rightarrow> if s \<in> rq base ` {hi + 1..<p} then Some (newly_missing now) else None)"
      using fill_gap_rq[of "hi + 1" p "missing r" base now] True p R by simp_all
    have "dom (map_of ?m) = dom (map_of (missing r)) \<union> rq base ` {hi + 1..<p}"
      unfolding F(2) by (auto split: option.splits)
    also have "\<dots> = rq base ` ({ne..p} - insert p (A \<union> G))"
    proof -
      have "({ne..hi} - A - G) \<union> {hi + 1..<p} = {ne..p} - insert p (A \<union> G)" using R True G by fastforce
      then show ?thesis unfolding dk by (simp only: image_Un[symmetric])
    qed
    finally have "dom (map_of ?m) - {rq base p} = rq base ` ({ne..p} - insert p (A \<union> G)) - {rq base p}" by simp
    also have "\<dots> = rq base ` ({ne..p} - insert p A - G)"
    proof -
      have "{ne..p} - insert p A - G = {ne..p} - insert p (insert p (A \<union> G))" by auto
      then show ?thesis using R p True by (simp add: rq_image_minus)
    qed
    finally have "dom (map_of ?m) - {rq base p} = rq base ` ({ne..p} - insert p A - G)" .
    moreover have "\<forall>q \<in> A. q \<le> p" using R True by fastforce
    ultimately show ?thesis unfolding feed using arrive_receiving[of ?r base ne p p A G] R p True F(1) by (simp add: max_def)
  qed
qed

section \<open>A tick\<close>

lemma skip_loop_rq:
  assumes "\<forall>p \<in> A. p \<le> hi" "H \<subseteq> {lo..hi} - A" "hi < lo + 32768" "lo \<le> ne" "ne \<le> hi + 1" "ne \<notin> A"
  shows "\<exists>n. ne \<le> n \<and> n \<le> hi + 1 \<and> {ne..<n} \<subseteq> A \<union> H \<and> n \<notin> A \<and> n \<notin> H \<and>
    skip_loop (rq base ` H) (rq base ne) (rq base ` {p \<in> A. ne < p}) u =
      Some (rq base n, rq base ` {p \<in> A. n < p}, u @ map (rq base) (filter (\<lambda>p. p \<in> A) [ne..n - 1]))"
  using assms
proof (induction "nat (hi + 1 - ne)" arbitrary: ne u rule: less_induct)
  case less
  have win: "\<forall>p \<in> H. lo \<le> p \<and> p < lo + 65536" using less.prems by fastforce
  show ?case
  proof (cases "ne \<in> H")
    case False
    then have "rq base ne \<notin> rq base ` H" using rq_mem[OF win, of ne base] less.prems by simp
    then show ?thesis using False less.prems by (intro exI[of _ ne]) (simp add: skip_loop.simps)
  next
    case True
    then have le: "ne \<le> hi" using less.prems by auto
    have ge: "{q \<in> A. ne < q} = {q \<in> A. ne + 1 \<le> q}" by auto
    obtain m where m: "ne + 1 \<le> m" "{ne + 1..<m} \<subseteq> A" "m \<notin> A"
      "rist_drain (rq base (ne + 1)) (rq base ` {p \<in> A. ne < p}) = (map (rq base) [ne + 1..m - 1], rq base m, rq base ` {p \<in> A. m < p})"
      using drain_rq[OF less.prems(1), of "ne + 1" base] less.prems unfolding ge by auto
    have m_hi: "m \<le> hi + 1"
    proof (cases "m = ne + 1")
      case False
      then have "m - 1 \<in> A" using m by (intro subsetD[OF m(2)]) auto
      then show ?thesis using less.prems by fastforce
    qed (use le in simp)
    obtain n where n: "m \<le> n" "n \<le> hi + 1" "{m..<n} \<subseteq> A \<union> H" "n \<notin> A" "n \<notin> H"
      "skip_loop (rq base ` H) (rq base m) (rq base ` {p \<in> A. m < p}) (u @ map (rq base) [ne + 1..m - 1]) =
        Some (rq base n, rq base ` {p \<in> A. n < p}, (u @ map (rq base) [ne + 1..m - 1]) @ map (rq base) (filter (\<lambda>p. p \<in> A) [m..n - 1]))"
      using less.hyps[of m "u @ map (rq base) [ne + 1..m - 1]"] less.prems m m_hi by auto
    have "[ne..n - 1] = ne # [ne + 1..m - 1] @ [m..n - 1]"
      using m(1) n(1) upto_split1[of "ne + 1" m "n - 1"] by (cases "m \<le> n - 1") (simp_all add: upto_rec1)
    moreover have "filter (\<lambda>p. p \<in> A) [ne + 1..m - 1] = [ne + 1..m - 1]"
      using m(2) by (intro filter_True) auto
    moreover have "ne \<notin> A" using less.prems by simp
    ultimately have "filter (\<lambda>p. p \<in> A) [ne..n - 1] = [ne + 1..m - 1] @ filter (\<lambda>p. p \<in> A) [m..n - 1]" by simp
    moreover have "{ne..<n} \<subseteq> A \<union> H"
    proof
      fix x assume "x \<in> {ne..<n}"
      then have "x = ne \<or> x \<in> {ne + 1..<m} \<or> x \<in> {m..<n}" by auto
      then show "x \<in> A \<union> H" using True m(2) n(3) by blast
    qed
    ultimately show ?thesis using True m n
      by (intro exI[of _ n]) (simp add: skip_loop.simps[of _ "rq base ne"])
  qed
qed

lemma keys_map_entry: "map fst (AList.map_entry s f m) = map fst m"
  by (induction m) auto

lemma keys_fold_map_entry: "map fst (fold (\<lambda>s. AList.map_entry s f) ss m) = map fst m"
  by (induction ss arbitrary: m) (simp_all add: keys_map_entry)

lemma keys_tick_requests: "map fst (fst (tick_requests r now m ne)) = map fst m"
  by (simp add: tick_requests_def Let_def keys_fold_map_entry)

lemma strict_keys_cong: "map fst m = map fst m' \<Longrightarrow> strict_keys m = strict_keys m'"
  by (simp add: strict_keys_def)

lemma dom_map_of_cong: "map fst m = map fst m' \<Longrightarrow> dom (map_of m) = dom (map_of m')"
  by (simp add: dom_map_of_conv_image_fst set_map[symmetric] del: set_map)

definition promoted_map :: "RistReceiver \<Rightarrow> duration \<Rightarrow> (u16 \<times> MissingState) list" where
  "promoted_map r now = map (\<lambda>(s, st). (s, promote (arq_config r) (rtt_estimate r) now st)) (missing r)"

definition given_up_now :: "RistReceiver \<Rightarrow> duration \<Rightarrow> u16 list" where
  "given_up_now r now = map fst (filter (\<lambda>(s, st). exhausted (arq_config r) now st) (promoted_map r now))"

definition kept_map :: "RistReceiver \<Rightarrow> duration \<Rightarrow> (u16 \<times> MissingState) list" where
  "kept_map r now = filter (\<lambda>(s, st). s \<notin> set (given_up_now r now)) (promoted_map r now)"

lemma keys_promoted_map: "map fst (promoted_map r now) = map fst (missing r)"
  by (simp add: promoted_map_def comp_def case_prod_unfold)

lemma dom_filter_keys: "dom (map_of (filter (\<lambda>(s, x). s \<notin> S) m)) = dom (map_of m) - S"
  by (auto simp: dom_map_of_conv_image_fst image_iff)

lemma rist_tick_Some:
  assumes "next_expected r = Some ne" "skip_loop (set (given_up_now r now)) ne (ahead_set r) [] = Some (ne', A, u)"
  shows "rist_tick r now =
    Some (r\<lparr>missing := fst (tick_requests r now (kept_map r now) (Some ne')), next_expected := Some ne', ahead_set := A\<rparr>,
      \<lparr>tick_promoted = map fst (filter (\<lambda>(s, st). ripe (arq_config r) now st) (missing r)),
        tick_due = snd (tick_requests r now (kept_map r now) (Some ne')),
        tick_given_up = given_up_now r now, tick_unblocked = u\<rparr>)"
  using assms unfolding rist_tick_def Let_def promoted_map_def[symmetric] given_up_now_def[symmetric] kept_map_def[symmetric]
  by (simp add: case_prod_unfold)

lemma tick_receiving:
  assumes r: "receiving base ne hi A G r"
  shows "\<exists>n hs r' t. rist_tick r now = Some (r', t) \<and> given_up_now r now = map (rq base) hs \<and>
    tick_given_up t = map (rq base) hs \<and>
    distinct hs \<and> set hs \<subseteq> {ne..hi} - A - G \<and> ne \<le> n \<and> {ne..<n} \<subseteq> A \<union> set hs \<and> n \<notin> set hs \<and>
    tick_unblocked t = map (rq base) (filter (\<lambda>p. p \<in> A) [ne..n - 1]) \<and>
    receiving base n hi A (G \<union> set hs) r' \<and> (missing r', tick_due t) = tick_requests r now (kept_map r now) (Some (rq base n))"
proof -
  note R = r[unfolded receiving_def]
  have "set (given_up_now r now) \<subseteq> set (map fst (promoted_map r now))" by (auto simp: given_up_now_def)
  also have "\<dots> = dom (map_of (missing r))"
    unfolding keys_promoted_map by (simp add: dom_map_of_conv_image_fst)
  finally have "set (given_up_now r now) \<subseteq> rq base ` ({ne..hi} - A - G)" using R by simp
  from map_image_obtain[OF this] obtain hs where hs: "given_up_now r now = map (rq base) hs" "set hs \<subseteq> {ne..hi} - A - G" by blast
  have sk: "strict_keys (promoted_map r now)" using R strict_keys_cong[OF keys_promoted_map, of r now] by simp
  have "distinct (given_up_now r now)" unfolding given_up_now_def
    by (rule strict_keys_distinct[OF strict_keys_filter[OF sk]])
  then have distinct: "distinct hs" unfolding hs(1) by (simp add: distinct_map)
  have "set hs \<subseteq> {ne..hi} - A" using hs(2) by blast
  from skip_loop_rq[of A hi "set hs" ne ne base "[]", OF _ this] R
  obtain n where n: "ne \<le> n" "n \<le> hi + 1" "{ne..<n} \<subseteq> A \<union> set hs" "n \<notin> A" "n \<notin> set hs"
    "skip_loop (set (given_up_now r now)) (rq base ne) (ahead_set r) [] =
      Some (rq base n, rq base ` {p \<in> A. n < p}, map (rq base) (filter (\<lambda>p. p \<in> A) [ne..n - 1]))"
    unfolding hs(1) by auto
  note eq = rist_tick_Some[OF conjunct1[OF R] n(6)]
  let ?m = "fst (tick_requests r now (kept_map r now) (Some (rq base n)))"
  have "dom (map_of ?m) = dom (map_of (kept_map r now))" by (rule dom_map_of_cong[OF keys_tick_requests])
  also have "\<dots> = dom (map_of (missing r)) - set (given_up_now r now)"
    unfolding kept_map_def dom_filter_keys dom_map_of_cong[OF keys_promoted_map] ..
  also have "\<dots> = rq base ` ({ne..hi} - A - G) - rq base ` set hs" using R hs(1) by simp
  also have "\<dots> = rq base ` ({ne..hi} - A - G - set hs)"
  proof -
    have "inj_on (rq base) {ne..hi}" using R by (intro rq_inj_on[of _ ne]) auto
    then show ?thesis using hs(2) by (intro inj_on_image_set_diff[symmetric]) (auto intro: inj_on_subset)
  qed
  also have "{ne..hi} - A - G - set hs = {ne..hi} - (A \<union> set hs) - G" by blast
  also have "\<dots> = {n..hi} - (A \<union> set hs) - G" by (rule from_next[OF n(3,1)])
  also have "\<dots> = {n..hi} - A - (G \<union> set hs)" by blast
  finally have "dom (map_of ?m) = rq base ` ({n..hi} - A - (G \<union> set hs))" .
  moreover have "strict_keys ?m" using strict_keys_filter[OF sk]
    unfolding strict_keys_cong[OF keys_tick_requests] kept_map_def .
  ultimately show ?thesis using eq n hs distinct R
    by (intro exI[of _ n] exI[of _ hs]) (simp add: receiving_def)
qed

section \<open>The requests of a tick\<close>

lemma run_end_rq:
  assumes "sorted_wrt (<) (e # ps)" "\<forall>p \<in> set ps. p < lo + 65536" "lo \<le> e"
  shows "\<exists>e' qs. run_end (rq base e) (map (rq base) ps) = (rq base e', map (rq base) qs) \<and> e \<le> e' \<and> ps = [e + 1..e'] @ qs"
  using assms
proof (induction ps arbitrary: e)
  case Nil
  show ?case by (intro exI[of _ e] exI[of _ "[]"]) simp
next
  case (Cons p ps)
  have eq: "rq base p = rq base (e + 1) \<longleftrightarrow> p = e + 1" using Cons.prems by (intro rq_inject) auto
  show ?case
  proof (cases "p = e + 1")
    case False
    then show ?thesis using eq by (intro exI[of _ e] exI[of _ "p # ps"]) simp
  next
    case True
    obtain e' qs where "run_end (rq base p) (map (rq base) ps) = (rq base e', map (rq base) qs)" "p \<le> e'" "ps = [p + 1..e'] @ qs"
      using Cons.IH[of p] Cons.prems True by auto
    moreover from this have "[e + 1..e'] = p # [p + 1..e']" using True by (simp add: upto_rec1)
    ultimately show ?thesis using True by (intro exI[of _ e'] exI[of _ qs]) simp
  qed
qed

lemma expand_ranges_simps [simp]:
  "expand_ranges [] = []"
  "expand_ranges (x # xs) = run_from (min (unat (range_additional x) + 1) MAX_RANGE_EXPANSION) (range_start x) @ expand_ranges xs"
  by (simp_all add: expand_ranges_def)

lemma expand_run:
  assumes "s \<le> e" "e < s + 65536"
  shows "run_from (min (unat (rq base e - rq base s) + 1) MAX_RANGE_EXPANSION) (rq base s) = map (rq base) [s..e]"
proof -
  have "uint (rq base e - rq base s) = e - s" using assms by (simp add: uint_rq_diff)
  then have "unat (rq base e - rq base s) = nat (e - s)" by (simp only: unat_eq_nat_uint)
  moreover have "min (nat (e - s) + 1) MAX_RANGE_EXPANSION = nat (e - s) + 1" using assms by (simp add: MAX_RANGE_EXPANSION_def)
  ultimately show ?thesis using assms by (simp add: run_from_rq)
qed

lemma expand_coalesce:
  assumes "sorted_wrt (<) ps" "\<forall>p \<in> set ps. lo \<le> p \<and> p < lo + 65536"
  shows "\<exists>n. expand_ranges (take k (coalesce_ranges (map (rq base) ps))) = map (rq base) (take n ps) \<and>
    (length (coalesce_ranges (map (rq base) ps)) \<le> k \<longrightarrow> n = length ps)"
  using assms
proof (induction "length ps" arbitrary: ps k rule: less_induct)
  case less
  show ?case
  proof (cases ps)
    case (Cons p ps')
    obtain e qs where e: "run_end (rq base p) (map (rq base) ps') = (rq base e, map (rq base) qs)" "p \<le> e" "ps' = [p + 1..e] @ qs"
      using run_end_rq[of p ps' lo base] less.prems unfolding Cons by auto
    have split: "ps = [p..e] @ qs" unfolding Cons e(3) using e(2) by (simp add: upto_rec1)
    have co: "coalesce_ranges (map (rq base) ps) =
        \<lparr>range_start = rq base p, range_additional = rq base e - rq base p\<rparr> # coalesce_ranges (map (rq base) qs)"
      unfolding Cons using e(1) by simp
    have "e \<in> set ps" unfolding split using e(2) by simp
    then have run: "run_from (min (unat (rq base e - rq base p) + 1) MAX_RANGE_EXPANSION) (rq base p) = map (rq base) [p..e]"
      using e(2) less.prems(2) Cons by (intro expand_run) fastforce+
    show ?thesis
    proof (cases k)
      case 0
      then show ?thesis unfolding co by (intro exI[of _ 0]) simp
    next
      case (Suc k')
      have "length qs < length ps" "sorted_wrt (<) qs" "\<forall>q \<in> set qs. lo \<le> q \<and> q < lo + 65536"
        using less.prems Cons e(3) by (auto simp: sorted_wrt_append)
      from less.hyps[OF this, of k'] obtain n where
        "expand_ranges (take k' (coalesce_ranges (map (rq base) qs))) = map (rq base) (take n qs)"
        "length (coalesce_ranges (map (rq base) qs)) \<le> k' \<longrightarrow> n = length qs" by blast
      then show ?thesis unfolding co unfolding split using Suc run
        by (intro exI[of _ "length [p..e] + n"]) simp
    qed
  qed (simp add: exI[of _ 0])
qed

text \<open>Sorting by the distance from the front recovers the order of the positions.\<close>

lemma sort_by_front:
  assumes "distinct L" "set L \<subseteq> rq base ` S" "\<forall>p \<in> S. n \<le> p \<and> p < n + 32768"
  shows "\<exists>ps. sort_key (\<lambda>s. rist_seq_diff s (rq base n)) L = map (rq base) ps \<and> sorted_wrt (<) ps \<and> set ps \<subseteq> S"
proof -
  let ?d = "\<lambda>s. rist_seq_diff s (rq base n)"
  have "set (sort_key ?d L) \<subseteq> rq base ` S" using assms by simp
  from map_image_obtain[OF this] obtain ps where ps: "sort_key ?d L = map (rq base) ps" "set ps \<subseteq> S" by blast
  have s: "sorted (map ?d (map (rq base) ps))" unfolding ps(1)[symmetric] by (rule sorted_sort_key)
  have "?d (rq base p) = p - n" if "p \<in> set ps" for p
  proof -
    have "n \<le> p" "p < n + 32768" using that ps(2) assms(3) by blast+
    then show ?thesis by (intro rq_diff) simp_all
  qed
  then have e: "map ?d (map (rq base) ps) = map (\<lambda>p. p - n) ps" by simp
  have "sorted (map (\<lambda>p. p - n) ps)" using s unfolding e .
  then have "sorted ps" by (simp add: sorted_map)
  moreover have "distinct (sort_key ?d L)" using assms(1) by simp
  then have "distinct ps" unfolding ps(1) by (simp add: distinct_map)
  ultimately show ?thesis using ps by (intro exI[of _ ps]) (simp add: strict_sorted_iff)
qed

lemma map_of_map_entry_apply: "map_of (AList.map_entry s f m) k = (if k = s then map_option f (map_of m k) else map_of m k)"
  by (induction m) auto

lemma map_of_fold_map_entry:
  "distinct ss \<Longrightarrow> map_of (fold (\<lambda>s. AList.map_entry s f) ss m) k = (if k \<in> set ss then map_option f (map_of m k) else map_of m k)"
proof (induction ss arbitrary: m)
  case (Cons s ss)
  then show ?case by (auto simp: map_of_map_entry_apply)
qed simp

lemma map_of_filter_strict:
  "strict_keys m \<Longrightarrow> s \<in> fst ` set (filter (\<lambda>(s, x). P x) m) \<longleftrightarrow> (\<exists>x. map_of m s = Some x \<and> P x)"
proof (induction m)
  case (Cons a m)
  obtain k v where a: "a = (k, v)" by (cases a)
  have "k \<notin> fst ` set m" using Cons.prems a by fastforce
  then have "s = k \<Longrightarrow> s \<notin> fst ` set (filter (\<lambda>(s, x). P x) m)" "s = k \<Longrightarrow> map_of m s = None"
    by (force simp: map_of_eq_None_iff)+
  then show ?case using Cons a by auto
qed simp

text \<open>
  The requests of a tick: \<open>ps\<close> are the positions it asks for, a prefix of the positions that are due,
  in increasing order; only their entries change.
\<close>

lemma tick_requests_rq:
  assumes m: "strict_keys m" "dom (map_of m) \<subseteq> rq base ` {n..hi}" "hi < n + 32768"
    and eq: "tick_requests r now m (Some (rq base n)) = (m', due)"
  shows "\<exists>ps qs. sorted_wrt (<) (ps @ qs) \<and> expand_ranges due = map (rq base) ps \<and> length due \<le> MAX_RANGE_ENTRIES \<and>
    set (ps @ qs) = {p \<in> {n..hi}. \<exists>st. map_of m (rq base p) = Some st \<and> request_is_due (arq_config r) now st} \<and>
    (\<forall>p \<in> {n..hi}. map_of m' (rq base p) =
       (if p \<in> set ps then map_option (requested (arq_config r) (rtt_estimate r) now) (map_of m (rq base p)) else map_of m (rq base p)))"
proof -
  let ?c = "arq_config r" and ?L = "map fst (filter (\<lambda>(s, st). request_is_due (arq_config r) now st) m)"
  have L: "set ?L = {s. \<exists>st. map_of m s = Some st \<and> request_is_due ?c now st}"
    unfolding set_eq_iff mem_Collect_eq set_map using map_of_filter_strict[OF m(1), of _ "request_is_due ?c now"] by blast
  then have "set ?L \<subseteq> rq base ` {n..hi}" using m(2) by auto
  moreover have "distinct ?L" by (rule strict_keys_distinct[OF strict_keys_filter[OF m(1)]])
  moreover have "\<forall>p \<in> {n..hi}. n \<le> p \<and> p < n + 32768" using m(3) by simp
  ultimately obtain all where all: "sort_key (\<lambda>s. rist_seq_diff s (rq base n)) ?L = map (rq base) all" "sorted_wrt (<) all" "set all \<subseteq> {n..hi}"
    using sort_by_front[of ?L base "{n..hi}" n] by blast
  have inj: "inj_on (rq base) {n..hi}" using m(3) by (intro rq_inj_on[of _ n]) auto
  have "set (sort_key (\<lambda>s. rist_seq_diff s (rq base n)) ?L) = set ?L" by (rule set_sort)
  then have im: "rq base ` set all = {s. \<exists>st. map_of m s = Some st \<and> request_is_due ?c now st}"
    unfolding all(1) L unfolding set_map .
  then have mem: "p \<in> set all \<longleftrightarrow> (\<exists>st. map_of m (rq base p) = Some st \<and> request_is_due ?c now st)" if "p \<in> {n..hi}" for p
    unfolding inj_on_image_mem_iff[OF inj that all(3), symmetric] im mem_Collect_eq by simp
  have "\<forall>p \<in> set all. n \<le> p \<and> p < n + 65536" using all(3) m(3) by fastforce
  from expand_coalesce[OF all(2) this, of MAX_RANGE_ENTRIES base] obtain k where
    k: "expand_ranges (take MAX_RANGE_ENTRIES (coalesce_ranges (map (rq base) all))) = map (rq base) (take k all)" by blast
  have due: "due = take MAX_RANGE_ENTRIES (coalesce_ranges (map (rq base) all))"
    and m': "m' = fold (\<lambda>s. AList.map_entry s (requested ?c (rtt_estimate r) now)) (expand_ranges due) m"
    using eq all(1) by (auto simp: tick_requests_def Let_def cap_ranges_def)
  have ex: "expand_ranges due = map (rq base) (take k all)" unfolding due by (rule k)
  have sub: "set (take k all) \<subseteq> {n..hi}" using all(3) set_take_subset[of k all] by blast
  have "distinct (map (rq base) (take k all))"
    using all(2) inj_on_subset[OF inj sub] by (simp add: distinct_map strict_sorted_iff)
  then have "\<forall>p \<in> {n..hi}. map_of m' (rq base p) =
      (if p \<in> set (take k all) then map_option (requested ?c (rtt_estimate r) now) (map_of m (rq base p)) else map_of m (rq base p))"
    unfolding m' ex using inj_on_image_mem_iff[OF inj _ sub] by (auto simp: map_of_fold_map_entry)
  moreover have "set (take k all @ drop k all) = {p \<in> {n..hi}. \<exists>st. map_of m (rq base p) = Some st \<and> request_is_due ?c now st}"
    using mem all(3) by auto
  moreover have "length due \<le> MAX_RANGE_ENTRIES" unfolding due by simp
  ultimately show ?thesis using all(2) ex by (intro exI[of _ "take k all"] exI[of _ "drop k all"]) simp
qed

text \<open>\<open>track base r p\<close>: what the receiver keeps for a missing position.\<close>

abbreviation track :: "u16 \<Rightarrow> RistReceiver \<Rightarrow> int \<Rightarrow> MissingState option" where
  "track base r p \<equiv> map_of (missing r) (rq base p)"

abbreviation promote_now :: "RistReceiver \<Rightarrow> duration \<Rightarrow> MissingState \<Rightarrow> MissingState" where
  "promote_now r now \<equiv> promote (arq_config r) (rtt_estimate r) now"

lemma map_of_promoted: "map_of (promoted_map r now) s = map_option (promote_now r now) (map_of (missing r) s)"
  by (simp add: promoted_map_def map_of_map)

lemma map_of_kept:
  "map_of (kept_map r now) s = (if s \<in> set (given_up_now r now) then None else map_option (promote_now r now) (map_of (missing r) s))"
proof -
  have "map_of (filter (\<lambda>(s, x). s \<notin> S) m) s = (if s \<in> S then None else map_of m s)" for S and m :: "(u16 \<times> MissingState) list"
    by (induction m) auto
  then show ?thesis unfolding kept_map_def by (simp add: map_of_promoted)
qed

lemma tracked_iff:
  assumes "receiving base ne hi A G r" "ne \<le> p" "p \<le> hi"
  shows "track base r p \<noteq> None \<longleftrightarrow> p \<notin> A \<and> p \<notin> G"
proof -
  have "inj_on (rq base) {ne..hi}" using assms(1) by (intro rq_inj_on[of _ ne]) (auto simp: receiving_def)
  then have "rq base p \<in> rq base ` ({ne..hi} - A - G) \<longleftrightarrow> p \<in> {ne..hi} - A - G"
    using assms(2,3) by (intro inj_on_image_mem_iff) auto
  moreover have "track base r p \<noteq> None \<longleftrightarrow> rq base p \<in> dom (map_of (missing r))" by (simp only: domIff)
  moreover have "dom (map_of (missing r)) = rq base ` ({ne..hi} - A - G)" using assms(1) by (simp add: receiving_def)
  ultimately show ?thesis using assms(2,3) by simp
qed

text \<open>A tick in terms of positions: what is given up, requested and kept.\<close>

lemma tick_positions:
  assumes r: "receiving base ne hi A G r" and tick: "rist_tick r now = Some (r', t)"
  shows "\<exists>n hs ps qs. receiving base n hi A (G \<union> set hs) r' \<and> ne \<le> n \<and> {ne..<n} \<subseteq> A \<union> set hs \<and> n \<notin> set hs \<and>
    tick_given_up t = map (rq base) hs \<and> tick_unblocked t = map (rq base) (filter (\<lambda>p. p \<in> A) [ne..n - 1]) \<and>
    set hs = {p \<in> {ne..hi} - A - G. \<exists>st. track base r p = Some st \<and> exhausted (arq_config r) now (promote_now r now st)} \<and>
    sorted_wrt (<) (ps @ qs) \<and> expand_ranges (tick_due t) = map (rq base) ps \<and> length (tick_due t) \<le> MAX_RANGE_ENTRIES \<and>
    set (ps @ qs) = {p \<in> {n..hi} - A - (G \<union> set hs). \<exists>st. track base r p = Some st \<and> request_is_due (arq_config r) now (promote_now r now st)} \<and>
    (\<forall>p \<in> {n..hi} - A - (G \<union> set hs). track base r' p =
      map_option (\<lambda>st. (if p \<in> set ps then requested (arq_config r) (rtt_estimate r) now else id) (promote_now r now st)) (track base r p))"
proof -
  note R = r[unfolded receiving_def]
  obtain n hs where n: "given_up_now r now = map (rq base) hs" "tick_given_up t = map (rq base) hs"
    "set hs \<subseteq> {ne..hi} - A - G" "ne \<le> n" "{ne..<n} \<subseteq> A \<union> set hs" "receiving base n hi A (G \<union> set hs) r'"
    "n \<notin> set hs" "tick_unblocked t = map (rq base) (filter (\<lambda>p. p \<in> A) [ne..n - 1])"
    "(missing r', tick_due t) = tick_requests r now (kept_map r now) (Some (rq base n))"
    using tick_receiving[OF r, of now] tick by auto
  have inj: "inj_on (rq base) {ne..hi}" using R by (intro rq_inj_on[of _ ne]) auto
  have sk: "strict_keys (promoted_map r now)" using R strict_keys_cong[OF keys_promoted_map, of r now] by simp
  have hs: "set hs = {p \<in> {ne..hi} - A - G. \<exists>st. track base r p = Some st \<and> exhausted (arq_config r) now (promote_now r now st)}"
  proof -
    have "rq base p \<in> set (given_up_now r now) \<longleftrightarrow> (\<exists>st. track base r p = Some st \<and> exhausted (arq_config r) now (promote_now r now st))" for p
      unfolding given_up_now_def set_map map_of_filter_strict[OF sk] map_of_promoted by auto
    moreover have "rq base p \<in> set (given_up_now r now) \<longleftrightarrow> p \<in> set hs" if "p \<in> {ne..hi}" for p
      unfolding n(1) set_map using n(3) by (intro inj_on_image_mem_iff[OF inj that]) blast
    ultimately show ?thesis using n(3) by blast
  qed
  have km: "map_of (kept_map r now) (rq base p) = (if p \<in> set hs then None else map_option (promote_now r now) (track base r p))"
    if "p \<in> {ne..hi}" for p
    unfolding map_of_kept n(1) set_map using inj_on_image_mem_iff[OF inj that, of "set hs"] n(3) by auto
  have dk: "dom (map_of (missing r')) = rq base ` ({n..hi} - A - (G \<union> set hs))" "hi < n + 32768"
    using n(6) unfolding receiving_def by simp_all
  have keys: "dom (map_of (kept_map r now)) = rq base ` ({n..hi} - A - (G \<union> set hs))"
    using dom_map_of_cong[OF keys_tick_requests[of r now "kept_map r now" "Some (rq base n)"]] dk(1) n(9) by (metis fst_conv)
  have kept: "strict_keys (kept_map r now)" unfolding kept_map_def by (rule strict_keys_filter[OF sk])
  have sub: "dom (map_of (kept_map r now)) \<subseteq> rq base ` {n..hi}" unfolding keys by blast
  obtain ps qs where p: "sorted_wrt (<) (ps @ qs)" "expand_ranges (tick_due t) = map (rq base) ps" "length (tick_due t) \<le> MAX_RANGE_ENTRIES"
    "set (ps @ qs) = {p \<in> {n..hi}. \<exists>st. map_of (kept_map r now) (rq base p) = Some st \<and> request_is_due (arq_config r) now st}"
    "\<forall>p \<in> {n..hi}. track base r' p = (if p \<in> set ps then map_option (requested (arq_config r) (rtt_estimate r) now) (map_of (kept_map r now) (rq base p))
        else map_of (kept_map r now) (rq base p))"
    using tick_requests_rq[OF kept sub dk(2) n(9)[symmetric]] by blast
  have inj_n: "inj_on (rq base) {n..hi}" by (rule inj_on_subset[OF inj]) (use n(4) in auto)
  have dom_n: "p \<in> {n..hi} - A - (G \<union> set hs) \<longleftrightarrow> map_of (kept_map r now) (rq base p) \<noteq> None" if "p \<in> {n..hi}" for p
  proof -
    have "rq base p \<in> dom (map_of (kept_map r now)) \<longleftrightarrow> p \<in> {n..hi} - A - (G \<union> set hs)"
      unfolding keys using that by (intro inj_on_image_mem_iff[OF inj_n]) auto
    then show ?thesis by auto
  qed
  have due: "set (ps @ qs) = {p \<in> {n..hi} - A - (G \<union> set hs). \<exists>st. track base r p = Some st \<and> request_is_due (arq_config r) now (promote_now r now st)}"
  proof -
    have "p \<in> set (ps @ qs) \<longleftrightarrow> p \<in> {n..hi} - A - (G \<union> set hs) \<and> (\<exists>st. track base r p = Some st \<and> request_is_due (arq_config r) now (promote_now r now st))" for p
      unfolding p(4) using dom_n[of p] km[of p] n(4) by (auto split: if_splits)
    then show ?thesis by blast
  qed
  have "\<forall>p \<in> {n..hi} - A - (G \<union> set hs). track base r' p =
      map_option (\<lambda>st. (if p \<in> set ps then requested (arq_config r) (rtt_estimate r) now else id) (promote_now r now st)) (track base r p)"
    using p(5) km n(4) by (auto simp: option.map_comp comp_def)
  then show ?thesis using n hs due p(1-3) by (intro exI[of _ n] exI[of _ hs] exI[of _ ps] exI[of _ qs]) simp
qed

text \<open>An arrival leaves the entries of the other positions alone and opens new ones above the highest.\<close>

lemma track_feed:
  assumes "receiving base ne hi A G r" "hi - 32767 < p" "p < ne + 32768"
    and m': "missing r' = AList.delete (rq base p)
      (if hi < p then fill_gap (rq base (hi + 1)) (rq base p) t (missing r) else missing r)"
    and q: "ne \<le> q" "q \<le> max hi p"
  shows "track base r' q = (if q = p then None else if q \<le> hi then track base r q else Some (newly_missing t))"
proof -
  note R = assms(1)[unfolded receiving_def]
  have pq: "rq base q = rq base p \<longleftrightarrow> q = p" using assms(2,3) q R by (intro rq_inject) auto
  show ?thesis
  proof (cases "hi < p")
    case False
    then show ?thesis using pq q unfolding m' by (simp add: AList.delete_conv')
  next
    case True
    have win: "\<forall>x \<in> {hi + 1..<p}. ne - 32768 \<le> x \<and> x < ne - 32768 + 65536" using assms(3) R by auto
    have mem: "rq base q \<in> rq base ` {hi + 1..<p} \<longleftrightarrow> q \<in> {hi + 1..<p}"
      using q assms(3) R by (intro rq_mem[OF win]) auto
    have none: "track base r q = None" if "hi < q"
    proof -
      have win': "\<forall>x \<in> {ne..hi} - A - G. ne - 32768 \<le> x \<and> x < ne - 32768 + 65536" using R by auto
      have "rq base q \<in> rq base ` ({ne..hi} - A - G) \<longleftrightarrow> q \<in> {ne..hi} - A - G"
        using q assms(3) R by (intro rq_mem[OF win']) auto
      then have "rq base q \<notin> dom (map_of (missing r))" using that R by simp
      then show ?thesis by (simp add: domIff)
    qed
    have fg: "map_of (fill_gap (rq base (hi + 1)) (rq base p) t (missing r)) (rq base q) =
        (case track base r q of Some x \<Rightarrow> Some x | None \<Rightarrow> if q \<in> {hi + 1..<p} then Some (newly_missing t) else None)"
      using fill_gap_rq[of "hi + 1" p "missing r" base t] True assms(3) R unfolding mem[symmetric] by simp
    show ?thesis
    proof (cases "q = p")
      case False
      then have "track base r' q = map_of (fill_gap (rq base (hi + 1)) (rq base p) t (missing r)) (rq base q)"
        unfolding m' using True pq by (simp add: AList.delete_conv')
      then show ?thesis unfolding fg using False none q True by (auto split: option.splits)
    qed (simp add: m' AList.delete_conv')
  qed
qed

end
