(* ===== verification/Rist_Receiver_Spec.thy ===== *)
theory Rist_Receiver_Spec
  imports Rist_Reception
begin

text \<open>
  Runs of a RIST receiver: arrivals, resynchronisations, ticks and RTT samples in any order, and what
  they deliver.
\<close>

section \<open>Runs\<close>

text \<open>
  What a receiver was given and answered: a packet in the window, one beyond the gap ceiling that stays an
  unconfirmed candidate, one beyond it that confirms a resynchronisation, a tick, an RTT sample.
\<close>

datatype RistEvent = Fed int "u16 list" | Stray int "u16 list" | Jumped int "u16 list" | Ticked RistTick | Sampled duration

text \<open>The front after an operation: the position the number \<open>next_expected\<close> stands for.\<close>

definition front_after :: "u16 \<Rightarrow> int \<Rightarrow> RistReceiver \<Rightarrow> int" where
  "front_after base ne r = ne + (case next_expected r of None \<Rightarrow> 0 | Some n \<Rightarrow> uint (n - rq base ne))"

text \<open>
  A state of a run: the next position to deliver, the highest position taken, what the receiver was
  given and answered (latest first), the time, and the receiver.
\<close>

type_synonym rist_state = "int \<times> int \<times> RistEvent list \<times> duration \<times> RistReceiver"

text \<open>
  One step from such a state. Arrivals lie in the window that 16-bit numbers can tell apart: less than
  half the number circle ahead of the front and not half of it behind the highest, or further ahead of
  the highest than the gap ceiling, where they may confirm a resynchronisation; times do not go back.
\<close>

inductive rist_step :: "u16 \<Rightarrow> rist_state \<Rightarrow> rist_state \<Rightarrow> bool" for base :: u16 where
  feed: "now \<le> t \<Longrightarrow> hi - 32767 < p \<Longrightarrow> p < ne + 32768 \<Longrightarrow> p \<le> hi + int (max_gap r) \<Longrightarrow>
    rist_feed r (rq base p) t = (r', out) \<Longrightarrow>
    rist_step base (ne, hi, log, now, r) (front_after base ne r', max hi p, Fed p out # log, t, r')"
| stray: "now \<le> t \<Longrightarrow> hi + int (max_gap r) < p \<Longrightarrow> p \<le> hi + 32768 \<Longrightarrow>
    rist_feed r (rq base p) t = (r', out) \<Longrightarrow> highest_received r' = highest_received r \<Longrightarrow>
    rist_step base (ne, hi, log, now, r) (ne, hi, Stray p out # log, t, r')"
| resync: "now \<le> t \<Longrightarrow> hi + int (max_gap r) < p \<Longrightarrow> p \<le> hi + 32768 \<Longrightarrow>
    rist_feed r (rq base p) t = (r', out) \<Longrightarrow> highest_received r' \<noteq> highest_received r \<Longrightarrow>
    rist_step base (ne, hi, log, now, r) (p + 1, p, Jumped p out # log, t, r')"
| tick: "now \<le> t \<Longrightarrow> rist_tick r t = Some (r', out) \<Longrightarrow>
    rist_step base (ne, hi, log, now, r) (front_after base ne r', hi, Ticked out # log, t, r')"
| sample: "rist_step base (ne, hi, log, now, r) (ne, hi, Sampled s # log, now, on_rtt_sample r s)"

inductive_cases rist_stepE: "rist_step base (ne, hi, log, now, r) s'"

text \<open>The states of a receiver with configuration \<open>c\<close> whose first arrival, after any RTT samples, has the number \<open>base\<close>.\<close>

inductive rist_receiving :: "ArqConfig \<Rightarrow> u16 \<Rightarrow> rist_state \<Rightarrow> bool" for c :: ArqConfig and base :: u16 where
  start: "rist_feed (fold (\<lambda>s r. on_rtt_sample r s) samples (RistReceiver_new c)) base now = (r, out) \<Longrightarrow>
    rist_receiving c base (front_after base 0 r, 0, [Fed 0 out], now, r)"
| step: "rist_receiving c base s \<Longrightarrow> rist_step base s s' \<Longrightarrow> rist_receiving c base s'"

fun event_delivered :: "RistEvent \<Rightarrow> u16 list" where
  "event_delivered (Fed p out) = out"
| "event_delivered (Stray p out) = out"
| "event_delivered (Jumped p out) = out"
| "event_delivered (Ticked t) = tick_unblocked t"
| "event_delivered (Sampled s) = []"

fun event_given_up :: "RistEvent \<Rightarrow> u16 list" where
  "event_given_up (Ticked t) = tick_given_up t"
| "event_given_up _ = []"

definition rist_delivered :: "RistEvent list \<Rightarrow> u16 list" where
  "rist_delivered log = concat (map event_delivered (rev log))"

definition rist_given_up :: "RistEvent list \<Rightarrow> u16 list" where
  "rist_given_up log = concat (map event_given_up (rev log))"

text \<open>The positions taken in: those in the window, and the three that confirm a resynchronisation.\<close>

fun event_fed :: "RistEvent \<Rightarrow> int set" where
  "event_fed (Fed p out) = {p}"
| "event_fed (Jumped p out) = {p - 2, p - 1, p}"
| "event_fed _ = {}"

definition rist_fed :: "RistEvent list \<Rightarrow> int set" where
  "rist_fed log = \<Union> (event_fed ` set log)"

text \<open>
  The highest position taken in; the packets beyond the ceiling since it last moved, latest first; the
  first position of the last resynchronisation, zero when there was none.
\<close>

fun highest_fed :: "RistEvent list \<Rightarrow> int" where
  "highest_fed [] = -1"
| "highest_fed (Fed p out # log) = max (highest_fed log) p"
| "highest_fed (Jumped p out # log) = p"
| "highest_fed (_ # log) = highest_fed log"

fun far_arrivals :: "RistEvent list \<Rightarrow> int list" where
  "far_arrivals [] = []"
| "far_arrivals (Fed p out # log) = (if highest_fed log < p then [] else far_arrivals log)"
| "far_arrivals (Jumped p out # log) = []"
| "far_arrivals (Stray p out # log) = p # far_arrivals log"
| "far_arrivals (_ # log) = far_arrivals log"

fun last_resync :: "RistEvent list \<Rightarrow> int" where
  "last_resync [] = 0"
| "last_resync (Jumped p out # log) = p - 2"
| "last_resync (_ # log) = last_resync log"

lemma rist_log_simps [simp]:
  "rist_delivered [] = []" "rist_delivered (e # log) = rist_delivered log @ event_delivered e"
  "rist_given_up [] = []" "rist_given_up (e # log) = rist_given_up log @ event_given_up e"
  "rist_fed [] = {}" "rist_fed (e # log) = event_fed e \<union> rist_fed log"
  by (auto simp: rist_delivered_def rist_given_up_def rist_fed_def)

section \<open>The invariant of a run\<close>

definition rist_inv :: "u16 \<Rightarrow> int \<Rightarrow> int \<Rightarrow> int list \<Rightarrow> int list \<Rightarrow> RistEvent list \<Rightarrow> RistReceiver \<Rightarrow> bool" where
  "rist_inv base ne hi ds gs log r \<longleftrightarrow>
     receiving base ne hi (rist_fed log) (set gs) r \<and> 0 \<le> ne \<and>
     rist_delivered log = map (rq base) ds \<and> sorted_wrt (<) ds \<and> set ds \<subseteq> rist_fed log \<inter> {0..<ne} \<and>
     rist_given_up log = map (rq base) gs \<and> distinct gs \<and> set gs \<subseteq> {0..hi} \<and> {last_resync log..<ne} \<subseteq> set ds \<union> set gs"

lemma front_after_rq: "next_expected r = Some (rq base n) \<Longrightarrow> ne \<le> n \<Longrightarrow> n < ne + 65536 \<Longrightarrow> front_after base ne r = n"
  by (simp add: front_after_def uint_rq_diff)

lemma receiving_front: "receiving base n hi A G r \<Longrightarrow> ne \<le> n \<Longrightarrow> hi < ne + 65535 \<Longrightarrow> front_after base ne r = n"
  by (rule front_after_rq) (auto simp: receiving_def)

lemma sorted_wrt_below: "sorted_wrt (<) ds \<Longrightarrow> \<forall>d \<in> set ds. d < ne \<Longrightarrow> sorted_wrt (<) es \<Longrightarrow> \<forall>e \<in> set es. ne \<le> e \<Longrightarrow>
    sorted_wrt (<) (ds @ (es :: int list))"
  by (fastforce simp: sorted_wrt_append)

lemma cover_on:
  assumes "{a..<ne} \<subseteq> X" "{ne..<n} \<subseteq> Y" "X \<subseteq> Z" "Y \<subseteq> Z"
  shows "{a..<n :: int} \<subseteq> Z"
proof -
  have "{a..<n} \<subseteq> {a..<ne} \<union> {ne..<n}" by auto
  then show ?thesis using assms by blast
qed

lemma inv_feed:
  assumes inv: "rist_inv base ne hi ds gs log r"
    and p: "hi - 32767 < p" "p < ne + 32768" "p \<le> hi + int (max_gap r)" and feed: "rist_feed r (rq base p) t = (r', out)"
  shows "\<exists>n ds'. front_after base ne r' = n \<and> rist_inv base n (max hi p) ds' gs (Fed p out # log) r' \<and>
    ne \<le> n \<and> {ne..<n} \<subseteq> insert p (rist_fed log) \<and> out = map (rq base) [ne..n - 1] \<and>
    missing r' = AList.delete (rq base p) (if hi < p then fill_gap (rq base (hi + 1)) (rq base p) t (missing r) else missing r)"
proof -
  let ?A = "rist_fed log"
  note I = inv[unfolded rist_inv_def]
  have R: "receiving base ne hi ?A (set gs) r" using I by simp
  have cov: "{last_resync log..<ne} \<subseteq> set ds \<union> set gs" using I by blast
  have G: "\<forall>g \<in> set gs. g \<le> hi" using I by fastforce
  obtain n where n: "out = map (rq base) [ne..n - 1]" "ne \<le> n" "{ne..<n} \<subseteq> insert p ?A" "receiving base n (max hi p) (insert p ?A) (set gs) r'"
    "missing r' = AList.delete (rq base p) (if hi < p then fill_gap (rq base (hi + 1)) (rq base p) t (missing r) else missing r)"
    using feed_receiving[OF R p G, of t] feed by auto
  have front: "front_after base ne r' = n" using R p n(2) by (intro receiving_front[OF n(4)]) (auto simp: receiving_def)
  have "sorted_wrt (<) (ds @ [ne..n - 1])" using I by (intro sorted_wrt_below[of _ ne]) auto
  moreover have "{last_resync log..<n} \<subseteq> set (ds @ [ne..n - 1]) \<union> set gs"
    using cov by (rule cover_on[OF _ subset_refl]) auto
  moreover have "set (ds @ [ne..n - 1]) \<subseteq> insert p ?A \<inter> {0..<n}" using I n(2,3) by fastforce
  moreover have "rist_delivered (Fed p out # log) = map (rq base) (ds @ [ne..n - 1])" using I n(1) by simp
  moreover have "set gs \<subseteq> {0..max hi p}" "0 \<le> n" using I n(2) by fastforce+
  ultimately show ?thesis using front n I by (intro exI[of _ n] exI[of _ "ds @ [ne..n - 1]"]) (simp add: rist_inv_def)
qed

lemma inv_tick:
  assumes inv: "rist_inv base ne hi ds gs log r"
  shows "\<exists>n ds' hs r' out. rist_tick r t = Some (r', out) \<and> front_after base ne r' = n \<and>
    rist_inv base n hi ds' (gs @ hs) (Ticked out # log) r' \<and>
    ne \<le> n \<and> {ne..<n} \<subseteq> rist_fed log \<union> set hs \<and> tick_unblocked out = map (rq base) (filter (\<lambda>p. p \<in> rist_fed log) [ne..n - 1])"
proof -
  let ?A = "rist_fed log"
  note I = inv[unfolded rist_inv_def]
  have R: "receiving base ne hi ?A (set gs) r" using I by simp
  have cov: "{last_resync log..<ne} \<subseteq> set ds \<union> set gs" using I by blast
  obtain n hs r' out where n: "rist_tick r t = Some (r', out)" "tick_given_up out = map (rq base) hs" "distinct hs"
    "set hs \<subseteq> {ne..hi} - ?A - set gs" "ne \<le> n" "{ne..<n} \<subseteq> ?A \<union> set hs"
    "tick_unblocked out = map (rq base) (filter (\<lambda>p. p \<in> ?A) [ne..n - 1])" "receiving base n hi ?A (set gs \<union> set hs) r'"
    using tick_receiving[OF R, of t] by blast
  let ?new = "filter (\<lambda>p. p \<in> ?A) [ne..n - 1]"
  have front: "front_after base ne r' = n" using R n(5) by (intro receiving_front[OF n(8)]) (auto simp: receiving_def)
  have "sorted_wrt (<) (ds @ ?new)" using I by (intro sorted_wrt_below[of _ ne]) (auto intro: sorted_wrt_filter)
  moreover have "{last_resync log..<n} \<subseteq> set (ds @ ?new) \<union> set (gs @ hs)"
  proof -
    have "{ne..<n} \<subseteq> set ?new \<union> set hs" using n(6) by auto
    with cov show ?thesis by (rule cover_on) auto
  qed
  moreover have "set (ds @ ?new) \<subseteq> ?A \<inter> {0..<n}" using I n(5) by fastforce
  moreover have "rist_delivered (Ticked out # log) = map (rq base) (ds @ ?new)" using I n(7) by simp
  moreover have "distinct (gs @ hs)" "set (gs @ hs) \<subseteq> {0..hi}" using I n(3,4) by auto
  moreover have "receiving base n hi ?A (set (gs @ hs)) r'" "0 \<le> n" using n(5,8) I by auto
  ultimately show ?thesis using front I n(1,2,5-7)
    by (intro exI[of _ n] exI[of _ "ds @ ?new"] exI[of _ hs] exI[of _ r'] exI[of _ out]) (simp add: rist_inv_def)
qed

lemma fold_rtt_samples: "\<exists>x. fold (\<lambda>s r. on_rtt_sample r s) ss r = r\<lparr>rist_rtt := x\<rparr>"
proof (induction ss arbitrary: r)
  case Nil
  show ?case by (intro exI[of _ "rist_rtt r"]) simp
next
  case (Cons s ss)
  then obtain x where "fold (\<lambda>s r. on_rtt_sample r s) ss (on_rtt_sample r s) = (on_rtt_sample r s)\<lparr>rist_rtt := x\<rparr>" by blast
  then show ?case by (intro exI[of _ x]) (simp add: on_rtt_sample_def)
qed

lemma rq_0 [simp]: "rq base 0 = base"
  by (simp add: rq_def)

lemma rq_1: "base + 1 = rq base 1"
  by (simp add: rq_def)

lemma first_feed:
  assumes "rist_feed (fold (\<lambda>s r. on_rtt_sample r s) samples (RistReceiver_new c)) base now = (r, out)"
  shows "out = [base] \<and> receiving base 1 0 {0} {} r \<and> missing r = [] \<and> pending_resync r = None \<and> arq_config r = c \<and>
    max_gap r = derive_max_gap (receiver_buffer c)"
proof -
  obtain x where "fold (\<lambda>s r. on_rtt_sample r s) samples (RistReceiver_new c) = (RistReceiver_new c)\<lparr>rist_rtt := x\<rparr>"
    using fold_rtt_samples by blast
  then have f: "rist_feed ((RistReceiver_new c)\<lparr>rist_rtt := x\<rparr>) base now = (r, out)" using assms by simp
  have "{p \<in> {0 :: int}. 1 < p} = {}" "{1..0 :: int} = {}" by auto
  moreover have "rist_seq_next base = rq base 1" by (simp add: rist_seq_next_def rist_seq_add_def rq_1)
  ultimately show ?thesis using f
    by (auto simp: rist_feed_def RistReceiver_new_def arrive_def rist_drain.simps[of _ "{}"] receiving_def Let_def)
qed

lemma inv_start:
  assumes "rist_feed (fold (\<lambda>s r. on_rtt_sample r s) samples (RistReceiver_new c)) base now = (r, out)"
  shows "front_after base 0 r = 1 \<and> rist_inv base 1 0 [0] [] [Fed 0 out] r"
  using first_feed[OF assms] receiving_front[of base 1 0 "{0}" "{}" r 0] by (auto simp: rist_inv_def)

section \<open>Packets beyond the gap ceiling\<close>

lemma feed_beyond_ceiling:
  assumes "highest_received r = Some (rq base hi)" "hi + int (max_gap r) < p" "p \<le> hi + 32768"
  shows "rist_feed r (rq base p) t = feed_resync_candidate r (rq base p)"
proof -
  have "rist_seq_diff (rq base p) (rq base hi) = p - hi" using assms(2,3) by (intro rq_diff) auto
  moreover have "max_gap r < nat (p - hi)" "hi < p" using assms(2) by simp_all
  ultimately show ?thesis using assms(1) by (simp add: rist_feed_def rist_gt_diff)
qed

text \<open>A packet beyond the ceiling changes nothing but the candidate, or starts the stream anew.\<close>

lemma feed_stray:
  assumes "highest_received r = Some (rq base hi)" "hi + int (max_gap r) < p" "p \<le> hi + 32768"
    and "rist_feed r (rq base p) t = (r', out)" "highest_received r' = highest_received r"
  shows "out = [] \<and> (\<exists>x. r' = r\<lparr>pending_resync := Some x\<rparr>)"
proof -
  have "rq base p \<noteq> rq base hi" using assms(2,3) by (simp add: rq_inject)
  then show ?thesis using assms feed_beyond_ceiling[OF assms(1-3), of t]
    by (auto simp: feed_resync_candidate_def Let_def split: if_splits option.splits)
qed

lemma feed_jump:
  assumes "highest_received r = Some (rq base hi)" "hi + int (max_gap r) < p" "p \<le> hi + 32768"
    and "rist_feed r (rq base p) t = (r', out)" "highest_received r' \<noteq> highest_received r"
  shows "r' = r\<lparr>pending_resync := None, missing := [], ahead_set := {}, highest_received := Some (rq base p),
    next_expected := Some (rq base (p + 1))\<rparr>"
  using assms feed_beyond_ceiling[OF assms(1-3), of t]
  by (auto simp: feed_resync_candidate_def Let_def split: if_splits option.splits)

lemma jump_receiving:
  assumes R: "receiving base ne hi A G r" and p: "hi < p" "B \<subseteq> {..p}"
    and r': "r' = r\<lparr>pending_resync := None, missing := [], ahead_set := {}, highest_received := Some (rq base p),
      next_expected := Some (rq base (p + 1))\<rparr>"
  shows "receiving base (p + 1) p (B \<union> A) G r'"
proof -
  have le: "q \<le> p" if "q \<in> B \<union> A" for q using that R p by (force simp: receiving_def)
  have "{q \<in> B \<union> A. p + 1 < q} = {}" using le by force
  moreover have "p + 1 \<notin> B \<union> A" using le[of "p + 1"] by auto
  ultimately show ?thesis unfolding r' using le by (auto simp: receiving_def)
qed

text \<open>
  The candidate after the packets \<open>xs\<close> beyond the ceiling, latest first: the latest of them and, when it
  continues the one before, both.
\<close>

definition candidate :: "u16 \<Rightarrow> int list \<Rightarrow> PendingResync option" where
  "candidate base xs = (case xs of [] \<Rightarrow> None
     | p # ys \<Rightarrow> (let k = (if take 1 ys = [p - 1] then 2 else 1)
         in Some \<lparr>resync_base = rq base (p + 1 - int k), next_needed = rq base (p + 1), resync_count = k\<rparr>))"

definition believed :: "u16 \<Rightarrow> int \<Rightarrow> RistEvent list \<Rightarrow> RistReceiver \<Rightarrow> bool" where
  "believed base hi log r \<longleftrightarrow> highest_fed log = hi \<and> pending_resync r = candidate base (far_arrivals log) \<and>
     (\<forall>q \<in> set (far_arrivals log). hi + int (max_gap r) < q \<and> q \<le> hi + 32768) \<and>
     (\<forall>q ys. far_arrivals log \<noteq> q # (q - 1) # (q - 2) # ys)"

lemma take_2_iff: "take 2 xs = [a, b] \<longleftrightarrow> (\<exists>ys. xs = a # b # ys)"
  by (cases xs; cases "tl xs") auto

lemma run_of_3: "run_from (unat (rq base p - rq base (p - 2)) + 1) (rq base (p - 2)) = map (rq base) [p - 2, p - 1, p]"
proof -
  have d: "rq base p - rq base (p - 2) = 2" by (simp add: rq_def)
  have "[p - 2..p] = [p - 2, p - 1, p]" by (simp add: upto_rec1)
  then show ?thesis unfolding d using run_from_rq[of 3 base "p - 2"] by simp
qed

lemma feed_far:
  assumes B: "believed base hi log r" and high: "highest_received r = Some (rq base hi)"
    and p: "hi + int (max_gap r) < p" "p \<le> hi + 32768"
  shows "rist_feed r (rq base p) t =
    (if take 2 (far_arrivals log) = [p - 1, p - 2]
     then (r\<lparr>pending_resync := None, missing := [], ahead_set := {}, highest_received := Some (rq base p),
             next_expected := Some (rq base (p + 1))\<rparr>, map (rq base) [p - 2, p - 1, p])
     else (r\<lparr>pending_resync := candidate base (p # far_arrivals log)\<rparr>, []))"
proof -
  have f: "rist_feed r (rq base p) t = feed_resync_candidate r (rq base p)" by (rule feed_beyond_ceiling[OF high p])
  have pend: "pending_resync r = candidate base (far_arrivals log)" using B by (simp add: believed_def)
  have fresh: "candidate base [p] = Some \<lparr>resync_base = rq base p, next_needed = rq base (p + 1), resync_count = 1\<rparr>"
    by (simp add: candidate_def)
  show ?thesis
  proof (cases "far_arrivals log")
    case Nil
    then show ?thesis unfolding f feed_resync_candidate_def using pend fresh
      by (simp add: candidate_def Let_def RESYNC_CONFIRM_COUNT_def)
  next
    case (Cons q ys)
    then have "hi + int (max_gap r) < q" "q \<le> hi + 32768" using B by (auto simp: believed_def)
    then have eq: "rq base (q + 1) = rq base p \<longleftrightarrow> q = p - 1" using p by (subst rq_inject) auto
    have pq: "(p - 1 + 1) = p" by simp
    show ?thesis
    proof (cases "q = p - 1")
      case False
      then show ?thesis unfolding f feed_resync_candidate_def pend Cons using eq
        by (simp add: candidate_def Let_def RESYNC_CONFIRM_COUNT_def)
    next
      case True
      show ?thesis
      proof (cases "take 1 ys = [p - 2]")
        case True
        then have "take 2 (far_arrivals log) = [p - 1, p - 2]" unfolding Cons using \<open>q = p - 1\<close> by (cases ys) auto
        then show ?thesis unfolding f feed_resync_candidate_def pend Cons
          using \<open>q = p - 1\<close> True run_of_3[of base p]
          by (simp add: candidate_def Let_def RESYNC_CONFIRM_COUNT_def)
      next
        case False
        then have "take 2 (far_arrivals log) \<noteq> [p - 1, p - 2]" unfolding Cons by (cases ys) auto
        then show ?thesis unfolding f feed_resync_candidate_def pend Cons
          using \<open>q = p - 1\<close> False by (simp add: candidate_def Let_def RESYNC_CONFIRM_COUNT_def)
      qed
    qed
  qed
qed

section \<open>Any step\<close>

lemma arrive_keeps [simp]:
  "pending_resync (fst (arrive r s)) = pending_resync r" "max_gap (fst (arrive r s)) = max_gap r"
  "arq_config (fst (arrive r s)) = arq_config r" "rist_rtt (fst (arrive r s)) = rist_rtt r"
  by (simp_all add: arrive_def Let_def case_prod_unfold)

lemma rist_feed_rtt:
  assumes "rist_feed r s t = (r', out)"
  shows "arq_config r' = arq_config r \<and> rist_rtt r' = rist_rtt r"
proof -
  have "arq_config (fst (rist_feed r s t)) = arq_config r \<and> rist_rtt (fst (rist_feed r s t)) = rist_rtt r"
    by (simp add: rist_feed_def feed_resync_candidate_def Let_def split: option.split)
  then show ?thesis using assms by simp
qed

lemma feed_keeps_candidate:
  assumes high: "highest_received r = Some (rq base hi)" and p: "hi - 32767 < p" "p \<le> hi + 32768" "p \<le> hi + int (max_gap r)"
    and feed: "rist_feed r (rq base p) t = (r', out)"
  shows "pending_resync r' = (if hi < p then None else pending_resync r) \<and> max_gap r' = max_gap r"
proof -
  have "rist_seq_diff (rq base p) (rq base hi) = p - hi" using p by (intro rq_diff) auto
  moreover have "\<not> max_gap r < nat (p - hi)" using p(3) by simp
  ultimately have "pending_resync (fst (rist_feed r (rq base p) t)) = (if hi < p then None else pending_resync r) \<and>
      max_gap (fst (rist_feed r (rq base p) t)) = max_gap r"
    using high by (simp add: rist_feed_def rist_gt_diff)
  then show ?thesis using feed by simp
qed

lemma rist_tick_keeps:
  "rist_tick r t = Some (r', out) \<Longrightarrow> arq_config r' = arq_config r \<and> rist_rtt r' = rist_rtt r \<and>
    highest_received r' = highest_received r \<and> pending_resync r' = pending_resync r \<and> max_gap r' = max_gap r"
  unfolding rist_tick_def Let_def case_prod_unfold by (auto split: option.splits)

lemma believed_step:
  assumes "rist_step base (ne, hi, log, now, r) (ne', hi', log', now', r')" and R: "receiving base ne hi A G r" and B: "believed base hi log r"
  shows "believed base hi' log' r'"
  using assms(1)
proof (cases rule: rist_step.cases)
  case (feed p out)
  have high: "highest_received r = Some (rq base hi)" and "ne \<le> hi + 1" using R by (simp_all add: receiving_def)
  then have "pending_resync r' = (if hi < p then None else pending_resync r) \<and> max_gap r' = max_gap r"
    using feed by (intro feed_keeps_candidate[OF high]) auto
  then show ?thesis using B feed by (auto simp: believed_def candidate_def max_def)
next
  case (stray p out)
  have high: "highest_received r = Some (rq base hi)" using R by (simp add: receiving_def)
  have "rq base p \<noteq> rq base hi" using stray(5,6) by (simp add: rq_inject)
  then have far: "take 2 (far_arrivals log) \<noteq> [p - 1, p - 2]" "r' = r\<lparr>pending_resync := candidate base (p # far_arrivals log)\<rparr>"
    using stray(7,8) high unfolding feed_far[OF B high stray(5,6)] by (auto split: if_splits)
  have "(p # far_arrivals log) \<noteq> q # (q - 1) # (q - 2) # ys" for q ys using far(1) by auto
  then show ?thesis using B stray unfolding far(2) by (simp add: believed_def)
next
  case (resync out)
  have "highest_received r = Some (rq base hi)" using R by (simp add: receiving_def)
  from feed_jump[OF this resync(4-7)] show ?thesis using resync by (simp add: believed_def candidate_def)
next
  case (tick out)
  then show ?thesis using B rist_tick_keeps[OF tick(5)] by (simp add: believed_def)
next
  case (sample s)
  then show ?thesis using B by (simp add: believed_def on_rtt_sample_def)
qed

lemma inv_resync:
  assumes I: "rist_inv base ne hi ds gs log r" and B: "believed base hi log r"
    and p: "hi + int (max_gap r) < p" "p \<le> hi + 32768"
    and feed: "rist_feed r (rq base p) t = (r', out)" "highest_received r' \<noteq> highest_received r"
  shows "rist_inv base (p + 1) p (ds @ [p - 2, p - 1, p]) gs (Jumped p out # log) r'"
proof -
  note I' = I[unfolded rist_inv_def]
  have R: "receiving base ne hi (rist_fed log) (set gs) r" using I' by simp
  then have high: "highest_received r = Some (rq base hi)" and le: "ne \<le> hi + 1" by (simp_all add: receiving_def)
  have three: "take 2 (far_arrivals log) = [p - 1, p - 2]" "out = map (rq base) [p - 2, p - 1, p]"
    using feed unfolding feed_far[OF B high p] by (auto split: if_splits)
  then have "p - 2 \<in> set (far_arrivals log)" by (metis insertCI in_set_takeD list.simps(15))
  then have hp: "hi < p - 2" using B by (auto simp: believed_def)
  have "receiving base (p + 1) p ({p - 2, p - 1, p} \<union> rist_fed log) (set gs) r'"
    using hp by (intro jump_receiving[OF R _ _ feed_jump[OF high p feed]]) auto
  moreover have "sorted_wrt (<) (ds @ [p - 2, p - 1, p])"
    using I' le hp by (intro sorted_wrt_below[of _ ne]) auto
  moreover have "set (ds @ [p - 2, p - 1, p]) \<subseteq> ({p - 2, p - 1, p} \<union> rist_fed log) \<inter> {0..<p + 1}"
  proof -
    have "set ds \<subseteq> rist_fed log \<inter> {0..<ne}" "0 \<le> ne" using I' by simp_all
    moreover have "{0..<ne} \<subseteq> {0..<p + 1}" using le hp by auto
    ultimately show ?thesis using le hp by auto
  qed
  moreover have "set gs \<subseteq> {0..p}" using I' hp by fastforce
  moreover have "{p - 2..<p + 1} \<subseteq> {p - 2, p - 1, p}" by auto
  moreover have "0 \<le> p + 1" using I' le hp by simp
  ultimately show ?thesis using I' three(2) by (auto simp: rist_inv_def)
qed

lemma step_inv:
  assumes "rist_step base (ne, hi, log, now, r) (ne', hi', log', now', r')"
    and I: "rist_inv base ne hi ds gs log r" and B: "believed base hi log r"
  shows "\<exists>ds gs. rist_inv base ne' hi' ds gs log' r'"
  using assms(1)
proof (cases rule: rist_step.cases)
  case (feed p out)
  then show ?thesis using inv_feed[OF I, of p now' r' out] by auto
next
  case (stray p out)
  have "highest_received r = Some (rq base hi)" using I by (simp add: rist_inv_def receiving_def)
  from feed_stray[OF this stray(5-8)] obtain x where x: "out = []" "r' = r\<lparr>pending_resync := Some x\<rparr>" by blast
  then show ?thesis using I stray by (intro exI[of _ ds] exI[of _ gs]) (simp add: rist_inv_def receiving_def)
next
  case (resync out)
  then show ?thesis using inv_resync[OF I B resync(4-7)] by blast
next
  case (tick out)
  then show ?thesis using inv_tick[OF I, of now'] by auto
next
  case (sample s)
  then show ?thesis using I by (intro exI[of _ ds] exI[of _ gs]) (simp add: rist_inv_def receiving_def on_rtt_sample_def)
qed

lemma rist_receiving_believed:
  "rist_receiving c base (ne, hi, log, now, r) \<Longrightarrow> (\<exists>ds gs. rist_inv base ne hi ds gs log r) \<and> believed base hi log r"
proof (induction "(ne, hi, log, now, r)" arbitrary: ne hi log now r rule: rist_receiving.induct)
  case (start samples now r out)
  have "believed base 0 [Fed 0 out] r" using first_feed[OF start] by (simp add: believed_def candidate_def)
  then show ?case using inv_start[OF start] by metis
next
  case (step s)
  obtain ne0 hi0 log0 now0 r0 where s: "s = (ne0, hi0, log0, now0, r0)" by (cases s)
  obtain ds gs where I: "rist_inv base ne0 hi0 ds gs log0 r0" and B: "believed base hi0 log0 r0" using step(2)[OF s] by blast
  have "receiving base ne0 hi0 (rist_fed log0) (set gs) r0" using I by (simp add: rist_inv_def)
  then show ?case using step_inv[OF step(3)[unfolded s] I B] believed_step[OF step(3)[unfolded s] _ B] by blast
qed

lemma rist_receiving_inv: "rist_receiving c base (ne, hi, log, now, r) \<Longrightarrow> \<exists>ds gs. rist_inv base ne hi ds gs log r"
  using rist_receiving_believed by blast

text \<open>
  C8. Arrivals less than half the number circle ahead of the front and not half of it behind the highest,
  arrivals beyond the gap ceiling, ticks and RTT samples in any order: a receiver delivers every position
  at most once and in increasing order, also where its 16-bit numbers wrap and across
  resynchronisations, and only positions that arrived; every position behind its front was delivered or
  reported given up, at most once, back to the last resynchronisation if there was one, whose three
  packets are delivered together. What waits in the buffer are the positions ahead of the front it
  took, and the numbers it tracks as missing are exactly the others up to the highest, those given up
  excepted.
\<close>

theorem rist_delivers_in_order:
  assumes "rist_receiving c base (ne, hi, log, now, r)"
  shows "\<exists>ds gs. rist_delivered log = map (rq base) ds \<and> sorted_wrt (<) ds \<and> set ds \<subseteq> rist_fed log \<inter> {0..<ne} \<and>
    rist_given_up log = map (rq base) gs \<and> distinct gs \<and> {last_resync log..<ne} \<subseteq> set ds \<union> set gs \<and>
    next_expected r = Some (rq base ne) \<and> ahead_set r = rq base ` {p \<in> rist_fed log. ne < p} \<and>
    set (map fst (missing r)) = rq base ` ({ne..hi} - rist_fed log - set gs)"
proof -
  obtain ds gs where "rist_inv base ne hi ds gs log r" using rist_receiving_inv[OF assms] by blast
  then show ?thesis unfolding rist_inv_def receiving_def
    by (intro exI[of _ ds] exI[of _ gs]) (simp add: dom_map_of_conv_image_fst)
qed

text \<open>
  C18. A jump beyond the gap ceiling is believed only when three consecutive numbers confirm it. In
  any state of a run, a packet beyond the ceiling is exactly one of two things. When the
  last two packets beyond the ceiling, since the highest number last moved, are its two direct predecessors
  in order, the three are delivered together, everything missing or buffered is dropped and the stream
  goes on after them. Otherwise it delivers nothing and changes nothing but the pending candidate.
\<close>

theorem rist_resync_needs_three:
  assumes "rist_receiving c base (ne, hi, log, now, r)" "hi + int (max_gap r) < p" "p \<le> hi + 32768"
  shows "rist_feed r (rq base p) t =
    (if take 2 (far_arrivals log) = [p - 1, p - 2]
     then (r\<lparr>pending_resync := None, missing := [], ahead_set := {}, highest_received := Some (rq base p),
             next_expected := Some (rq base (p + 1))\<rparr>, map (rq base) [p - 2, p - 1, p])
     else (r\<lparr>pending_resync := candidate base (p # far_arrivals log)\<rparr>, []))"
proof -
  obtain ds gs where "rist_inv base ne hi ds gs log r" and B: "believed base hi log r"
    using rist_receiving_believed[OF assms(1)] by blast
  then have "highest_received r = Some (rq base hi)" by (simp add: rist_inv_def receiving_def)
  from feed_far[OF B this assms(2,3)] show ?thesis .
qed

end
