(* ===== verification/Rist_Stall.thy ===== *)
theory Rist_Stall
  imports Rist_Receiver_Spec
begin

text \<open>
  How delivery of a RIST receiver can stop: a number given up before the front reaches it is tracked
  nowhere, and the receiver then waits for it without ever asking.
\<close>

section \<open>Operations\<close>

text \<open>
  Operations by their raw numbers, with any numbers and times, and what executing them delivers and
  requests.
\<close>

datatype RistOp = FeedOp u16 duration | TickOp duration | SampleOp duration

fun rist_op :: "RistReceiver \<Rightarrow> RistOp \<Rightarrow> (RistReceiver \<times> u16 list \<times> u16 list) option" where
  "rist_op r (FeedOp s t) = (let (r', out) = rist_feed r s t in Some (r', out, []))"
| "rist_op r (TickOp t) = map_option (\<lambda>(r', out). (r', tick_unblocked out, expand_ranges (tick_due out))) (rist_tick r t)"
| "rist_op r (SampleOp d) = Some (on_rtt_sample r d, [], [])"

fun rist_run :: "RistReceiver \<Rightarrow> RistOp list \<Rightarrow> (RistReceiver \<times> u16 list \<times> u16 list) option" where
  "rist_run r [] = Some (r, [], [])"
| "rist_run r (x # xs) = (case rist_op r x of None \<Rightarrow> None
     | Some (r1, d1, q1) \<Rightarrow> map_option (\<lambda>(r2, d2, q2). (r2, d1 @ d2, q1 @ q2)) (rist_run r1 xs))"

text \<open>
  What ends a wait for the number \<open>n\<close>: its arrival; an arrival beyond the ceiling that confirms a
  resynchronisation; an arrival within it that makes the highest number go past \<open>n\<close> anew, so that
  \<open>n\<close> is missing once more.
\<close>

definition confirms_resync :: "RistReceiver \<Rightarrow> u16 \<Rightarrow> u16 \<Rightarrow> bool" where
  "confirms_resync r h s \<longleftrightarrow> max_gap r < nat (rist_seq_diff s h) \<and>
     (case pending_resync r of None \<Rightarrow> False | Some c \<Rightarrow> next_needed c = s \<and> RESYNC_CONFIRM_COUNT \<le> resync_count c + 1)"

definition goes_past :: "RistReceiver \<Rightarrow> u16 \<Rightarrow> u16 \<Rightarrow> u16 \<Rightarrow> bool" where
  "goes_past r h s n \<longleftrightarrow> rist_seq_gt s h \<and> nat (rist_seq_diff s h) \<le> max_gap r \<and> uint (n - rist_seq_next h) < uint (s - rist_seq_next h)"

fun ends_wait :: "u16 \<Rightarrow> RistReceiver \<Rightarrow> RistOp \<Rightarrow> bool" where
  "ends_wait n r (FeedOp s t) \<longleftrightarrow> s = n \<or> (case highest_received r of None \<Rightarrow> True | Some h \<Rightarrow> confirms_resync r h s \<or> goes_past r h s n)"
| "ends_wait n r _ \<longleftrightarrow> False"

fun waits_on :: "u16 \<Rightarrow> RistReceiver \<Rightarrow> RistOp list \<Rightarrow> bool" where
  "waits_on n r [] \<longleftrightarrow> True"
| "waits_on n r (x # xs) \<longleftrightarrow> \<not> ends_wait n r x \<and> (case rist_op r x of None \<Rightarrow> True | Some (r', _) \<Rightarrow> waits_on n r' xs)"

text \<open>The receiver waits for \<open>n\<close>, which it has forgotten.\<close>

definition forgotten :: "u16 \<Rightarrow> RistReceiver \<Rightarrow> bool" where
  "forgotten n r \<longleftrightarrow> next_expected r = Some n \<and> n \<notin> ahead_set r \<and> n \<notin> fst ` set (missing r)"

lemma word_pos: "x \<noteq> 0 \<Longrightarrow> 0 < uint (x :: u16)"
  by (simp add: word_neq_0_conv word_less_def)

lemma uint_pred: "x \<noteq> 0 \<Longrightarrow> uint (x - 1 :: u16) = uint x - 1"
  using unat_minus_one[of x] word_pos[of x] unfolding uint_nat by linarith

lemma keys_fill_gap: "n \<in> fst ` set (fill_gap s stop t m) \<Longrightarrow> n \<in> fst ` set m \<or> uint (n - s) < uint (stop - s)"
proof (induction s stop t m rule: fill_gap.induct)
  case (1 s stop t m)
  show ?case
  proof (cases "s = stop \<or> n = s")
    case True
    moreover have "fill_gap s stop t m = m" if "s = stop" by (subst fill_gap.simps) (simp add: that)
    ultimately show ?thesis using 1(2) word_pos[of "stop - s"] by (cases "s = stop") auto
  next
    case False
    have less: "uint (x - rist_seq_next s) = uint (x - s) - 1" if "x \<noteq> s" for x
    proof -
      have "x - rist_seq_next s = (x - s) - 1" "x - s \<noteq> 0" using that by (simp_all add: rist_seq_next_def rist_seq_add_def)
      then show ?thesis using uint_pred[of "x - s"] by metis
    qed
    have "n \<in> fst ` set (fill_gap (rist_seq_next s) stop t (or_insert s (newly_missing t) m))"
      using 1(2) False by (simp add: fill_gap.simps[of s])
    from 1(1)[OF _ this] False show ?thesis using less[of n] less[of stop] by (auto simp: keys_or_insert)
  qed
qed

lemma keys_delete: "fst ` set (AList.delete s m) = fst ` set m - {s}"
  by (auto simp: AList.delete_eq image_iff)

lemma arrive_forgotten:
  assumes "forgotten n r" "s \<noteq> n"
  shows "forgotten n (fst (arrive r s)) \<and> snd (arrive r s) = []"
  using assms by (auto simp: forgotten_def arrive_def Let_def keys_delete)

lemma feed_forgotten:
  assumes F: "forgotten n r" and E: "\<not> ends_wait n r (FeedOp s t)"
  shows "forgotten n (fst (rist_feed r s t)) \<and> snd (rist_feed r s t) = []"
proof -
  from E obtain h where h: "highest_received r = Some h" "s \<noteq> n" "\<not> confirms_resync r h s" "\<not> goes_past r h s n"
    by (auto split: option.splits)
  consider "\<not> rist_seq_gt s h" | "rist_seq_gt s h" "max_gap r < nat (rist_seq_diff s h)"
    | "rist_seq_gt s h" "\<not> max_gap r < nat (rist_seq_diff s h)" by blast
  then show ?thesis
  proof cases
    case 1
    then show ?thesis using h(1) arrive_forgotten[OF F h(2)] by (simp add: rist_feed_def)
  next
    case 2
    then show ?thesis using h F
      by (auto simp: rist_feed_def feed_resync_candidate_def confirms_resync_def forgotten_def Let_def
          RESYNC_CONFIRM_COUNT_def split: option.splits)
  next
    case 3
    let ?r = "r\<lparr>pending_resync := None, missing := fill_gap (rist_seq_next h) s t (missing r), highest_received := Some s\<rparr>"
    have "forgotten n ?r" using F 3 h(4) keys_fill_gap[of n "rist_seq_next h" s t "missing r"]
      by (auto simp: forgotten_def goes_past_def)
    then show ?thesis using h(1) 3 arrive_forgotten[of n ?r, OF _ h(2)] by (simp add: rist_feed_def)
  qed
qed

text \<open>The ranges of a tick name only numbers that are due.\<close>

lemma run_end_within:
  "run_end e ss = (e', rest) \<Longrightarrow> set rest \<subseteq> set ss \<and> (\<exists>j. e' = e + of_nat j \<and> (\<forall>i \<le> j. e + of_nat i \<in> insert e (set ss)))"
proof (induction e ss rule: run_end.induct)
  case (1 e)
  then show ?case by (auto intro: exI[of _ 0])
next
  case (2 e s ss)
  show ?case
  proof (cases "s = rist_seq_next e")
    case False
    then show ?thesis using 2 by (auto intro: exI[of _ 0])
  next
    case True
    then have s: "s = e + 1" by (simp add: rist_seq_next_def rist_seq_add_def)
    obtain j where j: "set rest \<subseteq> set ss" "e' = s + of_nat j" "\<forall>i \<le> j. s + of_nat i \<in> insert s (set ss)"
      using 2 True by auto
    have "e + of_nat i \<in> insert e (set (s # ss))" if "i \<le> Suc j" for i
      using j(3) that s by (cases i) (auto simp: add.assoc dest: spec[of _ "i - 1"])
    moreover have "e' = e + of_nat (Suc j)" using j(2) s by simp
    ultimately show ?thesis using j(1) by (intro conjI exI[of _ "Suc j"]) auto
  qed
qed

lemma set_run_from: "set (run_from k s) = {s + of_nat i | i. i < k}"
proof (induction k arbitrary: s)
  case (Suc k)
  have "{s + of_nat i | i. i < Suc k} = insert s {s + 1 + of_nat i | i. i < k}"
  proof (intro set_eqI iffI)
    fix x assume "x \<in> {s + of_nat i | i. i < Suc k}"
    then obtain i where "x = s + of_nat i" "i < Suc k" by blast
    then show "x \<in> insert s {s + 1 + of_nat i | i. i < k}" by (cases i) (auto simp: add.assoc)
  next
    fix x assume "x \<in> insert s {s + 1 + of_nat i | i. i < k}"
    then consider "x = s" | i where "x = s + 1 + of_nat i" "i < k" by blast
    then show "x \<in> {s + of_nat i | i. i < Suc k}"
    proof cases
      case 2
      then show ?thesis by (intro CollectI exI[of _ "Suc i"]) simp
    qed (auto intro: exI[of _ 0])
  qed
  then show ?case using Suc[of "s + 1"] by (simp add: rist_seq_next_def rist_seq_add_def)
qed simp

lemma expand_coalesce_within: "set (expand_ranges (take k (coalesce_ranges xs))) \<subseteq> set xs"
proof (induction xs arbitrary: k rule: coalesce_ranges.induct)
  case (2 s ss)
  obtain e rest where e: "run_end s ss = (e, rest)" by fastforce
  obtain j where j: "set rest \<subseteq> set ss" "e = s + of_nat j" "\<forall>i \<le> j. s + of_nat i \<in> insert s (set ss)"
    using run_end_within[OF e] by blast
  have "set (run_from (min (unat (e - s) + 1) MAX_RANGE_EXPANSION) s) \<subseteq> insert s (set ss)"
  proof -
    have "unat (e - s) \<le> j" unfolding j(2) by (simp add: unat_of_nat)
    then have "i \<le> j" if "i < min (unat (e - s) + 1) MAX_RANGE_EXPANSION" for i using that by simp
    then show ?thesis unfolding set_run_from using j(3) by blast
  qed
  moreover have "set (expand_ranges (take l (coalesce_ranges rest))) \<subseteq> insert s (set ss)" for l
    using 2[OF e[symmetric] refl, of l] j(1) by auto
  ultimately show ?case using e by (cases k) auto
qed simp

lemma tick_due_within: "set (expand_ranges (snd (tick_requests r t m ne))) \<subseteq> fst ` set m"
proof -
  have "set (expand_ranges (snd (tick_requests r t m ne))) \<subseteq> set (map fst (filter (\<lambda>(s, st). request_is_due (arq_config r) t st) m))"
    unfolding tick_requests_def Let_def cap_ranges_def using expand_coalesce_within by (fastforce simp del: set_map set_filter)
  then show ?thesis by auto
qed

lemma keys_kept: "fst ` set (kept_map r t) \<subseteq> fst ` set (missing r)" "set (given_up_now r t) \<subseteq> fst ` set (missing r)"
proof -
  have "fst ` set (promoted_map r t) = fst ` set (missing r)"
    using keys_promoted_map[of r t] by (metis set_map)
  then show "fst ` set (kept_map r t) \<subseteq> fst ` set (missing r)" "set (given_up_now r t) \<subseteq> fst ` set (missing r)"
    by (auto simp: kept_map_def given_up_now_def image_iff)
qed

lemma tick_forgotten:
  assumes F: "forgotten n r"
  shows "\<exists>r' out. rist_tick r t = Some (r', out) \<and> tick_unblocked out = [] \<and> n \<notin> set (expand_ranges (tick_due out)) \<and> forgotten n r'"
proof -
  have n: "next_expected r = Some n" "n \<notin> set (given_up_now r t)" "n \<notin> fst ` set (kept_map r t)"
    using F keys_kept[of r t] by (auto simp: forgotten_def)
  then have "skip_loop (set (given_up_now r t)) n (ahead_set r) [] = Some (n, ahead_set r, [])" by (simp add: skip_loop.simps)
  note tick = rist_tick_Some[OF n(1) this]
  let ?q = "tick_requests r t (kept_map r t) (Some n)"
  have "fst ` set (fst ?q) = fst ` set (kept_map r t)"
    using keys_tick_requests[of r t "kept_map r t" "Some n"] by (metis set_map)
  then show ?thesis unfolding tick using F n(3) tick_due_within[of r t "kept_map r t" "Some n"]
    by (auto simp: forgotten_def)
qed

lemma op_forgotten:
  assumes F: "forgotten n r" and E: "\<not> ends_wait n r x"
  shows "\<exists>r' q. rist_op r x = Some (r', [], q) \<and> n \<notin> set q \<and> forgotten n r'"
proof (cases x)
  case (FeedOp s t)
  then show ?thesis using feed_forgotten[OF F, of s t] E by (simp add: case_prod_unfold Let_def)
next
  case (TickOp t)
  then show ?thesis using tick_forgotten[OF F, of t] by auto
next
  case (SampleOp d)
  then show ?thesis using F by (simp add: forgotten_def on_rtt_sample_def)
qed

lemma run_forgotten:
  "forgotten n r \<Longrightarrow> waits_on n r xs \<Longrightarrow> \<exists>r' q. rist_run r xs = Some (r', [], q) \<and> n \<notin> set q \<and> forgotten n r'"
proof (induction xs arbitrary: r)
  case (Cons x xs)
  then obtain r1 q1 where 1: "rist_op r x = Some (r1, [], q1)" "n \<notin> set q1" "forgotten n r1"
    using op_forgotten[of n r x] by auto
  then obtain r2 q2 where "rist_run r1 xs = Some (r2, [], q2)" "n \<notin> set q2" "forgotten n r2"
    using Cons.IH[of r1] Cons.prems by auto
  then show ?case using 1 by simp
qed simp

text \<open>
  C6. Delivery can stop. When in a run the next number to deliver is not tracked as missing although
  higher ones arrived, the receiver never asks for it and never gives it up: whatever is called then (arrivals with
  any numbers, ticks at any times, RTT samples) every call returns, nothing is delivered and no tick
  requests that number. This lasts until its packet still arrives, until a resynchronisation is
  confirmed beyond the gap ceiling, or until the highest number has gone all the way round the 16-bit
  circle and past it again. A receiver reaches such a state by giving up a position behind the front
  before the front itself.
\<close>

theorem rist_delivery_stalls:
  assumes "rist_receiving c base (ne, hi, log, now, r)" "ne \<le> hi" "rq base ne \<notin> set (map fst (missing r))"
    and "waits_on (rq base ne) r xs"
  shows "\<exists>r' requested. rist_run r xs = Some (r', [], requested) \<and> rq base ne \<notin> set requested \<and> next_expected r' = Some (rq base ne)"
proof -
  obtain ds gs where "rist_inv base ne hi ds gs log r" using rist_receiving_inv[OF assms(1)] by blast
  then have R: "receiving base ne hi (rist_fed log) (set gs) r" by (simp add: rist_inv_def)
  have "rq base ne \<notin> rq base ` {p \<in> rist_fed log. ne < p}"
    using R rq_mem[of "{p \<in> rist_fed log. ne < p}" ne ne base] by (fastforce simp: receiving_def)
  then have "forgotten (rq base ne) r" using R assms(3) by (simp add: forgotten_def receiving_def)
  from run_forgotten[OF this assms(4)] show ?thesis by (auto simp: forgotten_def)
qed

end
