(* ===== verification/Rist_Timing.thy ===== *)
theory Rist_Timing
  imports Rist_Receiver_Spec
begin

text \<open>
  What a RIST receiver asks for and how long it holds delivery back: the count of requests of a
  position, and the order in which missing positions age when the RTT estimate does not change.
\<close>

section \<open>Requests\<close>

fun event_requests :: "RistEvent \<Rightarrow> u16 list list" where
  "event_requests (Ticked t) = [expand_ranges (tick_due t)]"
| "event_requests _ = []"

definition rist_requests :: "RistEvent list \<Rightarrow> u16 list list" where
  "rist_requests log = concat (map event_requests (rev log))"

lemma rist_requests_simps [simp]: "rist_requests [] = []" "rist_requests (e # log) = rist_requests log @ event_requests e"
  by (simp_all add: rist_requests_def)

definition asked :: "ArqConfig \<Rightarrow> u16 \<Rightarrow> int \<Rightarrow> int \<Rightarrow> RistEvent list \<Rightarrow> RistReceiver \<Rightarrow> int list list \<Rightarrow> bool" where
  "asked c base ne hi log r qss \<longleftrightarrow>
     arq_config r = c \<and> rist_requests log = map (map (rq base)) qss \<and> (\<forall>qs \<in> set qss. sorted_wrt (<) qs) \<and>
     (\<forall>p. count_list (concat qss) p \<le> max_retransmission_requests c) \<and> (\<forall>p > hi. count_list (concat qss) p = 0) \<and>
     (\<forall>p st. ne \<le> p \<longrightarrow> p \<le> hi \<longrightarrow> track base r p = Some st \<longrightarrow> requests_sent st = count_list (concat qss) p)"

lemma count_distinct: "distinct xs \<Longrightarrow> count_list xs x = (if x \<in> set xs then 1 else 0)"
  by (induction xs) auto

lemma promote_fields [simp]:
  "requests_sent (promote c rtt now st) = requests_sent st" "first_missing_at (promote c rtt now st) = first_missing_at st"
  by (simp_all add: promote_def)

lemma requested_fields [simp]:
  "requests_sent (requested c rtt now st) = requests_sent st + 1" "first_missing_at (requested c rtt now st) = first_missing_at st"
  "promoted_at (requested c rtt now st) = promoted_at st" "next_request_due (requested c rtt now st) = Some (now + request_delay rtt c False)"
  by (simp_all add: requested_def)

lemma asked_feed:
  assumes I: "rist_inv base ne hi ds gs log r" and Q: "asked c base ne hi log r qss"
    and p: "hi - 32767 < p" "p < ne + 32768" "p \<le> hi + int (max_gap r)" and feed: "rist_feed r (rq base p) t = (r', out)"
  shows "asked c base (front_after base ne r') (max hi p) (Fed p out # log) r' qss"
proof -
  obtain n where n: "front_after base ne r' = n" "ne \<le> n"
    "missing r' = AList.delete (rq base p) (if hi < p then fill_gap (rq base (hi + 1)) (rq base p) t (missing r) else missing r)"
    using inv_feed[OF I p feed] by blast
  have R: "receiving base ne hi (rist_fed log) (set gs) r" using I by (simp add: rist_inv_def)
  have "requests_sent st = count_list (concat qss) q" if q: "n \<le> q" "q \<le> max hi p" and "track base r' q = Some st" for q st
  proof -
    have "track base r' q = (if q = p then None else if q \<le> hi then track base r q else Some (newly_missing t))"
      using n(2) q by (intro track_feed[OF R p(1,2) n(3)]) simp_all
    then show ?thesis using that Q n(2) by (auto simp: asked_def newly_missing_def split: if_splits)
  qed
  moreover have "arq_config r' = arq_config r" using rist_feed_rtt[OF feed] by simp
  ultimately show ?thesis using Q n(1) by (auto simp: asked_def)
qed

lemma asked_tick:
  assumes I: "rist_inv base ne hi ds gs log r" and Q: "asked c base ne hi log r qss" and tick: "rist_tick r t = Some (r', out)"
  shows "\<exists>ps. asked c base (front_after base ne r') hi (Ticked out # log) r' (qss @ [ps]) \<and>
    length (tick_due out) \<le> MAX_RANGE_ENTRIES \<and> set (expand_ranges (tick_due out)) \<subseteq> set (map fst (missing r'))"
proof -
  have R: "receiving base ne hi (rist_fed log) (set gs) r" using I by (simp add: rist_inv_def)
  obtain n hs ps qs where n: "receiving base n hi (rist_fed log) (set gs \<union> set hs) r'" "ne \<le> n"
    and ps: "sorted_wrt (<) (ps @ qs)" "expand_ranges (tick_due out) = map (rq base) ps" "length (tick_due out) \<le> MAX_RANGE_ENTRIES"
    and due: "set (ps @ qs) = {p \<in> {n..hi} - rist_fed log - (set gs \<union> set hs). \<exists>st. track base r p = Some st \<and> request_is_due (arq_config r) t (promote_now r t st)}"
    and tr: "\<forall>p \<in> {n..hi} - rist_fed log - (set gs \<union> set hs). track base r' p =
      map_option (\<lambda>st. (if p \<in> set ps then requested (arq_config r) (rtt_estimate r) t else id) (promote_now r t st)) (track base r p)"
    using tick_positions[OF R tick] by blast
  have front: "front_after base ne r' = n" using R n by (intro receiving_front[OF n(1)]) (auto simp: receiving_def)
  have sub: "p \<in> {n..hi} - rist_fed log - (set gs \<union> set hs) \<and> (\<exists>st. track base r p = Some st \<and> request_is_due c t (promote_now r t st))"
    if "p \<in> set ps" for p
  proof -
    have "p \<in> set (ps @ qs)" using that by simp
    then show ?thesis unfolding due using Q by (simp add: asked_def)
  qed
  have count: "count_list ps p = (if p \<in> set ps then 1 else 0)" for p
    using ps(1) by (intro count_distinct) (simp add: sorted_wrt_append strict_sorted_iff)
  have "requests_sent st = count_list (concat (qss @ [ps])) p" if p: "n \<le> p" "p \<le> hi" "track base r' p = Some st" for p st
  proof -
    have "p \<in> {n..hi} - rist_fed log - (set gs \<union> set hs)" using tracked_iff[OF n(1) p(1,2)] p by auto
    with tr p obtain st0 where "track base r p = Some st0" "st = (if p \<in> set ps then requested (arq_config r) (rtt_estimate r) t else id) (promote_now r t st0)"
      by auto
    then show ?thesis using Q p n(2) by (auto simp: asked_def count)
  qed
  moreover have "count_list (concat (qss @ [ps])) p \<le> max_retransmission_requests c" for p
  proof (cases "p \<in> set ps")
    case True
    then obtain st where "track base r p = Some st" "request_is_due c t (promote_now r t st)" "n \<le> p" "p \<le> hi" using sub[OF True] by auto
    moreover from this have "requests_sent st = count_list (concat qss) p" using Q n(2) by (simp add: asked_def)
    ultimately have "count_list (concat qss) p < max_retransmission_requests c" by (simp add: request_is_due_def)
    then show ?thesis by (simp add: count)
  qed (use Q in \<open>simp add: asked_def count\<close>)
  moreover have "count_list (concat (qss @ [ps])) p = 0" if "hi < p" for p
    using that sub[of p] Q by (auto simp: asked_def count)
  moreover have "set (expand_ranges (tick_due out)) \<subseteq> set (map fst (missing r'))"
  proof -
    have "set (map fst (missing r')) = rq base ` ({n..hi} - rist_fed log - (set gs \<union> set hs))"
      using n(1) by (simp add: receiving_def dom_map_of_conv_image_fst)
    then show ?thesis unfolding ps(2) using sub by auto
  qed
  moreover have "sorted_wrt (<) ps" using ps(1) by (simp add: sorted_wrt_append)
  ultimately show ?thesis using Q ps(2,3) rist_tick_keeps[OF tick] front by (intro exI[of _ ps]) (auto simp: asked_def)
qed

lemma rist_asked:
  "rist_receiving c base (ne, hi, log, now, r) \<Longrightarrow> \<exists>qss. asked c base ne hi log r qss \<and>
    (\<forall>t. Ticked t \<in> set log \<longrightarrow> length (tick_due t) \<le> MAX_RANGE_ENTRIES) \<and>
    (\<forall>t l. log = Ticked t # l \<longrightarrow> set (expand_ranges (tick_due t)) \<subseteq> set (map fst (missing r)))"
proof (induction "(ne, hi, log, now, r)" arbitrary: ne hi log now r rule: rist_receiving.induct)
  case (start samples now r out)
  then show ?case using first_feed[OF start(1)] by (intro exI[of _ "[]"]) (auto simp: asked_def)
next
  case (step s)
  obtain ne0 hi0 log0 now0 r0 where s: "s = (ne0, hi0, log0, now0, r0)" by (cases s)
  from step(2)[OF s] obtain qss where Q: "asked c base ne0 hi0 log0 r0 qss"
    "\<forall>t. Ticked t \<in> set log0 \<longrightarrow> length (tick_due t) \<le> MAX_RANGE_ENTRIES" by blast
  obtain ds gs where I: "rist_inv base ne0 hi0 ds gs log0 r0" using rist_receiving_inv step(1) s by blast
  show ?case using step(3) unfolding s
  proof (cases rule: rist_step.cases)
    case (feed p out)
    then have "asked c base ne hi log r qss" using asked_feed[OF I Q(1)] by blast
    then show ?thesis using Q(2) feed by auto
  next
    case (stray p out)
    have "highest_received r0 = Some (rq base hi0)" using I by (simp add: rist_inv_def receiving_def)
    from feed_stray[OF this stray(5-8)] obtain x where "r = r0\<lparr>pending_resync := Some x\<rparr>" by blast
    then have "asked c base ne hi log r qss" using Q(1) stray by (simp add: asked_def)
    then show ?thesis using Q(2) stray by auto
  next
    case (resync out)
    have "arq_config r = arq_config r0" using rist_feed_rtt[OF resync(6)] by simp
    then have "asked c base ne hi log r qss" using Q(1) resync by (auto simp: asked_def)
    then show ?thesis using Q(2) resync by auto
  next
    case (tick out)
    then show ?thesis using asked_tick[OF I Q(1) tick(5)] Q(2) by auto
  next
    case (sample x)
    then have "asked c base ne hi log r qss" using Q(1) by (simp add: asked_def on_rtt_sample_def)
    then show ?thesis using Q(2) sample by auto
  qed
qed


end
