(* ===== verification/Rist_Steady.thy ===== *)
theory Rist_Steady
  imports Rist_Timing
begin

text \<open>
  A RIST receiver whose RTT estimate does not change: missing positions age in the order of the stream,
  so they are given up front first, and two ticks, one after the reorder section and one after the
  reassembly budget, release everything the buffer holds.
\<close>

section \<open>The order in which missing positions age\<close>

text \<open>The entry of one missing position at time \<open>now\<close>, and of two of them, the first ahead in the stream.\<close>

definition aging :: "ArqConfig \<Rightarrow> duration option \<Rightarrow> duration \<Rightarrow> MissingState \<Rightarrow> bool" where
  "aging c E now st \<longleftrightarrow> first_missing_at st \<le> now \<and> (promoted_at st = None \<longrightarrow> requests_sent st = 0) \<and>
     (\<forall>t. promoted_at st = Some t \<longrightarrow> t \<le> now \<and> (\<exists>d. next_request_due st = Some d \<and> d \<le> now + request_delay E c False \<and>
        (requests_sent st = 0 \<longrightarrow> d = t + request_delay E c True)))"

definition older :: "MissingState \<Rightarrow> MissingState \<Rightarrow> bool" where
  "older p q \<longleftrightarrow> first_missing_at p \<le> first_missing_at q \<and> requests_sent q \<le> requests_sent p \<and>
     (\<forall>t. promoted_at q = Some t \<longrightarrow> (\<exists>u. promoted_at p = Some u \<and> u \<le> t) \<and>
        (requests_sent p = requests_sent q \<longrightarrow> the (next_request_due p) \<le> the (next_request_due q)))"

lemma aging_later: "aging c E now st \<Longrightarrow> now \<le> t \<Longrightarrow> aging c E t st"
  unfolding aging_def by (meson add_le_mono1 le_trans)

lemma aging_new: "aging c E t (newly_missing t)"
  by (simp add: aging_def newly_missing_def)

lemma older_new: "first_missing_at p \<le> t \<Longrightarrow> older p (newly_missing t)"
  by (simp add: older_def newly_missing_def)

lemma aging_promote:
  assumes "aging c E now st" "request_delay E c True \<le> request_delay E c False"
  shows "aging c E now (promote c E now st)"
  using assms by (auto simp: aging_def promote_def ripe_def)

lemma aging_requested: "aging c E now st \<Longrightarrow> promoted_at st \<noteq> None \<Longrightarrow> aging c E now (requested c E now st)"
  by (auto simp: aging_def requested_def)

lemma older_promote:
  assumes o: "older p q" and a: "aging c E now p" "aging c E now q"
  shows "older (promote c E now p) (promote c E now q)"
proof (cases "promoted_at q")
  case (Some t)
  then show ?thesis using o by (auto simp: older_def promote_def ripe_def)
next
  case None
  then have rq0: "requests_sent q = 0" using a(2) by (simp add: aging_def)
  show ?thesis
  proof (cases "ripe c now q")
    case False
    then show ?thesis using o None by (auto simp: older_def promote_def ripe_def)
  next
    case True
    then have fm: "reorder_section c \<le> now - first_missing_at p"
      using o by (auto simp: ripe_def older_def)
    show ?thesis
    proof (cases "promoted_at p")
      case None
      then have "ripe c now p" "requests_sent p = 0" using fm a(1) by (auto simp: ripe_def aging_def)
      then show ?thesis using o True by (auto simp: older_def promote_def)
    next
      case (Some u)
      then have "\<not> ripe c now p" by (simp add: ripe_def)
      then show ?thesis using o True Some a(1) rq0 by (auto simp: older_def promote_def aging_def)
    qed
  qed
qed

lemma older_exhausted: "older p q \<Longrightarrow> exhausted c now q \<Longrightarrow> exhausted c now p"
  by (fastforce simp: older_def exhausted_def split: option.splits)

text \<open>A request of the younger position alone: the older one is not due yet, so it was asked for more often.\<close>

lemma older_requested_one:
  assumes o: "older p q" and a: "aging c E now p" and q: "request_is_due c now q" and p: "\<not> request_is_due c now p" "\<not> exhausted c now p"
  shows "older p (requested c E now q)"
proof -
  obtain t d where t: "promoted_at q = Some t" "next_request_due q = Some d" "d \<le> now"
    using q by (auto simp: request_is_due_def split: option.splits)
  obtain u where u: "promoted_at p = Some u" "u \<le> t" using o t(1) by (auto simp: older_def)
  obtain e where e: "next_request_due p = Some e" "e \<le> now + request_delay E c False" using a u(1) by (auto simp: aging_def)
  have "now < e" using p u(1) e(1) by (auto simp: request_is_due_def exhausted_def)
  then have "requests_sent p \<noteq> requests_sent q" using o t e(1) by (auto simp: older_def)
  then have "requests_sent q < requests_sent p" using o by (simp add: older_def)
  then show ?thesis using o t u e by (auto simp: older_def)
qed

lemma older_requested_both: "older p q \<Longrightarrow> older (requested c E now p) (requested c E now q)"
  by (auto simp: older_def)

lemma older_requested_first:
  "older p q \<Longrightarrow> older (requested c E now p) q"
  by (auto simp: older_def)

section \<open>Runs with one RTT estimate\<close>

definition steady_rtt :: "ArqConfig \<Rightarrow> duration option \<Rightarrow> u16 \<Rightarrow> int \<Rightarrow> int \<Rightarrow> int set \<Rightarrow> duration \<Rightarrow> RistReceiver \<Rightarrow> bool" where
  "steady_rtt c E base ne hi G now r \<longleftrightarrow> arq_config r = c \<and> rtt_estimate r = E \<and> (\<forall>g \<in> G. g < ne) \<and>
     (\<forall>p st. ne \<le> p \<longrightarrow> p \<le> hi \<longrightarrow> track base r p = Some st \<longrightarrow> aging c E now st) \<and>
     (\<forall>p q sp sq. ne \<le> p \<longrightarrow> p < q \<longrightarrow> q \<le> hi \<longrightarrow> track base r p = Some sp \<longrightarrow> track base r q = Some sq \<longrightarrow> older sp sq)"

lemma steadyD:
  assumes "steady_rtt c E base ne hi G now r" "ne \<le> p" "p \<le> hi" "track base r p = Some st"
  shows "aging c E now st"
  using assms unfolding steady_rtt_def by blast

lemma steady_olderD:
  assumes "steady_rtt c E base ne hi G now r" "ne \<le> p" "p < q" "q \<le> hi" "track base r p = Some sp" "track base r q = Some sq"
  shows "older sp sq"
  using assms unfolding steady_rtt_def by blast

lemma steady_feed:
  assumes R: "receiving base ne hi A G r" and S: "steady_rtt c E base ne hi G now r" and t: "now \<le> t"
    and p: "hi - 32767 < p" "p < ne + 32768" and n: "ne \<le> n"
    and m: "missing r' = AList.delete (rq base p) (if hi < p then fill_gap (rq base (hi + 1)) (rq base p) t (missing r) else missing r)"
    and cfg: "arq_config r' = arq_config r \<and> rist_rtt r' = rist_rtt r"
  shows "steady_rtt c E base n (max hi p) G t r'"
proof -
  have tr: "track base r' q = (if q = p then None else if q \<le> hi then track base r q else Some (newly_missing t))"
    if "n \<le> q" "q \<le> max hi p" for q
    using that n by (intro track_feed[OF R p m]) simp_all
  have "aging c E t st" if "n \<le> q" "q \<le> max hi p" "track base r' q = Some st" for q st
    using that(3) tr[OF that(1,2)] steadyD[OF S, of q st] n that(1) t aging_new
    by (auto intro: aging_later split: if_splits)
  moreover have "older sa sb" if q: "n \<le> a" "a < b" "b \<le> max hi p" "track base r' a = Some sa" "track base r' b = Some sb" for a b sa sb
  proof -
    have "track base r' a = (if a = p then None else if a \<le> hi then track base r a else Some (newly_missing t))"
      "track base r' b = (if b = p then None else if b \<le> hi then track base r b else Some (newly_missing t))"
      using tr q by simp_all
    then consider "a \<le> hi" "b \<le> hi" "track base r a = Some sa" "track base r b = Some sb"
      | "a \<le> hi" "track base r a = Some sa" "sb = newly_missing t" | "sa = newly_missing t" "sb = newly_missing t"
      using q by (auto split: if_splits)
    then show ?thesis
    proof cases
      case 1
      then show ?thesis using steady_olderD[OF S, of a b sa sb] q(1,2) n by simp
    next
      case 2
      then have "aging c E now sa" using steadyD[OF S, of a sa] q(1) n by simp
      then show ?thesis using 2 t by (simp add: aging_def older_new)
    qed (simp add: older_def newly_missing_def)
  qed
  moreover have "\<forall>g \<in> G. g < n" using S n by (fastforce simp: steady_rtt_def)
  moreover have "arq_config r' = c" "rtt_estimate r' = E" using S cfg by (simp_all add: steady_rtt_def rtt_estimate_def)
  ultimately show ?thesis unfolding steady_rtt_def by blast
qed

text \<open>In a tick the requests are a prefix of what is due, in the order of the stream.\<close>

lemma prefix_requests:
  assumes "sorted_wrt (<) (ps @ qs)" "q \<in> set ps" "p < (q :: int)" "p \<in> set (ps @ qs)"
  shows "p \<in> set ps"
  using assms by (fastforce simp: sorted_wrt_append)

lemma steady_tick:
  assumes R: "receiving base ne hi A G r" and S: "steady_rtt c E base ne hi G now r" and t: "now \<le> t"
    and D: "request_delay E c True \<le> request_delay E c False" and tick: "rist_tick r t = Some (r', out)"
    and R': "receiving base n hi A (G \<union> set hs) r'" and n: "ne \<le> n" "{ne..<n} \<subseteq> A \<union> set hs" "n \<notin> set hs"
    and hs: "set hs = {p \<in> {ne..hi} - A - G. \<exists>st. track base r p = Some st \<and> exhausted (arq_config r) t (promote_now r t st)}"
    and ps: "sorted_wrt (<) (ps @ qs)"
      "set (ps @ qs) = {p \<in> {n..hi} - A - (G \<union> set hs). \<exists>st. track base r p = Some st \<and> request_is_due (arq_config r) t (promote_now r t st)}"
    and tr: "\<forall>p \<in> {n..hi} - A - (G \<union> set hs). track base r' p =
      map_option (\<lambda>st. (if p \<in> set ps then requested (arq_config r) (rtt_estimate r) t else id) (promote_now r t st)) (track base r p)"
  shows "steady_rtt c E base n hi (G \<union> set hs) t r'"
proof -
  have cE: "arq_config r = c" "rtt_estimate r = E" using S by (simp_all add: steady_rtt_def)
  let ?P = "promote c E t"
  have old: "aging c E t (?P st)" if "ne \<le> p" "p \<le> hi" "track base r p = Some st" for p st
    by (rule aging_promote[OF aging_later[OF steadyD[OF S that] t] D])
  have order: "older (?P sp) (?P sq)" if "ne \<le> p" "p < q" "q \<le> hi" "track base r p = Some sp" "track base r q = Some sq" for p q sp sq
    using that by (intro older_promote steady_olderD[OF S that] aging_later[OF steadyD[OF S] t]) simp_all
  have kept: "\<exists>st. track base r p = Some st \<and> \<not> exhausted c t (?P st) \<and> p \<notin> A \<and> p \<notin> G \<union> set hs \<and>
      s = (if p \<in> set ps then requested c E t (?P st) else ?P st)" if p: "n \<le> p" "p \<le> hi" "track base r' p = Some s" for p s
  proof -
    have "p \<in> {n..hi} - A - (G \<union> set hs)" using tracked_iff[OF R' p(1,2)] p by auto
    moreover from this tr p obtain st where "track base r p = Some st" "s = (if p \<in> set ps then requested c E t (?P st) else ?P st)"
      by (auto simp: cE)
    ultimately show ?thesis using n(1) unfolding hs cE by auto
  qed
  have due: "promoted_at (?P st) \<noteq> None" if "p \<in> set ps" "track base r p = Some st" for p st
  proof -
    have "p \<in> set (ps @ qs)" using that by simp
    then show ?thesis unfolding ps(2) using that(2) by (auto simp: request_is_due_def cE)
  qed
  have "aging c E t s" if p: "n \<le> p" "p \<le> hi" "track base r' p = Some s" for p s
  proof -
    obtain st where st: "track base r p = Some st" "s = (if p \<in> set ps then requested c E t (?P st) else ?P st)"
      using kept[OF p] by blast
    have "aging c E t (?P st)" using old[of p st] st(1) n(1) p by simp
    then show ?thesis using due[of p st] st by (auto intro: aging_requested simp del: not_None_eq)
  qed
  moreover have "older sp sq" if p: "n \<le> p" "p < q" "q \<le> hi" "track base r' p = Some sp" "track base r' q = Some sq" for p q sp sq
  proof -
    obtain a b where a: "track base r p = Some a" "\<not> exhausted c t (?P a)" "p \<notin> A" "p \<notin> G \<union> set hs"
        "sp = (if p \<in> set ps then requested c E t (?P a) else ?P a)"
      and b: "track base r q = Some b" "sq = (if q \<in> set ps then requested c E t (?P b) else ?P b)"
      using kept[of p sp] kept[of q sq] p by auto
    have o: "older (?P a) (?P b)" using order[of p q a b] a(1) b(1) p n(1) by simp
    show ?thesis
    proof (cases "p \<in> set ps \<or> q \<notin> set ps")
      case True
      then show ?thesis using o unfolding a(5) b(2) by (auto intro: older_requested_both older_requested_first)
    next
      case False
      then have "q \<in> set (ps @ qs)" by simp
      then have "request_is_due c t (?P b)" using b(1) unfolding ps(2) cE by auto
      moreover have "p \<notin> set (ps @ qs)" using prefix_requests[OF ps(1) _ p(2)] False by blast
      then have "\<not> request_is_due c t (?P a)" using a p(1-3) unfolding ps(2) cE by auto
      ultimately show ?thesis using False a(2) o old[of p a] a(1) p n(1) unfolding a(5) b(2)
        by (auto intro: older_requested_one)
    qed
  qed
  moreover have "g < n" if g: "g \<in> G \<union> set hs" for g
  proof (rule ccontr)
    assume "\<not> g < n"
    have "\<forall>g \<in> G. g < ne" using S by (simp add: steady_rtt_def)
    then have Gn: "n \<notin> G" "g \<notin> G" using n(1) \<open>\<not> g < n\<close> by fastforce+
    then have gh: "g \<in> set hs" using g by simp
    then obtain sg where sg: "track base r g = Some sg" "exhausted c t (?P sg)" "g \<le> hi" unfolding hs cE by auto
    then have "n < g" using n(3) gh \<open>\<not> g < n\<close> by (cases "n = g") auto
    have "n \<notin> A" using R' by (simp add: receiving_def)
    then obtain sn where sn: "track base r n = Some sn"
      using tracked_iff[OF R n(1)] Gn \<open>n < g\<close> sg(3) by fastforce
    have "exhausted c t (?P sn)"
      using older_exhausted[OF order[OF n(1) \<open>n < g\<close> sg(3) sn sg(1)] sg(2)] .
    then have "n \<in> set hs" unfolding hs cE using n(1) \<open>n < g\<close> sg(3) sn Gn \<open>n \<notin> A\<close> by auto
    then show False using n(3) by simp
  qed
  moreover have "rtt_estimate r' = E" "arq_config r' = c" using rist_tick_keeps[OF tick] cE by (simp_all add: rtt_estimate_def)
  ultimately show ?thesis unfolding steady_rtt_def by blast
qed

text \<open>
  Configured delays in whole microseconds, far below the saturation of the 64-bit scaling: then a retry
  waits at least as long as a first request.
\<close>

definition whole_us :: "ArqConfig \<Rightarrow> bool" where
  "whole_us c \<longleftrightarrow> recovery_rtt_min c mod 1000 = 0 \<and> recovery_rtt_max c mod 1000 = 0 \<and>
     recovery_rtt_min c \<le> recovery_rtt_max c \<and> recovery_rtt_max c \<le> from_micros (U64_MAX div 11)"

lemma scale_1_1_us:
  assumes "k \<le> U64_MAX div 11"
  shows "from_micros k \<le> scale_1_1 (from_micros k)"
proof -
  have "k * 11 \<le> U64_MAX" using assms by (simp add: U64_MAX_def)
  then have "min (min k U64_MAX * 11) U64_MAX = k * 11" by simp
  then have "scale_1_1 (from_micros k) = from_micros (k * 11 div 10)"
    by (simp add: scale_1_1_def as_micros_def from_micros_def Let_def)
  moreover have "k \<le> k * 11 div 10" by simp
  ultimately show ?thesis by (simp add: from_micros_def)
qed

lemma whole_us_delay:
  assumes "whole_us c"
  shows "request_delay (rtt_estimate r) c True \<le> request_delay (rtt_estimate r) c False"
proof (cases "eight_times_us (rist_rtt r)")
  case (Some acc)
  obtain a b where ab: "recovery_rtt_min c = from_micros a" "recovery_rtt_max c = from_micros b" "a \<le> b" "b \<le> U64_MAX div 11"
  proof
    show "recovery_rtt_min c = from_micros (recovery_rtt_min c div 1000)" "recovery_rtt_max c = from_micros (recovery_rtt_max c div 1000)"
      using assms by (auto simp: whole_us_def from_micros_def)
    show "recovery_rtt_min c div 1000 \<le> recovery_rtt_max c div 1000" using assms by (simp add: whole_us_def div_le_mono)
    have "recovery_rtt_max c div 1000 \<le> from_micros (U64_MAX div 11) div 1000" using assms by (intro div_le_mono) (simp add: whole_us_def)
    then show "recovery_rtt_max c div 1000 \<le> U64_MAX div 11" by (simp add: from_micros_def)
  qed
  have "clamp_to (from_micros a) (from_micros b) (from_micros k) = from_micros (clamp_to a b k)" for k
    by (simp add: clamp_to_def from_micros_def)
  moreover have "clamp_to a b (acc div 8) \<le> U64_MAX div 11" using ab by (simp add: clamp_to_def)
  ultimately show ?thesis using Some ab scale_1_1_us
    by (simp add: request_delay_def rtt_estimate_def RistRtt_smoothed_def Let_def)
qed (simp add: request_delay_def rtt_estimate_def RistRtt_smoothed_def)

section \<open>Release of the buffer\<close>

lemma steady_start:
  assumes "rist_feed (fold (\<lambda>s r. on_rtt_sample r s) samples (RistReceiver_new c)) base now = (r, out)"
  shows "front_after base 0 r = 1 \<and> receiving base 1 0 {0} {} r \<and> steady_rtt c (rtt_estimate r) base 1 0 {} now r"
  using first_feed[OF assms] receiving_front[of base 1 0 "{0}" "{}" r 0] by (auto simp: steady_rtt_def)

lemma steady_step:
  assumes step: "rist_step base (ne, hi, log, now, r) (ne', hi', e # log, now', r')" and e: "\<forall>s. e \<noteq> Sampled s"
    and R: "receiving base ne hi (rist_fed log) G r" and S: "steady_rtt c E base ne hi G now r"
    and D: "request_delay E c True \<le> request_delay E c False"
  shows "\<exists>G'. receiving base ne' hi' (rist_fed (e # log)) G' r' \<and> steady_rtt c E base ne' hi' G' now' r'"
  using step
proof (cases rule: rist_step.cases)
  case (feed p out)
  have "\<forall>g \<in> G. g \<le> hi" using S R by (fastforce simp: steady_rtt_def receiving_def)
  then obtain n where n: "ne \<le> n" "receiving base n (max hi p) (insert p (rist_fed log)) G r'"
    "missing r' = AList.delete (rq base p) (if hi < p then fill_gap (rq base (hi + 1)) (rq base p) now' (missing r) else missing r)"
    using feed_receiving[OF R, of p now'] feed by auto
  have "front_after base ne r' = n" using R n(1) feed by (intro receiving_front[OF n(2)]) (auto simp: receiving_def)
  moreover have "steady_rtt c E base n (max hi p) G now' r'"
    using steady_feed[OF R S _ _ _ n(1,3) rist_feed_rtt] feed by blast
  ultimately show ?thesis using n(2) feed by auto
next
  case (stray p out)
  have "highest_received r = Some (rq base hi)" using R by (simp add: receiving_def)
  from feed_stray[OF this stray(5-8)] obtain x where r': "r' = r\<lparr>pending_resync := Some x\<rparr>" by blast
  have "steady_rtt c E base ne hi G now' r'" using S stray(4) unfolding steady_rtt_def r'
    by (auto simp: rtt_estimate_def intro: aging_later)
  moreover have "receiving base ne hi (rist_fed (e # log)) G r'" using R stray unfolding r' by (simp add: receiving_def)
  ultimately show ?thesis using stray by blast
next
  case (resync out)
  have high: "highest_received r = Some (rq base hi)" and le: "ne \<le> hi + 1" using R by (simp_all add: receiving_def)
  have p: "hi < hi'" using resync(4) by simp
  have "receiving base (hi' + 1) hi' (event_fed e \<union> rist_fed log) G r'"
    using p resync(2) by (intro jump_receiving[OF R p _ feed_jump[OF high resync(4-7)]]) auto
  moreover have "\<forall>g \<in> G. g < hi' + 1" using S le p by (fastforce simp: steady_rtt_def)
  then have "steady_rtt c E base (hi' + 1) hi' G now' r'"
    using S rist_feed_rtt[OF resync(6)] by (auto simp: steady_rtt_def rtt_estimate_def)
  ultimately show ?thesis using resync(1) by auto
next
  case (tick out)
  obtain n hs ps qs where n: "receiving base n hi (rist_fed log) (G \<union> set hs) r'" "ne \<le> n" "{ne..<n} \<subseteq> rist_fed log \<union> set hs" "n \<notin> set hs"
    and rest: "set hs = {p \<in> {ne..hi} - rist_fed log - G. \<exists>st. track base r p = Some st \<and> exhausted (arq_config r) now' (promote_now r now' st)}"
    "sorted_wrt (<) (ps @ qs)"
    "set (ps @ qs) = {p \<in> {n..hi} - rist_fed log - (G \<union> set hs). \<exists>st. track base r p = Some st \<and> request_is_due (arq_config r) now' (promote_now r now' st)}"
    "\<forall>p \<in> {n..hi} - rist_fed log - (G \<union> set hs). track base r' p =
      map_option (\<lambda>st. (if p \<in> set ps then requested (arq_config r) (rtt_estimate r) now' else id) (promote_now r now' st)) (track base r p)"
    using tick_positions[OF R tick(5)] by (elim exE conjE) (rule that)
  have "front_after base ne r' = n" using R n(2) by (intro receiving_front[OF n(1)]) (auto simp: receiving_def)
  moreover have "steady_rtt c E base n hi (G \<union> set hs) now' r'"
    by (rule steady_tick[OF R S tick(4) D tick(5) n rest])
  ultimately show ?thesis using n(1) tick by auto
qed (use e in simp)

lemma rist_steady:
  "rist_receiving c base (ne, hi, log, now, r) \<Longrightarrow> \<forall>s. Sampled s \<notin> set log \<Longrightarrow> whole_us c \<Longrightarrow>
    \<exists>G. receiving base ne hi (rist_fed log) G r \<and> steady_rtt c (rtt_estimate r) base ne hi G now r"
proof (induction "(ne, hi, log, now, r)" arbitrary: ne hi log now r rule: rist_receiving.induct)
  case (start samples now r out)
  then show ?case using steady_start[OF start(1)] by (intro exI[of _ "{}"]) simp
next
  case (step s)
  obtain ne0 hi0 log0 now0 r0 where s: "s = (ne0, hi0, log0, now0, r0)" by (cases s)
  obtain e where e: "log = e # log0" using step(3) unfolding s by (elim rist_stepE) auto
  obtain G where G: "receiving base ne0 hi0 (rist_fed log0) G r0" "steady_rtt c (rtt_estimate r0) base ne0 hi0 G now0 r0"
    using step(2)[OF s] step(4,5) e by auto
  obtain G' where G': "receiving base ne hi (rist_fed (e # log0)) G' r" "steady_rtt c (rtt_estimate r0) base ne hi G' now r"
    using steady_step[OF step(3)[unfolded s e] _ G whole_us_delay[OF step(5)]] step(4) e by auto
  then have "rtt_estimate r = rtt_estimate r0" by (simp add: steady_rtt_def)
  then show ?case using G' e by auto
qed

text \<open>After a tick at least the reorder section later every missing position is promoted.\<close>

lemma tick_promotes:
  assumes S: "steady_rtt c E base ne hi G now r" and t: "now + reorder_section c \<le> t"
    and p: "ne \<le> p" "p \<le> hi" "track base r p = Some st"
  shows "promoted_at (promote_now r t st) \<noteq> None"
proof -
  have "first_missing_at st \<le> now" using steadyD[OF S p] by (simp add: aging_def)
  then have "reorder_section c \<le> t - first_missing_at st" using t by simp
  then show ?thesis using S by (cases "promoted_at st") (simp_all add: steady_rtt_def promote_def ripe_def)
qed

lemma filter_upto_split: "a \<le> b \<Longrightarrow> b \<le> (c :: int) + 1 \<Longrightarrow> filter P [a..b - 1] @ filter P [b..c] = filter P [a..c]"
proof (cases "b \<le> c")
  case False
  assume "b \<le> c + 1"
  with False have "b = c + 1" by simp
  then show ?thesis by simp
qed (simp add: upto_split1[of a b c] flip: filter_append)

lemma tick_promotes_all:
  assumes R: "receiving base ne hi A G r" and S: "steady_rtt c E base ne hi G now r"
    and D: "request_delay E c True \<le> request_delay E c False" and t: "now + reorder_section c \<le> t"
  shows "\<exists>n G' r' out. rist_tick r t = Some (r', out) \<and> receiving base n hi A G' r' \<and> steady_rtt c E base n hi G' t r' \<and> ne \<le> n \<and>
    tick_unblocked out = map (rq base) (filter (\<lambda>p. p \<in> A) [ne..n - 1]) \<and>
    (\<forall>p st. n \<le> p \<longrightarrow> p \<le> hi \<longrightarrow> track base r' p = Some st \<longrightarrow> promoted_at st \<noteq> None)"
proof -
  obtain r' out where tick: "rist_tick r t = Some (r', out)" using tick_receiving[OF R, of t] by blast
  obtain n hs ps qs where n: "receiving base n hi A (G \<union> set hs) r'" "ne \<le> n" "{ne..<n} \<subseteq> A \<union> set hs" "n \<notin> set hs"
      "tick_unblocked out = map (rq base) (filter (\<lambda>p. p \<in> A) [ne..n - 1])"
    and rest: "set hs = {p \<in> {ne..hi} - A - G. \<exists>st. track base r p = Some st \<and> exhausted (arq_config r) t (promote_now r t st)}"
    "sorted_wrt (<) (ps @ qs)"
    "set (ps @ qs) = {p \<in> {n..hi} - A - (G \<union> set hs). \<exists>st. track base r p = Some st \<and> request_is_due (arq_config r) t (promote_now r t st)}"
    "\<forall>p \<in> {n..hi} - A - (G \<union> set hs). track base r' p =
      map_option (\<lambda>st. (if p \<in> set ps then requested (arq_config r) (rtt_estimate r) t else id) (promote_now r t st)) (track base r p)"
    using tick_positions[OF R tick] by (elim exE conjE) (rule that)
  have "steady_rtt c E base n hi (G \<union> set hs) t r'"
    using t by (intro steady_tick[OF R S _ D tick n(1-4) rest]) simp
  moreover have "promoted_at st \<noteq> None" if p: "n \<le> p" "p \<le> hi" "track base r' p = Some st" for p st
  proof -
    have "p \<in> {n..hi} - A - (G \<union> set hs)" using tracked_iff[OF n(1) p(1,2)] p by auto
    then have "map_option (\<lambda>st. (if p \<in> set ps then requested (arq_config r) (rtt_estimate r) t else id) (promote_now r t st)) (track base r p) = Some st"
      using rest(4) p(3) by metis
    then obtain st0 where "track base r p = Some st0"
      "st = (if p \<in> set ps then requested (arq_config r) (rtt_estimate r) t else id) (promote_now r t st0)"
      by (auto simp: map_option_eq_Some)
    then show ?thesis using tick_promotes[OF S t, of p st0] n(2) p(1,2) by auto
  qed
  ultimately show ?thesis using tick n(1,2,5) by blast
qed

text \<open>When all of them are promoted, a tick after the reassembly budget gives up every one.\<close>

lemma tick_releases:
  assumes R: "receiving base ne hi A G r" and S: "steady_rtt c E base ne hi G now r"
    and pr: "\<forall>p st. ne \<le> p \<longrightarrow> p \<le> hi \<longrightarrow> track base r p = Some st \<longrightarrow> promoted_at st \<noteq> None"
    and t: "now + scale_1_1 (reassembly_budget c) \<le> t"
  shows "\<exists>r' out. rist_tick r t = Some (r', out) \<and> tick_unblocked out = map (rq base) (filter (\<lambda>p. p \<in> A) [ne..hi]) \<and>
    next_expected r' = Some (rq base (hi + 1)) \<and> missing r' = [] \<and> ahead_set r' = {}"
proof -
  obtain r' out where tick: "rist_tick r t = Some (r', out)" using tick_receiving[OF R, of t] by blast
  obtain m hs where m: "receiving base m hi A (G \<union> set hs) r'" "ne \<le> m" "m \<notin> set hs"
      "tick_unblocked out = map (rq base) (filter (\<lambda>p. p \<in> A) [ne..m - 1])"
    and hs: "set hs = {p \<in> {ne..hi} - A - G. \<exists>st. track base r p = Some st \<and> exhausted (arq_config r) t (promote_now r t st)}"
    using tick_positions[OF R tick] by (elim exE conjE) (rule that)
  have cfg: "arq_config r = c" and front: "\<forall>g \<in> G. g < ne" using S by (simp_all add: steady_rtt_def)
  have "exhausted c t (promote_now r t st)" if p: "ne \<le> p" "p \<le> hi" "track base r p = Some st" for p st
  proof -
    obtain u where u: "promoted_at st = Some u" using pr p by blast
    then have "u \<le> now" using steadyD[OF S p] by (simp add: aging_def)
    then show ?thesis using u t by (auto simp: exhausted_def promote_def ripe_def)
  qed
  then have all: "p \<in> set hs" if "ne \<le> p" "p \<le> hi" "p \<notin> A" for p
    using that tracked_iff[OF R, of p] front unfolding hs cfg by force
  have m_hi: "m = hi + 1"
  proof (rule ccontr)
    assume "m \<noteq> hi + 1"
    then have "m \<le> hi" "m \<notin> A" using m(1) by (auto simp: receiving_def)
    then show False using all[OF m(2)] m(3) by blast
  qed
  have "missing r' = []" using m(1) unfolding m_hi receiving_def by (intro no_keys) simp
  moreover have "ahead_set r' = {}" "next_expected r' = Some (rq base (hi + 1))"
    using m(1) unfolding m_hi receiving_def by (fastforce, simp)
  ultimately show ?thesis using tick m(4) unfolding m_hi by simp
qed

text \<open>
  C5. The reassembly buffer always drains while the RTT estimate does not change: from any state of a
  run without RTT samples after its first arrival, one tick after the reorder section and another after
  the reassembly budget (with the 1.1 margin) hand over, in order, every position that arrived above the
  front and leave nothing missing and nothing buffered.
\<close>

theorem rist_drains_in_time:
  assumes run: "rist_receiving c base (ne, hi, log, now, r)" and "\<forall>s. Sampled s \<notin> set log" and "whole_us c"
    and t1: "now + reorder_section c \<le> t1" and t2: "t1 + scale_1_1 (reassembly_budget c) \<le> t2"
  shows "\<exists>r1 o1 r2 o2. rist_tick r t1 = Some (r1, o1) \<and> rist_tick r1 t2 = Some (r2, o2) \<and>
    tick_unblocked o1 @ tick_unblocked o2 = map (rq base) (filter (\<lambda>p. p \<in> rist_fed log) [ne..hi]) \<and>
    next_expected r2 = Some (rq base (hi + 1)) \<and> missing r2 = [] \<and> ahead_set r2 = {}"
proof -
  obtain G where R: "receiving base ne hi (rist_fed log) G r" and S: "steady_rtt c (rtt_estimate r) base ne hi G now r"
    using rist_steady[OF run assms(2,3)] by blast
  obtain n G1 r1 o1 where one: "rist_tick r t1 = Some (r1, o1)" "receiving base n hi (rist_fed log) G1 r1"
      "steady_rtt c (rtt_estimate r) base n hi G1 t1 r1" "ne \<le> n"
      "tick_unblocked o1 = map (rq base) (filter (\<lambda>p. p \<in> rist_fed log) [ne..n - 1])"
    and promoted: "\<forall>p st. n \<le> p \<longrightarrow> p \<le> hi \<longrightarrow> track base r1 p = Some st \<longrightarrow> promoted_at st \<noteq> None"
    using tick_promotes_all[OF R S whole_us_delay[OF assms(3)] t1] by blast
  obtain r2 o2 where two: "rist_tick r1 t2 = Some (r2, o2)" "tick_unblocked o2 = map (rq base) (filter (\<lambda>p. p \<in> rist_fed log) [n..hi])"
    "next_expected r2 = Some (rq base (hi + 1))" "missing r2 = []" "ahead_set r2 = {}"
    using tick_releases[OF one(2,3) promoted t2] by blast
  have "n \<le> hi + 1" using one(2) by (simp add: receiving_def)
  then have "tick_unblocked o1 @ tick_unblocked o2 = map (rq base) (filter (\<lambda>p. p \<in> rist_fed log) [ne..hi])"
    using filter_upto_split[OF one(4), of hi "\<lambda>p. p \<in> rist_fed log"] unfolding one(5) two(2) by (simp flip: map_append)
  then show ?thesis using one(1) two by blast
qed

end
