(* ===== verification/Rist_Sender_Spec.thy ===== *)
theory Rist_Sender_Spec
  imports Rist_Arq
begin

text \<open>
  What the RIST sender answers to a loss report: exactly the packets named that it still holds and
  has not resent within 20 ms, each once; and what that means over a whole run.
\<close>

section \<open>The candidate loop\<close>

definition eligible :: "(u16 \<times> RistSent) list \<Rightarrow> duration \<Rightarrow> (u16 \<times> duration) list \<Rightarrow> u16 \<Rightarrow> bool" where
  "eligible sent now last_rt s \<longleftrightarrow> map_of sent s \<noteq> None \<and>
     (case map_of last_rt s of None \<Rightarrow> True | Some t \<Rightarrow> MIN_RETRANSMIT_INTERVAL \<le> now - t)"

lemma resolve_loop_exact:
  assumes "resolve_loop sent n now cs seen out last_rt = (res, last_rt')"
    "distinct (map fst sent)" "length sent \<le> n" "distinct out" "set out \<subseteq> seen" "set out \<subseteq> fst ` set sent"
  shows "\<exists>new. res = rev out @ new \<and> distinct new \<and> set new = {s \<in> set cs. s \<notin> seen \<and> eligible sent now last_rt s} \<and>
    map_of last_rt' = (\<lambda>s. if s \<in> set new then Some now else map_of last_rt s)"
  using assms
proof (induction sent n now cs seen out last_rt arbitrary: res last_rt' rule: resolve_loop.induct)
  case (2 sent n now s cs seen out last_rt)
  let ?stale = "case map_of last_rt s of None \<Rightarrow> False | Some t \<Rightarrow> now - t < MIN_RETRANSMIT_INTERVAL"
  let ?new = "\<lambda>cs seen l. {q \<in> set cs. q \<notin> seen \<and> eligible sent now l q}"
  note p = "2.prems"
  have el: "eligible sent now last_rt s \<longleftrightarrow> map_of sent s \<noteq> None \<and> \<not> ?stale"
    by (auto simp: eligible_def not_less split: option.splits)
  show ?case
  proof (cases "n \<le> length out")
    case True
    have "card (set out) = length out" using p(4) by (rule distinct_card)
    moreover have "card (fst ` set sent) = length sent" using distinct_card[OF p(2)] by simp
    ultimately have "set out = fst ` set sent" using True p(3,6) by (intro card_seteq) simp_all
    then have "q \<in> seen" if "eligible sent now last_rt q" for q using p(5) that by (auto simp: eligible_def map_of_eq_None_iff)
    then have "?new (s # cs) seen last_rt = {}" by auto
    then show ?thesis using p(1) True by (intro exI[of _ "[]"]) simp
  next
    case room: False
    consider (old) "s \<in> seen" | (skip) "s \<notin> seen" "\<not> eligible sent now last_rt s" | (take) "s \<notin> seen" "eligible sent now last_rt s" by blast
    then show ?thesis
    proof cases
      case old
      have e: "?new (s # cs) seen last_rt = ?new cs seen last_rt" using old by auto
      show ?thesis unfolding e using "2.IH"(1)[OF room old _ p(2-6)] p(1) room old by simp
    next
      case skip
      have e: "?new (s # cs) seen last_rt = ?new cs (insert s seen) last_rt" using skip by auto
      have sub: "set out \<subseteq> insert s seen" using p(5) by blast
      show ?thesis unfolding e
      proof (cases "map_of sent s = None")
        case True
        show "\<exists>new. res = rev out @ new \<and> distinct new \<and> set new = ?new cs (insert s seen) last_rt \<and>
            map_of last_rt' = (\<lambda>s. if s \<in> set new then Some now else map_of last_rt s)"
          using "2.IH"(2)[OF room skip(1) True _ p(2-4) sub p(6)] p(1) room skip(1) True by simp
      next
        case False
        then have st: ?stale using skip(2) el by blast
        show "\<exists>new. res = rev out @ new \<and> distinct new \<and> set new = ?new cs (insert s seen) last_rt \<and>
            map_of last_rt' = (\<lambda>s. if s \<in> set new then Some now else map_of last_rt s)"
          using "2.IH"(3)[OF room skip(1) False st _ p(2-4) sub p(6)] p(1) room skip(1) False st by simp
      qed
    next
      case take
      then have k: "map_of sent s \<noteq> None" "\<not> ?stale" "s \<in> fst ` set sent" using el by (auto simp: map_of_eq_None_iff)
      let ?l = "AList.update s now last_rt"
      have "resolve_loop sent n now cs (insert s seen) (s # out) ?l = (res, last_rt')" using p(1) room take(1) k(1,2) by simp
      moreover have "distinct (s # out)" "set (s # out) \<subseteq> insert s seen" "set (s # out) \<subseteq> fst ` set sent"
        using p(4-6) take(1) k(3) by auto
      ultimately obtain new where new: "res = rev (s # out) @ new" "distinct new" "set new = ?new cs (insert s seen) ?l"
          "map_of last_rt' = (\<lambda>q. if q \<in> set new then Some now else map_of ?l q)"
        using "2.IH"(4)[OF room take(1) k(1,2) _ p(2,3)] by blast
      have "eligible sent now ?l q = eligible sent now last_rt q" if "q \<noteq> s" for q
        using that by (simp add: eligible_def update_conv')
      then have "set (s # new) = ?new (s # cs) seen last_rt" using new(3) take by auto
      moreover have "distinct (s # new)" using new(2,3) by auto
      moreover have "res = rev out @ (s # new)" using new(1) by simp
      moreover have "map_of last_rt' = (\<lambda>q. if q \<in> set (s # new) then Some now else map_of last_rt q)"
        unfolding new(4) by (auto simp: update_conv')
      ultimately show ?thesis by blast
    qed
  qed
qed auto

section \<open>The buffer\<close>

text \<open>The number of the packet at a position of the stream, and the packet as the sender stores it.\<close>

definition seqn :: "u16 \<Rightarrow> nat \<Rightarrow> u16" where
  "seqn base i = base + word_of_nat i"

lemma seqn_inject: "i < j + 65536 \<Longrightarrow> j < i + 65536 \<Longrightarrow> seqn base i = seqn base j \<longleftrightarrow> i = j"
proof
  assume r: "i < j + 65536" "j < i + 65536" and "seqn base i = seqn base j"
  then have "(of_nat i :: u16) = of_nat j" by (simp add: seqn_def)
  then have e: "i mod 65536 = j mod 65536" by (simp add: word_of_nat_eq_iff take_bit_eq_mod)
  then have "int (i mod 65536) = int (j mod 65536)" by (simp only:)
  then have "int i mod 65536 = int j mod 65536" by (simp only: of_nat_mod of_nat_numeral)
  then have "65536 dvd int i - int j" by (simp only: mod_eq_dvd_iff)
  then have "int i - int j = 0" using r by (intro dvd_small_zero[of 65536]) simp_all
  then show "i = j" by simp
qed simp

definition held_packet :: "u16 \<Rightarrow> (u32 \<times> bytes) list \<Rightarrow> nat \<Rightarrow> RistSent" where
  "held_packet base ps i = \<lparr>rs_sent_seq = seqn base i, rs_sent_timestamp = fst (ps ! i), rs_sent_payload = snd (ps ! i)\<rparr>"

definition resent_packet :: "u16 \<Rightarrow> (u32 \<times> bytes) list \<Rightarrow> nat \<Rightarrow> Retransmission" where
  "resent_packet base ps i = \<lparr>rt_seq = seqn base i, rt_timestamp = fst (ps ! i), rt_payload = snd (ps ! i)\<rparr>"

abbreviation held_from :: "nat \<Rightarrow> nat \<Rightarrow> nat list" where
  "held_from m n \<equiv> [n - m..<n]"

definition holds_stream :: "u16 \<Rightarrow> nat \<Rightarrow> (u32 \<times> bytes) list \<Rightarrow> RistSender \<Rightarrow> bool" where
  "holds_stream base m ps s \<longleftrightarrow> max_buffered s = m \<and> 1 \<le> m \<and> m \<le> 32767 \<and>
     sent_order s = map (seqn base) (held_from m (length ps)) \<and>
     by_seq s = map (\<lambda>i. (seqn base i, held_packet base ps i)) (held_from m (length ps)) \<and>
     fst ` set (last_retransmitted s) \<subseteq> seqn base ` set (held_from m (length ps))"

lemma seqn_inj_on: "m \<le> 32767 \<Longrightarrow> inj_on (seqn base) {n - m..n}"
  by (rule inj_onI) (auto simp: seqn_inject)

lemma update_fresh: "k \<notin> fst ` set al \<Longrightarrow> AList.update k v al = al @ [(k, v)]"
  by (induction al) auto

lemma delete_head: "\<forall>i \<in> set xs. f k \<noteq> f i \<Longrightarrow> AList.delete (f k) (map (\<lambda>i. (f i, g i)) (k # xs)) = map (\<lambda>i. (f i, g i)) xs"
  using AList.delete_id[of "f k" "map (\<lambda>i. (f i, g i)) xs"] by (simp add: image_image image_iff)

lemma evict_none: "length sent \<le> n \<Longrightarrow> evict n order sent l = (order, sent, l)"
  by (cases order) simp_all

lemma evict_one: "length sent = Suc n \<Longrightarrow> length (AList.delete k sent) = n \<Longrightarrow>
    evict n (k # order) sent l = (order, AList.delete k sent, AList.delete k l)"
  by (simp add: evict_none)

lemma on_sent_holds:
  assumes h: "holds_stream base m ps s" and s'_def: "s' = on_sent s (seqn base (length ps)) t p"
  shows "holds_stream base m (ps @ [(t, p)]) s' \<and> (i \<in> set (held_from m (length ps + 1)) \<longrightarrow>
       map_of (last_retransmitted s') (seqn base i) = (if i = length ps then None else map_of (last_retransmitted s) (seqn base i)))"
proof -
  let ?n = "length ps" and ?ps = "ps @ [(t, p)]" and ?l = "last_retransmitted s"
  note hd = h[unfolded holds_stream_def]
  have fresh: "seqn base ?n \<noteq> seqn base i" if "i \<in> set (held_from m ?n)" for i
    using that hd by (subst seqn_inject) auto
  have old: "held_packet base ?ps i = held_packet base ps i" if "i < ?n" for i
    using that by (simp add: held_packet_def nth_append)
  have b0: "by_seq s = map (\<lambda>i. (seqn base i, held_packet base ?ps i)) (held_from m ?n)"
    using hd old by simp
  have k: "seqn base ?n \<notin> fst ` set (by_seq s)" proof -
    have "fst ` set (by_seq s) = seqn base ` set (held_from m ?n)" unfolding b0 by (simp add: image_image del: set_upt)
    then show ?thesis using fresh by blast
  qed
  have hp: "held_packet base ?ps ?n = \<lparr>rs_sent_seq = seqn base ?n, rs_sent_timestamp = t, rs_sent_payload = p\<rparr>"
    by (simp add: held_packet_def)
  have up: "AList.update (seqn base ?n) \<lparr>rs_sent_seq = seqn base ?n, rs_sent_timestamp = t, rs_sent_payload = p\<rparr> (by_seq s) =
      map (\<lambda>i. (seqn base i, held_packet base ?ps i)) [?n - m..<?n + 1]"
    unfolding update_fresh[OF k] hp[symmetric] unfolding b0 by simp
  have od: "sent_order s @ [seqn base ?n] = map (seqn base) [?n - m..<?n + 1]" using hd by simp
  have kl: "seqn base ?n \<notin> fst ` set ?l" using fresh hd by force
  have dl: "AList.delete (seqn base ?n) ?l = ?l" by (rule AList.delete_id[OF kl])
  have ln: "map_of ?l (seqn base ?n) = None" using kl by (simp add: map_of_eq_None_iff)
  show ?thesis
  proof (cases "m \<le> ?n")
    case False
    then have ev: "evict m (map (seqn base) [?n - m..<?n + 1]) (map (\<lambda>i. (seqn base i, held_packet base ?ps i)) [?n - m..<?n + 1]) ?l =
        (map (seqn base) [?n - m..<?n + 1], map (\<lambda>i. (seqn base i, held_packet base ?ps i)) [?n - m..<?n + 1], ?l)"
      by (intro evict_none) simp
    have "s' = s\<lparr>by_seq := map (\<lambda>i. (seqn base i, held_packet base ?ps i)) [?n - m..<?n + 1],
        sent_order := map (seqn base) [?n - m..<?n + 1], last_retransmitted := ?l\<rparr>"
      unfolding s'_def on_sent_def Let_def up od dl using hd ev by simp
    then show ?thesis
      using hd False ln by (auto simp: holds_stream_def)
  next
    case True
    define k where "k = ?n - m"
    have w: "[?n - m..<?n + 1] = k # [?n + 1 - m..<?n + 1]" using True by (simp add: k_def upt_rec Suc_diff_le)
    have ne: "seqn base k \<noteq> seqn base i" if "i \<in> set [?n + 1 - m..<?n + 1]" for i
      using that True hd by (subst seqn_inject) (auto simp: k_def)
    have del: "AList.delete (seqn base k) (map (\<lambda>i. (seqn base i, held_packet base ?ps i)) [?n - m..<?n + 1]) =
        map (\<lambda>i. (seqn base i, held_packet base ?ps i)) [?n + 1 - m..<?n + 1]"
      unfolding w using ne by (intro delete_head) blast
    have ev: "evict m (map (seqn base) [?n - m..<?n + 1]) (map (\<lambda>i. (seqn base i, held_packet base ?ps i)) [?n - m..<?n + 1]) ?l =
        (map (seqn base) [?n + 1 - m..<?n + 1], map (\<lambda>i. (seqn base i, held_packet base ?ps i)) [?n + 1 - m..<?n + 1], AList.delete (seqn base k) ?l)"
    proof -
      let ?sent = "map (\<lambda>i. (seqn base i, held_packet base ?ps i)) [?n - m..<?n + 1]"
      have "length ?sent = Suc m" unfolding length_map length_upt using True by simp
      moreover have "length (AList.delete (seqn base k) ?sent) = m" unfolding del length_map length_upt using True by simp
      moreover have "map (seqn base) [?n - m..<?n + 1] = seqn base k # map (seqn base) [?n + 1 - m..<?n + 1]" by (simp only: w list.map(2))
      ultimately show ?thesis using evict_one by (simp only: del)
    qed
    have s': "s' = s\<lparr>by_seq := map (\<lambda>i. (seqn base i, held_packet base ?ps i)) [?n + 1 - m..<?n + 1],
        sent_order := map (seqn base) [?n + 1 - m..<?n + 1], last_retransmitted := AList.delete (seqn base k) ?l\<rparr>"
      unfolding s'_def on_sent_def Let_def up od dl using hd ev by simp
    have "fst ` set (AList.delete (seqn base k) ?l) \<subseteq> seqn base ` set (held_from m (?n + 1))"
    proof -
      have "fst ` set (AList.delete (seqn base k) ?l) \<subseteq> seqn base ` set (held_from m ?n) - {seqn base k}"
        using hd by (auto simp: AList.delete_eq)
      moreover have "set (held_from m ?n) \<subseteq> insert k (set (held_from m (?n + 1)))" using True by (auto simp: k_def)
      ultimately show ?thesis by blast
    qed
    moreover have "map_of (AList.delete (seqn base k) ?l) (seqn base i) = map_of ?l (seqn base i)" if "i \<in> set (held_from m (?n + 1))" for i
      using ne[of i] that by (simp add: AList.delete_conv')
    ultimately show ?thesis
      using hd ln by (simp add: holds_stream_def s')
  qed
qed

section \<open>Runs\<close>

text \<open>
  A run sends packets with consecutive numbers and answers loss reports at times that do not decrease.
  It records the packets sent and, for each retransmission, the position of the packet and the time.
\<close>

definition position_of :: "u16 \<Rightarrow> nat \<Rightarrow> u16 \<Rightarrow> nat" where
  "position_of base n q = n - 1 - unat (seqn base (n - 1) - q)"

lemma position_of_seqn:
  assumes "i < n" "n \<le> i + 32767"
  shows "position_of base n (seqn base i) = i"
proof -
  have "seqn base (n - 1) - seqn base i = word_of_nat (n - 1 - i)" using assms(1) by (simp add: seqn_def of_nat_diff)
  moreover have "unat (word_of_nat (n - 1 - i) :: u16) = n - 1 - i"
    unfolding unat_of_nat using assms by (intro mod_less) simp
  ultimately show ?thesis using assms(1) by (simp add: position_of_def)
qed

definition answer :: "u16 \<Rightarrow> nat \<Rightarrow> duration \<Rightarrow> Retransmission list \<Rightarrow> (nat \<times> duration) list" where
  "answer base n now out = map (\<lambda>r. (position_of base n (rt_seq r), now)) out"

inductive rist_sending :: "u16 \<Rightarrow> nat \<Rightarrow> (u32 \<times> bytes) list \<Rightarrow> (nat \<times> duration) list \<Rightarrow> duration \<Rightarrow> RistSender \<Rightarrow> bool" for base max_n where
  sending_new: "rist_sending base max_n [] [] 0 (RistSender_new max_n)"
| sending_sent: "rist_sending base max_n ps log now s \<Longrightarrow> s' = on_sent s (seqn base (length ps)) t p \<Longrightarrow>
    rist_sending base max_n (ps @ [(t, p)]) log now s'"
| sending_range: "rist_sending base max_n ps log now s \<Longrightarrow> now \<le> now' \<Longrightarrow> on_range_nack s nack now' = (s', out) \<Longrightarrow>
    rist_sending base max_n ps (log @ answer base (length ps) now' out) now' s'"
| sending_generic: "rist_sending base max_n ps log now s \<Longrightarrow> now \<le> now' \<Longrightarrow> on_generic_nack s gnack now' = (s', out) \<Longrightarrow>
    rist_sending base max_n ps (log @ answer base (length ps) now' out) now' s'"

text \<open>The time of the last retransmission of a position.\<close>

definition last_time :: "nat \<Rightarrow> (nat \<times> duration) list \<Rightarrow> duration option" where
  "last_time i log = map_of (rev log) i"

definition spaced :: "(nat \<times> duration) list \<Rightarrow> bool" where
  "spaced log \<longleftrightarrow> sorted_wrt (\<lambda>(i, t) (j, u). i = j \<longrightarrow> t + MIN_RETRANSMIT_INTERVAL \<le> u) log"

definition sender_inv :: "u16 \<Rightarrow> nat \<Rightarrow> (u32 \<times> bytes) list \<Rightarrow> (nat \<times> duration) list \<Rightarrow> duration \<Rightarrow> RistSender \<Rightarrow> bool" where
  "sender_inv base m ps log now s \<longleftrightarrow> holds_stream base m ps s \<and> spaced log \<and>
     (\<forall>(i, t) \<in> set log. i < length ps \<and> t \<le> now) \<and>
     (\<forall>i \<in> set (held_from m (length ps)). map_of (last_retransmitted s) (seqn base i) = last_time i log)"

definition may_resend :: "(nat \<times> duration) list \<Rightarrow> duration \<Rightarrow> nat \<Rightarrow> bool" where
  "may_resend log now i \<longleftrightarrow> (\<forall>t. (i, t) \<in> set log \<longrightarrow> t + MIN_RETRANSMIT_INTERVAL \<le> now)"

lemma spaced_snoc: "spaced (log @ [(i, t)]) \<longleftrightarrow> spaced log \<and> may_resend log t i"
  by (auto simp: spaced_def sorted_wrt_append may_resend_def)

lemma last_time_latest:
  assumes "spaced log" "last_time i log = Some t" "(i, u) \<in> set log"
  shows "u \<le> t"
  using assms
proof (induction log rule: rev_induct)
  case (snoc x log)
  obtain j v where x: "x = (j, v)" by (cases x)
  show ?case
  proof (cases "j = i")
    case True
    then show ?thesis using snoc x by (auto simp: last_time_def spaced_snoc may_resend_def)
  next
    case False
    then show ?thesis using snoc x by (auto simp: last_time_def spaced_snoc)
  qed
qed simp

lemma eligible_iff:
  assumes "sender_inv base m ps log now s" "now \<le> now'" "i \<in> set (held_from m (length ps))"
  shows "eligible (by_seq s) now' (last_retransmitted s) (seqn base i) \<longleftrightarrow> may_resend log now' i"
proof -
  have "holds_stream base m ps s" using assms(1) by (simp add: sender_inv_def)
  then have "fst ` set (by_seq s) = seqn base ` set (held_from m (length ps))" by (simp add: holds_stream_def image_image)
  then have held: "map_of (by_seq s) (seqn base i) \<noteq> None" using assms(3) by (simp add: map_of_eq_None_iff)
  have l: "map_of (last_retransmitted s) (seqn base i) = last_time i log" and sp: "spaced log" and
    tm: "\<And>t. (i, t) \<in> set log \<Longrightarrow> t \<le> now" using assms by (auto simp: sender_inv_def)
  show ?thesis
  proof (cases "last_time i log")
    case None
    then have "\<forall>t. (i, t) \<notin> set log" by (force simp: last_time_def map_of_eq_None_iff)
    then show ?thesis using held l None by (simp add: eligible_def may_resend_def)
  next
    case (Some t)
    then have t: "(i, t) \<in> set log" by (auto simp: last_time_def dest: map_of_SomeD)
    have le: "\<And>u. (i, u) \<in> set log \<Longrightarrow> u \<le> t" using last_time_latest[OF sp Some] by blast
    have "may_resend log now' i \<longleftrightarrow> t + MIN_RETRANSMIT_INTERVAL \<le> now'" using t le by (force simp: may_resend_def)
    moreover have "t \<le> now'" using tm[OF t] assms(2) by simp
    ultimately show ?thesis using held l Some by (auto simp: eligible_def)
  qed
qed

lemma held_positions:
  assumes "holds_stream base m ps s"
  shows "map_of (by_seq s) q \<noteq> None \<longleftrightarrow> q \<in> seqn base ` set (held_from m (length ps))"
    "i \<in> set (held_from m (length ps)) \<Longrightarrow> map_of (by_seq s) (seqn base i) = Some (held_packet base ps i)"
    "i \<in> set (held_from m (length ps)) \<Longrightarrow> position_of base (length ps) (seqn base i) = i"
proof -
  note h = assms[unfolded holds_stream_def]
  have dom: "fst ` set (by_seq s) = seqn base ` set (held_from m (length ps))" using h by (simp add: image_image)
  then show "map_of (by_seq s) q \<noteq> None \<longleftrightarrow> q \<in> seqn base ` set (held_from m (length ps))"
    by (simp add: map_of_eq_None_iff)
  have inj: "inj_on (seqn base) (set (held_from m (length ps)))" using h by (intro inj_onI) (auto simp: seqn_inject)
  then have d: "distinct (map fst (by_seq s))" using h by (simp add: comp_def distinct_map)
  show "i \<in> set (held_from m (length ps)) \<Longrightarrow> map_of (by_seq s) (seqn base i) = Some (held_packet base ps i)"
    using h d by (intro map_of_is_SomeI) auto
  show "i \<in> set (held_from m (length ps)) \<Longrightarrow> position_of base (length ps) (seqn base i) = i"
    using h by (intro position_of_seqn) auto
qed

lemma map_filter_all: "\<forall>x \<in> set xs. f x = Some (g x) \<Longrightarrow> List.map_filter f xs = map g xs"
  by (induction xs) (simp_all add: List.map_filter_simps)

lemma resolve_answers:
  assumes inv: "sender_inv base m ps log now s" and le: "now \<le> now'" and r: "rist_resolve s cands now' = (s', out)"
  shows "\<exists>new. out = map (resent_packet base ps) new \<and> distinct new \<and>
    set new = {i \<in> set (held_from m (length ps)). seqn base i \<in> set (take MAX_RANGE_EXPANSION cands) \<and> may_resend log now' i} \<and>
    answer base (length ps) now' out = map (\<lambda>i. (i, now')) new \<and> sender_inv base m ps (log @ map (\<lambda>i. (i, now')) new) now' s'"
proof -
  let ?H = "set (held_from m (length ps))" and ?cs = "take MAX_RANGE_EXPANSION cands" and ?pos = "position_of base (length ps)"
  have h: "holds_stream base m ps s" and sp: "spaced log" and tm: "\<forall>(i, t) \<in> set log. i < length ps \<and> t \<le> now"
    and lt: "\<forall>i \<in> ?H. map_of (last_retransmitted s) (seqn base i) = last_time i log" using inv by (simp_all add: sender_inv_def)
  note hd = h[unfolded holds_stream_def]
  have inj: "inj_on (seqn base) ?H" using hd by (intro inj_onI) (auto simp: seqn_inject)
  have keys: "distinct (map fst (by_seq s))" "length (by_seq s) \<le> max_buffered s" using hd inj by (simp_all add: comp_def distinct_map)
  obtain qs l where loop: "resolve_loop (by_seq s) (max_buffered s) now' ?cs {} [] (last_retransmitted s) = (qs, l)" by fastforce
  then obtain new where nw: "qs = new" "distinct qs" "set qs = {q \<in> set ?cs. eligible (by_seq s) now' (last_retransmitted s) q}"
      "map_of l = (\<lambda>q. if q \<in> set qs then Some now' else map_of (last_retransmitted s) q)"
    using resolve_loop_exact[OF loop keys] by auto
  have qH: "set qs \<subseteq> seqn base ` ?H"
  proof
    fix q assume "q \<in> set qs"
    then have "map_of (by_seq s) q \<noteq> None" using nw(3) by (auto simp: eligible_def)
    then show "q \<in> seqn base ` ?H" using held_positions(1)[OF h] by blast
  qed
  let ?new = "map ?pos qs"
  have qs: "map (seqn base) ?new = qs"
    unfolding map_map comp_def by (rule map_idI) (use qH held_positions(3)[OF h] in force)
  have setn: "set ?new = {i \<in> ?H. seqn base i \<in> set ?cs \<and> may_resend log now' i}"
  proof (intro equalityI subsetI)
    fix i assume "i \<in> set ?new"
    then obtain q where q: "q \<in> set qs" "i = ?pos q" by auto
    then obtain j where j: "j \<in> ?H" "q = seqn base j" using qH by auto
    then have "i = j" using q(2) held_positions(3)[OF h] by simp
    then show "i \<in> {i \<in> ?H. seqn base i \<in> set ?cs \<and> may_resend log now' i}"
      using q j nw(3) eligible_iff[OF inv le j(1)] by auto
  next
    fix i assume i: "i \<in> {i \<in> ?H. seqn base i \<in> set ?cs \<and> may_resend log now' i}"
    then have "seqn base i \<in> set qs" using nw(3) eligible_iff[OF inv le] by auto
    then have "?pos (seqn base i) \<in> set ?new" by simp
    then show "i \<in> set ?new" using held_positions(3)[OF h, of i] i by simp
  qed
  have dn: "distinct ?new" using nw(2) qs by (metis distinct_map)
  have s': "s' = s\<lparr>last_retransmitted := l\<rparr>" and out0: "out = List.map_filter (\<lambda>q. map_option (\<lambda>p. \<lparr>rt_seq = rs_sent_seq p,
      rt_timestamp = rs_sent_timestamp p, rt_payload = rs_sent_payload p\<rparr>) (map_of (by_seq s) q)) qs"
    using r loop by (simp_all add: rist_resolve_def)
  have out: "out = map (resent_packet base ps) ?new"
  proof -
    have "map_option (\<lambda>p. \<lparr>rt_seq = rs_sent_seq p, rt_timestamp = rs_sent_timestamp p, rt_payload = rs_sent_payload p\<rparr>) (map_of (by_seq s) q) =
        Some (resent_packet base ps (?pos q))" if q: "q \<in> set qs" for q
    proof -
      obtain i where "i \<in> ?H" "q = seqn base i" using qH q by auto
      then show ?thesis using held_positions(2,3)[OF h] by (simp add: held_packet_def resent_packet_def)
    qed
    then show ?thesis unfolding out0 by (simp add: map_filter_all comp_def)
  qed
  have ans: "answer base (length ps) now' out = map (\<lambda>i. (i, now')) ?new"
  proof -
    have "?pos (rt_seq (resent_packet base ps i)) = i" if "i \<in> set ?new" for i
      using that held_positions(3)[OF h, of i] unfolding setn by (simp add: resent_packet_def)
    then show ?thesis unfolding answer_def out by simp
  qed
  have spaced': "spaced (log @ map (\<lambda>i. (i, now')) xs)" if "distinct xs" "\<forall>i \<in> set xs. may_resend log now' i" for xs
    using that
  proof (induction xs rule: rev_induct)
    case (snoc i xs)
    then have "spaced (log @ map (\<lambda>i. (i, now')) xs)" by simp
    moreover have "may_resend (log @ map (\<lambda>i. (i, now')) xs) now' i" using snoc.prems by (auto simp: may_resend_def)
    ultimately show ?case using spaced_snoc[of "log @ map (\<lambda>i. (i, now')) xs" i now'] by simp
  qed (simp add: sp)
  have last': "last_time i (log @ map (\<lambda>i. (i, now')) xs) = (if i \<in> set xs then Some now' else last_time i log)" for i xs
    by (induction xs rule: rev_induct) (auto simp: last_time_def)
  have keys': "fst ` set l \<subseteq> seqn base ` ?H"
  proof
    fix q assume "q \<in> fst ` set l"
    then have "map_of l q \<noteq> None" by (simp add: map_of_eq_None_iff)
    then have some: "map_of l q \<noteq> None" .
    show "q \<in> seqn base ` ?H"
    proof (cases "q \<in> set qs")
      case False
      then have "map_of (last_retransmitted s) q \<noteq> None" using some unfolding nw(4) by simp
      then have "q \<in> fst ` set (last_retransmitted s)" by (simp only: map_of_eq_None_iff not_not)
      then show ?thesis using hd by blast
    qed (use qH in blast)
  qed
  have "seqn base i \<in> set qs \<longleftrightarrow> i \<in> set ?new" if "i \<in> ?H" for i
    using that setn nw(3) eligible_iff[OF inv le that] by auto
  then have times: "\<forall>i \<in> ?H. map_of (last_retransmitted s') (seqn base i) = last_time i (log @ map (\<lambda>i. (i, now')) ?new)"
    unfolding last' s' using nw(4) lt by simp
  have holds: "holds_stream base m ps s'" using h keys' unfolding s' holds_stream_def by simp
  have sp': "spaced (log @ map (\<lambda>i. (i, now')) ?new)" by (rule spaced'[OF dn]) (use setn in blast)
  have old: "\<forall>(i, t) \<in> set (log @ map (\<lambda>i. (i, now')) ?new). i < length ps \<and> t \<le> now'"
  proof -
    have new_old: "\<forall>i \<in> set ?new. i < length ps" unfolding setn by auto
    show ?thesis
    proof (intro ballI, clarify)
      fix i t assume "(i, t) \<in> set (log @ map (\<lambda>i. (i, now')) ?new)"
      then consider "(i, t) \<in> set log" | "i \<in> set ?new" "t = now'" by auto
      then show "i < length ps \<and> t \<le> now'"
      proof cases
        case 1
        then have "i < length ps" "t \<le> now" using tm by blast+
        then show ?thesis using le by simp
      qed (use new_old in blast)
    qed
  qed
  have inv': "sender_inv base m ps (log @ map (\<lambda>i. (i, now')) ?new) now' s'"
    unfolding sender_inv_def by (intro conjI holds sp' old times)
  show ?thesis by (rule exI[of _ ?new], intro conjI out dn setn ans inv')
qed

definition rist_depth :: "nat \<Rightarrow> nat" where
  "rist_depth max_n = max 1 (min max_n 32767)"

lemma rist_sending_inv: "rist_sending base max_n ps log now s \<Longrightarrow> sender_inv base (rist_depth max_n) ps log now s"
proof (induction rule: rist_sending.induct)
  case sending_new
  then show ?case by (simp add: sender_inv_def holds_stream_def RistSender_new_def rist_depth_def spaced_def)
next
  case (sending_sent ps log now s s' t p)
  let ?m = "rist_depth max_n"
  note IH = sending_sent.IH[unfolded sender_inv_def]
  have os: "holds_stream base ?m (ps @ [(t, p)]) s'" "\<And>i. i \<in> set (held_from ?m (length ps + 1)) \<Longrightarrow>
      map_of (last_retransmitted s') (seqn base i) = (if i = length ps then None else map_of (last_retransmitted s) (seqn base i))"
    using on_sent_holds[OF _ sending_sent.hyps(2)] IH by blast+
  have fresh: "last_time (length ps) log = None" using IH by (auto simp: last_time_def map_of_eq_None_iff)
  have "map_of (last_retransmitted s') (seqn base i) = last_time i log" if "i \<in> set (held_from ?m (length (ps @ [(t, p)])))" for i
    using that os(2)[of i] IH fresh by (cases "i = length ps") auto
  moreover have "\<forall>(i, t) \<in> set log. i < Suc (length ps) \<and> t \<le> now" using IH by fastforce
  ultimately show ?case using os(1) IH by (simp add: sender_inv_def)
next
  case (sending_range ps log now s now' nack s' out)
  then show ?case using resolve_answers[OF sending_range.IH sending_range.hyps(2)] by (force simp: on_range_nack_def)
next
  case (sending_generic ps log now s now' gnack s' out)
  then show ?case using resolve_answers[OF sending_generic.IH sending_generic.hyps(2)] by (force simp: on_generic_nack_def)
qed

section \<open>The properties of the sender\<close>

definition names :: "u16 list \<Rightarrow> u16 \<Rightarrow> nat \<Rightarrow> bool" where
  "names req base i \<longleftrightarrow> seqn base i \<in> set (take MAX_RANGE_EXPANSION req)"

lemma resolve_exactly:
  assumes "rist_sending base max_n ps log now s" "now \<le> now'"
  shows "\<exists>new. snd (rist_resolve s c now') = map (resent_packet base ps) new \<and> distinct new \<and>
      set new = {i. length ps - rist_depth max_n \<le> i \<and> i < length ps \<and> names c base i \<and> may_resend log now' i}"
proof -
  have e: "{i \<in> set (held_from (rist_depth max_n) (length ps)). seqn base i \<in> set (take MAX_RANGE_EXPANSION c) \<and> may_resend log now' i} =
      {i. length ps - rist_depth max_n \<le> i \<and> i < length ps \<and> names c base i \<and> may_resend log now' i}"
    by (auto simp: names_def)
  show ?thesis
    using resolve_answers[OF rist_sending_inv[OF assms(1)] assms(2), of c "fst (rist_resolve s c now')" "snd (rist_resolve s c now')"]
    unfolding e by auto
qed

text \<open>
  C14. A loss report is answered with exactly what it should be. In every run of the RIST sender, over
  any number of wraps of the 16-bit numbers, the answer to a report of either format consists of
  exactly the packets, each once and with the timestamp and payload it was sent with, that are among
  the last \<open>max_buffered\<close> sent, are named by the first 65536 numbers of the report, and were not
  resent in the 20 ms before.
\<close>

theorem rist_answers_exactly:
  assumes "rist_sending base max_n ps log now s" "now \<le> now'"
  shows "(\<exists>new. snd (on_range_nack s nack now') = map (resent_packet base ps) new \<and> distinct new \<and>
      set new = {i. length ps - rist_depth max_n \<le> i \<and> i < length ps \<and> names (concat (map expand_range (rn_ranges nack))) base i \<and> may_resend log now' i}) \<and>
    (\<exists>new. snd (on_generic_nack s gnack now') = map (resent_packet base ps) new \<and> distinct new \<and>
      set new = {i. length ps - rist_depth max_n \<le> i \<and> i < length ps \<and> names (concat (map expand_fci (gn_nacks gnack))) base i \<and> may_resend log now' i})"
  using resolve_exactly[OF assms] unfolding on_range_nack_def on_generic_nack_def by blast

text \<open>Three packets around the wrap; the middle one is asked for.\<close>

theorem rist_answers_exactly_witness:
  "\<exists>s new. rist_sending 0xFFFE 4 [(0, [1]), (90, [2]), (180, [3])] [] 0 s \<and>
     snd (on_range_nack s \<lparr>rn_ssrc_media = 1, rn_ranges = [\<lparr>range_start = 0xFFFF, range_additional = 0\<rparr>], rn_padding = []\<rparr> 5) =
       map (resent_packet 0xFFFE [(0, [1]), (90, [2]), (180, [3])]) new \<and> set new = {1}"
proof -
  let ?ps = "[(0, [1]), (90, [2]), (180, [3])] :: (u32 \<times> bytes) list"
  let ?nack = "\<lparr>rn_ssrc_media = 1, rn_ranges = [\<lparr>range_start = 0xFFFF, range_additional = 0\<rparr>], rn_padding = []\<rparr>"
  obtain s where run: "rist_sending 0xFFFE 4 ((([] @ [(0, [1])]) @ [(90, [2])]) @ [(180, [3])]) [] 0 s"
    using sending_sent[OF sending_sent[OF sending_sent[OF sending_new refl] refl] refl] by blast
  have e: "concat (map expand_range (rn_ranges ?nack)) = [0xFFFF]" by (simp add: expand_range_def MAX_RANGE_EXPANSION_def)
  have "{i. length ?ps - rist_depth 4 \<le> i \<and> i < length ?ps \<and> names [0xFFFF] 0xFFFE i \<and> may_resend [] 5 i} = {1}"
  proof (intro equalityI subsetI)
    fix i assume "i \<in> {i. length ?ps - rist_depth 4 \<le> i \<and> i < length ?ps \<and> names [0xFFFF] 0xFFFE i \<and> may_resend [] 5 i}"
    then have "i < 3" "seqn 0xFFFE i = 0xFFFF" by (simp_all add: names_def MAX_RANGE_EXPANSION_def)
    moreover have "seqn 0xFFFE 1 = 0xFFFF" by (simp add: seqn_def)
    ultimately show "i \<in> {1}" using seqn_inject[of i 1 "0xFFFE"] by simp
  qed (simp add: names_def MAX_RANGE_EXPANSION_def seqn_def may_resend_def rist_depth_def)
  then show ?thesis using rist_answers_exactly[OF run, of 5 ?nack undefined] run unfolding e by auto
qed

text \<open>
  C17. No amplification. In every run, however the reports repeat or overlap, no packet is resent twice
  within 20 ms, one report is answered with at most the buffer depth (never more than 32767 packets),
  and the buffer, its queue and the table of resend times stay within that depth.
\<close>

theorem rist_resends_bounded:
  assumes "rist_sending base max_n ps log now s"
  shows "spaced log \<and> rist_buffered_count s \<le> rist_depth max_n \<and> length (sent_order s) \<le> rist_depth max_n \<and>
    card (fst ` set (last_retransmitted s)) \<le> rist_depth max_n \<and>
    (now \<le> now' \<longrightarrow> length (snd (on_range_nack s nack now')) \<le> rist_depth max_n \<and> length (snd (on_generic_nack s gnack now')) \<le> rist_depth max_n)"
proof -
  let ?m = "rist_depth max_n"
  note inv = rist_sending_inv[OF assms]
  note h = inv[unfolded sender_inv_def holds_stream_def]
  have c: "card (set (held_from ?m (length ps))) \<le> ?m" by simp
  have len: "length (snd (rist_resolve s cs now')) \<le> ?m" if le: "now \<le> now'" for cs
  proof -
    obtain new where new: "snd (rist_resolve s cs now') = map (resent_packet base ps) new" "distinct new" "set new \<subseteq> set (held_from ?m (length ps))"
    proof -
      obtain s2 out where r: "rist_resolve s cs now' = (s2, out)" by fastforce
      obtain new where new: "out = map (resent_packet base ps) new" "distinct new"
          "set new = {i \<in> set (held_from ?m (length ps)). seqn base i \<in> set (take MAX_RANGE_EXPANSION cs) \<and> may_resend log now' i}"
        using resolve_answers[OF inv le r] by blast
      have "snd (rist_resolve s cs now') = map (resent_packet base ps) new" using r new(1) by simp
      moreover have "set new \<subseteq> set (held_from ?m (length ps))" unfolding new(3) by blast
      ultimately show thesis by (rule that[OF _ new(2)])
    qed
    have "length new = card (set new)" using distinct_card[OF new(2)] by simp
    also have "\<dots> \<le> card (set (held_from ?m (length ps)))" by (rule card_mono[OF List.finite_set new(3)])
    finally have "length new \<le> card (set (held_from ?m (length ps)))" .
    then show ?thesis using new(1) c by simp
  qed
  have "card (fst ` set (last_retransmitted s)) \<le> card (seqn base ` set (held_from ?m (length ps)))"
    using h by (intro card_mono) auto
  also have "\<dots> \<le> ?m" by (rule le_trans[OF card_image_le[OF List.finite_set] c])
  finally show ?thesis using h len by (auto simp: rist_buffered_count_def on_range_nack_def on_generic_nack_def)
qed

text \<open>A packet that has been resent once.\<close>

theorem rist_resends_bounded_witness:
  "\<exists>s log. rist_sending 7 4 [(0, [1])] log 5 s \<and> spaced log \<and> rist_buffered_count s \<le> rist_depth 4 \<and>
     length (snd (on_range_nack s \<lparr>rn_ssrc_media = 1, rn_ranges = [\<lparr>range_start = 7, range_additional = 65535\<rparr>], rn_padding = []\<rparr> 6)) \<le> rist_depth 4"
proof -
  let ?nack = "\<lparr>rn_ssrc_media = 1, rn_ranges = [\<lparr>range_start = 7, range_additional = 65535\<rparr>], rn_padding = []\<rparr>"
  obtain s0 where run0: "rist_sending 7 4 ([] @ [(0, [1])]) [] 0 s0" using sending_sent[OF sending_new refl] by blast
  obtain s out where "on_range_nack s0 ?nack 5 = (s, out)" by fastforce
  from sending_range[OF run0 _ this] have run: "rist_sending 7 4 [(0, [1])] ([] @ answer 7 (length ([] @ [(0, [1])])) 5 out) 5 s" by simp
  have "(5::nat) \<le> 6" by simp
  then show ?thesis using rist_resends_bounded[OF run, of 6 ?nack undefined] run by blast
qed

end
