(* ===== verification/Rist_Wire_Spec.thy ===== *)
theory Rist_Wire_Spec
  imports Rist_Wire
begin

text \<open>
  The feedback messages are read and written byte for byte. All three are an RTCP packet: a header
  byte, a type, a length in words, a body of whole words, and padding with its count. The image of
  such a packet is described once, and the parsers and serializers are evaluated on it.
\<close>

section \<open>The image of an RTCP packet\<close>

definition pad_ok :: "bytes \<Rightarrow> bool" where
  "pad_ok pad \<longleftrightarrow> pad = [] \<or> length pad + 1 \<le> 255 \<and> (length pad + 1) mod 4 = 0"

definition count_byte :: "bytes \<Rightarrow> u8" where
  "count_byte pad = word_of_nat (length pad + 1)"

definition pad_wire :: "bytes \<Rightarrow> bytes" where
  "pad_wire pad = (if pad = [] then [] else pad @ [count_byte pad])"

definition words_field :: "nat \<Rightarrow> u16" where
  "words_field n = word_of_nat (n div 4)"

lemma unat_count_byte: "length pad + 1 \<le> 255 \<Longrightarrow> unat (count_byte pad) = length pad + 1"
  unfolding count_byte_def unat_of_nat by (rule mod_less) simp

lemma unat_words_field: "n \<le> 262140 \<Longrightarrow> unat (words_field n) = n div 4"
  unfolding words_field_def unat_of_nat by (rule mod_less) simp

definition rtcp_wire :: "u8 \<Rightarrow> u8 \<Rightarrow> bytes \<Rightarrow> bytes \<Rightarrow> bytes" where
  "rtcp_wire b pt body pad =
     [if pad = [] then b else b OR RTCP_PADDING_MASK, pt] @
     u16_to_be (words_field (length body + length (pad_wire pad))) @ body @ pad_wire pad"

lemma length_rtcp_wire [simp]: "length (rtcp_wire b pt body pad) = 4 + length body + length (pad_wire pad)"
  by (simp add: rtcp_wire_def)

lemma length_pad_wire: "pad_ok pad \<Longrightarrow> length (pad_wire pad) mod 4 = 0"
  by (auto simp: pad_ok_def pad_wire_def)

lemma padded_len_wire: "padded_len n pad = n + length (pad_wire pad)"
  by (simp add: padded_len_def pad_wire_def)

lemma byte_unpadded: "drop_bit 6 (b :: u8) = 2 \<Longrightarrow> b AND 0x20 = 0 \<Longrightarrow> b = 0x80 OR (b AND 0x1F)"
  by (simp only: bit_pos) (simp add: bit_range bit_simps)

lemma byte_padded: "drop_bit 6 (b :: u8) = 2 \<Longrightarrow> b AND 0x20 \<noteq> 0 \<Longrightarrow> b = (0x80 OR (b AND 0x1F)) OR 0x20"
  by (simp only: bit_pos) (simp add: bit_range bit_simps)

lemma byte_fields:
  assumes "(f :: u8) AND 0x1F = f"
  shows "drop_bit 6 (0x80 OR f) = 2" "drop_bit 6 ((0x80 OR f) OR 0x20) = 2"
    "(0x80 OR f) AND 0x1F = f" "((0x80 OR f) OR 0x20) AND 0x1F = f"
    "(0x80 OR f) AND 0x20 = 0" "((0x80 OR f) OR 0x20) AND 0x20 \<noteq> 0"
  using assms by (simp_all only: bit_pos) (simp_all add: bit_range bit_simps)

section \<open>Writing\<close>

lemma serialize_padded_wire:
  assumes body: "length (rtcp_wire b pt body pad) \<le> length buf \<Longrightarrow>
      write_body buf = Inr (rtcp_wire b pt body [] @ drop (4 + length body) buf, 4 + length body)"
    and ok: "pad_ok pad" "length (rtcp_wire b pt body pad) \<le> 262144"
    and room: "length (rtcp_wire b pt body pad) \<le> length buf"
  shows "serialize_padded (4 + length body) pad buf write_body =
    Inr (rtcp_wire b pt body pad @ drop (length (rtcp_wire b pt body pad)) buf, length (rtcp_wire b pt body pad))"
proof (cases "pad = []")
  case True
  then show ?thesis using body[OF room] room
    by (simp add: serialize_padded_def Let_def need_out_eq padded_len_wire padding_total_def pad_wire_def)
next
  case False
  let ?n = "length body" and ?k = "length pad"
  have k: "?k + 1 \<le> 255" "(?k + 1) mod 4 = 0" using ok(1) False by (auto simp: pad_ok_def)
  have tot: "padding_total pad m = Inr (?k + 1)" for m using k False by (simp add: padding_total_def WORD_LEN_def Let_def)
  have len: "length (rtcp_wire b pt body pad) = 4 + ?n + ?k + 1" using False by (simp add: pad_wire_def)
  have fit: "fit_u16 ((4 + ?n + (?k + 1)) div 4 - 1) f = Inr (words_field (?n + ?k + 1))" for f
  proof -
    have "(4 + ?n + (?k + 1)) div 4 - 1 = (?n + ?k + 1) div 4" by presburger
    moreover have "(?n + ?k + 1) div 4 < 65536" using ok(2) unfolding len by presburger
    ultimately show ?thesis by (simp only: fit_u16_eq words_field_def if_True)
  qed
  define rest where "rest = drop (4 + ?n) buf"
  have r: "?k + 1 \<le> length rest" using room len by (simp add: rest_def)
  then obtain x where rest: "drop ?k rest = x # drop (?k + 1) rest"
    by (metis Cons_nth_drop_Suc Suc_eq_plus1 less_eq_Suc_le)
  have w0: "rtcp_wire b pt body [] @ rest = b # pt # u16_to_be (words_field ?n) @ body @ rest"
    by (simp add: rtcp_wire_def pad_wire_def)
  have w1: "put_be16 ((rtcp_wire b pt body [] @ rest)[0 := (rtcp_wire b pt body [] @ rest) ! 0 OR RTCP_PADDING_MASK]) 2 lf =
      [b OR RTCP_PADDING_MASK, pt] @ u16_to_be lf @ body @ rest" for lf
    unfolding w0 using put_be16_at[of 2 "[b OR RTCP_PADDING_MASK, pt]" "u16_to_be (words_field ?n) @ body @ rest" lf]
    by simp
  have w2: "put_slice ([b', pt] @ u16_to_be lf @ body @ rest) (4 + ?n) pad = ([b', pt] @ u16_to_be lf @ body @ pad) @ x # drop (?k + 1) rest"
    for lf b' using put_slice_append[of "4 + ?n" "[b', pt] @ u16_to_be lf @ body" rest pad] rest by simp
  have w3: "(xs @ x # ys)[4 + ?n + (?k + 1) - 1 := c] = xs @ c # ys" if "length xs = 4 + ?n + ?k" for xs ys and c :: u8
    using that by (simp add: list_update_append)
  have step: "(put_slice (put_be16 ((rtcp_wire b pt body [] @ rest)[0 := (rtcp_wire b pt body [] @ rest) ! 0 OR RTCP_PADDING_MASK]) 2 lf)
      (4 + ?n) pad)[4 + ?n + (?k + 1) - 1 := word_of_nat (?k + 1)] =
    ([b OR RTCP_PADDING_MASK, pt] @ u16_to_be lf @ body @ pad) @ word_of_nat (?k + 1) # drop (?k + 1) rest" for lf
    unfolding w1 w2 by (rule w3) simp
  have c: "drop (?k + 1) rest = drop (4 + ?n + ?k + 1) buf" by (simp add: rest_def add.commute add.left_commute)
  have g: "4 + ?n + length (pad_wire pad) \<le> length buf" "0 < ?k + 1" using room by simp_all
  have "serialize_padded (4 + length body) pad buf write_body =
      Inr (([b OR RTCP_PADDING_MASK, pt] @ u16_to_be (words_field (?n + ?k + 1)) @ body @ pad) @ word_of_nat (?k + 1) # drop (?k + 1) rest,
        4 + ?n + length (pad_wire pad))"
    unfolding serialize_padded_def Let_def body[OF room] padded_len_wire need_out_eq rest_def[symmetric]
    by (simp only: g if_True map_err_simps and_then_simps case_prod_conv tot WORD_LEN_def fit step)
  then show ?thesis using False unfolding c by (simp add: rtcp_wire_def pad_wire_def count_byte_def[symmetric] del: of_nat_Suc) (simp add: count_byte_def eval_nat_numeral)
qed

section \<open>Reading\<close>

definition rtcp_image :: "u8 \<Rightarrow> u8 \<Rightarrow> bytes \<Rightarrow> bytes \<Rightarrow> bytes \<Rightarrow> bytes \<Rightarrow> bool" where
  "rtcp_image b pt body pad rest bs \<longleftrightarrow>
     bs = rtcp_wire (0x80 OR b) pt body pad @ rest \<and> b AND 0x1F = b \<and>
     length body mod 4 = 0 \<and> pad_ok pad \<and> length body + length (pad_wire pad) \<le> 262140"

lemma rtcp_imageD:
  assumes "rtcp_image b pt body pad rest bs"
  shows "bs = rtcp_wire (0x80 OR b) pt body pad @ rest" "b AND 0x1F = b" "length body mod 4 = 0" "pad_ok pad"
    "length body + length (pad_wire pad) \<le> 262140"
  using assms by (simp_all add: rtcp_image_def)

lemma image_head:
  assumes "rtcp_image b pt body pad rest bs"
  shows "bs ! 0 = (if pad = [] then 0x80 OR b else (0x80 OR b) OR 0x20)" "bs ! 1 = pt" "4 \<le> length bs"
  by (simp_all add: rtcp_imageD(1)[OF assms] rtcp_wire_def RTCP_PADDING_MASK_def)

lemma image_fields:
  assumes "rtcp_image b pt body pad rest bs"
  shows "check_version bs = Inr ()" "bs ! 0 AND RTCP_COUNT_MASK = b" "bs ! 0 AND RTCP_PADDING_MASK = 0 \<longleftrightarrow> pad = []"
proof -
  note h = image_head[OF assms] byte_fields[OF rtcp_imageD(2)[OF assms]]
  show "check_version bs = Inr ()" using h by (auto simp: check_version_def rtcp_consts)
  show "bs ! 0 AND RTCP_COUNT_MASK = b" "bs ! 0 AND RTCP_PADDING_MASK = 0 \<longleftrightarrow> pad = []"
    using h by (simp_all add: rtcp_consts)
qed

lemma image_split:
  assumes "rtcp_image b pt body pad rest bs"
  shows "\<exists>pre. length pre = 4 \<and> bs = pre @ body @ pad_wire pad @ rest"
  by (rule exI[of _ "[if pad = [] then 0x80 OR b else (0x80 OR b) OR RTCP_PADDING_MASK, pt] @
      u16_to_be (words_field (length body + length (pad_wire pad)))"])
    (simp add: rtcp_imageD(1)[OF assms] rtcp_wire_def)

lemma image_total:
  assumes "rtcp_image b pt body pad rest bs"
  shows "rtcp_total_len bs = 4 + length body + length (pad_wire pad)"
proof -
  let ?n = "length body + length (pad_wire pad)"
  have "be16 ([if pad = [] then 0x80 OR b else (0x80 OR b) OR RTCP_PADDING_MASK, pt] @ u16_to_be (words_field ?n) @ (body @ pad_wire pad @ rest)) 2 =
      words_field ?n" by (rule be16_at) simp
  then have e: "be16 bs 2 = words_field ?n" by (simp add: rtcp_imageD(1)[OF assms] rtcp_wire_def)
  have "?n mod 4 = 0" using rtcp_imageD(3)[OF assms] length_pad_wire[OF rtcp_imageD(4)[OF assms]] by presburger
  then have "?n div 4 * 4 = ?n" by presburger
  then show ?thesis unfolding rtcp_total_len_def e WORD_LEN_def unat_words_field[OF rtcp_imageD(5)[OF assms]] by simp
qed

lemma image_lengths:
  assumes "rtcp_image b pt body pad rest bs" "min_len \<le> 4 + length body"
  shows "check_total_len bs min_len what = Inr ()"
  using assms(2) by (simp add: check_total_len_def image_total[OF assms(1)] Let_def) (simp add: rtcp_imageD(1)[OF assms(1)])

lemma image_end:
  assumes "rtcp_image b pt body pad rest bs"
  shows "unpadded_end bs (rtcp_total_len bs) = Inr (4 + length body)"
proof (cases "pad = []")
  case True
  then show ?thesis using image_fields(3)[OF assms] image_total[OF assms] by (simp add: unpadded_end_def pad_wire_def)
next
  case False
  have k: "length pad + 1 \<le> 255" using rtcp_imageD(4)[OF assms] False by (auto simp: pad_ok_def)
  obtain pre where pre: "length pre = 4" "bs = pre @ body @ pad_wire pad @ rest" using image_split[OF assms] by blast
  have "sub_slice bs 4 (rtcp_total_len bs) = body @ pad_wire pad"
    unfolding image_total[OF assms] unfolding pre(2) using pre(1) by (simp add: sub_slice_def)
  then have "padding_count (sub_slice bs RTCP_HEADER_LEN (rtcp_total_len bs)) = Inr (length pad + 1)"
    using False unat_count_byte[OF k] by (simp add: padding_count_def RTCP_HEADER_LEN_def pad_wire_def Let_def)
  then show ?thesis using False image_fields(3)[OF assms] image_total[OF assms] by (simp add: unpadded_end_def pad_wire_def)
qed

lemma image_padding:
  assumes "rtcp_image b pt body pad rest bs" "entry_len dvd 4 + length body - min_len"
  shows "padding_region bs (rtcp_total_len bs) (4 + length body) min_len entry_len = Inr pad"
proof -
  obtain pre where pre: "length pre = 4" "bs = pre @ body @ pad_wire pad @ rest" using image_split[OF assms(1)] by blast
  have "sub_slice bs (4 + length body) (4 + length body + length pad) = pad" if "pad \<noteq> []"
    unfolding pre(2) using pre(1) that by (simp add: sub_slice_def pad_wire_def)
  then show ?thesis using assms(2) by (auto simp: padding_region_def image_total[OF assms(1)] pad_wire_def add.assoc)
qed

lemma image_word:
  assumes "rtcp_image b pt body pad rest bs" "off = 4 + length xs" "body = xs @ u32_to_be w @ ys"
  shows "be32 bs off = w"
proof -
  obtain pre where pre: "length pre = 4" "bs = pre @ body @ pad_wire pad @ rest" using image_split[OF assms(1)] by blast
  then show ?thesis using be32_at[of off "pre @ xs" w "ys @ pad_wire pad @ rest"] assms(2,3) by simp
qed

lemma image_entries:
  assumes "rtcp_image b pt body pad rest bs" "off = 4 + length xs" "body = xs @ entries_wire es" "n = length es"
  shows "read_entries n off bs = es"
proof -
  obtain pre where pre: "length pre = 4" "bs = pre @ body @ pad_wire pad @ rest" using image_split[OF assms(1)] by blast
  then show ?thesis using read_entries_wire[of off "pre @ xs" es "pad_wire pad @ rest"] assms(2-4) by simp
qed

text \<open>
  Conversely, a packet that passes the checks is such an image: its body and padding are determined,
  and the bytes up to its length are the image.
\<close>

lemma image_back:
  assumes v: "check_version bs = Inr ()" and l: "check_total_len bs min_len what = Inr ()"
    and e: "unpadded_end bs (rtcp_total_len bs) = Inr end_at" "min_len \<le> end_at"
    and p: "padding_region bs (rtcp_total_len bs) end_at min_len 4 = Inr pad" and m: "min_len mod 4 = 0" "4 \<le> min_len"
  shows "take (rtcp_total_len bs) bs = rtcp_wire (0x80 OR (bs ! 0 AND 0x1F)) (bs ! 1) (sub_slice bs 4 end_at) pad"
    "pad_ok pad" "end_at \<le> length bs" "end_at mod 4 = 0" "end_at + length (pad_wire pad) = rtcp_total_len bs"
proof -
  let ?t = "rtcp_total_len bs" and ?b = "bs ! 0"
  have t: "?t \<le> length bs" "min_len \<le> ?t" using l by (simp_all add: check_total_len_def Let_def split: if_splits)
  have b: "drop_bit 6 ?b = 2" using v by (simp add: check_version_def rtcp_consts split: if_splits)
  have t4: "?t mod 4 = 0" "?t div 4 = unat (be16 bs 2) + 1" by (simp_all add: rtcp_total_len_def WORD_LEN_def)
  have len4: "sub_slice bs 2 4 = u16_to_be (words_field (?t - 4))"
  proof -
    have "(?t - 4) div 4 = unat (be16 bs 2)" by (simp add: rtcp_total_len_def WORD_LEN_def)
    then have "words_field (?t - 4) = be16 bs 2" by (simp add: words_field_def)
    then show ?thesis using be16_back[of 2 bs] t m by simp
  qed
  have hd4: "take 4 bs = [?b, bs ! 1] @ sub_slice bs 2 4"
  proof -
    have "take 4 bs = take 2 bs @ sub_slice bs 2 4" using take_add[of 2 2 bs] by (simp add: sub_slice_def)
    moreover have "take 2 bs = [?b, bs ! 1]" using t m by (cases bs; cases "tl bs") auto
    ultimately show ?thesis by simp
  qed
  have all: "take ?t bs = rtcp_wire (0x80 OR (?b AND 0x1F)) (bs ! 1) (sub_slice bs 4 end_at) pad \<and>
      pad_ok pad \<and> end_at \<le> length bs \<and> end_at mod 4 = 0 \<and> end_at + length (pad_wire pad) = ?t"
  proof (cases "?b AND 0x20 = 0")
    case True
    then have "end_at = ?t" using e(1) by (simp add: unpadded_end_def RTCP_PADDING_MASK_def)
    moreover from this have "pad = []" using p by (simp add: padding_region_def)
    moreover have "take ?t bs = take 4 bs @ sub_slice bs 4 ?t" using t m by (simp add: sub_slice_def take_add[symmetric])
    moreover have "length (sub_slice bs 4 ?t) = ?t - 4" using t by simp
    ultimately show "take ?t bs = rtcp_wire (0x80 OR (?b AND 0x1F)) (bs ! 1) (sub_slice bs 4 end_at) pad \<and>
        pad_ok pad \<and> end_at \<le> length bs \<and> end_at mod 4 = 0 \<and> end_at + length (pad_wire pad) = ?t"
      using t t4 byte_unpadded[OF b True] unfolding hd4 len4 by (simp add: rtcp_wire_def pad_wire_def pad_ok_def)
  next
    case False
    let ?body = "sub_slice bs 4 ?t"
    have lb: "length ?body = ?t - 4" using t by simp
    have ne: "?body \<noteq> []" and c: "unat (last ?body) \<noteq> 0" "unat (last ?body) \<le> ?t - 4" "end_at = ?t - unat (last ?body)"
      using e(1) False lb by (auto simp: unpadded_end_def padding_count_def rtcp_consts Let_def and_then_eq_Ok split: if_splits)
    have t5: "5 \<le> ?t" using ne lb by (cases ?body) auto
    have last: "last ?body = bs ! (?t - 1)"
      using ne lb t t5 sub_slice_nth[of 4 "?t - 5" ?t bs] by (simp add: last_conv_nth)
    have e': "end_at < ?t" "4 \<le> end_at" using c e(2) m(2) t by simp_all
    have p': "pad = sub_slice bs end_at (?t - 1)" "(end_at - min_len) mod 4 = 0"
      using p e' by (simp_all add: padding_region_def split: if_splits)
    have ok4: "end_at mod 4 = 0" using p'(2) m e(2) by presburger
    have k1: "length pad + 1 = ?t - end_at" using p'(1) e' t by simp
    moreover have "(?t - end_at) mod 4 = 0" using t4(1) ok4 e'(1) by presburger
    ultimately have k: "length pad + 1 = ?t - end_at" "(length pad + 1) mod 4 = 0" by (simp_all only:)
    have cb: "count_byte pad = bs ! (?t - 1)" using k(1) c last e' by (simp add: count_byte_def)
    have "length pad + 1 \<le> 255"
    proof -
      have "?t - end_at = unat (bs ! (?t - 1))" using c last e' by simp
      then show ?thesis using k(1) unat_lt2p[of "bs ! (?t - 1)"] by simp
    qed
    then have ok: "pad_ok pad" using k by (simp add: pad_ok_def)
    have ne_pad: "pad \<noteq> []" using k by auto
    have "take ?t bs = take 4 bs @ sub_slice bs 4 end_at @ sub_slice bs end_at (?t - 1) @ [bs ! (?t - 1)]"
    proof -
      have "take ?t bs = take (?t - 1) bs @ [bs ! (?t - 1)]"
        using t e' take_Suc_conv_app_nth[of "?t - 1" bs] by simp
      moreover have "take (?t - 1) bs = take end_at bs @ sub_slice bs end_at (?t - 1)"
        using e' by (simp add: sub_slice_def take_add[symmetric])
      moreover have "take end_at bs = take 4 bs @ sub_slice bs 4 end_at" using e' by (simp add: sub_slice_def take_add[symmetric])
      ultimately show ?thesis by simp
    qed
    moreover have "length (sub_slice bs 4 end_at) = end_at - 4" using t e' by simp
    moreover have "end_at - 4 + (length pad + 1) = ?t - 4" using k e' by simp
    ultimately show "take ?t bs = rtcp_wire (0x80 OR (?b AND 0x1F)) (bs ! 1) (sub_slice bs 4 end_at) pad \<and>
        pad_ok pad \<and> end_at \<le> length bs \<and> end_at mod 4 = 0 \<and> end_at + length (pad_wire pad) = ?t"
      using ok ok4 e' k(1) t ne_pad byte_padded[OF b False] unfolding hd4 len4 p'(1)[symmetric] cb[symmetric]
      by (simp add: rtcp_wire_def pad_wire_def RTCP_PADDING_MASK_def)
  qed
  then show "take ?t bs = rtcp_wire (0x80 OR (?b AND 0x1F)) (bs ! 1) (sub_slice bs 4 end_at) pad"
    "pad_ok pad" "end_at \<le> length bs" "end_at mod 4 = 0" "end_at + length (pad_wire pad) = ?t" by blast+
qed

section \<open>Generic NACK\<close>

abbreviation fci_pairs :: "GenericNack \<Rightarrow> (u16 \<times> u16) list" where
  "fci_pairs g \<equiv> map (\<lambda>f. (fci_pid f, fci_blp f)) (gn_nacks g)"

definition gn_body :: "GenericNack \<Rightarrow> bytes" where
  "gn_body g = u32_to_be (gn_ssrc_sender g) @ u32_to_be (gn_ssrc_media g) @ entries_wire (fci_pairs g)"

definition gn_wire :: "GenericNack \<Rightarrow> bytes" where
  "gn_wire g = rtcp_wire (0x80 OR 1) 205 (gn_body g) (gn_padding g)"

definition gn_ok :: "GenericNack \<Rightarrow> bool" where
  "gn_ok g \<longleftrightarrow> pad_ok (gn_padding g) \<and> length (gn_wire g) \<le> 262144"

lemma header_written: "2 \<le> length buf \<Longrightarrow> buf[0 := x, 1 := y] = [x, y] @ drop 2 buf"
  by (cases buf; cases "tl buf") auto

lemma length_gn_body [simp]: "length (gn_body g) = 8 + 4 * length (gn_nacks g)"
  by (simp add: gn_body_def)

lemma fit_words:
  assumes "n \<le> 262140" "n mod 4 = 0"
  shows "fit_u16 ((4 + n) div 4 - 1) f = Inr (words_field n)"
proof -
  have "(4 + n) div 4 - 1 = n div 4" by simp
  moreover have "n div 4 < 65536" using assms(1) by simp
  ultimately show ?thesis by (simp only: fit_u16_eq words_field_def if_True)
qed

lemma gn_body_written:
  assumes "gn_ok g" "length (gn_wire g) \<le> length buf"
  shows "GenericNack_write_body g buf =
    Inr (rtcp_wire (0x80 OR 1) 205 (gn_body g) [] @ drop (4 + length (gn_body g)) buf, 4 + length (gn_body g))"
proof -
  let ?n = "length (gn_body g)"
  have n: "?n \<le> 262140" "?n mod 4 = 0" "4 + ?n \<le> length buf" using assms by (simp_all add: gn_ok_def gn_wire_def)
  have len: "GenericNack_body_len g = 4 + ?n" by (simp add: GenericNack_body_len_def rtcp_consts)
  have h: "buf[0 := x, 1 := y] = [x, y] @ drop 2 buf" for x y using n(3) by (intro header_written) simp
  have e: "put_entries (fci_pairs g) 12 (put_be32 (put_be32 (put_be16 ([x, y] @ drop 2 buf) 2 w) 4 a) 8 c) =
      ([x, y] @ u16_to_be w @ u32_to_be a @ u32_to_be c) @ entries_wire (fci_pairs g) @ drop (12 + 4 * length (fci_pairs g)) buf" for x y w a c
    using put_be16_at[of 2 "[x, y]" "drop 2 buf" w] put_be32_at[of 4 "[x, y] @ u16_to_be w" "drop 4 buf" a]
      put_be32_at[of 8 "[x, y] @ u16_to_be w @ u32_to_be a" "drop 8 buf" c]
      put_entries_at[of 12 "[x, y] @ u16_to_be w @ u32_to_be a @ u32_to_be c" "fci_pairs g" "drop 12 buf"] by (simp add: add.commute)
  show ?thesis
    unfolding GenericNack_write_body_def Let_def len need_out_eq h WORD_LEN_def fit_words[OF n(1,2)]
    using n e[of "push_bit 6 RTCP_VERSION OR FMT_GENERIC_NACK" PT_RTPFB "words_field ?n" "gn_ssrc_sender g" "gn_ssrc_media g"]
    by (simp add: rtcp_consts rtcp_wire_def pad_wire_def gn_body_def[of g] add.commute)
qed

lemma gn_serialize:
  assumes "gn_ok g" "length (gn_wire g) \<le> length buf"
  shows "GenericNack_serialize_into g buf = Inr (gn_wire g @ drop (length (gn_wire g)) buf, length (gn_wire g))"
proof -
  have len: "GenericNack_body_len g = 4 + length (gn_body g)" by (simp add: GenericNack_body_len_def rtcp_consts)
  show ?thesis unfolding GenericNack_serialize_into_def len gn_wire_def
    using assms gn_body_written[OF assms] by (intro serialize_padded_wire) (simp_all add: gn_ok_def gn_wire_def)
qed

lemma gn_image: "gn_ok g \<Longrightarrow> rtcp_image 1 205 (gn_body g) (gn_padding g) rest (gn_wire g @ rest)"
  by (simp add: rtcp_image_def gn_ok_def gn_wire_def)

lemma fci_records [simp]: "(\<lambda>(a, b). \<lparr>fci_pid = a, fci_blp = b\<rparr>) \<circ> (\<lambda>f. (fci_pid f, fci_blp f)) = id"
  by (simp add: fun_eq_iff)

lemma gn_parse:
  assumes "gn_ok g"
  shows "GenericNack_parse (gn_wire g @ rest) = Inr g"
proof -
  note img = gn_image[OF assms, of rest]
  have w: "be32 (gn_wire g @ rest) 4 = gn_ssrc_sender g" "be32 (gn_wire g @ rest) 8 = gn_ssrc_media g"
    using image_word[OF img, of 4 "[]"] image_word[OF img, of 8 "u32_to_be (gn_ssrc_sender g)"] by (simp_all add: gn_body_def)
  have e: "read_entries (length (gn_nacks g)) 12 (gn_wire g @ rest) = fci_pairs g"
    by (rule image_entries[OF img, of _ "u32_to_be (gn_ssrc_sender g) @ u32_to_be (gn_ssrc_media g)"]) (simp_all add: gn_body_def)
  have p: "padding_region (gn_wire g @ rest) (rtcp_total_len (gn_wire g @ rest)) (4 + length (gn_body g)) 12 4 = Inr (gn_padding g)"
    by (rule image_padding[OF img]) simp
  show ?thesis
    unfolding GenericNack_parse_def Let_def image_fields[OF img] and_then_simps image_head[OF img] image_end[OF img]
    using image_lengths[OF img, of 12] p by (simp add: rtcp_consts e w image_end[OF img])
qed

text \<open>What is parsed is well formed, and is the image of the bytes it was read from.\<close>

lemma check_total_min: "check_total_len bs m what = Inr () \<Longrightarrow> rtcp_total_len bs \<le> length bs \<and> m \<le> rtcp_total_len bs"
  by (simp add: check_total_len_def Let_def split: if_splits)

lemma rtcp_total_le: "rtcp_total_len bs \<le> 262144"
  using unat_lt2p[of "be16 bs 2"] by (simp add: rtcp_total_len_def WORD_LEN_def)

lemma body_split:
  assumes "12 \<le> end_at" "end_at \<le> length bs" "end_at mod 4 = 0"
  shows "sub_slice bs 4 end_at = u32_to_be (be32 bs 4) @ u32_to_be (be32 bs 8) @ entries_wire (read_entries ((end_at - 12) div 4) 12 bs)"
proof -
  have "12 + 4 * ((end_at - 12) div 4) = end_at" using assms(1,3) by presburger
  then have "entries_wire (read_entries ((end_at - 12) div 4) 12 bs) = sub_slice bs 12 end_at"
    using read_entries_back[of 12 "(end_at - 12) div 4" bs] assms(2) by simp
  moreover have "sub_slice bs 4 end_at = sub_slice bs 4 8 @ sub_slice bs 8 12 @ sub_slice bs 12 end_at"
    using assms(1) take_add[of 4 "end_at - 8" "drop 4 bs"] take_add[of 4 "end_at - 12" "drop 8 bs"] by (simp add: sub_slice_def)
  ultimately show ?thesis using be32_back[of 4 bs] be32_back[of 8 bs] assms(1,2) by simp
qed

lemma gn_parse_back:
  assumes "GenericNack_parse bs = Inr g"
  shows "gn_ok g \<and> gn_wire g = take (rtcp_total_len bs) bs"
proof -
  let ?t = "rtcp_total_len bs"
  obtain end_at where v: "check_version bs = Inr ()" "bs ! 0 AND 0x1F = 1" "bs ! 1 = 205"
      and l: "check_total_len bs 12 ''Generic NACK'' = Inr ()" and e: "unpadded_end bs ?t = Inr end_at" "12 \<le> end_at"
      and p: "padding_region bs ?t end_at 12 4 = Inr (gn_padding g)"
      and g: "gn_ssrc_sender g = be32 bs 4" "gn_ssrc_media g = be32 bs 8"
        "gn_nacks g = map (\<lambda>(a, b). \<lparr>fci_pid = a, fci_blp = b\<rparr>) (read_entries ((end_at - 12) div 4) 12 bs)"
    using assms by (auto simp: GenericNack_parse_def Let_def and_then_eq_Ok rtcp_consts not_less split: if_splits)
  note b = image_back[OF v(1) l e p, simplified]
  have pairs: "fci_pairs g = read_entries ((end_at - 12) div 4) 12 bs" unfolding g(3) by (simp add: comp_def case_prod_beta)
  have "gn_body g = sub_slice bs 4 end_at" unfolding gn_body_def pairs g(1,2) using body_split[OF e(2) b(3,4)] by simp
  then have w: "gn_wire g = take ?t bs" using b(1) v(2,3) by (simp add: gn_wire_def)
  moreover have "?t \<le> length bs" using check_total_min[OF l] by simp
  ultimately show ?thesis using b(2) rtcp_total_le[of bs] by (simp add: gn_ok_def w)
qed

section \<open>Range NACK\<close>

abbreviation range_pairs :: "RangeNack \<Rightarrow> (u16 \<times> u16) list" where
  "range_pairs r \<equiv> map (\<lambda>g. (range_start g, range_additional g)) (rn_ranges r)"

definition rn_body :: "RangeNack \<Rightarrow> bytes" where
  "rn_body r = u32_to_be (rn_ssrc_media r) @ u32_to_be RIST_APP_NAME_U32 @ entries_wire (range_pairs r)"

definition rn_wire :: "RangeNack \<Rightarrow> bytes" where
  "rn_wire r = rtcp_wire (0x80 OR 0) 204 (rn_body r) (rn_padding r)"

definition rn_ok :: "RangeNack \<Rightarrow> bool" where
  "rn_ok r \<longleftrightarrow> pad_ok (rn_padding r) \<and> length (rn_ranges r) \<le> 16"

lemma length_rn_body [simp]: "length (rn_body r) = 8 + 4 * length (rn_ranges r)"
  by (simp add: rn_body_def)

lemma app_name: "RIST_APP_NAME = u32_to_be RIST_APP_NAME_U32"
  by (simp add: RIST_APP_NAME_def RIST_APP_NAME_U32_def u32_to_be_def)

lemma length_pad_ok: "pad_ok pad \<Longrightarrow> length (pad_wire pad) \<le> 255"
  by (auto simp: pad_ok_def pad_wire_def)

lemma length_rn_wire: "rn_ok r \<Longrightarrow> length (rn_wire r) \<le> 331"
  using length_pad_ok[of "rn_padding r"] by (simp add: rn_ok_def rn_wire_def)

lemma put_name_at: "off = length pre \<Longrightarrow> put_slice (pre @ rest) off RIST_APP_NAME = pre @ u32_to_be RIST_APP_NAME_U32 @ drop 4 rest"
  by (simp add: app_name)

lemma rn_body_written:
  assumes "rn_ok r" "length (rn_wire r) \<le> length buf"
  shows "RangeNack_write_body r buf =
    Inr (rtcp_wire (0x80 OR 0) 204 (rn_body r) [] @ drop (4 + length (rn_body r)) buf, 4 + length (rn_body r))"
proof -
  let ?n = "length (rn_body r)"
  have n: "?n \<le> 262140" "?n mod 4 = 0" "4 + ?n \<le> length buf" "length (rn_ranges r) \<le> 16"
    using assms length_rn_wire[OF assms(1)] by (simp_all add: rn_ok_def rn_wire_def)
  have len: "RangeNack_body_len r = 4 + ?n" by (simp add: RangeNack_body_len_def rtcp_consts)
  have h: "buf[0 := x, 1 := y] = [x, y] @ drop 2 buf" for x y using n(3) by (intro header_written) simp
  have e: "put_entries (range_pairs r) 12 (put_slice (put_be32 (put_be16 ([x, y] @ drop 2 buf) 2 w) 4 a) 8 RIST_APP_NAME) =
      ([x, y] @ u16_to_be w @ u32_to_be a @ u32_to_be RIST_APP_NAME_U32) @ entries_wire (range_pairs r) @ drop (12 + 4 * length (range_pairs r)) buf" for x y w a
    using put_be16_at[of 2 "[x, y]" "drop 2 buf" w] put_be32_at[of 4 "[x, y] @ u16_to_be w" "drop 4 buf" a]
      put_name_at[of 8 "[x, y] @ u16_to_be w @ u32_to_be a" "drop 8 buf"]
      put_entries_at[of 12 "[x, y] @ u16_to_be w @ u32_to_be a @ u32_to_be RIST_APP_NAME_U32" "range_pairs r" "drop 12 buf"] by (simp add: add.commute)
  show ?thesis
    unfolding RangeNack_write_body_def Let_def len need_out_eq h WORD_LEN_def fit_words[OF n(1,2)]
    using n e[of "push_bit 6 RTCP_VERSION OR SUBTYPE_RANGE_NACK" PT_APP "words_field ?n" "rn_ssrc_media r"]
    by (simp add: rtcp_consts rtcp_wire_def pad_wire_def rn_body_def[of r] add.commute)
qed

lemma rn_serialize:
  assumes "rn_ok r" "length (rn_wire r) \<le> length buf"
  shows "RangeNack_serialize_into r buf = Inr (rn_wire r @ drop (length (rn_wire r)) buf, length (rn_wire r))"
proof -
  have len: "RangeNack_body_len r = 4 + length (rn_body r)" by (simp add: RangeNack_body_len_def rtcp_consts)
  show ?thesis unfolding RangeNack_serialize_into_def len rn_wire_def
    using assms rn_body_written[OF assms] length_rn_wire[OF assms(1)] by (intro serialize_padded_wire) (simp_all add: rn_ok_def rn_wire_def)
qed

lemma rn_image: "rn_ok r \<Longrightarrow> rtcp_image 0 204 (rn_body r) (rn_padding r) rest (rn_wire r @ rest)"
  using length_rn_wire[of r] by (simp add: rtcp_image_def rn_ok_def rn_wire_def)

lemma range_records [simp]: "(\<lambda>(a, b). \<lparr>range_start = a, range_additional = b\<rparr>) \<circ> (\<lambda>g. (range_start g, range_additional g)) = id"
  by (simp add: fun_eq_iff)

lemma rn_parse:
  assumes "rn_ok r"
  shows "RangeNack_parse (rn_wire r @ rest) = Inr r"
proof -
  note img = rn_image[OF assms, of rest]
  have n: "length (rn_ranges r) \<le> 16" using assms by (simp add: rn_ok_def)
  have w: "be32 (rn_wire r @ rest) 4 = rn_ssrc_media r" "be32 (rn_wire r @ rest) 8 = RIST_APP_NAME_U32"
    using image_word[OF img, of 4 "[]"] image_word[OF img, of 8 "u32_to_be (rn_ssrc_media r)"] by (simp_all add: rn_body_def)
  have e: "read_entries (length (rn_ranges r)) 12 (rn_wire r @ rest) = range_pairs r"
    by (rule image_entries[OF img, of _ "u32_to_be (rn_ssrc_media r) @ u32_to_be RIST_APP_NAME_U32"]) (simp_all add: rn_body_def)
  have p: "padding_region (rn_wire r @ rest) (rtcp_total_len (rn_wire r @ rest)) (4 + length (rn_body r)) 12 4 = Inr (rn_padding r)"
    by (rule image_padding[OF img]) simp
  show ?thesis
    unfolding RangeNack_parse_def Let_def image_fields[OF img] and_then_simps image_head[OF img] image_end[OF img]
    using image_lengths[OF img, of 12] p n by (simp add: rtcp_consts e w image_end[OF img])
qed

lemma rn_parse_back:
  assumes "RangeNack_parse bs = Inr r"
  shows "rn_ok r \<and> rn_wire r = take (rtcp_total_len bs) bs"
proof -
  let ?t = "rtcp_total_len bs"
  obtain end_at where v: "check_version bs = Inr ()" "bs ! 0 AND 0x1F = 0" "bs ! 1 = 204"
      and l: "check_total_len bs 12 ''Range NACK'' = Inr ()" and e: "unpadded_end bs ?t = Inr end_at" "12 \<le> end_at"
      and p: "padding_region bs ?t end_at 12 4 = Inr (rn_padding r)"
      and g: "rn_ssrc_media r = be32 bs 4" "be32 bs 8 = RIST_APP_NAME_U32" "(end_at - 12) div 4 \<le> 16"
        "rn_ranges r = map (\<lambda>(a, b). \<lparr>range_start = a, range_additional = b\<rparr>) (read_entries ((end_at - 12) div 4) 12 bs)"
    using assms by (auto simp: RangeNack_parse_def Let_def and_then_eq_Ok rtcp_consts not_less split: if_splits)
  note b = image_back[OF v(1) l e p, simplified]
  have pairs: "range_pairs r = read_entries ((end_at - 12) div 4) 12 bs" unfolding g(4) by (simp add: comp_def case_prod_beta)
  have "rn_body r = sub_slice bs 4 end_at" unfolding rn_body_def pairs g(1) using body_split[OF e(2) b(3,4)] by (simp add: g(2))
  then have w: "rn_wire r = take ?t bs" using b(1) v(2,3) by (simp add: rn_wire_def)
  moreover have "length (rn_ranges r) \<le> 16" using g(3,4) by simp
  ultimately show ?thesis using b(2) by (simp add: rn_ok_def)
qed

section \<open>RTT Echo\<close>

definition echo_body :: "RttEcho \<Rightarrow> bytes" where
  "echo_body e = u32_to_be (echo_ssrc_media e) @ u32_to_be RIST_APP_NAME_U32 @ u32_to_be (ucast (drop_bit 32 (echo_timestamp e))) @
     u32_to_be (ucast (echo_timestamp e)) @ u32_to_be (echo_processing_delay_us e) @ echo_padding e"

definition echo_wire :: "RttEcho \<Rightarrow> bytes" where
  "echo_wire e = rtcp_wire (0x80 OR RttEchoKind_subtype (echo_kind e)) 204 (echo_body e) []"

definition echo_ok :: "RttEcho \<Rightarrow> bool" where
  "echo_ok e \<longleftrightarrow> length (echo_padding e) mod 4 = 0 \<and> length (echo_padding e) \<le> 262120"

lemma length_echo_body [simp]: "length (echo_body e) = 20 + length (echo_padding e)"
  by (simp add: echo_body_def)

lemma join_u64: "push_bit 32 (ucast (ucast (drop_bit 32 (t :: u64)) :: u32)) OR ucast (ucast t :: u32) = t"
  by (rule bit_word_eqI) (auto simp: bit_simps)

lemma split_u64_high: "ucast (drop_bit 32 (push_bit 32 (ucast (a :: u32)) OR ucast (b :: u32) :: u64)) = a"
  by (simp only: bit_pos) (simp add: bit_range)

lemma split_u64_low: "ucast (push_bit 32 (ucast (a :: u32)) OR ucast (b :: u32) :: u64) = b"
  by (simp only: bit_pos) (simp add: bit_range)

lemma mod20: "n mod 4 = 0 \<Longrightarrow> (20 + n) mod 4 = (0::nat)"
  by presburger

lemma kind_subtype:
  "RttEchoKind_from_subtype (RttEchoKind_subtype k) = Inr k" "RttEchoKind_subtype k AND 0x1F = RttEchoKind_subtype k"
  by (cases k; simp add: RttEchoKind_from_subtype_def rtcp_consts)+

lemma subtype_kind: "RttEchoKind_from_subtype s = Inr k \<Longrightarrow> s = RttEchoKind_subtype k"
  unfolding RttEchoKind_from_subtype_def by (cases k) (simp_all split: if_splits)

lemma echo_serialize:
  assumes "echo_ok e" "length (echo_wire e) \<le> length buf"
  shows "RttEcho_serialize_into e buf = Inr (echo_wire e @ drop (length (echo_wire e)) buf, length (echo_wire e))"
proof -
  let ?n = "length (echo_body e)"
  have n: "?n \<le> 262140" "?n mod 4 = 0" "4 + ?n \<le> length buf" "length (echo_padding e) mod 4 = 0"
    using assms by (simp_all add: echo_ok_def echo_wire_def pad_wire_def mod20)
  have len: "RttEcho_serialized_len e = 4 + ?n" by (simp add: RttEcho_serialized_len_def RTT_ECHO_MIN_LEN_def RTT_ECHO_BODY_LEN_def rtcp_consts)
  have h: "buf[0 := x, 1 := y] = [x, y] @ drop 2 buf" for x y using n(3) by (intro header_written) simp
  have st: "put_be32 (put_be32 (put_be32 (put_slice (put_be32 (put_be16 ([x, y] @ drop 2 buf) 2 w) 4 a) 8 RIST_APP_NAME) 12 b) 16 c) 20 d =
      ([x, y] @ u16_to_be w @ u32_to_be a @ u32_to_be RIST_APP_NAME_U32 @ u32_to_be b @ u32_to_be c @ u32_to_be d) @ drop 24 buf" for x y w a b c d
    using put_be16_at[of 2 "[x, y]" "drop 2 buf" w] put_be32_at[of 4 "[x, y] @ u16_to_be w" "drop 4 buf" a]
      put_name_at[of 8 "[x, y] @ u16_to_be w @ u32_to_be a" "drop 8 buf"]
      put_be32_at[of 12 "[x, y] @ u16_to_be w @ u32_to_be a @ u32_to_be RIST_APP_NAME_U32" "drop 12 buf" b]
      put_be32_at[of 16 "[x, y] @ u16_to_be w @ u32_to_be a @ u32_to_be RIST_APP_NAME_U32 @ u32_to_be b" "drop 16 buf" c]
      put_be32_at[of 20 "[x, y] @ u16_to_be w @ u32_to_be a @ u32_to_be RIST_APP_NAME_U32 @ u32_to_be b @ u32_to_be c" "drop 20 buf" d]
    by simp
  have pd: "(if p \<noteq> [] then put_slice (pre @ drop 24 buf) 24 p else pre @ drop 24 buf) = pre @ p @ drop (24 + length p) buf"
    if "length pre = 24" for pre p using put_slice_append[of 24 pre "drop 24 buf" p] that by (simp add: add.commute)
  have fin: "(let buf = buf[0 := x]; buf = buf[1 := y]; buf = put_be16 buf 2 w; buf = put_be32 buf 4 a; buf = put_slice buf 8 RIST_APP_NAME;
        buf = put_be32 buf 12 b; buf = put_be32 buf 16 c; buf = put_be32 buf 20 d; buf = (if p \<noteq> [] then put_slice buf 24 p else buf) in buf) =
      ([x, y] @ u16_to_be w @ u32_to_be a @ u32_to_be RIST_APP_NAME_U32 @ u32_to_be b @ u32_to_be c @ u32_to_be d) @ p @ drop (24 + length p) buf"
    for x y w a b c d p unfolding Let_def h st by (rule pd) simp
  show ?thesis
    unfolding RttEcho_serialize_into_def len need_out_eq WORD_LEN_def fit_words[OF n(1,2)] Let_def
    using n fin[unfolded Let_def]
    by (simp add: fit_words[OF n(1,2), simplified] rtcp_consts echo_wire_def rtcp_wire_def pad_wire_def echo_body_def[of e] h st pd add.commute)
qed

lemma echo_image: "echo_ok e \<Longrightarrow> rtcp_image (RttEchoKind_subtype (echo_kind e)) 204 (echo_body e) [] rest (echo_wire e @ rest)"
  by (simp add: rtcp_image_def echo_ok_def echo_wire_def pad_wire_def pad_ok_def mod20 kind_subtype(2))

lemma echo_parse:
  assumes "echo_ok e"
  shows "RttEcho_parse (echo_wire e @ rest) = Inr e"
proof -
  note img = echo_image[OF assms, of rest]
  let ?bs = "echo_wire e @ rest" and ?n = "u32_to_be RIST_APP_NAME_U32" and ?s = "u32_to_be (echo_ssrc_media e)"
    and ?h = "u32_to_be (ucast (drop_bit 32 (echo_timestamp e)))" and ?l = "u32_to_be (ucast (echo_timestamp e))"
  have w: "be32 ?bs 4 = echo_ssrc_media e" "be32 ?bs 8 = RIST_APP_NAME_U32" "be32 ?bs 12 = ucast (drop_bit 32 (echo_timestamp e))"
      "be32 ?bs 16 = ucast (echo_timestamp e)" "be32 ?bs 20 = echo_processing_delay_us e"
    using image_word[OF img, of 4 "[]"] image_word[OF img, of 8 ?s] image_word[OF img, of 12 "?s @ ?n"]
      image_word[OF img, of 16 "?s @ ?n @ ?h"] image_word[OF img, of 20 "?s @ ?n @ ?h @ ?l"] by (simp_all add: echo_body_def)
  have t: "rtcp_total_len ?bs = 24 + length (echo_padding e)" using image_total[OF img] by (simp add: pad_wire_def)
  have p: "sub_slice ?bs 24 (24 + length (echo_padding e)) = echo_padding e"
    by (simp add: sub_slice_def echo_wire_def rtcp_wire_def echo_body_def pad_wire_def)
  have l: "check_total_len ?bs 24 what = Inr ()" for what using image_lengths[OF img, of 24] by simp
  show ?thesis
    unfolding RttEcho_parse_def Let_def image_fields[OF img] and_then_simps image_head(2)[OF img] kind_subtype(1)
    using image_fields(3)[OF img] l p
    by (simp add: RTT_ECHO_MIN_LEN_def RTT_ECHO_BODY_LEN_def rtcp_consts w join_u64 t kind_subtype)
qed

lemma echo_parse_back:
  assumes "RttEcho_parse bs = Inr e"
  shows "echo_ok e \<and> echo_wire e = take (rtcp_total_len bs) bs"
proof -
  let ?t = "rtcp_total_len bs"
  have v: "check_version bs = Inr ()" "bs ! 0 AND 0x20 = 0" "bs ! 0 AND 0x1F = RttEchoKind_subtype (echo_kind e)" "bs ! 1 = 204"
      and l: "check_total_len bs 24 ''RTT Echo'' = Inr ()"
      and g: "echo_ssrc_media e = be32 bs 4" "be32 bs 8 = RIST_APP_NAME_U32"
        "echo_timestamp e = push_bit 32 (ucast (be32 bs 12)) OR ucast (be32 bs 16)" "echo_processing_delay_us e = be32 bs 20"
        "echo_padding e = sub_slice bs 24 ?t"
    using assms by (auto simp: RttEcho_parse_def Let_def and_then_eq_Ok RTT_ECHO_MIN_LEN_def RTT_ECHO_BODY_LEN_def rtcp_consts sub_slice_def
        split: if_splits dest!: subtype_kind)
  have t: "?t \<le> length bs" "24 \<le> ?t" using check_total_min[OF l] by simp_all
  have ue: "unpadded_end bs ?t = Inr ?t" using v(2) by (simp add: unpadded_end_def RTCP_PADDING_MASK_def)
  have pr: "padding_region bs ?t ?t 24 4 = Inr []" by (simp add: padding_region_def)
  note b = image_back[OF v(1) l ue t(2) pr, simplified]
  have "sub_slice bs 4 ?t = sub_slice bs 4 8 @ sub_slice bs 8 12 @ sub_slice bs 12 16 @ sub_slice bs 16 20 @ sub_slice bs 20 24 @ sub_slice bs 24 ?t"
    using t take_add[of 4 "?t - 8" "drop 4 bs"] take_add[of 4 "?t - 12" "drop 8 bs"] take_add[of 4 "?t - 16" "drop 12 bs"]
      take_add[of 4 "?t - 20" "drop 16 bs"] take_add[of 4 "?t - 24" "drop 20 bs"] by (simp add: sub_slice_def)
  then have "echo_body e = sub_slice bs 4 ?t"
    unfolding echo_body_def g(1,3,4,5) split_u64_high split_u64_low g(2)[symmetric]
    using be32_back[of 4 bs] be32_back[of 8 bs] be32_back[of 12 bs] be32_back[of 16 bs] be32_back[of 20 bs] t by simp
  then have w: "echo_wire e = take ?t bs" using b(1) v(3,4) by (simp add: echo_wire_def)
  have "length (echo_padding e) = ?t - 24" using g(5) t by simp
  then show ?thesis using w b(4) t rtcp_total_le[of bs] by (simp add: echo_ok_def) presburger
qed

section \<open>The contract of the codecs\<close>

lemma feedback_lens:
  "GenericNack_serialized_len g = length (gn_wire g)" "RangeNack_serialized_len r = length (rn_wire r)"
  "RttEcho_serialized_len e = length (echo_wire e)"
  by (simp_all add: GenericNack_serialized_len_def GenericNack_body_len_def gn_wire_def RangeNack_serialized_len_def RangeNack_body_len_def
      rn_wire_def RttEcho_serialized_len_def RTT_ECHO_MIN_LEN_def RTT_ECHO_BODY_LEN_def echo_wire_def padded_len_wire pad_wire_def[of "[]"] rtcp_consts)

lemma feedback_short:
  "length buf < length (gn_wire g) \<Longrightarrow> \<exists>e. GenericNack_serialize_into g buf = Inl e"
  "length buf < length (rn_wire r) \<Longrightarrow> \<exists>e. RangeNack_serialize_into r buf = Inl e"
  "length buf < length (echo_wire e') \<Longrightarrow> \<exists>e. RttEcho_serialize_into e' buf = Inl e"
  using feedback_lens(1)[of g] feedback_lens(2)[of r] feedback_lens(3)[of e'] unfolding GenericNack_serialized_len_def RangeNack_serialized_len_def
  by (simp_all add: GenericNack_serialize_into_def RangeNack_serialize_into_def serialize_padded_def RttEcho_serialize_into_def Let_def need_out_eq)

interpretation generic_nack: prefix_wire_type GenericNack_parse GenericNack_serialized_len GenericNack_serialize_into gn_ok gn_wire
  using gn_parse[of _ "[]"] by unfold_locales (auto simp: feedback_lens gn_serialize gn_parse feedback_short)

interpretation range_nack: prefix_wire_type RangeNack_parse RangeNack_serialized_len RangeNack_serialize_into rn_ok rn_wire
  using rn_parse[of _ "[]"] by unfold_locales (auto simp: feedback_lens rn_serialize rn_parse feedback_short)

interpretation rtt_echo: prefix_wire_type RttEcho_parse RttEcho_serialized_len RttEcho_serialize_into echo_ok echo_wire
  using echo_parse[of _ "[]"] by unfold_locales (auto simp: feedback_lens echo_serialize echo_parse feedback_short)

text \<open>
  C19. RIST feedback messages lose nothing on the wire. Whatever bytes a Generic NACK, Range NACK or
  RTT Echo is parsed from, serializing it gives back exactly those bytes up to the length the packet
  declares, padding included; and each value whose padding and counts the format can express is
  serialized to bytes that parse to it again, whatever follows them.
\<close>

theorem rist_feedback_round_trip:
  "(GenericNack_parse bs = Inr g \<longrightarrow>
      try_to_bytes GenericNack_serialized_len GenericNack_serialize_into g = Inr (take (rtcp_total_len bs) bs)) \<and>
   (RangeNack_parse bs = Inr r \<longrightarrow>
      try_to_bytes RangeNack_serialized_len RangeNack_serialize_into r = Inr (take (rtcp_total_len bs) bs)) \<and>
   (RttEcho_parse bs = Inr e \<longrightarrow>
      try_to_bytes RttEcho_serialized_len RttEcho_serialize_into e = Inr (take (rtcp_total_len bs) bs)) \<and>
   (gn_ok g \<longrightarrow> (\<exists>w. try_to_bytes GenericNack_serialized_len GenericNack_serialize_into g = Inr w \<and> GenericNack_parse (w @ rest) = Inr g)) \<and>
   (rn_ok r \<longrightarrow> (\<exists>w. try_to_bytes RangeNack_serialized_len RangeNack_serialize_into r = Inr w \<and> RangeNack_parse (w @ rest) = Inr r)) \<and>
   (echo_ok e \<longrightarrow> (\<exists>w. try_to_bytes RttEcho_serialized_len RttEcho_serialize_into e = Inr w \<and> RttEcho_parse (w @ rest) = Inr e))"
  using gn_parse_back[of bs g] rn_parse_back[of bs r] echo_parse_back[of bs e] generic_nack.try_to_bytes_wire[of g] range_nack.try_to_bytes_wire[of r]
    rtt_echo.try_to_bytes_wire[of e] gn_parse[of g rest] rn_parse[of r rest] echo_parse[of e rest] by simp

text \<open>A Range NACK of two ranges with a padding of four bytes, and its 24 bytes.\<close>

theorem rist_feedback_round_trip_witness:
  "let bs = [0xA0, 204, 0, 5, 0, 0, 0x12, 0x34, 0x52, 0x49, 0x53, 0x54, 0xFF, 0xFE, 0, 3, 0, 9, 0, 0, 7, 7, 7, 4, 99];
       r = \<lparr>rn_ssrc_media = 0x1234, rn_ranges = [\<lparr>range_start = 0xFFFE, range_additional = 3\<rparr>, \<lparr>range_start = 9, range_additional = 0\<rparr>],
            rn_padding = [7, 7, 7]\<rparr>
   in RangeNack_parse bs = Inr r \<and> try_to_bytes RangeNack_serialized_len RangeNack_serialize_into r = Inr (take 24 bs)"
proof -
  let ?bs = "[0xA0, 204, 0, 5, 0, 0, 0x12, 0x34, 0x52, 0x49, 0x53, 0x54, 0xFF, 0xFE, 0, 3, 0, 9, 0, 0, 7, 7, 7, 4, 99] :: bytes"
  let ?r = "\<lparr>rn_ssrc_media = 0x1234, rn_ranges = [\<lparr>range_start = 0xFFFE, range_additional = 3\<rparr>, \<lparr>range_start = 9, range_additional = 0\<rparr>],
            rn_padding = [7, 7, 7]\<rparr>"
  have ok: "rn_ok ?r" by (simp add: rn_ok_def pad_ok_def)
  have w: "rn_wire ?r @ [99] = ?bs"
    by (simp add: rn_wire_def rtcp_wire_def rn_body_def pad_wire_def count_byte_def words_field_def entries_wire_def entry_bytes_def
        u16_to_be_def u32_to_be_def RIST_APP_NAME_U32_def RTCP_PADDING_MASK_def drop_bit_eq_div)
  have p: "RangeNack_parse ?bs = Inr ?r" using rn_parse[OF ok, of "[99]"] unfolding w .
  have t: "rtcp_total_len ?bs = 24" using image_total[OF rn_image[OF ok, of "[99]"]] unfolding w by (simp add: pad_wire_def)
  show ?thesis using rist_feedback_round_trip[of ?bs undefined ?r undefined "[]"] p unfolding t Let_def by blast
qed

end
