(* ===== verification/Rist_Recovery.thy ===== *)
theory Rist_Recovery
  imports Rist_Timing Rist_Sender_Spec Rist_Wire_Spec
begin

text \<open>
  One round of recovery across the wire: the requests of a tick are sent as a Range NACK, parsed and
  answered by the sender, and its answers are fed to the receiver.
\<close>

lemma seqn_rq: "seqn base i = rq base (int i)"
  by (simp add: seqn_def rq_def)

section \<open>Arrivals of requested positions\<close>

definition feed_all :: "RistReceiver \<Rightarrow> u16 list \<Rightarrow> duration \<Rightarrow> RistReceiver" where
  "feed_all r ss t = fold (\<lambda>s r. fst (rist_feed r s t)) ss r"

lemma feed_all_receiving:
  assumes "receiving base n hi A G r" "set ps \<subseteq> {lo..hi}" "hi < lo + 32767" "lo \<le> n" "\<forall>g \<in> G. g \<le> hi"
  shows "\<exists>m. n \<le> m \<and> receiving base m hi (A \<union> set ps) G (feed_all r (map (rq base) ps) t)"
  using assms
proof (induction ps arbitrary: n A r)
  case Nil
  then show ?case by (intro exI[of _ n]) (simp add: feed_all_def)
next
  case (Cons p ps)
  have n: "n \<le> hi + 1" "hi < n + 32768" using Cons.prems(1) by (simp_all add: receiving_def)
  have p: "lo \<le> p" "p \<le> hi" using Cons.prems(2) by auto
  have "hi - 32767 < p" "p < n + 32768" "p \<le> hi + int (max_gap r)" using p n Cons.prems(3) by simp_all
  from feed_receiving[OF Cons.prems(1) this Cons.prems(5), of t] obtain m r' where
    m: "rist_feed r (rq base p) t = (r', map (rq base) [n..m - 1])" "n \<le> m" "receiving base m (max hi p) (insert p A) G r'" by blast
  have "receiving base m hi (insert p A) G r'" using m(3) p by (simp add: max_absorb1)
  from Cons.IH[OF this] Cons.prems m(2) obtain k where
    "m \<le> k" "receiving base k hi (insert p A \<union> set ps) G (feed_all r' (map (rq base) ps) t)" by auto
  then show ?case using m(1,2) by (intro exI[of _ k]) (simp add: feed_all_def)
qed

section \<open>The round\<close>

definition range_nack_of :: "u32 \<Rightarrow> RistTick \<Rightarrow> RangeNack" where
  "range_nack_of ssrc out = \<lparr>rn_ssrc_media = ssrc, rn_ranges = tick_due out, rn_padding = []\<rparr>"

lemma range_nack_wire:
  assumes "length (tick_due out) \<le> MAX_RANGE_ENTRIES"
  shows "\<exists>w. try_to_bytes RangeNack_serialized_len RangeNack_serialize_into (range_nack_of ssrc out) = Inr w \<and>
    RangeNack_parse w = Inr (range_nack_of ssrc out)"
proof -
  have "rn_ok (range_nack_of ssrc out)" using assms by (simp add: rn_ok_def pad_ok_def range_nack_of_def MAX_RANGE_ENTRIES_def)
  then show ?thesis by (rule range_nack.parse_try_to_bytes)
qed

lemma expand_ranges_concat: "concat (map expand_range rs) = expand_ranges rs"
  by (induction rs) (simp_all add: expand_range_def)

text \<open>The receiver's side: the requested positions, before anything was given up.\<close>

lemma requests_of_tick:
  assumes run: "rist_receiving c base (ne, hi, log, now, r)" and tick: "rist_tick r t = Some (r', out)"
    and none: "rist_given_up log = []" "tick_given_up out = []"
  shows "\<exists>n qs. receiving base n hi (rist_fed log) {} r' \<and> 0 \<le> ne \<and> ne \<le> hi + 1 \<and> ne \<le> n \<and> set qs \<subseteq> {n..hi} \<and> distinct qs \<and>
    expand_ranges (tick_due out) = map (rq base) qs \<and> length (tick_due out) \<le> MAX_RANGE_ENTRIES"
proof -
  obtain ds gs where I: "rist_inv base ne hi ds gs log r" using rist_receiving_inv[OF run] by blast
  then have ne: "gs = []" "0 \<le> ne" using none(1) by (simp_all add: rist_inv_def)
  then have R: "receiving base ne hi (rist_fed log) {} r" using I by (simp add: rist_inv_def)
  obtain n hs qs us where n: "receiving base n hi (rist_fed log) ({} \<union> set hs) r'" "ne \<le> n" "tick_given_up out = map (rq base) hs"
    and q: "sorted_wrt (<) (qs @ us)" "expand_ranges (tick_due out) = map (rq base) qs" "length (tick_due out) \<le> MAX_RANGE_ENTRIES"
      "set (qs @ us) = {p \<in> {n..hi} - rist_fed log - ({} \<union> set hs). \<exists>st. track base r p = Some st \<and> request_is_due (arq_config r) t (promote_now r t st)}"
    using tick_positions[OF R tick] by blast
  have "set qs \<subseteq> {n..hi}"
  proof
    fix x assume "x \<in> set qs"
    then have "x \<in> set (qs @ us)" by simp
    then show "x \<in> {n..hi}" unfolding q(4) by simp
  qed
  moreover have "distinct qs" using q(1) by (simp add: sorted_wrt_append strict_sorted_iff)
  moreover have "receiving base n hi (rist_fed log) {} r'" using n(1,3) none(2) by simp
  moreover have "ne \<le> hi + 1" using R by (simp add: receiving_def)
  ultimately show ?thesis using n(2) q(2,3) ne(2) by (intro exI[of _ n] exI[of _ qs]) simp
qed

text \<open>The sender's side: it answers with exactly the requested positions.\<close>

lemma answered_positions:
  assumes sender: "rist_sending base max_n ps slog snow s" "snow \<le> t'"
    and held: "int (length ps) - int (rist_depth max_n) \<le> ne" "hi < int (length ps)"
    and rest: "\<forall>i. names (map (rq base) qs) base i \<longrightarrow> may_resend slog t' i"
    and qs: "set qs \<subseteq> {ne..hi}" "distinct qs" "0 \<le> ne" "ne \<le> hi + 1" "hi < ne + 32767"
  shows "\<exists>new. snd (rist_resolve s (map (rq base) qs) t') = map (resent_packet base ps) new \<and> distinct new \<and> int ` set new = set qs"
proof -
  have "length qs = card (set qs)" using qs(2) by (simp add: distinct_card)
  also have "\<dots> \<le> card {ne..hi}" using qs(1) by (intro card_mono) simp_all
  finally have len: "length qs \<le> MAX_RANGE_EXPANSION" using qs by (simp add: MAX_RANGE_EXPANSION_def)
  have named: "names (map (rq base) qs) base i \<longleftrightarrow> int i \<in> set qs" if "length ps - rist_depth max_n \<le> i" "i < length ps" for i
  proof -
    have "rist_depth max_n \<le> 32767" by (simp add: rist_depth_def)
    then have i: "hi - 32767 < int i" "int i < ne + 32768" using that held by linarith+
    have "\<forall>p \<in> set qs. hi - 32767 \<le> p \<and> p < hi - 32767 + 65536" using qs by fastforce
    from rq_mem[OF this, of "int i" base] show ?thesis
      unfolding names_def using len i qs(4) by (simp add: seqn_rq)
  qed
  obtain new where new: "snd (rist_resolve s (map (rq base) qs) t') = map (resent_packet base ps) new" "distinct new"
    "set new = {i. length ps - rist_depth max_n \<le> i \<and> i < length ps \<and> names (map (rq base) qs) base i \<and> may_resend slog t' i}"
    using resolve_exactly[OF sender, of "map (rq base) qs"] by blast
  have "int ` set new = set qs"
  proof (intro equalityI subsetI)
    fix p assume p: "p \<in> set qs"
    then have "0 \<le> p" "ne \<le> p" "p \<le> hi" using qs by auto
    then have "int (nat p) = p" "length ps - rist_depth max_n \<le> nat p" "nat p < length ps" using held by linarith+
    then have "nat p \<in> set new" using p named[of "nat p"] rest unfolding new(3) by simp
    then show "p \<in> int ` set new" using \<open>int (nat p) = p\<close> by force
  qed (use named new(3) in auto)
  then show ?thesis using new(1,2) by blast
qed

text \<open>
  C7. One round recovers a loss. When a tick asks for everything that is missing and nothing was given up
  yet, its requests survive the wire as a Range NACK; a sender of the same numbering that still holds the
  missing packets and did not resend them within 20 ms answers with every one of them, once, as it was
  sent; and when the answers are fed to the receiver in the order they were sent, nothing is missing any
  more and delivery has reached the highest position received.
\<close>

theorem rist_round_recovers:
  assumes run: "rist_receiving c base (ne, hi, log, now, r)" and tick: "rist_tick r t = Some (r', out)"
    and all: "set (map fst (missing r')) \<subseteq> set (expand_ranges (tick_due out))"
    and none: "rist_given_up log = []" "tick_given_up out = []" and window: "hi < ne + 32767"
    and sender: "rist_sending base max_n ps slog snow s" "snow \<le> t'"
    and held: "int (length ps) - int (rist_depth max_n) \<le> ne" "hi < int (length ps)"
    and rest: "\<forall>i. names (expand_ranges (tick_due out)) base i \<longrightarrow> may_resend slog t' i"
  shows "\<exists>w nack new. try_to_bytes RangeNack_serialized_len RangeNack_serialize_into (range_nack_of ssrc out) = Inr w \<and>
    RangeNack_parse w = Inr nack \<and> snd (on_range_nack s nack t') = map (resent_packet base ps) new \<and> distinct new \<and>
    (let r'' = feed_all r' (map rt_seq (snd (on_range_nack s nack t'))) t''
     in missing r'' = [] \<and> next_expected r'' = Some (rq base (hi + 1)))"
proof -
  let ?A = "rist_fed log" and ?nack = "range_nack_of ssrc out"
  obtain n qs where R': "receiving base n hi ?A {} r'" and n: "0 \<le> ne" "ne \<le> hi + 1" "ne \<le> n"
    and q: "set qs \<subseteq> {n..hi}" "distinct qs" "expand_ranges (tick_due out) = map (rq base) qs" "length (tick_due out) \<le> MAX_RANGE_ENTRIES"
    using requests_of_tick[OF run tick none] by blast
  have sub: "set qs \<subseteq> {ne..hi}" using q(1) n(3) by auto
  have resolve: "snd (on_range_nack s ?nack t') = snd (rist_resolve s (map (rq base) qs) t')"
    by (simp add: on_range_nack_def range_nack_of_def expand_ranges_concat q(3))
  obtain new where new: "snd (on_range_nack s ?nack t') = map (resent_packet base ps) new" "distinct new" "int ` set new = set qs"
    using answered_positions[OF sender held rest[unfolded q(3)] sub q(2) n(1,2) window] unfolding resolve by blast
  have seqs: "map rt_seq (snd (on_range_nack s ?nack t')) = map (rq base) (map int new)"
    unfolding new(1) by (simp add: resent_packet_def seqn_rq)
  have "set (map int new) \<subseteq> {ne..hi}" using new(3) sub by simp
  from feed_all_receiving[OF R' this window n(3), of t''] obtain m where
    m: "n \<le> m" "receiving base m hi (?A \<union> set (map int new)) {} (feed_all r' (map (rq base) (map int new)) t'')" by auto
  have "set (map fst (missing r')) = rq base ` ({n..hi} - ?A)" using R' by (simp add: receiving_def dom_map_of_conv_image_fst)
  then have in_qs: "rq base ` ({n..hi} - ?A) \<subseteq> rq base ` set qs" using all unfolding q(3) by simp
  have win: "\<forall>p \<in> set qs. ne \<le> p \<and> p < ne + 65536" using sub window by fastforce
  have covered: "p \<in> set qs" if "p \<in> {n..hi} - ?A" for p
  proof -
    have "rq base p \<in> rq base ` set qs" using that in_qs by blast
    then show ?thesis using rq_mem[OF win, of p base] that n(3) window by auto
  qed
  have m_hi: "m = hi + 1"
  proof (rule ccontr)
    assume "m \<noteq> hi + 1"
    then have "m \<le> hi" "m \<notin> ?A" "m \<notin> set qs" using m(2) new(3) by (auto simp: receiving_def)
    then show False using covered[of m] m(1) by simp
  qed
  have "missing (feed_all r' (map (rq base) (map int new)) t'') = []"
    using m(2) unfolding m_hi receiving_def by (intro no_keys) simp
  moreover obtain w where "try_to_bytes RangeNack_serialized_len RangeNack_serialize_into ?nack = Inr w" "RangeNack_parse w = Inr ?nack"
    using range_nack_wire[OF q(4)] by blast
  ultimately show ?thesis using new(1,2) m(2) unfolding seqs[symmetric] m_hi
    by (intro exI[of _ w] exI[of _ ?nack] exI[of _ new]) (simp add: receiving_def Let_def)
qed

end
