(* ===== verification/Rist_Formats.thy ===== *)
theory Rist_Formats
  imports Rist_Recovery
begin

text \<open>
  The two loss report formats ask for the same: packing the requests of a tick into bit-mask entries
  and expanding them gives back the same numbers, in the same order.
\<close>

section \<open>The bit mask\<close>

lemma fci_mask_rq:
  assumes "sorted_wrt (<) (p # ps)" "\<forall>q \<in> set ps. q < p + 32768"
  shows "\<exists>ts qs blp'. fci_mask (rq base p) blp (map (rq base) ps) = (blp', map (rq base) qs) \<and> ps = ts @ qs \<and>
    (\<forall>t \<in> set ts. t \<le> p + 16) \<and> (\<forall>b < 16. bit blp' b \<longleftrightarrow> bit blp b \<or> p + int b + 1 \<in> set ts)"
  using assms
proof (induction ps arbitrary: blp)
  case Nil
  show ?case by (intro exI[of _ "[]"] exI[of _ blp]) simp
next
  case (Cons q ps)
  have d: "rist_seq_diff (rq base q) (rq base p) = q - p" using Cons.prems by (intro rq_diff) auto
  show ?case
  proof (cases "q - p \<le> 16")
    case False
    then show ?thesis using d by (intro exI[of _ "[]"] exI[of _ "q # ps"] exI[of _ blp]) (simp add: BLP_BIT_WIDTH_def)
  next
    case True
    let ?blp = "blp OR push_bit (nat (q - p) - 1) 1"
    obtain ts qs blp' where r: "fci_mask (rq base p) ?blp (map (rq base) ps) = (blp', map (rq base) qs)" "ps = ts @ qs"
      "\<forall>t \<in> set ts. t \<le> p + 16" "\<forall>b < 16. bit blp' b \<longleftrightarrow> bit ?blp b \<or> p + int b + 1 \<in> set ts"
      using Cons.IH[of ?blp] Cons.prems by auto
    have pq: "p < q" using Cons.prems by simp
    have "bit ?blp b \<longleftrightarrow> bit blp b \<or> p + int b + 1 = q" if "b < 16" for b
    proof -
      have "bit ?blp b \<longleftrightarrow> bit blp b \<or> b = nat (q - p) - 1" using that
        by (auto simp: bit_or_iff bit_exp_iff)
      moreover have "b = nat (q - p) - 1 \<longleftrightarrow> p + int b + 1 = q" using pq by auto
      ultimately show ?thesis by simp
    qed
    then show ?thesis using r True d pq
      by (intro exI[of _ "q # ts"] exI[of _ qs] exI[of _ blp']) (auto simp: BLP_BIT_WIDTH_def Let_def)
  qed
qed

lemma expand_fci_rq:
  assumes "sorted_wrt (<) (p # ts)" "\<forall>t \<in> set ts. t \<le> p + 16" "\<forall>b < 16. bit blp b \<longleftrightarrow> p + int b + 1 \<in> set ts"
  shows "expand_fci \<lparr>fci_pid = rq base p, fci_blp = blp\<rparr> = map (rq base) (p # ts)"
proof -
  let ?f = "\<lambda>b. p + int b + 1" and ?bs = "filter (bit blp) [0..<16]"
  have s: "sorted_wrt (<) ?bs" by (rule sorted_wrt_filter) simp
  have "sorted_wrt (<) (map ?f ?bs)" unfolding sorted_wrt_map by (rule sorted_wrt_mono_rel[OF _ s]) simp
  moreover have "sorted_wrt (<) ts" using assms(1) by simp
  moreover have "set (map ?f ?bs) = set ts"
  proof (intro equalityI subsetI)
    fix t assume t: "t \<in> set ts"
    then have "p < t" "t \<le> p + 16" using assms(1,2) by auto
    then have "?f (nat (t - p - 1)) = t" "nat (t - p - 1) < 16" by simp_all
    then show "t \<in> set (map ?f ?bs)" using t assms(3) by (auto simp: image_iff intro!: bexI[of _ "nat (t - p - 1)"])
  qed (use assms(3) in auto)
  ultimately have ts: "map ?f ?bs = ts" by (simp add: strict_sorted_equal)
  have "filter (\<lambda>b. blp AND push_bit b 1 \<noteq> 0) [0..<16] = ?bs"
    by (intro filter_cong refl) (simp only: bit_iff_and_push_bit_not_eq_0)
  moreover have "rist_seq_add (rq base p) (word_of_nat (b + 1)) = rq base (?f b)" for b
    by (simp add: rist_seq_add_def rq_def algebra_simps)
  ultimately have "expand_fci \<lparr>fci_pid = rq base p, fci_blp = blp\<rparr> = rq base p # map (\<lambda>b. rq base (?f b)) ?bs"
    by (simp add: expand_fci_def BLP_BIT_WIDTH_def)
  also have "map (\<lambda>b. rq base (?f b)) ?bs = map (rq base) (map ?f ?bs)" by simp
  finally show ?thesis unfolding ts by simp
qed

lemma seqs_to_fci_rq:
  assumes "sorted_wrt (<) ps" "\<forall>p \<in> set ps. lo \<le> p \<and> p < lo + 32768"
  shows "concat (map expand_fci (seqs_to_fci (map (rq base) ps))) = map (rq base) ps"
  using assms
proof (induction "length ps" arbitrary: ps rule: less_induct)
  case less
  show ?case
  proof (cases ps)
    case (Cons p ps')
    have "\<forall>q \<in> set ps'. q < p + 32768" using less.prems Cons by fastforce
    from fci_mask_rq[OF less.prems(1)[unfolded Cons] this, of base 0] obtain ts qs blp where
      r: "fci_mask (rq base p) 0 (map (rq base) ps') = (blp, map (rq base) qs)" "ps' = ts @ qs" "\<forall>t \<in> set ts. t \<le> p + 16"
        "\<forall>b < 16. bit blp b \<longleftrightarrow> p + int b + 1 \<in> set ts" by auto
    have "sorted_wrt (<) (p # ts)" "sorted_wrt (<) qs" using less.prems(1) Cons r(2) by (auto simp: sorted_wrt_append)
    moreover have "concat (map expand_fci (seqs_to_fci (map (rq base) qs))) = map (rq base) qs"
      using less.prems Cons r(2) calculation(2) by (intro less.hyps) auto
    ultimately show ?thesis unfolding Cons r(2) using r expand_fci_rq[of p ts blp base] by simp
  qed simp
qed

text \<open>
  C16. The two report formats are interchangeable. The requests of any tick, packed into bit-mask entries
  and expanded, are the same numbers in the same order as those of its ranges, across the wrap too, so a
  sender answers the Generic NACK and the Range NACK of a tick with the same packets.
\<close>

theorem rist_formats_agree:
  assumes run: "rist_receiving c base (ne, hi, log, now, r)" and tick: "rist_tick r t = Some (r', out)"
  shows "concat (map expand_fci (ranges_to_fci (tick_due out))) = expand_ranges (tick_due out) \<and>
    on_generic_nack s (gn\<lparr>gn_nacks := ranges_to_fci (tick_due out)\<rparr>) t' = on_range_nack s (rn\<lparr>rn_ranges := tick_due out\<rparr>) t'"
proof -
  obtain ds gs where I: "rist_inv base ne hi ds gs log r" using rist_receiving_inv[OF run] by blast
  then have R: "receiving base ne hi (rist_fed log) (set gs) r" by (simp add: rist_inv_def)
  obtain n hs ps qs where n: "receiving base n hi (rist_fed log) (set gs \<union> set hs) r'"
    and q: "sorted_wrt (<) (ps @ qs)" "expand_ranges (tick_due out) = map (rq base) ps"
      "set (ps @ qs) = {p \<in> {n..hi} - rist_fed log - (set gs \<union> set hs). \<exists>st. track base r p = Some st \<and> request_is_due (arq_config r) t (promote_now r t st)}"
    using tick_positions[OF R tick] by blast
  have "\<forall>p \<in> set ps. n \<le> p \<and> p < n + 32768"
  proof
    fix p assume "p \<in> set ps"
    then have "p \<in> set (ps @ qs)" by simp
    then show "n \<le> p \<and> p < n + 32768" unfolding q(3) using n by (auto simp: receiving_def)
  qed
  moreover have "sorted_wrt (<) ps" using q(1) by (simp add: sorted_wrt_append)
  ultimately have e: "concat (map expand_fci (ranges_to_fci (tick_due out))) = expand_ranges (tick_due out)"
    unfolding ranges_to_fci_def q(2) by (intro seqs_to_fci_rq)
  then show ?thesis by (simp add: on_generic_nack_def on_range_nack_def expand_ranges_concat)
qed

end
