(* ===== verification/Rist_Runs.thy ===== *)
theory Rist_Runs
  imports Rist_Stall Rist_Steady Rist_Formats
begin

text \<open>
  Three runs of a RIST receiver with the default configuration, evaluated step by step. In the first one
  packet is lost and asked for again. In the second the number 3 is given up while 1 is
  still being waited for. The loss of 1 is promoted before any RTT sample, so its first request waits for
  the fallback interval; a sample of 5 ms follows, and 3, lost later, uses up its seven requests within
  42 ms. When 1 then arrives, 1 and 2 are delivered and 3 is the next expected, which nothing tracks.
  In the third, three consecutive packets beyond the gap ceiling start the stream anew.
\<close>

section \<open>Evaluation\<close>

lemmas rist_config_eval = appendix_b_defaults_def from_millis_def from_micros_def as_micros_def reassembly_budget_def
  fallback_retransmission_interval_def U64_MAX_def derive_max_gap_def as_millis_def BASE_MAX_GAP_def clamp_to_def

lemmas rist_tick_eval = rist_config_eval rist_tick_def tick_requests_def ripe_def promote_def exhausted_def
  request_is_due_def requested_def request_delay_def scale_1_1_def rtt_estimate_def RistRtt_smoothed_def
  cap_ranges_def skip_loop.simps rist_drain.simps Let_def rist_seq_next_def rist_seq_add_def
  MAX_RANGE_ENTRIES_def MAX_RANGE_EXPANSION_def

lemmas rist_feed_eval = rist_config_eval rist_feed_def RistReceiver_new_def arrive_def rist_gt_diff rist_diff_cases
  fill_gap.simps rist_drain.simps Let_def rist_seq_next_def rist_seq_add_def

lemma run_feed:
  assumes "rist_receiving c base (ne, hi, log, now, r)" "rist_feed r (rq base p) t = (r', out)" "now \<le> t" "hi - 32767 < p"
    "p < ne + 32768" "p \<le> hi + int (max_gap r)" "front_after base ne r' = n" "max hi p = h"
  shows "rist_receiving c base (n, h, Fed p out # log, t, r')"
  using rist_receiving.step[OF assms(1) rist_step.feed[OF assms(3-6,2)]] assms(7,8) by simp

lemma run_tick:
  assumes "rist_receiving c base (ne, hi, log, now, r)" "rist_tick r t = Some (r', out)" "now \<le> t" "front_after base ne r' = n"
  shows "rist_receiving c base (n, hi, Ticked out # log, t, r')"
  using rist_receiving.step[OF assms(1) rist_step.tick[OF assms(3,2)]] assms(4) by simp

section \<open>The run\<close>

definition default_rx :: "u16 \<Rightarrow> u16 set \<Rightarrow> (u16 \<times> MissingState) list \<Rightarrow> u16 \<Rightarrow> nat option \<Rightarrow> RistReceiver" where
  "default_rx ne A m hi rtt = \<lparr>arq_config = appendix_b_defaults, next_expected = Some ne, ahead_set = A, missing = m,
     highest_received = Some hi, max_gap = 512, pending_resync = None, rist_rtt = \<lparr>eight_times_us = rtt\<rparr>\<rparr>"

definition early_loss :: MissingState where
  "early_loss = \<lparr>first_missing_at = 1000000, promoted_at = Some 71000000, requests_sent = 0, next_request_due = Some 203857142\<rparr>"

definition late_loss :: "nat \<Rightarrow> nat \<Rightarrow> MissingState" where
  "late_loss n due = \<lparr>first_missing_at = 72000000, promoted_at = Some 142000000, requests_sent = n, next_request_due = Some due\<rparr>"

definition promotes :: "u16 \<Rightarrow> RistTick" where
  "promotes s = \<lparr>tick_promoted = [s], tick_due = [], tick_given_up = [], tick_unblocked = []\<rparr>"

definition asks_for_3 :: RistTick where
  "asks_for_3 = \<lparr>tick_promoted = [], tick_due = [\<lparr>range_start = 3, range_additional = 0\<rparr>], tick_given_up = [], tick_unblocked = []\<rparr>"

definition gives_up_3 :: RistTick where
  "gives_up_3 = \<lparr>tick_promoted = [], tick_due = [], tick_given_up = [3], tick_unblocked = []\<rparr>"

definition stall_log :: "RistEvent list" where
  "stall_log = Fed 1 [1, 2] # Ticked gives_up_3 # replicate 7 (Ticked asks_for_3) @
     [Ticked (promotes 3), Fed 4 [], Sampled 5000000, Ticked (promotes 1), Fed 2 [], Fed 0 [0]]"

lemmas stall_state = default_rx_def early_loss_def late_loss_def promotes_def asks_for_3_def gives_up_3_def

lemma ask_tick:
  assumes "due \<le> t" "t < 200000000" "n < 7"
  shows "rist_tick (default_rx 1 {4, 2} [(1, early_loss), (3, late_loss n due)] 4 (Some 40000)) t =
    Some (default_rx 1 {4, 2} [(1, early_loss), (3, late_loss (n + 1) (t + 5500000))] 4 (Some 40000), asks_for_3)"
proof -
  have "\<not> 1023000000 \<le> t - 71000000" "\<not> 1023000000 \<le> t - 142000000" "\<not> 7 \<le> n" "\<not> 203857142 \<le> t"
    using assms by linarith+
  then show ?thesis using assms by (simp add: rist_tick_eval stall_state del: set_map set_filter)
qed

lemma front_1: "front_after 0 1 (default_rx 1 A m hi rtt) = 1"
  by (simp add: front_after_def default_rx_def rq_def)

lemma ask_run:
  assumes "rist_receiving appendix_b_defaults 0 (1, 4, log, now, default_rx 1 {4, 2} [(1, early_loss), (3, late_loss n due)] 4 (Some 40000))"
    and "now \<le> t" "due \<le> t" "t < 200000000" "n < 7"
  shows "rist_receiving appendix_b_defaults 0
    (1, 4, Ticked asks_for_3 # log, t, default_rx 1 {4, 2} [(1, early_loss), (3, late_loss (n + 1) (t + 5500000))] 4 (Some 40000))"
  by (rule run_tick[OF assms(1) ask_tick[OF assms(3-5)] assms(2) front_1])

lemma gap_run:
  "rist_receiving appendix_b_defaults 0 (1, 2, [Fed 2 [], Fed 0 [0]], 1000000, default_rx 1 {2} [(1, newly_missing 1000000)] 2 None)"
proof -
  let ?c = appendix_b_defaults
  have "rist_feed (RistReceiver_new ?c) 0 0 = (default_rx 1 {} [] 0 None, [0])"
    by (simp add: rist_feed_eval stall_state RistRtt_new_def)
  then have "rist_receiving ?c 0 (1, 0, [Fed 0 [0]], 0, default_rx 1 {} [] 0 None)"
    using rist_receiving.start[of "[]" ?c 0 0] by (simp add: front_after_def stall_state)
  then show ?thesis
    by (rule run_feed) (simp_all add: rist_feed_eval stall_state front_after_def rq_def)
qed

lemma loss_run:
  "rist_receiving appendix_b_defaults 0
    (1, 2, [Ticked (promotes 1), Fed 2 [], Fed 0 [0]], 71000000, default_rx 1 {2} [(1, early_loss)] 2 None)"
  using gap_run
  by (rule run_tick) (simp_all add: rist_tick_eval stall_state newly_missing_def front_after_def rq_def del: set_map set_filter)

lemma stall_run_begin:
  "rist_receiving appendix_b_defaults 0
    (1, 4, [Ticked (promotes 3), Fed 4 [], Sampled 5000000, Ticked (promotes 1), Fed 2 [], Fed 0 [0]], 142000000,
     default_rx 1 {4, 2} [(1, early_loss), (3, late_loss 0 147000000)] 4 (Some 40000))"
proof -
  let ?c = appendix_b_defaults
  from rist_receiving.step[OF loss_run rist_step.sample[of 0 _ _ _ _ _ 5000000]]
  have "rist_receiving ?c 0 (1, 2, [Sampled 5000000, Ticked (promotes 1), Fed 2 [], Fed 0 [0]], 71000000,
      default_rx 1 {2} [(1, early_loss)] 2 (Some 40000))"
    by (simp add: on_rtt_sample_def RistRtt_update_def rist_config_eval stall_state Let_def)
  then have "rist_receiving ?c 0 (1, 4, [Fed 4 [], Sampled 5000000, Ticked (promotes 1), Fed 2 [], Fed 0 [0]], 72000000,
      default_rx 1 {4, 2} [(1, early_loss), (3, newly_missing 72000000)] 4 (Some 40000))"
    by (rule run_feed) (simp_all add: rist_feed_eval stall_state front_after_def rq_def)
  then show ?thesis
    by (rule run_tick) (simp_all add: rist_tick_eval stall_state newly_missing_def front_after_def rq_def del: set_map set_filter)
qed

lemma seven: "replicate 7 x = [x, x, x, x, x, x, x]"
  by (simp add: eval_nat_numeral)

lemma seven_Suc: "Suc (Suc (Suc (Suc (Suc (Suc (Suc 0)))))) = 7"
  by simp

lemma stall_run:
  "rist_receiving appendix_b_defaults 0 (3, 4, stall_log, 185000000, default_rx 3 {4} [] 4 (Some 40000))"
proof -
  let ?c = appendix_b_defaults
  note start = ask_run[OF ask_run[OF ask_run[OF stall_run_begin, of 147000000], of 153000000], of 159000000]
  note mid = ask_run[OF ask_run[OF ask_run[OF ask_run[OF start, of 165000000], of 171000000], of 177000000], of 183000000]
  have "rist_receiving ?c 0 (1, 4, replicate 7 (Ticked asks_for_3) @
     [Ticked (promotes 3), Fed 4 [], Sampled 5000000, Ticked (promotes 1), Fed 2 [], Fed 0 [0]], 183000000,
     default_rx 1 {4, 2} [(1, early_loss), (3, late_loss 7 188500000)] 4 (Some 40000))"
    using mid by (simp add: seven seven_Suc)
  then have given_up: "rist_receiving ?c 0 (1, 4, Ticked gives_up_3 # replicate 7 (Ticked asks_for_3) @
     [Ticked (promotes 3), Fed 4 [], Sampled 5000000, Ticked (promotes 1), Fed 2 [], Fed 0 [0]], 184000000,
     default_rx 1 {4, 2} [(1, early_loss)] 4 (Some 40000))"
    by (rule run_tick) (simp_all add: rist_tick_eval stall_state front_after_def rq_def del: set_map set_filter)
  have buffer: "{4, 2} - {2} = {4 :: u16}" by auto
  show ?thesis unfolding stall_log_def
    by (rule run_feed[OF given_up]) (simp_all add: rist_feed_eval stall_state front_after_def rq_def buffer)
qed

text \<open>
  A receiver after its first packet, and four packets beyond its ceiling: 700, 600, 601 and 602. The first
  is forgotten, the others start the stream anew.
\<close>

definition waiting_resync :: "u16 \<Rightarrow> u16 \<Rightarrow> nat \<Rightarrow> RistReceiver" where
  "waiting_resync b n k = (default_rx 1 {} [] 0 None)\<lparr>pending_resync := Some \<lparr>resync_base = b, next_needed = n, resync_count = k\<rparr>\<rparr>"

lemma stray_run:
  "rist_receiving appendix_b_defaults 0 (1, 0, [Stray 601 [], Stray 600 [], Stray 700 [], Fed 0 [0]], 3, waiting_resync 600 602 2)"
proof -
  let ?c = appendix_b_defaults
  note eval = rist_feed_eval stall_state waiting_resync_def feed_resync_candidate_def RESYNC_CONFIRM_COUNT_def rq_def
  have "rist_feed (RistReceiver_new ?c) 0 0 = (default_rx 1 {} [] 0 None, [0])"
    by (simp add: rist_feed_eval stall_state RistRtt_new_def)
  then have 0: "rist_receiving ?c 0 (1, 0, [Fed 0 [0]], 0, default_rx 1 {} [] 0 None)"
    using rist_receiving.start[of "[]" ?c 0 0] by (simp add: front_after_def stall_state)
  have "rist_feed (default_rx 1 {} [] 0 None) (rq 0 700) 1 = (waiting_resync 700 701 1, [])" by (simp add: eval)
  from rist_receiving.step[OF 0 rist_step.stray[OF _ _ _ this]]
  have 1: "rist_receiving ?c 0 (1, 0, [Stray 700 [], Fed 0 [0]], 1, waiting_resync 700 701 1)"
    by (simp add: waiting_resync_def default_rx_def)
  have "rist_feed (waiting_resync 700 701 1) (rq 0 600) 2 = (waiting_resync 600 601 1, [])" by (simp add: eval)
  from rist_receiving.step[OF 1 rist_step.stray[OF _ _ _ this]]
  have 2: "rist_receiving ?c 0 (1, 0, [Stray 600 [], Stray 700 [], Fed 0 [0]], 2, waiting_resync 600 601 1)"
    by (simp add: waiting_resync_def default_rx_def)
  have "rist_feed (waiting_resync 600 601 1) (rq 0 601) 3 = (waiting_resync 600 602 2, [])" by (simp add: eval)
  from rist_receiving.step[OF 2 rist_step.stray[OF _ _ _ this]] show ?thesis
    by (simp add: waiting_resync_def default_rx_def)
qed

definition jump_log :: "RistEvent list" where
  "jump_log = [Jumped 602 [600, 601, 602], Stray 601 [], Stray 600 [], Stray 700 [], Fed 0 [0]]"

lemma jump_run: "rist_receiving appendix_b_defaults 0 (603, 602, jump_log, 4, default_rx 603 {} [] 602 None)"
proof -
  have three: "run_from 3 600 = [600, 601, 602]" by (simp add: numeral_3_eq_3 rist_seq_next_def rist_seq_add_def)
  have "rist_feed (waiting_resync 600 602 2) (rq 0 602) 4 = (default_rx 603 {} [] 602 None, [600, 601, 602])"
    by (simp add: rist_feed_eval stall_state waiting_resync_def feed_resync_candidate_def RESYNC_CONFIRM_COUNT_def rq_def three)
  from rist_receiving.step[OF stray_run rist_step.resync[OF _ _ _ this]] show ?thesis
    by (simp add: jump_log_def waiting_resync_def default_rx_def)
qed

section \<open>Witnesses\<close>

lemma stall_log_simps:
  "rist_delivered stall_log = [0, 1, 2]" "rist_given_up stall_log = [3]" "rist_fed stall_log = {0, 1, 2, 4}"
  "last_resync stall_log = 0"
  by (auto simp: stall_log_def seven rist_delivered_def rist_given_up_def rist_fed_def gives_up_3_def asks_for_3_def promotes_def)

theorem rist_delivers_in_order_witness:
  "(\<exists>ds gs. rist_delivered stall_log = map (rq 0) ds \<and> sorted_wrt (<) ds \<and> set ds \<subseteq> {0, 1, 2} \<and>
    rist_given_up stall_log = map (rq 0) gs \<and> distinct gs \<and> {0..<3} \<subseteq> set ds \<union> set gs \<and> ds \<noteq> [] \<and> gs \<noteq> []) \<and>
   (\<exists>ds. rist_delivered jump_log = map (rq 0) ds \<and> sorted_wrt (<) ds \<and> {600..<603} \<subseteq> set ds \<and> rist_delivered jump_log = [0, 600, 601, 602])"
proof
  obtain ds gs where d: "rist_delivered stall_log = map (rq 0) ds \<and> sorted_wrt (<) ds \<and> set ds \<subseteq> rist_fed stall_log \<inter> {0..<3} \<and>
    rist_given_up stall_log = map (rq 0) gs \<and> distinct gs \<and> {last_resync stall_log..<3} \<subseteq> set ds \<union> set gs"
    using rist_delivers_in_order[OF stall_run] by blast
  then have "ds \<noteq> []" "gs \<noteq> []" "set ds \<subseteq> {0, 1, 2}" "{0..<3} \<subseteq> set ds \<union> set gs" by (auto simp: stall_log_simps)
  with d show "\<exists>ds gs. rist_delivered stall_log = map (rq 0) ds \<and> sorted_wrt (<) ds \<and> set ds \<subseteq> {0, 1, 2} \<and>
    rist_given_up stall_log = map (rq 0) gs \<and> distinct gs \<and> {0..<3} \<subseteq> set ds \<union> set gs \<and> ds \<noteq> [] \<and> gs \<noteq> []" by blast
next
  have log: "rist_given_up jump_log = []" "last_resync jump_log = 600" "rist_delivered jump_log = [0, 600, 601, 602]"
    by (simp_all add: jump_log_def rist_delivered_def rist_given_up_def)
  obtain ds gs where d: "rist_delivered jump_log = map (rq 0) ds" "sorted_wrt (<) ds" "rist_given_up jump_log = map (rq 0) gs"
    "{last_resync jump_log..<603} \<subseteq> set ds \<union> set gs"
    using rist_delivers_in_order[OF jump_run] by blast
  then have "{600..<603} \<subseteq> set ds" unfolding log by simp
  then show "\<exists>ds. rist_delivered jump_log = map (rq 0) ds \<and> sorted_wrt (<) ds \<and> {600..<603} \<subseteq> set ds \<and>
      rist_delivered jump_log = [0, 600, 601, 602]"
    using d(1,2) log(3) by blast
qed

text \<open>A tick and the packets 5 and 6 follow, with the next second between them; nothing is delivered or requested.\<close>

theorem rist_delivery_stalls_witness:
  "\<exists>r r' q. rist_receiving appendix_b_defaults 0 (3, 4, stall_log, 185000000, r) \<and> missing r = [] \<and> rist_given_up stall_log = [3] \<and>
    rist_run r [FeedOp 5 186000000, TickOp 1186000000, FeedOp 6 1187000000] = Some (r', [], q) \<and>
    3 \<notin> set q \<and> next_expected r' = Some 3"
proof -
  let ?r = "default_rx 3 {4} [] 4 (Some 40000)"
  have "waits_on (rq 0 3) ?r [FeedOp 5 186000000, TickOp 1186000000, FeedOp 6 1187000000]"
    by (simp add: rist_feed_eval rist_tick_eval stall_state rq_def confirms_resync_def goes_past_def del: set_map set_filter)
  then show ?thesis
    using rist_delivery_stalls[OF stall_run, of "[FeedOp 5 186000000, TickOp 1186000000, FeedOp 6 1187000000]"] stall_run
    by (auto simp: stall_log_simps default_rx_def rq_def)
qed


text \<open>The gap of the first run, never repaired: 2 is handed over when 1 is given up.\<close>

theorem rist_drains_in_time_witness:
  "\<exists>r1 o1 r2 o2. rist_tick (default_rx 1 {2} [(1, newly_missing 1000000)] 2 None) 71000000 = Some (r1, o1) \<and>
    rist_tick r1 1094000000 = Some (r2, o2) \<and> tick_unblocked o1 @ tick_unblocked o2 = [2] \<and> next_expected r2 = Some 3 \<and> missing r2 = [] \<and> ahead_set r2 = {}"
proof -
  have "whole_us appendix_b_defaults" by (simp add: whole_us_def rist_config_eval)
  moreover have "1000000 + reorder_section appendix_b_defaults \<le> 71000000"
    "71000000 + scale_1_1 (reassembly_budget appendix_b_defaults) \<le> 1094000000"
    by (simp_all add: rist_config_eval scale_1_1_def)
  moreover have "filter (\<lambda>p. p \<in> rist_fed [Fed 2 [], Fed 0 [0]]) [1..2] = [2]" by (simp add: upto_rec1)
  ultimately show ?thesis using rist_drains_in_time[OF gap_run, of 71000000 1094000000] by (simp add: rq_def)
qed

text \<open>The request that repairs the loss of the first run.\<close>

abbreviation asks_for_1 :: RistTick where
  "asks_for_1 \<equiv> \<lparr>tick_promoted = [], tick_due = [\<lparr>range_start = 1, range_additional = 0\<rparr>], tick_given_up = [], tick_unblocked = []\<rparr>"

lemma loss_tick:
  "\<exists>r'. rist_tick (default_rx 1 {2} [(1, early_loss)] 2 None) 204000000 = Some (r', asks_for_1) \<and> map fst (missing r') = [1]"
  by (simp add: rist_tick_eval stall_state del: set_map set_filter)

lemma expand_asks_for_1: "expand_ranges (tick_due asks_for_1) = [1]"
  by (simp add: MAX_RANGE_EXPANSION_def)

theorem rist_formats_agree_witness:
  "\<exists>r'. rist_tick (default_rx 1 {2} [(1, early_loss)] 2 None) 204000000 = Some (r', asks_for_1) \<and>
    concat (map expand_fci (ranges_to_fci (tick_due asks_for_1))) = [1] \<and>
    on_generic_nack (RistSender_new 4) \<lparr>gn_ssrc_sender = 1, gn_ssrc_media = 2, gn_nacks = ranges_to_fci (tick_due asks_for_1), gn_padding = []\<rparr> 5 =
      on_range_nack (RistSender_new 4) \<lparr>rn_ssrc_media = 2, rn_ranges = tick_due asks_for_1, rn_padding = []\<rparr> 5"
proof -
  obtain r' where tick: "rist_tick (default_rx 1 {2} [(1, early_loss)] 2 None) 204000000 = Some (r', asks_for_1)"
    using loss_tick by blast
  from rist_formats_agree[OF loss_run tick, of "RistSender_new 4" "\<lparr>gn_ssrc_sender = 1, gn_ssrc_media = 2, gn_nacks = [], gn_padding = []\<rparr>" 5
      "\<lparr>rn_ssrc_media = 2, rn_ranges = [], rn_padding = []\<rparr>"]
  show ?thesis using tick unfolding expand_asks_for_1 by simp
qed

theorem rist_resync_needs_three_witness:
  "snd (rist_feed (waiting_resync 600 602 2) (rq 0 602) 4) = [600, 601, 602] \<and>
    next_expected (fst (rist_feed (waiting_resync 600 602 2) (rq 0 602) 4)) = Some 603 \<and>
    snd (rist_feed (waiting_resync 600 602 2) (rq 0 604) 4) = []"
proof -
  have gap: "0 + int (max_gap (waiting_resync 600 602 2)) < 602" "0 + int (max_gap (waiting_resync 600 602 2)) < 604"
    by (simp_all add: waiting_resync_def default_rx_def)
  show ?thesis
    using rist_resync_needs_three[OF stray_run gap(1), of 4] rist_resync_needs_three[OF stray_run gap(2), of 4] by (simp add: rq_def)
qed

text \<open>The loss of the first run, repaired in one round.\<close>

theorem rist_round_recovers_witness:
  "\<exists>s r' out. rist_sending 0 4 [(0, [1]), (90, [2]), (180, [3])] [] 0 s \<and>
    rist_tick (default_rx 1 {2} [(1, early_loss)] 2 None) 204000000 = Some (r', out) \<and>
    (\<exists>w nack new. try_to_bytes RangeNack_serialized_len RangeNack_serialize_into (range_nack_of 9 out) = Inr w \<and>
      RangeNack_parse w = Inr nack \<and> snd (on_range_nack s nack 205000000) = map (resent_packet 0 [(0, [1]), (90, [2]), (180, [3])]) new \<and>
      distinct new \<and> (let r'' = feed_all r' (map rt_seq (snd (on_range_nack s nack 205000000))) 206000000
        in missing r'' = [] \<and> next_expected r'' = Some 3))"
proof -
  let ?ps = "[(0, [1]), (90, [2]), (180, [3])] :: (u32 \<times> bytes) list"
  obtain s where sender: "rist_sending 0 4 ?ps [] 0 s"
    using sending_sent[OF sending_sent[OF sending_sent[OF sending_new refl] refl] refl, of 0 4 0 "[1]" 90 "[2]" 180 "[3]"] by auto
  obtain r' where tick: "rist_tick (default_rx 1 {2} [(1, early_loss)] 2 None) 204000000 = Some (r', asks_for_1)"
    and keys: "map fst (missing r') = [1]" using loss_tick by (elim exE conjE) (rule that)
  have "expand_ranges [\<lparr>range_start = 1, range_additional = 0\<rparr>] = [1]" by (simp add: MAX_RANGE_EXPANSION_def)
  then show ?thesis
    using rist_round_recovers[OF loss_run tick _ _ _ _ sender, of 205000000 9 206000000] keys sender
    unfolding tick by (intro exI[of _ s] exI[of _ r'] exI[of _ asks_for_1] conjI)
      (simp_all add: rist_depth_def may_resend_def promotes_def rq_def Let_def)
qed

end
