(* ===== verification/Spec2Isabelle.thy ===== *)
theory Spec2Isabelle
  imports Seq Bcd_Time Owned_Packet Si_Chain Section Srt_Recovery Srt_Playout
    Srt_Connect_Spec Resync_Clean Pusi Rist_Runs
begin

text \<open>
  A verification library for the Rust broadcast workspace.

  The workspace is a family of crates for broadcast transport. The part modelled here is its
  sans-IO core: the shared primitives of \<open>broadcast-common\<close>, the MPEG transport stream crate
  \<open>mpeg-ts\<close>, the packet formats, the caller-listener handshake, the reliability (ARQ) engine and
  the play-out scheduler of \<open>srt-runtime\<close>, and the feedback messages and the reliability engine of
  \<open>rist-runtime\<close>. These are pure functions and state records with explicit time arguments, and the
  definitions follow them item by item: a struct is a record, an enum a datatype with the same constructors, a \<open>Result\<close> the
  sum \<open>result\<close>, a slice a \<open>bytes\<close> list, a buffer that is written into the list returned updated.
  Machine integers are words where they wrap or are masked; lengths and counters that cannot
  overflow are \<open>nat\<close>; a \<open>Duration\<close> is its number of nanoseconds.

  Theories and the code they model:

  \<^item> \<open>Prelude\<close>, \<open>Common_Errors\<close>: byte lists, big-endian words, results, and the locale \<open>wire_type\<close> of
    the contract between \<open>Parse\<close> and \<open>Serialize\<close>; \<open>broadcast-common/src/error.rs\<close>, \<open>len.rs\<close>,
    \<open>traits.rs\<close>. Every wire format below interprets the locale. \<open>Wire_Words\<close>: big-endian words at offsets
    of a packet, shared by the SRT and RIST codecs.
  \<^item> \<open>Seq\<close>: circular sequence numbers, \<open>broadcast-common/src/seq.rs\<close> and its SRT and RIST instances;
    the locale \<open>circular_seq\<close> holds the laws of a circular space and is interpreted on both.
  \<^item> \<open>Clock33\<close>, \<open>Bcd_Time\<close>, \<open>Crc32\<close>: the 33-bit clock, packed decimal and Modified Julian dates, and
    the CRC-32/MPEG-2 of \<open>broadcast-common\<close>, the last proved equal to the shift register of the
    standard.
  \<^item> \<open>Ts_Packet\<close>, \<open>Adaptation\<close>, \<open>Adaptation_Field\<close>, \<open>Owned_Packet\<close>: \<open>mpeg-ts/src/ts.rs\<close>, \<open>owned.rs\<close>,
    \<open>pid.rs\<close>, \<open>error.rs\<close>.
  \<^item> \<open>Reassembler\<close>, \<open>Packetiser\<close>, \<open>Si_Chain\<close>: \<open>SectionReassembler\<close> of \<open>ts.rs\<close>, \<open>SectionPacketiser\<close> and
    \<open>SiMux\<close> of \<open>mux.rs\<close>, and the chain from sections through packets back to sections. \<open>Section\<close>:
    \<open>section.rs\<close>.
  \<^item> \<open>Resync\<close> (definitions of \<open>mpeg-ts/src/resync.rs\<close>), \<open>Resync_Spec\<close> (runs on any input) and
    \<open>Resync_Clean\<close> (a whole stream behind junk). \<open>Pusi\<close>: \<open>broadcast-common/src/pusi.rs\<close>,
    \<open>mpeg-ts/src/pusi.rs\<close> and \<open>mpeg-pes/src/assembler.rs\<close>, units delimited by the start flag.
  \<^item> \<open>Srt_Wire\<close>, \<open>Srt_Handshake\<close>, \<open>Srt_Control\<close>: \<open>srt-runtime/src/packet/\<close>, every SRT packet in both
    directions.
  \<^item> \<open>Srt_Connect\<close> (definitions of \<open>srt-runtime/src/handshake_sm.rs\<close>, \<open>caller.rs\<close>, \<open>listener.rs\<close>, as built
    without the \<open>crypto\<close> feature, and of \<open>peer_handshake\<close> in \<open>io.rs\<close>) and \<open>Srt_Connect_Spec\<close> (the exchange of the two machines, the runs of
    a listener, refusals and timeouts).
  \<^item> \<open>Srt_Arq\<close>: \<open>srt-runtime/src/arq/mod.rs\<close> and \<open>rtt.rs\<close>; positions, the integers that sequence
    numbers stand for in a stream.
  \<^item> \<open>Srt_Receiver\<close> (definitions of \<open>arq/receiver.rs\<close>), \<open>Srt_Reception\<close> (one operation at a time, in
    terms of the positions received and withdrawn), \<open>Srt_Receiver_Spec\<close> (runs over all operations,
    withdrawals by \<open>skip_range\<close> included; what a tick sends).
  \<^item> \<open>Srt_Sender\<close> (definitions of \<open>arq/sender.rs\<close>) and \<open>Srt_Sender_Spec\<close> (its searches, operations and
    runs). \<open>Srt_Recovery\<close>: both halves together, one round of loss recovery.
  \<^item> \<open>Srt_Tsbpd\<close> (definitions of \<open>srt-runtime/src/tsbpd.rs\<close>), \<open>Srt_Tsbpd_Spec\<close> (what one call releases
    and drops, and that it returns) and \<open>Srt_Playout\<close> (runs of the scheduler, and its time line).
  \<^item> \<open>Rist_Wire\<close> (definitions of \<open>rist-runtime/src/nack.rs\<close>, \<open>rtt_echo.rs\<close>, \<open>error.rs\<close>) and
    \<open>Rist_Wire_Spec\<close> (the three feedback messages are inverse to their parsers).
  \<^item> \<open>Rist_Arq\<close> (definitions of \<open>rist-runtime/src/arq/mod.rs\<close>, \<open>rtt.rs\<close>, \<open>sender.rs\<close>, \<open>receiver.rs\<close>);
    \<open>Rist_Sender_Spec\<close> (runs of the sender); \<open>Rist_Reception\<close> (one operation of the receiver at a time, in
    terms of positions), \<open>Rist_Receiver_Spec\<close> (runs of the receiver, resynchronisations included),
    \<open>Rist_Stall\<close> (how delivery can stop), \<open>Rist_Timing\<close> (how often positions are requested), \<open>Rist_Steady\<close> (how long delivery is held
    back); \<open>Rist_Recovery\<close> and \<open>Rist_Formats\<close> (both halves together, and the two report formats);
    \<open>Rist_Runs\<close> (concrete runs).

  What the lemmas show. Wire formats: parsing and serializing are inverse, with the exact errors.
  Transport stream: what the multiplexer cuts into packets a reassembler restores, with gapless
  continuity counters and emission when due; the resynchroniser accounts for every byte it is fed.
  SRT: caller and listener agree on the parameters over the wire, and none connects without the
  cookie; the receiver's state is a function of the
  positions received and withdrawn, its reports name exactly the gaps, the sender's buffer is a suffix of what
  was submitted and its work for a report is bounded whatever the report says; the scheduler hands
  on an increasing stream and accounts for every number it passes. RIST: the receiver delivers an
  increasing stream and accounts for every position it passes, requests none too often, and drains in
  a bounded time while the RTT estimate does not change, but a position given up behind the front
  stops it until its packet arrives, a resynchronisation is confirmed or the numbers come round; the sender answers a report with exactly what it asks for, in either format, and
  one round repairs a loss.

  Bounds and termination. Every loop is a structurally recursive function or has a termination
  proof by a measure (the length that is left, the interval of a binary search, the circular
  distance to the end of a gap, the cardinality of a set); no fuel is used. The release loop of the
  play-out scheduler and its inner walk are partial functions, \<open>None\<close> for a call that does not
  return: \<open>tick_outcome\<close> shows that a call returns when the numbers held are in the 31-bit space, and
  \<open>walk_stuck\<close> that the walk to a number outside it does not end. The loop of the RIST tick that skips
  numbers given up is a partial function in the same way, and \<open>tick_receiving\<close> shows that it returns.
  Statements on SRT positions hold while packets are within half of the 31-bit circle of the ack point, less the
  tracked window, those on RIST positions while packets are within half of the 16-bit circle of the
  front; the exact bounds are hypotheses of each theorem, or of the rules of the runs.

  Not modelled. The tokio adapters and every other runtime that performs I/O; key material and
  encryption, whose ciphers are external crates; congestion
  control and the rendezvous handshake of SRT; the compound RTCP packets of RIST, which embed reports of
  the \<open>rtcp-packet\<close> crate; and the other crates of the workspace. \<open>Display\<close>
  implementations and \<open>name()\<close> labels carry no behaviour. Overflow of a \<open>Duration\<close> beyond \<open>2^94\<close>
  nanoseconds would panic and is out of the range of the values used.
\<close>

end
